(* ===== verification/Prelude.thy ===== *)
theory Prelude
  imports Main "HOL-Library.Word"
begin

text \<open>
  Shared vocabulary of the development: C integers and strings, the \<^verbatim>\<open>ctype\<close> classes the
  parsers use (in the C locale), array access that reports an out-of-range index, and the
  generic list lemmas the component theories rest on.

  A C string is a \<^typ>\<open>string\<close> (a list of bytes with no NUL in it); a pointer that may be NULL
  is an \<^typ>\<open>'a option\<close>. A \<^verbatim>\<open>size_t\<close> or index that the code keeps below a compile-time
  bound is a \<^typ>\<open>nat\<close>; values whose bits matter are words.
\<close>

named_theorems decision_simps \<open>unfolding rules of the three-valued verdict operations\<close>
named_theorems label_simps \<open>membership in a label set after an operation on it\<close>
named_theorems plan_simps \<open>selectors of a plan after an operation on it\<close>

type_synonym u64 = "64 word"
type_synonym cstr = string

abbreviation UINT_MAX :: nat where "UINT_MAX \<equiv> 4294967295"
abbreviation UINT32_MAX :: nat where "UINT32_MAX \<equiv> 4294967295"

section \<open>Bytes and the ctype classes of the C locale\<close>

definition byte :: "char \<Rightarrow> nat" where
  "byte c = of_char c"

definition isspace :: "char \<Rightarrow> bool" where
  "isspace c \<longleftrightarrow> byte c = 32 \<or> (9 \<le> byte c \<and> byte c \<le> 13)"

definition isdigit :: "char \<Rightarrow> bool" where
  "isdigit c \<longleftrightarrow> 48 \<le> byte c \<and> byte c \<le> 57"

definition islower :: "char \<Rightarrow> bool" where
  "islower c \<longleftrightarrow> 97 \<le> byte c \<and> byte c \<le> 122"

definition isupper :: "char \<Rightarrow> bool" where
  "isupper c \<longleftrightarrow> 65 \<le> byte c \<and> byte c \<le> 90"

definition isalpha :: "char \<Rightarrow> bool" where
  "isalpha c \<longleftrightarrow> islower c \<or> isupper c"

lemma byte_less_256 [simp]: "byte c < 256"
  using of_char_of [of "byte c"] by (simp add: byte_def)

lemma char_of_byte [simp]: "char_of (byte c) = c"
  by (simp add: byte_def)

lemma byte_char_of [simp]: "n < 256 \<Longrightarrow> byte (char_of n) = n"
  by (simp add: byte_def)

lemma byte_inject: "byte c = byte d \<longleftrightarrow> c = d"
  by (metis char_of_byte)

lemmas ctype_defs = isspace_def isdigit_def islower_def isupper_def isalpha_def

section \<open>Arrays\<close>

text \<open>Reading an array at an index outside it is undefined behaviour; the model returns
  \<^const>\<open>None\<close> there, so that a theorem that the result is \<^term>\<open>Some x\<close> includes memory safety.\<close>

definition rd :: "'a list \<Rightarrow> nat \<Rightarrow> 'a option" where
  "rd xs i = (if i < length xs then Some (xs ! i) else None)"

lemma rd_Some_iff [simp]: "rd xs i = Some x \<longleftrightarrow> i < length xs \<and> xs ! i = x"
  by (auto simp: rd_def)

lemma Some_rd_iff [simp]: "Some x = rd xs i \<longleftrightarrow> i < length xs \<and> xs ! i = x"
  by (auto simp: rd_def)

lemma rd_in [simp]: "i < length xs \<Longrightarrow> rd xs i = Some (xs ! i)"
  by (simp add: rd_def)

section \<open>Counting in lists\<close>

lemma upt_bounded [simp]: "{0..<n} \<subseteq> {..<(n::nat)}"
  by auto

lemma rtrancl_into_closed:
  assumes "(u, s) \<in> R\<^sup>*" and "s \<in> Q" and "\<forall>x \<in> Q. \<forall>v. (v, x) \<in> R \<longrightarrow> v \<in> Q"
  shows "u \<in> Q"
  using assms by (induction rule: converse_rtrancl_induct) auto

lemma count_list_update_decr:
  "i < length xs \<Longrightarrow> xs ! i = x \<Longrightarrow> y \<noteq> x \<Longrightarrow> count_list (xs[i := y]) x < count_list xs x"
proof (induction xs arbitrary: i)
  case Nil
  then show ?case by simp
next
  case (Cons a xs)
  then show ?case by (cases i) auto
qed

lemma count_list_update_le:
  "y \<noteq> x \<Longrightarrow> count_list (xs[i := y]) x \<le> count_list xs x"
proof (induction xs arbitrary: i)
  case Nil
  then show ?case by simp
next
  case (Cons a xs)
  then show ?case by (cases i) (auto simp: le_SucI)
qed

lemma distinct_bounded_length:
  assumes "distinct xs" and "\<forall>x \<in> set xs. x < (n::nat)"
  shows "length xs \<le> n"
proof -
  from assms(2) have "set xs \<subseteq> {..<n}" by auto
  then have "card (set xs) \<le> n"
    using card_mono [of "{..<n}" "set xs"] by simp
  with assms(1) show ?thesis by (simp add: distinct_card)
qed

end
