(* ===== verification/Glob.thy ===== *)
theory Glob
  imports Prelude
begin

text \<open>
  The shell-style pattern matcher of the flow policy: \<open>glob_match\<close> of
  \<^verbatim>\<open>src/v1_7/plan_dataflow_adapter.c\<close>, an iterative matcher that remembers one star to go back to,
  and a reference definition of what a pattern matches.
\<close>

abbreviation star_char :: char where "star_char \<equiv> CHR ''*''"
abbreviation quest_char :: char where "quest_char \<equiv> CHR ''?''"

section \<open>The matcher\<close>

text \<open>The pointers are the remaining suffixes; the remembered star is the pattern after it and the
  text it was met at.\<close>

function glob_loop :: "string \<Rightarrow> string \<Rightarrow> (string \<times> string) option \<Rightarrow> bool" where
  "glob_loop pattern [] star = (dropWhile (\<lambda>c. c = star_char) pattern = [])"
| "glob_loop pattern (c # s) star =
     (if pattern \<noteq> [] \<and> (hd pattern = quest_char \<or> hd pattern = c)
      then glob_loop (tl pattern) s star
      else if pattern \<noteq> [] \<and> hd pattern = star_char
      then glob_loop (tl pattern) (c # s) (Some (tl pattern, c # s))
      else
        (case star of
           None \<Rightarrow> False
         | Some (star_p, star_s) \<Rightarrow> glob_loop star_p (tl star_s) (Some (star_p, tl star_s))))"
  by pat_completeness auto
termination
proof (relation "measures [\<lambda>(p, s, star). max (length s) (case star of None \<Rightarrow> 0 | Some (_, ss) \<Rightarrow> length ss),
                           \<lambda>(p, s, star). length p]", goal_cases)
  case 1
  show ?case by simp
next
  case (2 pattern c s star)
  then show ?case by (cases pattern; cases star) auto
next
  case (3 pattern c s star)
  then show ?case by (cases pattern; cases star) auto
next
  case (4 pattern c s star a b)
  then show ?case by (cases b) auto
qed

declare glob_loop.simps(2) [simp del]

lemma glob_loop_char: "q = quest_char \<or> q = c \<Longrightarrow> glob_loop (q # p) (c # s) star = glob_loop p s star"
  by (simp add: glob_loop.simps(2))

lemma glob_loop_star:
  "c \<noteq> star_char \<Longrightarrow> glob_loop (star_char # p) (c # s) star = glob_loop p (c # s) (Some (p, c # s))"
  by (subst glob_loop.simps(2)) simp

lemma glob_loop_back:
  "\<not> (p \<noteq> [] \<and> (hd p = quest_char \<or> hd p = c)) \<Longrightarrow> \<not> (p \<noteq> [] \<and> hd p = star_char) \<Longrightarrow>
    glob_loop p (c # s) star =
      (case star of None \<Rightarrow> False | Some (sp, ss) \<Rightarrow> glob_loop sp (tl ss) (Some (sp, tl ss)))"
  by (subst glob_loop.simps(2)) (simp only: if_False)

lemmas glob_loop_eqs = glob_loop_char glob_loop_star glob_loop_back

definition glob_match :: "cstr option \<Rightarrow> cstr option \<Rightarrow> bool" where
  "glob_match pattern s =
     (case (pattern, s) of
        (Some p, Some t) \<Rightarrow> glob_loop p t None
      | _ \<Rightarrow> False)"

section \<open>What a pattern matches\<close>

fun glob_spec :: "string \<Rightarrow> string \<Rightarrow> bool" where
  "glob_spec [] s \<longleftrightarrow> s = []"
| "glob_spec (q # p) s \<longleftrightarrow>
     (if q = star_char then (\<exists>k \<le> length s. glob_spec p (drop k s))
      else s \<noteq> [] \<and> (q = quest_char \<or> q = hd s) \<and> glob_spec p (tl s))"

text \<open>The matches that remain for a remembered star: those in which it takes at least one more
  byte.\<close>

definition later :: "(string \<times> string) option \<Rightarrow> bool" where
  "later star \<longleftrightarrow>
     (case star of None \<Rightarrow> False
      | Some (sp, ss) \<Rightarrow> \<exists>k. 1 \<le> k \<and> k \<le> length ss \<and> glob_spec sp (drop k ss))"

lemma glob_spec_stars: "glob_spec p [] \<longleftrightarrow> dropWhile (\<lambda>c. c = star_char) p = []"
  by (induction p) auto

lemma later_tl:
  "ss \<noteq> [] \<Longrightarrow> later (Some (sp, ss)) \<longleftrightarrow> glob_spec sp (tl ss) \<or> later (Some (sp, tl ss))"
proof -
  assume "ss \<noteq> []"
  then obtain c t where ss: "ss = c # t" by (cases ss) auto
  have "(\<exists>k. 1 \<le> k \<and> k \<le> Suc (length t) \<and> glob_spec sp (drop k (c # t))) \<longleftrightarrow>
      (\<exists>k \<le> length t. glob_spec sp (drop k t))"
    by (metis (no_types, lifting) Suc_le_mono add_leE drop_Suc_Cons le_add1 not0_implies_Suc
        not_one_le_zero plus_1_eq_Suc)
  also have "\<dots> \<longleftrightarrow> glob_spec sp t \<or> (\<exists>k. 1 \<le> k \<and> k \<le> length t \<and> glob_spec sp (drop k t))"
    by (metis drop0 le0 not_less_eq_eq One_nat_def Suc_leI neq0_conv)
  finally show ?thesis by (simp add: later_def ss)
qed

text \<open>Soundness holds for every text.\<close>

lemma glob_loop_sound:
  assumes "glob_loop p s star" and "\<And>sp ss. star = Some (sp, ss) \<Longrightarrow> length s \<le> length ss"
  shows "glob_spec p s \<or> later star"
  using assms
proof (induction p s star rule: glob_loop.induct)
  case (1 pattern star)
  then show ?case by (simp add: glob_spec_stars)
next
  case (2 pattern c s star)
  consider q p where "pattern = q # p" "q = quest_char \<or> q = c"
    | p where "pattern = star_char # p" "c \<noteq> star_char"
    | sp ss where "\<not> (pattern \<noteq> [] \<and> (hd pattern = quest_char \<or> hd pattern = c))"
        "\<not> (pattern \<noteq> [] \<and> hd pattern = star_char)" "star = Some (sp, ss)"
    using "2.prems"(1) by (cases pattern) (auto simp: glob_loop.simps(2) split: option.splits if_splits)
  then show ?case
  proof cases
    case 1
    then have "glob_spec p s \<or> later star"
      using "2.IH"(1) "2.prems" glob_loop_char [OF 1(2)] by fastforce
    moreover have "glob_spec pattern (c # s)" if "glob_spec p s"
      using 1 that by (cases "q = star_char") (auto intro!: exI [of _ 1])
    ultimately show ?thesis by blast
  next
    case 2
    then have "glob_spec p (c # s) \<or> later (Some (p, c # s))"
      using "2.IH"(2) "2.prems"(1) glob_loop_star by simp
    then show ?thesis using 2 by (auto simp: later_def intro: exI [of _ 0])
  next
    case 3
    then have ss: "ss \<noteq> []" using "2.prems"(2) by fastforce
    have "glob_spec sp (tl ss) \<or> later (Some (sp, tl ss))"
      using "2.IH"(3) "2.prems"(1) 3 glob_loop_back [OF 3(1,2)] by simp
    then show ?thesis using later_tl [OF ss] 3 by simp
  qed
qed

text \<open>Completeness needs a text without a star: the matcher compares pattern and text bytes before
  it looks at whether the pattern byte is a star, so a star in the text is taken literally.\<close>

lemma glob_spec_star_free:
  assumes "star_char \<notin> set w" and "glob_spec (w @ q) t"
  shows "length w \<le> length t \<and> glob_spec q (drop (length w) t)"
  using assms
proof (induction w arbitrary: t)
  case Nil
  then show ?case by simp
next
  case (Cons a w)
  then show ?case by (cases t) auto
qed

lemma glob_spec_star_suffix:
  "glob_spec (star_char # p) z \<Longrightarrow> glob_spec (star_char # p) (y @ z)"
proof -
  assume "glob_spec (star_char # p) z"
  then obtain k where "k \<le> length z" "glob_spec p (drop k z)" by auto
  then show ?thesis by (auto intro!: exI [of _ "length y + k"])
qed

definition star_inv :: "string \<Rightarrow> string \<Rightarrow> (string \<times> string) option \<Rightarrow> bool" where
  "star_inv p s star \<longleftrightarrow>
     (case star of None \<Rightarrow> True
      | Some (sp, ss) \<Rightarrow> \<exists>w x. sp = w @ p \<and> ss = x @ s \<and> length w = length x \<and>
          star_char \<notin> set w \<and> star_char \<notin> set ss)"

lemma star_inv_advance:
  assumes "star_inv (q # p) (c # s) star" and "q \<noteq> star_char"
  shows "star_inv p s star"
proof (cases star)
  case None
  then show ?thesis by (simp add: star_inv_def)
next
  case (Some f)
  then obtain sp ss w x where f: "star = Some (sp, ss)" "sp = w @ q # p" "ss = x @ c # s"
    "length w = length x" "star_char \<notin> set w" "star_char \<notin> set ss"
    using assms(1) by (cases f) (auto simp: star_inv_def)
  then have "sp = (w @ [q]) @ p \<and> ss = (x @ [c]) @ s \<and> length (w @ [q]) = length (x @ [c]) \<and>
      star_char \<notin> set (w @ [q]) \<and> star_char \<notin> set ss"
    using assms(2) by simp
  then show ?thesis unfolding star_inv_def f(1) option.case prod.case by blast
qed

lemma later_alt: "k \<le> length ss \<Longrightarrow> glob_spec sp (drop k ss) \<Longrightarrow> glob_spec sp ss \<or> later (Some (sp, ss))"
  by (cases k) (auto simp: later_def)

lemma star_inv_later:
  assumes "star_inv p s (Some (sp, ss))" and "later (Some (sp, ss))"
  shows "\<exists>k. 1 \<le> k \<and> k \<le> length s \<and> glob_spec p (drop k s)"
proof -
  from assms obtain w x k where sp: "sp = w @ p" "ss = x @ s" "length w = length x" "star_char \<notin> set w"
    and k: "1 \<le> k" "k \<le> length ss" "glob_spec sp (drop k ss)"
    by (auto simp: star_inv_def later_def)
  from glob_spec_star_free [OF sp(4), of p "drop k ss"] k(3) sp(1)
  have "length w \<le> length ss - k" "glob_spec p (drop (length w + k) ss)" by auto
  then show ?thesis using sp k(1,2) by (intro exI [of _ k]) auto
qed

lemma glob_loop_complete:
  assumes "glob_spec p s \<or> later star" and "star_inv p s star" and "star_char \<notin> set s"
  shows "glob_loop p s star"
  using assms
proof (induction p s star rule: glob_loop.induct)
  case (1 pattern star)
  then have "\<not> later star" using star_inv_later [of pattern "[]"] by (cases star) (auto simp: later_def)
  then show ?case using 1 by (simp add: glob_spec_stars)
next
  case (2 pattern c s star)
  have c: "c \<noteq> star_char" "star_char \<notin> set s" using "2.prems"(3) by auto
  consider q p where "pattern = q # p" "q = quest_char \<or> q = c"
    | p where "pattern = star_char # p"
    | "\<not> (pattern \<noteq> [] \<and> (hd pattern = quest_char \<or> hd pattern = c))"
        "\<not> (pattern \<noteq> [] \<and> hd pattern = star_char)"
    by (cases pattern) auto
  then show ?case
  proof cases
    case 1
    then have q: "q \<noteq> star_char" using c by auto
    have "star_inv p s star" using star_inv_advance "2.prems"(2) 1(1) q by blast
    moreover have "glob_spec p s \<or> later star" using "2.prems"(1) 1 q by auto
    ultimately have "glob_loop p s star" using "2.IH"(1) c(2) 1 by simp
    then show ?thesis using 1 glob_loop_char by simp
  next
    case 2
    have "\<exists>k \<le> length (c # s). glob_spec p (drop k (c # s))"
    proof (cases "glob_spec pattern (c # s)")
      case True
      then show ?thesis using 2 by simp
    next
      case False
      with "2.prems"(1,2) obtain sp ss where "star_inv pattern (c # s) (Some (sp, ss))" "later (Some (sp, ss))"
        by (cases star) (auto simp: later_def)
      then obtain k where "k \<le> length (c # s)" "glob_spec pattern (drop k (c # s))"
        using star_inv_later by blast
      then have "glob_spec pattern (take k (c # s) @ drop k (c # s))"
        using 2 glob_spec_star_suffix by blast
      then show ?thesis using 2 by simp
    qed
    then have "glob_spec p (c # s) \<or> later (Some (p, c # s))" using later_alt by blast
    moreover have "star_inv p (c # s) (Some (p, c # s))" using "2.prems"(3) by (simp add: star_inv_def)
    ultimately have "glob_loop p (c # s) (Some (p, c # s))" using "2.IH"(2) "2.prems"(3) 2 c by simp
    then show ?thesis using 2 c glob_loop_star by simp
  next
    case 3
    have "\<not> glob_spec pattern (c # s)" using 3 by (cases pattern) auto
    then obtain sp ss where st: "star = Some (sp, ss)" "later star"
      using "2.prems"(1) by (cases star) (auto simp: later_def)
    then have ss: "ss \<noteq> []" "star_char \<notin> set ss" using "2.prems"(2) by (auto simp: star_inv_def)
    then have "glob_spec sp (tl ss) \<or> later (Some (sp, tl ss))" using later_tl st by blast
    moreover have "star_char \<notin> set (tl ss)" using ss by (meson list.set_sel(2))
    moreover from this have "star_inv sp (tl ss) (Some (sp, tl ss))" by (simp add: star_inv_def)
    ultimately have "glob_loop sp (tl ss) (Some (sp, tl ss))" using "2.IH"(3) 3 st(1) by blast
    then show ?thesis using glob_loop_back [OF 3] st(1) by simp
  qed
qed

lemma glob_match_sound: "glob_match (Some p) (Some s) \<Longrightarrow> glob_spec p s"
  using glob_loop_sound [of p s None] by (simp add: glob_match_def later_def)

lemma glob_match_iff: "star_char \<notin> set s \<Longrightarrow> glob_match (Some p) (Some s) \<longleftrightarrow> glob_spec p s"
  using glob_match_sound glob_loop_complete [of p s None]
  by (auto simp: glob_match_def star_inv_def)

section \<open>Properties\<close>

text \<open>C13. The greedy matcher with one remembered star ends and never accepts a text the pattern does
  not describe; on a text without the byte \<^verbatim>\<open>*\<close> it accepts exactly the texts the pattern describes,
  where a star stands for any number of bytes and a question mark for one.\<close>

theorem glob_match_correct:
  "(glob_match (Some p) (Some s) \<longrightarrow> glob_spec p s) \<and>
   (star_char \<notin> set s \<longrightarrow> glob_match (Some p) (Some s) = glob_spec p s)"
  using glob_match_sound glob_match_iff by blast

theorem glob_match_correct_witness:
  "star_char \<notin> set ''a/b.txt'' \<and> glob_match (Some ''*/?.txt'') (Some ''a/b.txt'') \<and> glob_spec ''*/?.txt'' ''a/b.txt''"
proof -
  have "glob_match (Some ''*/?.txt'') (Some ''a/b.txt'')" by code_simp
  then show ?thesis using glob_match_correct [of "''*/?.txt''" "''a/b.txt''"] by simp
qed

text \<open>A text byte \<^verbatim>\<open>*\<close> defeats the star: the matcher compares the pattern byte with the text byte
  before it asks whether the pattern byte is the wildcard, so the one-star pattern, which describes
  every text, rejects every text of two or more bytes that begins with a star.\<close>

theorem glob_star_byte_rejected:
  "glob_spec [star_char] (star_char # c # s) \<and> \<not> glob_match (Some [star_char]) (Some (star_char # c # s))"
proof
  have "drop (length (star_char # c # s)) (star_char # c # s) = []" by simp
  then show "glob_spec [star_char] (star_char # c # s)"
    unfolding glob_spec.simps if_P [OF refl] by (metis order_refl)
  show "\<not> glob_match (Some [star_char]) (Some (star_char # c # s))"
    by (simp add: glob_match_def glob_loop.simps(2))
qed

end
