(* ===== verification/Exec_Plan.thy ===== *)
theory Exec_Plan
  imports Prelude
begin

text \<open>
  Construction and storage of an execution plan: \<^verbatim>\<open>src/v1_6/execution_plan.h\<close>,
  \<^verbatim>\<open>execution_plan_internal.h\<close> and \<^verbatim>\<open>execution_plan.c\<close>. A plan is a fixed-capacity array of
  nodes and one of edges, each with a count; the model keeps the used prefix of each array as a
  list, so \<open>n_nodes\<close> is its length.
\<close>

section \<open>Data\<close>

text \<open>The C enum can hold a value that is none of its three constants, and the code handles
  that case (\<^verbatim>\<open>exec_plan_add_node\<close> refuses it, \<^verbatim>\<open>plan_decision_name\<close> names it); it is the fourth
  constructor.\<close>

datatype plan_decision =
    PLAN_DEC_SATISFIED
  | PLAN_DEC_UNSATISFIED
  | PLAN_DEC_UNKNOWN
  | PLAN_DEC_INVALID int

definition valid_decision :: "plan_decision \<Rightarrow> bool" where
  "valid_decision d \<longleftrightarrow>
     d = PLAN_DEC_SATISFIED \<or> d = PLAN_DEC_UNSATISFIED \<or> d = PLAN_DEC_UNKNOWN"

type_synonym plan_node_id = nat

abbreviation PLAN_NODE_ID_INVALID :: plan_node_id where
  "PLAN_NODE_ID_INVALID \<equiv> UINT32_MAX"

definition PLAN_MAX_NODES :: nat where "PLAN_MAX_NODES = 1024"

definition PLAN_MAX_EDGES :: nat where "PLAN_MAX_EDGES = 4096"

record plan_node =
  node_id :: plan_node_id
  node_label :: "cstr option"
  node_decision :: plan_decision

record plan_edge =
  edge_from :: plan_node_id
  edge_to :: plan_node_id

record exec_plan =
  nodes :: "plan_node list"
  edges :: "plan_edge list"

abbreviation n_nodes :: "exec_plan \<Rightarrow> nat" where "n_nodes p \<equiv> length (nodes p)"
abbreviation n_edges :: "exec_plan \<Rightarrow> nat" where "n_edges p \<equiv> length (edges p)"

section \<open>Operations\<close>

fun plan_decision_name :: "plan_decision \<Rightarrow> string" where
  "plan_decision_name PLAN_DEC_SATISFIED = ''SATISFIED''"
| "plan_decision_name PLAN_DEC_UNSATISFIED = ''UNSATISFIED''"
| "plan_decision_name PLAN_DEC_UNKNOWN = ''UNKNOWN''"
| "plan_decision_name (PLAN_DEC_INVALID _) = ''INVALID''"

definition empty_plan :: exec_plan where
  "empty_plan = \<lparr>nodes = [], edges = []\<rparr>"

text \<open>The argument says whether \<^verbatim>\<open>calloc\<close> succeeds.\<close>

definition exec_plan_new :: "bool \<Rightarrow> exec_plan option" where
  "exec_plan_new alloc_ok = (if alloc_ok then Some empty_plan else None)"

definition exec_plan_add_node ::
  "exec_plan option \<Rightarrow> cstr option \<Rightarrow> plan_decision \<Rightarrow> plan_node_id \<times> exec_plan option" where
  "exec_plan_add_node plan label decision =
     (case plan of
        None \<Rightarrow> (PLAN_NODE_ID_INVALID, None)
      | Some p \<Rightarrow>
          if n_nodes p \<ge> PLAN_MAX_NODES then (PLAN_NODE_ID_INVALID, plan)
          else if decision \<noteq> PLAN_DEC_SATISFIED \<and> decision \<noteq> PLAN_DEC_UNSATISFIED
                  \<and> decision \<noteq> PLAN_DEC_UNKNOWN then (PLAN_NODE_ID_INVALID, plan)
          else (n_nodes p,
                Some (p\<lparr>nodes := nodes p @
                  [\<lparr>node_id = n_nodes p, node_label = label, node_decision = decision\<rparr>]\<rparr>)))"

definition exec_plan_add_edge ::
  "exec_plan option \<Rightarrow> plan_node_id \<Rightarrow> plan_node_id \<Rightarrow> int \<times> exec_plan option" where
  "exec_plan_add_edge plan from to =
     (case plan of
        None \<Rightarrow> (-1, None)
      | Some p \<Rightarrow>
          if n_edges p \<ge> PLAN_MAX_EDGES then (-1, plan)
          else if from \<ge> n_nodes p then (-1, plan)
          else if to \<ge> n_nodes p then (-1, plan)
          else if from = to then (-1, plan)
          else (0, Some (p\<lparr>edges := edges p @ [\<lparr>edge_from = from, edge_to = to\<rparr>]\<rparr>)))"

definition exec_plan_node_count :: "exec_plan option \<Rightarrow> nat" where
  "exec_plan_node_count plan = (case plan of None \<Rightarrow> 0 | Some p \<Rightarrow> n_nodes p)"

definition exec_plan_edge_count :: "exec_plan option \<Rightarrow> nat" where
  "exec_plan_edge_count plan = (case plan of None \<Rightarrow> 0 | Some p \<Rightarrow> n_edges p)"

section \<open>The invariant of a plan\<close>

definition plan_rel :: "exec_plan \<Rightarrow> (nat \<times> nat) set" where
  "plan_rel p = (\<lambda>e. (edge_from e, edge_to e)) ` set (edges p)"

definition wf_plan :: "exec_plan \<Rightarrow> bool" where
  "wf_plan p \<longleftrightarrow>
     n_nodes p \<le> PLAN_MAX_NODES \<and> n_edges p \<le> PLAN_MAX_EDGES \<and>
     (\<forall>i < n_nodes p. node_id (nodes p ! i) = i \<and> valid_decision (node_decision (nodes p ! i))) \<and>
     (\<forall>e \<in> set (edges p). edge_from e < n_nodes p \<and> edge_to e < n_nodes p \<and>
                           edge_from e \<noteq> edge_to e)"

lemma valid_decision_simps [simp]:
  "valid_decision PLAN_DEC_SATISFIED" "valid_decision PLAN_DEC_UNSATISFIED"
  "valid_decision PLAN_DEC_UNKNOWN" "\<not> valid_decision (PLAN_DEC_INVALID k)"
  by (simp_all add: valid_decision_def)

lemma wf_empty_plan [simp]: "wf_plan empty_plan"
  by (simp add: wf_plan_def empty_plan_def)

lemma wf_exec_plan_new: "exec_plan_new ok = Some p \<Longrightarrow> wf_plan p"
  by (auto simp: exec_plan_new_def split: if_splits)

lemma wf_exec_plan_add_node:
  assumes "wf_plan p"
  shows "\<exists>p'. snd (exec_plan_add_node (Some p) l d) = Some p' \<and> wf_plan p'"
  using assms
  by (auto simp: exec_plan_add_node_def wf_plan_def nth_append valid_decision_def less_Suc_eq)

lemma wf_exec_plan_add_edge:
  assumes "wf_plan p"
  shows "\<exists>p'. snd (exec_plan_add_edge (Some p) f t) = Some p' \<and> wf_plan p'"
  using assms by (auto simp: exec_plan_add_edge_def wf_plan_def)

lemma plan_rel_add_edge:
  assumes "exec_plan_add_edge (Some p) f t = (0, Some p')"
  shows "plan_rel p' = insert (f, t) (plan_rel p)"
  using assms by (auto simp: exec_plan_add_edge_def plan_rel_def split: if_splits)

lemma plan_rel_bounded: "wf_plan p \<Longrightarrow> (u, v) \<in> plan_rel p \<Longrightarrow> u < n_nodes p \<and> v < n_nodes p"
  by (auto simp: wf_plan_def plan_rel_def)

section \<open>Plans built through the interface\<close>

text \<open>The plans a caller can obtain: a fresh one, and what the two mutators make of it, whether
  they accept or refuse the call.\<close>

inductive plan_built :: "exec_plan \<Rightarrow> bool" where
  fresh: "exec_plan_new ok = Some p \<Longrightarrow> plan_built p"
| add_node: "plan_built p \<Longrightarrow> exec_plan_add_node (Some p) l d = (i, Some p') \<Longrightarrow> plan_built p'"
| add_edge: "plan_built p \<Longrightarrow> exec_plan_add_edge (Some p) f t = (rc, Some p') \<Longrightarrow> plan_built p'"

lemma plan_built_wf: "plan_built p \<Longrightarrow> wf_plan p"
proof (induction rule: plan_built.induct)
  case (fresh ok p)
  then show ?case by (rule wf_exec_plan_new)
next
  case (add_node p l d i p')
  then show ?case using wf_exec_plan_add_node [of p l d] by simp
next
  case (add_edge p f t rc p')
  then show ?case using wf_exec_plan_add_edge [of p f t] by simp
qed

end
