(* ===== verification/Json.thy ===== *)
theory Json
  imports Prelude
begin

text \<open>
  What the two pathology writers share: the escaping of a JSON string
  (\<open>emit_json_string\<close> of \<^verbatim>\<open>src/v1_6/pathology.c\<close> and \<open>bw_putstr\<close> of
  \<^verbatim>\<open>src/v1_7/plan_dataflow_pathology.c\<close> have the same switch), decimal numbers, and, as the
  specification, a grammar of JSON texts without insignificant blanks and a reader of JSON strings.
\<close>

abbreviation quote :: char where "quote \<equiv> CHR 0x22"
abbreviation bslash :: char where "bslash \<equiv> CHR 0x5C"

section \<open>Escaping\<close>

definition hexdigit :: "nat \<Rightarrow> char" where
  "hexdigit n = ''0123456789abcdef'' ! (n mod 16)"

text \<open>The switch over one byte, with \<open>printf("\<bslash>u%04x")\<close> for the other control characters.\<close>

definition esc_char :: "char \<Rightarrow> string" where
  "esc_char c =
     (if c = quote then [bslash, quote]
      else if c = bslash then [bslash, bslash]
      else if byte c = 8 then [bslash, CHR ''b'']
      else if byte c = 12 then [bslash, CHR ''f'']
      else if byte c = 10 then [bslash, CHR ''n'']
      else if byte c = 13 then [bslash, CHR ''r'']
      else if byte c = 9 then [bslash, CHR ''t'']
      else if byte c < 32 then [bslash, CHR ''u'', CHR ''0'', CHR ''0'', hexdigit (byte c div 16), hexdigit (byte c)]
      else [c])"

definition json_string :: "string \<Rightarrow> string" where
  "json_string s = quote # concat (map esc_char s) @ [quote]"

section \<open>Decimal numbers\<close>

text \<open>The digits, least significant first, as the loop of \<open>bw_putu\<close> stores them.\<close>

fun digits_rev :: "nat \<Rightarrow> string" where
  "digits_rev v = (if v = 0 then [] else char_of (48 + v mod 10) # digits_rev (v div 10))"

declare digits_rev.simps [simp del]

definition decimal :: "nat \<Rightarrow> string" where
  "decimal v = rev (if v = 0 then ''0'' else digits_rev v)"

section \<open>JSON texts\<close>

definition is_hex :: "char \<Rightarrow> bool" where
  "is_hex c \<longleftrightarrow> c \<in> set ''0123456789abcdefABCDEF''"

inductive json_chars :: "string \<Rightarrow> bool" where
  nil: "json_chars []"
| plain: "c \<noteq> quote \<Longrightarrow> c \<noteq> bslash \<Longrightarrow> 32 \<le> byte c \<Longrightarrow> json_chars s \<Longrightarrow> json_chars (c # s)"
| esc: "c = quote \<or> c = bslash \<or> c \<in> set ''/bfnrt'' \<Longrightarrow> json_chars s \<Longrightarrow> json_chars (bslash # c # s)"
| uni: "list_all is_hex [a, b, c, d] \<Longrightarrow> json_chars s \<Longrightarrow> json_chars (bslash # CHR ''u'' # a # b # c # d # s)"

inductive json :: "string \<Rightarrow> bool" and elements :: "string \<Rightarrow> bool" and members :: "string \<Rightarrow> bool" where
  str: "json_chars s \<Longrightarrow> json (quote # s @ [quote])"
| number: "s \<noteq> [] \<Longrightarrow> list_all isdigit s \<Longrightarrow> length s = 1 \<or> hd s \<noteq> CHR ''0'' \<Longrightarrow> json s"
| lit: "s \<in> {''true'', ''false'', ''null''} \<Longrightarrow> json s"
| empty_array: "json ''[]''"
| array: "elements s \<Longrightarrow> json (CHR ''['' # s @ '']'')"
| object: "members s \<Longrightarrow> json (CHR ''{'' # s @ ''}'')"
| one_element: "json s \<Longrightarrow> elements s"
| more_elements: "json s \<Longrightarrow> elements t \<Longrightarrow> elements (s @ CHR '','' # t)"
| one_member: "json_chars k \<Longrightarrow> json v \<Longrightarrow> members (quote # k @ quote # CHR '':'' # v)"
| more_members: "json_chars k \<Longrightarrow> json v \<Longrightarrow> members t \<Longrightarrow>
     members (quote # k @ quote # CHR '':'' # v @ CHR '','' # t)"

lemma json_chars_append: "json_chars s \<Longrightarrow> json_chars t \<Longrightarrow> json_chars (s @ t)"
  by (induction rule: json_chars.induct) (auto intro: json_chars.intros)

lemma hexdigit_hex [simp]: "is_hex (hexdigit n)"
proof -
  have "n mod 16 < length ''0123456789abcdef''" by simp
  then have "hexdigit n \<in> set ''0123456789abcdef''" unfolding hexdigit_def by (rule nth_mem)
  then show ?thesis by (auto simp: is_hex_def)
qed

lemma esc_char_ok: "json_chars (esc_char c)"
proof -
  have u: "json_chars [bslash, CHR ''u'', CHR ''0'', CHR ''0'', hexdigit m, hexdigit n]" for m n
    by (rule json_chars.uni) (simp_all add: json_chars.nil, simp add: is_hex_def)
  show ?thesis
    unfolding esc_char_def by (auto intro!: u json_chars.esc json_chars.nil json_chars.plain)
qed

lemma json_chars_escaped: "json_chars (concat (map esc_char s))"
  by (induction s) (auto intro: json_chars.nil json_chars_append esc_char_ok)

lemma json_json_string: "json (json_string s)"
  unfolding json_string_def by (intro json_elements_members.str json_chars_escaped)

lemma digits_rev_digits: "list_all isdigit (digits_rev v)"
proof (induction v rule: digits_rev.induct)
  case (1 v)
  have "v mod 10 < 10" by simp
  then have "isdigit (char_of (48 + v mod 10))" by (simp add: isdigit_def)
  with 1 show ?case by (subst digits_rev.simps) simp
qed

lemma digits_rev_last: "v \<noteq> 0 \<Longrightarrow> digits_rev v \<noteq> [] \<and> last (digits_rev v) \<noteq> CHR ''0''"
proof (induction v rule: digits_rev.induct)
  case (1 v)
  have ne: "char_of (48 + v mod 10) \<noteq> CHR ''0''" if "v div 10 = 0"
  proof -
    have "byte (char_of (48 + v mod 10)) \<noteq> byte CHR ''0''"
      using 1(2) that by (simp add: byte_def [of "CHR ''0''"] div_eq_0_iff)
    then show ?thesis by metis
  qed
  show ?case
  proof (cases "v div 10 = 0")
    case True
    then have "digits_rev (v div 10) = []" by (simp add: digits_rev.simps)
    then show ?thesis using 1(2) ne [OF True] by (subst (1 2) digits_rev.simps) simp
  next
    case False
    then show ?thesis using 1 by (subst (1 2) digits_rev.simps) simp
  qed
qed

lemma json_decimal: "json (decimal v)"
proof (cases "v = 0")
  case True
  then show ?thesis by (intro json_elements_members.number) (simp_all add: decimal_def isdigit_def byte_def)
next
  case False
  then have "decimal v = rev (digits_rev v)" by (simp add: decimal_def)
  moreover have "list_all isdigit (rev (digits_rev v))" using digits_rev_digits [of v] by (simp add: list_all_iff)
  ultimately show ?thesis
    using digits_rev_last [OF False] by (intro json_elements_members.number) (simp_all add: hd_rev)
qed

text \<open>No line break occurs in a JSON text of this grammar.\<close>

lemma json_chars_no_newline: "json_chars s \<Longrightarrow> CHR 0x0A \<notin> set s"
proof (induction rule: json_chars.induct)
  case (uni a b c d s)
  have "is_hex x \<Longrightarrow> x \<noteq> CHR 0x0A" for x by (auto simp: is_hex_def)
  then show ?case using uni by auto
qed (auto simp: byte_def)

lemma json_no_newline: "json s \<Longrightarrow> CHR 0x0A \<notin> set s"
  and "elements t \<Longrightarrow> CHR 0x0A \<notin> set t" and "members u \<Longrightarrow> CHR 0x0A \<notin> set u"
proof (induction rule: json_elements_members.inducts)
  case (number s)
  then show ?case by (auto simp: list_all_iff isdigit_def byte_def)
qed (auto dest: json_chars_no_newline)

section \<open>Reading a string back\<close>

definition hexnum :: "char \<Rightarrow> nat" where
  "hexnum c = (if isdigit c then byte c - 48 else if islower c then byte c - 87 else byte c - 55)"

fun json_unescape :: "string \<Rightarrow> string option" where
  "json_unescape [] = Some []"
| "json_unescape (c # s) =
     (if c \<noteq> bslash then map_option (Cons c) (json_unescape s)
      else
        (case s of
           [] \<Rightarrow> None
         | e # t \<Rightarrow>
             if e = CHR ''u'' then
               (case t of
                  h1 # h2 # h3 # h4 # r \<Rightarrow>
                    map_option (Cons (char_of (((hexnum h1 * 16 + hexnum h2) * 16 + hexnum h3) * 16 + hexnum h4)))
                      (json_unescape r)
                | _ \<Rightarrow> None)
             else if e = quote \<or> e = bslash \<or> e = CHR ''/'' then map_option (Cons e) (json_unescape t)
             else if e = CHR ''b'' then map_option (Cons (char_of (8::nat))) (json_unescape t)
             else if e = CHR ''f'' then map_option (Cons (char_of (12::nat))) (json_unescape t)
             else if e = CHR ''n'' then map_option (Cons (char_of (10::nat))) (json_unescape t)
             else if e = CHR ''r'' then map_option (Cons (char_of (13::nat))) (json_unescape t)
             else if e = CHR ''t'' then map_option (Cons (char_of (9::nat))) (json_unescape t)
             else None))"

lemma hexnum_hexdigit: "hexnum (hexdigit n) = n mod 16"
proof -
  have "\<forall>k \<in> set [0..<16]. hexnum (''0123456789abcdef'' ! k) = k" by code_simp
  then show ?thesis unfolding hexdigit_def by auto
qed

lemma unescape_char: "json_unescape (esc_char c @ s) = map_option (Cons c) (json_unescape s)"
proof -
  have bslash: "byte bslash = 92" "byte quote = 34" by (simp_all add: byte_def)
  have c: "c = char_of (byte c)" by simp
  have "(hexnum (CHR ''0'') * 16 + hexnum (CHR ''0'')) * 16 * 16 + hexnum (hexdigit (byte c div 16)) * 16 +
      hexnum (hexdigit (byte c)) = byte c" if "byte c < 32"
    using that by (simp add: hexnum_hexdigit) (simp add: hexnum_def isdigit_def byte_def [of "CHR ''0''"])
  then have "char_of (((hexnum (CHR ''0'') * 16 + hexnum (CHR ''0'')) * 16 + hexnum (hexdigit (byte c div 16))) * 16 +
      hexnum (hexdigit (byte c))) = c" if "byte c < 32" using that by (simp add: algebra_simps)
  moreover have "byte c = 8 \<Longrightarrow> char_of (8::nat) = c" "byte c = 9 \<Longrightarrow> char_of (9::nat) = c"
    "byte c = 10 \<Longrightarrow> char_of (10::nat) = c" "byte c = 12 \<Longrightarrow> char_of (12::nat) = c"
    "byte c = 13 \<Longrightarrow> char_of (13::nat) = c" using c by metis+
  ultimately show ?thesis by (auto simp: esc_char_def)
qed

lemma unescape_escaped: "json_unescape (concat (map esc_char s)) = Some s"
  by (induction s) (simp_all add: unescape_char)

end
