(* ===== verification/Pathology.thy ===== *)
theory Pathology
  imports Exec_Plan Json
begin

text \<open>
  The log of plan decisions: \<^verbatim>\<open>src/v1_6/pathology.h\<close> and \<^verbatim>\<open>pathology.c\<close>. A sink is an open stream and a
  sequence number; every decision appends one line. The stream is the text written so far (a stream
  error is not visible to the code, which checks no return value); the clock reading is an argument.
\<close>

section \<open>The sink and its records\<close>

datatype pathology_reason =
    PATH_REASON_NONE | PATH_REASON_NODE | PATH_REASON_CYCLE | PATH_REASON_EMPTY | PATH_REASON_CAPACITY
  | PATH_REASON_EDGE_INDEX | PATH_REASON_INVALID int

fun pathology_reason_name :: "pathology_reason \<Rightarrow> string" where
  "pathology_reason_name PATH_REASON_NONE = ''none''"
| "pathology_reason_name PATH_REASON_NODE = ''node''"
| "pathology_reason_name PATH_REASON_CYCLE = ''cycle''"
| "pathology_reason_name PATH_REASON_EMPTY = ''empty''"
| "pathology_reason_name PATH_REASON_CAPACITY = ''capacity''"
| "pathology_reason_name PATH_REASON_EDGE_INDEX = ''edge_index''"
| "pathology_reason_name (PATH_REASON_INVALID _) = ''invalid''"

record pathology_sink =
  fp :: string
  seq :: u64

definition pathology_sink_new :: "bool \<Rightarrow> string option \<Rightarrow> pathology_sink option" where
  "pathology_sink_new alloc_ok stream =
     (case stream of
        None \<Rightarrow> None
      | Some f \<Rightarrow> if \<not> alloc_ok then None else Some \<lparr>fp = f, seq = 0\<rparr>)"

definition emit_json_string :: "cstr option \<Rightarrow> string" where
  "emit_json_string s =
     (case s of
        None \<Rightarrow> [quote, quote]
      | Some t \<Rightarrow> quote # concat (map esc_char t) @ [quote])"

text \<open>\<open>%09ld\<close>\<close>

definition pad9 :: "nat \<Rightarrow> string" where
  "pad9 v = (let d = decimal v in replicate (9 - length d) (CHR ''0'') @ d)"

text \<open>A JSON string literal of a printf format.\<close>

definition q :: "string \<Rightarrow> string" where
  "q s = quote # s @ [quote]"

definition pathology_line ::
  "nat \<Rightarrow> nat \<Rightarrow> u64 \<Rightarrow> plan_decision \<Rightarrow> nat \<Rightarrow> nat \<Rightarrow> nat \<Rightarrow> cstr option \<Rightarrow> plan_decision \<Rightarrow> pathology_reason \<Rightarrow> string" where
  "pathology_line tv_sec tv_nsec seqno plan_decision n_nodes' n_edges' latency_us suppressed_label suppressed_decision reason =
     ''{'' @ q ''report_id'' @ '':'' @ q (''pp-'' @ decimal tv_sec @ ''.'' @ pad9 tv_nsec @ ''-'' @ decimal (unat seqno)) @ '','' @
     q ''type'' @ '':'' @ q ''plan_verify'' @ '','' @
     q ''decision'' @ '':'' @ q (plan_decision_name plan_decision) @ '','' @
     q ''authorized'' @ '':'' @ (if plan_decision = PLAN_DEC_SATISFIED then ''true'' else ''false'') @ '','' @
     q ''n_nodes'' @ '':'' @ decimal n_nodes' @ '','' @
     q ''n_edges'' @ '':'' @ decimal n_edges' @ '','' @
     q ''latency_us'' @ '':'' @ decimal latency_us @ '','' @
     q ''suppression_reason'' @ '':'' @ q (pathology_reason_name reason) @ '','' @
     q ''suppressed_node'' @ '':'' @
       (case suppressed_label of Some l \<Rightarrow> emit_json_string (Some l) | None \<Rightarrow> ''null'') @ '','' @
     q ''suppressed_decision'' @ '':'' @ q (plan_decision_name suppressed_decision) @ '','' @
     q ''timestamp_ns'' @ '':'' @ decimal (tv_sec * 1000000000 + tv_nsec) @ ''}''"

definition pathology_emit_plan_decision ::
  "nat \<Rightarrow> nat \<Rightarrow> pathology_sink option \<Rightarrow> plan_decision \<Rightarrow> nat \<Rightarrow> nat \<Rightarrow> nat \<Rightarrow> cstr option \<Rightarrow> plan_decision \<Rightarrow>
   pathology_reason \<Rightarrow> pathology_sink option" where
  "pathology_emit_plan_decision tv_sec tv_nsec sink plan_decision n_nodes' n_edges' latency_us suppressed_label
     suppressed_decision reason =
     (case sink of
        None \<Rightarrow> None
      | Some s \<Rightarrow>
          Some (s\<lparr>fp := fp s @ pathology_line tv_sec tv_nsec (seq s) plan_decision n_nodes' n_edges' latency_us
                    suppressed_label suppressed_decision reason @ [CHR 0x0A],
                  seq := seq s + 1\<rparr>))"

section \<open>Every line is a JSON object\<close>

lemma member_more: "json_chars k \<Longrightarrow> json v \<Longrightarrow> members t \<Longrightarrow> members (q k @ '':'' @ v @ '','' @ t)"
  using json_elements_members.more_members by (simp add: q_def)

lemma member_one: "json_chars k \<Longrightarrow> json v \<Longrightarrow> members (q k @ '':'' @ v)"
  using json_elements_members.one_member by (simp add: q_def)

definition plain_text :: "string \<Rightarrow> bool" where
  "plain_text s = list_all (\<lambda>c. 32 \<le> byte c \<and> c \<noteq> quote \<and> c \<noteq> bslash) s"

lemma plain_json_chars: "plain_text s \<Longrightarrow> json_chars s"
  by (induction s) (auto simp: plain_text_def intro: json_chars.intros)

lemma plain_append [simp]: "plain_text (s @ t) \<longleftrightarrow> plain_text s \<and> plain_text t"
  by (simp add: plain_text_def)

lemma plain_decimal [simp]: "plain_text (decimal v)"
proof -
  have "list_all isdigit (decimal v)"
    using digits_rev_digits [of v] by (simp add: decimal_def list_all_iff isdigit_def byte_def)
  then show ?thesis by (auto simp: plain_text_def list_all_iff isdigit_def byte_def)
qed

lemma plain_pad9 [simp]: "plain_text (pad9 v)"
  by (simp add: pad9_def Let_def) (simp add: plain_text_def list_all_iff byte_def)

lemma plain_names: "plain_text (plan_decision_name d)" "plain_text (pathology_reason_name r)"
  by (cases d; simp add: plain_text_def byte_def) (cases r; simp add: plain_text_def byte_def)

lemma json_q: "plain_text s \<Longrightarrow> json (q s)"
  unfolding q_def by (intro json_elements_members.str plain_json_chars)

lemma json_emit_string: "json (emit_json_string s)"
  using json_json_string json_elements_members.str [OF json_chars.nil]
  by (auto simp: emit_json_string_def json_string_def split: option.split)

lemma pathology_line_json: "json (pathology_line sec nsec n d nn ne lat lbl sd r)"
proof -
  have k: "json_chars ''report_id''" "json_chars ''type''" "json_chars ''decision''" "json_chars ''authorized''"
    "json_chars ''n_nodes''" "json_chars ''n_edges''" "json_chars ''latency_us''" "json_chars ''suppression_reason''"
    "json_chars ''suppressed_node''" "json_chars ''suppressed_decision''" "json_chars ''timestamp_ns''"
    by (intro plain_json_chars, simp add: plain_text_def byte_def)+
  have v: "plain_text (''pp-'' @ decimal sec @ ''.'' @ pad9 nsec @ ''-'' @ decimal (unat n))" "plain_text ''plan_verify''"
    using plain_decimal plain_pad9 by (simp_all only: plain_append) (simp_all add: plain_text_def byte_def)
  have b: "json (if d = PLAN_DEC_SATISFIED then ''true'' else ''false'')" by (simp add: json_elements_members.lit)
  have l: "json (case lbl of Some l \<Rightarrow> emit_json_string (Some l) | None \<Rightarrow> ''null'')"
    using json_emit_string json_elements_members.lit by (auto split: option.split)
  have "members (q ''report_id'' @ '':'' @ q (''pp-'' @ decimal sec @ ''.'' @ pad9 nsec @ ''-'' @ decimal (unat n)) @ '','' @
     q ''type'' @ '':'' @ q ''plan_verify'' @ '','' @
     q ''decision'' @ '':'' @ q (plan_decision_name d) @ '','' @
     q ''authorized'' @ '':'' @ (if d = PLAN_DEC_SATISFIED then ''true'' else ''false'') @ '','' @
     q ''n_nodes'' @ '':'' @ decimal nn @ '','' @
     q ''n_edges'' @ '':'' @ decimal ne @ '','' @
     q ''latency_us'' @ '':'' @ decimal lat @ '','' @
     q ''suppression_reason'' @ '':'' @ q (pathology_reason_name r) @ '','' @
     q ''suppressed_node'' @ '':'' @
       (case lbl of Some l \<Rightarrow> emit_json_string (Some l) | None \<Rightarrow> ''null'') @ '','' @
     q ''suppressed_decision'' @ '':'' @ q (plan_decision_name sd) @ '','' @
     q ''timestamp_ns'' @ '':'' @ decimal (sec * 1000000000 + nsec))"
    by (intro member_more member_one k json_q v plain_names b l json_decimal)
  from json_elements_members.object [OF this] show ?thesis unfolding pathology_line_def by simp
qed

section \<open>Properties\<close>

text \<open>Strings are escaped so that nothing is lost and nothing escapes: what a JSON reader reads back
  from an emitted string is the string, for every byte sequence.\<close>

theorem json_string_roundtrip:
  "\<exists>body. emit_json_string (Some s) = quote # body @ [quote] \<and> json_chars body \<and> json_unescape body = Some s"
  using json_chars_escaped unescape_escaped by (auto simp: emit_json_string_def)

text \<open>A decision appends exactly one line, a JSON object that contains no line break of its own
  whatever the node's label is, and advances the sequence number by one modulo $2^{64}$; a missing sink
  is left alone.\<close>

theorem pathology_one_line:
  "pathology_emit_plan_decision sec nsec None d nn ne lat lbl sd r = None \<and>
   (\<exists>line s'. pathology_emit_plan_decision sec nsec (Some s) d nn ne lat lbl sd r = Some s' \<and>
      fp s' = fp s @ line @ [CHR 0x0A] \<and> json line \<and> CHR 0x0A \<notin> set line \<and>
      seq s' = seq s + 1 \<and> unat (seq s') = (unat (seq s) + 1) mod 2 ^ 64)"
proof -
  have "unat (seq s + 1) = (unat (seq s) + 1) mod 2 ^ 64" by (simp add: unat_word_ariths)
  moreover have "CHR 0x0A \<notin> set (pathology_line sec nsec (seq s) d nn ne lat lbl sd r)"
    by (rule json_no_newline [OF pathology_line_json])
  ultimately show ?thesis by (simp add: pathology_emit_plan_decision_def pathology_line_json)
qed

end
