(* ===== verification/Plan_Evaluator.thy ===== *)
theory Plan_Evaluator
  imports Exec_Plan "HOL-Library.Multiset"
begin

text \<open>
  Compositional verification over a plan: \<^verbatim>\<open>src/v1_6/plan_evaluator.c\<close>. Cycle detection builds a
  compressed adjacency (counts, prefix sums, targets) and runs an iterative three-colour
  depth-first search with an explicit stack; the per-node decisions are then folded under the
  join of the lattice SATISFIED < UNKNOWN < UNSATISFIED.

  Every array access of the search goes through \<^const>\<open>rd\<close>, and every push checks the fixed stack's
  capacity: the result \<^const>\<open>None\<close> of \<open>dfs\<close> and \<open>has_cycle\<close> is an access outside an array.
\<close>

section \<open>Cycle detection\<close>

datatype color = COLOR_WHITE | COLOR_GRAY | COLOR_BLACK

text \<open>The compressed adjacency: out-degree counts, prefix sums, targets.\<close>

fun csr_counts :: "plan_edge list \<Rightarrow> nat list \<Rightarrow> nat list option" where
  "csr_counts [] counts = Some counts"
| "csr_counts (e # es) counts =
     (case rd counts (edge_from e) of
        None \<Rightarrow> None
      | Some c \<Rightarrow> csr_counts es (counts[edge_from e := c + 1]))"

fun csr_head :: "nat \<Rightarrow> nat list \<Rightarrow> nat list" where
  "csr_head acc [] = [acc]"
| "csr_head acc (c # cs) = acc # csr_head (acc + c) cs"

fun csr_fill ::
  "nat list \<Rightarrow> plan_edge list \<Rightarrow> nat list \<Rightarrow> nat list \<Rightarrow> nat list option" where
  "csr_fill out_head [] cursor out_dst = Some out_dst"
| "csr_fill out_head (e # es) cursor out_dst =
     (let f = edge_from e in
      case (rd out_head f, rd cursor f) of
        (Some h, Some c) \<Rightarrow>
          if h + c < length out_dst
          then csr_fill out_head es (cursor[f := c + 1]) (out_dst[h + c := edge_to e])
          else None
      | _ \<Rightarrow> None)"

text \<open>The steps a stack of frames still has to make, for the termination measure.\<close>

definition dfs_todo :: "nat list \<Rightarrow> (nat \<times> nat) list \<Rightarrow> nat" where
  "dfs_todo out_head stack =
     sum_list (map (\<lambda>(u, it). Suc (out_head ! (u + 1) - out_head ! u - it)) stack)"

text \<open>The search below one root. The stack array with its \<open>top\<close> index is a list of
  (node, next successor) pairs, top first.\<close>

function dfs ::
  "nat list \<Rightarrow> nat list \<Rightarrow> color list \<Rightarrow> (nat \<times> nat) list \<Rightarrow> (bool \<times> color list) option" where
  "dfs out_head out_dst color [] = Some (False, color)"
| "dfs out_head out_dst color ((u, it) # stack) =
     (case (rd out_head u, rd out_head (u + 1)) of
        (Some beg, Some end') \<Rightarrow>
          if it < end' - beg then
            (case rd out_dst (beg + it) of
               None \<Rightarrow> None
             | Some v \<Rightarrow>
                 (case rd color v of
                    None \<Rightarrow> None
                  | Some COLOR_GRAY \<Rightarrow> Some (True, color)
                  | Some COLOR_WHITE \<Rightarrow>
                      if Suc (length stack) < PLAN_MAX_NODES
                      then dfs out_head out_dst (color[v := COLOR_GRAY])
                             ((v, 0) # (u, it + 1) # stack)
                      else None
                  | Some COLOR_BLACK \<Rightarrow> dfs out_head out_dst color ((u, it + 1) # stack)))
          else if u < length color
               then dfs out_head out_dst (color[u := COLOR_BLACK]) stack
               else None
      | _ \<Rightarrow> None)"
  by pat_completeness auto

termination
proof (relation "measures [\<lambda>(oh, od, color, stack). count_list color COLOR_WHITE,
                           \<lambda>(oh, od, color, stack). dfs_todo oh stack]", goal_cases)
  case 1
  show ?case by simp
next
  case 2
  then show ?case by (auto simp: count_list_update_decr)
next
  case 3
  then show ?case by (auto simp: dfs_todo_def)
next
  case (4 oh od color u it stack)
  moreover have "count_list (color[u := COLOR_BLACK]) COLOR_WHITE \<le> count_list color COLOR_WHITE"
    by (rule count_list_update_le) simp
  ultimately show ?case by (auto simp: dfs_todo_def)
qed

fun dfs_roots ::
  "nat list \<Rightarrow> nat list \<Rightarrow> nat list \<Rightarrow> color list \<Rightarrow> bool option" where
  "dfs_roots out_head out_dst [] color = Some False"
| "dfs_roots out_head out_dst (root # roots) color =
     (case rd color root of
        None \<Rightarrow> None
      | Some c \<Rightarrow>
          if c \<noteq> COLOR_WHITE then dfs_roots out_head out_dst roots color
          else
            (case dfs out_head out_dst (color[root := COLOR_GRAY]) [(root, 0)] of
               None \<Rightarrow> None
             | Some (True, _) \<Rightarrow> Some True
             | Some (False, color') \<Rightarrow> dfs_roots out_head out_dst roots color'))"

definition has_cycle :: "exec_plan \<Rightarrow> bool option" where
  "has_cycle p =
     (let n = n_nodes p in
      if n = 0 then Some False
      else
        (case csr_counts (edges p) (replicate n 0) of
           None \<Rightarrow> None
         | Some counts \<Rightarrow>
             let out_head = csr_head 0 counts in
             (case csr_fill out_head (edges p) (replicate n 0) (replicate PLAN_MAX_EDGES 0) of
                None \<Rightarrow> None
              | Some out_dst \<Rightarrow>
                  dfs_roots out_head out_dst [0..<n] (replicate n COLOR_WHITE))))"

section \<open>Aggregation and the entry points\<close>

definition join_decisions :: "plan_decision \<Rightarrow> plan_decision \<Rightarrow> plan_decision" where
  "join_decisions a b =
     (if a = PLAN_DEC_UNSATISFIED \<or> b = PLAN_DEC_UNSATISFIED then PLAN_DEC_UNSATISFIED
      else if a = PLAN_DEC_UNKNOWN \<or> b = PLAN_DEC_UNKNOWN then PLAN_DEC_UNKNOWN
      else PLAN_DEC_SATISFIED)"

fun verify_fold :: "plan_decision \<Rightarrow> plan_decision list \<Rightarrow> plan_decision" where
  "verify_fold acc [] = acc"
| "verify_fold acc (d # ds) =
     (let acc' = join_decisions acc d in
      if acc' = PLAN_DEC_UNSATISFIED then PLAN_DEC_UNSATISFIED else verify_fold acc' ds)"

definition exec_plan_verify :: "exec_plan option \<Rightarrow> plan_decision option" where
  "exec_plan_verify plan =
     (case plan of
        None \<Rightarrow> Some PLAN_DEC_UNKNOWN
      | Some p \<Rightarrow>
          if n_nodes p = 0 then Some PLAN_DEC_UNKNOWN
          else
            (case has_cycle p of
               None \<Rightarrow> None
             | Some True \<Rightarrow> Some PLAN_DEC_UNKNOWN
             | Some False \<Rightarrow>
                 Some (verify_fold PLAN_DEC_SATISFIED (map node_decision (nodes p)))))"

definition exec_plan_authorized :: "exec_plan option \<Rightarrow> bool option" where
  "exec_plan_authorized plan = map_option (\<lambda>d. d = PLAN_DEC_SATISFIED) (exec_plan_verify plan)"

section \<open>The compressed adjacency holds the successor lists\<close>

definition adj :: "plan_edge list \<Rightarrow> nat \<Rightarrow> nat list" where
  "adj es u = map edge_to (filter (\<lambda>e. edge_from e = u) es)"

definition csr_ok :: "nat \<Rightarrow> plan_edge list \<Rightarrow> nat list \<Rightarrow> nat list \<Rightarrow> bool" where
  "csr_ok n es h dst \<longleftrightarrow>
     length h = Suc n \<and>
     (\<forall>u < n. h ! Suc u = h ! u + length (adj es u) \<and>
       (\<forall>k < length (adj es u). h ! u + k < length dst \<and> dst ! (h ! u + k) = adj es u ! k))"

lemma adj_append [simp]: "adj (xs @ ys) u = adj xs u @ adj ys u"
  by (simp add: adj_def)

lemma adj_Cons [simp]:
  "adj (e # es) u = (if edge_from e = u then edge_to e # adj es u else adj es u)"
  by (simp add: adj_def)

lemma adj_Nil [simp]: "adj [] u = []"
  by (simp add: adj_def)

lemma set_adj: "w \<in> set (adj (edges p) u) \<longleftrightarrow> (u, w) \<in> plan_rel p"
  by (auto simp: adj_def plan_rel_def image_iff)

lemma csr_counts_correct:
  assumes "\<forall>e \<in> set es. edge_from e < length counts"
  shows "\<exists>cs. csr_counts es counts = Some cs \<and> length cs = length counts \<and>
     sum_list cs = sum_list counts + length es \<and>
     (\<forall>u < length counts. cs ! u = counts ! u + length (adj es u))"
  using assms
proof (induction es arbitrary: counts)
  case Nil
  then show ?case by simp
next
  case (Cons e es)
  let ?c = "counts[edge_from e := Suc (counts ! edge_from e)]"
  from Cons.prems have f: "edge_from e < length counts" by simp
  have "sum_list ?c = Suc (sum_list counts)"
    using f elem_le_sum_list [OF f] by (simp add: sum_list_update)
  moreover from Cons.prems have "\<forall>e \<in> set es. edge_from e < length ?c" by simp
  note Cons.IH [OF this]
  ultimately show ?case
    using f by (auto simp: nth_list_update)
qed

lemma length_csr_head [simp]: "length (csr_head acc cs) = Suc (length cs)"
  by (induction cs arbitrary: acc) auto

lemma csr_head_nth: "i \<le> length cs \<Longrightarrow> csr_head acc cs ! i = acc + sum_list (take i cs)"
proof (induction cs arbitrary: acc i)
  case Nil
  then show ?case by simp
next
  case (Cons c cs)
  then show ?case by (cases i) auto
qed

lemma csr_head_Suc:
  "i < length cs \<Longrightarrow> csr_head acc cs ! Suc i = csr_head acc cs ! i + cs ! i"
  by (simp add: csr_head_nth take_Suc_conv_app_nth)

lemma heads_mono:
  fixes h :: "nat list"
  assumes "\<forall>u < n. h ! u \<le> h ! Suc u" and "i \<le> j" and "j \<le> n"
  shows "h ! i \<le> h ! j"
  using assms(2,3)
proof (induction j)
  case 0
  then show ?case by simp
next
  case (Suc j)
  then show ?case using assms(1) by (cases "i = Suc j") (auto intro: le_trans)
qed

lemma csr_fill_correct:
  assumes "all = pre @ es" and "\<forall>e \<in> set all. edge_from e < n"
    and len: "length h = Suc n" and step: "\<forall>u < n. h ! Suc u = h ! u + length (adj all u)"
    and cap: "h ! n \<le> length dst" and "length cursor = n"
    and "\<forall>u < n. cursor ! u = length (adj pre u)"
    and "\<forall>u < n. \<forall>k < length (adj pre u). dst ! (h ! u + k) = adj pre u ! k"
  shows "\<exists>dst'. csr_fill h es cursor dst = Some dst' \<and> csr_ok n all h dst'"
  using assms(1,2,5-)
proof (induction es arbitrary: pre cursor dst)
  case Nil
  have "h ! u + k < length dst" if "u < n" "k < length (adj all u)" for u k
  proof -
    have "h ! u + k < h ! Suc u" using step that by simp
    also have "\<dots> \<le> h ! n" using heads_mono [of n h "Suc u" n] step that by simp
    also have "\<dots> \<le> length dst" using Nil.prems by simp
    finally show ?thesis .
  qed
  with Nil.prems len step show ?case by (simp add: csr_ok_def)
next
  case (Cons e es)
  let ?f = "edge_from e"
  let ?pos = "h ! ?f + cursor ! ?f"
  have f: "?f < n" using Cons.prems(1,2) by simp
  have cur: "cursor ! ?f = length (adj pre ?f)" using Cons.prems f by simp
  have mono: "\<And>i j. i \<le> j \<Longrightarrow> j \<le> n \<Longrightarrow> h ! i \<le> h ! j"
    using heads_mono [of n h] step by simp
  have pos_lt: "?pos < h ! Suc ?f"
    using step f cur Cons.prems(1) by simp
  have pos: "?pos < length dst"
    using pos_lt mono [of "Suc ?f" n] f Cons.prems(3) by simp
  have other: "h ! u + k \<noteq> ?pos" if "u < n" "u \<noteq> ?f" "k < length (adj pre u)" for u k
  proof (cases "u < ?f")
    case True
    have "h ! u + k < h ! Suc u" using step that Cons.prems(1) by simp
    also have "\<dots> \<le> h ! ?f" using True f by (intro mono) auto
    finally show ?thesis by simp
  next
    case False
    have "h ! Suc ?f \<le> h ! u" using False that by (intro mono) auto
    with pos_lt show ?thesis by simp
  qed
  let ?pre' = "pre @ [e]"
  have "\<exists>dst'. csr_fill h es (cursor[?f := Suc (cursor ! ?f)]) (dst[?pos := edge_to e]) = Some dst'
          \<and> csr_ok n all h dst'"
  proof (rule Cons.IH [of ?pre'])
    show "all = ?pre' @ es" using Cons.prems(1) by simp
    show "\<forall>u < n. \<forall>k < length (adj ?pre' u).
            dst[?pos := edge_to e] ! (h ! u + k) = adj ?pre' u ! k"
    proof (intro allI impI)
      fix u k assume u: "u < n" and k: "k < length (adj ?pre' u)"
      show "dst[?pos := edge_to e] ! (h ! u + k) = adj ?pre' u ! k"
      proof (cases "u = ?f \<and> k = length (adj pre u)")
        case True
        then show ?thesis using pos cur by (auto simp: nth_append)
      next
        case False
        then have "k < length (adj pre u)" using k by (auto split: if_splits)
        moreover have "h ! u + k \<noteq> ?pos"
          using other [of u k] u False \<open>k < length (adj pre u)\<close> cur by (cases "u = ?f") auto
        ultimately show ?thesis using Cons.prems(6) u by (auto simp: nth_append)
      qed
    qed
  qed (use Cons.prems f cur in \<open>auto simp: nth_list_update\<close>)
  then show ?case using f pos len Cons.prems(4) by (simp add: Let_def)
qed

lemma csr_build:
  assumes "wf_plan p"
  shows "\<exists>counts dst. csr_counts (edges p) (replicate (n_nodes p) 0) = Some counts \<and>
     csr_fill (csr_head 0 counts) (edges p) (replicate (n_nodes p) 0) (replicate PLAN_MAX_EDGES 0)
       = Some dst \<and> csr_ok (n_nodes p) (edges p) (csr_head 0 counts) dst"
proof -
  let ?n = "n_nodes p"
  have bnd: "\<forall>e \<in> set (edges p). edge_from e < length (replicate ?n (0::nat))"
    using assms by (simp add: wf_plan_def)
  from csr_counts_correct [OF this] obtain counts where
    c: "csr_counts (edges p) (replicate ?n 0) = Some counts" and len: "length counts = ?n"
    and sum: "sum_list counts = n_edges p"
    and nth: "\<forall>u < ?n. counts ! u = length (adj (edges p) u)"
    by (auto simp: sum_list_replicate)
  have "\<exists>dst'. csr_fill (csr_head 0 counts) (edges p) (replicate ?n 0)
            (replicate PLAN_MAX_EDGES 0) = Some dst' \<and> csr_ok ?n (edges p) (csr_head 0 counts) dst'"
  proof (rule csr_fill_correct [where pre = "[]"])
    show "csr_head 0 counts ! ?n \<le> length (replicate PLAN_MAX_EDGES 0)"
      using assms sum len by (simp add: csr_head_nth wf_plan_def)
  qed (use bnd len nth in \<open>auto simp: csr_head_Suc\<close>)
  with c show ?thesis by blast
qed

section \<open>The depth-first search decides acyclicity\<close>

text \<open>A frame on the stack has visited its first \<open>it\<close> successors: each is black, or is the node of
  the frame right above it.\<close>

fun frames_ok ::
  "plan_edge list \<Rightarrow> color list \<Rightarrow> nat option \<Rightarrow> (nat \<times> nat) list \<Rightarrow> bool" where
  "frames_ok es color abv [] \<longleftrightarrow> True"
| "frames_ok es color abv ((u, it) # stack) \<longleftrightarrow>
     it \<le> length (adj es u) \<and>
     (\<forall>k < it. color ! (adj es u ! k) = COLOR_BLACK \<or> abv = Some (adj es u ! k)) \<and>
     (\<forall>v. abv = Some v \<longrightarrow> v \<in> set (adj es u)) \<and>
     frames_ok es color (Some u) stack"

definition edge_rel :: "plan_edge list \<Rightarrow> (nat \<times> nat) set" where
  "edge_rel es = {(u, w). w \<in> set (adj es u)}"

definition black_ok :: "plan_edge list \<Rightarrow> color list \<Rightarrow> bool" where
  "black_ok es color \<longleftrightarrow>
     (\<forall>x < length color. color ! x = COLOR_BLACK \<longrightarrow>
        (\<forall>w \<in> set (adj es x). color ! w = COLOR_BLACK) \<and> (x, x) \<notin> (edge_rel es)\<^sup>+)"

definition dfs_inv :: "nat \<Rightarrow> plan_edge list \<Rightarrow> color list \<Rightarrow> (nat \<times> nat) list \<Rightarrow> bool" where
  "dfs_inv n es color stack \<longleftrightarrow>
     length color = n \<and> n \<le> PLAN_MAX_NODES \<and>
     (\<forall>u < n. \<forall>w \<in> set (adj es u). w < n) \<and>
     distinct (map fst stack) \<and>
     set (map fst stack) = {v. v < n \<and> color ! v = COLOR_GRAY} \<and>
     frames_ok es color None stack \<and> black_ok es color"

lemma frames_ok_color:
  assumes "frames_ok es color a stack"
    and "\<And>x. color ! x = COLOR_BLACK \<Longrightarrow> color' ! x = COLOR_BLACK"
  shows "frames_ok es color' a stack"
  using assms(1)
proof (induction stack arbitrary: a)
  case Nil
  then show ?case by simp
next
  case (Cons f stack)
  then show ?case using assms(2) by (cases f) auto
qed

lemma frames_ok_pop:
  assumes "frames_ok es color (Some u) stack" and "u < length color"
  shows "frames_ok es (color[u := COLOR_BLACK]) None stack"
proof (cases stack)
  case Nil
  then show ?thesis by simp
next
  case (Cons f stack')
  obtain w it where f: "f = (w, it)" by (cases f)
  have black: "\<And>x. color ! x = COLOR_BLACK \<Longrightarrow> color[u := COLOR_BLACK] ! x = COLOR_BLACK"
    using assms(2) by (simp add: nth_list_update)
  show ?thesis
    using assms Cons f by (auto simp: black nth_list_update intro: frames_ok_color [OF _ black])
qed

lemma stack_path:
  assumes "frames_ok es color a ((u, it) # stack)" and "v \<in> set (map fst ((u, it) # stack))"
  shows "(v, u) \<in> (edge_rel es)\<^sup>*"
  using assms
proof (induction stack arbitrary: a u it)
  case Nil
  then show ?case by simp
next
  case (Cons f stack)
  obtain w jt where f: "f = (w, jt)" by (cases f)
  have "(w, u) \<in> edge_rel es" using Cons.prems(1) f by (simp add: edge_rel_def)
  moreover have "v = u \<or> (v, w) \<in> (edge_rel es)\<^sup>*"
    using Cons.IH [of "Some u" w jt] Cons.prems f by auto
  ultimately show ?case by (auto intro: rtrancl_into_rtrancl)
qed

lemma black_closed:
  assumes "black_ok es color" and "\<forall>u < length color. \<forall>w \<in> set (adj es u). w < length color"
    and "(x, y) \<in> (edge_rel es)\<^sup>*" and "x < length color" and "color ! x = COLOR_BLACK"
  shows "y < length color \<and> color ! y = COLOR_BLACK"
  using assms(3-)
proof (induction rule: rtrancl_induct)
  case base
  then show ?case by simp
next
  case (step y z)
  then show ?case using assms(1,2) by (auto simp: black_ok_def edge_rel_def)
qed

text \<open>The three moves of the search keep the invariant.\<close>

lemma dfs_inv_advance:
  assumes "dfs_inv n es color ((u, it) # stack)" and "it < length (adj es u)"
    and "color ! (adj es u ! it) = COLOR_BLACK"
  shows "dfs_inv n es color ((u, Suc it) # stack)"
  using assms by (auto simp: dfs_inv_def less_Suc_eq)

lemma dfs_inv_push:
  assumes inv: "dfs_inv n es color ((u, it) # stack)" and it: "it < length (adj es u)"
    and v: "v = adj es u ! it" "v < n" and white: "color ! v = COLOR_WHITE"
  shows "dfs_inv n es (color[v := COLOR_GRAY]) ((v, 0) # (u, Suc it) # stack)"
proof -
  let ?c = "color[v := COLOR_GRAY]"
  have len: "length color = n" using inv by (simp add: dfs_inv_def)
  have black: "?c ! x = COLOR_BLACK" if "color ! x = COLOR_BLACK" for x
    using white that by (cases "x = v") simp_all
  have bok: "black_ok es color" and gray: "fst ` set ((u, it) # stack) = {x. x < n \<and> color ! x = COLOR_GRAY}"
    and rest: "distinct (map fst ((u, it) # stack))" "n \<le> PLAN_MAX_NODES"
      "\<forall>u < n. \<forall>w \<in> set (adj es u). w < n"
    using inv by (simp_all add: dfs_inv_def)
  have "frames_ok es color None ((u, it) # stack)" using inv by (simp add: dfs_inv_def)
  then have "frames_ok es ?c None ((u, it) # stack)" by (rule frames_ok_color) (rule black)
  then have fr: "frames_ok es ?c None ((v, 0) # (u, Suc it) # stack)"
    using it v(1) by (simp add: less_Suc_eq)
  have unblack: "color ! x = COLOR_BLACK" if "?c ! x = COLOR_BLACK" "x < n" for x
    using that len by (cases "x = v") simp_all
  have "black_ok es ?c"
    unfolding black_ok_def
  proof (intro allI impI)
    fix x assume "x < length ?c" "?c ! x = COLOR_BLACK"
    then have "x < n" "color ! x = COLOR_BLACK" using unblack len by simp_all
    then show "(\<forall>w \<in> set (adj es x). ?c ! w = COLOR_BLACK) \<and> (x, x) \<notin> (edge_rel es)\<^sup>+"
      using bok black len by (simp add: black_ok_def)
  qed
  moreover have "{x. x < n \<and> ?c ! x = COLOR_GRAY} = insert v {x. x < n \<and> color ! x = COLOR_GRAY}"
    using len v(2) by (auto simp: nth_list_update)
  moreover have "v \<notin> fst ` set ((u, it) # stack)" using gray white by auto
  ultimately show ?thesis
    using fr gray rest len white by (simp add: dfs_inv_def)
qed

lemma dfs_inv_pop:
  assumes inv: "dfs_inv n es color ((u, it) # stack)" and it: "it \<ge> length (adj es u)"
  shows "dfs_inv n es (color[u := COLOR_BLACK]) stack"
proof -
  let ?c = "color[u := COLOR_BLACK]"
  have len: "length color = n" and u: "u < n" and gray: "color ! u = COLOR_GRAY"
    and bnd: "\<forall>x < n. \<forall>w \<in> set (adj es x). w < n" and bok: "black_ok es color"
    using inv by (auto simp: dfs_inv_def)
  have succ: "\<forall>w \<in> set (adj es u). color ! w = COLOR_BLACK"
    using inv it by (auto simp: dfs_inv_def in_set_conv_nth)
  have nocyc: "(u, u) \<notin> (edge_rel es)\<^sup>+"
  proof
    assume "(u, u) \<in> (edge_rel es)\<^sup>+"
    then obtain w where w: "(u, w) \<in> edge_rel es" "(w, u) \<in> (edge_rel es)\<^sup>*"
      by (meson tranclD)
    from w(1) succ bnd u have "w < n" "color ! w = COLOR_BLACK" by (auto simp: edge_rel_def)
    with black_closed [OF bok _ w(2)] bnd len have "color ! u = COLOR_BLACK" by simp
    with gray show False by simp
  qed
  have "black_ok es ?c"
    using bok succ nocyc bnd len gray u by (auto simp: black_ok_def nth_list_update)
  moreover have "frames_ok es ?c None stack"
    using inv u len by (auto simp: dfs_inv_def intro: frames_ok_pop)
  moreover have "{x. x < n \<and> ?c ! x = COLOR_GRAY} = {x. x < n \<and> color ! x = COLOR_GRAY} - {u}"
    using len u by (auto simp: nth_list_update)
  moreover have "fst ` set stack = {x. x < n \<and> color ! x = COLOR_GRAY} - {u}"
    using inv by (auto simp: dfs_inv_def)
  ultimately show ?thesis using inv by (simp add: dfs_inv_def)
qed

lemma back_edge_cycle:
  assumes inv: "dfs_inv n es color ((u, it) # stack)" and it: "it < length (adj es u)"
    and gray: "color ! (adj es u ! it) = COLOR_GRAY" and v: "adj es u ! it < n"
  shows "\<not> acyclic (edge_rel es)"
proof -
  let ?v = "adj es u ! it"
  from inv gray v have "?v \<in> set (map fst ((u, it) # stack))" by (simp add: dfs_inv_def)
  with inv have "(?v, u) \<in> (edge_rel es)\<^sup>*" by (auto simp: dfs_inv_def intro!: stack_path)
  moreover have "(u, ?v) \<in> edge_rel es" using it by (simp add: edge_rel_def)
  ultimately have "(u, u) \<in> (edge_rel es)\<^sup>+" by (rule rtrancl_into_trancl2 [rotated])
  then show ?thesis by (auto simp: acyclic_def)
qed

lemma stack_room:
  assumes "dfs_inv n es color ((u, it) # stack)" and "v < n" and "color ! v = COLOR_WHITE"
  shows "Suc (length stack) < PLAN_MAX_NODES"
proof -
  let ?ns = "v # map fst ((u, it) # stack)"
  have "fst ` set ((u, it) # stack) = {x. x < n \<and> color ! x = COLOR_GRAY}"
    using assms(1) by (simp add: dfs_inv_def)
  then have "distinct ?ns" "\<forall>x \<in> set ?ns. x < n"
    using assms by (auto simp: dfs_inv_def)
  then have "length ?ns \<le> n" by (rule distinct_bounded_length)
  then show ?thesis using assms(1) by (simp add: dfs_inv_def)
qed

definition dfs_result :: "nat \<Rightarrow> plan_edge list \<Rightarrow> nat set \<Rightarrow> (bool \<times> color list) option \<Rightarrow> bool" where
  "dfs_result n es A r \<longleftrightarrow>
     (\<exists>cyc color. r = Some (cyc, color) \<and>
        (if cyc then \<not> acyclic (edge_rel es)
         else dfs_inv n es color [] \<and> (\<forall>x \<in> A. color ! x = COLOR_BLACK)))"

text \<open>One iteration of the loop, by the colour of the next successor.\<close>

declare dfs.simps(2) [simp del]

lemma dfs_moves:
  assumes ok: "csr_ok n es h dst" and inv: "dfs_inv n es color ((u, it) # stack)"
  shows "dfs h dst color ((u, it) # stack) =
    (if it < length (adj es u)
     then (case color ! (adj es u ! it) of
             COLOR_GRAY \<Rightarrow> Some (True, color)
           | COLOR_WHITE \<Rightarrow>
               dfs h dst (color[adj es u ! it := COLOR_GRAY]) ((adj es u ! it, 0) # (u, Suc it) # stack)
           | COLOR_BLACK \<Rightarrow> dfs h dst color ((u, Suc it) # stack))
     else dfs h dst (color[u := COLOR_BLACK]) stack)"
proof -
  have u: "u < n" "length color = n" and bnd: "\<forall>u < n. \<forall>w \<in> set (adj es u). w < n"
    using inv by (auto simp: dfs_inv_def)
  have h: "length h = Suc n" "h ! Suc u - h ! u = length (adj es u)"
    using ok u by (auto simp: csr_ok_def)
  show ?thesis
  proof (cases "it < length (adj es u)")
    case True
    then have "adj es u ! it < n" using bnd u by simp
    moreover from True have "h ! u + it < length dst" "dst ! (h ! u + it) = adj es u ! it"
      using ok u by (auto simp: csr_ok_def)
    ultimately show ?thesis
      using True h u stack_room [OF inv] by (simp add: dfs.simps(2) split: color.split)
  next
    case False
    then show ?thesis using h u by (simp add: dfs.simps(2))
  qed
qed

lemma dfs_correct:
  assumes ok: "csr_ok n es h dst" and "dfs_inv n es color stack"
    and "A \<subseteq> {x. x < n \<and> color ! x \<noteq> COLOR_WHITE}"
  shows "dfs_result n es A (dfs h dst color stack)"
  using assms
proof (induction h dst color stack rule: dfs.induct)
  case (1 h dst color)
  then have "color ! x = COLOR_BLACK" if "x \<in> A" for x
    using that by (cases "color ! x") (auto simp: dfs_inv_def)
  with 1 show ?case by (auto simp: dfs_result_def)
next
  case (2 h dst color u it stack)
  note inv = "2.prems"(2) and moves = dfs_moves [OF "2.prems"(1,2)]
  have u: "u < n" "length color = n" and bnd: "\<forall>u < n. \<forall>w \<in> set (adj es u). w < n"
    using inv by (auto simp: dfs_inv_def)
  have h: "rd h u = Some (h ! u)" "rd h (u + 1) = Some (h ! Suc u)"
      "h ! Suc u - h ! u = length (adj es u)"
    using "2.prems"(1) u by (auto simp: csr_ok_def)
  show ?case
  proof (cases "it < length (adj es u)")
    case True
    let ?v = "adj es u ! it"
    have v: "?v < n" using bnd u True by simp
    have lt: "it < h ! Suc u - h ! u" using True h(3) by simp
    have dst: "rd dst (h ! u + it) = Some ?v" using "2.prems"(1) u True by (auto simp: csr_ok_def)
    show ?thesis
    proof (cases "color ! ?v")
      case COLOR_GRAY
      with back_edge_cycle [OF inv True _ v] show ?thesis
        using moves True by (auto simp: dfs_result_def)
    next
      case COLOR_BLACK
      then have col: "rd color ?v = Some COLOR_BLACK" using v u by simp
      have "dfs_result n es A (dfs h dst color ((u, it + 1) # stack))"
        by (rule "2.IH"(2) [OF _ h(1) h(2) lt dst col refl "2.prems"(1) _ "2.prems"(3)])
          (use dfs_inv_advance [OF inv True COLOR_BLACK] h in simp_all)
      then show ?thesis using moves True COLOR_BLACK by simp
    next
      case COLOR_WHITE
      then have col: "rd color ?v = Some COLOR_WHITE" using v u by simp
      have "A \<subseteq> {x. x < n \<and> color[?v := COLOR_GRAY] ! x \<noteq> COLOR_WHITE}"
        using "2.prems"(3) u v by (auto simp: nth_list_update)
      then have "dfs_result n es A (dfs h dst (color[?v := COLOR_GRAY]) ((?v, 0) # (u, it + 1) # stack))"
        by (intro "2.IH"(1) [OF _ h(1) h(2) lt dst col refl stack_room [OF inv v COLOR_WHITE] "2.prems"(1)])
          (use dfs_inv_push [OF inv True refl v COLOR_WHITE] h in simp_all)
      then show ?thesis using moves True COLOR_WHITE by simp
    qed
  next
    case False
    then have "\<not> it < h ! Suc u - h ! u" using h(3) by simp
    moreover have "A \<subseteq> {x. x < n \<and> color[u := COLOR_BLACK] ! x \<noteq> COLOR_WHITE}"
      using "2.prems"(3) u by (auto simp: nth_list_update)
    ultimately have "dfs_result n es A (dfs h dst (color[u := COLOR_BLACK]) stack)"
      by (intro "2.IH"(3) [OF _ h(1) h(2)] "2.prems"(1) dfs_inv_pop [OF inv])
        (use False h u in simp_all)
    then show ?thesis using moves False by simp
  qed
qed

lemma dfs_inv_root:
  assumes "dfs_inv n es color []" and "root < n" and "color ! root = COLOR_WHITE"
  shows "dfs_inv n es (color[root := COLOR_GRAY]) [(root, 0)]"
proof -
  let ?c = "color[root := COLOR_GRAY]"
  have len: "length color = n" using assms by (simp add: dfs_inv_def)
  have black: "?c ! x = COLOR_BLACK \<longleftrightarrow> color ! x = COLOR_BLACK" if "x < n" for x
    using assms(3) that len by (cases "x = root") simp_all
  have "black_ok es ?c"
    using assms(1) black len by (auto simp: dfs_inv_def black_ok_def)
  moreover have "{v. v < n \<and> ?c ! v = COLOR_GRAY} = {root}"
    using assms by (auto simp: dfs_inv_def nth_list_update)
  ultimately show ?thesis using assms(1) by (simp add: dfs_inv_def)
qed

lemma black_no_cycle:
  assumes "black_ok es color" and "x < length color" and "color ! x = COLOR_BLACK"
  shows "(x, x) \<notin> (edge_rel es)\<^sup>+"
  using assms unfolding black_ok_def by blast

lemma all_black_acyclic:
  assumes "dfs_inv n es color []" and "\<forall>x < n. color ! x = COLOR_BLACK"
    and "\<forall>e \<in> set es. edge_from e < n"
  shows "acyclic (edge_rel es)"
proof (rule acyclicI, rule allI)
  fix x
  show "(x, x) \<notin> (edge_rel es)\<^sup>+"
  proof
    assume c: "(x, x) \<in> (edge_rel es)\<^sup>+"
    from tranclD [OF c] obtain y where "(x, y) \<in> edge_rel es" by blast
    then obtain e where "e \<in> set es" "edge_from e = x" by (auto simp: edge_rel_def adj_def)
    with assms(3) have "x < n" by blast
    moreover have "black_ok es color" "length color = n" using assms(1) unfolding dfs_inv_def by blast+
    ultimately show False using black_no_cycle [of es color x] assms(2) c by blast
  qed
qed

lemma dfs_roots_correct:
  assumes ok: "csr_ok n es h dst" and "dfs_inv n es color []"
    and "k \<le> n" and "\<forall>x < k. color ! x = COLOR_BLACK" and src: "\<forall>e \<in> set es. edge_from e < n"
  shows "dfs_roots h dst [k..<n] color = Some (\<not> acyclic (edge_rel es))"
  using assms(2-4)
proof (induction "n - k" arbitrary: k color)
  case 0
  then show ?case using all_black_acyclic [OF 0(2) _ src] by simp
next
  case (Suc d)
  then have k: "k < n" and len: "length color = n" by (auto simp: dfs_inv_def)
  have upt: "[k..<n] = k # [Suc k..<n]" using k by (simp add: upt_conv_Cons)
  have IH: "dfs_roots h dst [Suc k..<n] c = Some (\<not> acyclic (edge_rel es))"
    if "dfs_inv n es c []" "\<forall>x < Suc k. c ! x = COLOR_BLACK" for c
    by (rule Suc.hyps(1)) (use that Suc.hyps(2) k in auto)
  show ?case
  proof (cases "color ! k = COLOR_WHITE")
    case False
    moreover have "color ! k \<noteq> COLOR_GRAY" using Suc.prems(1) k by (auto simp: dfs_inv_def)
    ultimately have "color ! k = COLOR_BLACK" by (cases "color ! k") auto
    with IH [OF Suc.prems(1)] Suc.prems(3) show ?thesis
      using upt k len by (simp add: less_Suc_eq)
  next
    case True
    let ?A = "{x. x < Suc k}"
    have "?A \<subseteq> {x. x < n \<and> color[k := COLOR_GRAY] ! x \<noteq> COLOR_WHITE}"
      using Suc.prems(3) k len by (auto simp: nth_list_update less_Suc_eq)
    from dfs_correct [OF ok dfs_inv_root [OF Suc.prems(1) k True] this]
    obtain cyc c where r: "dfs h dst (color[k := COLOR_GRAY]) [(k, 0)] = Some (cyc, c)"
      and c: "if cyc then \<not> acyclic (edge_rel es)
              else dfs_inv n es c [] \<and> (\<forall>x \<in> ?A. c ! x = COLOR_BLACK)"
      unfolding dfs_result_def by blast
    show ?thesis
    proof (cases cyc)
      case True
      with r c upt k len \<open>color ! k = COLOR_WHITE\<close> show ?thesis by simp
    next
      case False
      with c have "dfs_roots h dst [Suc k..<n] c = Some (\<not> acyclic (edge_rel es))"
        by (intro IH) simp_all
      with r False upt k len \<open>color ! k = COLOR_WHITE\<close> show ?thesis by simp
    qed
  qed
qed

lemma edge_rel_plan: "edge_rel (edges p) = plan_rel p"
  by (auto simp: edge_rel_def set_adj)

lemma has_cycle_correct:
  assumes "wf_plan p"
  shows "has_cycle p = Some (\<not> acyclic (plan_rel p))"
proof (cases "n_nodes p = 0")
  case True
  with assms have "plan_rel p = {}" by (auto simp: wf_plan_def plan_rel_def)
  with True show ?thesis by (simp add: has_cycle_def acyclic_def)
next
  case False
  let ?n = "n_nodes p"
  from csr_build [OF assms] obtain counts dst where
    c: "csr_counts (edges p) (replicate ?n 0) = Some counts"
    and f: "csr_fill (csr_head 0 counts) (edges p) (replicate ?n 0) (replicate PLAN_MAX_EDGES 0) = Some dst"
    and ok: "csr_ok ?n (edges p) (csr_head 0 counts) dst" by blast
  have "dfs_inv ?n (edges p) (replicate ?n COLOR_WHITE) []"
    using assms by (auto simp: dfs_inv_def black_ok_def wf_plan_def set_adj plan_rel_def)
  from dfs_roots_correct [OF ok this, of 0] assms
  have "dfs_roots (csr_head 0 counts) dst [0..<?n] (replicate ?n COLOR_WHITE)
      = Some (\<not> acyclic (plan_rel p))"
    by (simp add: edge_rel_plan wf_plan_def)
  with c f False show ?thesis by (simp add: has_cycle_def Let_def)
qed

section \<open>The verdict lattice\<close>

text \<open>What the code composes verdicts with: a join on the valid verdicts with SATISFIED as its
  neutral and UNSATISFIED as its absorbing element. Folding it over a list of verdicts gives the
  worst of them, in any order and with any repetition. Both axes of a plan (here and in
  \<^verbatim>\<open>plan_dataflow.c\<close>) use an implementation of this interface.\<close>

locale verdict_join =
  fixes join :: "plan_decision \<Rightarrow> plan_decision \<Rightarrow> plan_decision"
  assumes join_sat: "valid_decision a \<Longrightarrow> join PLAN_DEC_SATISFIED a = a"
    and join_unsat: "valid_decision a \<Longrightarrow> join PLAN_DEC_UNSATISFIED a = PLAN_DEC_UNSATISFIED"
    and join_unknown: "join PLAN_DEC_UNKNOWN PLAN_DEC_UNKNOWN = PLAN_DEC_UNKNOWN"
    and join_commute: "valid_decision a \<Longrightarrow> valid_decision b \<Longrightarrow> join a b = join b a"
begin

lemma join_table [simp]:
  "join PLAN_DEC_SATISFIED PLAN_DEC_SATISFIED = PLAN_DEC_SATISFIED"
  "join PLAN_DEC_SATISFIED PLAN_DEC_UNKNOWN = PLAN_DEC_UNKNOWN"
  "join PLAN_DEC_SATISFIED PLAN_DEC_UNSATISFIED = PLAN_DEC_UNSATISFIED"
  "join PLAN_DEC_UNKNOWN PLAN_DEC_SATISFIED = PLAN_DEC_UNKNOWN"
  "join PLAN_DEC_UNKNOWN PLAN_DEC_UNKNOWN = PLAN_DEC_UNKNOWN"
  "join PLAN_DEC_UNKNOWN PLAN_DEC_UNSATISFIED = PLAN_DEC_UNSATISFIED"
  "join PLAN_DEC_UNSATISFIED PLAN_DEC_SATISFIED = PLAN_DEC_UNSATISFIED"
  "join PLAN_DEC_UNSATISFIED PLAN_DEC_UNKNOWN = PLAN_DEC_UNSATISFIED"
  "join PLAN_DEC_UNSATISFIED PLAN_DEC_UNSATISFIED = PLAN_DEC_UNSATISFIED"
  using join_sat [of PLAN_DEC_SATISFIED] join_sat [of PLAN_DEC_UNKNOWN]
    join_sat [of PLAN_DEC_UNSATISFIED] join_unsat [of PLAN_DEC_SATISFIED]
    join_unsat [of PLAN_DEC_UNKNOWN] join_unsat [of PLAN_DEC_UNSATISFIED] join_unknown
    join_commute [of PLAN_DEC_UNKNOWN PLAN_DEC_SATISFIED]
    join_commute [of PLAN_DEC_UNKNOWN PLAN_DEC_UNSATISFIED]
  by simp_all

lemma join_eq_sat_iff:
  "valid_decision a \<Longrightarrow> valid_decision b \<Longrightarrow>
    join a b = PLAN_DEC_SATISFIED \<longleftrightarrow> a = PLAN_DEC_SATISFIED \<and> b = PLAN_DEC_SATISFIED"
  by (cases a; cases b) simp_all

lemma join_valid: "valid_decision a \<Longrightarrow> valid_decision b \<Longrightarrow> valid_decision (join a b)"
  by (cases a; cases b) simp_all

lemma fold_join:
  assumes "\<forall>d \<in> set ds. valid_decision d" and "valid_decision acc"
  shows "fold (\<lambda>d a. join a d) ds acc =
    (if PLAN_DEC_UNSATISFIED \<in> insert acc (set ds) then PLAN_DEC_UNSATISFIED
     else if PLAN_DEC_UNKNOWN \<in> insert acc (set ds) then PLAN_DEC_UNKNOWN
     else PLAN_DEC_SATISFIED)"
  using assms
proof (induction ds arbitrary: acc)
  case Nil
  then show ?case by (cases acc) simp_all
next
  case (Cons d ds)
  then have "valid_decision d" "valid_decision (join acc d)" by (simp_all add: join_valid)
  with Cons.prems Cons.IH [of "join acc d"] show ?case by (cases acc; cases d) simp_all
qed

end

interpretation node_axis: verdict_join join_decisions
  by unfold_locales (auto simp: join_decisions_def valid_decision_def)

lemma verify_fold_eq:
  "acc \<noteq> PLAN_DEC_UNSATISFIED \<Longrightarrow> verify_fold acc ds = fold (\<lambda>d a. join_decisions a d) ds acc"
proof (induction ds arbitrary: acc)
  case Nil
  then show ?case by simp
next
  case (Cons d ds)
  have "fold (\<lambda>d a. join_decisions a d) ds PLAN_DEC_UNSATISFIED = PLAN_DEC_UNSATISFIED"
    by (induction ds) (simp_all add: join_decisions_def)
  with Cons.IH show ?case by (simp add: Let_def)
qed

text \<open>What a plan's verdict promises, with no mention of how it is computed.\<close>

definition plan_verdict_spec :: "exec_plan \<Rightarrow> plan_decision" where
  "plan_verdict_spec p =
     (if nodes p = [] \<or> \<not> acyclic (plan_rel p) then PLAN_DEC_UNKNOWN
      else if \<exists>x \<in> set (nodes p). node_decision x = PLAN_DEC_UNSATISFIED then PLAN_DEC_UNSATISFIED
      else if \<exists>x \<in> set (nodes p). node_decision x = PLAN_DEC_UNKNOWN then PLAN_DEC_UNKNOWN
      else PLAN_DEC_SATISFIED)"

lemma wf_plan_decisions: "wf_plan p \<Longrightarrow> \<forall>d \<in> set (map node_decision (nodes p)). valid_decision d"
  by (auto simp: wf_plan_def in_set_conv_nth)

lemma exec_plan_verify_spec:
  assumes "wf_plan p"
  shows "exec_plan_verify (Some p) = Some (plan_verdict_spec p)"
proof -
  have mem: "(\<exists>x \<in> set (nodes p). node_decision x = d) \<longleftrightarrow> d \<in> set (map node_decision (nodes p))" for d
    by (auto simp: image_iff)
  show ?thesis
    unfolding exec_plan_verify_def plan_verdict_spec_def mem
    using has_cycle_correct [OF assms]
      node_axis.fold_join [OF wf_plan_decisions [OF assms], of PLAN_DEC_SATISFIED]
    by (simp add: verify_fold_eq)
qed

lemma plan_verdict_sat_iff:
  assumes "wf_plan p"
  shows "plan_verdict_spec p = PLAN_DEC_SATISFIED \<longleftrightarrow>
    nodes p \<noteq> [] \<and> acyclic (plan_rel p) \<and> (\<forall>x \<in> set (nodes p). node_decision x = PLAN_DEC_SATISFIED)"
proof -
  have "valid_decision (node_decision x)" if "x \<in> set (nodes p)" for x
    using wf_plan_decisions [OF assms] that by simp
  then show ?thesis
    unfolding plan_verdict_spec_def valid_decision_def by (auto; metis plan_decision.distinct(1,3))
qed

section \<open>Properties\<close>

text \<open>C9. Authorization is exactly what the plan gate promises: for every plan that can be built
  through the interface the evaluator returns (its explicit-stack traversal stays inside its
  arrays), and it authorizes the plan if and only if the plan has a node, has no dependency cycle,
  and every node was decided SATISFIED.\<close>

theorem plan_authorized_iff:
  assumes "plan_built p"
  shows "exec_plan_authorized (Some p) =
    Some (nodes p \<noteq> [] \<and> acyclic (plan_rel p) \<and>
          (\<forall>x \<in> set (nodes p). node_decision x = PLAN_DEC_SATISFIED))"
  using plan_built_wf [OF assms] plan_verdict_sat_iff [of p]
  by (simp add: exec_plan_authorized_def exec_plan_verify_spec)

lemma plan_built_pair:
  "plan_built \<lparr>nodes = [\<lparr>node_id = 0, node_label = None, node_decision = a\<rparr>,
                         \<lparr>node_id = 1, node_label = None, node_decision = b\<rparr>],
               edges = [\<lparr>edge_from = 0, edge_to = 1\<rparr>]\<rparr>"
  if "valid_decision a" "valid_decision b"
proof -
  have 0: "plan_built empty_plan" by (rule plan_built.fresh [of True]) (simp add: exec_plan_new_def)
  have 1: "plan_built \<lparr>nodes = [\<lparr>node_id = 0, node_label = None, node_decision = a\<rparr>], edges = []\<rparr>"
    by (rule plan_built.add_node [OF 0, of None a 0])
      (use that in \<open>auto simp: exec_plan_add_node_def empty_plan_def valid_decision_def PLAN_MAX_NODES_def\<close>)
  have 2: "plan_built \<lparr>nodes = [\<lparr>node_id = 0, node_label = None, node_decision = a\<rparr>,
                         \<lparr>node_id = 1, node_label = None, node_decision = b\<rparr>], edges = []\<rparr>"
    by (rule plan_built.add_node [OF 1, of None b 1])
      (use that in \<open>auto simp: exec_plan_add_node_def empty_plan_def valid_decision_def PLAN_MAX_NODES_def\<close>)
  show ?thesis
    by (rule plan_built.add_edge [OF 2, of 0 1 0]) (simp add: exec_plan_add_edge_def PLAN_MAX_EDGES_def)
qed

theorem plan_authorized_iff_witness:
  "exec_plan_authorized (Some \<lparr>nodes = [\<lparr>node_id = 0, node_label = None, node_decision = PLAN_DEC_SATISFIED\<rparr>,
                         \<lparr>node_id = 1, node_label = None, node_decision = PLAN_DEC_SATISFIED\<rparr>],
               edges = [\<lparr>edge_from = 0, edge_to = 1\<rparr>]\<rparr>) = Some True"
  using plan_authorized_iff [OF plan_built_pair [of PLAN_DEC_SATISFIED PLAN_DEC_SATISFIED]]
  by (simp add: plan_rel_def acyclic_insert) (simp add: acyclic_def)

text \<open>C12. The depth-first search that looks for a cycle (explicit frame stack over a compressed
  adjacency array) ends, reads and writes only inside its arrays, and reports a cycle exactly when
  some node reaches itself along one or more edges.\<close>

theorem cycle_detection:
  assumes "wf_plan p"
  shows "\<exists>b. has_cycle p = Some b \<and> (b \<longleftrightarrow> (\<exists>v. (v, v) \<in> (plan_rel p)\<^sup>+))"
  using has_cycle_correct [OF assms] by (auto simp: acyclic_def)

theorem cycle_detection_witness:
  "\<exists>b. has_cycle \<lparr>nodes = [\<lparr>node_id = 0, node_label = None, node_decision = PLAN_DEC_UNKNOWN\<rparr>,
                         \<lparr>node_id = 1, node_label = None, node_decision = PLAN_DEC_UNKNOWN\<rparr>],
               edges = [\<lparr>edge_from = 0, edge_to = 1\<rparr>, \<lparr>edge_from = 1, edge_to = 0\<rparr>]\<rparr> = Some b \<and> b"
proof -
  let ?p = "\<lparr>nodes = [\<lparr>node_id = 0, node_label = None, node_decision = PLAN_DEC_UNKNOWN\<rparr>,
                         \<lparr>node_id = 1, node_label = None, node_decision = PLAN_DEC_UNKNOWN\<rparr>],
               edges = [\<lparr>edge_from = 0, edge_to = 1\<rparr>, \<lparr>edge_from = 1, edge_to = 0\<rparr>]\<rparr>"
  have wf: "wf_plan ?p"
    by (simp add: wf_plan_def PLAN_MAX_NODES_def PLAN_MAX_EDGES_def less_Suc_eq numeral_2_eq_2)
  have "(0, 1) \<in> plan_rel ?p" "(1, 0) \<in> plan_rel ?p" by (simp_all add: plan_rel_def)
  then have "(0, 0) \<in> (plan_rel ?p)\<^sup>+" by (meson r_into_trancl' trancl_into_trancl)
  then show ?thesis using cycle_detection [OF wf] by blast
qed

text \<open>The verdict does not depend on the order in which nodes were decided or edges were added:
  two plans with the same multiset of node decisions and the same set of edges get the same verdict.\<close>

theorem verdict_order_invariant:
  assumes "plan_built p" and "plan_built q"
    and "mset (map node_decision (nodes p)) = mset (map node_decision (nodes q))"
    and "plan_rel p = plan_rel q"
  shows "exec_plan_verify (Some p) = exec_plan_verify (Some q)"
proof -
  have s: "node_decision ` set (nodes p) = node_decision ` set (nodes q)"
    using mset_eq_setD [OF assms(3)] by simp
  have "(\<exists>x \<in> set (nodes p). node_decision x = d) \<longleftrightarrow> (\<exists>x \<in> set (nodes q). node_decision x = d)" for d
    using s by (metis (no_types, lifting) image_iff)
  moreover have "nodes p = [] \<longleftrightarrow> nodes q = []" using s by auto
  ultimately have "plan_verdict_spec p = plan_verdict_spec q"
    using assms(4) by (simp add: plan_verdict_spec_def)
  then show ?thesis using assms(1,2) by (simp add: exec_plan_verify_spec plan_built_wf)
qed

theorem verdict_order_invariant_witness:
  "exec_plan_verify (Some \<lparr>nodes = [\<lparr>node_id = 0, node_label = None, node_decision = PLAN_DEC_SATISFIED\<rparr>,
                         \<lparr>node_id = 1, node_label = None, node_decision = PLAN_DEC_UNKNOWN\<rparr>],
               edges = [\<lparr>edge_from = 0, edge_to = 1\<rparr>]\<rparr>) =
   exec_plan_verify (Some \<lparr>nodes = [\<lparr>node_id = 0, node_label = None, node_decision = PLAN_DEC_UNKNOWN\<rparr>,
                         \<lparr>node_id = 1, node_label = None, node_decision = PLAN_DEC_SATISFIED\<rparr>],
               edges = [\<lparr>edge_from = 0, edge_to = 1\<rparr>]\<rparr>)"
  by (rule verdict_order_invariant [OF plan_built_pair plan_built_pair]) (simp_all add: plan_rel_def)

end
