(* ===== verification/Label_Set.thy ===== *)
theory Label_Set
  imports Prelude
begin

unbundle bit_operations_syntax

text \<open>
  Flat label sets: \<^verbatim>\<open>src/v1_7/plan_label.h\<close>. A set of labels below \<open>PLAN_MAX_LABELS\<close> is a bitset of
  64-bit words. The operations work on the words; the interface \<open>label_sets\<close> says what they do to
  the set of labels the words stand for, and the data-flow theories use that interface only.
\<close>

section \<open>The bitset operations\<close>

definition PLAN_MAX_LABELS :: nat where "PLAN_MAX_LABELS = 128"

definition PLAN_LABEL_WORDS :: nat where "PLAN_LABEL_WORDS = PLAN_MAX_LABELS div 64"

abbreviation PLAN_LABEL_INVALID :: nat where "PLAN_LABEL_INVALID \<equiv> 65535"

type_synonym plan_label = nat

text \<open>\<open>bits[PLAN_LABEL_WORDS]\<close>\<close>

type_synonym plan_label_set = "u64 list"

definition plan_label_valid :: "plan_label \<Rightarrow> bool" where
  "plan_label_valid t \<longleftrightarrow> t < PLAN_MAX_LABELS"

definition plan_label_set_clear :: plan_label_set where
  "plan_label_set_clear = replicate PLAN_LABEL_WORDS 0"

definition plan_label_set_add :: "plan_label_set \<Rightarrow> plan_label \<Rightarrow> int \<times> plan_label_set" where
  "plan_label_set_add s t =
     (if \<not> plan_label_valid t then (-1, s)
      else (0, s[t div 64 := s ! (t div 64) OR push_bit (t mod 64) 1]))"

definition plan_label_set_test :: "plan_label_set \<Rightarrow> plan_label \<Rightarrow> bool" where
  "plan_label_set_test s t \<longleftrightarrow>
     plan_label_valid t \<and> (drop_bit (t mod 64) (s ! (t div 64)) AND 1) \<noteq> 0"

definition plan_label_set_union_into :: "plan_label_set \<Rightarrow> plan_label_set \<Rightarrow> plan_label_set" where
  "plan_label_set_union_into dst src = map2 (OR) dst src"

definition plan_label_set_intersect_into :: "plan_label_set \<Rightarrow> plan_label_set \<Rightarrow> plan_label_set" where
  "plan_label_set_intersect_into a b = map2 (AND) a b"

definition plan_label_set_minus_into :: "plan_label_set \<Rightarrow> plan_label_set \<Rightarrow> plan_label_set" where
  "plan_label_set_minus_into dst sub = map2 (\<lambda>d s. d AND NOT s) dst sub"

definition plan_label_set_intersects :: "plan_label_set \<Rightarrow> plan_label_set \<Rightarrow> bool" where
  "plan_label_set_intersects a b \<longleftrightarrow> list_ex (\<lambda>(x, y). x AND y \<noteq> 0) (zip a b)"

definition plan_label_set_empty :: "plan_label_set \<Rightarrow> bool" where
  "plan_label_set_empty s \<longleftrightarrow> list_all (\<lambda>x. x = 0) s"

definition plan_label_set_minus_nonempty :: "plan_label_set \<Rightarrow> plan_label_set \<Rightarrow> bool" where
  "plan_label_set_minus_nonempty a b \<longleftrightarrow> list_ex (\<lambda>(x, y). x AND NOT y \<noteq> 0) (zip a b)"

section \<open>The set of labels a bitset stands for\<close>

definition wf_lset :: "plan_label_set \<Rightarrow> bool" where
  "wf_lset s \<longleftrightarrow> length s = PLAN_LABEL_WORDS"

definition lset :: "plan_label_set \<Rightarrow> plan_label set" where
  "lset s = {t. t < PLAN_MAX_LABELS \<and> bit (s ! (t div 64)) (t mod 64)}"

lemma label_words [simp]: "PLAN_LABEL_WORDS = 2"
  by (simp add: PLAN_LABEL_WORDS_def PLAN_MAX_LABELS_def)

lemma label_index: "t < PLAN_MAX_LABELS \<Longrightarrow> t div 64 < 2"
  by (simp add: PLAN_MAX_LABELS_def)

lemma word_nonzero_iff: "(w :: u64) \<noteq> 0 \<longleftrightarrow> (\<exists>n < 64. bit w n)"
proof
  assume "w \<noteq> 0"
  then obtain n where "bit w n" by (metis bit_0_eq bit_eqI bot_apply bot_bool_def)
  moreover from this have "n < 64" using bit_imp_le_length [of w n] by simp
  ultimately show "\<exists>n < 64. bit w n" by blast
qed auto

text \<open>A statement about some bit of some word is a statement about some label.\<close>

lemma label_of_bit:
  "(\<exists>i < 2. \<exists>n < 64. P i n) \<longleftrightarrow> (\<exists>t < PLAN_MAX_LABELS. P (t div 64) (t mod 64))"
proof
  assume "\<exists>i < 2. \<exists>n < 64. P i n"
  then obtain i n where "i < (2::nat)" "n < (64::nat)" "P i n" by blast
  then show "\<exists>t < PLAN_MAX_LABELS. P (t div 64) (t mod 64)"
    by (intro exI [of _ "64 * i + n"]) (auto simp: PLAN_MAX_LABELS_def)
next
  assume "\<exists>t < PLAN_MAX_LABELS. P (t div 64) (t mod 64)"
  then obtain t where "t < PLAN_MAX_LABELS" "P (t div 64) (t mod 64)" by blast
  then show "\<exists>i < 2. \<exists>n < 64. P i n"
    using label_index [of t] by (intro exI [of _ "t div 64"] conjI exI [of _ "t mod 64"]) auto
qed

lemma list_ex_words:
  "wf_lset a \<Longrightarrow> wf_lset b \<Longrightarrow>
    list_ex (\<lambda>(x, y). f x y \<noteq> (0 :: u64)) (zip a b) \<longleftrightarrow>
    (\<exists>t < PLAN_MAX_LABELS. bit (f (a ! (t div 64)) (b ! (t div 64))) (t mod 64))"
proof -
  assume "wf_lset a" "wf_lset b"
  then have "list_ex (\<lambda>(x, y). f x y \<noteq> (0 :: u64)) (zip a b) \<longleftrightarrow>
      (\<exists>i < 2. \<exists>n < 64. bit (f (a ! i) (b ! i)) n)"
    by (simp add: wf_lset_def list_ex_length word_nonzero_iff cong: conj_cong)
  then show ?thesis by (simp only: label_of_bit)
qed

text \<open>What the code relies on: the operations act on the label sets as the set operations do.\<close>

locale label_sets =
  fixes wf :: "'s \<Rightarrow> bool" and abs :: "'s \<Rightarrow> nat set" and bound :: nat
    and clear :: 's and add :: "'s \<Rightarrow> nat \<Rightarrow> int \<times> 's" and test :: "'s \<Rightarrow> nat \<Rightarrow> bool"
    and union inter minus :: "'s \<Rightarrow> 's \<Rightarrow> 's"
    and intersects minus_nonempty :: "'s \<Rightarrow> 's \<Rightarrow> bool" and empty :: "'s \<Rightarrow> bool"
  assumes abs_bound: "wf s \<Longrightarrow> t \<in> abs s \<Longrightarrow> t < bound"
    and clear: "wf clear" "abs clear = {}"
    and add_in: "wf s \<Longrightarrow> t < bound \<Longrightarrow> fst (add s t) = 0 \<and> wf (snd (add s t)) \<and> abs (snd (add s t)) = insert t (abs s)"
    and add_out: "\<not> t < bound \<Longrightarrow> add s t = (-1, s)"
    and test: "wf s \<Longrightarrow> test s t \<longleftrightarrow> t \<in> abs s"
    and union: "wf a \<Longrightarrow> wf b \<Longrightarrow> wf (union a b) \<and> abs (union a b) = abs a \<union> abs b"
    and inter: "wf a \<Longrightarrow> wf b \<Longrightarrow> wf (inter a b) \<and> abs (inter a b) = abs a \<inter> abs b"
    and minus: "wf a \<Longrightarrow> wf b \<Longrightarrow> wf (minus a b) \<and> abs (minus a b) = abs a - abs b"
    and intersects: "wf a \<Longrightarrow> wf b \<Longrightarrow> intersects a b \<longleftrightarrow> abs a \<inter> abs b \<noteq> {}"
    and minus_nonempty: "wf a \<Longrightarrow> wf b \<Longrightarrow> minus_nonempty a b \<longleftrightarrow> \<not> abs a \<subseteq> abs b"
    and empty: "wf s \<Longrightarrow> empty s \<longleftrightarrow> abs s = {}"
begin

text \<open>Adding, one by one, every label below the bound that a second set holds.\<close>

lemma add_all:
  assumes "wf s" and "wf c" and "n \<le> bound"
  shows "wf (fold (\<lambda>t s. if test c t then snd (add s t) else s) [0..<n] s) \<and>
    abs (fold (\<lambda>t s. if test c t then snd (add s t) else s) [0..<n] s) =
      abs s \<union> {t \<in> abs c. t < n}"
  using assms(3)
proof (induction n)
  case 0
  with assms show ?case by simp
next
  case (Suc n)
  then have "{t \<in> abs c. t < Suc n} = (if n \<in> abs c then insert n {t \<in> abs c. t < n} else {t \<in> abs c. t < n})"
    by (auto simp: less_Suc_eq)
  with Suc assms add_in [of _ n] test [OF assms(2)] show ?case by auto
qed

lemma add_all_bound:
  assumes "wf s" and "wf c"
  shows "wf (fold (\<lambda>t s. if test c t then snd (add s t) else s) [0..<bound] s) \<and>
    abs (fold (\<lambda>t s. if test c t then snd (add s t) else s) [0..<bound] s) = abs s \<union> abs c"
  using add_all [OF assms order_refl] abs_bound [OF assms(2)] by auto

end

lemma lset_map2:
  assumes "wf_lset a" and "wf_lset b"
    and "\<And>x y n. n < 64 \<Longrightarrow> bit (f x y) n \<longleftrightarrow> g (bit x n) (bit y n)"
  shows "wf_lset (map2 f a b) \<and>
    lset (map2 f a b) = {t. t < PLAN_MAX_LABELS \<and> g (t \<in> lset a) (t \<in> lset b)}"
  using assms label_index by (auto simp: wf_lset_def lset_def)

lemma lset_add:
  assumes "wf_lset s" and "t < PLAN_MAX_LABELS"
  shows "lset (s[t div 64 := s ! (t div 64) OR push_bit (t mod 64) 1]) = insert t (lset s)"
proof (rule set_eqI)
  fix x
  have eq: "x = t \<longleftrightarrow> x div 64 = t div 64 \<and> x mod 64 = t mod 64"
    by (metis div_mult_mod_eq)
  have b: "bit (push_bit (t mod 64) (1 :: u64)) (x mod 64) \<longleftrightarrow> x mod 64 = t mod 64"
    by (auto simp: bit_simps)
  show "x \<in> lset (s[t div 64 := s ! (t div 64) OR push_bit (t mod 64) 1]) \<longleftrightarrow> x \<in> insert t (lset s)"
    using assms label_index [of t] eq b
    by (cases "x div 64 = t div 64") (auto simp: lset_def wf_lset_def bit_or_iff nth_list_update)
qed

lemma shift_and_one: "(drop_bit n (w :: u64) AND 1) \<noteq> 0 \<longleftrightarrow> bit w n"
  by (simp add: and_one_eq mod_2_eq_odd bit_iff_odd_drop_bit)

lemma zero_words: "wf_lset s \<Longrightarrow> list_all (\<lambda>x. x = 0) s \<longleftrightarrow> \<not> (\<exists>i < 2. \<exists>n < 64. bit (s ! i) n)"
  using word_nonzero_iff by (simp add: wf_lset_def list_all_length) blast

interpretation lab: label_sets wf_lset lset PLAN_MAX_LABELS plan_label_set_clear plan_label_set_add
  plan_label_set_test plan_label_set_union_into plan_label_set_intersect_into
  plan_label_set_minus_into plan_label_set_intersects plan_label_set_minus_nonempty
  plan_label_set_empty
proof (unfold_locales, goal_cases)
  case (1 s t)
  then show ?case by (simp add: lset_def)
next
  case 2
  show ?case by (simp add: plan_label_set_clear_def wf_lset_def)
next
  case 3
  show ?case using label_index by (auto simp: plan_label_set_clear_def lset_def)
next
  case (4 s t)
  then show ?case
    using lset_add [of s t] by (simp add: plan_label_set_add_def plan_label_valid_def wf_lset_def)
next
  case (5 t s)
  then show ?case by (simp add: plan_label_set_add_def plan_label_valid_def)
next
  case (6 s t)
  then show ?case
    by (simp add: plan_label_set_test_def plan_label_valid_def lset_def shift_and_one)
next
  case (7 a b)
  then show ?case
    using lset_map2 [of a b "(OR)" "(\<or>)"] lset_def
    by (auto simp: plan_label_set_union_into_def bit_or_iff)
next
  case (8 a b)
  then show ?case
    using lset_map2 [of a b "(AND)" "(\<and>)"] lset_def
    by (auto simp: plan_label_set_intersect_into_def bit_and_iff)
next
  case (9 a b)
  then show ?case
    using lset_map2 [of a b "\<lambda>d s. d AND NOT s" "\<lambda>x y. x \<and> \<not> y"] lset_def
    by (auto simp: plan_label_set_minus_into_def bit_simps)
next
  case (10 a b)
  then show ?case
    by (auto simp: plan_label_set_intersects_def list_ex_words bit_and_iff lset_def)
next
  case (11 a b)
  then show ?case
    by (auto simp: plan_label_set_minus_nonempty_def list_ex_words bit_simps lset_def)
next
  case (12 s)
  then show ?case
    unfolding plan_label_set_empty_def zero_words [OF 12] label_of_bit by (auto simp: lset_def)
qed

end
