(* ===== verification/Dataflow.thy ===== *)
theory Dataflow
  imports Plan_Evaluator Label_Set
begin

unbundle bit_operations_syntax

text \<open>
  Cross-action data-flow verification: \<^verbatim>\<open>src/v1_7/plan_dataflow.c\<close>. Each node may originate labels;
  labels propagate along the edges, minus what a node declassifies; a node is decided on the labels
  that reach it. One pass of Kahn's algorithm orders the nodes, propagates, decides each node and
  detects cycles.

  The per-node arrays of the companion (all of size \<open>PLAN_MAX_NODES\<close>) are functions from node ids;
  every id the code uses is below the plan's node count, which is at most \<open>PLAN_MAX_NODES\<close>.
\<close>

section \<open>The companion\<close>

record plan_dataflow =
  df_plan :: exec_plan
  origin :: "nat \<Rightarrow> plan_label_set"
  deny_in :: "nat \<Rightarrow> plan_label_set"
  unknown_in :: "nat \<Rightarrow> plan_label_set"
  permit_in :: "nat \<Rightarrow> plan_label_set"
  declassify :: "nat \<Rightarrow> plan_label_set"
  sticky :: plan_label_set
  inbound :: "nat \<Rightarrow> plan_label_set"
  outbound :: "nat \<Rightarrow> plan_label_set"
  declassified :: "nat \<Rightarrow> plan_label_set"
  node_dec :: "nat \<Rightarrow> plan_decision"
  flow_verdict :: plan_decision
  computed :: bool

section \<open>Lattice\<close>

fun dec_rank :: "plan_decision \<Rightarrow> nat" where
  "dec_rank PLAN_DEC_SATISFIED = 0"
| "dec_rank PLAN_DEC_UNKNOWN = 1"
| "dec_rank PLAN_DEC_UNSATISFIED = 2"
| "dec_rank (PLAN_DEC_INVALID _) = 2"

definition dec_join :: "plan_decision \<Rightarrow> plan_decision \<Rightarrow> plan_decision" where
  "dec_join a b = (if dec_rank a \<ge> dec_rank b then a else b)"

definition plan_decision_join :: "plan_decision \<Rightarrow> plan_decision \<Rightarrow> plan_decision" where
  "plan_decision_join a b = dec_join a b"

section \<open>Construction and inputs\<close>

definition plan_dataflow_new :: "bool \<Rightarrow> exec_plan option \<Rightarrow> plan_dataflow option" where
  "plan_dataflow_new alloc_ok plan =
     (case plan of
        None \<Rightarrow> None
      | Some p \<Rightarrow>
          if \<not> alloc_ok then None
          else Some \<lparr>df_plan = p, origin = (\<lambda>_. plan_label_set_clear),
                 deny_in = (\<lambda>_. plan_label_set_clear), unknown_in = (\<lambda>_. plan_label_set_clear),
                 permit_in = (\<lambda>_. plan_label_set_clear), declassify = (\<lambda>_. plan_label_set_clear),
                 sticky = plan_label_set_clear, inbound = (\<lambda>_. plan_label_set_clear),
                 outbound = (\<lambda>_. plan_label_set_clear), declassified = (\<lambda>_. plan_label_set_clear),
                 node_dec = (\<lambda>_. PLAN_DEC_SATISFIED), flow_verdict = PLAN_DEC_UNKNOWN,
                 computed = False\<rparr>)"

text \<open>\<^verbatim>\<open>add_to\<close> takes the array to write to; the model takes its update function.\<close>

definition add_to ::
  "(((nat \<Rightarrow> plan_label_set) \<Rightarrow> (nat \<Rightarrow> plan_label_set)) \<Rightarrow> plan_dataflow \<Rightarrow> plan_dataflow) \<Rightarrow>
   (plan_dataflow \<Rightarrow> nat \<Rightarrow> plan_label_set) \<Rightarrow>
   plan_dataflow \<Rightarrow> plan_node_id \<Rightarrow> plan_label \<Rightarrow> int \<times> plan_dataflow" where
  "add_to upd arr df node tag =
     (if node \<ge> exec_plan_node_count (Some (df_plan df)) then (-1, df)
      else
        let (rc, s) = plan_label_set_add (arr df node) tag in
        if rc \<noteq> 0 then (-1, df)
        else (0, (upd (\<lambda>a. a(node := s)) df)\<lparr>computed := False\<rparr>))"

definition plan_dataflow_add_origin :: "plan_dataflow \<Rightarrow> plan_node_id \<Rightarrow> plan_label \<Rightarrow> int \<times> plan_dataflow" where
  "plan_dataflow_add_origin = add_to origin_update origin"

definition plan_dataflow_add_deny_in :: "plan_dataflow \<Rightarrow> plan_node_id \<Rightarrow> plan_label \<Rightarrow> int \<times> plan_dataflow" where
  "plan_dataflow_add_deny_in = add_to deny_in_update deny_in"

definition plan_dataflow_add_unknown_in :: "plan_dataflow \<Rightarrow> plan_node_id \<Rightarrow> plan_label \<Rightarrow> int \<times> plan_dataflow" where
  "plan_dataflow_add_unknown_in = add_to unknown_in_update unknown_in"

definition plan_dataflow_add_permit_in :: "plan_dataflow \<Rightarrow> plan_node_id \<Rightarrow> plan_label \<Rightarrow> int \<times> plan_dataflow" where
  "plan_dataflow_add_permit_in = add_to permit_in_update permit_in"

definition plan_dataflow_add_declassify :: "plan_dataflow \<Rightarrow> plan_node_id \<Rightarrow> plan_label \<Rightarrow> int \<times> plan_dataflow" where
  "plan_dataflow_add_declassify = add_to declassify_update declassify"

definition plan_dataflow_mark_sticky :: "plan_dataflow \<Rightarrow> plan_label \<Rightarrow> int \<times> plan_dataflow" where
  "plan_dataflow_mark_sticky df tag =
     (let (rc, s) = plan_label_set_add (sticky df) tag in
      if rc \<noteq> 0 then (-1, df) else (0, df\<lparr>sticky := s, computed := False\<rparr>))"

section \<open>Verification\<close>

definition node_flow_decision :: "plan_dataflow \<Rightarrow> plan_node_id \<Rightarrow> plan_decision" where
  "node_flow_decision df n =
     (if plan_label_set_intersects (inbound df n) (deny_in df n) then PLAN_DEC_UNSATISFIED
      else if plan_label_set_intersects (inbound df n) (unknown_in df n) then PLAN_DEC_UNKNOWN
      else
        let sticky_inbound = map2 (AND) (inbound df n) (sticky df);
            classified = map2 (OR) (map2 (OR) (deny_in df n) (unknown_in df n)) (permit_in df n)
        in if plan_label_set_minus_nonempty sticky_inbound classified then PLAN_DEC_UNKNOWN
           else PLAN_DEC_SATISFIED)"

text \<open>The indegree loop and the first queue.\<close>

fun count_indeg :: "nat \<Rightarrow> plan_edge list \<Rightarrow> (nat \<Rightarrow> nat) \<Rightarrow> (nat \<Rightarrow> nat)" where
  "count_indeg n [] indeg = indeg"
| "count_indeg n (e # es) indeg =
     count_indeg n es
       (if edge_to e < n then indeg(edge_to e := indeg (edge_to e) + 1) else indeg)"

text \<open>Relaxing the successors of \<open>u\<close>: the inner loop over all edges.\<close>

fun relax ::
  "nat \<Rightarrow> nat \<Rightarrow> plan_edge list \<Rightarrow> plan_dataflow \<Rightarrow> (nat \<Rightarrow> nat) \<Rightarrow> nat list \<Rightarrow>
   plan_dataflow \<times> (nat \<Rightarrow> nat) \<times> nat list" where
  "relax n u [] df indeg queue = (df, indeg, queue)"
| "relax n u (e # es) df indeg queue =
     (let to = edge_to e in
      if edge_from e \<noteq> u \<or> to \<ge> n then relax n u es df indeg queue
      else
        let df' = df\<lparr>inbound := (inbound df)
                    (to := plan_label_set_union_into (inbound df to) (outbound df u))\<rparr>
        in if indeg to > 0
           then relax n u es df' (indeg(to := indeg to - 1))
                  (if indeg to - 1 = 0 \<and> length queue < PLAN_MAX_NODES then queue @ [to] else queue)
           else relax n u es df' indeg queue)"

lemma relax_queue_bound:
  "length (snd (snd (relax n u es df indeg queue))) \<le> max PLAN_MAX_NODES (length queue)"
proof (induction es arbitrary: df indeg queue)
  case Nil
  then show ?case by simp
next
  case (Cons e es)
  show ?case
    by (auto simp: Let_def intro!: order_trans [OF Cons.IH])
qed

text \<open>What the main loop does to the companion at node \<open>u\<close>, before relaxing its successors.\<close>

definition visit_node :: "plan_dataflow \<Rightarrow> nat \<Rightarrow> plan_dataflow" where
  "visit_node df u =
     df\<lparr>node_dec := (node_dec df)(u := node_flow_decision df u),
        declassified := (declassified df)
          (u := plan_label_set_intersect_into (inbound df u) (declassify df u)),
        outbound := (outbound df)
          (u := plan_label_set_union_into
                  (plan_label_set_minus_into (inbound df u) (declassify df u)) (origin df u))\<rparr>"

function kahn_loop ::
  "nat \<Rightarrow> plan_edge list \<Rightarrow> plan_dataflow \<Rightarrow> (nat \<Rightarrow> nat) \<Rightarrow> nat list \<Rightarrow> nat \<Rightarrow> nat \<Rightarrow> plan_decision \<Rightarrow>
   plan_dataflow \<times> nat \<times> plan_decision" where
  "kahn_loop n es df indeg queue qh processed verdict =
     (if qh < length queue then
        let u = queue ! qh;
            df' = visit_node df u;
            (df'', indeg', queue') = relax n u es df' indeg queue
        in kahn_loop n es df'' indeg' queue' (Suc qh) (Suc processed)
             (dec_join verdict (node_dec df' u))
      else (df, processed, verdict))"
  by pat_completeness auto
termination
proof (relation "measure (\<lambda>(n, es, df, indeg, queue, qh, processed, verdict).
                    max PLAN_MAX_NODES (length queue) - qh)", goal_cases)
  case 1
  show ?case by simp
next
  case prems: (2 n es df indeg queue qh)
  have "length queue' \<le> max PLAN_MAX_NODES (length queue)"
    if "(df'', indeg', queue') = relax n (queue ! qh) es (visit_node df (queue ! qh)) indeg queue"
    for df'' indeg' queue'
    using relax_queue_bound [of n "queue ! qh" es "visit_node df (queue ! qh)" indeg queue]
    unfolding that [symmetric] by simp
  with prems show ?case by fastforce
qed

declare kahn_loop.simps [simp del]

definition reset_computed :: "nat \<Rightarrow> plan_dataflow \<Rightarrow> plan_dataflow" where
  "reset_computed n df =
     df\<lparr>inbound := (\<lambda>i. if i < n then plan_label_set_clear else inbound df i),
        outbound := (\<lambda>i. if i < n then plan_label_set_clear else outbound df i),
        declassified := (\<lambda>i. if i < n then plan_label_set_clear else declassified df i),
        node_dec := (\<lambda>i. if i < n then PLAN_DEC_UNKNOWN else node_dec df i)\<rparr>"

definition plan_dataflow_flow_verdict ::
  "plan_dataflow option \<Rightarrow> plan_decision \<times> plan_dataflow option" where
  "plan_dataflow_flow_verdict dfo =
     (case dfo of
        None \<Rightarrow> (PLAN_DEC_UNKNOWN, None)
      | Some df \<Rightarrow>
          if computed df then (flow_verdict df, Some df)
          else
            let n = exec_plan_node_count (Some (df_plan df)); es = edges (df_plan df) in
            if n = 0 then
              (PLAN_DEC_SATISFIED, Some (df\<lparr>flow_verdict := PLAN_DEC_SATISFIED, computed := True\<rparr>))
            else
              let indeg = count_indeg n es (\<lambda>_. 0);
                  queue = filter (\<lambda>i. indeg i = 0) [0..<n];
                  (df', processed, verdict) =
                    kahn_loop n es (reset_computed n df) indeg queue 0 0 PLAN_DEC_SATISFIED;
                  verdict' = (if processed \<noteq> n then PLAN_DEC_UNKNOWN else verdict)
              in (verdict', Some (df'\<lparr>flow_verdict := verdict', computed := True\<rparr>)))"

definition exec_plan_verify_with_dataflow ::
  "exec_plan option \<Rightarrow> plan_dataflow option \<Rightarrow> plan_decision option \<times> plan_dataflow option" where
  "exec_plan_verify_with_dataflow plan dfo =
     (let node_axis = exec_plan_verify plan;
          (flow_axis, dfo') = plan_dataflow_flow_verdict dfo
      in (map_option (\<lambda>d. dec_join d flow_axis) node_axis, dfo'))"

definition exec_plan_authorized_with_dataflow ::
  "exec_plan option \<Rightarrow> plan_dataflow option \<Rightarrow> bool option \<times> plan_dataflow option" where
  "exec_plan_authorized_with_dataflow plan dfo =
     (let (d, dfo') = exec_plan_verify_with_dataflow plan dfo
      in (map_option (\<lambda>d. d = PLAN_DEC_SATISFIED) d, dfo'))"

section \<open>Introspection\<close>

definition plan_dataflow_node_decision :: "plan_dataflow option \<Rightarrow> plan_node_id \<Rightarrow> plan_decision" where
  "plan_dataflow_node_decision dfo node =
     (case dfo of
        None \<Rightarrow> PLAN_DEC_UNKNOWN
      | Some df \<Rightarrow>
          if \<not> computed df then PLAN_DEC_UNKNOWN
          else if node \<ge> exec_plan_node_count (Some (df_plan df)) then PLAN_DEC_UNKNOWN
          else node_dec df node)"

text \<open>The accessors of a computed set return -1 (here \<^const>\<open>None\<close>) until a verdict is computed.\<close>

definition node_set ::
  "bool \<Rightarrow> (plan_dataflow \<Rightarrow> nat \<Rightarrow> plan_label_set) \<Rightarrow> plan_dataflow option \<Rightarrow> plan_node_id \<Rightarrow>
   plan_label_set option" where
  "node_set needs_verdict arr dfo node =
     (case dfo of
        None \<Rightarrow> None
      | Some df \<Rightarrow>
          if needs_verdict \<and> \<not> computed df then None
          else if node \<ge> exec_plan_node_count (Some (df_plan df)) then None
          else Some (arr df node))"

definition plan_dataflow_node_inbound :: "plan_dataflow option \<Rightarrow> plan_node_id \<Rightarrow> plan_label_set option" where
  "plan_dataflow_node_inbound = node_set True inbound"

definition plan_dataflow_node_outbound :: "plan_dataflow option \<Rightarrow> plan_node_id \<Rightarrow> plan_label_set option" where
  "plan_dataflow_node_outbound = node_set True outbound"

definition plan_dataflow_node_deny_in :: "plan_dataflow option \<Rightarrow> plan_node_id \<Rightarrow> plan_label_set option" where
  "plan_dataflow_node_deny_in = node_set False deny_in"

definition plan_dataflow_node_unknown_in :: "plan_dataflow option \<Rightarrow> plan_node_id \<Rightarrow> plan_label_set option" where
  "plan_dataflow_node_unknown_in = node_set False unknown_in"

definition plan_dataflow_node_permit_in :: "plan_dataflow option \<Rightarrow> plan_node_id \<Rightarrow> plan_label_set option" where
  "plan_dataflow_node_permit_in = node_set False permit_in"

definition plan_dataflow_node_declassified :: "plan_dataflow option \<Rightarrow> plan_node_id \<Rightarrow> plan_label_set option" where
  "plan_dataflow_node_declassified = node_set True declassified"

definition plan_dataflow_node_origin :: "plan_dataflow option \<Rightarrow> plan_node_id \<Rightarrow> plan_label_set option" where
  "plan_dataflow_node_origin = node_set False origin"

definition plan_dataflow_sticky :: "plan_dataflow option \<Rightarrow> plan_label_set option" where
  "plan_dataflow_sticky dfo = map_option sticky dfo"

definition plan_dataflow_get_plan :: "plan_dataflow option \<Rightarrow> exec_plan option" where
  "plan_dataflow_get_plan dfo = map_option df_plan dfo"

section \<open>The relaxation loop\<close>

definition mult :: "plan_edge list \<Rightarrow> nat \<Rightarrow> nat \<Rightarrow> nat" where
  "mult es u v = length (filter (\<lambda>e. edge_from e = u \<and> edge_to e = v) es)"

lemma mult_simps [simp]:
  "mult [] u v = 0"
  "mult (e # es) u v = (if edge_from e = u \<and> edge_to e = v then Suc (mult es u v) else mult es u v)"
  by (simp_all add: mult_def)

lemma mult_pos: "0 < mult (edges p) u v \<longleftrightarrow> (u, v) \<in> plan_rel p"
  by (auto simp: mult_def plan_rel_def filter_empty_conv image_iff)

text \<open>The inputs of the companion, which no part of the computation writes.\<close>

definition same_inputs :: "plan_dataflow \<Rightarrow> plan_dataflow \<Rightarrow> bool" where
  "same_inputs df df' \<longleftrightarrow>
     df_plan df' = df_plan df \<and> origin df' = origin df \<and> deny_in df' = deny_in df \<and>
     unknown_in df' = unknown_in df \<and> permit_in df' = permit_in df \<and>
     declassify df' = declassify df \<and> sticky df' = sticky df"

lemma same_inputs_refl [simp]: "same_inputs df df"
  by (simp add: same_inputs_def)

lemma same_inputs_trans: "same_inputs a b \<Longrightarrow> same_inputs b c \<Longrightarrow> same_inputs a c"
  by (simp add: same_inputs_def)

lemma relax_df:
  assumes "relax n u es df indeg queue = (df', indeg', queue')" and "mult es u u = 0"
    and "\<forall>v < n. wf_lset (inbound df v)" and "wf_lset (outbound df u)"
  shows "same_inputs df df' \<and> outbound df' = outbound df \<and> declassified df' = declassified df \<and>
     node_dec df' = node_dec df \<and>
     (\<forall>v < n. wf_lset (inbound df' v) \<and>
        lset (inbound df' v) = lset (inbound df v) \<union> (if 0 < mult es u v then lset (outbound df u) else {}) \<and>
        (mult es u v = 0 \<longrightarrow> inbound df' v = inbound df v))"
  using assms
proof (induction es arbitrary: df indeg queue)
  case Nil
  then show ?case by simp
next
  case (Cons e es)
  show ?case
  proof (cases "edge_from e \<noteq> u \<or> edge_to e \<ge> n")
    case True
    then have "relax n u es df indeg queue = (df', indeg', queue')" using Cons.prems(1) by (auto simp: Let_def)
    from Cons.IH [OF this] Cons.prems True show ?thesis by (auto split: if_splits)
  next
    case False
    let ?t = "edge_to e"
    let ?in = "plan_label_set_union_into (inbound df ?t) (outbound df u)"
    let ?df = "df\<lparr>inbound := (inbound df)(?t := ?in)\<rparr>"
    from Cons.prems(1) False obtain i q where r: "relax n u es ?df i q = (df', indeg', queue')"
      by (auto simp: Let_def split: if_splits)
    have un: "wf_lset ?in \<and> lset ?in = lset (inbound df ?t) \<union> lset (outbound df u)"
      using Cons.prems False by (intro lab.union) auto
    have "mult es u u = 0" using Cons.prems(2) by (simp split: if_splits)
    from Cons.IH [OF r this] Cons.prems un False show ?thesis
      by (auto simp: same_inputs_def)
  qed
qed

lemma relax_queue:
  assumes "relax n u es df indeg queue = (df', indeg', queue')"
    and "\<forall>v < n. mult es u v \<le> indeg v" and "distinct queue" and "set queue \<subseteq> {..<n}"
    and "\<forall>v \<in> set queue. indeg v = 0" and "n \<le> PLAN_MAX_NODES"
  shows "(\<forall>v < n. indeg' v = indeg v - mult es u v) \<and>
     (\<exists>new. queue' = queue @ new \<and> distinct queue' \<and>
        set new = {v. v < n \<and> 0 < mult es u v \<and> indeg v = mult es u v})"
  using assms(1-5)
proof (induction es arbitrary: df indeg queue)
  case Nil
  then show ?case by simp
next
  case (Cons e es)
  let ?t = "edge_to e"
  show ?case
  proof (cases "edge_from e \<noteq> u \<or> ?t \<ge> n")
    case True
    then have r: "relax n u es df indeg queue = (df', indeg', queue')"
      using Cons.prems(1) by (auto simp: Let_def)
    have m: "mult (e # es) u v = mult es u v" if "v < n" for v using True that by auto
    have "(\<forall>v < n. indeg' v = indeg v - mult es u v) \<and>
        (\<exists>new. queue' = queue @ new \<and> distinct queue' \<and>
          set new = {v. v < n \<and> 0 < mult es u v \<and> indeg v = mult es u v})"
      using Cons.prems m by (intro Cons.IH [OF r]) simp_all
    moreover have "{v. v < n \<and> 0 < mult (e # es) u v \<and> indeg v = mult (e # es) u v} =
        {v. v < n \<and> 0 < mult es u v \<and> indeg v = mult es u v}"
      using m by (auto simp del: mult_simps)
    ultimately show ?thesis using m by (simp del: mult_simps)
  next
    case False
    then have t: "?t < n" and f: "edge_from e = u" by simp_all
    let ?i = "indeg(?t := indeg ?t - 1)"
    have pos: "0 < indeg ?t" using Cons.prems(2) t f by fastforce
    have fresh: "?t \<notin> set queue" using Cons.prems(5) pos by auto
    then have "length (?t # queue) \<le> n"
      using Cons.prems(3,4) t by (intro distinct_bounded_length) auto
    then have room: "length queue < PLAN_MAX_NODES" using assms(6) by simp
    let ?q = "if indeg ?t = 1 then queue @ [?t] else queue"
    from Cons.prems(1) t f pos room obtain df1 where
      r: "relax n u es df1 ?i ?q = (df', indeg', queue')"
      by (auto simp: Let_def split: if_splits)
    have m: "mult (e # es) u v = mult es u v + (if v = ?t then 1 else 0)" for v using f by simp
    have le: "\<forall>v < n. mult es u v \<le> ?i v" using Cons.prems(2) m pos by (auto simp del: mult_simps)
    have "(\<forall>v < n. indeg' v = ?i v - mult es u v) \<and>
        (\<exists>new. queue' = ?q @ new \<and> distinct queue' \<and>
          set new = {v. v < n \<and> 0 < mult es u v \<and> ?i v = mult es u v})"
      using Cons.prems fresh t by (intro Cons.IH [OF r le]) (auto split: if_splits)
    then obtain new where ind: "\<forall>v < n. indeg' v = ?i v - mult es u v"
      and q': "queue' = ?q @ new" "distinct queue'"
      and new: "set new = {v. v < n \<and> 0 < mult es u v \<and> ?i v = mult es u v}" by blast
    have "\<forall>v < n. indeg' v = indeg v - mult (e # es) u v" using ind m by (simp del: mult_simps)
    moreover have "queue' = queue @ ((if indeg ?t = 1 then [?t] else []) @ new)" using q' by simp
    moreover have "set ((if indeg ?t = 1 then [?t] else []) @ new) =
        {v. v < n \<and> 0 < mult (e # es) u v \<and> indeg v = mult (e # es) u v}"
      using new m t pos le by (auto simp del: mult_simps split: if_splits)
    ultimately show ?thesis using q'(2) by blast
  qed
qed

section \<open>The invariant of Kahn's loop\<close>

definition pend :: "plan_edge list \<Rightarrow> nat set \<Rightarrow> nat \<Rightarrow> nat" where
  "pend es P v = length (filter (\<lambda>e. edge_to e = v \<and> edge_from e \<notin> P) es)"

lemma pend_insert: "u \<notin> P \<Longrightarrow> pend es P v = pend es (insert u P) v + mult es u v"
  by (induction es) (auto simp: pend_def)

lemma pend_zero_iff: "pend es P v = 0 \<longleftrightarrow> (\<forall>u. (u, v) \<in> edge_rel es \<longrightarrow> u \<in> P)"
  by (auto simp: pend_def edge_rel_def adj_def filter_empty_conv)

lemma mult_edge_rel: "0 < mult es u v \<longleftrightarrow> (u, v) \<in> edge_rel es"
  by (auto simp: mult_def edge_rel_def adj_def filter_empty_conv)

lemma count_indeg_pend: "v < n \<Longrightarrow> count_indeg n es f v = f v + pend es {} v"
  by (induction es arbitrary: f) (auto simp: pend_def)

definition wf_dataflow :: "plan_dataflow \<Rightarrow> bool" where
  "wf_dataflow df \<longleftrightarrow>
     wf_plan (df_plan df) \<and> wf_lset (sticky df) \<and>
     (\<forall>i. wf_lset (origin df i) \<and> wf_lset (deny_in df i) \<and> wf_lset (unknown_in df i) \<and>
          wf_lset (permit_in df i) \<and> wf_lset (declassify df i))"

definition visited :: "plan_dataflow \<Rightarrow> nat \<Rightarrow> bool" where
  "visited df u \<longleftrightarrow>
     wf_lset (outbound df u) \<and>
     lset (outbound df u) = (lset (inbound df u) - lset (declassify df u)) \<union> lset (origin df u) \<and>
     lset (declassified df u) = lset (inbound df u) \<inter> lset (declassify df u) \<and>
     node_dec df u = node_flow_decision df u"

text \<open>The queue: the nodes before \<open>qh\<close> are done, each after all its predecessors; a node is queued
  exactly when none of its predecessors is left.\<close>

definition queue_inv :: "nat \<Rightarrow> plan_edge list \<Rightarrow> (nat \<Rightarrow> nat) \<Rightarrow> nat list \<Rightarrow> nat \<Rightarrow> bool" where
  "queue_inv n es indeg queue qh \<longleftrightarrow>
     n \<le> PLAN_MAX_NODES \<and> qh \<le> length queue \<and> distinct queue \<and> set queue \<subseteq> {..<n} \<and>
     (\<forall>v < n. indeg v = pend es (set (take qh queue)) v) \<and>
     (\<forall>v < n. v \<in> set queue \<longleftrightarrow> indeg v = 0) \<and>
     (\<forall>i < qh. \<forall>x. (x, queue ! i) \<in> edge_rel es \<longrightarrow> x \<in> set (take i queue))"

text \<open>The labels: what has reached a node is what its done predecessors emit.\<close>

definition label_inv :: "nat \<Rightarrow> plan_edge list \<Rightarrow> plan_dataflow \<Rightarrow> nat set \<Rightarrow> bool" where
  "label_inv n es df P \<longleftrightarrow>
     (\<forall>v < n. wf_lset (inbound df v) \<and>
        lset (inbound df v) = (\<Union>u \<in> {u \<in> P. (u, v) \<in> edge_rel es}. lset (outbound df u))) \<and>
     (\<forall>u \<in> P. visited df u)"

definition kahn_inv ::
  "nat \<Rightarrow> plan_edge list \<Rightarrow> plan_dataflow \<Rightarrow> plan_dataflow \<Rightarrow> (nat \<Rightarrow> nat) \<Rightarrow> nat list \<Rightarrow> nat \<Rightarrow> nat \<Rightarrow>
   plan_decision \<Rightarrow> bool" where
  "kahn_inv n es df0 df indeg queue qh processed verdict \<longleftrightarrow>
     processed = qh \<and> same_inputs df0 df \<and> queue_inv n es indeg queue qh \<and>
     label_inv n es df (set (take qh queue)) \<and>
     verdict = fold (\<lambda>d a. dec_join a d) (map (node_dec df) (take qh queue)) PLAN_DEC_SATISFIED"

lemma node_flow_decision_cong:
  "same_inputs df df' \<Longrightarrow> inbound df' u = inbound df u \<Longrightarrow>
    node_flow_decision df' u = node_flow_decision df u"
  by (simp add: node_flow_decision_def same_inputs_def)

lemma visit_node_simps [simp]:
  "inbound (visit_node df u) = inbound df"
  "outbound (visit_node df u) v =
     (if v = u then plan_label_set_union_into
        (plan_label_set_minus_into (inbound df u) (declassify df u)) (origin df u) else outbound df v)"
  "declassified (visit_node df u) v =
     (if v = u then plan_label_set_intersect_into (inbound df u) (declassify df u) else declassified df v)"
  "node_dec (visit_node df u) v = (if v = u then node_flow_decision df u else node_dec df v)"
  "same_inputs df (visit_node df u)"
  by (simp_all add: visit_node_def same_inputs_def)

lemma queue_next:
  assumes inv: "queue_inv n es indeg queue qh" and lt: "qh < length queue" and u: "u = queue ! qh"
  shows "u < n" and "u \<in> set queue" and "u \<notin> set (take qh queue)"
    and "\<And>v. v < n \<Longrightarrow> mult es u v \<le> indeg v" and "\<And>w. w \<in> set queue \<Longrightarrow> mult es u w = 0"
    and "\<And>x. (x, u) \<in> edge_rel es \<Longrightarrow> x \<in> set (take qh queue)"
proof -
  have sub: "set queue \<subseteq> {..<n}" and dist: "distinct queue"
    and ind: "\<And>v. v < n \<Longrightarrow> indeg v = pend es (set (take qh queue)) v"
    and memq: "\<And>v. v < n \<Longrightarrow> v \<in> set queue \<longleftrightarrow> indeg v = 0"
    using inv by (simp_all add: queue_inv_def)
  show uq: "u \<in> set queue" using u lt by simp
  then show "u < n" using sub by auto
  show uP: "u \<notin> set (take qh queue)"
    using u lt dist by (auto simp: in_set_conv_nth nth_eq_iff_index_eq)
  show le: "mult es u v \<le> indeg v" if "v < n" for v
    using ind [OF that] pend_insert [OF uP, of es v] by simp
  show "mult es u w = 0" if "w \<in> set queue" for w
    using le [of w] memq [of w] that sub by auto
  show "x \<in> set (take qh queue)" if "(x, u) \<in> edge_rel es" for x
    using ind [OF \<open>u < n\<close>] memq [OF \<open>u < n\<close>] uq that by (auto simp: pend_zero_iff)
qed

lemma queue_step:
  assumes inv: "queue_inv n es indeg queue qh" and lt: "qh < length queue" and u: "u = queue ! qh"
    and r: "relax n u es df indeg queue = (df', indeg', queue')"
  shows "queue_inv n es indeg' queue' (Suc qh)" and "take (Suc qh) queue' = take qh queue @ [u]"
proof -
  note nxt = queue_next [OF inv lt u]
  have sub: "set queue \<subseteq> {..<n}" and dist: "distinct queue" and n: "n \<le> PLAN_MAX_NODES"
    and ind: "\<And>v. v < n \<Longrightarrow> indeg v = pend es (set (take qh queue)) v"
    and memq: "\<And>v. v < n \<Longrightarrow> v \<in> set queue \<longleftrightarrow> indeg v = 0"
    and ord: "\<And>i x. i < qh \<Longrightarrow> (x, queue ! i) \<in> edge_rel es \<Longrightarrow> x \<in> set (take i queue)"
    using inv by (simp_all add: queue_inv_def)
  have zero: "\<forall>v \<in> set queue. indeg v = 0" using memq sub by auto
  have le: "\<forall>v < n. mult es u v \<le> indeg v" using nxt(4) by blast
  note rq = relax_queue [OF r le dist sub zero n]
  from conjunct2 [OF rq] obtain new where q': "queue' = queue @ new" "distinct queue'"
    and new: "set new = {v. v < n \<and> 0 < mult es u v \<and> indeg v = mult es u v}" by blast
  have indeg': "indeg' v = indeg v - mult es u v" if "v < n" for v using conjunct1 [OF rq] that by blast
  show tk: "take (Suc qh) queue' = take qh queue @ [u]"
    using q'(1) lt u by (simp add: take_Suc_conv_app_nth)
  have pend': "indeg' v = pend es (insert u (set (take qh queue))) v" if "v < n" for v
    using indeg' [OF that] ind [OF that] pend_insert [OF nxt(3), of es v] by simp
  have memq': "v \<in> set queue' \<longleftrightarrow> indeg' v = 0" if "v < n" for v
  proof -
    have "v \<in> set queue' \<longleftrightarrow> indeg v = 0 \<or> 0 < mult es u v \<and> indeg v = mult es u v"
      unfolding q'(1) set_append Un_iff new memq [OF that] using that by simp
    then show ?thesis using indeg' [OF that] nxt(4) [OF that] by linarith
  qed
  have ord': "x \<in> set (take i queue')" if "i < Suc qh" "(x, queue' ! i) \<in> edge_rel es" for i x
  proof (cases "i = qh")
    case True
    then show ?thesis using that(2) q'(1) lt u nxt(6) [of x] by (simp add: nth_append)
  next
    case False
    then have i: "i < qh" using that by simp
    then have "queue' ! i = queue ! i" "take i queue' = take i queue"
      using q'(1) lt by (simp_all add: nth_append)
    then show ?thesis using ord [OF i] that(2) by simp
  qed
  have "set queue' \<subseteq> {..<n}" using q'(1) sub new by auto
  then show "queue_inv n es indeg' queue' (Suc qh)"
    unfolding queue_inv_def tk set_append list.set
    using n q' lt pend' memq' ord' by (intro conjI allI impI) simp_all
qed

lemma visit_outbound:
  assumes "wf_lset (inbound df u)" and "wf_lset (declassify df u)" and "wf_lset (origin df u)"
  shows "wf_lset (outbound (visit_node df u) u) \<and>
      lset (outbound (visit_node df u) u) =
        (lset (inbound df u) - lset (declassify df u)) \<union> lset (origin df u) \<and>
      lset (declassified (visit_node df u) u) = lset (inbound df u) \<inter> lset (declassify df u)"
  using lab.minus [OF assms(1,2)] lab.inter [OF assms(1,2)]
    lab.union [of "plan_label_set_minus_into (inbound df u) (declassify df u)", OF _ assms(3)]
  by simp

lemma label_step:
  assumes inv: "label_inv n es df P" and u: "u < n" "u \<notin> P"
    and m0: "\<And>w. w \<in> insert u P \<Longrightarrow> w < n \<and> mult es u w = 0"
    and wf: "wf_lset (declassify df u)" "wf_lset (origin df u)"
    and r: "relax n u es (visit_node df u) indeg queue = (df', indeg', queue')"
  shows "label_inv n es df' (insert u P)" and "same_inputs df df'"
    and "node_dec df' = node_dec (visit_node df u)"
proof -
  let ?dv = "visit_node df u"
  have inb: "\<And>v. v < n \<Longrightarrow> wf_lset (inbound df v) \<and>
        lset (inbound df v) = (\<Union>u \<in> {u \<in> P. (u, v) \<in> edge_rel es}. lset (outbound df u))"
    and vis: "\<And>w. w \<in> P \<Longrightarrow> visited df w"
    using inv by (simp_all add: label_inv_def)
  note out = visit_outbound [OF conjunct1 [OF inb [OF u(1)]] wf]
  have R: "same_inputs ?dv df'" "outbound df' = outbound ?dv" "declassified df' = declassified ?dv"
      "node_dec df' = node_dec ?dv"
    and Rin: "\<And>v. v < n \<Longrightarrow> wf_lset (inbound df' v) \<and>
        lset (inbound df' v) = lset (inbound df v) \<union> (if 0 < mult es u v then lset (outbound ?dv u) else {}) \<and>
        (mult es u v = 0 \<longrightarrow> inbound df' v = inbound df v)"
    using relax_df [OF r conjunct2 [OF m0]] inb out by simp_all
  show same: "same_inputs df df'" by (rule same_inputs_trans [OF _ R(1)]) simp
  show "node_dec df' = node_dec ?dv" by (rule R(4))
  have "visited df' w" if w: "w \<in> insert u P" for w
  proof -
    have keep: "inbound df' w = inbound df w" using Rin [of w] m0 [OF w] by simp
    note dec = node_flow_decision_cong [OF same keep]
    have "declassify df' = declassify df" "origin df' = origin df"
      using same by (simp_all add: same_inputs_def)
    then show ?thesis
      using out vis [of w] w R(2-4) dec keep unfolding visited_def by (cases "w = u") simp_all
  qed
  moreover have "lset (inbound df' v) =
      (\<Union>x \<in> {x \<in> insert u P. (x, v) \<in> edge_rel es}. lset (outbound df' x))" if "v < n" for v
  proof -
    have same_out: "lset (outbound df' x) = lset (outbound df x)" if "x \<in> P" for x
      using R(2) that u(2) by auto
    show ?thesis
      using Rin [OF that] inb [OF that] R(2) same_out mult_edge_rel [of es u v] by auto
  qed
  ultimately show "label_inv n es df' (insert u P)" using Rin by (simp add: label_inv_def)
qed

lemma kahn_step:
  assumes inv: "kahn_inv n es df0 df indeg queue qh processed verdict" and wf: "wf_dataflow df0"
    and lt: "qh < length queue" and u: "u = queue ! qh"
    and r: "relax n u es (visit_node df u) indeg queue = (df', indeg', queue')"
  shows "kahn_inv n es df0 df' indeg' queue' (Suc qh) (Suc processed)
           (dec_join verdict (node_dec (visit_node df u) u))"
proof -
  have qi: "queue_inv n es indeg queue qh" and li: "label_inv n es df (set (take qh queue))"
    and same: "same_inputs df0 df"
    and v: "verdict = fold (\<lambda>d a. dec_join a d) (map (node_dec df) (take qh queue)) PLAN_DEC_SATISFIED"
    and p: "processed = qh"
    using inv by (simp_all add: kahn_inv_def)
  note nxt = queue_next [OF qi lt u] and qs = queue_step [OF qi lt u r]
  have m0: "w < n \<and> mult es u w = 0" if "w \<in> insert u (set (take qh queue))" for w
  proof -
    have "w \<in> set queue" using that nxt(2) by (auto dest: in_set_takeD)
    then show ?thesis using nxt(5) qi by (auto simp: queue_inv_def)
  qed
  have "wf_lset (declassify df u)" "wf_lset (origin df u)"
    using wf same by (simp_all add: wf_dataflow_def same_inputs_def)
  note ls = label_step [OF li nxt(1,3) m0 this r]
  have decs: "map (node_dec df') (take qh queue) = map (node_dec df) (take qh queue)"
    using ls(3) nxt(3) by auto
  have "node_dec df' u = node_dec (visit_node df u) u" using ls(3) by simp
  then show ?thesis
    using p v qs(1) ls(1) same_inputs_trans [OF same ls(2)]
    unfolding kahn_inv_def qs(2) by (simp add: decs del: map_eq_conv visit_node_simps)
qed

lemma kahn_loop_inv:
  assumes "kahn_inv n es df0 df indeg queue qh processed verdict" and "wf_dataflow df0"
    and "kahn_loop n es df indeg queue qh processed verdict = (df', processed', verdict')"
  shows "\<exists>indeg' queue'. kahn_inv n es df0 df' indeg' queue' (length queue') processed' verdict'"
  using assms
proof (induction n es df indeg queue qh processed verdict rule: kahn_loop.induct)
  case (1 n es df indeg queue qh processed verdict)
  show ?case
  proof (cases "qh < length queue")
    case True
    obtain df1 indeg1 queue1 where
      r: "relax n (queue ! qh) es (visit_node df (queue ! qh)) indeg queue = (df1, indeg1, queue1)"
      by (cases "relax n (queue ! qh) es (visit_node df (queue ! qh)) indeg queue") auto
    note step = kahn_step [OF "1.prems"(1,2) True refl r]
    have loop: "kahn_loop n es df1 indeg1 queue1 (Suc qh) (Suc processed)
        (dec_join verdict (node_dec (visit_node df (queue ! qh)) (queue ! qh))) = (df', processed', verdict')"
      using "1.prems"(3) True r by (simp add: kahn_loop.simps [of n es df] Let_def)
    show ?thesis
      by (rule "1.IH" [OF True refl refl refl r [symmetric] refl step "1.prems"(2) loop])
  next
    case False
    then have "df' = df" "processed' = processed" "verdict' = verdict"
      using "1.prems"(3) by (simp_all add: kahn_loop.simps [of n es df])
    moreover have "qh = length queue" using False "1.prems"(1) by (simp add: kahn_inv_def queue_inv_def)
    ultimately show ?thesis using "1.prems"(1) by blast
  qed
qed

section \<open>What the loop computes\<close>

lemma kahn_complete_acyclic:
  assumes inv: "queue_inv n es indeg queue (length queue)" and all: "length queue = n"
    and src: "\<forall>e \<in> set es. edge_from e < n \<and> edge_to e < n"
  shows "acyclic (edge_rel es)"
proof -
  have dist: "distinct queue" and sub: "set queue \<subseteq> {..<n}"
    and ord: "\<And>i x. i < length queue \<Longrightarrow> (x, queue ! i) \<in> edge_rel es \<Longrightarrow> x \<in> set (take i queue)"
    using inv by (simp_all add: queue_inv_def)
  have "card (set queue) = n" using dist all by (simp add: distinct_card)
  with sub have full: "set queue = {..<n}" by (simp add: card_subset_eq)
  define pos where "pos x = (LEAST i. i < length queue \<and> queue ! i = x)" for x
  have pos: "pos (queue ! i) = i" if "i < length queue" for i
    unfolding pos_def using dist that by (intro Least_equality) (auto simp: nth_eq_iff_index_eq)
  have "edge_rel es \<subseteq> measure pos"
  proof
    fix e assume "e \<in> edge_rel es"
    then obtain x y where e: "e = (x, y)" "(x, y) \<in> edge_rel es" by (cases e) auto
    then have "y < n" using src by (auto simp: edge_rel_def adj_def)
    then obtain j where j: "j < length queue" "queue ! j = y"
      using full by (metis in_set_conv_nth lessThan_iff)
    have "x \<in> set (take j queue)" using ord [OF j(1), of x] e(2) j(2) by simp
    then obtain i where "i < j" "i < length queue" "queue ! i = x" by (auto simp: in_set_conv_nth)
    then show "e \<in> measure pos" using pos [of i] pos [of j] j e(1) by auto
  qed
  then show ?thesis by (meson acyclic_subset wf_acyclic wf_measure)
qed

lemma kahn_incomplete_cyclic:
  assumes inv: "queue_inv n es indeg queue (length queue)" and less: "length queue \<noteq> n"
    and src: "\<forall>e \<in> set es. edge_from e < n \<and> edge_to e < n"
  shows "\<not> acyclic (edge_rel es)"
proof
  assume acyc: "acyclic (edge_rel es)"
  have "edge_rel es \<subseteq> {..<n} \<times> {..<n}" using src by (auto simp: edge_rel_def adj_def)
  then have "finite (edge_rel es)" by (rule finite_subset) simp
  with acyc have wf: "wf (edge_rel es)" by (simp add: finite_acyclic_wf)
  have sub: "set queue \<subseteq> {..<n}" and dist: "distinct queue"
    and mem: "\<And>v. v < n \<Longrightarrow> v \<in> set queue \<longleftrightarrow> (\<forall>u. (u, v) \<in> edge_rel es \<longrightarrow> u \<in> set queue)"
    using inv by (simp_all add: queue_inv_def pend_zero_iff)
  have "set queue \<noteq> {..<n}" using dist less by (metis card_lessThan distinct_card)
  then obtain z where "z \<in> {..<n} - set queue" using sub by auto
  from wfE_min [OF wf this] obtain m where m: "m \<in> {..<n} - set queue"
    and min: "\<And>y. (y, m) \<in> edge_rel es \<Longrightarrow> y \<notin> {..<n} - set queue" by blast
  have "u \<in> set queue" if "(u, m) \<in> edge_rel es" for u
    using min [OF that] that src by (auto simp: edge_rel_def adj_def)
  with mem [of m] m show False by auto
qed

text \<open>The specification: label \<open>l\<close> leaves node \<open>u\<close> when \<open>u\<close> originates it, or when it leaves a
  predecessor of \<open>u\<close> and \<open>u\<close> does not declassify it.\<close>

inductive emits :: "plan_dataflow \<Rightarrow> plan_label \<Rightarrow> nat \<Rightarrow> bool" for df :: plan_dataflow where
  originate: "l \<in> lset (origin df u) \<Longrightarrow> emits df l u"
| propagate: "emits df l w \<Longrightarrow> (w, u) \<in> plan_rel (df_plan df) \<Longrightarrow> l \<notin> lset (declassify df u) \<Longrightarrow>
     emits df l u"

definition reaches :: "plan_dataflow \<Rightarrow> nat \<Rightarrow> plan_label set" where
  "reaches df v = {l. \<exists>u. (u, v) \<in> plan_rel (df_plan df) \<and> emits df l u}"

definition flow_decision_spec :: "plan_dataflow \<Rightarrow> plan_label set \<Rightarrow> nat \<Rightarrow> plan_decision" where
  "flow_decision_spec df inb v =
     (if inb \<inter> lset (deny_in df v) \<noteq> {} then PLAN_DEC_UNSATISFIED
      else if inb \<inter> lset (unknown_in df v) \<noteq> {} then PLAN_DEC_UNKNOWN
      else if inb \<inter> lset (sticky df) \<subseteq> lset (deny_in df v) \<union> lset (unknown_in df v) \<union> lset (permit_in df v)
      then PLAN_DEC_SATISFIED else PLAN_DEC_UNKNOWN)"

lemma node_flow_decision_spec:
  assumes "wf_dataflow df" and "wf_lset (inbound df u)"
  shows "node_flow_decision df u = flow_decision_spec df (lset (inbound df u)) u"
proof -
  have wf: "wf_lset (deny_in df u)" "wf_lset (unknown_in df u)" "wf_lset (permit_in df u)" "wf_lset (sticky df)"
    using assms(1) by (simp_all add: wf_dataflow_def)
  note ops = lab.union [of "plan_label_set_union_into (deny_in df u) (unknown_in df u)" "permit_in df u"]
    lab.union [OF wf(1,2)] lab.inter [OF assms(2) wf(4)] lab.intersects [OF assms(2) wf(1)]
    lab.intersects [OF assms(2) wf(2)]
    lab.minus_nonempty [of "plan_label_set_intersect_into (inbound df u) (sticky df)"
      "plan_label_set_union_into (plan_label_set_union_into (deny_in df u) (unknown_in df u)) (permit_in df u)"]
  show ?thesis
    unfolding node_flow_decision_def flow_decision_spec_def Let_def
      plan_label_set_union_into_def [symmetric] plan_label_set_intersect_into_def [symmetric]
    using ops wf by simp
qed

lemma label_fixpoint:
  assumes li: "label_inv n (edges (df_plan df)) df {..<n}" and n: "n = n_nodes (df_plan df)"
    and wf: "wf_dataflow df" and acyc: "acyclic (plan_rel (df_plan df))" and "v < n"
  shows "lset (outbound df v) = {l. emits df l v}"
proof -
  let ?R = "plan_rel (df_plan df)"
  have bnd: "(a, b) \<in> ?R \<Longrightarrow> a < n \<and> b < n" for a b
    using wf plan_rel_bounded n by (auto simp: wf_dataflow_def)
  have out: "lset (outbound df u) = (lset (inbound df u) - lset (declassify df u)) \<union> lset (origin df u)"
    if "u < n" for u
    using li that by (simp add: label_inv_def visited_def)
  have inb: "lset (inbound df u) = (\<Union>w \<in> {w. (w, u) \<in> ?R}. lset (outbound df w))" if "u < n" for u
  proof -
    have "{w \<in> {..<n}. (w, u) \<in> ?R} = {w. (w, u) \<in> ?R}" using bnd by blast
    then show ?thesis using li that by (simp add: label_inv_def edge_rel_plan)
  qed
  have "finite ?R" by (simp add: plan_rel_def)
  with acyc have wfr: "wf ?R" by (simp add: finite_acyclic_wf)
  have "emits df l v" if "l \<in> lset (outbound df v)" for l
    using wfr \<open>v < n\<close> that
  proof (induction v rule: wf_induct_rule)
    case (less v)
    then consider "l \<in> lset (origin df v)"
      | w where "(w, v) \<in> ?R" "l \<in> lset (outbound df w)" "l \<notin> lset (declassify df v)"
      using out [of v] inb [of v] by blast
    then show ?case
    proof cases
      case 1
      then show ?thesis by (rule emits.originate)
    next
      case 2
      with less.IH [of w] bnd have "emits df l w" by blast
      with 2 show ?thesis by (blast intro: emits.propagate)
    qed
  qed
  moreover have "l \<in> lset (outbound df v)" if "emits df l v" for l
    using that \<open>v < n\<close>
  proof (induction rule: emits.induct)
    case (originate l u)
    then show ?case using out by blast
  next
    case (propagate l w u)
    then have "l \<in> lset (inbound df u)" using inb [of u] bnd by blast
    with propagate show ?case using out by blast
  qed
  ultimately show ?thesis by blast
qed

interpretation flow_axis: verdict_join dec_join
proof (unfold_locales, goal_cases)
  case (4 a b)
  then show ?case by (cases a; cases b) (simp_all add: dec_join_def)
qed (auto simp: dec_join_def valid_decision_def)

text \<open>The verdict of the flow axis, with no mention of Kahn's algorithm.\<close>

definition flow_verdict_spec :: "plan_dataflow \<Rightarrow> plan_decision" where
  "flow_verdict_spec df =
     (let D = (\<lambda>v. flow_decision_spec df (reaches df v) v) ` {..<n_nodes (df_plan df)} in
      if \<not> acyclic (plan_rel (df_plan df)) then PLAN_DEC_UNKNOWN
      else if PLAN_DEC_UNSATISFIED \<in> D then PLAN_DEC_UNSATISFIED
      else if PLAN_DEC_UNKNOWN \<in> D then PLAN_DEC_UNKNOWN
      else PLAN_DEC_SATISFIED)"

lemma valid_flow_decision [simp]: "valid_decision (flow_decision_spec df inb v)"
  by (simp add: flow_decision_spec_def)

lemma emits_cong: "same_inputs df df' \<Longrightarrow> emits df' l u = emits df l u"
proof -
  have "emits a l u \<Longrightarrow> same_inputs a b \<Longrightarrow> emits b l u" for a b :: plan_dataflow
    by (induction rule: emits.induct) (auto simp: same_inputs_def intro: emits.intros)
  moreover assume "same_inputs df df'"
  moreover from this have "same_inputs df' df" by (simp add: same_inputs_def)
  ultimately show ?thesis by blast
qed

lemma spec_cong:
  assumes "same_inputs df df'"
  shows "reaches df' v = reaches df v" and "flow_decision_spec df' inb v = flow_decision_spec df inb v"
    and "flow_verdict_spec df' = flow_verdict_spec df" and "wf_dataflow df' = wf_dataflow df"
proof -
  show r: "reaches df' v = reaches df v" for v
    using assms emits_cong [OF assms] by (simp add: reaches_def same_inputs_def)
  show d: "flow_decision_spec df' inb v = flow_decision_spec df inb v" for inb v
    using assms by (simp add: flow_decision_spec_def same_inputs_def)
  show "flow_verdict_spec df' = flow_verdict_spec df"
    using assms by (simp add: flow_verdict_spec_def r d same_inputs_def)
  show "wf_dataflow df' = wf_dataflow df" using assms by (simp add: wf_dataflow_def same_inputs_def)
qed

lemma kahn_inv_init:
  assumes "wf_dataflow df" and n: "n = n_nodes (df_plan df)"
  shows "kahn_inv n (edges (df_plan df)) df (reset_computed n df) (count_indeg n (edges (df_plan df)) (\<lambda>_. 0))
    (filter (\<lambda>i. count_indeg n (edges (df_plan df)) (\<lambda>_. 0) i = 0) [0..<n]) 0 0 PLAN_DEC_SATISFIED"
proof -
  have "same_inputs df (reset_computed n df)" by (simp add: same_inputs_def reset_computed_def)
  moreover have "n \<le> PLAN_MAX_NODES" using assms by (simp add: wf_dataflow_def wf_plan_def)
  ultimately show ?thesis
    by (auto simp: kahn_inv_def queue_inv_def label_inv_def count_indeg_pend reset_computed_def lab.clear)
qed

definition flow_computed :: "plan_dataflow \<Rightarrow> plan_dataflow \<Rightarrow> bool" where
  "flow_computed df df' \<longleftrightarrow>
     (\<forall>v < n_nodes (df_plan df).
        wf_lset (inbound df' v) \<and> lset (inbound df' v) = reaches df v \<and>
        wf_lset (outbound df' v) \<and> lset (outbound df' v) = {l. emits df l v} \<and>
        lset (declassified df' v) = reaches df v \<inter> lset (declassify df v) \<and>
        node_dec df' v = flow_decision_spec df (reaches df v) v)"

lemma label_inv_flow_computed:
  assumes li: "label_inv n (edges (df_plan df)) df' {..<n}" and n: "n = n_nodes (df_plan df)"
    and same: "same_inputs df df'" and wf: "wf_dataflow df" and acyc: "acyclic (plan_rel (df_plan df))"
  shows "flow_computed df df'"
  unfolding flow_computed_def
proof (intro allI impI)
  fix v assume "v < n_nodes (df_plan df)"
  then have v: "v < n" using n by simp
  have plan: "df_plan df' = df_plan df" using same by (simp add: same_inputs_def)
  have wf': "wf_dataflow df'" using wf spec_cong(4) [OF same] by simp
  have out: "lset (outbound df' u) = {l. emits df l u}" if "u < n" for u
    using label_fixpoint [of n df' u] li n plan wf' acyc that emits_cong [OF same] by simp
  have vis: "visited df' v" and wfi: "wf_lset (inbound df' v)"
    and inb: "lset (inbound df' v) =
      (\<Union>u \<in> {u \<in> {..<n}. (u, v) \<in> plan_rel (df_plan df)}. lset (outbound df' u))"
    using li v by (simp_all add: label_inv_def edge_rel_plan)
  have "u < n" if "(u, v) \<in> plan_rel (df_plan df)" for u
    using plan_rel_bounded that wf n by (auto simp: wf_dataflow_def)
  with inb out have r: "lset (inbound df' v) = reaches df v" by (auto simp: reaches_def)
  have "declassify df' = declassify df" using same by (simp add: same_inputs_def)
  then show "wf_lset (inbound df' v) \<and> lset (inbound df' v) = reaches df v \<and>
        wf_lset (outbound df' v) \<and> lset (outbound df' v) = {l. emits df l v} \<and>
        lset (declassified df' v) = reaches df v \<inter> lset (declassify df v) \<and>
        node_dec df' v = flow_decision_spec df (reaches df v) v"
    using vis wfi r out [OF v] node_flow_decision_spec [OF wf' wfi] spec_cong(2) [OF same]
    by (simp add: visited_def)
qed

lemma kahn_run:
  assumes wf: "wf_dataflow df" and n: "n = n_nodes (df_plan df)"
    and loop: "kahn_loop n (edges (df_plan df)) (reset_computed n df)
        (count_indeg n (edges (df_plan df)) (\<lambda>_. 0))
        (filter (\<lambda>i. count_indeg n (edges (df_plan df)) (\<lambda>_. 0) i = 0) [0..<n]) 0 0 PLAN_DEC_SATISFIED
      = (df', processed, verdict)"
  shows "same_inputs df df' \<and> (processed = n \<longleftrightarrow> acyclic (plan_rel (df_plan df))) \<and>
    (processed = n \<longrightarrow> flow_computed df df' \<and> verdict = flow_verdict_spec df)"
proof -
  let ?es = "edges (df_plan df)"
  from kahn_loop_inv [OF kahn_inv_init [OF wf n] wf loop] obtain indeg queue where
    inv: "kahn_inv n ?es df df' indeg queue (length queue) processed verdict" by blast
  then have qi: "queue_inv n ?es indeg queue (length queue)" and same: "same_inputs df df'"
    and p: "processed = length queue" and li: "label_inv n ?es df' (set queue)"
    and v: "verdict = fold (\<lambda>d a. dec_join a d) (map (node_dec df') queue) PLAN_DEC_SATISFIED"
    by (simp_all add: kahn_inv_def)
  have src: "\<forall>e \<in> set ?es. edge_from e < n \<and> edge_to e < n"
    using wf n by (simp add: wf_dataflow_def wf_plan_def)
  have iff: "processed = n \<longleftrightarrow> acyclic (plan_rel (df_plan df))"
    using kahn_complete_acyclic [OF qi _ src] kahn_incomplete_cyclic [OF qi _ src] p
    unfolding edge_rel_plan by blast
  have "flow_computed df df' \<and> verdict = flow_verdict_spec df" if "processed = n"
  proof -
    have acyc: "acyclic (plan_rel (df_plan df))" using iff that by simp
    have "distinct queue" "set queue \<subseteq> {..<n}" using qi by (simp_all add: queue_inv_def)
    then have full: "set queue = {..<n}" using that p by (simp add: card_subset_eq distinct_card)
    then have fc: "flow_computed df df'" using label_inv_flow_computed [OF _ n same wf acyc] li by simp
    then have decs: "node_dec df' ` {..<n} = (\<lambda>v. flow_decision_spec df (reaches df v) v) ` {..<n}"
      using n by (auto simp: flow_computed_def)
    have "\<forall>d \<in> set (map (node_dec df') queue). valid_decision d"
      using fc full n by (simp add: flow_computed_def)
    from flow_axis.fold_join [OF this, of PLAN_DEC_SATISFIED]
    have "verdict = flow_verdict_spec df"
      using v full decs acyc n by (simp add: flow_verdict_spec_def Let_def)
    with fc show ?thesis by blast
  qed
  with same iff show ?thesis by blast
qed

lemma flow_verdict_correct:
  assumes wf: "wf_dataflow df" and fresh: "\<not> computed df"
  shows "\<exists>df'. plan_dataflow_flow_verdict (Some df) = (flow_verdict_spec df, Some df') \<and>
     same_inputs df df' \<and> computed df' \<and> flow_verdict df' = flow_verdict_spec df \<and>
     (acyclic (plan_rel (df_plan df)) \<longrightarrow> flow_computed df df')"
proof (cases "n_nodes (df_plan df) = 0")
  case True
  then have "plan_rel (df_plan df) = {}"
    using wf by (auto simp: wf_dataflow_def wf_plan_def plan_rel_def)
  then have "flow_verdict_spec df = PLAN_DEC_SATISFIED"
    using True by (simp add: flow_verdict_spec_def acyclic_def)
  then show ?thesis
    using True fresh
    by (simp add: plan_dataflow_flow_verdict_def exec_plan_node_count_def same_inputs_def flow_computed_def)
next
  case False
  let ?n = "n_nodes (df_plan df)" and ?es = "edges (df_plan df)"
  obtain df1 processed verdict where
    loop: "kahn_loop ?n ?es (reset_computed ?n df) (count_indeg ?n ?es (\<lambda>_. 0))
        (filter (\<lambda>i. count_indeg ?n ?es (\<lambda>_. 0) i = 0) [0..<?n]) 0 0 PLAN_DEC_SATISFIED
      = (df1, processed, verdict)" by (metis prod_cases3)
  note run = kahn_run [OF wf refl loop]
  let ?v = "if processed \<noteq> ?n then PLAN_DEC_UNKNOWN else verdict"
  have v: "?v = flow_verdict_spec df" using run by (auto simp: flow_verdict_spec_def)
  have "plan_dataflow_flow_verdict (Some df) = (?v, Some (df1\<lparr>flow_verdict := ?v, computed := True\<rparr>))"
    using False fresh loop by (simp add: plan_dataflow_flow_verdict_def exec_plan_node_count_def Let_def)
  then show ?thesis
    unfolding v using run by (simp add: same_inputs_def flow_computed_def)
qed

section \<open>Companions a caller can obtain\<close>

text \<open>Any order of the calls of the interface: the five kinds of per-node input, the sticky set, and
  the verdict itself, which caches what it computes. The plan is the one the companion was made for
  and does not change meanwhile.\<close>

inductive df_reach :: "exec_plan \<Rightarrow> plan_dataflow \<Rightarrow> bool" for p :: exec_plan where
  fresh: "plan_dataflow_new ok (Some p) = Some df \<Longrightarrow> df_reach p df"
| origin: "df_reach p df \<Longrightarrow> plan_dataflow_add_origin df v l = (rc, df') \<Longrightarrow> df_reach p df'"
| deny_in: "df_reach p df \<Longrightarrow> plan_dataflow_add_deny_in df v l = (rc, df') \<Longrightarrow> df_reach p df'"
| unknown_in: "df_reach p df \<Longrightarrow> plan_dataflow_add_unknown_in df v l = (rc, df') \<Longrightarrow> df_reach p df'"
| permit_in: "df_reach p df \<Longrightarrow> plan_dataflow_add_permit_in df v l = (rc, df') \<Longrightarrow> df_reach p df'"
| declassify: "df_reach p df \<Longrightarrow> plan_dataflow_add_declassify df v l = (rc, df') \<Longrightarrow> df_reach p df'"
| mark_sticky: "df_reach p df \<Longrightarrow> plan_dataflow_mark_sticky df l = (rc, df') \<Longrightarrow> df_reach p df'"
| verdict: "df_reach p df \<Longrightarrow> plan_dataflow_flow_verdict (Some df) = (d, Some df') \<Longrightarrow> df_reach p df'"

text \<open>The invariant: the inputs are well-formed and a cached verdict is the one the inputs call for.\<close>

definition df_inv :: "exec_plan \<Rightarrow> plan_dataflow \<Rightarrow> bool" where
  "df_inv p df \<longleftrightarrow>
     wf_dataflow df \<and> df_plan df = p \<and>
     (computed df \<longrightarrow> flow_verdict df = flow_verdict_spec df \<and> (acyclic (plan_rel p) \<longrightarrow> flow_computed df df))"

lemma label_add_wf: "wf_lset s \<Longrightarrow> plan_label_set_add s t = (rc, s') \<Longrightarrow> wf_lset s'"
  using lab.add_in [of s t] lab.add_out [of t s] by (cases "t < PLAN_MAX_LABELS") auto

lemma wf_add_to:
  assumes "wf_dataflow df"
  shows "wf_dataflow (snd (plan_dataflow_add_origin df v l))"
    and "wf_dataflow (snd (plan_dataflow_add_deny_in df v l))"
    and "wf_dataflow (snd (plan_dataflow_add_unknown_in df v l))"
    and "wf_dataflow (snd (plan_dataflow_add_permit_in df v l))"
    and "wf_dataflow (snd (plan_dataflow_add_declassify df v l))"
    and "wf_dataflow (snd (plan_dataflow_mark_sticky df l))"
  using assms label_add_wf
  by (fastforce simp: wf_dataflow_def plan_dataflow_add_origin_def plan_dataflow_add_deny_in_def
      plan_dataflow_add_unknown_in_def plan_dataflow_add_permit_in_def plan_dataflow_add_declassify_def
      plan_dataflow_mark_sticky_def add_to_def split: prod.splits)+

lemmas df_input_defs = plan_dataflow_add_origin_def plan_dataflow_add_deny_in_def
  plan_dataflow_add_unknown_in_def plan_dataflow_add_permit_in_def plan_dataflow_add_declassify_def
  plan_dataflow_mark_sticky_def

text \<open>An input call is refused and changes nothing, or it is accepted and drops the cached verdict.\<close>

lemma input_drops_cache:
  "plan_dataflow_add_origin df v l = (rc, df') \<Longrightarrow> df' = df \<or> \<not> computed df' \<and> df_plan df' = df_plan df"
  "plan_dataflow_add_deny_in df v l = (rc, df') \<Longrightarrow> df' = df \<or> \<not> computed df' \<and> df_plan df' = df_plan df"
  "plan_dataflow_add_unknown_in df v l = (rc, df') \<Longrightarrow> df' = df \<or> \<not> computed df' \<and> df_plan df' = df_plan df"
  "plan_dataflow_add_permit_in df v l = (rc, df') \<Longrightarrow> df' = df \<or> \<not> computed df' \<and> df_plan df' = df_plan df"
  "plan_dataflow_add_declassify df v l = (rc, df') \<Longrightarrow> df' = df \<or> \<not> computed df' \<and> df_plan df' = df_plan df"
  "plan_dataflow_mark_sticky df l = (rc, df') \<Longrightarrow> df' = df \<or> \<not> computed df' \<and> df_plan df' = df_plan df"
  by (auto simp: df_input_defs add_to_def split: prod.splits if_splits)

lemma df_inv_input:
  "df_inv p df \<Longrightarrow> wf_dataflow df' \<Longrightarrow> df' = df \<or> \<not> computed df' \<and> df_plan df' = df_plan df \<Longrightarrow> df_inv p df'"
  by (auto simp: df_inv_def)

lemma wf_dataflow_new: "plan_dataflow_new ok (Some p) = Some df \<Longrightarrow> wf_plan p \<Longrightarrow> df_inv p df"
  by (auto simp: plan_dataflow_new_def df_inv_def wf_dataflow_def lab.clear split: if_splits)

lemma flow_computed_cong: "same_inputs df df' \<Longrightarrow> flow_computed df' d = flow_computed df d"
  using emits_cong [of df df'] by (simp add: flow_computed_def spec_cong) (simp add: same_inputs_def)

lemma verdict_on_inv:
  assumes "df_inv p df"
  shows "\<exists>df'. plan_dataflow_flow_verdict (Some df) = (flow_verdict_spec df, Some df') \<and>
     same_inputs df df' \<and> computed df' \<and> df_inv p df' \<and>
     (acyclic (plan_rel p) \<longrightarrow> flow_computed df df')"
proof (cases "computed df")
  case True
  then show ?thesis using assms by (auto simp: plan_dataflow_flow_verdict_def df_inv_def)
next
  case False
  with assms flow_verdict_correct [of df] obtain df' where
    v: "plan_dataflow_flow_verdict (Some df) = (flow_verdict_spec df, Some df')"
    and s: "same_inputs df df'" and c: "computed df'" "flow_verdict df' = flow_verdict_spec df"
    and f: "acyclic (plan_rel (df_plan df)) \<longrightarrow> flow_computed df df'"
    by (auto simp: df_inv_def)
  have "df_inv p df'"
    using assms s c f spec_cong [OF s] flow_computed_cong [OF s] by (simp add: df_inv_def same_inputs_def)
  moreover have "df_plan df = p" using assms by (simp add: df_inv_def)
  ultimately show ?thesis using v s c f by auto
qed

lemma df_reach_inv: "df_reach p df \<Longrightarrow> wf_plan p \<Longrightarrow> df_inv p df"
proof (induction rule: df_reach.induct)
  case (fresh ok df)
  then show ?case by (rule wf_dataflow_new)
next
  case (origin df v l rc df')
  then show ?case using df_inv_input [of p df df'] wf_add_to(1) [of df v l] input_drops_cache(1)
    by (metis df_inv_def snd_conv)
next
  case (deny_in df v l rc df')
  then show ?case using df_inv_input [of p df df'] wf_add_to(2) [of df v l] input_drops_cache(2)
    by (metis df_inv_def snd_conv)
next
  case (unknown_in df v l rc df')
  then show ?case using df_inv_input [of p df df'] wf_add_to(3) [of df v l] input_drops_cache(3)
    by (metis df_inv_def snd_conv)
next
  case (permit_in df v l rc df')
  then show ?case using df_inv_input [of p df df'] wf_add_to(4) [of df v l] input_drops_cache(4)
    by (metis df_inv_def snd_conv)
next
  case (declassify df v l rc df')
  then show ?case using df_inv_input [of p df df'] wf_add_to(5) [of df v l] input_drops_cache(5)
    by (metis df_inv_def snd_conv)
next
  case (mark_sticky df l rc df')
  then show ?case using df_inv_input [of p df df'] wf_add_to(6) [of df l] input_drops_cache(6)
    by (metis df_inv_def snd_conv)
next
  case (verdict df d df')
  then show ?case using verdict_on_inv [of p df] by auto
qed

section \<open>Monotonicity\<close>

text \<open>\<open>df'\<close> is at least as restrictive as \<open>df\<close>: it originates, denies, suspends and marks sticky no
  less, and permits and declassifies no more.\<close>

definition tighter :: "plan_dataflow \<Rightarrow> plan_dataflow \<Rightarrow> bool" where
  "tighter df df' \<longleftrightarrow> df_plan df' = df_plan df \<and> lset (sticky df) \<subseteq> lset (sticky df') \<and>
     (\<forall>v. lset (origin df v) \<subseteq> lset (origin df' v) \<and> lset (deny_in df v) \<subseteq> lset (deny_in df' v) \<and>
          lset (unknown_in df v) \<subseteq> lset (unknown_in df' v) \<and>
          lset (permit_in df' v) \<subseteq> lset (permit_in df v) \<and>
          lset (declassify df' v) \<subseteq> lset (declassify df v))"

lemma emits_mono:
  assumes "tighter df df'"
  shows "emits df l u \<Longrightarrow> emits df' l u"
proof (induction rule: emits.induct)
  case (originate l u)
  then have "l \<in> lset (origin df' u)" using assms by (auto simp: tighter_def)
  then show ?case by (rule emits.originate)
next
  case (propagate l w u)
  then show ?case using assms emits.propagate [of df' l w u] by (auto simp: tighter_def)
qed

lemma reaches_mono: "tighter df df' \<Longrightarrow> reaches df v \<subseteq> reaches df' v"
  using emits_mono by (auto simp: reaches_def tighter_def)

lemma flow_decision_mono:
  assumes t: "tighter df df'"
  shows "dec_rank (flow_decision_spec df (reaches df v) v) \<le> dec_rank (flow_decision_spec df' (reaches df' v) v)"
proof -
  have s: "lset (sticky df) \<subseteq> lset (sticky df')" "lset (deny_in df v) \<subseteq> lset (deny_in df' v)"
    "lset (unknown_in df v) \<subseteq> lset (unknown_in df' v)" "lset (permit_in df' v) \<subseteq> lset (permit_in df v)"
    using t by (auto simp: tighter_def)
  note r = reaches_mono [OF t, of v]
  have "reaches df v \<inter> lset (deny_in df v) \<noteq> {} \<Longrightarrow> reaches df' v \<inter> lset (deny_in df' v) \<noteq> {}"
    using s r by blast
  moreover have "flow_decision_spec df (reaches df v) v = PLAN_DEC_SATISFIED"
    if "flow_decision_spec df' (reaches df' v) v = PLAN_DEC_SATISFIED"
  proof -
    have "reaches df' v \<inter> (lset (deny_in df' v) \<union> lset (unknown_in df' v)) = {}"
      "reaches df' v \<inter> lset (sticky df') \<subseteq> lset (permit_in df' v)"
      using that by (auto simp: flow_decision_spec_def split: if_splits)
    then have "reaches df v \<inter> lset (deny_in df v) = {}" "reaches df v \<inter> lset (unknown_in df v) = {}"
      "reaches df v \<inter> lset (sticky df) \<subseteq> lset (permit_in df v)" using s r by blast+
    then show ?thesis by (auto simp: flow_decision_spec_def)
  qed
  ultimately show ?thesis by (auto simp: flow_decision_spec_def split: if_splits)
qed

lemma flow_verdict_mono:
  assumes t: "tighter df df'"
  shows "dec_rank (flow_verdict_spec df) \<le> dec_rank (flow_verdict_spec df')"
proof -
  let ?N = "{..<n_nodes (df_plan df)}"
  let ?d = "\<lambda>v. flow_decision_spec df (reaches df v) v" and ?d' = "\<lambda>v. flow_decision_spec df' (reaches df' v) v"
  have p: "df_plan df' = df_plan df" using t by (simp add: tighter_def)
  have 1: "PLAN_DEC_UNSATISFIED \<in> ?d ` ?N \<Longrightarrow> PLAN_DEC_UNSATISFIED \<in> ?d' ` ?N"
  proof -
    assume "PLAN_DEC_UNSATISFIED \<in> ?d ` ?N"
    then obtain v where v: "v \<in> ?N" "?d v = PLAN_DEC_UNSATISFIED" by force
    have "?d' v = PLAN_DEC_UNSATISFIED"
      using flow_decision_mono [OF t, of v] v valid_flow_decision [of df' "reaches df' v" v]
      by (cases "?d' v") (simp_all del: valid_flow_decision)
    with v show ?thesis by force
  qed
  have 2: "PLAN_DEC_UNKNOWN \<in> ?d ` ?N \<Longrightarrow> PLAN_DEC_UNSATISFIED \<in> ?d' ` ?N \<or> PLAN_DEC_UNKNOWN \<in> ?d' ` ?N"
  proof -
    assume "PLAN_DEC_UNKNOWN \<in> ?d ` ?N"
    then obtain v where v: "v \<in> ?N" "?d v = PLAN_DEC_UNKNOWN" by force
    have "?d' v = PLAN_DEC_UNSATISFIED \<or> ?d' v = PLAN_DEC_UNKNOWN"
      using flow_decision_mono [OF t, of v] v valid_flow_decision [of df' "reaches df' v" v]
      by (cases "?d' v") (simp_all del: valid_flow_decision)
    with v show ?thesis by force
  qed
  show ?thesis using 1 2 p by (auto simp: flow_verdict_spec_def Let_def simp del: image_iff)
qed

lemma add_lset:
  assumes "wf_lset s" and "plan_label_set_add s t = (0, s')"
  shows "lset s' = insert t (lset s)"
  using assms lab.add_in [of s t] lab.add_out [of t s] by (cases "t < PLAN_MAX_LABELS") auto

lemma input_tighter:
  assumes "wf_dataflow df"
  shows "plan_dataflow_add_origin df v l = (0, df') \<Longrightarrow> tighter df df'"
    and "plan_dataflow_add_deny_in df v l = (0, df') \<Longrightarrow> tighter df df'"
    and "plan_dataflow_add_unknown_in df v l = (0, df') \<Longrightarrow> tighter df df'"
    and "plan_dataflow_mark_sticky df l = (0, df') \<Longrightarrow> tighter df df'"
    and "plan_dataflow_add_permit_in df v l = (0, df') \<Longrightarrow> tighter df' df"
    and "plan_dataflow_add_declassify df v l = (0, df') \<Longrightarrow> tighter df' df"
  using assms add_lset
  by (fastforce simp: tighter_def wf_dataflow_def df_input_defs add_to_def split: prod.splits if_splits)+

lemma df_reach_spec:
  assumes "plan_built p" and "df_reach p df"
  shows "fst (plan_dataflow_flow_verdict (Some df)) = flow_verdict_spec df" and "wf_dataflow df"
proof -
  have inv: "df_inv p df" using df_reach_inv [OF assms(2) plan_built_wf [OF assms(1)]] .
  then show "fst (plan_dataflow_flow_verdict (Some df)) = flow_verdict_spec df"
    using verdict_on_inv by fastforce
  show "wf_dataflow df" using inv by (simp add: df_inv_def)
qed

lemma flow_verdict_sat_iff:
  "flow_verdict_spec df = PLAN_DEC_SATISFIED \<longleftrightarrow> acyclic (plan_rel (df_plan df)) \<and>
      (\<forall>v < n_nodes (df_plan df). flow_decision_spec df (reaches df v) v = PLAN_DEC_SATISFIED)"
  using valid_flow_decision unfolding valid_decision_def flow_verdict_spec_def Let_def
  by (auto simp: image_iff) (metis lessThan_iff plan_decision.distinct(1,3))+

lemma flow_decision_sat_iff:
  "flow_decision_spec df (reaches df v) v = PLAN_DEC_SATISFIED \<longleftrightarrow>
      (\<forall>l \<in> reaches df v. l \<notin> lset (deny_in df v) \<and> l \<notin> lset (unknown_in df v) \<and>
             (l \<in> lset (sticky df) \<longrightarrow> l \<in> lset (permit_in df v)))"
  by (auto simp: flow_decision_spec_def)

lemma joined_verdict_sat:
  assumes "wf_plan p" and "df_inv p df"
  shows "dec_join (plan_verdict_spec p) (flow_verdict_spec df) = PLAN_DEC_SATISFIED \<longleftrightarrow>
    nodes p \<noteq> [] \<and> acyclic (plan_rel p) \<and> (\<forall>x \<in> set (nodes p). node_decision x = PLAN_DEC_SATISFIED) \<and>
    (\<forall>v < n_nodes p. \<forall>l \<in> reaches df v. l \<notin> lset (deny_in df v) \<and> l \<notin> lset (unknown_in df v) \<and>
             (l \<in> lset (sticky df) \<longrightarrow> l \<in> lset (permit_in df v)))"
proof -
  have vp: "valid_decision (plan_verdict_spec p)" by (simp add: plan_verdict_spec_def)
  have vf: "valid_decision (flow_verdict_spec df)" by (simp add: flow_verdict_spec_def Let_def)
  have "df_plan df = p" using assms(2) by (simp add: df_inv_def)
  then show ?thesis
    using flow_axis.join_eq_sat_iff [OF vp vf] plan_verdict_sat_iff [OF assms(1)]
      flow_verdict_sat_iff [of df] flow_decision_sat_iff [of df] by auto
qed

section \<open>Properties\<close>


definition pair_plan :: "plan_decision \<Rightarrow> plan_decision \<Rightarrow> exec_plan" where
  "pair_plan a b =
     \<lparr>nodes = [\<lparr>node_id = 0, node_label = None, node_decision = a\<rparr>,
               \<lparr>node_id = 1, node_label = None, node_decision = b\<rparr>],
      edges = [\<lparr>edge_from = 0, edge_to = 1\<rparr>]\<rparr>"

definition pair_df :: plan_dataflow where
  "pair_df = the (plan_dataflow_new True (Some (pair_plan PLAN_DEC_SATISFIED PLAN_DEC_SATISFIED)))"

lemma pair_built: "plan_built (pair_plan PLAN_DEC_SATISFIED PLAN_DEC_SATISFIED)"
  unfolding pair_plan_def by (rule plan_built_pair) simp_all

lemma pair_reach: "df_reach (pair_plan PLAN_DEC_SATISFIED PLAN_DEC_SATISFIED) pair_df"
  by (rule df_reach.fresh [of True]) (simp add: pair_df_def plan_dataflow_new_def)

lemma pair_acyclic: "acyclic (plan_rel (pair_plan a b))"
  by (simp add: plan_rel_def pair_plan_def acyclic_insert) (simp add: acyclic_def)


text \<open>C10. The two-axis gate: a plan is authorized with its data flow exactly when it has a node and no
  cycle, every node is SATISFIED on its own, and at every node no label that reaches it is denied or
  suspended there and every sticky label that reaches it is explicitly permitted there.\<close>

theorem authorized_with_dataflow_iff:
  assumes "plan_built p" and "df_reach p df"
  shows "fst (exec_plan_authorized_with_dataflow (Some p) (Some df)) =
    Some (nodes p \<noteq> [] \<and> acyclic (plan_rel p) \<and>
          (\<forall>x \<in> set (nodes p). node_decision x = PLAN_DEC_SATISFIED) \<and>
          (\<forall>v < n_nodes p. \<forall>l \<in> reaches df v.
             l \<notin> lset (deny_in df v) \<and> l \<notin> lset (unknown_in df v) \<and>
             (l \<in> lset (sticky df) \<longrightarrow> l \<in> lset (permit_in df v))))"
proof -
  have wf: "wf_plan p" using assms(1) by (rule plan_built_wf)
  have inv: "df_inv p df" using df_reach_inv [OF assms(2) wf] .
  show ?thesis
    using verdict_on_inv [OF inv] exec_plan_verify_spec [OF wf] joined_verdict_sat [OF wf inv]
    by (auto simp: exec_plan_authorized_with_dataflow_def exec_plan_verify_with_dataflow_def)
qed

theorem authorized_with_dataflow_iff_witness:
  "fst (exec_plan_authorized_with_dataflow (Some (pair_plan PLAN_DEC_SATISFIED PLAN_DEC_SATISFIED)) (Some pair_df)) =
    Some True"
proof -
  have "deny_in pair_df = (\<lambda>_. plan_label_set_clear)" "unknown_in pair_df = (\<lambda>_. plan_label_set_clear)"
    "sticky pair_df = plan_label_set_clear"
    by (simp_all add: pair_df_def plan_dataflow_new_def)
  then show ?thesis
    using authorized_with_dataflow_iff [OF pair_built pair_reach] pair_acyclic lab.clear(2)
    by (simp add: pair_plan_def)
qed

text \<open>Restrictive inputs only restrict: an accepted origin, denial, suspension or sticky mark never
  lowers the flow verdict in the order SATISFIED, UNKNOWN, UNSATISFIED, and an accepted permission or
  declassification never raises it.\<close>

theorem flow_verdict_monotone:
  assumes "plan_built p" and "df_reach p df"
  shows "(plan_dataflow_add_origin df v l = (0, df') \<or> plan_dataflow_add_deny_in df v l = (0, df') \<or>
      plan_dataflow_add_unknown_in df v l = (0, df') \<or> plan_dataflow_mark_sticky df l = (0, df') \<longrightarrow>
      dec_rank (fst (plan_dataflow_flow_verdict (Some df))) \<le> dec_rank (fst (plan_dataflow_flow_verdict (Some df')))) \<and>
    (plan_dataflow_add_permit_in df v l = (0, df') \<or> plan_dataflow_add_declassify df v l = (0, df') \<longrightarrow>
      dec_rank (fst (plan_dataflow_flow_verdict (Some df'))) \<le> dec_rank (fst (plan_dataflow_flow_verdict (Some df))))"
proof (intro conjI impI, goal_cases)
  case 1
  then have "df_reach p df'" using assms(2) by (blast intro: df_reach.intros)
  moreover have "tighter df df'" using 1 input_tighter [OF df_reach_spec(2) [OF assms]] by blast
  ultimately show ?case using flow_verdict_mono df_reach_spec(1) [OF assms(1)] assms(2) by simp
next
  case 2
  then have "df_reach p df'" using assms(2) by (blast intro: df_reach.intros)
  moreover have "tighter df' df" using 2 input_tighter [OF df_reach_spec(2) [OF assms]] by blast
  ultimately show ?case using flow_verdict_mono df_reach_spec(1) [OF assms(1)] assms(2) by simp
qed

theorem flow_verdict_monotone_witness:
  "dec_rank (fst (plan_dataflow_flow_verdict (Some pair_df))) \<le>
   dec_rank (fst (plan_dataflow_flow_verdict (Some (snd (plan_dataflow_add_origin pair_df 0 3)))))"
proof -
  have "plan_dataflow_add_origin pair_df 0 3 = (0, snd (plan_dataflow_add_origin pair_df 0 3))"
    by (simp add: plan_dataflow_add_origin_def add_to_def pair_df_def plan_dataflow_new_def pair_plan_def
        exec_plan_node_count_def plan_label_set_add_def plan_label_valid_def PLAN_MAX_LABELS_def)
  then show ?thesis using flow_verdict_monotone [OF pair_built pair_reach] by blast
qed

end
