(* ===== verification/Url.thy ===== *)
theory Url
  imports Prelude
begin

unbundle bit_operations_syntax

text \<open>
  The strict URL reader of the flow policy: \<open>v6_embeds_v4\<close> and \<open>url_component\<close> of
  \<^verbatim>\<open>src/v1_7/plan_dataflow_adapter.c\<close>. The pointers into the URL are the corresponding parts of the
  string; a rejected URL (return value -1) is \<^const>\<open>None\<close>. The long C function is split at its
  sections: front (scheme and authority), host and port, and one definition per component.
\<close>

section \<open>IPv6 literals that embed an IPv4 address\<close>

definition ishex :: "char \<Rightarrow> bool" where
  "ishex c \<longleftrightarrow> isdigit c \<or> (97 \<le> byte c \<and> byte c \<le> 102) \<or> (65 \<le> byte c \<and> byte c \<le> 70)"

definition hexval :: "char \<Rightarrow> nat" where
  "hexval c = (if byte c \<le> 57 then byte c - 48 else (byte c OR 32) - 97 + 10)"

text \<open>The inner loop: at most five hex digits; it returns their number, their value and the rest.\<close>

fun hexrun :: "nat \<Rightarrow> nat \<Rightarrow> string \<Rightarrow> nat \<times> nat \<times> string" where
  "hexrun k v [] = (k, v, [])"
| "hexrun k v (c # s) =
     (if k < 5 \<and> ishex c then hexrun (k + 1) (v * 16 + hexval c) s else (k, v, c # s))"

lemma hexrun_length: "hexrun k v s = (k', v', r) \<Longrightarrow> k' + length r = k + length s"
  by (induction k v s rule: hexrun.induct) (auto split: if_splits)

text \<open>The group loop over the rest of the literal. \<^const>\<open>None\<close> is the early \<open>return true\<close>.\<close>

function v6_groups :: "nat list \<Rightarrow> nat option \<Rightarrow> string \<Rightarrow> (nat list \<times> nat option) option" where
  "v6_groups g gap s =
     (if s = [] then Some (g, gap)
      else if length g \<ge> 8 then None
      else
        let (k, v, r) = hexrun 0 0 s in
        if r \<noteq> [] \<and> hd r = CHR ''.'' then None
        else if k = 0 \<or> k > 4 \<or> v > 65535 then None
        else
          let g' = g @ [v] in
          if r = [] then Some (g', gap)
          else if hd r \<noteq> CHR '':'' then None
          else if length r \<ge> 2 \<and> r ! 1 = CHR '':'' then
            if gap \<noteq> None then None
            else v6_groups g' (Some (length g')) (drop 2 r)
          else if drop 1 r = [] \<and> gap \<noteq> Some (length g') then None
          else v6_groups g' gap (drop 1 r))"
  by pat_completeness auto
termination
proof (relation "measure (\<lambda>(g, gap, s). length s)", goal_cases)
  case 1
  show ?case by simp
next
  case prems: (2 g gap s x k y v r)
  then have "k + length r = length s" "0 < k" using hexrun_length [of 0 0 s k v r] by auto
  then show ?case by auto
next
  case prems: (3 g gap s x k y v r)
  then have "k + length r = length s" "0 < k" using hexrun_length [of 0 0 s k v r] by auto
  then show ?case by auto
qed

declare v6_groups.simps [simp del]

definition v6_full :: "nat list \<Rightarrow> nat option \<Rightarrow> nat list option" where
  "v6_full g gap =
     (case gap of
        Some k \<Rightarrow> Some (take k g @ replicate (8 - length g) 0 @ drop k g)
      | None \<Rightarrow> if length g \<noteq> 8 then None else Some g)"

definition v6_embeds_v4 :: "string \<Rightarrow> bool" where
  "v6_embeds_v4 h =
     (let (gap, s) = (if take 2 h = ''::'' then (Some 0, drop 2 h) else (None, h)) in
      case v6_groups [] gap s of
        None \<Rightarrow> True
      | Some (g, gap') \<Rightarrow>
          (case v6_full g gap' of
             None \<Rightarrow> True
           | Some full \<Rightarrow>
               if list_ex (\<lambda>x. x \<noteq> 0) (take 5 full) then False
               else full ! 5 = 65535 \<or> full ! 5 = 0))"

section \<open>The parts of an absolute URL\<close>

definition URL_PART_MAX :: nat where "URL_PART_MAX = 512"

definition scheme_char :: "char \<Rightarrow> bool" where
  "scheme_char c \<longleftrightarrow> isalpha c \<or> isdigit c \<or> c \<in> set ''+.-''"

definition host_char :: "char \<Rightarrow> bool" where
  "host_char c \<longleftrightarrow> isalpha c \<or> isdigit c \<or> c \<in> set ''.-''"

definition auth_end :: "char \<Rightarrow> bool" where
  "auth_end c \<longleftrightarrow> c \<in> set ''/?#''"

definition lower :: "char \<Rightarrow> char" where
  "lower c = (if isupper c then char_of (byte c - 65 + 97) else c)"

abbreviation backslash :: char where "backslash \<equiv> CHR 0x5C"

text \<open>Scheme, authority and what follows it.\<close>

definition url_front :: "string \<Rightarrow> (string \<times> string \<times> string) option" where
  "url_front url =
     (if url = [] \<or> \<not> isalpha (hd url) then None
      else
        let scheme = takeWhile scheme_char url; p = dropWhile scheme_char url in
        if take 3 p \<noteq> ''://'' then None
        else
          let auth = takeWhile (Not \<circ> auth_end) (drop 3 p);
              rest = dropWhile (Not \<circ> auth_end) (drop 3 p)
          in if auth = [] then None
             else if list_ex (\<lambda>c. c = CHR ''@'' \<or> c = backslash) auth then None
             else Some (scheme, auth, rest))"

text \<open>Host and, when there is one, the text of the port.\<close>

definition url_host_port :: "string \<Rightarrow> (string \<times> string option) option" where
  "url_host_port auth =
     (if hd auth = CHR ''['' then
        let h = takeWhile (\<lambda>c. c \<noteq> CHR '']'') auth; after = drop (length h + 1) auth in
        if h = auth then None
        else if v6_embeds_v4 (tl h) then None
        else if list_ex (\<lambda>c. \<not> (ishex c \<or> c = CHR '':'' \<or> c = CHR ''.'')) (tl h) then None
        else if after = [] then Some (h @ '']'', None)
        else if hd after \<noteq> CHR '':'' then None
        else Some (h @ '']'', Some (tl after))
      else
        let h = takeWhile (\<lambda>c. c \<noteq> CHR '':'') auth in
        if h = [] then None
        else if list_ex (\<lambda>c. \<not> host_char c) h then None
        else Some (h, if h = auth then None else Some (drop (length h + 1) auth)))"

fun port_loop :: "nat \<Rightarrow> string \<Rightarrow> nat option" where
  "port_loop portnum [] = Some portnum"
| "port_loop portnum (c # s) =
     (if \<not> isdigit c then None
      else
        let portnum' = portnum * 10 + (byte c - 48) in
        if portnum' > 65535 then None else port_loop portnum' s)"

definition port_ok :: "string option \<Rightarrow> bool" where
  "port_ok port =
     (case port of
        None \<Rightarrow> True
      | Some p \<Rightarrow>
          if p = [] \<or> hd p = CHR ''0'' then False
          else (case port_loop 0 p of None \<Rightarrow> False | Some portnum \<Rightarrow> portnum \<noteq> 0))"

section \<open>The components\<close>

text \<open>One decimal number of a dotted quad: its digits, as long as the value stays below 256.\<close>

fun quad_num :: "nat \<Rightarrow> string \<Rightarrow> string option" where
  "quad_num v [] = Some []"
| "quad_num v (c # s) =
     (if isdigit c then
        let v' = v * 10 + (byte c - 48) in
        if v' > 255 then None else quad_num v' s
      else Some (c # s))"

lemma quad_num_length: "quad_num v s = Some r \<Longrightarrow> length r \<le> length s"
  by (induction v s rule: quad_num.induct) (auto simp: Let_def split: if_splits)

text \<open>The loop over the numbers; it returns how many there are.\<close>

function quad_loop :: "nat \<Rightarrow> string \<Rightarrow> nat option" where
  "quad_loop parts s =
     (if s = [] then Some parts
      else
        (case quad_num 0 s of
           None \<Rightarrow> None
         | Some r \<Rightarrow>
             let n = length s - length r in
             if n = 0 \<or> (n > 1 \<and> hd s = CHR ''0'') then None
             else if r = [] then Some (parts + 1)
             else if hd r \<noteq> CHR ''.'' then None
             else quad_loop (parts + 1) (tl r)))"
  by pat_completeness auto
termination
proof (relation "measure (\<lambda>(parts, s). length s)", goal_cases)
  case 1
  show ?case by simp
next
  case (2 parts s r)
  then show ?case using quad_num_length [of 0 s r] by (cases r) auto
qed

declare quad_loop.simps [simp del]

definition last_label :: "string \<Rightarrow> string" where
  "last_label src = rev (takeWhile (\<lambda>c. c \<noteq> CHR ''.'') (rev src))"

definition host_numeric :: "string \<Rightarrow> bool" where
  "host_numeric src =
     (let l = last_label src in
      list_all isdigit l \<or>
      (length l \<ge> 2 \<and> l ! 0 = CHR ''0'' \<and> (l ! 1 = CHR ''x'' \<or> l ! 1 = CHR ''X'')))"

fun empty_label :: "string \<Rightarrow> bool" where
  "empty_label (a # b # s) \<longleftrightarrow> (a = CHR ''.'' \<and> b = CHR ''.'') \<or> empty_label (b # s)"
| "empty_label _ \<longleftrightarrow> False"

definition host_part :: "string \<Rightarrow> string option" where
  "host_part host =
     (let src = (if length host > 1 \<and> last host = CHR ''.'' \<and> hd host \<noteq> CHR ''['' then butlast host else host) in
      if src = [] \<or> last src = CHR ''.'' \<or> hd src = CHR ''.'' then None
      else if empty_label src then None
      else if hd src \<noteq> CHR ''['' \<and> host_numeric src \<and> quad_loop 0 src \<noteq> Some 4 then None
      else Some src)"

text \<open>The loop over the path, with the byte before the current one.\<close>

fun path_ok :: "char option \<Rightarrow> string \<Rightarrow> bool" where
  "path_ok prev [] = True"
| "path_ok prev (c # s) =
     (if c = CHR ''%'' \<or> c = backslash \<or> c = CHR '';'' then False
      else if c = CHR ''/'' \<and> s \<noteq> [] \<and> hd s = CHR ''/'' then False
      else if c = CHR ''.'' \<and> (prev = None \<or> prev = Some (CHR ''/'')) \<and>
              (let t = (if s \<noteq> [] \<and> hd s = CHR ''.'' then tl s else s) in t = [] \<or> hd t = CHR ''/'')
      then False
      else path_ok (Some c) s)"

definition path_part :: "string \<Rightarrow> string option" where
  "path_part rest =
     (let p = takeWhile (\<lambda>c. c \<noteq> CHR ''?'' \<and> c \<noteq> CHR ''#'') rest;
          src = (if p = [] then ''/'' else p)
      in if path_ok None src then Some src else None)"

text \<open>The chain that selects the component asked for.\<close>

definition url_part :: "string \<Rightarrow> string \<Rightarrow> string \<Rightarrow> string option \<Rightarrow> string \<Rightarrow> string option" where
  "url_part part scheme host port rest =
     (if part = ''scheme'' then Some (map lower scheme)
      else if part = ''host'' then map_option (map lower) (host_part host)
      else if part = ''port'' then Some (case port of None \<Rightarrow> [] | Some p \<Rightarrow> p)
      else if part = ''path'' then path_part rest
      else None)"

definition url_component :: "cstr option \<Rightarrow> cstr option \<Rightarrow> nat \<Rightarrow> cstr option" where
  "url_component url part outsz =
     (case (url, part) of
        (Some u, Some prt) \<Rightarrow>
          if outsz < 2 then None
          else
            (case url_front u of
               None \<Rightarrow> None
             | Some (scheme, auth, rest) \<Rightarrow>
                 (case url_host_port auth of
                    None \<Rightarrow> None
                  | Some (host, port) \<Rightarrow>
                      if \<not> port_ok port then None
                      else
                        (case url_part prt scheme host port rest of
                           None \<Rightarrow> None
                         | Some out \<Rightarrow> if length out \<ge> outsz then None else Some out)))
      | _ \<Rightarrow> None)"

section \<open>What the reader accepts\<close>

definition scheme_form :: "string \<Rightarrow> bool" where
  "scheme_form sc \<longleftrightarrow> sc \<noteq> [] \<and> isalpha (hd sc) \<and> list_all scheme_char sc"

definition host_form :: "string \<Rightarrow> bool" where
  "host_form h \<longleftrightarrow> (h \<noteq> [] \<and> list_all host_char h) \<or>
     (\<exists>inner. h = CHR ''['' # inner @ '']'' \<and> list_all (\<lambda>c. ishex c \<or> c = CHR '':'' \<or> c = CHR ''.'') inner \<and>
        \<not> v6_embeds_v4 inner)"

definition decval :: "nat \<Rightarrow> string \<Rightarrow> nat" where
  "decval v s = foldl (\<lambda>v c. v * 10 + (byte c - 48)) v s"

definition port_form :: "string option \<Rightarrow> bool" where
  "port_form port \<longleftrightarrow>
     (case port of None \<Rightarrow> True
      | Some p \<Rightarrow> p \<noteq> [] \<and> list_all isdigit p \<and> hd p \<noteq> CHR ''0'' \<and> decval 0 p \<le> 65535)"

definition port_text :: "string option \<Rightarrow> string" where
  "port_text port = (case port of None \<Rightarrow> [] | Some p \<Rightarrow> CHR '':'' # p)"

definition rest_form :: "string \<Rightarrow> bool" where
  "rest_form rest \<longleftrightarrow> rest = [] \<or> auth_end (hd rest)"

lemma byte_lits [simp]:
  "byte CHR '':'' = 58" "byte CHR ''.'' = 46" "byte CHR ''0'' = 48" "byte CHR ''['' = 91" "byte CHR '']'' = 93"
  "byte CHR ''/'' = 47" "byte CHR ''?'' = 63" "byte CHR ''#'' = 35" "byte CHR ''@'' = 64" "byte CHR ''+'' = 43"
  "byte CHR ''-'' = 45" "byte CHR ''%'' = 37" "byte CHR '';'' = 59" "byte backslash = 92"
  by (simp_all add: byte_def)

lemma takeWhile_split:
  assumes "list_all P xs" and "ys = [] \<or> \<not> P (hd ys)"
  shows "takeWhile P (xs @ ys) = xs" and "dropWhile P (xs @ ys) = ys"
proof -
  have all: "\<forall>x \<in> set xs. P x" using assms(1) by (simp add: list_all_iff)
  then show "takeWhile P (xs @ ys) = xs" using assms(2) by (cases ys) (simp_all add: takeWhile_append2)
  show "dropWhile P (xs @ ys) = ys" using all assms(2) by (cases ys) (simp_all add: dropWhile_append2)
qed

lemma takeWhile_all: "list_all P (takeWhile P xs)"
  by (induction xs) auto

lemma dropWhile_hd: "dropWhile P xs = [] \<or> \<not> P (hd (dropWhile P xs))"
  by (metis hd_dropWhile)

lemma url_front_iff:
  "url_front u = Some (sc, au, re) \<longleftrightarrow>
     u = sc @ ''://'' @ au @ re \<and> scheme_form sc \<and> rest_form re \<and> au \<noteq> [] \<and>
     list_all (\<lambda>c. \<not> auth_end c \<and> c \<noteq> CHR ''@'' \<and> c \<noteq> backslash) au"
  (is "?l \<longleftrightarrow> ?r")
proof
  assume ?l
  then have h: "u \<noteq> []" "isalpha (hd u)" and sc: "sc = takeWhile scheme_char u"
    and p: "take 3 (dropWhile scheme_char u) = ''://''"
    and au: "au = takeWhile (Not \<circ> auth_end) (drop 3 (dropWhile scheme_char u))"
    and re: "re = dropWhile (Not \<circ> auth_end) (drop 3 (dropWhile scheme_char u))"
    and ok: "au \<noteq> []" "\<not> list_ex (\<lambda>c. c = CHR ''@'' \<or> c = backslash) au"
    by (auto simp: url_front_def Let_def split: if_splits)
  have "dropWhile scheme_char u = ''://'' @ drop 3 (dropWhile scheme_char u)"
    by (metis p append_take_drop_id)
  also have "drop 3 (dropWhile scheme_char u) = au @ re" by (simp add: au re)
  finally have "u = sc @ ''://'' @ au @ re" by (metis sc takeWhile_dropWhile_id)
  moreover have "scheme_form sc"
    using h sc takeWhile_all [of scheme_char u]
    by (cases u) (auto simp: scheme_form_def scheme_char_def)
  moreover have "rest_form re" using dropWhile_hd [of "Not \<circ> auth_end"] by (auto simp: rest_form_def re)
  moreover have "list_all (Not \<circ> auth_end) au" unfolding au by (rule takeWhile_all)
  ultimately show ?r using ok by (auto simp: list_all_iff list_ex_iff)
next
  assume r: ?r
  then have au: "list_all (Not \<circ> auth_end) au" by (auto simp: list_all_iff)
  have sc: "list_all scheme_char sc" using r by (simp add: scheme_form_def)
  have "takeWhile scheme_char u = sc" "dropWhile scheme_char u = ''://'' @ au @ re"
    using takeWhile_split [OF sc, of "''://'' @ au @ re"] r by (simp_all add: scheme_char_def ctype_defs)
  moreover have "takeWhile (Not \<circ> auth_end) (au @ re) = au" "dropWhile (Not \<circ> auth_end) (au @ re) = re"
    using takeWhile_split [OF au, of re] r by (auto simp: rest_form_def)
  moreover have "u \<noteq> []" "isalpha (hd u)" using r by (auto simp: scheme_form_def)
  ultimately show ?l using r by (simp add: url_front_def list_all_iff list_ex_iff)
qed

lemma split_at:
  "(\<exists>w r. xs = w @ c # r \<and> c \<notin> set w) \<or> c \<notin> set xs"
  by (metis split_list_first)

lemma host_port_bracket:
  assumes "CHR '']'' \<notin> set w"
  shows "url_host_port (CHR ''['' # w @ CHR '']'' # r) =
    (if v6_embeds_v4 w \<or> \<not> list_all (\<lambda>c. ishex c \<or> c = CHR '':'' \<or> c = CHR ''.'') w then None
     else if r = [] then Some (CHR ''['' # w @ '']'', None)
     else if hd r \<noteq> CHR '':'' then None
     else Some (CHR ''['' # w @ '']'', Some (tl r)))"
proof -
  have "takeWhile (\<lambda>c. c \<noteq> CHR '']'') (w @ CHR '']'' # r) = w"
    using assms by (intro takeWhile_split) (auto simp: list_all_iff)
  then show ?thesis by (simp add: url_host_port_def Let_def list_all_iff list_ex_iff)
qed

lemma host_port_open: "CHR '']'' \<notin> set t \<Longrightarrow> url_host_port (CHR ''['' # t) = None"
  by (simp add: url_host_port_def Let_def takeWhile_eq_all_conv)

lemma host_port_colon:
  assumes "CHR '':'' \<notin> set w" and "hd (w @ '':'') \<noteq> CHR ''[''"
  shows "url_host_port (w @ CHR '':'' # r) = (if w = [] \<or> \<not> list_all host_char w then None else Some (w, Some r))"
proof -
  have "takeWhile (\<lambda>c. c \<noteq> CHR '':'') (w @ CHR '':'' # r) = w"
    using assms(1) by (intro takeWhile_split) (auto simp: list_all_iff)
  then show ?thesis
    using assms(2) by (cases w) (auto simp: url_host_port_def Let_def list_all_iff list_ex_iff)
qed

lemma host_port_plain:
  assumes "CHR '':'' \<notin> set w" and "w \<noteq> []" and "hd w \<noteq> CHR ''[''"
  shows "url_host_port w = (if list_all host_char w then Some (w, None) else None)"
proof -
  have tw: "takeWhile (\<lambda>c. c \<noteq> CHR '':'') w = w"
    using takeWhile_split(1) [of "\<lambda>c. c \<noteq> CHR '':''" w "[]"] assms(1) by (auto simp: list_all_iff)
  show ?thesis
    unfolding url_host_port_def Let_def tw using assms(2,3) by (simp add: list_all_iff list_ex_iff)
qed

lemma host_form_bracket:
  "host_form (CHR ''['' # t) \<longleftrightarrow>
    (\<exists>w. t = w @ '']'' \<and> list_all (\<lambda>c. ishex c \<or> c = CHR '':'' \<or> c = CHR ''.'') w \<and> \<not> v6_embeds_v4 w)"
  by (auto simp: host_form_def host_char_def ctype_defs)

lemma host_form_plain: "hd h \<noteq> CHR ''['' \<Longrightarrow> host_form h \<longleftrightarrow> h \<noteq> [] \<and> list_all host_char h"
  by (auto simp: host_form_def)

lemma v6_chars: "list_all (\<lambda>c. ishex c \<or> c = CHR '':'' \<or> c = CHR ''.'') w \<Longrightarrow> CHR '']'' \<notin> set w"
  by (auto simp: list_all_iff ishex_def ctype_defs)

lemma host_chars: "list_all host_char w \<Longrightarrow> CHR '':'' \<notin> set w"
  by (auto simp: list_all_iff host_char_def ctype_defs)

lemma port_text_cases: "r = port_text port \<longleftrightarrow> (r = [] \<and> port = None) \<or> (r \<noteq> [] \<and> hd r = CHR '':'' \<and> port = Some (tl r))"
  by (cases r; cases port) (auto simp: port_text_def)

lemma url_host_port_sound:
  assumes "au \<noteq> []" and l: "url_host_port au = Some (h, port)"
  shows "au = h @ port_text port \<and> host_form h"
proof (cases "hd au = CHR ''[''")
  case True
  then obtain t where t: "au = CHR ''['' # t" using assms(1) by (cases au) auto
  with l host_port_open [of t] split_at [of t "CHR '']''"] obtain w r where
    w: "t = w @ CHR '']'' # r" "CHR '']'' \<notin> set w" by fastforce
  have "r = port_text port" "h = CHR ''['' # w @ '']''" "host_form h"
    using l host_port_bracket [OF w(2), of r] by (auto simp: t w(1) port_text_cases host_form_bracket split: if_splits)
  then show ?thesis by (simp add: t w(1))
next
  case False
  show ?thesis
  proof (cases "CHR '':'' \<in> set au")
    case True
    then obtain w r where w: "au = w @ CHR '':'' # r" "CHR '':'' \<notin> set w" using split_at [of au "CHR '':''"] by blast
    moreover have "hd (w @ '':'') \<noteq> CHR ''[''" using False w(1) by (cases w) auto
    ultimately show ?thesis
      using l host_port_colon [OF w(2), of r] False
      by (auto simp: host_form_def port_text_def split: if_splits)
  next
    case c: False
    then show ?thesis
      using l assms(1) host_port_plain [OF c assms(1) False] by (auto simp: host_form_def port_text_def split: if_splits)
  qed
qed

lemma url_host_port_complete:
  assumes "host_form h"
  shows "url_host_port (h @ port_text port) = Some (h, port)"
proof (cases "hd h = CHR ''[''")
  case True
  moreover have "h \<noteq> []" using assms by (auto simp: host_form_def)
  ultimately obtain t where t: "h = CHR ''['' # t" by (cases h) auto
  then obtain w where w: "t = w @ '']''" "list_all (\<lambda>c. ishex c \<or> c = CHR '':'' \<or> c = CHR ''.'') w" "\<not> v6_embeds_v4 w"
    using assms by (auto simp: host_form_bracket)
  then show ?thesis
    using host_port_bracket [OF v6_chars [OF w(2)], of "port_text port"] t by (cases port) (auto simp: port_text_def)
next
  case False
  then have h: "h \<noteq> []" "list_all host_char h" using assms by (simp_all add: host_form_plain)
  have "hd (h @ '':'') \<noteq> CHR ''[''" using False h(1) by simp
  then show ?thesis
    using host_port_colon [OF host_chars [OF h(2)]] host_port_plain [OF host_chars [OF h(2)] h(1) False] h
    by (cases port) (simp_all add: port_text_def)
qed

lemma url_host_port_iff:
  "au \<noteq> [] \<Longrightarrow> url_host_port au = Some (h, port) \<longleftrightarrow> au = h @ port_text port \<and> host_form h"
  using url_host_port_sound url_host_port_complete by blast

lemma port_loop_iff: "port_loop v p = Some n \<longleftrightarrow> list_all isdigit p \<and> (p = [] \<or> n \<le> 65535) \<and> n = decval v p"
proof (induction v p rule: port_loop.induct)
  case (2 v c s)
  have "v * 10 + (byte c - 48) \<le> decval (v * 10 + (byte c - 48)) s" for v
  proof (induction s arbitrary: v c)
    case (Cons d s)
    from Cons.IH [of "v * 10 + (byte c - 48)" d] show ?case by (simp add: decval_def)
  qed (simp add: decval_def)
  with 2 show ?case by (auto simp: decval_def Let_def) (meson order_trans not_less)+
qed (auto simp: decval_def)

lemma port_ok_iff: "port_ok port \<longleftrightarrow> port_form port"
proof (cases port)
  case (Some p)
  have pos: "0 < decval 0 (c # s)" if "isdigit c" "c \<noteq> CHR ''0''" for c s
  proof -
    have "byte c \<noteq> byte CHR ''0''" using that(2) byte_inject by blast
    then have "0 < byte c - 48" using that(1) by (simp add: isdigit_def)
    moreover have "v \<le> decval v s" for v
    proof (induction s arbitrary: v)
      case (Cons d s)
      have "v \<le> v * 10 + (byte d - 48)" by simp
      also have "\<dots> \<le> decval (v * 10 + (byte d - 48)) s" by (rule Cons.IH)
      finally show ?case by (simp add: decval_def)
    qed (simp add: decval_def)
    from this [of "byte c - 48"] have "byte c - 48 \<le> decval 0 (c # s)" by (simp add: decval_def)
    ultimately show ?thesis by simp
  qed
  show ?thesis
  proof (cases p)
    case (Cons c s)
    show ?thesis
    proof (cases "list_all isdigit p \<and> decval 0 p \<le> 65535")
      case True
      then have "port_loop 0 p = Some (decval 0 p)" by (subst port_loop_iff) simp
      then show ?thesis using Some Cons True pos by (auto simp: port_ok_def port_form_def)
    next
      case False
      then have "port_loop 0 p = None" using port_loop_iff [of 0 p] Cons by (cases "port_loop 0 p") auto
      then show ?thesis using Some Cons False by (auto simp: port_ok_def port_form_def)
    qed
  qed (simp add: Some port_ok_def port_form_def)
qed (simp add: port_ok_def port_form_def)

text \<open>Dotted decimal, as a reader of IPv4 addresses understands it.\<close>

definition octet :: "string \<Rightarrow> bool" where
  "octet d \<longleftrightarrow> d \<noteq> [] \<and> list_all isdigit d \<and> (length d > 1 \<longrightarrow> hd d \<noteq> CHR ''0'') \<and> decval 0 d \<le> 255"

fun dotted :: "nat \<Rightarrow> string \<Rightarrow> bool" where
  "dotted 0 s \<longleftrightarrow> s = []"
| "dotted (Suc 0) s \<longleftrightarrow> octet s"
| "dotted (Suc n) s \<longleftrightarrow> (\<exists>d r. s = d @ CHR ''.'' # r \<and> octet d \<and> dotted n r)"

lemma quad_num_split:
  "quad_num v s = Some r \<Longrightarrow> \<exists>d. s = d @ r \<and> list_all isdigit d \<and> (d \<noteq> [] \<longrightarrow> decval v d \<le> 255)"
proof (induction v s rule: quad_num.induct)
  case (1 v)
  then show ?case by simp
next
  case (2 v c s)
  show ?case
  proof (cases "isdigit c")
    case True
    let ?v = "v * 10 + (byte c - 48)"
    from 2 True have "?v \<le> 255" "quad_num ?v s = Some r" by (auto simp: Let_def split: if_splits)
    with 2(1) [OF True refl] obtain d where d: "s = d @ r" "list_all isdigit d" "d \<noteq> [] \<longrightarrow> decval ?v d \<le> 255" by auto
    then have "decval v (c # d) \<le> 255" using \<open>?v \<le> 255\<close> by (cases d) (auto simp: decval_def)
    with d True show ?thesis by (intro exI [of _ "c # d"]) simp
  qed (use 2 in auto)
qed

lemma quad_loop_dotted:
  assumes "quad_loop parts s = Some m" and "s \<noteq> []" and "last s \<noteq> CHR ''.''"
  shows "\<exists>k. m = parts + Suc k \<and> dotted (Suc k) s"
  using assms
proof (induction parts s rule: quad_loop.induct)
  case (1 parts s)
  obtain r where r: "quad_num 0 s = Some r"
    using 1(2,3) by (subst (asm) quad_loop.simps) (auto split: option.splits)
  then obtain d where d: "s = d @ r" "list_all isdigit d" "d \<noteq> [] \<longrightarrow> decval 0 d \<le> 255"
    using quad_num_split by blast
  have n: "length s - length r = length d" using d(1) by simp
  have l: "(if length d = 0 \<or> (length d > 1 \<and> hd s = CHR ''0'') then None
       else if r = [] then Some (parts + 1)
       else if hd r \<noteq> CHR ''.'' then None else quad_loop (parts + 1) (tl r)) = Some m"
    using 1(2,3) r by (subst (asm) quad_loop.simps) (simp add: n)
  then have o: "octet d" using d by (cases d) (auto simp: octet_def split: if_splits)
  show ?case
  proof (cases r)
    case Nil
    then show ?thesis using l o d by (intro exI [of _ 0]) (auto split: if_splits)
  next
    case (Cons c t)
    then have c: "c = CHR ''.''" and q: "quad_loop (parts + 1) t = Some m" using l by (auto split: if_splits)
    have t: "t \<noteq> []" "last t \<noteq> CHR ''.''" using 1(4) d(1) Cons c by (auto split: if_splits)
    have "\<exists>k. m = parts + 1 + Suc k \<and> dotted (Suc k) t"
      using 1(1) [OF 1(3) r refl] arg_cong [OF d(1), of length] n l Cons c q t by (auto split: if_splits)
    then obtain k where "m = parts + 1 + Suc k" "dotted (Suc k) t" by blast
    moreover from this have "dotted (Suc (Suc k)) s" using o d(1) Cons c by auto
    ultimately show ?thesis by auto
  qed
qed


section \<open>Properties\<close>

text \<open>What \<open>url.host\<close> yields: the syntax of an absolute URL, split at the places every reader splits it.\<close>

definition host_of :: "string \<Rightarrow> string \<Rightarrow> bool" where
  "host_of u host \<longleftrightarrow>
     (\<exists>sc port rest. u = sc @ ''://'' @ host @ port_text port @ rest \<and>
        scheme_form sc \<and> host_form host \<and> port_form port \<and> rest_form rest)"

lemma port_text_chars:
  assumes "port_form port" and "c \<in> set (port_text port)"
  shows "isdigit c \<or> c = CHR '':''"
  using assms by (cases port) (auto simp: port_form_def port_text_def list_all_iff)

lemma host_form_chars:
  assumes "host_form h" and "c \<in> set h"
  shows "isalpha c \<or> isdigit c \<or> c \<in> set ''.-[:]''"
  using assms
  by (auto simp: host_form_def list_all_iff host_char_def ishex_def ctype_defs)

lemma authority_char:
  "isalpha c \<or> isdigit c \<or> c \<in> set ''.-[:]'' \<Longrightarrow> \<not> auth_end c \<and> c \<noteq> CHR ''@'' \<and> c \<noteq> backslash"
  by (auto simp: auth_end_def ctype_defs)

lemma parse_iff:
  "(\<exists>auth. url_front u = Some (sc, auth, rest) \<and> url_host_port auth = Some (host, port) \<and> port_ok port) \<longleftrightarrow>
    u = sc @ ''://'' @ host @ port_text port @ rest \<and>
    scheme_form sc \<and> host_form host \<and> port_form port \<and> rest_form rest" (is "?l \<longleftrightarrow> ?r")
proof
  assume ?l
  then obtain auth where f: "url_front u = Some (sc, auth, rest)" and hp: "url_host_port auth = Some (host, port)"
    and p: "port_form port" by (auto simp: port_ok_iff)
  then show ?r using url_front_iff [of u sc auth rest] url_host_port_iff [of auth host port] by auto
next
  assume r: ?r
  have ne: "host @ port_text port \<noteq> []" using r by (auto simp: host_form_def)
  have "list_all (\<lambda>c. \<not> auth_end c \<and> c \<noteq> CHR ''@'' \<and> c \<noteq> backslash) (host @ port_text port)"
  proof -
    have "isalpha c \<or> isdigit c \<or> c \<in> set ''.-[:]''" if "c \<in> set (host @ port_text port)" for c
      using that r host_form_chars port_text_chars by fastforce
    then show ?thesis using authority_char by (simp add: list_all_iff)
  qed
  then have "url_front u = Some (sc, host @ port_text port, rest)" using r ne by (simp add: url_front_iff)
  moreover have "url_host_port (host @ port_text port) = Some (host, port)"
    using r by (simp add: url_host_port_complete)
  ultimately show ?l using r by (auto simp: port_ok_iff)
qed

lemma lower_simps [simp]:
  "isdigit (lower c) = isdigit c" "lower c = CHR ''.'' \<longleftrightarrow> c = CHR ''.''" "lower c = CHR ''['' \<longleftrightarrow> c = CHR ''[''"
  "\<not> isupper (lower c)" "isalpha (lower c) = isalpha c"
proof -
  have b: "byte (lower c) = (if isupper c then byte c + 32 else byte c)"
    by (auto simp: lower_def isupper_def)
  have eq: "lower c = d \<longleftrightarrow> byte (lower c) = byte d" for d using byte_inject [of "lower c" d] by blast
  have eq': "c = d \<longleftrightarrow> byte c = byte d" for d using byte_inject [of c d] by blast
  show "isdigit (lower c) = isdigit c" "\<not> isupper (lower c)" "isalpha (lower c) = isalpha c"
    using b by (auto simp: ctype_defs)
  show "lower c = CHR ''.'' \<longleftrightarrow> c = CHR ''.''" "lower c = CHR ''['' \<longleftrightarrow> c = CHR ''[''"
    unfolding eq eq' using b by (auto simp: isupper_def)
qed

lemma lower_other: "\<not> isalpha c \<Longrightarrow> lower c = c"
  by (simp add: lower_def isalpha_def)

lemma empty_label_lower [simp]: "empty_label (map lower s) = empty_label s"
  by (induction s rule: empty_label.induct) auto

lemma last_label_lower: "last_label (map lower s) = map lower (last_label s)"
  by (simp add: last_label_def rev_map takeWhile_map comp_def)

lemma dotted_chars: "dotted n s \<Longrightarrow> c \<in> set s \<Longrightarrow> isdigit c \<or> c = CHR ''.''"
  by (induction n s rule: dotted.induct) (auto simp: octet_def list_all_iff)

lemma dotted_lower: "dotted n s \<Longrightarrow> map lower s = s"
  using dotted_chars by (intro map_idI lower_other) (fastforce simp: ctype_defs)

lemma host_part_chars: "host_part host = Some src \<Longrightarrow> set src \<subseteq> set host"
  by (auto simp: host_part_def Let_def split: if_splits dest: in_set_butlastD)

lemma host_part_sound:
  assumes "host_part host = Some src"
  shows "src \<noteq> [] \<and> hd src \<noteq> CHR ''.'' \<and> last src \<noteq> CHR ''.'' \<and> \<not> empty_label src \<and>
    (hd src \<noteq> CHR ''['' \<and> list_all isdigit (last_label src) \<longrightarrow> dotted 4 src)"
proof -
  have s: "src \<noteq> []" "last src \<noteq> CHR ''.''" "hd src \<noteq> CHR ''.''" "\<not> empty_label src"
    and q: "hd src = CHR ''['' \<or> \<not> host_numeric src \<or> quad_loop 0 src = Some 4"
    using assms by (auto simp: host_part_def Let_def split: if_splits)
  have "dotted 4 src" if "hd src \<noteq> CHR ''[''" "list_all isdigit (last_label src)"
  proof -
    have "quad_loop 0 src = Some 4" using q that by (auto simp: host_numeric_def Let_def)
    from quad_loop_dotted [OF this s(1,2)] show ?thesis by auto
  qed
  with s show ?thesis by blast
qed

lemma url_component_parts:
  "url_component (Some u) (Some part) n = Some out \<longleftrightarrow>
    2 \<le> n \<and> length out < n \<and>
    (\<exists>sc host port rest. u = sc @ ''://'' @ host @ port_text port @ rest \<and>
       scheme_form sc \<and> host_form host \<and> port_form port \<and> rest_form rest \<and>
       url_part part sc host port rest = Some out)" (is "?l \<longleftrightarrow> ?r")
proof -
  have "?l \<longleftrightarrow> 2 \<le> n \<and> length out < n \<and>
    (\<exists>sc host port rest. (\<exists>auth. url_front u = Some (sc, auth, rest) \<and> url_host_port auth = Some (host, port) \<and>
       port_ok port) \<and> url_part part sc host port rest = Some out)"
  proof (cases "url_front u")
    case (Some t)
    obtain sc auth rest where t: "t = (sc, auth, rest)" by (cases t)
    show ?thesis
    proof (cases "url_host_port auth")
      case hp: (Some hp)
      obtain host port where "hp = (host, port)" by (cases hp)
      then show ?thesis
        using Some t hp by (simp add: url_component_def split: option.split) fastforce
    qed (simp add: url_component_def Some t)
  qed (simp add: url_component_def)
  also have "\<dots> \<longleftrightarrow> ?r" unfolding parse_iff by (simp only: conj_assoc)
  finally show ?thesis .
qed

lemma host_component_of:
  "url_component (Some u) (Some ''host'') n = Some h \<longleftrightarrow>
    2 \<le> n \<and> length h < n \<and> (\<exists>host src. host_of u host \<and> host_part host = Some src \<and> h = map lower src)"
  by (simp add: url_component_parts url_part_def host_of_def) blast

lemma path_ok_suffix: "path_ok prev (x @ y) \<Longrightarrow> path_ok (if x = [] then prev else Some (last x)) y"
  by (induction x arbitrary: prev) (auto split: if_splits)

lemma path_part_start: "path_part rest = Some p \<Longrightarrow> rest_form rest \<Longrightarrow> hd p = CHR ''/'' \<and> p \<noteq> []"
  by (cases rest) (auto simp: path_part_def Let_def rest_form_def auth_end_def split: if_splits)

lemma path_ok_bytes: "path_ok prev x \<Longrightarrow> list_all (\<lambda>c. c \<noteq> CHR ''%'' \<and> c \<noteq> backslash \<and> c \<noteq> CHR '';'') x"
  by (induction prev x rule: path_ok.induct) (auto split: if_splits)

lemma path_ok_segments:
  assumes ok: "path_ok prev (a @ CHR ''/'' # seg @ b)" and b: "b = [] \<or> hd b = CHR ''/''"
  shows "seg \<noteq> ''.''" and "seg \<noteq> ''..''" and "seg = [] \<Longrightarrow> b = []"
proof -
  have 1: "path_ok (Some CHR ''/'') (seg @ b)" using path_ok_suffix [of prev "a @ ''/''" "seg @ b"] ok by simp
  have 2: "path_ok (if a = [] then prev else Some (last a)) (CHR ''/'' # seg @ b)"
    using path_ok_suffix [OF ok] .
  show "b = []" if "seg = []" using 2 b that by (cases b) (simp_all split: if_splits)
  show "seg \<noteq> ''.''" using 1 b by (cases b) auto
  show "seg \<noteq> ''..''" using 1 b by (cases b) auto
qed

lemma path_part_ok: "path_part rest = Some p \<Longrightarrow> path_ok None p"
  by (auto simp: path_part_def Let_def split: if_splits)

lemma path_component_of:
  assumes "url_component (Some u) (Some ''path'') n = Some p"
  obtains rest where "path_part rest = Some p" and "rest_form rest"
proof -
  from assms obtain sc host port rest where "rest_form rest" "url_part ''path'' sc host port rest = Some p"
    unfolding url_component_parts by blast
  then show ?thesis using that by (simp add: url_part_def)
qed


text \<open>The host a rule is matched against is unambiguous: it is a non-empty text with no byte that
  ends an authority, no userinfo, no backslash, no upper-case letter and no empty label, and when its
  last label is a number the whole of it is a canonical dotted quad (four octets without leading
  zeros, each at most 255).\<close>

theorem url_host_unambiguous:
  assumes "url_component (Some u) (Some ''host'') n = Some h"
  shows "h \<noteq> [] \<and> hd h \<noteq> CHR ''.'' \<and> last h \<noteq> CHR ''.'' \<and> \<not> empty_label h \<and>
    list_all (\<lambda>c. \<not> isupper c \<and> \<not> auth_end c \<and> c \<noteq> CHR ''@'' \<and> c \<noteq> backslash) h \<and>
    (hd h \<noteq> CHR ''['' \<and> list_all isdigit (last_label h) \<longrightarrow> dotted 4 h)"
proof -
  from assms obtain host src where ho: "host_of u host" and hp: "host_part host = Some src" and h: "h = map lower src"
    unfolding host_component_of by blast
  note s = host_part_sound [OF hp]
  have "\<not> isupper (lower c) \<and> \<not> auth_end (lower c) \<and> lower c \<noteq> CHR ''@'' \<and> lower c \<noteq> backslash"
    if "c \<in> set src" for c
  proof -
    have "c \<in> set host" using that host_part_chars [OF hp] by blast
    then have c: "isalpha c \<or> isdigit c \<or> c \<in> set ''.-[:]''" using host_form_chars ho by (auto simp: host_of_def)
    then have "isalpha (lower c) \<or> isdigit (lower c) \<or> lower c \<in> set ''.-[:]''"
      by (cases "isalpha c") (simp_all add: lower_other)
    then show ?thesis using authority_char [of "lower c"] by simp
  qed
  moreover have "dotted 4 h" if "hd h \<noteq> CHR ''[''" "list_all isdigit (last_label h)"
  proof -
    have "hd src \<noteq> CHR ''[''" "list_all isdigit (last_label src)"
      using that s by (simp_all add: h hd_map last_label_lower list_all_iff)
    then have "dotted 4 src" using s by blast
    then show ?thesis using dotted_lower by (simp add: h)
  qed
  ultimately show ?thesis using s by (simp add: h hd_map last_map list_all_iff)
qed

theorem url_host_unambiguous_witness:
  "url_component (Some ''HTTPS://10.0.0.1/a?b@c'') (Some ''host'') 512 = Some ''10.0.0.1'' \<and> dotted 4 ''10.0.0.1''"
proof -
  have u: "url_component (Some ''HTTPS://10.0.0.1/a?b@c'') (Some ''host'') 512 = Some ''10.0.0.1''" by code_simp
  have l: "list_all isdigit (last_label ''10.0.0.1'')" by code_simp
  have h: "hd ''10.0.0.1'' \<noteq> CHR ''[''" by simp
  show ?thesis using url_host_unambiguous [OF u] u l h by blast
qed

text \<open>The path a rule is matched against is the one a server would resolve: it starts with a
  slash, has no percent-encoding, backslash or semicolon, no empty segment, and no dot segment.\<close>

theorem url_path_normal:
  assumes "url_component (Some u) (Some ''path'') n = Some p"
  shows "p \<noteq> [] \<and> hd p = CHR ''/'' \<and> list_all (\<lambda>c. c \<noteq> CHR ''%'' \<and> c \<noteq> backslash \<and> c \<noteq> CHR '';'') p \<and>
    (\<forall>a seg b. p = a @ CHR ''/'' # seg @ b \<and> CHR ''/'' \<notin> set seg \<and> (b = [] \<or> hd b = CHR ''/'') \<longrightarrow>
       seg \<noteq> ''.'' \<and> seg \<noteq> ''..'' \<and> (seg = [] \<longrightarrow> b = []))"
proof -
  from assms obtain rest where pp: "path_part rest = Some p" and r: "rest_form rest"
    by (rule path_component_of)
  have ok: "path_ok None p" using path_part_ok [OF pp] .
  have "seg \<noteq> ''.'' \<and> seg \<noteq> ''..'' \<and> (seg = [] \<longrightarrow> b = [])"
    if "p = a @ CHR ''/'' # seg @ b" "b = [] \<or> hd b = CHR ''/''" for a seg b
    using path_ok_segments [OF ok [unfolded that(1)] that(2)] by blast
  then have "\<forall>a seg b. p = a @ CHR ''/'' # seg @ b \<and> CHR ''/'' \<notin> set seg \<and> (b = [] \<or> hd b = CHR ''/'') \<longrightarrow>
       seg \<noteq> ''.'' \<and> seg \<noteq> ''..'' \<and> (seg = [] \<longrightarrow> b = [])"
    by (intro allI impI) (elim conjE)
  then show ?thesis using path_part_start [OF pp r] path_ok_bytes [OF ok] by (intro conjI) simp_all
qed

theorem url_path_normal_witness:
  "url_component (Some ''https://a.example/x/..y/z?q=../'') (Some ''path'') 512 = Some ''/x/..y/z'' \<and> hd ''/x/..y/z'' = CHR ''/''"
proof -
  have u: "url_component (Some ''https://a.example/x/..y/z?q=../'') (Some ''path'') 512 = Some ''/x/..y/z''" by code_simp
  from url_path_normal [OF u] u show ?thesis by blast
qed

end
