(* ===== verification/Label_Policy.thy ===== *)
theory Label_Policy
  imports Dataflow Glob Url
begin

text \<open>
  The flow policy and its adapter: \<^verbatim>\<open>src/v1_7/plan_label_policy.h\<close> and the policy part of
  \<^verbatim>\<open>plan_dataflow_adapter.c\<close>. A policy classifies an action into five label sets; the reference
  policy looks the action up in a table of rules, the first matching rule winning; the adapter writes
  the classification of every action onto the node of the plan with the same index.

  A key, value, pattern or name that may be NULL is an option. The opaque \<open>args\<close> bytes of an action
  are read by no code modelled here and left out.
\<close>

section \<open>Data\<close>

record plan_action_arg =
  arg_key :: "cstr option"
  arg_value :: "cstr option"

record plan_action_desc =
  act_name :: "cstr option"
  named_args :: "plan_action_arg list"

record plan_label_class =
  cls_origin :: plan_label_set
  cls_deny_in :: plan_label_set
  cls_unknown_in :: plan_label_set
  cls_permit_in :: plan_label_set
  cls_declassify :: plan_label_set

text \<open>The callback gets the caller's output record and returns its status and the record.\<close>

type_synonym plan_label_policy_fn = "plan_action_desc \<Rightarrow> plan_label_class \<Rightarrow> int \<times> plan_label_class"

record plan_label_policy =
  classify :: "plan_label_policy_fn option"
  pol_sticky :: plan_label_set

record plan_label_rule_match =
  m_key :: "cstr option"
  m_pattern :: "cstr option"

record plan_label_rule =
  rule_action :: "cstr option"
  rule_classify :: plan_label_class
  rule_matches :: "plan_label_rule_match list"

record plan_label_table =
  rules :: "plan_label_rule list"
  strict :: bool

section \<open>Matching a rule\<close>

definition find_named_arg :: "plan_action_desc \<Rightarrow> cstr option \<Rightarrow> cstr option" where
  "find_named_arg action key =
     (case key of
        None \<Rightarrow> None
      | Some k \<Rightarrow>
          (case find (\<lambda>a. arg_key a = Some k) (named_args action) of
             None \<Rightarrow> None
           | Some a \<Rightarrow> arg_value a))"

abbreviation BASE_MAX :: nat where "BASE_MAX \<equiv> 128"

text \<open>A component key \<open><arg>.<part>\<close>: the argument and the part.\<close>

definition component_key :: "cstr option \<Rightarrow> nat \<Rightarrow> (string \<times> string) option" where
  "component_key key basesz =
     (case key of
        None \<Rightarrow> None
      | Some k \<Rightarrow>
          if CHR ''.'' \<notin> set k then None
          else
            let part = last_label k; base = take (length k - length part - 1) k in
            if base = [] then None
            else if part \<noteq> ''scheme'' \<and> part \<noteq> ''host'' \<and> part \<noteq> ''port'' \<and> part \<noteq> ''path'' then None
            else if length base \<ge> basesz then None
            else Some (base, part))"

text \<open>The value of the argument (the last one of that name) and whether there are two.\<close>

definition url_arg :: "plan_action_desc \<Rightarrow> string \<Rightarrow> cstr option \<times> bool" where
  "url_arg action base =
     fold (\<lambda>a (v, twice). if arg_key a = Some base then (arg_value a, if v \<noteq> None then True else twice)
                          else (v, twice))
       (named_args action) (None, False)"

text \<open>The value to match and whether the comparison is case-blind.\<close>

definition match_value :: "plan_action_desc \<Rightarrow> cstr option \<Rightarrow> nat \<Rightarrow> cstr option \<times> bool" where
  "match_value action key bufsz =
     (case component_key key BASE_MAX of
        None \<Rightarrow> (find_named_arg action key, False)
      | Some (base, part) \<Rightarrow>
          let (url, twice) = url_arg action base in
          if url = None \<or> twice then (None, False)
          else
            (case url_component url (Some part) bufsz of
               None \<Rightarrow> (None, False)
             | Some out \<Rightarrow> (Some out, part = ''host'' \<or> part = ''scheme'')))"

definition unparseable_component :: "plan_label_table \<Rightarrow> plan_action_desc \<Rightarrow> bool" where
  "unparseable_component tbl action =
     list_ex (\<lambda>r. rule_action r \<noteq> None \<and> rule_action r = act_name action \<and>
       list_ex (\<lambda>m.
         case component_key (m_key m) BASE_MAX of
           None \<Rightarrow> False
         | Some (base, part) \<Rightarrow>
             let (url, twice) = url_arg action base in
             url \<noteq> None \<and> (twice \<or> url_component url (Some part) URL_PART_MAX = None))
         (rule_matches r))
       (rules tbl)"

definition match_holds :: "plan_action_desc \<Rightarrow> plan_label_rule_match \<Rightarrow> bool" where
  "match_holds action m =
     (let (val, fold') = match_value action (m_key m) URL_PART_MAX in
      if val = None then False
      else if fold' \<and> m_pattern m \<noteq> None then
        if length (the (m_pattern m)) \<ge> URL_PART_MAX then False
        else glob_match (map_option (map lower) (m_pattern m)) val
      else glob_match (m_pattern m) val)"

definition rule_matches_action :: "plan_label_rule \<Rightarrow> plan_action_desc \<Rightarrow> bool" where
  "rule_matches_action r action = list_all (match_holds action) (rule_matches r)"

section \<open>The reference policy\<close>

definition empty_class :: plan_label_class where
  "empty_class = \<lparr>cls_origin = plan_label_set_clear, cls_deny_in = plan_label_set_clear,
     cls_unknown_in = plan_label_set_clear, cls_permit_in = plan_label_set_clear,
     cls_declassify = plan_label_set_clear\<rparr>"

fun first_rule :: "plan_action_desc \<Rightarrow> plan_label_rule list \<Rightarrow> plan_label_rule option" where
  "first_rule action [] = None"
| "first_rule action (r # rs) =
     (if rule_action r = None \<or> act_name action = None then first_rule action rs
      else if rule_action r \<noteq> act_name action then first_rule action rs
      else if \<not> rule_matches_action r action then first_rule action rs
      else Some r)"

definition plan_label_policy_from_table :: "plan_label_table \<Rightarrow> plan_label_policy_fn" where
  "plan_label_policy_from_table tbl action out =
     (if act_name action \<noteq> None \<and> unparseable_component tbl action then (-1, out)
      else
        (case first_rule action (rules tbl) of
           Some r \<Rightarrow> (0, rule_classify r)
         | None \<Rightarrow> if strict tbl then (-1, out) else (0, empty_class)))"

section \<open>The adapter\<close>

type_synonym per_tag_setter = "plan_dataflow \<Rightarrow> plan_node_id \<Rightarrow> plan_label \<Rightarrow> int \<times> plan_dataflow"

fun apply_tags :: "plan_label list \<Rightarrow> plan_dataflow \<Rightarrow> plan_node_id \<Rightarrow> plan_label_set \<Rightarrow> per_tag_setter \<Rightarrow> int \<times> plan_dataflow" where
  "apply_tags [] df node lbls setter = (0, df)"
| "apply_tags (t # ts) df node lbls setter =
     (if plan_label_set_test lbls t then
        let (rc, df') = setter df node t in
        if rc \<noteq> 0 then (-1, df') else apply_tags ts df' node lbls setter
      else apply_tags ts df node lbls setter)"

definition apply_set :: "plan_dataflow \<Rightarrow> plan_node_id \<Rightarrow> plan_label_set \<Rightarrow> per_tag_setter \<Rightarrow> int \<times> plan_dataflow" where
  "apply_set = apply_tags [0..<PLAN_MAX_LABELS]"

text \<open>\<open>if (... != 0) return -1;\<close> between two steps that change the companion.\<close>

definition and_then :: "int \<times> plan_dataflow \<Rightarrow> (plan_dataflow \<Rightarrow> int \<times> plan_dataflow) \<Rightarrow> int \<times> plan_dataflow" where
  "and_then p f = (let (rc, df) = p in if rc \<noteq> 0 then (-1, df) else f df)"

definition populate_node :: "plan_label_policy_fn \<Rightarrow> nat \<Rightarrow> plan_action_desc \<Rightarrow> plan_dataflow \<Rightarrow> int \<times> plan_dataflow" where
  "populate_node cfn node action df =
     (let (rc, cls) = cfn action empty_class in
      if rc \<noteq> 0 then (-1, df)
      else
        and_then (apply_set df node (cls_origin cls) plan_dataflow_add_origin) (\<lambda>df.
        and_then (apply_set df node (cls_deny_in cls) plan_dataflow_add_deny_in) (\<lambda>df.
        and_then (apply_set df node (cls_unknown_in cls) plan_dataflow_add_unknown_in) (\<lambda>df.
        and_then (apply_set df node (cls_permit_in cls) plan_dataflow_add_permit_in) (\<lambda>df.
        and_then (apply_set df node (cls_declassify cls) plan_dataflow_add_declassify) (\<lambda>df. (0, df)))))))"

fun populate_nodes :: "plan_label_policy_fn \<Rightarrow> nat \<Rightarrow> plan_action_desc list \<Rightarrow> plan_dataflow \<Rightarrow> int \<times> plan_dataflow" where
  "populate_nodes cfn i [] df = (0, df)"
| "populate_nodes cfn i (a # as) df =
     and_then (populate_node cfn i a df) (populate_nodes cfn (Suc i) as)"

definition plan_dataflow_populate ::
  "plan_dataflow \<Rightarrow> plan_action_desc list option \<Rightarrow> plan_label_policy option \<Rightarrow> int \<times> plan_dataflow" where
  "plan_dataflow_populate df actions policy =
     (case (actions, policy) of
        (Some acts, Some pol) \<Rightarrow>
          (case classify pol of
             None \<Rightarrow> (-1, df)
           | Some cfn \<Rightarrow>
               if exec_plan_node_count (plan_dataflow_get_plan (Some df)) \<noteq> length acts then (-1, df)
               else
                 and_then (apply_tags [0..<PLAN_MAX_LABELS] df 0 (pol_sticky pol)
                             (\<lambda>df _ t. plan_dataflow_mark_sticky df t))
                   (populate_nodes cfn 0 acts))
      | _ \<Rightarrow> (-1, df))"

section \<open>Writing a label set onto a node\<close>

text \<open>Each of the five per-node inputs is one array of the companion with its update function; the
  contract of such an array, from which one lemma gives the effect of writing a set to it.\<close>

locale df_field =
  fixes upd :: "((nat \<Rightarrow> plan_label_set) \<Rightarrow> (nat \<Rightarrow> plan_label_set)) \<Rightarrow> plan_dataflow \<Rightarrow> plan_dataflow"
    and get :: "plan_dataflow \<Rightarrow> nat \<Rightarrow> plan_label_set"
  assumes get_upd: "get (upd f df) = f (get df)"
    and get_computed: "get (df\<lparr>computed := b\<rparr>) = get df"
    and plan_upd: "df_plan (upd f df) = df_plan df"
begin

lemma setter_effect:
  assumes "node < n_nodes (df_plan df)" and "t < PLAN_MAX_LABELS" and "wf_lset (get df node)"
  shows "\<exists>df'. add_to upd get df node t = (0, df') \<and> df_plan df' = df_plan df \<and>
    (\<forall>v. v \<noteq> node \<longrightarrow> get df' v = get df v) \<and> wf_lset (get df' node) \<and>
    lset (get df' node) = insert t (lset (get df node))"
proof -
  obtain s where "plan_label_set_add (get df node) t = (0, s)" "wf_lset s" "lset s = insert t (lset (get df node))"
    using lab.add_in [OF assms(3,2)] by (cases "plan_label_set_add (get df node) t") auto
  then show ?thesis
    using assms(1) by (simp add: add_to_def exec_plan_node_count_def get_upd get_computed plan_upd)
qed

lemma apply_tags_effect:
  assumes "node < n_nodes (df_plan df)" and "set ts \<subseteq> {..<PLAN_MAX_LABELS}" and "wf_lset (get df node)"
    and "wf_lset s"
  shows "\<exists>df'. apply_tags ts df node s (add_to upd get) = (0, df') \<and> df_plan df' = df_plan df \<and>
    (\<forall>v. v \<noteq> node \<longrightarrow> get df' v = get df v) \<and> wf_lset (get df' node) \<and>
    lset (get df' node) = lset (get df node) \<union> (lset s \<inter> set ts)"
  using assms(1,2,3)
proof (induction ts arbitrary: df)
  case Nil
  then show ?case by simp
next
  case (Cons t ts)
  show ?case
  proof (cases "t \<in> lset s")
    case True
    from setter_effect [OF Cons.prems(1) _ Cons.prems(3), of t] Cons.prems(2) obtain df1 where
      1: "add_to upd get df node t = (0, df1)" "df_plan df1 = df_plan df" "\<forall>v. v \<noteq> node \<longrightarrow> get df1 v = get df v"
        "wf_lset (get df1 node)" "lset (get df1 node) = insert t (lset (get df node))" by auto
    from Cons.IH [of df1] Cons.prems 1 obtain df2 where
      "apply_tags ts df1 node s (add_to upd get) = (0, df2)" "df_plan df2 = df_plan df1"
      "\<forall>v. v \<noteq> node \<longrightarrow> get df2 v = get df1 v" "wf_lset (get df2 node)"
      "lset (get df2 node) = lset (get df1 node) \<union> (lset s \<inter> set ts)" by auto
    with 1 True show ?thesis using assms(4) by (auto simp: lab.test)
  next
    case False
    with Cons.IH [of df] Cons.prems show ?thesis using assms(4) by (auto simp: lab.test)
  qed
qed

lemma apply_set_effect:
  assumes "node < n_nodes (df_plan df)" and "wf_lset (get df node)" and "wf_lset s"
  shows "\<exists>df'. apply_set df node s (add_to upd get) = (0, df') \<and> df_plan df' = df_plan df \<and>
    (\<forall>v. v \<noteq> node \<longrightarrow> get df' v = get df v) \<and> wf_lset (get df' node) \<and>
    lset (get df' node) = lset (get df node) \<union> lset s"
proof -
  have "lset s \<inter> {0..<PLAN_MAX_LABELS} = lset s" using lab.abs_bound [OF assms(3)] by auto
  moreover have "set [0..<PLAN_MAX_LABELS] \<subseteq> {..<PLAN_MAX_LABELS}" by auto
  ultimately show ?thesis using apply_tags_effect [OF assms(1) _ assms(2,3), of "[0..<PLAN_MAX_LABELS]"]
    by (auto simp: apply_set_def)
qed

end

interpretation origin_field: df_field origin_update origin
  by unfold_locales simp_all

interpretation deny_field: df_field deny_in_update deny_in
  by unfold_locales simp_all

interpretation unknown_field: df_field unknown_in_update unknown_in
  by unfold_locales simp_all

interpretation permit_field: df_field permit_in_update permit_in
  by unfold_locales simp_all

interpretation declassify_field: df_field declassify_update declassify
  by unfold_locales simp_all

text \<open>What no accepted or refused call of a setter changes.\<close>

lemma apply_tags_invariant:
  assumes "\<And>df v t. Q df \<Longrightarrow> Q (snd (setter df v t))" and "Q df"
  shows "Q (snd (apply_tags ts df node s setter))"
  using assms(2)
proof (induction ts arbitrary: df)
  case (Cons t ts)
  then show ?case using assms(1) [of df node t] by (auto split: prod.splits)
qed simp

lemma apply_set_frame:
  assumes "\<And>f d. g (upd f d) = g d" and "\<And>b d. g (d\<lparr>computed := b\<rparr>) = g d"
  shows "g (snd (apply_set df node s (add_to upd get))) = g df"
  unfolding apply_set_def
  by (rule apply_tags_invariant [of "\<lambda>d. g d = g df"])
    (auto simp: add_to_def assms split: prod.splits if_splits)

section \<open>Populating a companion\<close>

definition wf_class :: "plan_label_class \<Rightarrow> bool" where
  "wf_class c \<longleftrightarrow> wf_lset (cls_origin c) \<and> wf_lset (cls_deny_in c) \<and> wf_lset (cls_unknown_in c) \<and>
     wf_lset (cls_permit_in c) \<and> wf_lset (cls_declassify c)"

lemma wf_empty_class [simp]: "wf_class empty_class"
  by (simp add: wf_class_def empty_class_def lab.clear)

text \<open>The labels of node \<open>v\<close> grew by the classification \<open>c\<close>.\<close>

definition classified_as :: "plan_dataflow \<Rightarrow> plan_dataflow \<Rightarrow> nat \<Rightarrow> plan_label_class \<Rightarrow> bool" where
  "classified_as df df' v c \<longleftrightarrow>
     lset (origin df' v) = lset (origin df v) \<union> lset (cls_origin c) \<and>
     lset (deny_in df' v) = lset (deny_in df v) \<union> lset (cls_deny_in c) \<and>
     lset (unknown_in df' v) = lset (unknown_in df v) \<union> lset (cls_unknown_in c) \<and>
     lset (permit_in df' v) = lset (permit_in df v) \<union> lset (cls_permit_in c) \<and>
     lset (declassify df' v) = lset (declassify df v) \<union> lset (cls_declassify c)"

definition node_inputs :: "plan_dataflow \<Rightarrow> nat \<Rightarrow> plan_label_class" where
  "node_inputs df v = \<lparr>cls_origin = origin df v, cls_deny_in = deny_in df v, cls_unknown_in = unknown_in df v,
     cls_permit_in = permit_in df v, cls_declassify = declassify df v\<rparr>"

lemma apply_origin:
  assumes "wf_dataflow df" and "node < n_nodes (df_plan df)" and "wf_lset s"
  shows "\<exists>df'. apply_set df node s plan_dataflow_add_origin = (0, df') \<and> wf_dataflow df' \<and>
    df_plan df' = df_plan df \<and> sticky df' = sticky df \<and>
    deny_in df' = deny_in df \<and> unknown_in df' = unknown_in df \<and> permit_in df' = permit_in df \<and> declassify df' = declassify df \<and>
    (\<forall>v. v \<noteq> node \<longrightarrow> origin df' v = origin df v) \<and> lset (origin df' node) = lset (origin df node) \<union> lset s"
proof -
  have "wf_lset (origin df node)" using assms(1) by (simp add: wf_dataflow_def)
  note eff = origin_field.apply_set_effect [OF assms(2) this assms(3)]
  note frame = apply_set_frame [where upd = origin_update and get = origin and df = df and node = node and s = s]
  have "wf_dataflow (snd (apply_set df node s (add_to origin_update origin)))"
    unfolding apply_set_def
    by (rule apply_tags_invariant [where Q = wf_dataflow])
      (use assms(1) wf_add_to in \<open>simp_all add: plan_dataflow_add_origin_def [symmetric]\<close>)
  then show ?thesis
    using eff frame [of deny_in] frame [of unknown_in] frame [of permit_in] frame [of declassify] frame [of sticky]
    by (auto simp: plan_dataflow_add_origin_def)
qed

lemma apply_deny_in:
  assumes "wf_dataflow df" and "node < n_nodes (df_plan df)" and "wf_lset s"
  shows "\<exists>df'. apply_set df node s plan_dataflow_add_deny_in = (0, df') \<and> wf_dataflow df' \<and>
    df_plan df' = df_plan df \<and> sticky df' = sticky df \<and>
    origin df' = origin df \<and> unknown_in df' = unknown_in df \<and> permit_in df' = permit_in df \<and> declassify df' = declassify df \<and>
    (\<forall>v. v \<noteq> node \<longrightarrow> deny_in df' v = deny_in df v) \<and> lset (deny_in df' node) = lset (deny_in df node) \<union> lset s"
proof -
  have "wf_lset (deny_in df node)" using assms(1) by (simp add: wf_dataflow_def)
  note eff = deny_field.apply_set_effect [OF assms(2) this assms(3)]
  note frame = apply_set_frame [where upd = deny_in_update and get = deny_in and df = df and node = node and s = s]
  have "wf_dataflow (snd (apply_set df node s (add_to deny_in_update deny_in)))"
    unfolding apply_set_def
    by (rule apply_tags_invariant [where Q = wf_dataflow])
      (use assms(1) wf_add_to in \<open>simp_all add: plan_dataflow_add_deny_in_def [symmetric]\<close>)
  then show ?thesis
    using eff frame [of origin] frame [of unknown_in] frame [of permit_in] frame [of declassify] frame [of sticky]
    by (auto simp: plan_dataflow_add_deny_in_def)
qed

lemma apply_unknown_in:
  assumes "wf_dataflow df" and "node < n_nodes (df_plan df)" and "wf_lset s"
  shows "\<exists>df'. apply_set df node s plan_dataflow_add_unknown_in = (0, df') \<and> wf_dataflow df' \<and>
    df_plan df' = df_plan df \<and> sticky df' = sticky df \<and>
    origin df' = origin df \<and> deny_in df' = deny_in df \<and> permit_in df' = permit_in df \<and> declassify df' = declassify df \<and>
    (\<forall>v. v \<noteq> node \<longrightarrow> unknown_in df' v = unknown_in df v) \<and> lset (unknown_in df' node) = lset (unknown_in df node) \<union> lset s"
proof -
  have "wf_lset (unknown_in df node)" using assms(1) by (simp add: wf_dataflow_def)
  note eff = unknown_field.apply_set_effect [OF assms(2) this assms(3)]
  note frame = apply_set_frame [where upd = unknown_in_update and get = unknown_in and df = df and node = node and s = s]
  have "wf_dataflow (snd (apply_set df node s (add_to unknown_in_update unknown_in)))"
    unfolding apply_set_def
    by (rule apply_tags_invariant [where Q = wf_dataflow])
      (use assms(1) wf_add_to in \<open>simp_all add: plan_dataflow_add_unknown_in_def [symmetric]\<close>)
  then show ?thesis
    using eff frame [of origin] frame [of deny_in] frame [of permit_in] frame [of declassify] frame [of sticky]
    by (auto simp: plan_dataflow_add_unknown_in_def)
qed

lemma apply_permit_in:
  assumes "wf_dataflow df" and "node < n_nodes (df_plan df)" and "wf_lset s"
  shows "\<exists>df'. apply_set df node s plan_dataflow_add_permit_in = (0, df') \<and> wf_dataflow df' \<and>
    df_plan df' = df_plan df \<and> sticky df' = sticky df \<and>
    origin df' = origin df \<and> deny_in df' = deny_in df \<and> unknown_in df' = unknown_in df \<and> declassify df' = declassify df \<and>
    (\<forall>v. v \<noteq> node \<longrightarrow> permit_in df' v = permit_in df v) \<and> lset (permit_in df' node) = lset (permit_in df node) \<union> lset s"
proof -
  have "wf_lset (permit_in df node)" using assms(1) by (simp add: wf_dataflow_def)
  note eff = permit_field.apply_set_effect [OF assms(2) this assms(3)]
  note frame = apply_set_frame [where upd = permit_in_update and get = permit_in and df = df and node = node and s = s]
  have "wf_dataflow (snd (apply_set df node s (add_to permit_in_update permit_in)))"
    unfolding apply_set_def
    by (rule apply_tags_invariant [where Q = wf_dataflow])
      (use assms(1) wf_add_to in \<open>simp_all add: plan_dataflow_add_permit_in_def [symmetric]\<close>)
  then show ?thesis
    using eff frame [of origin] frame [of deny_in] frame [of unknown_in] frame [of declassify] frame [of sticky]
    by (auto simp: plan_dataflow_add_permit_in_def)
qed

lemma apply_declassify:
  assumes "wf_dataflow df" and "node < n_nodes (df_plan df)" and "wf_lset s"
  shows "\<exists>df'. apply_set df node s plan_dataflow_add_declassify = (0, df') \<and> wf_dataflow df' \<and>
    df_plan df' = df_plan df \<and> sticky df' = sticky df \<and>
    origin df' = origin df \<and> deny_in df' = deny_in df \<and> unknown_in df' = unknown_in df \<and> permit_in df' = permit_in df \<and>
    (\<forall>v. v \<noteq> node \<longrightarrow> declassify df' v = declassify df v) \<and> lset (declassify df' node) = lset (declassify df node) \<union> lset s"
proof -
  have "wf_lset (declassify df node)" using assms(1) by (simp add: wf_dataflow_def)
  note eff = declassify_field.apply_set_effect [OF assms(2) this assms(3)]
  note frame = apply_set_frame [where upd = declassify_update and get = declassify and df = df and node = node and s = s]
  have "wf_dataflow (snd (apply_set df node s (add_to declassify_update declassify)))"
    unfolding apply_set_def
    by (rule apply_tags_invariant [where Q = wf_dataflow])
      (use assms(1) wf_add_to in \<open>simp_all add: plan_dataflow_add_declassify_def [symmetric]\<close>)
  then show ?thesis
    using eff frame [of origin] frame [of deny_in] frame [of unknown_in] frame [of permit_in] frame [of sticky]
    by (auto simp: plan_dataflow_add_declassify_def)
qed

lemma populate_node_ok:
  assumes wf: "wf_dataflow df" and n: "node < n_nodes (df_plan df)"
    and c: "cfn action empty_class = (0, c)" "wf_class c"
  shows "\<exists>df'. populate_node cfn node action df = (0, df') \<and> wf_dataflow df' \<and>
    df_plan df' = df_plan df \<and> sticky df' = sticky df \<and> classified_as df df' node c \<and>
    (\<forall>v. v \<noteq> node \<longrightarrow> node_inputs df' v = node_inputs df v)"
proof -
  have w: "wf_lset (cls_origin c)" "wf_lset (cls_deny_in c)" "wf_lset (cls_unknown_in c)"
    "wf_lset (cls_permit_in c)" "wf_lset (cls_declassify c)" using c(2) by (simp_all add: wf_class_def)
  from apply_origin [OF wf n w(1)] obtain d1 where
    1: "apply_set df node (cls_origin c) plan_dataflow_add_origin = (0, d1)" "wf_dataflow d1" "df_plan d1 = df_plan df"
      "sticky d1 = sticky df" "deny_in d1 = deny_in df" "unknown_in d1 = unknown_in df" "permit_in d1 = permit_in df"
      "declassify d1 = declassify df" "\<forall>v. v \<noteq> node \<longrightarrow> origin d1 v = origin df v"
      "lset (origin d1 node) = lset (origin df node) \<union> lset (cls_origin c)" by blast
  from apply_deny_in [OF 1(2) _ w(2), of node] n 1(3) obtain d2 where
    2: "apply_set d1 node (cls_deny_in c) plan_dataflow_add_deny_in = (0, d2)" "wf_dataflow d2" "df_plan d2 = df_plan d1"
      "sticky d2 = sticky d1" "origin d2 = origin d1" "unknown_in d2 = unknown_in d1" "permit_in d2 = permit_in d1"
      "declassify d2 = declassify d1" "\<forall>v. v \<noteq> node \<longrightarrow> deny_in d2 v = deny_in d1 v"
      "lset (deny_in d2 node) = lset (deny_in d1 node) \<union> lset (cls_deny_in c)" by auto
  from apply_unknown_in [OF 2(2) _ w(3), of node] n 1(3) 2(3) obtain d3 where
    3: "apply_set d2 node (cls_unknown_in c) plan_dataflow_add_unknown_in = (0, d3)" "wf_dataflow d3" "df_plan d3 = df_plan d2"
      "sticky d3 = sticky d2" "origin d3 = origin d2" "deny_in d3 = deny_in d2" "permit_in d3 = permit_in d2"
      "declassify d3 = declassify d2" "\<forall>v. v \<noteq> node \<longrightarrow> unknown_in d3 v = unknown_in d2 v"
      "lset (unknown_in d3 node) = lset (unknown_in d2 node) \<union> lset (cls_unknown_in c)" by auto
  from apply_permit_in [OF 3(2) _ w(4), of node] n 1(3) 2(3) 3(3) obtain d4 where
    4: "apply_set d3 node (cls_permit_in c) plan_dataflow_add_permit_in = (0, d4)" "wf_dataflow d4" "df_plan d4 = df_plan d3"
      "sticky d4 = sticky d3" "origin d4 = origin d3" "deny_in d4 = deny_in d3" "unknown_in d4 = unknown_in d3"
      "declassify d4 = declassify d3" "\<forall>v. v \<noteq> node \<longrightarrow> permit_in d4 v = permit_in d3 v"
      "lset (permit_in d4 node) = lset (permit_in d3 node) \<union> lset (cls_permit_in c)" by auto
  from apply_declassify [OF 4(2) _ w(5), of node] n 1(3) 2(3) 3(3) 4(3) obtain d5 where
    5: "apply_set d4 node (cls_declassify c) plan_dataflow_add_declassify = (0, d5)" "wf_dataflow d5" "df_plan d5 = df_plan d4"
      "sticky d5 = sticky d4" "origin d5 = origin d4" "deny_in d5 = deny_in d4" "unknown_in d5 = unknown_in d4"
      "permit_in d5 = permit_in d4" "\<forall>v. v \<noteq> node \<longrightarrow> declassify d5 v = declassify d4 v"
      "lset (declassify d5 node) = lset (declassify d4 node) \<union> lset (cls_declassify c)" by auto
  have "populate_node cfn node action df = (0, d5)"
    by (simp add: populate_node_def and_then_def c(1) 1(1) 2(1) 3(1) 4(1) 5(1))
  moreover have "classified_as df d5 node c"
    by (simp add: classified_as_def 1 2 3 4 5)
  moreover have "\<forall>v. v \<noteq> node \<longrightarrow> node_inputs d5 v = node_inputs df v"
    by (simp add: node_inputs_def 1 2 3 4 5)
  ultimately show ?thesis using 1(3,4) 2(3,4) 3(3,4) 4(3,4) 5(2,3,4) by simp
qed

text \<open>The effect of the loop over the actions: node \<open>i + k\<close> is classified as action \<open>k\<close> is.\<close>

lemma populate_nodes_ok:
  assumes "wf_dataflow df" and "i + length as \<le> n_nodes (df_plan df)"
    and "\<forall>a \<in> set as. fst (cfn a empty_class) = 0 \<and> wf_class (snd (cfn a empty_class))"
  shows "\<exists>df'. populate_nodes cfn i as df = (0, df') \<and> wf_dataflow df' \<and>
    df_plan df' = df_plan df \<and> sticky df' = sticky df \<and>
    (\<forall>k < length as. classified_as df df' (i + k) (snd (cfn (as ! k) empty_class))) \<and>
    (\<forall>v. v < i \<or> i + length as \<le> v \<longrightarrow> node_inputs df' v = node_inputs df v)"
  using assms
proof (induction as arbitrary: i df)
  case Nil
  then show ?case by simp
next
  case (Cons a as)
  obtain c where c: "cfn a empty_class = (0, c)" "wf_class c" using Cons.prems(3) by (cases "cfn a empty_class") auto
  from populate_node_ok [where cfn = cfn and action = a and node = i, OF Cons.prems(1) _ c] Cons.prems(2) obtain d1 where
    1: "populate_node cfn i a df = (0, d1)" "wf_dataflow d1" "df_plan d1 = df_plan df" "sticky d1 = sticky df"
      "classified_as df d1 i c" "\<forall>v. v \<noteq> i \<longrightarrow> node_inputs d1 v = node_inputs df v" by auto
  from Cons.IH [of d1 "Suc i"] Cons.prems 1 obtain d2 where
    2: "populate_nodes cfn (Suc i) as d1 = (0, d2)" "wf_dataflow d2" "df_plan d2 = df_plan d1" "sticky d2 = sticky d1"
      "\<forall>k < length as. classified_as d1 d2 (Suc i + k) (snd (cfn (as ! k) empty_class))"
      "\<forall>v. v < Suc i \<or> Suc i + length as \<le> v \<longrightarrow> node_inputs d2 v = node_inputs d1 v" by auto
  have "classified_as df d2 (i + k) (snd (cfn ((a # as) ! k) empty_class))" if "k < length (a # as)" for k
  proof (cases k)
    case 0
    have "node_inputs d2 i = node_inputs d1 i" using 2(6) by simp
    then show ?thesis using 1(5) 0 c by (simp add: classified_as_def node_inputs_def)
  next
    case (Suc j)
    have "node_inputs d1 (Suc i + j) = node_inputs df (Suc i + j)" using 1(6) by simp
    moreover have "classified_as d1 d2 (Suc i + j) (snd (cfn (as ! j) empty_class))" using 2(5) that Suc by simp
    ultimately show ?thesis using Suc by (simp add: classified_as_def node_inputs_def)
  qed
  then show ?case using 1 2 by (simp add: and_then_def)
qed

lemma populate_nodes_refused:
  assumes "wf_dataflow df" and "i + length as \<le> n_nodes (df_plan df)"
    and "\<forall>a \<in> set as. fst (cfn a empty_class) = 0 \<longrightarrow> wf_class (snd (cfn a empty_class))"
    and "\<exists>a \<in> set as. fst (cfn a empty_class) \<noteq> 0"
  shows "fst (populate_nodes cfn i as df) = -1"
  using assms
proof (induction as arbitrary: i df)
  case (Cons a as)
  show ?case
  proof (cases "fst (cfn a empty_class) = 0")
    case True
    then obtain c where c: "cfn a empty_class = (0, c)" "wf_class c" using Cons.prems(3) by (cases "cfn a empty_class") auto
    from populate_node_ok [where cfn = cfn and action = a and node = i, OF Cons.prems(1) _ c] Cons.prems(2) obtain d1 where
      1: "populate_node cfn i a df = (0, d1)" "wf_dataflow d1" "df_plan d1 = df_plan df" by auto
    have "\<exists>a \<in> set as. fst (cfn a empty_class) \<noteq> 0" using Cons.prems(4) True by simp
    then show ?thesis using Cons.IH [of d1 "Suc i"] Cons.prems 1 by (simp add: and_then_def)
  next
    case False
    then have "populate_node cfn i a df = (-1, df)"
      by (cases "cfn a empty_class") (simp add: populate_node_def)
    then show ?thesis by (simp add: and_then_def)
  qed
qed simp

lemma mark_sticky_ok:
  assumes "wf_dataflow df" and "wf_lset s" and "set ts \<subseteq> {..<PLAN_MAX_LABELS}"
  shows "\<exists>df'. apply_tags ts df node s (\<lambda>df _ t. plan_dataflow_mark_sticky df t) = (0, df') \<and> wf_dataflow df' \<and>
    df_plan df' = df_plan df \<and> lset (sticky df') = lset (sticky df) \<union> (lset s \<inter> set ts) \<and>
    node_inputs df' = node_inputs df"
  using assms(1,3)
proof (induction ts arbitrary: df)
  case (Cons t ts)
  show ?case
  proof (cases "t \<in> lset s")
    case True
    have "wf_lset (sticky df)" using Cons.prems(1) by (simp add: wf_dataflow_def)
    then obtain s' where s': "plan_label_set_add (sticky df) t = (0, s')" "wf_lset s'" "lset s' = insert t (lset (sticky df))"
      using lab.add_in [of "sticky df" t] Cons.prems(2) by (cases "plan_label_set_add (sticky df) t") auto
    let ?d = "df\<lparr>sticky := s', computed := False\<rparr>"
    have "wf_dataflow ?d" using Cons.prems(1) s'(2) by (simp add: wf_dataflow_def)
    from Cons.IH [OF this] Cons.prems(2) obtain d2 where
      "apply_tags ts ?d node s (\<lambda>df _ t. plan_dataflow_mark_sticky df t) = (0, d2)" "wf_dataflow d2"
      "df_plan d2 = df_plan df" "lset (sticky d2) = lset s' \<union> (lset s \<inter> set ts)" "node_inputs d2 = node_inputs ?d" by auto
    moreover have "node_inputs ?d = node_inputs df" by (simp add: node_inputs_def fun_eq_iff)
    moreover have "plan_dataflow_mark_sticky df t = (0, ?d)" by (simp add: plan_dataflow_mark_sticky_def s'(1))
    ultimately show ?thesis using True s' by (auto simp: lab.test [OF assms(2)])
  next
    case False
    with Cons.IH [OF Cons.prems(1)] Cons.prems(2) show ?thesis by (auto simp: lab.test [OF assms(2)])
  qed
qed simp

text \<open>Populating only makes calls of the data-flow interface.\<close>

lemma df_reach_snd:
  assumes "df_reach p df"
  shows "df_reach p (snd (plan_dataflow_add_origin df v l))" and "df_reach p (snd (plan_dataflow_add_deny_in df v l))"
    and "df_reach p (snd (plan_dataflow_add_unknown_in df v l))" and "df_reach p (snd (plan_dataflow_add_permit_in df v l))"
    and "df_reach p (snd (plan_dataflow_add_declassify df v l))" and "df_reach p (snd (plan_dataflow_mark_sticky df l))"
  using df_reach.origin [OF assms prod.collapse [symmetric]] df_reach.deny_in [OF assms prod.collapse [symmetric]]
    df_reach.unknown_in [OF assms prod.collapse [symmetric]] df_reach.permit_in [OF assms prod.collapse [symmetric]]
    df_reach.declassify [OF assms prod.collapse [symmetric]] df_reach.mark_sticky [OF assms prod.collapse [symmetric]]
  by blast+

lemmas apply_tags_reach = apply_tags_invariant [where Q = "df_reach p" for p]

lemma and_then_reach:
  "df_reach p (snd q) \<Longrightarrow> (\<And>df. df_reach p df \<Longrightarrow> df_reach p (snd (f df))) \<Longrightarrow> df_reach p (snd (and_then q f))"
  by (cases q) (auto simp: and_then_def)

lemma populate_node_reach: "df_reach p df \<Longrightarrow> df_reach p (snd (populate_node cfn i a df))"
  unfolding populate_node_def apply_set_def
  by (cases "cfn a empty_class") (simp, intro impI and_then_reach apply_tags_reach df_reach_snd; simp)

lemma populate_nodes_reach: "df_reach p df \<Longrightarrow> df_reach p (snd (populate_nodes cfn i as df))"
proof (induction as arbitrary: i df)
  case (Cons a as)
  then show ?case by (simp add: and_then_reach populate_node_reach)
qed simp

lemma populate_reach: "df_reach p df \<Longrightarrow> df_reach p (snd (plan_dataflow_populate df acts pol))"
  unfolding plan_dataflow_populate_def
  by (simp split: option.split) (intro allI impI conjI and_then_reach apply_tags_reach populate_nodes_reach df_reach_snd; simp)

section \<open>The contract of a classifier\<close>

text \<open>What the adapter relies on: a classifier started on an empty record answers 0 with well-formed
  sets or -1.\<close>

locale classifier =
  fixes classify_in :: "'ctx \<Rightarrow> plan_label_policy_fn" and ok :: "'ctx \<Rightarrow> bool"
  assumes classify_status: "fst (classify_in ctx a empty_class) \<in> {0, -1}"
    and classify_wf: "ok ctx \<Longrightarrow> fst (classify_in ctx a empty_class) = 0 \<Longrightarrow> wf_class (snd (classify_in ctx a empty_class))"
begin

lemma populate_effect:
  assumes "wf_dataflow df" and "ok ctx" and "wf_lset st" and "length acts = n_nodes (df_plan df)"
    and "\<forall>a \<in> set acts. fst (classify_in ctx a empty_class) = 0"
  shows "\<exists>df'. plan_dataflow_populate df (Some acts) (Some \<lparr>classify = Some (classify_in ctx), pol_sticky = st\<rparr>) = (0, df') \<and>
    wf_dataflow df' \<and> df_plan df' = df_plan df \<and> lset (sticky df') = lset (sticky df) \<union> lset st \<and>
    (\<forall>v < length acts. classified_as df df' v (snd (classify_in ctx (acts ! v) empty_class)))"
proof -
  have b: "set [0..<PLAN_MAX_LABELS] \<subseteq> {..<PLAN_MAX_LABELS}" by auto
  have "lset st \<inter> {0..<PLAN_MAX_LABELS} = lset st" using lab.abs_bound [OF assms(3)] by auto
  with mark_sticky_ok [OF assms(1,3) b, of 0] obtain d1 where
    1: "apply_tags [0..<PLAN_MAX_LABELS] df 0 st (\<lambda>df _ t. plan_dataflow_mark_sticky df t) = (0, d1)" "wf_dataflow d1"
      "df_plan d1 = df_plan df" "lset (sticky d1) = lset (sticky df) \<union> lset st" "node_inputs d1 = node_inputs df"
    by auto
  from populate_nodes_ok [OF 1(2), of 0 acts "classify_in ctx"] assms 1(3) classify_wf obtain d2 where
    2: "populate_nodes (classify_in ctx) 0 acts d1 = (0, d2)" "wf_dataflow d2" "df_plan d2 = df_plan d1" "sticky d2 = sticky d1"
      "\<forall>k < length acts. classified_as d1 d2 k (snd (classify_in ctx (acts ! k) empty_class))" by auto
  have "classified_as df d2 k c = classified_as d1 d2 k c" for k c
    using fun_cong [OF 1(5), of k] by (simp add: classified_as_def node_inputs_def)
  then show ?thesis
    using 1 2 assms(4)
    by (auto simp: plan_dataflow_populate_def and_then_def plan_dataflow_get_plan_def exec_plan_node_count_def)
qed

lemma populate_refused:
  assumes "wf_dataflow df" and "ok ctx" and "wf_lset st" and "length acts = n_nodes (df_plan df)"
    and "\<exists>a \<in> set acts. fst (classify_in ctx a empty_class) \<noteq> 0"
  shows "fst (plan_dataflow_populate df (Some acts) (Some \<lparr>classify = Some (classify_in ctx), pol_sticky = st\<rparr>)) = -1"
proof -
  have b: "set [0..<PLAN_MAX_LABELS] \<subseteq> {..<PLAN_MAX_LABELS}" by auto
  from mark_sticky_ok [OF assms(1,3) b, of 0] obtain d1 where
    1: "apply_tags [0..<PLAN_MAX_LABELS] df 0 st (\<lambda>df _ t. plan_dataflow_mark_sticky df t) = (0, d1)" "wf_dataflow d1"
      "df_plan d1 = df_plan df" by auto
  from populate_nodes_refused [OF 1(2), of 0 acts "classify_in ctx"] assms 1(3) classify_wf
  have "fst (populate_nodes (classify_in ctx) 0 acts d1) = -1" by auto
  then show ?thesis
    using 1 assms(4) by (simp add: plan_dataflow_populate_def and_then_def plan_dataflow_get_plan_def exec_plan_node_count_def)
qed

end

definition wf_table :: "plan_label_table \<Rightarrow> bool" where
  "wf_table tbl \<longleftrightarrow> list_all (\<lambda>r. wf_class (rule_classify r)) (rules tbl)"

text \<open>The specification of the lookup.\<close>

definition names :: "plan_label_rule \<Rightarrow> plan_action_desc \<Rightarrow> bool" where
  "names r a \<longleftrightarrow> rule_action r \<noteq> None \<and> rule_action r = act_name a"

definition first_match :: "plan_label_rule list \<Rightarrow> plan_action_desc \<Rightarrow> plan_label_rule \<Rightarrow> bool" where
  "first_match rs a r \<longleftrightarrow>
     (\<exists>pre post. rs = pre @ r # post \<and> names r a \<and> rule_matches_action r a \<and>
        (\<forall>q \<in> set pre. names q a \<longrightarrow> \<not> rule_matches_action q a))"

lemma first_rule_None: "first_rule a rs = None \<longleftrightarrow> (\<forall>r \<in> set rs. names r a \<longrightarrow> \<not> rule_matches_action r a)"
  by (induction rs) (auto simp: names_def)

lemma first_rule_Some: "first_rule a rs = Some r \<longleftrightarrow> first_match rs a r"
proof (induction rs)
  case Nil
  then show ?case by (simp add: first_match_def)
next
  case (Cons q rs)
  show ?case
  proof (cases "names q a \<and> rule_matches_action q a")
    case True
    then have "first_rule a (q # rs) = Some q" by (auto simp: names_def)
    moreover have "first_match (q # rs) a r \<longleftrightarrow> r = q"
      using True by (auto simp: first_match_def Cons_eq_append_conv) 
    ultimately show ?thesis by auto
  next
    case False
    then have "first_rule a (q # rs) = first_rule a rs" by (auto simp: names_def)
    moreover have "first_match (q # rs) a r \<longleftrightarrow> first_match rs a r"
    proof
      assume "first_match (q # rs) a r"
      then obtain pre post where p: "q # rs = pre @ r # post" "names r a" "rule_matches_action r a"
        "\<forall>q \<in> set pre. names q a \<longrightarrow> \<not> rule_matches_action q a" by (auto simp: first_match_def)
      with False obtain pre' where "pre = q # pre'" by (cases pre) auto
      with p show "first_match rs a r" by (auto simp: first_match_def)
    next
      assume "first_match rs a r"
      then obtain pre post where p: "rs = pre @ r # post" "names r a" "rule_matches_action r a"
        "\<forall>q \<in> set pre. names q a \<longrightarrow> \<not> rule_matches_action q a" by (auto simp: first_match_def)
      then have "q # rs = (q # pre) @ r # post" by simp
      with p False show "first_match (q # rs) a r" unfolding first_match_def by (metis set_ConsD)
    qed
    ultimately show ?thesis using Cons.IH by simp
  qed
qed

lemma from_table_class_wf:
  assumes "wf_table tbl" and "wf_class out" and "fst (plan_label_policy_from_table tbl a out) = 0"
  shows "wf_class (snd (plan_label_policy_from_table tbl a out))"
proof -
  have "wf_class (rule_classify r)" if "first_rule a (rules tbl) = Some r" for r
    using that assms(1) by (auto simp: first_rule_Some first_match_def wf_table_def)
  then show ?thesis
    using assms(3) by (auto simp: plan_label_policy_from_table_def split: option.splits if_splits)
qed

interpretation table: classifier plan_label_policy_from_table wf_table
proof (unfold_locales, goal_cases)
  case (1 ctx a)
  show ?case by (auto simp: plan_label_policy_from_table_def split: option.splits)
next
  case (2 ctx a)
  then show ?case using from_table_class_wf [OF _ wf_empty_class] by blast
qed

section \<open>Properties\<close>

text \<open>Every URL component a rule for this action asks for can be read, when the action carries the
  argument at all: one argument of that name, whose component parses.\<close>

definition readable :: "plan_label_table \<Rightarrow> plan_action_desc \<Rightarrow> bool" where
  "readable tbl a \<longleftrightarrow>
     (\<forall>r \<in> set (rules tbl). names r a \<longrightarrow>
       (\<forall>m \<in> set (rule_matches r). \<forall>base part u twice.
          component_key (m_key m) BASE_MAX = Some (base, part) \<and> url_arg a base = (Some u, twice) \<longrightarrow>
          \<not> twice \<and> url_component (Some u) (Some part) URL_PART_MAX \<noteq> None))"

lemma unparseable_readable: "unparseable_component tbl a \<longleftrightarrow> \<not> readable tbl a"
proof -
  have "(case component_key (m_key m) BASE_MAX of None \<Rightarrow> False
      | Some (base, part) \<Rightarrow> let (url, twice) = url_arg a base in
          url \<noteq> None \<and> (twice \<or> url_component url (Some part) URL_PART_MAX = None)) \<longleftrightarrow>
    (\<exists>base part u twice. component_key (m_key m) BASE_MAX = Some (base, part) \<and> url_arg a base = (Some u, twice) \<and>
       (twice \<or> url_component (Some u) (Some part) URL_PART_MAX = None))" for m :: plan_label_rule_match
    by (auto split: option.splits prod.splits)
  then show ?thesis
    unfolding unparseable_component_def readable_def names_def list_ex_iff by blast
qed

text \<open>The reference policy classifies an action exactly when every URL component its rules ask for
  can be read, and then as the first rule does that names the action and whose constraints all hold,
  or, in a table that is not strict, as nothing when there is no such rule; in every other case it
  answers -1 and leaves the caller's record alone.\<close>

theorem table_lookup:
  assumes "act_name a \<noteq> None"
  shows "(plan_label_policy_from_table tbl a out = (0, c) \<longleftrightarrow>
      readable tbl a \<and>
      ((\<exists>r. first_match (rules tbl) a r \<and> c = rule_classify r) \<or>
       (\<not> strict tbl \<and> c = empty_class \<and>
        (\<forall>r \<in> set (rules tbl). names r a \<longrightarrow> \<not> rule_matches_action r a)))) \<and>
    (fst (plan_label_policy_from_table tbl a out) \<noteq> 0 \<longrightarrow> plan_label_policy_from_table tbl a out = (-1, out))"
proof (cases "first_rule a (rules tbl)")
  case None
  then have "\<not> first_match (rules tbl) a r" for r by (metis first_rule_Some option.distinct(1))
  moreover have "\<forall>r \<in> set (rules tbl). names r a \<longrightarrow> \<not> rule_matches_action r a"
    using None by (simp add: first_rule_None)
  ultimately show ?thesis
    using None assms by (auto simp: plan_label_policy_from_table_def unparseable_readable)
next
  case (Some r)
  then have "first_match (rules tbl) a q \<longleftrightarrow> q = r" for q by (metis first_rule_Some option.inject)
  moreover have "\<not> (\<forall>r \<in> set (rules tbl). names r a \<longrightarrow> \<not> rule_matches_action r a)"
    using Some by (metis first_rule_None option.distinct(1))
  ultimately show ?thesis
    using Some assms by (auto simp: plan_label_policy_from_table_def unparseable_readable)
qed

definition deny_evil :: plan_label_rule where
  "deny_evil = \<lparr>rule_action = Some ''send'', rule_classify = empty_class\<lparr>cls_deny_in := [1, 0]\<rparr>,
     rule_matches = [\<lparr>m_key = Some ''url.host'', m_pattern = Some ''*.evil.example''\<rparr>]\<rparr>"

definition evil_table :: plan_label_table where
  "evil_table = \<lparr>rules = [deny_evil, \<lparr>rule_action = Some ''send'', rule_classify = empty_class, rule_matches = []\<rparr>],
     strict = False\<rparr>"

definition send_to :: "string \<Rightarrow> plan_action_desc" where
  "send_to u = \<lparr>act_name = Some ''send'', named_args = [\<lparr>arg_key = Some ''url'', arg_value = Some u\<rparr>]\<rparr>"

theorem table_lookup_witness:
  "plan_label_policy_from_table evil_table (send_to ''https://b.evil.example/'') empty_class =
     (0, empty_class\<lparr>cls_deny_in := [1, 0]\<rparr>) \<and>
   readable evil_table (send_to ''https://b.evil.example/'')"
proof -
  have r: "plan_label_policy_from_table evil_table (send_to ''https://b.evil.example/'') empty_class =
     (0, empty_class\<lparr>cls_deny_in := [1, 0]\<rparr>)" by code_simp
  have "act_name (send_to ''https://b.evil.example/'') \<noteq> None" by (simp add: send_to_def)
  from table_lookup [OF this] r show ?thesis by blast
qed

lemma component_key_dot:
  assumes "arg \<noteq> []" and "length arg < basesz" and "part \<in> {''scheme'', ''host'', ''port'', ''path''}"
  shows "component_key (Some (arg @ CHR ''.'' # part)) basesz = Some (arg, part)"
proof -
  have nd: "CHR ''.'' \<notin> set part" using assms(3) by auto
  have "takeWhile (\<lambda>c. c \<noteq> CHR ''.'') (rev part @ CHR ''.'' # rev arg) = rev part"
    using nd by (intro takeWhile_split) (auto simp: list_all_iff)
  then have "last_label (arg @ CHR ''.'' # part) = part" by (simp add: last_label_def)
  then show ?thesis using assms by (auto simp: component_key_def Let_def)
qed

text \<open>A rule constrained on \<open>arg.host\<close> matches an action only if the action carries the argument
  exactly once in effect, its value is an absolute URL, and the host of that URL (lower-cased, and never
  the value of an argument that happens to be named \<open>arg.host\<close>) is described by the lower-cased
  pattern.\<close>

theorem host_rule_sound:
  assumes "rule_matches_action r a" and "m \<in> set (rule_matches r)" and "m_key m = Some (arg @ ''.host'')"
    and "arg \<noteq> []" and "length arg < BASE_MAX"
  shows "\<exists>u host src pat. url_arg a arg = (Some u, False) \<and> host_of u host \<and> host_part host = Some src \<and>
     m_pattern m = Some pat \<and> glob_spec (map lower pat) (map lower src)"
proof -
  have k: "component_key (m_key m) BASE_MAX = Some (arg, ''host'')"
    using component_key_dot [OF assms(4,5), of "''host''"] assms(3) by simp
  have h: "match_holds a m" using assms(1,2) by (simp add: rule_matches_action_def list_all_iff)
  obtain u twice where ua: "url_arg a arg = (u, twice)" by force
  from h obtain u' out pat where u: "u = Some u'" "\<not> twice" and out: "url_component (Some u') (Some ''host'') URL_PART_MAX = Some out"
    and pat: "m_pattern m = Some pat" "glob_match (Some (map lower pat)) (Some out)"
    by (auto simp: match_holds_def match_value_def k ua glob_match_def split: option.splits if_splits)
  from out obtain host src where "host_of u' host" "host_part host = Some src" "out = map lower src"
    unfolding host_component_of by blast
  moreover have "glob_spec (map lower pat) out" using pat(2) by (rule glob_match_sound)
  ultimately show ?thesis using ua u pat(1) by auto
qed

theorem host_rule_sound_witness:
  "\<exists>u host src pat. url_arg (send_to ''https://A.Evil.Example/x'') ''url'' = (Some u, False) \<and> host_of u host \<and>
     host_part host = Some src \<and> glob_spec (map lower pat) (map lower src)"
proof -
  have "rule_matches_action deny_evil (send_to ''https://A.Evil.Example/x'')" by code_simp
  from host_rule_sound [OF this, of "\<lparr>m_key = Some ''url.host'', m_pattern = Some ''*.evil.example''\<rparr>" "''url''"]
  have "\<exists>u host src pat. url_arg (send_to ''https://A.Evil.Example/x'') ''url'' = (Some u, False) \<and> host_of u host \<and>
     host_part host = Some src \<and> Some ''*.evil.example'' = Some pat \<and> glob_spec (map lower pat) (map lower src)"
    by (simp add: deny_evil_def)
  then show ?thesis by blast
qed

end
