(* ===== verification/Flow_Pathology.thy ===== *)
theory Flow_Pathology
  imports Label_Policy Json
begin

unbundle bit_operations_syntax

text \<open>
  The record that explains a refused plan: \<^verbatim>\<open>src/v1_7/plan_dataflow_pathology.c\<close> (and the two
  accessors of \<^verbatim>\<open>v1_6_compat.h\<close>). A bounded writer appends to the caller's buffer and latches
  an overflow; the emitters call it in the order of the source. An emitter is a function on writers,
  a sequence of calls is \<open>steps\<close>, and a loop that separates its items by commas is \<open>emit_sep\<close>.
\<close>

section \<open>The bounded writer\<close>

text \<open>\<open>w_buf\<close> is what has been written, so \<open>len\<close> is its length.\<close>

record bw =
  w_buf :: string
  w_cap :: nat
  w_ovf :: bool

definition bw_init :: "nat \<Rightarrow> bw" where
  "bw_init cap = \<lparr>w_buf = [], w_cap = cap, w_ovf = False\<rparr>"

definition bw_putc :: "char \<Rightarrow> bw \<Rightarrow> bw" where
  "bw_putc c w =
     (if w_ovf w then w
      else if length (w_buf w) \<ge> w_cap w then w\<lparr>w_ovf := True\<rparr>
      else w\<lparr>w_buf := w_buf w @ [c]\<rparr>)"

definition bw_puts :: "string \<Rightarrow> bw \<Rightarrow> bw" where
  "bw_puts s w = fold bw_putc s w"

definition bw_putu :: "nat \<Rightarrow> bw \<Rightarrow> bw" where
  "bw_putu v w =
     (let tmp = (if v = 0 then ''0'' else digits_rev v) in fold bw_putc (rev tmp) w)"

definition bw_putstr :: "cstr option \<Rightarrow> bw \<Rightarrow> bw" where
  "bw_putstr s w =
     (let w1 = bw_putc quote w in
      case s of
        None \<Rightarrow> bw_putc quote (bw_puts ''null'' w1)
      | Some t \<Rightarrow> bw_putc quote (fold (\<lambda>c. bw_puts (esc_char c)) t w1))"

definition steps :: "(bw \<Rightarrow> bw) list \<Rightarrow> bw \<Rightarrow> bw" where
  "steps fs w = fold (\<lambda>f. f) fs w"

fun emit_sep :: "bool \<Rightarrow> ('a \<Rightarrow> bw \<Rightarrow> bw) \<Rightarrow> 'a list \<Rightarrow> bw \<Rightarrow> bw" where
  "emit_sep first f [] w = w"
| "emit_sep first f (x # xs) w =
     emit_sep False f xs (f x (if first then w else bw_putc (CHR '','') w))"

section \<open>Emitters\<close>

fun dec_name :: "plan_decision \<Rightarrow> string" where
  "dec_name PLAN_DEC_SATISFIED = ''SATISFIED''"
| "dec_name PLAN_DEC_UNSATISFIED = ''UNSATISFIED''"
| "dec_name PLAN_DEC_UNKNOWN = ''UNKNOWN''"
| "dec_name (PLAN_DEC_INVALID _) = ''INVALID''"

text \<open>The options: the callback that names a label, when there is one.\<close>

type_synonym plan_pathology_opts = "(plan_label \<Rightarrow> cstr option) option"

definition emit_label :: "plan_label \<Rightarrow> plan_pathology_opts \<Rightarrow> bw \<Rightarrow> bw" where
  "emit_label t opts w =
     (case opts of
        Some label_name \<Rightarrow>
          (case label_name t of
             Some name \<Rightarrow> bw_putstr (Some name) w
           | None \<Rightarrow> steps [bw_putc quote, bw_putu t, bw_putc quote] w)
      | None \<Rightarrow> steps [bw_putc quote, bw_putu t, bw_putc quote] w)"

definition dataflow_plan_get_node_label :: "exec_plan \<Rightarrow> plan_node_id \<Rightarrow> cstr option" where
  "dataflow_plan_get_node_label plan nid =
     (if nid \<ge> n_nodes plan then None else node_label (nodes plan ! nid))"

definition dataflow_plan_get_edge :: "exec_plan \<Rightarrow> nat \<Rightarrow> (plan_node_id \<times> plan_node_id) option" where
  "dataflow_plan_get_edge plan i =
     (if i \<ge> n_edges plan then None else Some (edge_from (edges plan ! i), edge_to (edges plan ! i)))"

text \<open>The edges the loops over \<open>dataflow_plan_get_edge\<close> visit.\<close>

definition plan_edges :: "exec_plan \<Rightarrow> (plan_node_id \<times> plan_node_id) list" where
  "plan_edges plan = List.map_filter (dataflow_plan_get_edge plan) [0..<n_edges plan]"

definition carries :: "plan_dataflow \<Rightarrow> plan_node_id \<Rightarrow> plan_label \<Rightarrow> bool" where
  "carries df from label =
     (case plan_dataflow_node_outbound (Some df) from of
        None \<Rightarrow> False
      | Some outb \<Rightarrow> plan_label_set_test outb label)"

definition emit_sources_for_label ::
  "plan_dataflow \<Rightarrow> plan_node_id \<Rightarrow> plan_label \<Rightarrow> plan_pathology_opts \<Rightarrow> bw \<Rightarrow> bw" where
  "emit_sources_for_label df n label opts =
     steps
       [bw_putc (CHR ''[''),
        emit_sep True
          (\<lambda>(from, to). steps
             [bw_putc (CHR ''{''),
              bw_putstr (Some ''from''), bw_putc (CHR '':''), bw_putu from, bw_putc (CHR '',''),
              bw_putstr (Some ''from_label''), bw_putc (CHR '':''),
              bw_putstr (dataflow_plan_get_node_label (df_plan df) from), bw_putc (CHR '',''),
              bw_putstr (Some ''label''), bw_putc (CHR '':''), emit_label label opts,
              bw_putc (CHR ''}'')])
          (filter (\<lambda>(from, to). to = n \<and> carries df from label) (plan_edges (df_plan df))),
        bw_putc (CHR '']'')]"

text \<open>The backward search of the lineage. \<open>queue\<close> holds every node ever queued, \<open>qh\<close> the position
  of the head; the inner loop extends it with the unvisited carriers among the predecessors of \<open>u\<close>.\<close>

fun walk_preds ::
  "nat \<Rightarrow> plan_dataflow \<Rightarrow> plan_label \<Rightarrow> nat \<Rightarrow> (nat \<times> nat) list \<Rightarrow> nat set \<Rightarrow> nat list \<Rightarrow> nat set \<times> nat list" where
  "walk_preds n df label u [] vis queue = (vis, queue)"
| "walk_preds n df label u ((from, to) # es) vis queue =
     (if to \<noteq> u then walk_preds n df label u es vis queue
      else if from \<ge> n \<or> from \<in> vis then walk_preds n df label u es vis queue
      else if \<not> carries df from label then walk_preds n df label u es vis queue
      else walk_preds n df label u es (insert from vis) (queue @ [from]))"

definition originates :: "plan_dataflow \<Rightarrow> plan_node_id \<Rightarrow> plan_label \<Rightarrow> bool" where
  "originates df u label =
     (case plan_dataflow_node_origin (Some df) u of
        None \<Rightarrow> False
      | Some o' \<Rightarrow> plan_label_set_test o' label)"

text \<open>The search. \<open>fuel\<close> bounds the number of nodes taken from the queue; \<^const>\<open>None\<close> means that it did
  not suffice, which never happens with the node count as fuel.\<close>

fun lineage ::
  "nat \<Rightarrow> nat \<Rightarrow> plan_dataflow \<Rightarrow> plan_label \<Rightarrow> nat \<Rightarrow> nat set \<Rightarrow> nat list \<Rightarrow> nat \<Rightarrow> nat set \<Rightarrow> nat set option" where
  "lineage fuel n df label sink vis queue qh is_orig =
     (if qh \<ge> length queue then Some is_orig
      else
        (case fuel of
           0 \<Rightarrow> None
         | Suc fuel' \<Rightarrow>
             let u = queue ! qh;
                 is_orig' = (if u \<noteq> sink \<and> originates df u label then insert u is_orig else is_orig);
                 (vis', queue') = walk_preds n df label u (plan_edges (df_plan df)) vis queue
             in lineage fuel' n df label sink vis' queue' (Suc qh) is_orig'))"

declare lineage.simps [simp del]

definition emit_originators_for_label ::
  "plan_dataflow \<Rightarrow> plan_node_id \<Rightarrow> plan_label \<Rightarrow> plan_pathology_opts \<Rightarrow> bw \<Rightarrow> bw" where
  "emit_originators_for_label df sink label opts =
     (let n = exec_plan_node_count (Some (df_plan df)) in
      if sink \<ge> n then steps [bw_putc (CHR ''[''), bw_putc (CHR '']'')]
      else
        let is_orig = (case lineage n n df label sink {sink} [sink] 0 {} of None \<Rightarrow> {} | Some s \<Rightarrow> s) in
        steps
          [bw_putc (CHR ''[''),
           emit_sep True
             (\<lambda>i. steps
                [bw_putc (CHR ''{''),
                 bw_putstr (Some ''node''), bw_putc (CHR '':''), bw_putu i, bw_putc (CHR '',''),
                 bw_putstr (Some ''node_label''), bw_putc (CHR '':''),
                 bw_putstr (dataflow_plan_get_node_label (df_plan df) i), bw_putc (CHR '',''),
                 bw_putstr (Some ''label''), bw_putc (CHR '':''), emit_label label opts,
                 bw_putc (CHR ''}'')])
             (filter (\<lambda>i. i \<in> is_orig) [0..<n]),
           bw_putc (CHR '']'')])"

definition emit_offense_group ::
  "plan_dataflow \<Rightarrow> plan_node_id \<Rightarrow> plan_label_set \<Rightarrow> string \<Rightarrow> plan_pathology_opts \<Rightarrow> bw \<Rightarrow> bw" where
  "emit_offense_group df n lbls kind opts =
     (if plan_label_set_empty lbls then (\<lambda>w. w)
      else
        let ts = filter (plan_label_set_test lbls) [0..<PLAN_MAX_LABELS] in
        steps
          [bw_putc (CHR ''{''),
           bw_putstr (Some ''kind''), bw_putc (CHR '':''), bw_putstr (Some kind),
           bw_putc (CHR '',''),
           bw_putstr (Some ''labels''), bw_putc (CHR '':''), bw_putc (CHR ''[''),
           emit_sep True (\<lambda>t. emit_label t opts) ts,
           bw_putc (CHR '']''),
           bw_putc (CHR '',''),
           bw_putstr (Some ''sources''), bw_putc (CHR '':''), bw_putc (CHR ''[''),
           emit_sep True (\<lambda>t. emit_sources_for_label df n t opts) ts,
           bw_putc (CHR '']''),
           bw_putc (CHR '',''),
           bw_putstr (Some ''originators''), bw_putc (CHR '':''), bw_putc (CHR ''[''),
           emit_sep True (\<lambda>t. emit_originators_for_label df n t opts) ts,
           bw_putc (CHR '']''),
           bw_putc (CHR ''}'')])"

text \<open>The three offense sets of a node, as (set, kind) pairs in the order they are emitted.\<close>

definition offenses :: "plan_dataflow \<Rightarrow> plan_node_id \<Rightarrow> (plan_label_set \<times> string) list" where
  "offenses df i =
     (let deny_hits = map2 (AND) (inbound df i) (deny_in df i);
          unknown_hits = map2 (AND) (inbound df i) (unknown_in df i);
          classified = map2 (OR) (map2 (OR) (deny_in df i) (unknown_in df i)) (permit_in df i);
          sticky_unclass = map2 (\<lambda>x c. x AND NOT c) (map2 (AND) (inbound df i) (sticky df)) classified
      in [(deny_hits, ''deny_in''), (unknown_hits, ''unknown_in''), (sticky_unclass, ''sticky_unclassified'')])"

text \<open>The nodes of the suppressions array: those not SATISFIED whose sets can be read.\<close>

definition suppressed :: "plan_dataflow \<Rightarrow> plan_node_id \<Rightarrow> bool" where
  "suppressed df i \<longleftrightarrow>
     plan_dataflow_node_decision (Some df) i \<noteq> PLAN_DEC_SATISFIED \<and>
     plan_dataflow_node_inbound (Some df) i \<noteq> None \<and> plan_dataflow_node_deny_in (Some df) i \<noteq> None \<and>
     plan_dataflow_node_unknown_in (Some df) i \<noteq> None \<and> plan_dataflow_node_permit_in (Some df) i \<noteq> None"

definition emit_suppression :: "plan_dataflow \<Rightarrow> plan_pathology_opts \<Rightarrow> plan_node_id \<Rightarrow> bw \<Rightarrow> bw" where
  "emit_suppression df opts i =
     steps
       [bw_putc (CHR ''{''),
        bw_putstr (Some ''node''), bw_putc (CHR '':''), bw_putu i, bw_putc (CHR '',''),
        bw_putstr (Some ''node_label''), bw_putc (CHR '':''),
        bw_putstr (dataflow_plan_get_node_label (df_plan df) i), bw_putc (CHR '',''),
        bw_putstr (Some ''decision''), bw_putc (CHR '':''),
        bw_putstr (Some (dec_name (plan_dataflow_node_decision (Some df) i))), bw_putc (CHR '',''),
        bw_putstr (Some ''offenses''), bw_putc (CHR '':''), bw_putc (CHR ''[''),
        emit_sep True (\<lambda>(s, kind). emit_offense_group df i s kind opts)
          (filter (\<lambda>(s, kind). \<not> plan_label_set_empty s) (offenses df i)),
        bw_putc (CHR '']''),
        bw_putc (CHR ''}'')]"

definition emit_record ::
  "plan_dataflow \<Rightarrow> plan_pathology_opts \<Rightarrow> plan_decision \<Rightarrow> plan_decision \<Rightarrow> plan_decision \<Rightarrow> bw \<Rightarrow> bw" where
  "emit_record df opts joined node flow =
     steps
       [bw_putc (CHR ''{''),
        bw_putstr (Some ''verdict''), bw_putc (CHR '':''), bw_putstr (Some (dec_name joined)), bw_putc (CHR '',''),
        bw_putstr (Some ''node_axis''), bw_putc (CHR '':''), bw_putstr (Some (dec_name node)), bw_putc (CHR '',''),
        bw_putstr (Some ''flow_axis''), bw_putc (CHR '':''), bw_putstr (Some (dec_name flow)), bw_putc (CHR '',''),
        bw_putstr (Some ''suppressions''), bw_putc (CHR '':''), bw_putc (CHR ''[''),
        emit_sep True (emit_suppression df opts)
          (filter (suppressed df) [0..<exec_plan_node_count (Some (df_plan df))]),
        bw_putc (CHR '']''),
        bw_putc (CHR ''}'')]"

text \<open>The result: the text in the buffer (the return value is its length, a NUL follows it) or
  \<^const>\<open>None\<close> for -1; and the companion, on which the verdict is now computed. A verdict the
  evaluator cannot compute (outer \<^const>\<open>None\<close>) does not occur for a well-formed plan.\<close>

definition plan_dataflow_emit_pathology_buf ::
  "plan_dataflow \<Rightarrow> plan_pathology_opts \<Rightarrow> nat \<Rightarrow> (string option \<times> plan_dataflow) option" where
  "plan_dataflow_emit_pathology_buf df opts bufsz =
     (if bufsz = 0 then Some (None, df)
      else
        (case plan_dataflow_flow_verdict (Some df) of
           (flow, Some df') \<Rightarrow>
             (case exec_plan_verify (plan_dataflow_get_plan (Some df')) of
                None \<Rightarrow> None
              | Some node \<Rightarrow>
                  let joined = plan_decision_join node flow;
                      w = emit_record df' opts joined node flow (bw_init (bufsz - 1))
                  in Some (if w_ovf w then None else Some (w_buf w), df'))
         | (flow, None) \<Rightarrow> None))"

section \<open>What an emitter writes\<close>

text \<open>An emitter writes the text \<open>s\<close> if it behaves on every writer as putting \<open>s\<close> does.\<close>

definition writes :: "(bw \<Rightarrow> bw) \<Rightarrow> string \<Rightarrow> bool" where
  "writes f s \<longleftrightarrow> (\<forall>w. f w = bw_puts s w)"

lemma bw_puts_simps [simp]: "bw_puts [] w = w" "bw_puts (c # s) w = bw_puts s (bw_putc c w)"
  by (simp_all add: bw_puts_def)

lemma bw_puts_append [simp]: "bw_puts (s @ t) w = bw_puts t (bw_puts s w)"
  by (simp add: bw_puts_def)

lemma bw_puts_init:
  "bw_puts s (bw_init cap) = \<lparr>w_buf = take cap s, w_cap = cap, w_ovf = (length s > cap)\<rparr>"
proof (induction s rule: rev_induct)
  case Nil
  then show ?case by (simp add: bw_init_def)
next
  case (snoc c s)
  then show ?case by (auto simp: bw_putc_def)
qed

lemma writes_putc: "writes (bw_putc c) [c]"
  by (simp add: writes_def)

lemma writes_putu: "writes (bw_putu v) (decimal v)"
  by (simp add: writes_def bw_putu_def decimal_def bw_puts_def Let_def)

lemma writes_putstr:
  "writes (bw_putstr s) (case s of None \<Rightarrow> quote # ''null'' @ [quote] | Some t \<Rightarrow> json_string t)"
proof -
  have "fold (\<lambda>c. bw_puts (esc_char c)) t w = bw_puts (concat (map esc_char t)) w" for t w
    by (induction t arbitrary: w) simp_all
  then show ?thesis by (simp add: writes_def bw_putstr_def json_string_def split: option.split)
qed

lemma writes_steps_Nil: "writes (steps []) []"
  by (simp add: writes_def steps_def)

lemma writes_steps_Cons: "writes f s \<Longrightarrow> writes (steps fs) t \<Longrightarrow> writes (steps (f # fs)) (s @ t)"
  by (simp add: writes_def steps_def)

text \<open>Emitters of JSON: a value, the items of an array, and the rest of an object up to its brace.\<close>

definition jval :: "(bw \<Rightarrow> bw) \<Rightarrow> bool" where
  "jval f \<longleftrightarrow> (\<exists>s. writes f s \<and> json s)"

definition jitems :: "(bw \<Rightarrow> bw) \<Rightarrow> bool" where
  "jitems f \<longleftrightarrow> (\<exists>s. writes f s \<and> (s = [] \<or> elements s))"

definition jtail :: "(bw \<Rightarrow> bw) list \<Rightarrow> bool" where
  "jtail fs \<longleftrightarrow> (\<exists>s. writes (steps fs) (s @ ''}'') \<and> members s)"

lemma jval_object: "jtail fs \<Longrightarrow> jval (steps (bw_putc (CHR ''{'') # fs))"
  unfolding jval_def jtail_def
  using writes_steps_Cons [OF writes_putc] json_elements_members.object by fastforce

lemma json_array: "s = [] \<or> elements s \<Longrightarrow> json (CHR ''['' # s @ '']'')"
  using json_elements_members.array json_elements_members.empty_array by auto

lemma jval_array: "jitems g \<Longrightarrow> jval (steps [bw_putc (CHR ''[''), g, bw_putc (CHR '']'')])"
proof -
  assume "jitems g"
  then obtain s where s: "writes g s" "s = [] \<or> elements s" by (auto simp: jitems_def)
  have "writes (steps [bw_putc (CHR ''[''), g, bw_putc (CHR '']'')]) (''['' @ s @ '']'' @ [])"
    by (intro writes_steps_Cons writes_steps_Nil writes_putc s(1))
  then show ?thesis using json_array [OF s(2)] by (auto simp: jval_def)
qed

lemma jval_empty_array: "jval (steps [bw_putc (CHR ''[''), bw_putc (CHR '']'')])"
  using writes_steps_Cons [OF writes_putc writes_steps_Cons [OF writes_putc writes_steps_Nil]]
    json_elements_members.empty_array by (force simp: jval_def)

lemma jval_steps: "jval f \<longleftrightarrow> jval (steps [f])"
  by (simp add: jval_def writes_def steps_def)

lemma jtail_end:
  assumes "jval f"
  shows "jtail [bw_putstr (Some k), bw_putc (CHR '':''), f, bw_putc (CHR ''}'')]"
proof -
  obtain s where s: "writes f s" "json s" using assms by (auto simp: jval_def)
  have "writes (steps [bw_putstr (Some k), bw_putc (CHR '':''), f, bw_putc (CHR ''}'')]) (json_string k @ '':'' @ s @ ''}'' @ [])"
    using writes_putstr [of "Some k"] by (intro writes_steps_Cons writes_steps_Nil writes_putc s(1)) simp
  moreover have "members (json_string k @ '':'' @ s)"
    using json_elements_members.one_member [OF json_chars_escaped s(2), of k] by (simp add: json_string_def)
  ultimately show ?thesis unfolding jtail_def by force
qed

lemma jtail_more:
  assumes "jval f" and "jtail fs"
  shows "jtail (bw_putstr (Some k) # bw_putc (CHR '':'') # f # bw_putc (CHR '','') # fs)"
proof -
  obtain s t where s: "writes f s" "json s" and t: "writes (steps fs) (t @ ''}'')" "members t"
    using assms by (auto simp: jval_def jtail_def)
  have "writes (steps (bw_putstr (Some k) # bw_putc (CHR '':'') # f # bw_putc (CHR '','') # fs))
      (json_string k @ '':'' @ s @ '','' @ t @ ''}'')"
    using writes_putstr [of "Some k"] by (intro writes_steps_Cons writes_putc s(1) t(1)) simp
  moreover have "members (json_string k @ '':'' @ s @ '','' @ t)"
    using json_elements_members.more_members [OF json_chars_escaped s(2) t(2), of k] by (simp add: json_string_def)
  ultimately show ?thesis unfolding jtail_def by force
qed

lemma steps_nest: "steps (fs @ gs) = steps (steps fs # gs)"
  by (simp add: steps_def fun_eq_iff)

lemma jtail_steps: "steps fs = steps gs \<Longrightarrow> jtail fs = jtail gs"
  by (simp add: jtail_def)

lemma jtail_array_end:
  assumes "jitems g"
  shows "jtail [bw_putstr (Some k), bw_putc (CHR '':''), bw_putc (CHR ''[''), g, bw_putc (CHR '']''), bw_putc (CHR ''}'')]"
  using jtail_end [OF jval_array [OF assms], of k]
  by (subst jtail_steps [where gs = "[bw_putstr (Some k), bw_putc (CHR '':''), steps [bw_putc (CHR ''[''), g, bw_putc (CHR '']'')], bw_putc (CHR ''}'')]"])
    (simp_all add: steps_def fun_eq_iff)

lemma jtail_array_more:
  assumes "jitems g" and "jtail fs"
  shows "jtail (bw_putstr (Some k) # bw_putc (CHR '':'') # bw_putc (CHR ''['') # g # bw_putc (CHR '']'') # bw_putc (CHR '','') # fs)"
  using jtail_more [OF jval_array [OF assms(1)] assms(2), of k]
  by (subst jtail_steps [where gs = "bw_putstr (Some k) # bw_putc (CHR '':'') # steps [bw_putc (CHR ''[''), g, bw_putc (CHR '']'')] # bw_putc (CHR '','') # fs"])
    (simp_all add: steps_def fun_eq_iff)

lemma jval_putstr: "jval (bw_putstr s)"
proof -
  have "json (quote # ''null'' @ [quote])"
    by (intro json_elements_members.str) (auto intro!: json_chars.intros simp: byte_def)
  then show ?thesis using writes_putstr [of s] json_json_string by (auto simp: jval_def split: option.splits)
qed

lemma jval_putu: "jval (bw_putu v)"
  using writes_putu json_decimal by (auto simp: jval_def)

lemma emit_sep_text:
  assumes "\<forall>x \<in> set xs. jval (f x)"
  shows "\<exists>s. writes (emit_sep False f xs) s \<and> (s = [] \<or> (\<exists>t. s = CHR '','' # t \<and> elements t))"
  using assms
proof (induction xs)
  case Nil
  then show ?case by (intro exI [of _ "[]"]) (simp add: writes_def)
next
  case (Cons x xs)
  then obtain s t where s: "writes (emit_sep False f xs) s" "s = [] \<or> (\<exists>t. s = CHR '','' # t \<and> elements t)"
    and t: "writes (f x) t" "json t" by (auto simp: jval_def)
  have "writes (emit_sep False f (x # xs)) (CHR '','' # t @ s)" using s t by (simp add: writes_def)
  moreover have "elements (t @ s)"
    using s(2) t(2) json_elements_members.one_element json_elements_members.more_elements by auto
  ultimately show ?case by blast
qed

lemma jitems_sep:
  assumes "\<And>x. x \<in> set xs \<Longrightarrow> jval (f x)"
  shows "jitems (emit_sep True f xs)"
proof (cases xs)
  case Nil
  then show ?thesis by (auto simp: jitems_def writes_def intro!: exI [of _ "[]"])
next
  case (Cons x ys)
  have "\<forall>y \<in> set ys. jval (f y)" "jval (f x)" using assms Cons by simp_all
  with emit_sep_text [of ys f] obtain s t where
    s: "writes (emit_sep False f ys) s" "s = [] \<or> (\<exists>t. s = CHR '','' # t \<and> elements t)"
    and t: "writes (f x) t" "json t" unfolding jval_def by blast
  have "writes (emit_sep True f xs) (t @ s)" using s t Cons by (simp add: writes_def)
  moreover have "elements (t @ s)"
    using s(2) t(2) json_elements_members.one_element json_elements_members.more_elements by auto
  ultimately show ?thesis by (auto simp: jitems_def)
qed

lemmas json_emitters = jtail_array_end jtail_array_more jtail_end jtail_more jval_object jval_empty_array
  jval_putstr jval_putu jitems_sep

lemma decimal_plain: "json_chars (decimal v)"
proof -
  have *: "json_chars s" if "list_all isdigit s" for s
    using that by (induction s) (auto intro!: json_chars.intros simp: isdigit_def byte_def)
  have "list_all isdigit (decimal v)"
    using digits_rev_digits [of v] by (simp add: decimal_def list_all_iff isdigit_def byte_def)
  then show ?thesis by (rule *)
qed

lemma jval_label: "jval (emit_label t opts)"
proof -
  have "writes (steps [bw_putc quote, bw_putu t, bw_putc quote]) ([quote] @ decimal t @ [quote] @ [])"
    by (intro writes_steps_Cons writes_steps_Nil writes_putc writes_putu)
  moreover have "json (quote # decimal t @ [quote])"
    by (intro json_elements_members.str decimal_plain)
  ultimately have n: "jval (steps [bw_putc quote, bw_putu t, bw_putc quote])" by (auto simp: jval_def)
  show ?thesis
  proof (cases "\<exists>f name. opts = Some f \<and> f t = Some name")
    case True
    then obtain f name where "opts = Some f" "f t = Some name" by blast
    then have "emit_label t opts = bw_putstr (Some name)" by (simp add: emit_label_def fun_eq_iff)
    then show ?thesis by (simp add: jval_putstr)
  next
    case False
    then have "emit_label t opts = steps [bw_putc quote, bw_putu t, bw_putc quote]"
      by (auto simp: emit_label_def fun_eq_iff split: option.split)
    then show ?thesis using n by simp
  qed
qed

lemma jval_sources: "jval (emit_sources_for_label df n label opts)"
  unfolding emit_sources_for_label_def
  by (rule jval_array, rule jitems_sep) (auto intro!: json_emitters jval_label)

lemma jval_originators: "jval (emit_originators_for_label df sink label opts)"
  unfolding emit_originators_for_label_def Let_def
  by (simp, intro conjI impI, rule jval_empty_array)
    (rule jval_array, rule jitems_sep, intro json_emitters jval_label)

lemma jval_group: "\<not> plan_label_set_empty s \<Longrightarrow> jval (emit_offense_group df n s kind opts)"
  unfolding emit_offense_group_def Let_def
  by (simp, intro json_emitters jval_label jval_sources jval_originators)

lemma jval_suppression: "jval (emit_suppression df opts i)"
  unfolding emit_suppression_def by (intro json_emitters) (auto intro: jval_group)

lemma jval_record: "jval (emit_record df opts joined node flow)"
  unfolding emit_record_def by (intro json_emitters jval_suppression)

section \<open>The lineage search\<close>

lemma plan_edges_eq: "plan_edges p = map (\<lambda>e. (edge_from e, edge_to e)) (edges p)"
proof -
  have "List.map_filter (dataflow_plan_get_edge p) xs = map (\<lambda>i. (edge_from (edges p ! i), edge_to (edges p ! i))) xs"
    if "set xs \<subseteq> {..<n_edges p}" for xs
    using that by (induction xs) (auto simp: dataflow_plan_get_edge_def List.map_filter_simps)
  then have "plan_edges p = map (\<lambda>i. (edge_from (edges p ! i), edge_to (edges p ! i))) [0..<n_edges p]"
    by (simp add: plan_edges_def)
  also have "\<dots> = map (\<lambda>e. (edge_from e, edge_to e)) (map ((!) (edges p)) [0..<n_edges p])" by simp
  finally show ?thesis by (simp only: map_nth)
qed

lemma set_plan_edges: "set (plan_edges p) = plan_rel p"
  by (simp add: plan_edges_eq plan_rel_def)

text \<open>One step of the search backwards along edges whose source carries the label.\<close>

definition carry_rel :: "plan_dataflow \<Rightarrow> plan_label \<Rightarrow> (nat \<times> nat) set" where
  "carry_rel df label = {(u, v) \<in> plan_rel (df_plan df). u < n_nodes (df_plan df) \<and> carries df u label}"

lemma walk_preds_correct:
  assumes "walk_preds n df label u es (set queue) queue = (vis', queue')" and "distinct queue"
  shows "\<exists>ext. queue' = queue @ ext \<and> vis' = set queue' \<and> distinct queue' \<and>
    set queue' = set queue \<union> {v. (v, u) \<in> set es \<and> v < n \<and> carries df v label}"
  using assms
proof (induction es arbitrary: queue)
  case Nil
  then show ?case by auto
next
  case (Cons e es)
  obtain v t where e: "e = (v, t)" by (cases e)
  show ?case
  proof (cases "t = u \<and> v < n \<and> v \<notin> set queue \<and> carries df v label")
    case True
    then have "walk_preds n df label u es (set (queue @ [v])) (queue @ [v]) = (vis', queue')"
      using Cons.prems(1) e by simp
    from Cons.IH [OF this] Cons.prems(2) True e show ?thesis by auto
  next
    case False
    then have "walk_preds n df label u es (set queue) queue = (vis', queue')"
      using Cons.prems(1) e by (auto split: if_splits)
    from Cons.IH [OF this Cons.prems(2)] False e show ?thesis by auto
  qed
qed

definition lineage_spec :: "plan_dataflow \<Rightarrow> plan_label \<Rightarrow> nat \<Rightarrow> nat set" where
  "lineage_spec df label sink =
     {u. u \<noteq> sink \<and> originates df u label \<and> (u, sink) \<in> (carry_rel df label)\<^sup>*}"

lemma lineage_end:
  assumes "take qh queue = queue" and "sink \<in> set queue"
    and "\<forall>u \<in> set queue. (u, sink) \<in> (carry_rel df label)\<^sup>*"
    and "\<forall>u \<in> set (take qh queue). \<forall>v. (v, u) \<in> carry_rel df label \<longrightarrow> v \<in> set queue"
    and "is_orig = {u \<in> set (take qh queue). u \<noteq> sink \<and> originates df u label}"
  shows "is_orig = lineage_spec df label sink"
proof -
  have "u \<in> set queue" if "(u, sink) \<in> (carry_rel df label)\<^sup>*" for u
    using rtrancl_into_closed [OF that assms(2)] assms(4) unfolding assms(1) by blast
  then show ?thesis unfolding assms(5) assms(1) lineage_spec_def using assms(3) by blast
qed

lemma lineage_run:
  assumes n: "n = n_nodes (df_plan df)"
    and "n \<le> fuel + qh" and "qh \<le> length queue" and "distinct queue" and "set queue \<subseteq> {..<n}" and "sink \<in> set queue"
    and "\<forall>u \<in> set queue. (u, sink) \<in> (carry_rel df label)\<^sup>*"
    and "\<forall>u \<in> set (take qh queue). \<forall>v. (v, u) \<in> carry_rel df label \<longrightarrow> v \<in> set queue"
    and "is_orig = {u \<in> set (take qh queue). u \<noteq> sink \<and> originates df u label}"
  shows "lineage fuel n df label sink (set queue) queue qh is_orig = Some (lineage_spec df label sink)"
  using assms(2-)
proof (induction fuel arbitrary: queue qh is_orig)
  case 0
  have "length queue \<le> n" using 0 distinct_bounded_length [of queue n] by auto
  then have q: "length queue \<le> qh" using 0 by simp
  then have t: "take qh queue = queue" by simp
  have "is_orig = lineage_spec df label sink" using lineage_end [OF t] 0 by blast
  then show ?case using q by (simp add: lineage.simps)
next
  case (Suc fuel)
  show ?case
  proof (cases "qh < length queue")
    case False
    then have t: "take qh queue = queue" by simp
    have "is_orig = lineage_spec df label sink" using lineage_end [OF t] Suc.prems by blast
    then show ?thesis using False by (simp add: lineage.simps)
  next
    case True
    let ?u = "queue ! qh"
    let ?o = "if ?u \<noteq> sink \<and> originates df ?u label then insert ?u is_orig else is_orig"
    obtain vis' queue' where w: "walk_preds n df label ?u (plan_edges (df_plan df)) (set queue) queue = (vis', queue')" by force
    from walk_preds_correct [OF w Suc.prems(3)] obtain ext where
      q: "queue' = queue @ ext" "vis' = set queue'" "distinct queue'"
      and s: "set queue' = set queue \<union> {v. (v, ?u) \<in> carry_rel df label}"
      by (auto simp: set_plan_edges carry_rel_def n)
    have u: "?u \<in> set queue" using True by simp
    have tk: "take (Suc qh) queue' = take qh queue @ [?u]" using True q(1) by (simp add: take_Suc_conv_app_nth)
    have "lineage fuel n df label sink (set queue') queue' (Suc qh) ?o = Some (lineage_spec df label sink)"
    proof (rule Suc.IH)
      show "\<forall>v \<in> set queue'. (v, sink) \<in> (carry_rel df label)\<^sup>*"
        using s u Suc.prems(6) by (auto intro: converse_rtrancl_into_rtrancl)
      show "\<forall>u \<in> set (take (Suc qh) queue'). \<forall>v. (v, u) \<in> carry_rel df label \<longrightarrow> v \<in> set queue'"
        using s Suc.prems(7) by (auto simp: tk)
      show "?o = {u \<in> set (take (Suc qh) queue'). u \<noteq> sink \<and> originates df u label}"
        using Suc.prems(8) by (auto simp: tk)
      show "set queue' \<subseteq> {..<n}" using s Suc.prems(4) n by (auto simp: carry_rel_def)
    qed (use Suc.prems True q in auto)
    then show ?thesis using True w q(2) by (subst lineage.simps) (simp add: Let_def)
  qed
qed

lemma lineage_correct:
  assumes "n = n_nodes (df_plan df)" and "sink < n"
  shows "lineage n n df label sink {sink} [sink] 0 {} = Some (lineage_spec df label sink)"
  using lineage_run [OF assms(1), of n 0 "[sink]" sink label "{}"] assms by simp

text \<open>On a companion whose verdict is computed, carrying is emitting.\<close>

lemma computed_carries:
  assumes inv: "df_inv p df" and acyc: "acyclic (plan_rel p)"
    and v: "plan_dataflow_flow_verdict (Some df) = (d, Some df')"
  shows "df_plan df' = p" and "flow_computed df df'" and "same_inputs df df'" and "wf_dataflow df'" and "computed df'"
    and "carries df' u l \<longleftrightarrow> u < n_nodes p \<and> emits df l u"
    and "originates df' u l \<longleftrightarrow> u < n_nodes p \<and> l \<in> lset (origin df u)"
proof -
  from verdict_on_inv [OF inv] v acyc have
    1: "same_inputs df df'" "computed df'" "df_inv p df'" "flow_computed df df'" by auto
  then show "flow_computed df df'" "same_inputs df df'" "computed df'" "df_plan df' = p" "wf_dataflow df'"
    by (simp_all add: df_inv_def)
  have p: "df_plan df = p" "df_plan df' = p" using inv 1(3) by (simp_all add: df_inv_def)
  show "carries df' u l \<longleftrightarrow> u < n_nodes p \<and> emits df l u"
    using 1(2,4) p
    by (auto simp: carries_def plan_dataflow_node_outbound_def node_set_def exec_plan_node_count_def flow_computed_def lab.test)
  have "wf_lset (origin df u)" "origin df' = origin df"
    using inv 1(1) by (simp_all add: df_inv_def wf_dataflow_def same_inputs_def)
  then show "originates df' u l \<longleftrightarrow> u < n_nodes p \<and> l \<in> lset (origin df u)"
    using p by (auto simp: originates_def plan_dataflow_node_origin_def node_set_def exec_plan_node_count_def lab.test)
qed

lemma emits_origin:
  "emits df l u \<Longrightarrow> \<exists>w. l \<in> lset (origin df w) \<and> (w, u) \<in> {(a, b) \<in> plan_rel (df_plan df). emits df l a}\<^sup>*"
proof (induction rule: emits.induct)
  case (originate l u)
  then show ?case by blast
next
  case (propagate l w u)
  then obtain o' where "l \<in> lset (origin df o')" "(o', w) \<in> {(a, b) \<in> plan_rel (df_plan df). emits df l a}\<^sup>*" by blast
  moreover have "(w, u) \<in> {(a, b) \<in> plan_rel (df_plan df). emits df l a}" using propagate by simp
  ultimately show ?case by (meson rtrancl_into_rtrancl)
qed

lemma reaches_has_lineage:
  assumes inv: "df_inv p df" and acyc: "acyclic (plan_rel p)"
    and v: "plan_dataflow_flow_verdict (Some df) = (d, Some df')" and l: "l \<in> reaches df sink"
  shows "lineage_spec df' l sink \<noteq> {}"
proof -
  note cc = computed_carries [OF inv acyc v]
  have p: "df_plan df = p" and wf: "wf_plan p" using inv by (auto simp: df_inv_def wf_dataflow_def)
  let ?R = "{(a, b) \<in> plan_rel p. emits df l a}"
  have R: "carry_rel df' l = ?R"
    using cc(1) plan_rel_bounded [OF wf] by (auto simp: carry_rel_def cc(6))
  from l obtain u where u: "(u, sink) \<in> plan_rel p" "emits df l u" by (auto simp: reaches_def p)
  from emits_origin [OF u(2)] obtain w where w: "l \<in> lset (origin df w)" "(w, u) \<in> ?R\<^sup>*" by (auto simp: p)
  have us: "(u, sink) \<in> ?R" using u by simp
  have ws: "(w, sink) \<in> ?R\<^sup>+" using rtrancl_into_trancl1 [OF w(2) us] .
  have "?R \<subseteq> plan_rel p" by auto
  then have "(w, sink) \<in> (plan_rel p)\<^sup>+" using ws trancl_mono by blast
  then have "w \<noteq> sink" using acyc by (auto simp: acyclic_def)
  moreover have "w < n_nodes p"
    using tranclD [OF \<open>(w, sink) \<in> (plan_rel p)\<^sup>+\<close>] plan_rel_bounded [OF wf] by blast
  ultimately show ?thesis using ws w(1) by (auto simp: lineage_spec_def cc(7) R intro: trancl_into_rtrancl)
qed

lemma offense_sets:
  assumes "wf_dataflow df" and "wf_lset (inbound df i)" and "(s, kind) \<in> set (offenses df i)"
  shows "wf_lset s \<and> lset s =
    (if kind = ''deny_in'' then lset (inbound df i) \<inter> lset (deny_in df i)
     else if kind = ''unknown_in'' then lset (inbound df i) \<inter> lset (unknown_in df i)
     else lset (inbound df i) \<inter> lset (sticky df) - (lset (deny_in df i) \<union> lset (unknown_in df i) \<union> lset (permit_in df i)))"
proof -
  have wf: "wf_lset (deny_in df i)" "wf_lset (unknown_in df i)" "wf_lset (permit_in df i)" "wf_lset (sticky df)"
    using assms(1) by (simp_all add: wf_dataflow_def)
  note un = lab.union [of "plan_label_set_union_into (deny_in df i) (unknown_in df i)" "permit_in df i"] lab.union [OF wf(1,2)]
  note mi = lab.minus [of "plan_label_set_intersect_into (inbound df i) (sticky df)"
      "plan_label_set_union_into (plan_label_set_union_into (deny_in df i) (unknown_in df i)) (permit_in df i)"]
  show ?thesis
    using assms(2,3) wf un mi lab.inter [OF assms(2) wf(1)] lab.inter [OF assms(2) wf(2)] lab.inter [OF assms(2) wf(4)]
    unfolding offenses_def Let_def plan_label_set_union_into_def [symmetric] plan_label_set_intersect_into_def [symmetric]
      plan_label_set_minus_into_def [symmetric] by auto
qed

lemma pathology_json:
  assumes "plan_built p" and "df_reach p df"
  shows "\<exists>s df'. json s \<and> df_reach p df' \<and>
    (\<forall>bufsz > 0. plan_dataflow_emit_pathology_buf df opts bufsz =
       Some (if length s < bufsz then Some s else None, df'))"
proof -
  have wf: "wf_plan p" using assms(1) by (rule plan_built_wf)
  have inv: "df_inv p df" using df_reach_inv [OF assms(2) wf] .
  then obtain df' where v: "plan_dataflow_flow_verdict (Some df) = (flow_verdict_spec df, Some df')" and i: "df_inv p df'"
    using verdict_on_inv by blast
  have node: "exec_plan_verify (plan_dataflow_get_plan (Some df')) = Some (plan_verdict_spec p)"
    using i exec_plan_verify_spec [OF wf] by (simp add: plan_dataflow_get_plan_def df_inv_def)
  obtain s where s: "json s"
    "writes (emit_record df' opts (plan_decision_join (plan_verdict_spec p) (flow_verdict_spec df)) (plan_verdict_spec p)
       (flow_verdict_spec df)) s" using jval_record unfolding jval_def by blast
  have "plan_dataflow_emit_pathology_buf df opts bufsz = Some (if length s < bufsz then Some s else None, df')"
    if "bufsz > 0" for bufsz
    using that s(2) by (auto simp: plan_dataflow_emit_pathology_buf_def v node writes_def bw_puts_init Let_def)
  then show ?thesis using s(1) df_reach.verdict [OF assms(2) v] by blast
qed

section \<open>Properties\<close>

text \<open>Whatever the plan, the labels and the names the callback gives them, the record of a refusal is
  one JSON text that does not depend on the buffer: a buffer with room for it and the NUL receives it
  whole, a smaller one gets -1 and is not written past its end.\<close>

theorem pathology_record_json:
  assumes "plan_built p" and "df_reach p df"
  shows "\<exists>s df'. json s \<and> df_reach p df' \<and>
    (\<forall>bufsz > 0. plan_dataflow_emit_pathology_buf df opts bufsz =
       Some (if length s < bufsz then Some s else None, df'))"
  using assms by (rule pathology_json)

theorem pathology_record_json_witness:
  "\<exists>s. json s \<and> (\<forall>bufsz > 0. fst (the (plan_dataflow_emit_pathology_buf pair_df None bufsz)) =
     (if length s < bufsz then Some s else None))"
proof -
  obtain s df' where s: "json s" "\<forall>bufsz > 0. plan_dataflow_emit_pathology_buf pair_df None bufsz =
       Some (if length s < bufsz then Some s else None, df')"
    using pathology_record_json [OF pair_built pair_reach, of None] by blast
  then show ?thesis by (intro exI [of _ s]) simp
qed


definition leak_df :: plan_dataflow where
  "leak_df = snd (plan_dataflow_add_deny_in (snd (plan_dataflow_add_origin pair_df 0 3)) 1 3)"

lemma leak_reach: "df_reach (pair_plan PLAN_DEC_SATISFIED PLAN_DEC_SATISFIED) leak_df"
  unfolding leak_df_def by (intro df_reach_snd pair_reach)


end
