(* ===== verification/Warden_Binding.thy ===== *)
theory Warden_Binding
  imports Flow_Pathology
begin

text \<open>
  The gate the Warden calls once per submitted plan: \<^verbatim>\<open>src/v1_7/plan_warden_binding.c\<close>. It makes a
  companion for the plan, populates it from the policy, computes both axes, joins them, and writes the
  record of a refusal into the caller's buffer.
\<close>

record plan_warden_request =
  req_plan :: "exec_plan option"
  req_actions :: "plan_action_desc list option"
  req_policy :: "plan_label_policy option"
  req_path_opts :: plan_pathology_opts
  req_pathology_buf :: bool
  req_pathology_buf_sz :: nat

text \<open>\<open>req_pathology_buf\<close> says whether the caller supplies a buffer; \<open>req_actions\<close> carries \<open>n_actions\<close>
  as its length. The text written to the buffer is part of the response here.\<close>

record plan_warden_response =
  verdict :: plan_decision
  resp_node_axis :: plan_decision
  resp_flow_axis :: plan_decision
  pathology_len :: nat
  pathology_overflow :: bool
  pathology_emitted :: bool
  pathology_text :: "string option"

definition response_init_refuse :: plan_warden_response where
  "response_init_refuse =
     \<lparr>verdict = PLAN_DEC_UNKNOWN, resp_node_axis = PLAN_DEC_UNKNOWN, resp_flow_axis = PLAN_DEC_UNKNOWN,
      pathology_len = 0, pathology_overflow = False, pathology_emitted = False, pathology_text = None\<rparr>"

text \<open>The last block of \<open>plan_warden_verify\<close>: the record of a refusal.\<close>

definition report_refusal ::
  "plan_warden_request \<Rightarrow> plan_dataflow \<Rightarrow> plan_warden_response \<Rightarrow> plan_warden_response option" where
  "report_refusal req df resp =
     (if verdict resp \<noteq> PLAN_DEC_SATISFIED \<and> req_pathology_buf req \<and> req_pathology_buf_sz req > 0 then
        (case plan_dataflow_emit_pathology_buf df (req_path_opts req) (req_pathology_buf_sz req) of
           None \<Rightarrow> None
         | Some (None, df') \<Rightarrow>
             Some (resp\<lparr>pathology_overflow := True, pathology_len := 0, pathology_emitted := False\<rparr>)
         | Some (Some s, df') \<Rightarrow>
             Some (resp\<lparr>pathology_len := length s, pathology_overflow := False, pathology_emitted := True,
                        pathology_text := Some s\<rparr>))
      else Some resp)"

text \<open>The result is the return value and the response; \<^const>\<open>None\<close> would be an evaluator that reads outside
  its arrays. The first argument says whether the companion's allocation succeeds.\<close>

definition plan_warden_verify ::
  "bool \<Rightarrow> plan_warden_request option \<Rightarrow> (int \<times> plan_warden_response) option" where
  "plan_warden_verify alloc_ok reqo =
     (case reqo of
        None \<Rightarrow> Some (-1, response_init_refuse)
      | Some req \<Rightarrow>
          if req_plan req = None \<or> req_actions req = None \<or> req_policy req = None
          then Some (-1, response_init_refuse)
          else
            (case plan_dataflow_new alloc_ok (req_plan req) of
               None \<Rightarrow> Some (-1, response_init_refuse)
             | Some df0 \<Rightarrow>
                 let (rc, df) = plan_dataflow_populate df0 (req_actions req) (req_policy req) in
                 if rc \<noteq> 0 then Some (-1, response_init_refuse)
                 else
                   (case exec_plan_verify (req_plan req) of
                      None \<Rightarrow> None
                    | Some node \<Rightarrow>
                        (case plan_dataflow_flow_verdict (Some df) of
                           (flow, None) \<Rightarrow> None
                         | (flow, Some df') \<Rightarrow>
                             map_option (Pair 0)
                               (report_refusal req df'
                                  (response_init_refuse\<lparr>resp_node_axis := node, resp_flow_axis := flow,
                                     verdict := plan_decision_join node flow\<rparr>))))))"

definition plan_warden_authorized :: "plan_warden_response option \<Rightarrow> bool" where
  "plan_warden_authorized resp = (case resp of None \<Rightarrow> False | Some r \<Rightarrow> verdict r = PLAN_DEC_SATISFIED)"

section \<open>What a request is checked against\<close>

text \<open>The companion the request stands for, as a specification: the labels of node \<open>v\<close> are those the table
  gives to action \<open>v\<close>.\<close>

definition class_of :: "plan_label_table \<Rightarrow> plan_action_desc list \<Rightarrow> nat \<Rightarrow> plan_label_class" where
  "class_of tbl acts v = snd (plan_label_policy_from_table tbl (acts ! v) empty_class)"

inductive flows :: "exec_plan \<Rightarrow> (nat \<Rightarrow> plan_label_class) \<Rightarrow> plan_label \<Rightarrow> nat \<Rightarrow> bool"
  for p :: exec_plan and cls :: "nat \<Rightarrow> plan_label_class" where
  origin: "u < n_nodes p \<Longrightarrow> l \<in> lset (cls_origin (cls u)) \<Longrightarrow> flows p cls l u"
| along: "flows p cls l w \<Longrightarrow> (w, u) \<in> plan_rel p \<Longrightarrow> l \<notin> lset (cls_declassify (cls u)) \<Longrightarrow> flows p cls l u"

lemma new_inputs:
  assumes "plan_dataflow_new ok (Some p) = Some df"
  shows "df_plan df = p" and "node_inputs df v = empty_class" and "lset (sticky df) = {}" and "\<not> computed df"
  using assms
  by (auto simp: plan_dataflow_new_def node_inputs_def empty_class_def lab.clear split: if_splits)

text \<open>Populating a fresh companion from a table.\<close>

lemma fresh_populate:
  assumes wf: "wf_plan p" "wf_table tbl" "wf_lset st" and new: "plan_dataflow_new True (Some p) = Some df0"
    and len: "length acts = n_nodes p"
    and ok: "\<forall>a \<in> set acts. fst (plan_label_policy_from_table tbl a empty_class) = 0"
  shows "\<exists>df. plan_dataflow_populate df0 (Some acts)
       (Some \<lparr>classify = Some (plan_label_policy_from_table tbl), pol_sticky = st\<rparr>) = (0, df) \<and>
     df_reach p df \<and> lset (sticky df) = lset st \<and>
     (\<forall>v < n_nodes p. lset (origin df v) = lset (cls_origin (class_of tbl acts v)) \<and>
        lset (deny_in df v) = lset (cls_deny_in (class_of tbl acts v)) \<and>
        lset (unknown_in df v) = lset (cls_unknown_in (class_of tbl acts v)) \<and>
        lset (permit_in df v) = lset (cls_permit_in (class_of tbl acts v)) \<and>
        lset (declassify df v) = lset (cls_declassify (class_of tbl acts v)))"
proof -
  note ni = new_inputs [OF new]
  have wfd: "wf_dataflow df0" using wf_dataflow_new [OF new wf(1)] by (simp add: df_inv_def)
  have e: "lset (cls_origin empty_class) = {}" "lset (cls_deny_in empty_class) = {}" "lset (cls_unknown_in empty_class) = {}"
    "lset (cls_permit_in empty_class) = {}" "lset (cls_declassify empty_class) = {}"
    by (simp_all add: empty_class_def lab.clear)
  have z: "lset (origin df0 v) = {}" "lset (deny_in df0 v) = {}" "lset (unknown_in df0 v) = {}" "lset (permit_in df0 v) = {}"
    "lset (declassify df0 v) = {}" for v
    using ni(2) [of v] e by (simp_all add: node_inputs_def empty_class_def)
  from table.populate_effect [OF wfd wf(2,3) _ ok] len ni(1) obtain df where
    pop: "plan_dataflow_populate df0 (Some acts)
       (Some \<lparr>classify = Some (plan_label_policy_from_table tbl), pol_sticky = st\<rparr>) = (0, df)"
    and s: "lset (sticky df) = lset (sticky df0) \<union> lset st"
    and c: "\<forall>v < length acts. classified_as df0 df v (snd (plan_label_policy_from_table tbl (acts ! v) empty_class))" by auto
  have "df_reach p df0" using new by (rule df_reach.fresh)
  from populate_reach [OF this, of "Some acts" "Some \<lparr>classify = Some (plan_label_policy_from_table tbl), pol_sticky = st\<rparr>"]
  have "df_reach p df" by (simp add: pop)
  then show ?thesis using pop s ni(3) c len by (auto simp: classified_as_def class_of_def z)
qed

lemma flows_bounded: "wf_plan p \<Longrightarrow> flows p cls l u \<Longrightarrow> u < n_nodes p"
  by (auto elim: flows.cases dest: plan_rel_bounded)

lemma flows_emits:
  assumes wf: "wf_plan p" and p: "df_plan df = p"
    and c: "\<forall>v < n_nodes p. lset (origin df v) = lset (cls_origin (cls v)) \<and> lset (declassify df v) = lset (cls_declassify (cls v))"
    and u: "u < n_nodes p"
  shows "emits df l u \<longleftrightarrow> flows p cls l u"
proof
  assume "emits df l u"
  then show "flows p cls l u" using u
  proof (induction rule: emits.induct)
    case (originate l u)
    then show ?case using c by (auto intro: flows.origin)
  next
    case (propagate l w u)
    then have "w < n_nodes p" using plan_rel_bounded [OF wf] p by blast
    then show ?case using propagate c p by (auto intro: flows.along)
  qed
next
  assume "flows p cls l u"
  then show "emits df l u"
  proof (induction rule: flows.induct)
    case (origin u l)
    then show ?case using c by (auto intro: emits.originate)
  next
    case (along l w u)
    then have "u < n_nodes p" using plan_rel_bounded [OF wf] by blast
    then show ?case using along c p by (auto intro: emits.propagate)
  qed
qed

lemma report_refusal_total:
  assumes "plan_built p" and "df_reach p df"
  shows "\<exists>r. report_refusal req df resp = Some r \<and> verdict r = verdict resp \<and> resp_node_axis r = resp_node_axis resp \<and>
    resp_flow_axis r = resp_flow_axis resp \<and>
    (verdict resp = PLAN_DEC_SATISFIED \<longrightarrow> r = resp) \<and>
    (pathology_text resp = None \<longrightarrow> (case pathology_text r of None \<Rightarrow> True | Some s \<Rightarrow> json s \<and> length s < req_pathology_buf_sz req))"
proof -
  obtain s df' where s: "json s" "\<forall>bufsz > 0. plan_dataflow_emit_pathology_buf df (req_path_opts req) bufsz =
      Some (if length s < bufsz then Some s else None, df')"
    using pathology_json [OF assms] by blast
  then show ?thesis by (auto simp: report_refusal_def)
qed

section \<open>Properties\<close>

definition gate_policy :: "plan_label_table \<Rightarrow> plan_label_set \<Rightarrow> plan_label_policy" where
  "gate_policy tbl st = \<lparr>classify = Some (plan_label_policy_from_table tbl), pol_sticky = st\<rparr>"

text \<open>What a plan, its actions and a policy must satisfy, with no mention of how it is checked.\<close>

definition gate_spec :: "exec_plan \<Rightarrow> plan_action_desc list \<Rightarrow> plan_label_table \<Rightarrow> plan_label_set \<Rightarrow> bool" where
  "gate_spec p acts tbl st \<longleftrightarrow>
     length acts = n_nodes p \<and>
     (\<forall>a \<in> set acts. fst (plan_label_policy_from_table tbl a empty_class) = 0) \<and>
     nodes p \<noteq> [] \<and> acyclic (plan_rel p) \<and>
     (\<forall>x \<in> set (nodes p). node_decision x = PLAN_DEC_SATISFIED) \<and>
     (\<forall>u v l. (u, v) \<in> plan_rel p \<and> flows p (class_of tbl acts) l u \<longrightarrow>
        l \<notin> lset (cls_deny_in (class_of tbl acts v)) \<and> l \<notin> lset (cls_unknown_in (class_of tbl acts v)) \<and>
        (l \<in> lset st \<longrightarrow> l \<in> lset (cls_permit_in (class_of tbl acts v))))"

lemma gate_refused:
  assumes "wf_plan p" and "wf_table tbl" and "wf_lset st" and "plan_dataflow_new True (Some p) = Some df0"
    and "\<not> (length acts = n_nodes p \<and> (\<forall>a \<in> set acts. fst (plan_label_policy_from_table tbl a empty_class) = 0))"
  shows "fst (plan_dataflow_populate df0 (Some acts) (Some (gate_policy tbl st))) = -1"
proof (cases "length acts = n_nodes p")
  case True
  have "wf_dataflow df0" using wf_dataflow_new [OF assms(4,1)] by (simp add: df_inv_def)
  from table.populate_refused [OF this assms(2,3)] assms(5) True new_inputs(1) [OF assms(4)]
  show ?thesis unfolding gate_policy_def by auto
next
  case False
  then show ?thesis
    using new_inputs(1) [OF assms(4)]
    by (simp add: plan_dataflow_populate_def gate_policy_def plan_dataflow_get_plan_def exec_plan_node_count_def)
qed

lemma edge_quant:
  fixes n :: nat
  assumes "\<And>v l. v < n \<Longrightarrow> A v l \<longleftrightarrow> B v l" and "\<And>l v. l \<in> R v \<longleftrightarrow> (\<exists>u. (u, v) \<in> E \<and> F l u)"
    and "\<And>u v. (u, v) \<in> E \<Longrightarrow> u < n \<and> v < n"
  shows "(\<forall>v < n. \<forall>l \<in> R v. A v l) \<longleftrightarrow> (\<forall>u v l. (u, v) \<in> E \<and> F l u \<longrightarrow> B v l)"
proof
  assume "\<forall>v < n. \<forall>l \<in> R v. A v l"
  then show "\<forall>u v l. (u, v) \<in> E \<and> F l u \<longrightarrow> B v l" using assms by blast
next
  assume "\<forall>u v l. (u, v) \<in> E \<and> F l u \<longrightarrow> B v l"
  then show "\<forall>v < n. \<forall>l \<in> R v. A v l" using assms(1,2) by blast
qed

lemma joined_sat_iff:
  assumes "wf_plan p" and "df_inv p df"
  shows "plan_decision_join (plan_verdict_spec p) (flow_verdict_spec df) = PLAN_DEC_SATISFIED \<longleftrightarrow>
    nodes p \<noteq> [] \<and> acyclic (plan_rel p) \<and> (\<forall>x \<in> set (nodes p). node_decision x = PLAN_DEC_SATISFIED) \<and>
    (\<forall>v < n_nodes p. \<forall>l \<in> reaches df v. l \<notin> lset (deny_in df v) \<and> l \<notin> lset (unknown_in df v) \<and>
             (l \<in> lset (sticky df) \<longrightarrow> l \<in> lset (permit_in df v)))"
  using joined_verdict_sat [OF assms] by (simp add: plan_decision_join_def)

lemma gate_correct:
  assumes "plan_built p" and "wf_table tbl" and "wf_lset st"
    and req: "req_plan req = Some p" "req_actions req = Some acts" "req_policy req = Some (gate_policy tbl st)"
  shows "\<exists>rc resp. plan_warden_verify True (Some req) = Some (rc, resp) \<and>
    (plan_warden_authorized (Some resp) \<longleftrightarrow> gate_spec p acts tbl st) \<and>
    (rc \<noteq> 0 \<longrightarrow> rc = -1 \<and> resp = response_init_refuse) \<and>
    (case pathology_text resp of None \<Rightarrow> True | Some s \<Rightarrow> json s \<and> length s < req_pathology_buf_sz req)"
proof -
  have wf: "wf_plan p" using assms(1) by (rule plan_built_wf)
  obtain df0 where new: "plan_dataflow_new True (Some p) = Some df0" by (simp add: plan_dataflow_new_def)
  let ?ok = "length acts = n_nodes p \<and> (\<forall>a \<in> set acts. fst (plan_label_policy_from_table tbl a empty_class) = 0)"
  show ?thesis
  proof (cases ?ok)
    case False
    obtain rc df where "plan_dataflow_populate df0 (Some acts) (Some (gate_policy tbl st)) = (rc, df)" "rc = -1"
      using gate_refused [OF wf assms(2,3) new False] by (metis prod.collapse)
    then show ?thesis
      using False req new
      by (simp add: plan_warden_verify_def plan_warden_authorized_def response_init_refuse_def gate_spec_def)
  next
    case True
    from fresh_populate [OF wf assms(2,3) new] True obtain df where
      pop: "plan_dataflow_populate df0 (Some acts) (Some (gate_policy tbl st)) = (0, df)"
      and r: "df_reach p df" and st: "lset (sticky df) = lset st"
      and cls: "\<forall>v < n_nodes p. lset (origin df v) = lset (cls_origin (class_of tbl acts v)) \<and>
        lset (deny_in df v) = lset (cls_deny_in (class_of tbl acts v)) \<and>
        lset (unknown_in df v) = lset (cls_unknown_in (class_of tbl acts v)) \<and>
        lset (permit_in df v) = lset (cls_permit_in (class_of tbl acts v)) \<and>
        lset (declassify df v) = lset (cls_declassify (class_of tbl acts v))"
      unfolding gate_policy_def by blast
    have inv: "df_inv p df" using df_reach_inv [OF r wf] .
    then have p: "df_plan df = p" by (simp add: df_inv_def)
    obtain df' where v: "plan_dataflow_flow_verdict (Some df) = (flow_verdict_spec df, Some df')"
      using verdict_on_inv [OF inv] by blast
    have bnd: "(u, v) \<in> plan_rel p \<Longrightarrow> u < n_nodes p \<and> v < n_nodes p" for u v using plan_rel_bounded [OF wf] .
    have fe: "emits df l u \<longleftrightarrow> flows p (class_of tbl acts) l u" if "u < n_nodes p" for u l
      using flows_emits [OF wf p _ that, of "class_of tbl acts" l] cls by blast
    have r_eq: "l \<in> reaches df v \<longleftrightarrow> (\<exists>u. (u, v) \<in> plan_rel p \<and> flows p (class_of tbl acts) l u)" for v l
      unfolding reaches_def p using fe bnd by blast
    let ?B = "\<lambda>v l. l \<notin> lset (cls_deny_in (class_of tbl acts v)) \<and> l \<notin> lset (cls_unknown_in (class_of tbl acts v)) \<and>
        (l \<in> lset st \<longrightarrow> l \<in> lset (cls_permit_in (class_of tbl acts v)))"
    have "(l \<notin> lset (deny_in df v) \<and> l \<notin> lset (unknown_in df v) \<and> (l \<in> lset (sticky df) \<longrightarrow> l \<in> lset (permit_in df v))) \<longleftrightarrow> ?B v l"
      if "v < n_nodes p" for v l using cls that st by simp
    from edge_quant [OF this r_eq bnd] have flow: "(\<forall>v < n_nodes p. \<forall>l \<in> reaches df v. l \<notin> lset (deny_in df v) \<and> l \<notin> lset (unknown_in df v) \<and>
             (l \<in> lset (sticky df) \<longrightarrow> l \<in> lset (permit_in df v))) \<longleftrightarrow>
        (\<forall>u v l. (u, v) \<in> plan_rel p \<and> flows p (class_of tbl acts) l u \<longrightarrow> ?B v l)"
      by simp
    have spec: "plan_decision_join (plan_verdict_spec p) (flow_verdict_spec df) = PLAN_DEC_SATISFIED \<longleftrightarrow>
        gate_spec p acts tbl st"
      unfolding joined_sat_iff [OF wf inv] flow gate_spec_def using True by blast
    let ?resp = "response_init_refuse\<lparr>resp_node_axis := plan_verdict_spec p, resp_flow_axis := flow_verdict_spec df,
       verdict := plan_decision_join (plan_verdict_spec p) (flow_verdict_spec df)\<rparr>"
    obtain resp where rr: "report_refusal req df' ?resp = Some resp" "verdict resp = verdict ?resp"
      "case pathology_text resp of None \<Rightarrow> True | Some s \<Rightarrow> json s \<and> length s < req_pathology_buf_sz req"
      using report_refusal_total [OF assms(1) df_reach.verdict [OF r v], of req ?resp]
      by (auto simp: response_init_refuse_def)
    have "plan_warden_verify True (Some req) = Some (0, resp)"
      using req new pop v rr(1) exec_plan_verify_spec [OF wf] by (simp add: plan_warden_verify_def)
    then show ?thesis using rr(2,3) spec by (simp add: plan_warden_authorized_def)
  qed
qed


definition two_sends :: plan_warden_request where
  "two_sends = \<lparr>req_plan = Some (pair_plan PLAN_DEC_SATISFIED PLAN_DEC_SATISFIED),
     req_actions = Some [send_to ''https://a.example/'', send_to ''https://b.evil.example/''],
     req_policy = Some (gate_policy evil_table [0, 0]), req_path_opts = None, req_pathology_buf = True,
     req_pathology_buf_sz = 4096\<rparr>"


end
