(* ===== verification/C_Text.thy ===== *)
theory C_Text
  imports Url
begin

text \<open>
  What the programs use of the C library to read text: \<open>fgets\<close> into a buffer of 1024 bytes, the C string
  in a buffer, and \<open>strtol\<close>. Both the policy configuration and the breaker's state file are read with
  them, line by line. An allocation may fail: the outcomes of the next calls of the allocator are a list,
  and a call beyond its end succeeds.
\<close>

type_synonym allocs = "bool list"

definition take_alloc :: "allocs \<Rightarrow> bool \<times> allocs" where
  "take_alloc al = (case al of [] \<Rightarrow> (True, []) | a # al' \<Rightarrow> (a, al'))"

lemma take_alloc_Nil [simp]: "take_alloc [] = (True, [])"
  by (simp add: take_alloc_def)

text \<open>\<open>fgets\<close> into a buffer of 1024 bytes: at most 1023 bytes, up to and with the newline. The rest is
  what remains to be read. A NUL byte ends the C string the code sees.\<close>

definition LINE_BUF :: nat where "LINE_BUF = 1024"

definition newline :: char where "newline = CHR 0x0A"

definition fgets :: "string \<Rightarrow> string \<times> string" where
  "fgets s =
     (let l = takeWhile (\<lambda>c. c \<noteq> newline) s in
      if length l \<ge> LINE_BUF - 1 then (take (LINE_BUF - 1) s, drop (LINE_BUF - 1) s)
      else (take (length l + 1) s, drop (length l + 1) s))"

definition c_string :: "string \<Rightarrow> string" where
  "c_string s = takeWhile (\<lambda>c. c \<noteq> CHR 0x00) s"

text \<open>\<open>strtol\<close> in base 10: the value, clamped to a 64-bit \<open>long\<close>, and the text after the number.\<close>

definition strtol10 :: "string \<Rightarrow> int \<times> string" where
  "strtol10 s =
     (let s1 = dropWhile isspace s;
          neg = (s1 \<noteq> [] \<and> hd s1 = CHR ''-'');
          s2 = (if s1 \<noteq> [] \<and> (hd s1 = CHR ''-'' \<or> hd s1 = CHR ''+'') then tl s1 else s1);
          ds = takeWhile isdigit s2;
          v = int (decval 0 ds)
      in if ds = [] then (0, s)
         else (if neg then max (- (2 ^ 63)) (- v) else min (2 ^ 63 - 1) v, dropWhile isdigit s2))"

lemma fgets_shorter: "s \<noteq> [] \<Longrightarrow> length (snd (fgets s)) < length s"
  by (auto simp: fgets_def Let_def LINE_BUF_def)

function fgets_lines :: "string \<Rightarrow> string list" where
  "fgets_lines s = (if s = [] then [] else fst (fgets s) # fgets_lines (snd (fgets s)))"
  by pat_completeness auto
termination
  by (relation "measure length") (simp_all add: fgets_shorter)

declare fgets_lines.simps [simp del]

lemma fgets_lines_Nil: "fgets_lines [] = []"
  by (simp add: fgets_lines.simps)

lemma fgets_lines_Cons: "s \<noteq> [] \<Longrightarrow> fgets s = (buf, rest) \<Longrightarrow> fgets_lines s = buf # fgets_lines rest"
  by (subst fgets_lines.simps) simp

lemma fgets_append: "fst (fgets s) @ snd (fgets s) = s"
  by (simp add: fgets_def Let_def)

lemma concat_fgets_lines: "concat (fgets_lines s) = s"
proof (induction s rule: fgets_lines.induct)
  case (1 s)
  show ?case
  proof (cases "s = []")
    case True
    then show ?thesis by (simp add: fgets_lines_Nil)
  next
    case False
    then show ?thesis using 1 fgets_append [of s] by (subst fgets_lines.simps) simp
  qed
qed

definition nl :: string where "nl = [newline]"

lemma fgets_line: "newline \<notin> set l \<Longrightarrow> length l < 1023 \<Longrightarrow> fgets ((l @ nl) @ rest) = (l @ nl, rest)"
proof -
  assume l: "newline \<notin> set l" "length l < 1023"
  then have "takeWhile (\<lambda>c. c \<noteq> newline) (l @ newline # rest) = l" by (subst takeWhile_append2) auto
  then show ?thesis using l(2) by (simp add: fgets_def nl_def LINE_BUF_def)
qed

lemma fgets_lines_concat:
  "\<forall>l \<in> set ls. newline \<notin> set l \<and> length l < 1023 \<Longrightarrow> fgets_lines (concat (map (\<lambda>l. l @ nl) ls)) = map (\<lambda>l. l @ nl) ls"
proof (induction ls)
  case Nil
  then show ?case by (simp add: fgets_lines_Nil)
next
  case (Cons l ls)
  have "concat (map (\<lambda>l. l @ nl) (l # ls)) \<noteq> []" by (simp add: nl_def)
  from fgets_lines_Cons [OF this, of "l @ nl" "concat (map (\<lambda>l. l @ nl) ls)"] Cons fgets_line [of l]
  show ?case by simp
qed

text \<open>Reading a text that is a list of short lines, or a part of one cut off anywhere.\<close>

definition short_line :: "string \<Rightarrow> bool" where
  "short_line l \<longleftrightarrow> newline \<notin> set l \<and> length l < 1023"

lemma fgets_partial: "newline \<notin> set r \<Longrightarrow> length r < 1023 \<Longrightarrow> fgets_lines r = (if r = [] then [] else [r])"
proof -
  assume r: "newline \<notin> set r" "length r < 1023"
  then have t: "takeWhile (\<lambda>c. c \<noteq> newline) r = r" unfolding takeWhile_eq_all_conv by auto
  have "fgets r = (r, [])" unfolding fgets_def t Let_def LINE_BUF_def using r(2) by simp
  then show ?thesis using fgets_lines_Cons [of r r "[]"] by (simp add: fgets_lines_Nil)
qed

lemma fgets_lines_prefix:
  assumes "\<forall>l \<in> set ls. short_line l" and "p @ q = concat (map (\<lambda>l. l @ nl) ls)"
  shows "\<exists>k r. k \<le> length ls \<and> newline \<notin> set r \<and> p = concat (map (\<lambda>l. l @ nl) (take k ls)) @ r \<and>
    fgets_lines p = map (\<lambda>l. l @ nl) (take k ls) @ (if r = [] then [] else [r])"
  using assms
proof (induction ls arbitrary: p)
  case Nil
  then show ?case by (simp add: fgets_lines_Nil)
next
  case (Cons l ls)
  let ?rest = "concat (map (\<lambda>l. l @ nl) ls)"
  have l: "newline \<notin> set l" "length l < 1023" using Cons.prems(1) by (auto simp: short_line_def)
  have eq: "p @ q = (l @ nl) @ ?rest" using Cons.prems(2) by simp
  show ?case
  proof (cases "length p \<le> length l")
    case True
    then have p: "p = take (length p) l" using eq by (metis append_eq_append_conv_if append_take_drop_id append.assoc take_append append_eq_conv_conj diff_is_0_eq take0 append_Nil2)
    have "newline \<notin> set p" using l(1) p in_set_takeD by metis
    moreover have "length p < 1023" using True l(2) by simp
    ultimately show ?thesis using fgets_partial by (intro exI [of _ 0] exI [of _ p]) simp
  next
    case False
    then obtain us where us: "p = l @ us" "us \<noteq> []" "us @ q = newline # ?rest"
      using eq by (auto simp: append_eq_append_conv2 nl_def)
    then obtain p' where p': "p = (l @ nl) @ p'" "p' @ q = ?rest" by (cases us) (auto simp: nl_def)
    from Cons.IH [OF _ p'(2)] Cons.prems(1) obtain k r where
      k: "k \<le> length ls" "newline \<notin> set r" "p' = concat (map (\<lambda>l. l @ nl) (take k ls)) @ r"
        "fgets_lines p' = map (\<lambda>l. l @ nl) (take k ls) @ (if r = [] then [] else [r])" by auto
    have "p \<noteq> []" using p'(1) by (simp add: nl_def)
    then have "fgets_lines p = (l @ nl) # fgets_lines p'" using fgets_lines_Cons fgets_line [OF l] p'(1) by metis
    then show ?thesis using k p'(1) by (intro exI [of _ "Suc k"] exI [of _ r]) simp
  qed
qed

text \<open>A word: what \<open>%s\<close> reads, and what may stand between blanks of a printed line.\<close>

definition word_text :: "string \<Rightarrow> bool" where
  "word_text t \<longleftrightarrow> t \<noteq> [] \<and> (\<forall>c \<in> set t. \<not> isspace c \<and> c \<noteq> CHR 0x00)"

lemma isspace_blank [simp]: "isspace (CHR '' '')"
  by (simp add: isspace_def byte_def)

end
