(* ===== verification/Policy_Config.thy ===== *)
theory Policy_Config
  imports Warden_Binding C_Text
begin

text \<open>
  The loader of the operator's flow policy: \<^verbatim>\<open>src/v1_7/plan_policy_config.h\<close> and
  \<^verbatim>\<open>plan_policy_config.c\<close>. A policy is a text of lines; a single pass tokenizes each line and runs one
  handler per statement, stopping at the first error with its line number.

  The stream is the list of bytes that can be read and whether a read error follows them. The memory
  the loader may allocate is a number of allocations that succeed (\<open>mem\<close>): the first one that fails ends
  the load, so this describes every allocator. Releasing storage is not modelled.
\<close>

section \<open>Tokens\<close>

function tokenize :: "string \<Rightarrow> nat \<Rightarrow> string list \<Rightarrow> string list \<times> nat" where
  "tokenize line max_tokens toks =
     (let p = dropWhile isspace line in
      if p = [] then (toks, length toks)
      else if length toks \<ge> max_tokens then (toks, length toks + 1)
      else
        let t = takeWhile (Not \<circ> isspace) p; r = dropWhile (Not \<circ> isspace) p
        in tokenize (tl r) max_tokens (toks @ [t]))"
  by pat_completeness auto
termination
proof (relation "measure (\<lambda>(line, m, toks). length line)", goal_cases)
  case 1
  show ?case by simp
next
  case (2 line m toks p t r)
  obtain c q where q: "p = c # q" using 2(2) by (cases p) auto
  then have "\<not> isspace c" using 2(1) hd_dropWhile [of isspace line] by (metis list.distinct(1) list.sel(1))
  then have "length (dropWhile (Not \<circ> isspace) p) < length p"
    unfolding q by (simp add: length_dropWhile_le le_imp_less_Suc)
  moreover have "length p \<le> length line" using 2(1) by (simp add: length_dropWhile_le)
  ultimately show ?case using 2 by simp
qed

declare tokenize.simps [simp del]

section \<open>The configuration\<close>

datatype plan_disposition_kind = PLAN_DISP_DENY | PLAN_DISP_TERMINAL

record plan_disposition =
  disp_kind :: plan_disposition_kind
  disp_action :: "cstr option"

abbreviation deny_disp :: plan_disposition where
  "deny_disp \<equiv> \<lparr>disp_kind = PLAN_DISP_DENY, disp_action = None\<rparr>"

text \<open>\<open>label_names[i]\<close> is a function of the id; \<open>refusal_budget\<close> and its session counterpart are
  C \<open>unsigned\<close> values.\<close>

record plan_label_policy_config =
  cfg_sticky :: plan_label_set
  cfg_strict :: bool
  cfg_rules :: "plan_label_rule list"
  cap_rules :: nat
  label_names :: "nat \<Rightarrow> cstr option"
  n_labels :: nat
  budget_set :: bool
  refusal_budget :: nat
  session_budget_set :: bool
  trust_declared_fields :: bool
  session_refusal_budget :: nat
  on_exhaustion_set :: bool
  unknown_disp_set :: bool
  on_exhaustion :: plan_disposition
  unknown_disp :: plan_disposition

datatype cfg_error =
    ERR_IO | ERR_OOM | ERR_LINE_TOO_LONG | ERR_UNKNOWN_STMT | ERR_UNKNOWN_BODY_STMT | ERR_INDENTED_OUTSIDE
  | ERR_LABEL_MISSING_ARGS | ERR_LABEL_BAD_ID | ERR_LABEL_OUT_OF_RANGE | ERR_LABEL_REDECL_NAME
  | ERR_LABEL_REDECL_ID | ERR_STICKY_MISSING_NAME | ERR_STICKY_UNKNOWN_NAME | ERR_RULE_MISSING_NAME
  | ERR_BODY_MISSING_LABEL | ERR_BODY_UNKNOWN_LABEL | ERR_VERSION_BAD | ERR_VERSION_LATE
  | ERR_STRICT_EXTRA_ARGS | ERR_EXTRA_TOKENS | ERR_MATCH_BAD_ARGS | ERR_BUDGET_BAD | ERR_BUDGET_DUP
  | ERR_SBUDGET_BAD | ERR_SBUDGET_DUP | ERR_SBUDGET_ALONE | ERR_TRUST_ARGS | ERR_TRUST_DUP
  | ERR_DISP_BAD | ERR_DISP_DUP_EXH | ERR_DISP_DUP_UNK

text \<open>The parser's state. \<open>current_rule\<close> is the index of the open rule.\<close>

record parse_state =
  cfg :: plan_label_policy_config
  version_seen :: bool
  any_decl_seen :: bool
  current_rule :: "nat option"
  mem :: nat

definition lookup_label :: "plan_label_policy_config \<Rightarrow> cstr \<Rightarrow> plan_label" where
  "lookup_label c name =
     (case find (\<lambda>i. label_names c i = Some name) [0..<PLAN_MAX_LABELS] of
        Some i \<Rightarrow> i
      | None \<Rightarrow> PLAN_LABEL_INVALID)"

text \<open>One allocation.\<close>

definition alloc :: "parse_state \<Rightarrow> cfg_error + parse_state" where
  "alloc st = (if mem st = 0 then Inl ERR_OOM else Inr (st\<lparr>mem := mem st - 1\<rparr>))"

definition bind_err :: "'e + 'a \<Rightarrow> ('a \<Rightarrow> 'e + 'b) \<Rightarrow> 'e + 'b" where
  "bind_err m f = (case m of Inl e \<Rightarrow> Inl e | Inr x \<Rightarrow> f x)"

definition ensure_rule_capacity :: "parse_state \<Rightarrow> cfg_error + parse_state" where
  "ensure_rule_capacity st =
     (if length (cfg_rules (cfg st)) < cap_rules (cfg st) then Inr st
      else
        bind_err (alloc st) (\<lambda>st.
          Inr (st\<lparr>cfg := (cfg st)\<lparr>cap_rules :=
            (if cap_rules (cfg st) \<noteq> 0 then cap_rules (cfg st) * 2 else 16)\<rparr>\<rparr>)))"

definition body_add_label :: "plan_label_set \<Rightarrow> parse_state \<Rightarrow> cstr \<Rightarrow> cfg_error + plan_label_set" where
  "body_add_label lbls st name =
     (let t = lookup_label (cfg st) name in
      if t = PLAN_LABEL_INVALID then Inl ERR_BODY_UNKNOWN_LABEL
      else
        let (rc, s) = plan_label_set_add lbls t in
        if rc \<noteq> 0 then Inl ERR_LABEL_OUT_OF_RANGE else Inr s)"

section \<open>Statement handlers\<close>

definition handle_varek_policy :: "parse_state \<Rightarrow> nat \<Rightarrow> string list \<Rightarrow> cfg_error + parse_state" where
  "handle_varek_policy st n_tokens tokens =
     (if any_decl_seen st then Inl ERR_VERSION_LATE
      else if n_tokens \<noteq> 2 then Inl ERR_VERSION_BAD
      else if tokens ! 1 \<noteq> ''1'' then Inl ERR_VERSION_BAD
      else Inr (st\<lparr>version_seen := True\<rparr>))"

definition handle_strict :: "parse_state \<Rightarrow> nat \<Rightarrow> string list \<Rightarrow> cfg_error + parse_state" where
  "handle_strict st n_tokens tokens =
     (if n_tokens \<noteq> 1 then Inl ERR_STRICT_EXTRA_ARGS
      else Inr (st\<lparr>cfg := (cfg st)\<lparr>cfg_strict := True\<rparr>\<rparr>))"

definition handle_trust_fields :: "parse_state \<Rightarrow> nat \<Rightarrow> string list \<Rightarrow> cfg_error + parse_state" where
  "handle_trust_fields st n_tokens tokens =
     (if n_tokens \<noteq> 1 then Inl ERR_TRUST_ARGS
      else if trust_declared_fields (cfg st) then Inl ERR_TRUST_DUP
      else Inr (st\<lparr>cfg := (cfg st)\<lparr>trust_declared_fields := True\<rparr>\<rparr>))"

definition handle_label :: "parse_state \<Rightarrow> nat \<Rightarrow> string list \<Rightarrow> cfg_error + parse_state" where
  "handle_label st n_tokens tokens =
     (if n_tokens \<noteq> 3 then Inl ERR_LABEL_MISSING_ARGS
      else
        let name = tokens ! 1; (i, end') = strtol10 (tokens ! 2) in
        if end' \<noteq> [] \<or> i < 0 then Inl ERR_LABEL_BAD_ID
        else if i \<ge> int PLAN_MAX_LABELS then Inl ERR_LABEL_OUT_OF_RANGE
        else if lookup_label (cfg st) name \<noteq> PLAN_LABEL_INVALID then Inl ERR_LABEL_REDECL_NAME
        else if label_names (cfg st) (nat i) \<noteq> None then Inl ERR_LABEL_REDECL_ID
        else
          bind_err (alloc st) (\<lambda>st.
            Inr (st\<lparr>cfg := (cfg st)\<lparr>label_names := (label_names (cfg st))(nat i := Some name),
                                     n_labels := n_labels (cfg st) + 1\<rparr>\<rparr>)))"

definition handle_sticky :: "parse_state \<Rightarrow> nat \<Rightarrow> string list \<Rightarrow> cfg_error + parse_state" where
  "handle_sticky st n_tokens tokens =
     (if n_tokens \<noteq> 2 then Inl ERR_STICKY_MISSING_NAME
      else
        let t = lookup_label (cfg st) (tokens ! 1) in
        if t = PLAN_LABEL_INVALID then Inl ERR_STICKY_UNKNOWN_NAME
        else
          let (rc, s) = plan_label_set_add (cfg_sticky (cfg st)) t in
          if rc \<noteq> 0 then Inl ERR_LABEL_OUT_OF_RANGE
          else Inr (st\<lparr>cfg := (cfg st)\<lparr>cfg_sticky := s\<rparr>\<rparr>))"

definition handle_rule :: "parse_state \<Rightarrow> nat \<Rightarrow> string list \<Rightarrow> cfg_error + parse_state" where
  "handle_rule st n_tokens tokens =
     (if n_tokens \<noteq> 2 then Inl ERR_RULE_MISSING_NAME
      else
        bind_err (ensure_rule_capacity st) (\<lambda>st.
        bind_err (alloc st) (\<lambda>st.
          Inr (st\<lparr>cfg := (cfg st)\<lparr>cfg_rules := cfg_rules (cfg st) @
                    [\<lparr>rule_action = Some (tokens ! 1), rule_classify = empty_class, rule_matches = []\<rparr>]\<rparr>,
                  current_rule := Some (length (cfg_rules (cfg st)))\<rparr>))))"

definition update_rule :: "parse_state \<Rightarrow> nat \<Rightarrow> (plan_label_rule \<Rightarrow> plan_label_rule) \<Rightarrow> parse_state" where
  "update_rule st i f =
     st\<lparr>cfg := (cfg st)\<lparr>cfg_rules := (cfg_rules (cfg st))[i := f (cfg_rules (cfg st) ! i)]\<rparr>\<rparr>"

text \<open>Three allocations: the array of constraints, the key and the pattern.\<close>

definition add_match_to_rule :: "parse_state \<Rightarrow> nat \<Rightarrow> string \<Rightarrow> string \<Rightarrow> cfg_error + parse_state" where
  "add_match_to_rule st i key pattern =
     bind_err (alloc st) (\<lambda>st.
     bind_err (alloc st) (\<lambda>st.
     bind_err (alloc st) (\<lambda>st.
       Inr (update_rule st i (\<lambda>r. r\<lparr>rule_matches := rule_matches r @
              [\<lparr>m_key = Some key, m_pattern = Some pattern\<rparr>]\<rparr>)))))"

definition handle_refusal_budget :: "parse_state \<Rightarrow> nat \<Rightarrow> string list \<Rightarrow> cfg_error + parse_state" where
  "handle_refusal_budget st n_tokens tokens =
     (if budget_set (cfg st) then Inl ERR_BUDGET_DUP
      else if n_tokens \<noteq> 2 then Inl ERR_BUDGET_BAD
      else
        let (n, end') = strtol10 (tokens ! 1) in
        if end' \<noteq> [] \<or> n < 1 then Inl ERR_BUDGET_BAD
        else Inr (st\<lparr>cfg := (cfg st)\<lparr>refusal_budget := nat n mod 2 ^ 32, budget_set := True\<rparr>\<rparr>))"

definition handle_session_refusal_budget :: "parse_state \<Rightarrow> nat \<Rightarrow> string list \<Rightarrow> cfg_error + parse_state" where
  "handle_session_refusal_budget st n_tokens tokens =
     (if session_budget_set (cfg st) then Inl ERR_SBUDGET_DUP
      else if n_tokens \<noteq> 2 then Inl ERR_SBUDGET_BAD
      else
        let (n, end') = strtol10 (tokens ! 1) in
        if end' \<noteq> [] \<or> n < 1 \<or> n > 1000000 then Inl ERR_SBUDGET_BAD
        else Inr (st\<lparr>cfg := (cfg st)\<lparr>session_refusal_budget := nat n mod 2 ^ 32, session_budget_set := True\<rparr>\<rparr>))"

definition parse_disposition :: "parse_state \<Rightarrow> nat \<Rightarrow> string list \<Rightarrow> cfg_error + plan_disposition \<times> parse_state" where
  "parse_disposition st n_tokens tokens =
     (if n_tokens = 2 \<and> tokens ! 1 = ''deny'' then Inr (deny_disp, st)
      else if n_tokens = 3 \<and> tokens ! 1 = ''terminal'' then
        bind_err (alloc st) (\<lambda>st.
          Inr (\<lparr>disp_kind = PLAN_DISP_TERMINAL, disp_action = Some (tokens ! 2)\<rparr>, st))
      else Inl ERR_DISP_BAD)"

definition handle_on_exhaustion :: "parse_state \<Rightarrow> nat \<Rightarrow> string list \<Rightarrow> cfg_error + parse_state" where
  "handle_on_exhaustion st n_tokens tokens =
     (if on_exhaustion_set (cfg st) then Inl ERR_DISP_DUP_EXH
      else
        bind_err (parse_disposition st n_tokens tokens) (\<lambda>(d, st).
          Inr (st\<lparr>cfg := (cfg st)\<lparr>on_exhaustion := d, on_exhaustion_set := True\<rparr>\<rparr>)))"

definition handle_unknown_disposition :: "parse_state \<Rightarrow> nat \<Rightarrow> string list \<Rightarrow> cfg_error + parse_state" where
  "handle_unknown_disposition st n_tokens tokens =
     (if unknown_disp_set (cfg st) then Inl ERR_DISP_DUP_UNK
      else
        bind_err (parse_disposition st n_tokens tokens) (\<lambda>(d, st).
          Inr (st\<lparr>cfg := (cfg st)\<lparr>unknown_disp := d, unknown_disp_set := True\<rparr>\<rparr>)))"

text \<open>A statement inside rule \<open>i\<close>.\<close>

definition handle_body :: "parse_state \<Rightarrow> nat \<Rightarrow> nat \<Rightarrow> string list \<Rightarrow> cfg_error + parse_state" where
  "handle_body st i n_tokens tokens =
     (let kw = tokens ! 0 in
      if kw = ''match'' then
        if n_tokens \<noteq> 3 then Inl ERR_MATCH_BAD_ARGS
        else add_match_to_rule st i (tokens ! 1) (tokens ! 2)
      else if n_tokens \<noteq> 2 then Inl ERR_BODY_MISSING_LABEL
      else
        let name = tokens ! 1; c = rule_classify (cfg_rules (cfg st) ! i) in
        if kw = ''origin'' then
          bind_err (body_add_label (cls_origin c) st name) (\<lambda>s.
            Inr (update_rule st i (\<lambda>r. r\<lparr>rule_classify := (rule_classify r)\<lparr>cls_origin := s\<rparr>\<rparr>)))
        else if kw = ''deny_in'' then
          bind_err (body_add_label (cls_deny_in c) st name) (\<lambda>s.
            Inr (update_rule st i (\<lambda>r. r\<lparr>rule_classify := (rule_classify r)\<lparr>cls_deny_in := s\<rparr>\<rparr>)))
        else if kw = ''unknown_in'' then
          bind_err (body_add_label (cls_unknown_in c) st name) (\<lambda>s.
            Inr (update_rule st i (\<lambda>r. r\<lparr>rule_classify := (rule_classify r)\<lparr>cls_unknown_in := s\<rparr>\<rparr>)))
        else if kw = ''permit_in'' then
          bind_err (body_add_label (cls_permit_in c) st name) (\<lambda>s.
            Inr (update_rule st i (\<lambda>r. r\<lparr>rule_classify := (rule_classify r)\<lparr>cls_permit_in := s\<rparr>\<rparr>)))
        else if kw = ''declassify'' then
          bind_err (body_add_label (cls_declassify c) st name) (\<lambda>s.
            Inr (update_rule st i (\<lambda>r. r\<lparr>rule_classify := (rule_classify r)\<lparr>cls_declassify := s\<rparr>\<rparr>)))
        else Inl ERR_UNKNOWN_BODY_STMT)"

definition handle_top :: "parse_state \<Rightarrow> nat \<Rightarrow> string list \<Rightarrow> cfg_error + parse_state" where
  "handle_top st n_tokens tokens =
     (let kw = tokens ! 0 in
      if kw = ''varek_policy'' then handle_varek_policy st n_tokens tokens
      else if kw = ''strict'' then handle_strict st n_tokens tokens
      else if kw = ''trust_declared_fields'' then handle_trust_fields st n_tokens tokens
      else if kw = ''label'' then handle_label st n_tokens tokens
      else if kw = ''sticky'' then handle_sticky st n_tokens tokens
      else if kw = ''rule'' then handle_rule st n_tokens tokens
      else if kw = ''refusal_budget'' then handle_refusal_budget st n_tokens tokens
      else if kw = ''session_refusal_budget'' then handle_session_refusal_budget st n_tokens tokens
      else if kw = ''on_exhaustion'' then handle_on_exhaustion st n_tokens tokens
      else if kw = ''unknown_disposition'' then handle_unknown_disposition st n_tokens tokens
      else Inl ERR_UNKNOWN_STMT)"

section \<open>The load\<close>

definition cfg_zero :: plan_label_policy_config where
  "cfg_zero =
     \<lparr>cfg_sticky = plan_label_set_clear, cfg_strict = False, cfg_rules = [], cap_rules = 0,
      label_names = (\<lambda>_. None), n_labels = 0, budget_set = False, refusal_budget = 0,
      session_budget_set = False, trust_declared_fields = False, session_refusal_budget = 0,
      on_exhaustion_set = False, unknown_disp_set = False, on_exhaustion = deny_disp, unknown_disp = deny_disp\<rparr>"

text \<open>The body of the loop: one line as \<open>fgets\<close> delivers it.\<close>

definition load_line :: "parse_state \<Rightarrow> string \<Rightarrow> cfg_error + parse_state" where
  "load_line st buf =
     (let line0 = c_string buf in
      if length line0 = LINE_BUF - 1 \<and> last line0 \<noteq> newline then Inl ERR_LINE_TOO_LONG
      else
        let line = rev (dropWhile (\<lambda>c. c = newline \<or> c = CHR 0x0D) (rev line0));
            indented = (line \<noteq> [] \<and> isspace (hd line));
            body = dropWhile isspace line
        in if body = [] then Inr st
           else if hd body = CHR ''#'' then Inr st
           else
             let (tokens, n_tokens) = tokenize line 4 [] in
             if n_tokens = 0 then Inr st
             else if n_tokens > 4 then Inl ERR_EXTRA_TOKENS
             else if indented then
               (case current_rule st of
                  None \<Rightarrow> Inl ERR_INDENTED_OUTSIDE
                | Some i \<Rightarrow> handle_body st i n_tokens tokens)
             else
               bind_err (handle_top (st\<lparr>current_rule := None\<rparr>) n_tokens tokens) (\<lambda>st.
                 Inr (if tokens ! 0 \<noteq> ''varek_policy'' then st\<lparr>any_decl_seen := True\<rparr> else st)))"

text \<open>The error comes with the number of lines read.\<close>

function load_lines :: "string \<Rightarrow> nat \<Rightarrow> parse_state \<Rightarrow> (cfg_error \<times> nat) + parse_state \<times> nat" where
  "load_lines s line_no st =
     (if s = [] then Inr (st, line_no)
      else
        let (buf, rest) = fgets s in
        (case load_line st buf of
           Inl e \<Rightarrow> Inl (e, line_no + 1)
         | Inr st' \<Rightarrow> load_lines rest (line_no + 1) st'))"
  by pat_completeness auto
termination
proof (relation "measure (\<lambda>(s, n, st). length s)", goal_cases)
  case 1
  show ?case by simp
next
  case (2 s line_no st x buf rest st')
  then show ?case using fgets_shorter [of s] by (metis in_measure old.prod.case snd_conv)
qed

declare load_lines.simps [simp del]

definition plan_label_policy_config_load_stream ::
  "nat \<Rightarrow> bool \<Rightarrow> string option \<Rightarrow> (cfg_error \<times> nat) + plan_label_policy_config" where
  "plan_label_policy_config_load_stream memory read_error stream =
     (case stream of
        None \<Rightarrow> Inl (ERR_IO, 0)
      | Some text \<Rightarrow>
          if memory = 0 then Inl (ERR_OOM, 0)
          else
            let st0 = \<lparr>cfg = cfg_zero, version_seen = False, any_decl_seen = False, current_rule = None,
                       mem = memory - 1\<rparr>
            in (case load_lines text 0 st0 of
                  Inl e \<Rightarrow> Inl e
                | Inr (st, line_no) \<Rightarrow>
                    if read_error then Inl (ERR_IO, line_no)
                    else if session_budget_set (cfg st) \<and> \<not> budget_set (cfg st) then Inl (ERR_SBUDGET_ALONE, line_no)
                    else Inr (cfg st)))"

text \<open>\<open>open_file\<close> is what \<open>fopen\<close> finds at a path: the bytes and whether reading them fails.\<close>

definition plan_label_policy_config_load ::
  "nat \<Rightarrow> (cstr \<Rightarrow> (string \<times> bool) option) \<Rightarrow> cstr option \<Rightarrow> (cfg_error \<times> nat) + plan_label_policy_config" where
  "plan_label_policy_config_load memory open_file path =
     (case path of
        None \<Rightarrow> Inl (ERR_IO, 0)
      | Some p \<Rightarrow>
          (case open_file p of
             None \<Rightarrow> Inl (ERR_IO, 0)
           | Some (text, read_error) \<Rightarrow> plan_label_policy_config_load_stream memory read_error (Some text)))"

section \<open>Accessors\<close>

definition cfg_table :: "plan_label_policy_config \<Rightarrow> plan_label_table" where
  "cfg_table c = \<lparr>rules = cfg_rules c, strict = cfg_strict c\<rparr>"

definition plan_label_policy_config_policy :: "plan_label_policy_config option \<Rightarrow> plan_label_policy option" where
  "plan_label_policy_config_policy co =
     map_option (\<lambda>c. \<lparr>classify = Some (plan_label_policy_from_table (cfg_table c)), pol_sticky = cfg_sticky c\<rparr>) co"

definition plan_label_policy_config_label_name :: "plan_label \<Rightarrow> plan_label_policy_config option \<Rightarrow> cstr option" where
  "plan_label_policy_config_label_name tag co =
     (case co of None \<Rightarrow> None | Some c \<Rightarrow> if tag \<ge> PLAN_MAX_LABELS then None else label_names c tag)"

definition plan_label_policy_config_pathology_opts :: "plan_label_policy_config option \<Rightarrow> plan_pathology_opts" where
  "plan_label_policy_config_pathology_opts co = Some (\<lambda>tag. plan_label_policy_config_label_name tag co)"

definition plan_label_policy_config_n_rules :: "plan_label_policy_config option \<Rightarrow> nat" where
  "plan_label_policy_config_n_rules co = (case co of None \<Rightarrow> 0 | Some c \<Rightarrow> length (cfg_rules c))"

definition plan_label_policy_config_n_labels :: "plan_label_policy_config option \<Rightarrow> nat" where
  "plan_label_policy_config_n_labels co = (case co of None \<Rightarrow> 0 | Some c \<Rightarrow> n_labels c)"

definition plan_label_policy_config_breaker_enabled :: "plan_label_policy_config option \<Rightarrow> bool" where
  "plan_label_policy_config_breaker_enabled co = (case co of None \<Rightarrow> False | Some c \<Rightarrow> budget_set c)"

definition plan_label_policy_config_refusal_budget :: "plan_label_policy_config option \<Rightarrow> nat" where
  "plan_label_policy_config_refusal_budget co = (case co of None \<Rightarrow> 0 | Some c \<Rightarrow> refusal_budget c)"

definition plan_label_policy_config_session_refusal_budget :: "plan_label_policy_config option \<Rightarrow> nat" where
  "plan_label_policy_config_session_refusal_budget co =
     (case co of None \<Rightarrow> 0 | Some c \<Rightarrow> if session_budget_set c then session_refusal_budget c else 0)"

definition plan_label_policy_config_trusts_declared_fields :: "plan_label_policy_config option \<Rightarrow> bool" where
  "plan_label_policy_config_trusts_declared_fields co = (case co of None \<Rightarrow> False | Some c \<Rightarrow> trust_declared_fields c)"

text \<open>The first match on an argument other than \<open>target\<close> or a component of it.\<close>

definition declared_key :: "plan_label_rule_match \<Rightarrow> bool" where
  "declared_key m =
     (case m_key m of
        None \<Rightarrow> False
      | Some k \<Rightarrow> \<not> (length (takeWhile (\<lambda>c. c \<noteq> CHR ''.'') k) = 6 \<and> take 6 k = ''target''))"

fun field_rule_loop :: "plan_label_rule list \<Rightarrow> (cstr option \<times> cstr option) option" where
  "field_rule_loop [] = None"
| "field_rule_loop (r # rs) =
     (case find declared_key (rule_matches r) of
        Some m \<Rightarrow> Some (rule_action r, m_key m)
      | None \<Rightarrow> field_rule_loop rs)"

definition plan_label_policy_config_field_rule ::
  "plan_label_policy_config option \<Rightarrow> (cstr option \<times> cstr option) option" where
  "plan_label_policy_config_field_rule co = (case co of None \<Rightarrow> None | Some c \<Rightarrow> field_rule_loop (cfg_rules c))"

definition plan_label_policy_config_on_exhaustion :: "plan_label_policy_config option \<Rightarrow> plan_disposition" where
  "plan_label_policy_config_on_exhaustion co = (case co of None \<Rightarrow> deny_disp | Some c \<Rightarrow> on_exhaustion c)"

definition plan_label_policy_config_unknown_disposition :: "plan_label_policy_config option \<Rightarrow> plan_disposition" where
  "plan_label_policy_config_unknown_disposition co = (case co of None \<Rightarrow> deny_disp | Some c \<Rightarrow> unknown_disp c)"

definition plan_label_policy_config_has_action :: "plan_label_policy_config option \<Rightarrow> cstr option \<Rightarrow> bool" where
  "plan_label_policy_config_has_action co action_name =
     (case (co, action_name) of
        (Some c, Some a) \<Rightarrow> list_ex (\<lambda>r. rule_action r = Some a) (cfg_rules c)
      | _ \<Rightarrow> False)"

definition plan_label_policy_config_can_refuse :: "plan_label_policy_config option \<Rightarrow> bool" where
  "plan_label_policy_config_can_refuse co =
     (case co of
        None \<Rightarrow> False
      | Some c \<Rightarrow>
          if \<not> plan_label_set_empty (cfg_sticky c) then True
          else list_ex (\<lambda>r. \<not> plan_label_set_empty (cls_deny_in (rule_classify r)) \<or>
                            \<not> plan_label_set_empty (cls_unknown_in (rule_classify r))) (cfg_rules c))"

definition plan_label_policy_config_action_denies_sticky ::
  "plan_label_policy_config option \<Rightarrow> cstr option \<Rightarrow> bool" where
  "plan_label_policy_config_action_denies_sticky co action_name =
     (case (co, action_name) of
        (Some c, Some a) \<Rightarrow>
          if plan_label_set_empty (cfg_sticky c) then False
          else list_ex (\<lambda>r. rule_action r = Some a \<and>
                 (plan_label_set_intersects (cls_deny_in (rule_classify r)) (cfg_sticky c) \<or>
                  plan_label_set_intersects (cls_unknown_in (rule_classify r)) (cfg_sticky c))) (cfg_rules c)
      | _ \<Rightarrow> False)"

section \<open>The invariant of a configuration\<close>

definition class_labels :: "plan_label_class \<Rightarrow> plan_label set" where
  "class_labels c = lset (cls_origin c) \<union> lset (cls_deny_in c) \<union> lset (cls_unknown_in c) \<union> lset (cls_permit_in c) \<union>
     lset (cls_declassify c)"

definition declared :: "plan_label_policy_config \<Rightarrow> plan_label set" where
  "declared c = {i. label_names c i \<noteq> None}"

definition rule_ok :: "plan_label set \<Rightarrow> plan_label_rule \<Rightarrow> bool" where
  "rule_ok D r \<longleftrightarrow> rule_action r \<noteq> None \<and> wf_class (rule_classify r) \<and> class_labels (rule_classify r) \<subseteq> D \<and>
     (\<forall>m \<in> set (rule_matches r). m_key m \<noteq> None \<and> m_pattern m \<noteq> None)"

definition disp_ok :: "plan_disposition \<Rightarrow> bool" where
  "disp_ok d \<longleftrightarrow> (disp_kind d = PLAN_DISP_TERMINAL \<longleftrightarrow> disp_action d \<noteq> None)"

definition labels_ok :: "plan_label_policy_config \<Rightarrow> bool" where
  "labels_ok c \<longleftrightarrow> declared c \<subseteq> {..<PLAN_MAX_LABELS} \<and> n_labels c = card (declared c) \<and>
     (\<forall>i j name. label_names c i = Some name \<and> label_names c j = Some name \<longrightarrow> i = j)"

definition cfg_ok :: "plan_label_policy_config \<Rightarrow> bool" where
  "cfg_ok c \<longleftrightarrow>
     labels_ok c \<and> wf_lset (cfg_sticky c) \<and> lset (cfg_sticky c) \<subseteq> declared c \<and>
     (\<forall>r \<in> set (cfg_rules c). rule_ok (declared c) r) \<and> length (cfg_rules c) \<le> cap_rules c \<and>
     (session_budget_set c \<longrightarrow> 1 \<le> session_refusal_budget c \<and> session_refusal_budget c \<le> 1000000) \<and>
     (budget_set c \<longrightarrow> refusal_budget c \<le> UINT_MAX) \<and> disp_ok (on_exhaustion c) \<and> disp_ok (unknown_disp c)"

definition st_ok :: "parse_state \<Rightarrow> bool" where
  "st_ok st \<longleftrightarrow> cfg_ok (cfg st) \<and>
     (\<forall>i. current_rule st = Some i \<longrightarrow> i < length (cfg_rules (cfg st)))"

lemma bind_err_Inr: "bind_err m f = Inr y \<longleftrightarrow> (\<exists>x. m = Inr x \<and> f x = Inr y)"
  by (cases m) (simp_all add: bind_err_def)

lemma alloc_Inr: "alloc st = Inr st' \<longleftrightarrow> mem st \<noteq> 0 \<and> st' = st\<lparr>mem := mem st - 1\<rparr>"
  by (auto simp: alloc_def)

lemma lookup_label_cases:
  obtains (missing) "lookup_label c name = PLAN_LABEL_INVALID" "\<And>i. i < PLAN_MAX_LABELS \<Longrightarrow> label_names c i \<noteq> Some name"
  | (found) i where "lookup_label c name = i" "i < PLAN_MAX_LABELS" "label_names c i = Some name" "i \<noteq> PLAN_LABEL_INVALID"
proof (cases "find (\<lambda>i. label_names c i = Some name) [0..<PLAN_MAX_LABELS]")
  case None
  then have "i < PLAN_MAX_LABELS \<Longrightarrow> label_names c i \<noteq> Some name" for i by (auto simp: find_None_iff)
  with None show ?thesis using missing by (simp add: lookup_label_def)
next
  case (Some i)
  then have "i < PLAN_MAX_LABELS" "label_names c i = Some name" by (auto simp: find_Some_iff)
  moreover from this(1) have "i \<noteq> PLAN_LABEL_INVALID" by (simp add: PLAN_MAX_LABELS_def)
  ultimately show ?thesis using found [of i] Some by (simp add: lookup_label_def)
qed

lemma lookup_label_valid:
  "lookup_label c name \<noteq> PLAN_LABEL_INVALID \<longleftrightarrow> (\<exists>i < PLAN_MAX_LABELS. label_names c i = Some name)"
  "lookup_label c name \<noteq> PLAN_LABEL_INVALID \<Longrightarrow>
     lookup_label c name < PLAN_MAX_LABELS \<and> label_names c (lookup_label c name) = Some name"
  by (cases rule: lookup_label_cases [of c name]; metis)+

lemma label_added:
  assumes "plan_label_set_add s t = (rc, s')" and "rc = 0" and "wf_lset s"
  shows "wf_lset s' \<and> lset s' = insert t (lset s)"
  using assms add_lset label_add_wf by blast

lemma body_add_label_ok:
  assumes "body_add_label s st name = Inr s'" and "wf_lset s" and "lset s \<subseteq> declared (cfg st)"
  shows "wf_lset s' \<and> lset s' \<subseteq> declared (cfg st)"
proof -
  let ?t = "lookup_label (cfg st) name"
  have t: "?t \<noteq> PLAN_LABEL_INVALID" and a: "\<exists>rc. plan_label_set_add s ?t = (rc, s') \<and> rc = 0"
    using assms(1) by (auto simp: body_add_label_def Let_def split: if_splits prod.splits)
  have "?t \<in> declared (cfg st)" using lookup_label_valid(2) [OF t] by (simp add: declared_def)
  with a label_added [of s ?t _ s'] assms(2,3) show ?thesis by auto
qed

text \<open>The invariant is kept by every handler. Updates that leave the fields it mentions alone:\<close>

lemma st_ok_mem [simp]: "st_ok (st\<lparr>mem := k\<rparr>) = st_ok st"
  by (simp add: st_ok_def)

lemma st_ok_flags [simp]:
  "st_ok (st\<lparr>version_seen := b\<rparr>) = st_ok st" "st_ok (st\<lparr>any_decl_seen := b\<rparr>) = st_ok st"
  "st_ok st \<Longrightarrow> st_ok (st\<lparr>current_rule := None\<rparr>)"
  by (simp_all add: st_ok_def)

lemma cfg_ok_scalars:
  "cfg_ok (c\<lparr>cfg_strict := b\<rparr>) = cfg_ok c" "cfg_ok (c\<lparr>trust_declared_fields := b\<rparr>) = cfg_ok c"
  by (simp_all add: cfg_ok_def labels_ok_def declared_def)

lemma st_ok_cfg:
  "st_ok st \<Longrightarrow> cfg_ok c \<Longrightarrow> length (cfg_rules c) = length (cfg_rules (cfg st)) \<Longrightarrow> st_ok (st\<lparr>cfg := c\<rparr>)"
  by (simp add: st_ok_def)

lemma handle_strict_ok: "st_ok st \<Longrightarrow> handle_strict st n toks = Inr st' \<Longrightarrow> st_ok st'"
  by (auto simp: handle_strict_def cfg_ok_scalars st_ok_def split: if_splits)

lemma handle_version_ok: "st_ok st \<Longrightarrow> handle_varek_policy st n toks = Inr st' \<Longrightarrow> st_ok st'"
  by (auto simp: handle_varek_policy_def split: if_splits)

lemma handle_trust_ok: "st_ok st \<Longrightarrow> handle_trust_fields st n toks = Inr st' \<Longrightarrow> st_ok st'"
  by (auto simp: handle_trust_fields_def cfg_ok_scalars st_ok_def split: if_splits)

lemma rule_ok_mono: "rule_ok D r \<Longrightarrow> D \<subseteq> E \<Longrightarrow> rule_ok E r"
  by (auto simp: rule_ok_def)

lemma cfg_ok_new_label:
  assumes ok: "cfg_ok c" and i: "i < PLAN_MAX_LABELS" "label_names c i = None"
    and name: "\<And>j. j < PLAN_MAX_LABELS \<Longrightarrow> label_names c j \<noteq> Some name"
  shows "cfg_ok (c\<lparr>label_names := (label_names c)(i := Some name), n_labels := n_labels c + 1\<rparr>)"
proof -
  have d: "declared (c\<lparr>label_names := (label_names c)(i := Some name), n_labels := n_labels c + 1\<rparr>) = insert i (declared c)"
    by (auto simp: declared_def)
  have fin: "finite (declared c)" using ok finite_subset [of _ "{..<PLAN_MAX_LABELS}"] by (auto simp: cfg_ok_def labels_ok_def)
  have "i \<notin> declared c" using i by (simp add: declared_def)
  then have "card (insert i (declared c)) = n_labels c + 1" using fin ok by (simp add: cfg_ok_def labels_ok_def)
  moreover have "label_names c j \<noteq> Some name" for j
  proof
    assume j: "label_names c j = Some name"
    then have "j \<in> declared c" by (simp add: declared_def)
    then show False using ok name [of j] j by (auto simp: cfg_ok_def labels_ok_def)
  qed
  ultimately have "labels_ok (c\<lparr>label_names := (label_names c)(i := Some name), n_labels := n_labels c + 1\<rparr>)"
    using ok i d by (auto simp: cfg_ok_def labels_ok_def)
  moreover have "\<forall>r \<in> set (cfg_rules c). rule_ok (insert i (declared c)) r"
    using ok rule_ok_mono [of "declared c" _ "insert i (declared c)"] unfolding cfg_ok_def by blast
  ultimately show ?thesis using ok d by (auto simp: cfg_ok_def)
qed

lemma handle_label_ok:
  assumes "st_ok st" and "handle_label st n toks = Inr st'"
  shows "st_ok st'"
proof -
  obtain i e where s: "strtol10 (toks ! 2) = (i, e)" by force
  let ?c = "(cfg st)\<lparr>label_names := (label_names (cfg st))(nat i := Some (toks ! 1)), n_labels := n_labels (cfg st) + 1\<rparr>"
  from assms(2) s have i: "0 \<le> i" "nat i < PLAN_MAX_LABELS" "label_names (cfg st) (nat i) = None"
    and look: "lookup_label (cfg st) (toks ! 1) = PLAN_LABEL_INVALID"
    and st': "st' = st\<lparr>mem := mem st - 1, cfg := ?c\<rparr>"
    by (auto simp: handle_label_def Let_def bind_err_Inr alloc_Inr split: if_splits)
  have "label_names (cfg st) j \<noteq> Some (toks ! 1)" if "j < PLAN_MAX_LABELS" for j
    using look lookup_label_valid(1) [of "cfg st" "toks ! 1"] that by blast
  from cfg_ok_new_label [OF _ i(2,3) this] assms(1) have "cfg_ok ?c" by (simp add: st_ok_def)
  then show ?thesis using assms(1) by (simp add: st' st_ok_def split: option.splits)
qed

lemma handle_sticky_ok:
  assumes "st_ok st" and "handle_sticky st n toks = Inr st'"
  shows "st_ok st'"
proof -
  let ?t = "lookup_label (cfg st) (toks ! 1)"
  obtain s where s: "plan_label_set_add (cfg_sticky (cfg st)) ?t = (0, s)" and t: "?t \<noteq> PLAN_LABEL_INVALID"
    and st': "st' = st\<lparr>cfg := (cfg st)\<lparr>cfg_sticky := s\<rparr>\<rparr>"
    using assms(2) by (auto simp: handle_sticky_def Let_def split: if_splits prod.splits)
  have "?t \<in> declared (cfg st)" using lookup_label_valid(2) [OF t] by (simp add: declared_def)
  moreover have "wf_lset s \<and> lset s = insert ?t (lset (cfg_sticky (cfg st)))"
    using label_added [OF s refl] assms(1) by (auto simp: st_ok_def cfg_ok_def)
  ultimately have "cfg_ok ((cfg st)\<lparr>cfg_sticky := s\<rparr>)"
    using assms(1) by (simp add: st_ok_def cfg_ok_def labels_ok_def declared_def)
  then show ?thesis using assms(1) by (simp add: st' st_ok_def split: option.splits)
qed

lemma class_labels_empty: "class_labels empty_class = {}"
  by (simp add: class_labels_def empty_class_def lab.clear)

lemma cfg_ok_cap: "cfg_ok c \<Longrightarrow> length (cfg_rules c) \<le> k \<Longrightarrow> cfg_ok (c\<lparr>cap_rules := k\<rparr>)"
  by (simp add: cfg_ok_def labels_ok_def declared_def)

lemma ensure_capacity_ok:
  assumes "ensure_rule_capacity st = Inr st1" and "cfg_ok (cfg st)"
  shows "cfg_ok (cfg st1) \<and> length (cfg_rules (cfg st1)) < cap_rules (cfg st1)"
proof (cases "length (cfg_rules (cfg st)) < cap_rules (cfg st)")
  case True
  then show ?thesis using assms by (simp add: ensure_rule_capacity_def)
next
  case False
  let ?k = "if cap_rules (cfg st) \<noteq> 0 then cap_rules (cfg st) * 2 else 16"
  have "st1 = st\<lparr>mem := mem st - 1, cfg := (cfg st)\<lparr>cap_rules := ?k\<rparr>\<rparr>"
    using assms(1) False by (auto simp: ensure_rule_capacity_def bind_err_Inr alloc_Inr)
  moreover have "length (cfg_rules (cfg st)) \<le> cap_rules (cfg st)" using assms(2) by (simp add: cfg_ok_def)
  ultimately show ?thesis using cfg_ok_cap [OF assms(2), of ?k] by simp
qed

lemma handle_rule_ok:
  assumes "st_ok st" and "handle_rule st n toks = Inr st'"
  shows "st_ok st'"
proof -
  obtain st1 where 1: "ensure_rule_capacity st = Inr st1" and st': "st' = st1\<lparr>mem := mem st1 - 1,
      cfg := (cfg st1)\<lparr>cfg_rules := cfg_rules (cfg st1) @
        [\<lparr>rule_action = Some (toks ! 1), rule_classify = empty_class, rule_matches = []\<rparr>]\<rparr>,
      current_rule := Some (length (cfg_rules (cfg st1)))\<rparr>"
    using assms(2) by (auto simp: handle_rule_def bind_err_Inr alloc_Inr split: if_splits)
  have c: "cfg_ok (cfg st1)" and l: "length (cfg_rules (cfg st1)) < cap_rules (cfg st1)"
    using ensure_capacity_ok [OF 1] assms(1) by (auto simp: st_ok_def)
  have "cfg_ok ((cfg st1)\<lparr>cfg_rules := cfg_rules (cfg st1) @
        [\<lparr>rule_action = Some (toks ! 1), rule_classify = empty_class, rule_matches = []\<rparr>]\<rparr>)"
    using c l by (auto simp: cfg_ok_def labels_ok_def declared_def rule_ok_def class_labels_empty)
  then show ?thesis by (simp add: st' st_ok_def)
qed

lemma update_rule_ok:
  assumes "st_ok st" and "i < length (cfg_rules (cfg st))" and "rule_ok (declared (cfg st)) (f (cfg_rules (cfg st) ! i))"
  shows "st_ok (update_rule st i f)"
proof -
  have "\<forall>r \<in> set ((cfg_rules (cfg st))[i := f (cfg_rules (cfg st) ! i)]). rule_ok (declared (cfg st)) r"
    using assms set_update_subset_insert [of "cfg_rules (cfg st)" i] by (fastforce simp: st_ok_def cfg_ok_def)
  then show ?thesis using assms(1)
    by (simp add: update_rule_def st_ok_def cfg_ok_def labels_ok_def declared_def split: option.splits)
qed

lemma body_add_class:
  assumes "wf_class c" and "class_labels c \<subseteq> declared (cfg st)"
  shows "body_add_label (cls_origin c) st name = Inr s \<Longrightarrow>
      wf_class (c\<lparr>cls_origin := s\<rparr>) \<and> class_labels (c\<lparr>cls_origin := s\<rparr>) \<subseteq> declared (cfg st)"
    and "body_add_label (cls_deny_in c) st name = Inr s \<Longrightarrow>
      wf_class (c\<lparr>cls_deny_in := s\<rparr>) \<and> class_labels (c\<lparr>cls_deny_in := s\<rparr>) \<subseteq> declared (cfg st)"
    and "body_add_label (cls_unknown_in c) st name = Inr s \<Longrightarrow>
      wf_class (c\<lparr>cls_unknown_in := s\<rparr>) \<and> class_labels (c\<lparr>cls_unknown_in := s\<rparr>) \<subseteq> declared (cfg st)"
    and "body_add_label (cls_permit_in c) st name = Inr s \<Longrightarrow>
      wf_class (c\<lparr>cls_permit_in := s\<rparr>) \<and> class_labels (c\<lparr>cls_permit_in := s\<rparr>) \<subseteq> declared (cfg st)"
    and "body_add_label (cls_declassify c) st name = Inr s \<Longrightarrow>
      wf_class (c\<lparr>cls_declassify := s\<rparr>) \<and> class_labels (c\<lparr>cls_declassify := s\<rparr>) \<subseteq> declared (cfg st)"
  using assms by (auto simp: wf_class_def class_labels_def dest: body_add_label_ok)

lemma handle_body_ok:
  assumes "st_ok st" and "i < length (cfg_rules (cfg st))" and "handle_body st i n toks = Inr st'"
  shows "st_ok st'"
proof -
  let ?r = "cfg_rules (cfg st) ! i" and ?D = "declared (cfg st)"
  have r: "rule_ok ?D ?r" using assms(1,2) by (auto simp: st_ok_def cfg_ok_def)
  then have w: "wf_class (rule_classify ?r)" "class_labels (rule_classify ?r) \<subseteq> ?D" by (simp_all add: rule_ok_def)
  have m: "st_ok st'" if h: "add_match_to_rule st i k p = Inr st'" for k p
  proof -
    have st': "st' = update_rule (st\<lparr>mem := mem st - 1 - 1 - 1\<rparr>) i
        (\<lambda>r. r\<lparr>rule_matches := rule_matches r @ [\<lparr>m_key = Some k, m_pattern = Some p\<rparr>]\<rparr>)"
      using h by (auto simp: add_match_to_rule_def bind_err_Inr alloc_Inr)
    show ?thesis unfolding st' using assms(1,2) r by (intro update_rule_ok) (auto simp: rule_ok_def)
  qed
  have l: "st_ok (update_rule st i (\<lambda>r. r\<lparr>rule_classify := f (rule_classify r)\<rparr>))"
    if "wf_class (f (rule_classify ?r)) \<and> class_labels (f (rule_classify ?r)) \<subseteq> ?D" for f
    using that assms(1,2) r by (intro update_rule_ok) (auto simp: rule_ok_def)
  from assms(3) consider k p where "add_match_to_rule st i k p = Inr st'"
    | s where "body_add_label (cls_origin (rule_classify ?r)) st (toks ! 1) = Inr s"
        "st' = update_rule st i (\<lambda>r. r\<lparr>rule_classify := (rule_classify r)\<lparr>cls_origin := s\<rparr>\<rparr>)"
    | s where "body_add_label (cls_deny_in (rule_classify ?r)) st (toks ! 1) = Inr s"
        "st' = update_rule st i (\<lambda>r. r\<lparr>rule_classify := (rule_classify r)\<lparr>cls_deny_in := s\<rparr>\<rparr>)"
    | s where "body_add_label (cls_unknown_in (rule_classify ?r)) st (toks ! 1) = Inr s"
        "st' = update_rule st i (\<lambda>r. r\<lparr>rule_classify := (rule_classify r)\<lparr>cls_unknown_in := s\<rparr>\<rparr>)"
    | s where "body_add_label (cls_permit_in (rule_classify ?r)) st (toks ! 1) = Inr s"
        "st' = update_rule st i (\<lambda>r. r\<lparr>rule_classify := (rule_classify r)\<lparr>cls_permit_in := s\<rparr>\<rparr>)"
    | s where "body_add_label (cls_declassify (rule_classify ?r)) st (toks ! 1) = Inr s"
        "st' = update_rule st i (\<lambda>r. r\<lparr>rule_classify := (rule_classify r)\<lparr>cls_declassify := s\<rparr>\<rparr>)"
    unfolding handle_body_def Let_def by (auto simp: bind_err_Inr split: if_split_asm)
  then show ?thesis
    by cases (use m in blast, (simp, rule l, rule body_add_class [OF w], assumption)+)
qed

lemma strtol_budget:
  "handle_session_refusal_budget st n toks = Inr st' \<Longrightarrow> st_ok st \<Longrightarrow> st_ok st'"
  "handle_refusal_budget st n toks = Inr st' \<Longrightarrow> st_ok st \<Longrightarrow> st_ok st'"
proof -
  show "st_ok st'" if h: "handle_session_refusal_budget st n toks = Inr st'" and ok: "st_ok st"
  proof -
    obtain v e where s: "strtol10 (toks ! Suc 0) = (v, e)" by force
    have "1 \<le> v" "v \<le> 1000000"
      and st': "st' = st\<lparr>cfg := (cfg st)\<lparr>session_refusal_budget := nat v mod 2 ^ 32, session_budget_set := True\<rparr>\<rparr>"
      using h by (auto simp: handle_session_refusal_budget_def s split: if_splits)
    then have "1 \<le> nat v mod 2 ^ 32" "nat v mod 2 ^ 32 \<le> 1000000" by (simp_all add: nat_le_iff)
    then show ?thesis using ok unfolding st'
      by (simp add: st_ok_def cfg_ok_def labels_ok_def declared_def split: option.splits)
  qed
  show "st_ok st'" if h: "handle_refusal_budget st n toks = Inr st'" and ok: "st_ok st"
  proof -
    obtain v e where s: "strtol10 (toks ! Suc 0) = (v, e)" by force
    have st': "st' = st\<lparr>cfg := (cfg st)\<lparr>refusal_budget := nat v mod 2 ^ 32, budget_set := True\<rparr>\<rparr>"
      using h by (auto simp: handle_refusal_budget_def s split: if_splits)
    have "nat v mod 2 ^ 32 < Suc UINT_MAX" by simp
    then have "nat v mod 2 ^ 32 \<le> UINT_MAX" by (simp only: less_Suc_eq_le)
    then show ?thesis using ok unfolding st'
      by (simp add: st_ok_def cfg_ok_def labels_ok_def declared_def split: option.splits)
  qed
qed

lemma parse_disposition_ok: "parse_disposition st n toks = Inr (d, st') \<Longrightarrow> st_ok st \<Longrightarrow> disp_ok d \<and> st_ok st'"
  by (auto simp: parse_disposition_def bind_err_Inr alloc_Inr disp_ok_def split: if_splits)

lemma handle_exhaustion_ok:
  assumes "handle_on_exhaustion st n toks = Inr st'" and "st_ok st"
  shows "st_ok st'"
proof -
  obtain d st1 where p: "parse_disposition st n toks = Inr (d, st1)"
    and st': "st' = st1\<lparr>cfg := (cfg st1)\<lparr>on_exhaustion := d, on_exhaustion_set := True\<rparr>\<rparr>"
    using assms(1) by (auto simp: handle_on_exhaustion_def bind_err_Inr split: if_splits)
  then show ?thesis
    using parse_disposition_ok [OF p assms(2)] by (simp add: st_ok_def cfg_ok_def labels_ok_def declared_def)
qed

lemma handle_unknown_ok:
  assumes "handle_unknown_disposition st n toks = Inr st'" and "st_ok st"
  shows "st_ok st'"
proof -
  obtain d st1 where p: "parse_disposition st n toks = Inr (d, st1)"
    and st': "st' = st1\<lparr>cfg := (cfg st1)\<lparr>unknown_disp := d, unknown_disp_set := True\<rparr>\<rparr>"
    using assms(1) by (auto simp: handle_unknown_disposition_def bind_err_Inr split: if_splits)
  then show ?thesis
    using parse_disposition_ok [OF p assms(2)] by (simp add: st_ok_def cfg_ok_def labels_ok_def declared_def)
qed

lemma handle_top_cases:
  assumes "handle_top st n toks = Inr st'"
  shows "handle_varek_policy st n toks = Inr st' \<or> handle_strict st n toks = Inr st' \<or> handle_trust_fields st n toks = Inr st' \<or>
    handle_label st n toks = Inr st' \<or> handle_sticky st n toks = Inr st' \<or> handle_rule st n toks = Inr st' \<or>
    handle_refusal_budget st n toks = Inr st' \<or> handle_session_refusal_budget st n toks = Inr st' \<or>
    handle_on_exhaustion st n toks = Inr st' \<or> handle_unknown_disposition st n toks = Inr st'"
  using assms unfolding handle_top_def Let_def by (simp only: split: if_split_asm) simp_all

lemma handle_top_ok: "handle_top st n toks = Inr st' \<Longrightarrow> st_ok st \<Longrightarrow> st_ok st'"
  using handle_top_cases [of st n toks st'] handle_version_ok handle_strict_ok handle_trust_ok handle_label_ok
    handle_sticky_ok handle_rule_ok strtol_budget handle_exhaustion_ok handle_unknown_ok by metis

lemma load_line_ok:
  assumes "load_line st buf = Inr st'" and ok: "st_ok st"
  shows "st_ok st'"
proof -
  have body: "handle_body st i n toks = Inr st' \<Longrightarrow> current_rule st = Some i \<Longrightarrow> st_ok st'" for i n toks
    using handle_body_ok [OF ok, of i n toks st'] ok unfolding st_ok_def [of st] by blast
  have top: "handle_top (st\<lparr>current_rule := None\<rparr>) n toks = Inr st1 \<Longrightarrow> st_ok st1" for n toks st1
    using handle_top_ok st_ok_flags(3) [OF ok] by blast
  show ?thesis
    using assms(1) ok body top unfolding load_line_def Let_def
    by (auto simp: bind_err_Inr split: if_split_asm prod.split_asm option.split_asm)
qed

lemma load_lines_ok: "load_lines s n st = Inr (st', n') \<Longrightarrow> st_ok st \<Longrightarrow> st_ok st'"
proof (induction s n st rule: load_lines.induct)
  case (1 s n st)
  show ?case
  proof (cases "s = []")
    case True
    then show ?thesis using 1 by (simp add: load_lines.simps)
  next
    case False
    obtain buf rest where f: "fgets s = (buf, rest)" by force
    then obtain st1 where l: "load_line st buf = Inr st1" "load_lines rest (n + 1) st1 = Inr (st', n')"
      using 1(2) False by (subst (asm) load_lines.simps) (auto split: sum.splits)
    then show ?thesis using 1(1) [OF False _ _ l(1)] 1(3) f load_line_ok by simp
  qed
qed

lemma cfg_zero_ok: "cfg_ok cfg_zero"
  by (simp add: cfg_zero_def cfg_ok_def labels_ok_def declared_def disp_ok_def lab.clear)

lemma loaded_ok:
  assumes "plan_label_policy_config_load_stream memory err stream = Inr c"
  shows "cfg_ok c \<and> (session_budget_set c \<longrightarrow> budget_set c)"
proof -
  obtain body st n where l: "load_lines body 0 \<lparr>cfg = cfg_zero, version_seen = False, any_decl_seen = False,
      current_rule = None, mem = memory - 1\<rparr> = Inr (st, n)"
    and c: "c = cfg st" "session_budget_set (cfg st) \<longrightarrow> budget_set (cfg st)"
    using assms by (auto simp: plan_label_policy_config_load_stream_def Let_def split: option.splits if_splits sum.splits prod.splits)
  have "st_ok st" by (rule load_lines_ok [OF l]) (simp add: st_ok_def cfg_zero_ok)
  then show ?thesis using c by (simp add: st_ok_def)
qed

section \<open>Loading as a fold over the lines\<close>

fun run_lines :: "parse_state \<Rightarrow> string list \<Rightarrow> cfg_error + parse_state" where
  "run_lines st [] = Inr st"
| "run_lines st (l # ls) = bind_err (load_line st l) (\<lambda>st'. run_lines st' ls)"

lemma load_lines_step:
  assumes "s \<noteq> []" and "fgets s = (buf, rest)"
  shows "load_lines s n st = (case load_line st buf of Inl e \<Rightarrow> Inl (e, n + 1) | Inr st' \<Rightarrow> load_lines rest (n + 1) st')"
  using assms by (subst load_lines.simps) simp

lemma load_lines_run:
  "load_lines s n st = Inr (st', k) \<longleftrightarrow> run_lines st (fgets_lines s) = Inr st' \<and> k = n + length (fgets_lines s)"
proof (induction s arbitrary: n st rule: fgets_lines.induct)
  case (1 s)
  show ?case
  proof (cases "s = []")
    case True
    then show ?thesis by (auto simp: load_lines.simps fgets_lines_Nil)
  next
    case False
    obtain buf rest where f: "fgets s = (buf, rest)" by force
    show ?thesis
      using 1 [OF False] by (auto simp: load_lines_step [OF False f] fgets_lines_Cons [OF False f] f bind_err_def split: sum.splits)
  qed
qed

lemma load_lines_error:
  "load_lines s n st = Inl (e, k) \<longleftrightarrow>
     (\<exists>i < length (fgets_lines s). \<exists>st1. k = n + i + 1 \<and> run_lines st (take i (fgets_lines s)) = Inr st1 \<and>
        load_line st1 (fgets_lines s ! i) = Inl e)"
proof (induction s arbitrary: n st rule: fgets_lines.induct)
  case (1 s)
  show ?case
  proof (cases "s = []")
    case True
    then show ?thesis by (auto simp: load_lines.simps fgets_lines_Nil)
  next
    case False
    obtain buf rest where f: "fgets s = (buf, rest)" by force
    note step = load_lines_step [OF False f, of n st] and ls = fgets_lines_Cons [OF False f]
    have ex: "(\<exists>i < Suc m. P i) \<longleftrightarrow> P 0 \<or> (\<exists>i < m. P (Suc i))" for m P
      by (auto simp: less_Suc_eq_0_disj)
    show ?thesis
    proof (cases "load_line st buf")
      case (Inl e1)
      then show ?thesis by (auto simp: step ls ex bind_err_def)
    next
      case (Inr st1)
      then show ?thesis using 1 [OF False, of "n + 1" st1]
        by (simp add: step ls ex f bind_err_def)
    qed
  qed
qed

section \<open>Properties\<close>

text \<open>The state before the first line.\<close>

abbreviation initial_state :: "nat \<Rightarrow> parse_state" where
  "initial_state m \<equiv> \<lparr>cfg = cfg_zero, version_seen = False, any_decl_seen = False, current_rule = None, mem = m\<rparr>"

lemma load_stream_lines:
  "plan_label_policy_config_load_stream (Suc m) read_error (Some s) =
     (case load_lines s 0 (initial_state m) of
        Inl e \<Rightarrow> Inl e
      | Inr (st, line_no) \<Rightarrow>
          if read_error then Inl (ERR_IO, line_no)
          else if session_budget_set (cfg st) \<and> \<not> budget_set (cfg st) then Inl (ERR_SBUDGET_ALONE, line_no)
          else Inr (cfg st))"
  by (simp add: plan_label_policy_config_load_stream_def)


text \<open>A policy text used by the examples below, and what each of its lines does.\<close>

definition sample_lines :: "string list" where
  "sample_lines = [''label a 3'' @ nl, ''sticky a'' @ nl, ''rule put'' @ nl, '' deny_in a'' @ nl]"

text \<open>A line (without its newline) that holds a statement, its tokens and whether it is indented.\<close>

definition statement_line :: "string \<Rightarrow> string list \<Rightarrow> bool \<Rightarrow> bool" where
  "statement_line l toks indented \<longleftrightarrow>
     tokenize l 4 [] = (toks, length toks) \<and> toks \<noteq> [] \<and> list_ex (Not \<circ> isspace) l \<and>
     hd (dropWhile isspace l) \<noteq> CHR ''#'' \<and> CHR 0x00 \<notin> set l \<and> last l \<noteq> newline \<and> last l \<noteq> CHR 0x0D \<and>
     isspace (hd l) = indented \<and> length toks \<le> 4"

lemma load_line_statement:
  assumes "statement_line l toks indented"
  shows "load_line st (l @ nl) =
    (if indented then
       (case current_rule st of None \<Rightarrow> Inl ERR_INDENTED_OUTSIDE | Some i \<Rightarrow> handle_body st i (length toks) toks)
     else bind_err (handle_top (st\<lparr>current_rule := None\<rparr>) (length toks) toks)
            (\<lambda>st. Inr (if toks ! 0 \<noteq> ''varek_policy'' then st\<lparr>any_decl_seen := True\<rparr> else st)))"
proof -
  note a = assms [unfolded statement_line_def]
  have c: "c_string (l @ nl) = l @ nl"
    unfolding c_string_def takeWhile_eq_all_conv using a by (auto simp: nl_def newline_def)
  have e: "dropWhile isspace l \<noteq> []" using a by (auto simp: list_ex_iff)
  then have ne: "l \<noteq> []" by auto
  then have r: "rev (dropWhile (\<lambda>c. c = newline \<or> c = CHR 0x0D) (rev (l @ nl))) = l"
    using a by (cases l rule: rev_cases) (simp_all add: nl_def)
  have "last (l @ nl) = newline" by (simp add: nl_def)
  then show ?thesis unfolding load_line_def c Let_def r if_not_P [OF e] using ne a by simp
qed

lemma sample_statements:
  "statement_line ''label a 3'' [''label'', ''a'', ''3''] False"
  "statement_line ''sticky a'' [''sticky'', ''a''] False"
  "statement_line ''rule put'' [''rule'', ''put''] False"
  "statement_line '' deny_in a'' [''deny_in'', ''a''] True"
  by code_simp+

lemmas sample_line = sample_statements [THEN load_line_statement]

lemma str3: "strtol10 ''3'' = (3, [])"
  by code_simp

lemma lookup_none: "lookup_label cfg_zero name = PLAN_LABEL_INVALID"
  by (cases rule: lookup_label_cases [of cfg_zero name]) (simp_all add: cfg_zero_def)

lemma lookup_single: "label_names c = [3 \<mapsto> name] \<Longrightarrow> lookup_label c name = 3"
proof (cases rule: lookup_label_cases [of c name])
  case missing
  assume "label_names c = [3 \<mapsto> name]"
  then show ?thesis using missing(2) [of 3] by (simp add: PLAN_MAX_LABELS_def)
qed (auto split: if_splits)

definition sample_config :: plan_label_policy_config where
  "sample_config = cfg_zero\<lparr>cfg_sticky := [8, 0], label_names := [3 \<mapsto> ''a''], n_labels := 1, cap_rules := 16,
     cfg_rules := [\<lparr>rule_action = Some ''put'', rule_classify = empty_class\<lparr>cls_deny_in := [8, 0]\<rparr>, rule_matches = []\<rparr>]\<rparr>"

lemma add_3: "plan_label_set_add plan_label_set_clear 3 = (0, [8, 0])"
  by code_simp

lemma sample_line1: "load_line (initial_state 5) (''label a 3'' @ nl) =
  Inr \<lparr>cfg = cfg_zero\<lparr>label_names := [3 \<mapsto> ''a''], n_labels := 1\<rparr>, version_seen = False, any_decl_seen = True,
    current_rule = None, mem = 4\<rparr>"
  by (subst sample_line) (simp add: handle_top_def handle_label_def str3 lookup_none bind_err_def alloc_def
       PLAN_MAX_LABELS_def, simp add: cfg_zero_def)

lemma sample_line2:
  "label_names (cfg st) = [3 \<mapsto> ''a''] \<Longrightarrow> cfg_sticky (cfg st) = plan_label_set_clear \<Longrightarrow> load_line st (''sticky a'' @ nl) =
  Inr (st\<lparr>cfg := (cfg st)\<lparr>cfg_sticky := [8, 0]\<rparr>, any_decl_seen := True, current_rule := None\<rparr>)"
  by (subst sample_line) (simp add: handle_top_def handle_sticky_def lookup_single add_3 bind_err_def)

lemma sample_line3:
  "cfg_rules (cfg st) = [] \<Longrightarrow> cap_rules (cfg st) = 0 \<Longrightarrow> mem st = 4 \<Longrightarrow> load_line st (''rule put'' @ nl) =
  Inr (st\<lparr>cfg := (cfg st)\<lparr>cap_rules := 16,
       cfg_rules := [\<lparr>rule_action = Some ''put'', rule_classify = empty_class, rule_matches = []\<rparr>]\<rparr>,
     any_decl_seen := True, current_rule := Some 0, mem := 2\<rparr>)"
  by (subst sample_line) (simp add: handle_top_def handle_rule_def bind_err_def alloc_def ensure_rule_capacity_def)

lemma sample_line4:
  "cfg_rules (cfg st) = [r] \<Longrightarrow> rule_classify r = empty_class \<Longrightarrow> label_names (cfg st) = [3 \<mapsto> ''a''] \<Longrightarrow>
   current_rule st = Some 0 \<Longrightarrow> load_line st ('' deny_in a'' @ nl) =
  Inr (st\<lparr>cfg := (cfg st)\<lparr>cfg_rules := [r\<lparr>rule_classify := empty_class\<lparr>cls_deny_in := [8, 0]\<rparr>\<rparr>]\<rparr>\<rparr>)"
  by (subst sample_line) (simp add: handle_body_def body_add_label_def lookup_single empty_class_def add_3
      bind_err_def update_rule_def)

lemma sample_run: "run_lines (initial_state 5) sample_lines =
  Inr \<lparr>cfg = sample_config, version_seen = False, any_decl_seen = True, current_rule = Some 0, mem = 2\<rparr>"
  unfolding sample_lines_def run_lines.simps
  by (simp only: sample_line1 bind_err_def sum.case)
    (simp del: append_Cons append_Nil append.simps add: sample_line2 sample_line3 sample_line4 cfg_zero_def sample_config_def)

lemma sample_concat: "fgets_lines (concat sample_lines) = sample_lines"
  using fgets_lines_concat [of "[''label a 3'', ''sticky a'', ''rule put'', '' deny_in a'']"]
  by (simp add: sample_lines_def newline_def)

lemma sample_loads: "plan_label_policy_config_load_stream 6 False (Some (concat sample_lines)) = Inr sample_config"
proof -
  have "load_lines (concat sample_lines) 0 (initial_state 5) =
      Inr (\<lparr>cfg = sample_config, version_seen = False, any_decl_seen = True, current_rule = Some 0, mem = 2\<rparr>, 4)"
    unfolding load_lines_run sample_concat sample_run by (simp add: sample_lines_def)
  then show ?thesis
    using load_stream_lines [of 5 False "concat sample_lines"] by (simp add: sample_config_def cfg_zero_def)
qed

text \<open>C30. What a successful load guarantees of the configuration: the labels declared are below 128, counted
  and named apart; every rule names an action, and its classification and the sticky set only use
  declared labels; every constraint has a key and a pattern; the array of rules has room; a session
  budget is between 1 and 1000000 and never comes without a budget; a disposition has an action
  exactly when it is terminal.\<close>

theorem config_invariant:
  assumes "plan_label_policy_config_load memory open_file path = Inr c"
  shows "cfg_ok c \<and> (session_budget_set c \<longrightarrow> budget_set c)"
  using assms loaded_ok
  by (auto simp: plan_label_policy_config_load_def split: option.splits)

theorem config_invariant_witness: "cfg_ok sample_config"
proof -
  have "plan_label_policy_config_load 6 (\<lambda>_. Some (concat sample_lines, False)) (Some ''p'') = Inr sample_config"
    by (simp add: plan_label_policy_config_load_def sample_loads)
  then show ?thesis using config_invariant by blast
qed

lemma cfg_ok_table: "cfg_ok c \<Longrightarrow> wf_table (cfg_table c) \<and> wf_lset (cfg_sticky c)"
  by (auto simp: cfg_ok_def wf_table_def cfg_table_def rule_ok_def list_all_iff)


definition sample_request :: plan_warden_request where
  "sample_request = two_sends\<lparr>req_policy := plan_label_policy_config_policy (Some sample_config)\<rparr>"


text \<open>Label names: in a loaded configuration looking a name up and naming a label are inverse, and the
  number of labels is that of the names.\<close>

theorem label_names_roundtrip:
  assumes "plan_label_policy_config_load_stream memory read_error stream = Inr c"
  shows "(lookup_label c name = t \<and> t \<noteq> PLAN_LABEL_INVALID \<longleftrightarrow>
      plan_label_policy_config_label_name t (Some c) = Some name) \<and>
    plan_label_policy_config_n_labels (Some c) = card {t. plan_label_policy_config_label_name t (Some c) \<noteq> None}"
proof -
  have ok: "labels_ok c" using loaded_ok [OF assms] by (simp add: cfg_ok_def)
  have b: "label_names c t = None" if "\<not> t < PLAN_MAX_LABELS" for t
    using ok that by (auto simp: labels_ok_def declared_def)
  then have n: "plan_label_policy_config_label_name t (Some c) = label_names c t" for t
    by (simp add: plan_label_policy_config_label_name_def)
  have "lookup_label c name = t \<and> t \<noteq> PLAN_LABEL_INVALID \<longleftrightarrow> label_names c t = Some name"
  proof (cases rule: lookup_label_cases [of c name])
    case missing
    then show ?thesis using b [of t] by (cases "t < PLAN_MAX_LABELS") auto
  next
    case (found i)
    then show ?thesis using ok unfolding labels_ok_def by metis
  qed
  then show ?thesis using ok by (simp add: n plan_label_policy_config_n_labels_def labels_ok_def declared_def)
qed

theorem label_names_roundtrip_witness: "lookup_label sample_config ''a'' = 3"
  using label_names_roundtrip [OF sample_loads, of "''a''" 3]
  by (simp add: plan_label_policy_config_label_name_def sample_config_def PLAN_MAX_LABELS_def)

lemma class_of_cases: "class_of tbl acts v = empty_class \<or> class_of tbl acts v \<in> rule_classify ` set (rules tbl)"
proof (cases "first_rule (acts ! v) (rules tbl)")
  case None
  then show ?thesis by (auto simp: class_of_def plan_label_policy_from_table_def split: option.splits)
next
  case (Some r)
  then have "r \<in> set (rules tbl)" by (auto simp: first_rule_Some first_match_def)
  then show ?thesis using Some by (auto simp: class_of_def plan_label_policy_from_table_def split: option.splits)
qed

text \<open>A configuration that \<open>plan_label_policy_config_can_refuse\<close> calls harmless never refuses on the flow
  axis: the gate then asks no more than that the actions are classified and that the plan is authorized
  on its own.\<close>

theorem can_refuse_sound:
  assumes "plan_label_policy_config_load_stream memory read_error stream = Inr c"
    and "\<not> plan_label_policy_config_can_refuse (Some c)"
  shows "gate_spec p acts (cfg_table c) (cfg_sticky c) \<longleftrightarrow>
    length acts = n_nodes p \<and> (\<forall>a \<in> set acts. fst (plan_label_policy_from_table (cfg_table c) a empty_class) = 0) \<and>
    nodes p \<noteq> [] \<and> acyclic (plan_rel p) \<and> (\<forall>x \<in> set (nodes p). node_decision x = PLAN_DEC_SATISFIED)"
proof -
  have ok: "cfg_ok c" using loaded_ok [OF assms(1)] by simp
  have st: "lset (cfg_sticky c) = {}"
    using assms(2) ok lab.empty [of "cfg_sticky c"]
    by (auto simp: plan_label_policy_config_can_refuse_def cfg_ok_def split: if_splits)
  have r: "lset (cls_deny_in (rule_classify r)) = {} \<and> lset (cls_unknown_in (rule_classify r)) = {}" if "r \<in> set (cfg_rules c)" for r
  proof -
    have w: "wf_class (rule_classify r)" using ok that by (auto simp: cfg_ok_def rule_ok_def)
    have "plan_label_set_empty (cls_deny_in (rule_classify r)) \<and> plan_label_set_empty (cls_unknown_in (rule_classify r))"
      using assms(2) that by (auto simp: plan_label_policy_config_can_refuse_def list_ex_iff split: if_splits)
    then show ?thesis using w lab.empty by (auto simp: wf_class_def)
  qed
  have "lset (cls_deny_in (class_of (cfg_table c) acts v)) = {} \<and> lset (cls_unknown_in (class_of (cfg_table c) acts v)) = {}" for v
    using class_of_cases [of "cfg_table c" acts v] r by (auto simp: cfg_table_def empty_class_def lab.clear)
  then show ?thesis using st by (simp add: gate_spec_def)
qed

lemma zero_loads: "plan_label_policy_config_load_stream 1 False (Some []) = Inr cfg_zero"
  using load_stream_lines [of 0 False "[]"] by (simp add: load_lines.simps cfg_zero_def)

theorem can_refuse_sound_witness:
  "gate_spec empty_plan [] (cfg_table cfg_zero) (cfg_sticky cfg_zero) \<longleftrightarrow> nodes empty_plan \<noteq> []"
proof -
  have "\<not> plan_label_policy_config_can_refuse (Some cfg_zero)" by code_simp
  from can_refuse_sound [OF zero_loads this, of empty_plan "[]"] show ?thesis by (auto simp: empty_plan_def)
qed

text \<open>A budget of 2 to the 32 is accepted (only values below 1 are refused) and stored as 0: the breaker
  is enabled with no refusal left.\<close>

theorem refusal_budget_wraps:
  "\<exists>c. plan_label_policy_config_load_stream (Suc m) False (Some (''refusal_budget 4294967296'' @ nl)) = Inr c \<and>
     plan_label_policy_config_breaker_enabled (Some c) \<and> plan_label_policy_config_refusal_budget (Some c) = 0"
proof -
  have s: "statement_line ''refusal_budget 4294967296'' [''refusal_budget'', ''4294967296''] False" by code_simp
  have n: "strtol10 ''4294967296'' = (4294967296, [])" by (simp add: strtol10_def decval_def ctype_defs byte_def)
  let ?st = "\<lparr>cfg = cfg_zero\<lparr>refusal_budget := 0, budget_set := True\<rparr>, version_seen = False, any_decl_seen = True,
    current_rule = None, mem = m\<rparr>"
  have "load_line (initial_state m) (''refusal_budget 4294967296'' @ nl) = Inr ?st"
    by (subst load_line_statement [OF s])
      (simp add: handle_top_def handle_refusal_budget_def n bind_err_def, simp add: cfg_zero_def)
  moreover have "fgets_lines (''refusal_budget 4294967296'' @ nl) = [''refusal_budget 4294967296'' @ nl]"
    using fgets_lines_concat [of "[''refusal_budget 4294967296'']"] by (simp add: newline_def)
  ultimately have "load_lines (''refusal_budget 4294967296'' @ nl) 0 (initial_state m) = Inr (?st, 1)"
    unfolding load_lines_run by (simp add: bind_err_def)
  then show ?thesis
    unfolding load_stream_lines
    by (simp add: plan_label_policy_config_breaker_enabled_def plan_label_policy_config_refusal_budget_def cfg_zero_def)
qed

end
