(* ===== verification/Breaker_Signature.thy ===== *)
theory Breaker_Signature
  imports Label_Policy "HOL-Library.Product_Lexorder"
begin

text \<open>
  How the breaker recognises "the same refused thing": the FNV-1a signatures at the head of
  \<^verbatim>\<open>src/v1_7/plan_breaker.c\<close>. A \<^verbatim>\<open>uint64_t\<close> is hashed as its eight bytes, least significant first (the
  layout of the x86-64 and AArch64 targets). \<open>qsort\<close> with a total order is \<^const>\<open>sort\<close>: sorted permutations
  of a list are equal.
\<close>

unbundle bit_operations_syntax

section \<open>Signatures\<close>

definition fnv1a :: "u64 \<Rightarrow> nat list \<Rightarrow> u64" where
  "fnv1a h data = foldl (\<lambda>h p. (h XOR of_nat p) * 0x00000100000001B3) h data"

definition u64_bytes :: "u64 \<Rightarrow> nat list" where
  "u64_bytes w = map (\<lambda>i. unat (drop_bit (8 * i) w AND 0xFF)) [0..<8]"

definition fnv1a_str :: "u64 \<Rightarrow> cstr option \<Rightarrow> u64" where
  "fnv1a_str h s =
     (let h = fnv1a h (u64_bytes (of_nat (case s of None \<Rightarrow> 0 | Some t \<Rightarrow> length t))) in
      case s of None \<Rightarrow> h | Some t \<Rightarrow> fnv1a h (map byte t))"

abbreviation FNV_BASIS :: u64 where "FNV_BASIS \<equiv> 0xCBF29CE484222325"

text \<open>The name and the arguments of one action, hashed into \<open>h\<close>.\<close>

definition hash_action :: "u64 \<Rightarrow> plan_action_desc \<Rightarrow> u64" where
  "hash_action h a =
     foldl (\<lambda>h arg. fnv1a_str (fnv1a_str h (arg_key arg)) (arg_value arg))
       (fnv1a (fnv1a_str h (act_name a)) (u64_bytes (of_nat (length (named_args a))))) (named_args a)"

definition plan_breaker_signature :: "plan_action_desc list option \<Rightarrow> nat \<Rightarrow> u64" where
  "plan_breaker_signature actions n_actions =
     (let h = fnv1a FNV_BASIS (u64_bytes (of_nat n_actions)) in
      case actions of None \<Rightarrow> h | Some as \<Rightarrow> foldl hash_action h (take n_actions as))"

definition step_hash :: "plan_action_desc \<Rightarrow> u64" where
  "step_hash a = hash_action FNV_BASIS a"

text \<open>The canonical order of the steps, and the position of each step in it.\<close>

definition step_order :: "u64 list \<Rightarrow> nat list" where
  "step_order st = map snd (sort (zip st [0..<length st]))"

definition step_pos :: "nat list \<Rightarrow> nat list" where
  "step_pos ord = foldl (\<lambda>pos k. pos[ord ! k := k]) (replicate (length ord) 0) [0..<length ord]"

definition graph_edges :: "nat \<Rightarrow> nat list \<Rightarrow> (nat \<times> nat) list \<Rightarrow> (nat \<times> nat) list" where
  "graph_edges n pos es =
     remdups_adj (sort (map (\<lambda>(a, b). (pos ! a, pos ! b)) (filter (\<lambda>(a, b). a < n \<and> b < n) es)))"

text \<open>\<open>edges\<close> is \<^const>\<open>None\<close> when one of the two arrays is NULL; \<open>alloc_ok\<close> says whether the four scratch
  arrays could be allocated.\<close>

definition plan_breaker_signature_graph :: "bool \<Rightarrow> plan_action_desc list \<Rightarrow> (nat \<times> nat) list option \<Rightarrow> u64" where
  "plan_breaker_signature_graph alloc_ok actions es =
     (if \<not> alloc_ok then plan_breaker_signature (Some actions) (length actions) XOR 1
      else
        let n = length actions;
            st = map step_hash actions;
            ord = step_order st;
            ed = graph_edges n (step_pos ord) (case es of None \<Rightarrow> [] | Some es \<Rightarrow> es);
            h = fnv1a FNV_BASIS (map byte ''graph-2'');
            h = fnv1a h (u64_bytes (of_nat n));
            h = foldl (\<lambda>h k. fnv1a h (u64_bytes (st ! k))) h ord;
            h = foldl (\<lambda>h (a, b). fnv1a h (u64_bytes (of_nat a) @ u64_bytes (of_nat b))) h ed
        in fnv1a h (u64_bytes (of_nat (length ed))))"

section \<open>The canonical order\<close>

lemma distinct_sorted_dedup: "sorted xs \<Longrightarrow> distinct (remdups_adj xs)"
  by (induction xs rule: remdups_adj.induct) (auto simp: order.antisym)

lemma sorted_dedup:
  fixes xs ys :: "'a::linorder list"
  assumes "set xs = set ys"
  shows "remdups_adj (sort xs) = remdups_adj (sort ys)"
  using assms by (intro sorted_distinct_set_unique) (simp_all add: distinct_sorted_dedup)

definition in_range :: "nat \<Rightarrow> (nat \<times> nat) list \<Rightarrow> (nat \<times> nat) set" where
  "in_range n es = set (filter (\<lambda>(a, b). a < n \<and> b < n) es)"

lemma graph_edges_set:
  assumes "(\<lambda>(a, b). (pos ! a, pos ! b)) ` in_range n es = (\<lambda>(a, b). (pos' ! a, pos' ! b)) ` in_range n es'"
  shows "graph_edges n pos es = graph_edges n pos' es'"
  using assms unfolding graph_edges_def in_range_def by (intro sorted_dedup) (simp only: set_map)

lemma order_mset: "mset (step_order st) = mset [0..<length st]"
proof -
  have "mset (step_order st) = image_mset snd (mset (zip st [0..<length st]))"
    by (simp only: step_order_def mset_map mset_sort)
  also have "\<dots> = mset (map snd (zip st [0..<length st]))" by (simp only: mset_map)
  finally show ?thesis by simp
qed

lemma order_props:
  "length (step_order st) = length st" "distinct (step_order st)" "set (step_order st) = {..<length st}"
  using mset_eq_length [OF order_mset] mset_eq_imp_distinct_iff [OF order_mset] mset_eq_setD [OF order_mset]
  by (simp_all add: lessThan_atLeast0)

lemma pos_order:
  assumes k: "k < length ord" and d: "distinct ord" and s: "set ord = {..<length ord}"
  shows "step_pos ord ! (ord ! k) = k"
proof -
  have bnd: "j < length ord \<Longrightarrow> ord ! j < length ord" for j using s nth_mem by blast
  have "m \<le> length ord \<Longrightarrow> (\<forall>j < m. foldl (\<lambda>pos k. pos[ord ! k := k]) (replicate (length ord) 0) [0..<m] ! (ord ! j) = j) \<and>
      length (foldl (\<lambda>pos k. pos[ord ! k := k]) (replicate (length ord) 0) [0..<m]) = length ord" for m
  proof (induction m)
    case (Suc m)
    have ne: "ord ! m \<noteq> ord ! j" if "j < m" for j using that Suc.prems d by (simp add: nth_eq_iff_index_eq)
    show ?case using Suc bnd [of m] ne by (simp add: less_Suc_eq nth_list_update)
  qed simp
  then show ?thesis using k by (simp add: step_pos_def)
qed

text \<open>The hashes in canonical order are the sorted hashes, so the position of a step among distinct ones is the
  rank of its hash.\<close>

lemma order_hashes: "map ((!) st) (step_order st) = sort st"
proof -
  let ?z = "sort (zip st [0..<length st])"
  have "st ! snd p = fst p" if "p \<in> set ?z" for p using that by (auto simp: in_set_zip)
  then have "map ((!) st) (step_order st) = map fst ?z" by (simp add: step_order_def)
  moreover have "mset (map fst ?z) = mset st" by simp (metis length_map length_upt minus_nat.diff_0 map_fst_zip mset_map)
  moreover have "sorted (map fst ?z)"
    unfolding sorted_map by (rule sorted_wrt_mono_rel [OF _ sorted_sort]) (auto simp: less_eq_prod_def)
  ultimately show ?thesis by (metis properties_for_sort)
qed

lemma pos_rank:
  assumes "distinct st" and "i < length st"
  shows "step_pos (step_order st) ! i < length st" and "sort st ! (step_pos (step_order st) ! i) = st ! i"
proof -
  let ?ord = "step_order st"
  have "i \<in> set ?ord" using assms(2) order_props(3) by auto
  then obtain k where k: "k < length ?ord" "?ord ! k = i" by (auto simp: in_set_conv_nth)
  then have p: "step_pos ?ord ! i = k" using pos_order [OF k(1)] order_props [of st] by auto
  then show "step_pos ?ord ! i < length st" using k order_props(1) [of st] by simp
  have "sort st ! k = map ((!) st) ?ord ! k" by (simp only: order_hashes)
  then show "sort st ! (step_pos ?ord ! i) = st ! i" using k p by simp
qed

text \<open>Listing distinct steps in another order, with the edges renamed, keeps every position.\<close>

lemma pos_permuted:
  assumes "distinct st" and "length st' = length st" and perm: "\<forall>i < length st. \<pi> i < length st \<and> st' ! i = st ! \<pi> i"
    and "mset st' = mset st" and i: "i < length st"
  shows "step_pos (step_order st') ! i = step_pos (step_order st) ! \<pi> i"
proof -
  have d': "distinct st'" using assms(1,4) mset_eq_imp_distinct_iff by blast
  have s: "sort st' = sort st" using assms(4) by (metis properties_for_sort mset_sort sorted_sort)
  note r' = pos_rank [OF d', of i] and r = pos_rank [OF assms(1), of "\<pi> i"]
  have "sort st ! (step_pos (step_order st') ! i) = sort st ! (step_pos (step_order st) ! \<pi> i)"
    using r' r perm i assms(2) s by simp
  moreover have "distinct (sort st)" using assms(1) by simp
  ultimately show ?thesis
    using nth_eq_iff_index_eq [of "sort st" "step_pos (step_order st') ! i" "step_pos (step_order st) ! \<pi> i"] r' r perm i assms(2)
    by simp
qed

lemma hash_order: "foldl (\<lambda>h k. f h (st ! k)) h (step_order st) = foldl f h (sort st)"
proof -
  have "foldl f h (map ((!) st) xs) = foldl (\<lambda>h k. f h (st ! k)) h xs" for xs by (induction xs arbitrary: h) simp_all
  then show ?thesis by (metis order_hashes)
qed

section \<open>Properties\<close>

text \<open>The signature of a graph does not depend on the order of its edges, on repeated edges, nor on edges
  that point outside the plan.\<close>

theorem signature_edge_order:
  assumes "in_range (length acts) es = in_range (length acts) es'"
  shows "plan_breaker_signature_graph True acts (Some es) = plan_breaker_signature_graph True acts (Some es')"
proof -
  have "graph_edges (length acts) pos es = graph_edges (length acts) pos es'" for pos
    using assms by (intro graph_edges_set) simp
  then show ?thesis by (simp add: plan_breaker_signature_graph_def)
qed

text \<open>Nor does it depend on the order in which distinct steps are listed: if step \<open>i\<close> of one listing is step
  \<open>\<pi> i\<close> of the other and the edges are renamed alike, the signatures agree.\<close>

theorem signature_step_order:
  assumes "distinct (map step_hash acts)" and "bij_betw \<pi> {..<length acts} {..<length acts}"
    and "acts' = map (\<lambda>i. acts ! \<pi> i) [0..<length acts]"
    and "(\<lambda>(a, b). (\<pi> a, \<pi> b)) ` in_range (length acts) es' = in_range (length acts) es"
  shows "plan_breaker_signature_graph True acts' (Some es') = plan_breaker_signature_graph True acts (Some es)"
proof -
  let ?n = "length acts" and ?st = "map step_hash acts" and ?st' = "map step_hash acts'"
  have len: "length acts' = ?n" using assms(3) by simp
  have pi: "i < ?n \<Longrightarrow> \<pi> i < ?n" for i using assms(2) by (auto simp: bij_betw_def)
  have st': "?st' = map (\<lambda>i. ?st ! \<pi> i) [0..<?n]" using assms(3) pi by simp
  have "mset ?st' = image_mset (\<lambda>i. ?st ! i) (image_mset \<pi> (mset_set {..<?n}))"
    unfolding st' by (simp add: multiset.map_comp comp_def lessThan_atLeast0)
  also have "image_mset \<pi> (mset_set {..<?n}) = mset_set {..<?n}"
    using assms(2) by (simp add: image_mset_mset_set bij_betw_def)
  also have "image_mset (\<lambda>i. ?st ! i) (mset_set {..<?n}) = mset ?st"
    by (metis lessThan_atLeast0 length_map map_nth mset_map mset_upt)
  finally have ms: "mset ?st' = mset ?st" .
  have pos: "step_pos (step_order ?st') ! i = step_pos (step_order ?st) ! \<pi> i" if "i < ?n" for i
    using pos_permuted [OF assms(1) _ _ ms, of \<pi> i] that pi st' by simp
  let ?p = "step_pos (step_order ?st)" and ?p' = "step_pos (step_order ?st')"
  have "(\<lambda>(a, b). (?p' ! a, ?p' ! b)) ` in_range ?n es' = (\<lambda>(a, b). (?p ! a, ?p ! b)) ` (\<lambda>(a, b). (\<pi> a, \<pi> b)) ` in_range ?n es'"
    unfolding image_image by (rule image_cong) (auto simp: in_range_def pos)
  then have "graph_edges ?n ?p' es' = graph_edges ?n ?p es" using assms(4) by (intro graph_edges_set) simp
  moreover have "sort ?st' = sort ?st" using ms by (metis properties_for_sort mset_sort sorted_sort)
  ultimately show ?thesis
    unfolding plan_breaker_signature_graph_def Let_def len hash_order [of "\<lambda>h w. fnv1a h (u64_bytes w)"] by simp
qed

definition step_named :: "string \<Rightarrow> plan_action_desc" where
  "step_named n = \<lparr>act_name = Some n, named_args = []\<rparr>"

theorem signature_edge_order_witness:
  "plan_breaker_signature_graph True [step_named ''a'', step_named ''b''] (Some [(0, 1), (7, 0), (0, 1)]) =
   plan_breaker_signature_graph True [step_named ''a'', step_named ''b''] (Some [(0, 1)])"
  by (rule signature_edge_order) (simp add: in_range_def)

theorem signature_step_order_witness:
  "plan_breaker_signature_graph True [step_named ''b'', step_named ''a''] (Some [(1, 0)]) =
   plan_breaker_signature_graph True [step_named ''a'', step_named ''b''] (Some [(0, 1)])"
proof (rule signature_step_order [of _ "\<lambda>i. 1 - i"])
  have "step_hash (step_named ''a'') \<noteq> step_hash (step_named ''b'')" by code_simp
  then show "distinct (map step_hash [step_named ''a'', step_named ''b''])" by simp
  have "bij_betw (\<lambda>i::nat. 1 - i) {0, 1} {0, 1}" by (auto simp: bij_betw_def inj_on_def)
  moreover have "{..<2} = {0, 1::nat}" by auto
  ultimately show "bij_betw (\<lambda>i. 1 - i) {..<length [step_named ''a'', step_named ''b'']} {..<length [step_named ''a'', step_named ''b'']}"
    by (simp add: numeral_2_eq_2)
qed (simp_all add: in_range_def)

text \<open>What the signature cannot do: for every plan of twelve steps or more there are two different sets of
  forward edges (two different acyclic graphs) with one signature, as a 64-bit value cannot tell \<open>2 ^ 66\<close>
  graphs apart.\<close>

theorem signature_collision:
  assumes "12 \<le> length acts"
  shows "\<exists>es es'. set es \<noteq> set es' \<and> set es \<subseteq> {(a, b). a < b \<and> b < length acts} \<and> set es' \<subseteq> {(a, b). a < b \<and> b < length acts} \<and>
    plan_breaker_signature_graph True acts (Some es) = plan_breaker_signature_graph True acts (Some es')"
proof -
  let ?P = "set (concat (map (\<lambda>b. map (\<lambda>a. (a, b)) [0..<b]) [0..<12]))"
  let ?f = "\<lambda>E. plan_breaker_signature_graph True acts (Some (sorted_list_of_set E))"
  have card: "card ?P = 66" by code_simp
  have fin: "finite ?P" by simp
  have "card (?f ` Pow ?P) \<le> card (UNIV :: u64 set)" by (rule card_mono) simp_all
  also have "\<dots> = 2 ^ 64" by (simp add: card_word)
  also have "\<dots> < card (Pow ?P)" using card_Pow [OF fin] card by simp
  finally have "\<not> inj_on ?f (Pow ?P)" by (rule pigeonhole)
  then obtain E E' where E: "E \<subseteq> ?P" "E' \<subseteq> ?P" "E \<noteq> E'" "?f E = ?f E'" by (auto simp: inj_on_def)
  have P: "?P \<subseteq> {(a, b). a < b \<and> b < length acts}" using assms by auto
  have sub: "E \<subseteq> ?P \<Longrightarrow> set (sorted_list_of_set E) = E \<and> E \<subseteq> {(a, b). a < b \<and> b < length acts}" for E
    using P finite_subset [OF _ fin, of E] by (simp del: set_concat)
  show ?thesis
    by (rule exI [of _ "sorted_list_of_set E"], rule exI [of _ "sorted_list_of_set E'"]) (use sub [OF E(1)] sub [OF E(2)] E(3,4) in simp)
qed

theorem signature_collision_witness:
  "\<exists>es es'. set es \<noteq> set es' \<and>
    plan_breaker_signature_graph True (replicate 12 (step_named ''a'')) (Some es) =
    plan_breaker_signature_graph True (replicate 12 (step_named ''a'')) (Some es')"
  using signature_collision [of "replicate 12 (step_named ''a'')"] by (simp only: length_replicate) blast

end
