(* ===== verification/Breaker.thy ===== *)
theory Breaker
  imports Policy_Config
begin

text \<open>
  The bounded-refusal breaker: \<^verbatim>\<open>src/v1_7/plan_breaker.h\<close> and the state table and step of
  \<^verbatim>\<open>plan_breaker.c\<close>. The gate itself has no memory; the breaker interprets the sequence of its verdicts
  for one session and one plan signature, and latches to a terminal disposition of the policy once the
  refusal budget of the plan, or of the session, is spent.

  The two tables are lists in the order of insertion with their capacity; a pointer to an element is its
  index. The outcomes of the allocations a call makes are an argument (\<open>allocs\<close>, in order; all that come
  after the list succeed), so every behaviour of the allocator is covered.
\<close>

section \<open>Data\<close>

datatype plan_breaker_outcome =
    PLAN_BREAKER_PASS
  | PLAN_BREAKER_REFUSED_RETRYABLE
  | PLAN_BREAKER_TERMINAL_DENY
  | PLAN_BREAKER_TERMINAL_ACTION

record plan_breaker_result =
  res_outcome :: plan_breaker_outcome
  res_refusals :: nat
  res_budget :: nat
  res_terminal_action :: "cstr option"
  res_latched :: bool
  res_session_refusals :: nat
  res_session_budget :: nat
  res_session_exhausted :: bool

record entry =
  e_session :: cstr
  e_signature :: u64
  e_refusals :: nat
  e_latched :: bool
  e_outcome :: plan_breaker_outcome
  e_action :: "cstr option"

record session =
  s_session :: cstr
  s_refusals :: nat
  s_latched :: bool
  s_outcome :: plan_breaker_outcome
  s_action :: "cstr option"

record plan_breaker =
  entries :: "entry list"
  cap :: nat
  sessions :: "session list"
  scap :: nat

definition plan_breaker_new :: "allocs \<Rightarrow> plan_breaker option \<times> allocs" where
  "plan_breaker_new al =
     (let (ok, al) = take_alloc al in
      (if ok then Some \<lparr>entries = [], cap = 0, sessions = [], scap = 0\<rparr> else None, al))"

section \<open>The tables\<close>

definition sid_key :: "cstr option \<Rightarrow> cstr" where
  "sid_key sid = (case sid of None \<Rightarrow> [] | Some s \<Rightarrow> s)"

definition find_entry :: "plan_breaker \<Rightarrow> cstr option \<Rightarrow> u64 \<Rightarrow> nat option" where
  "find_entry b sid sig =
     find (\<lambda>i. e_signature (entries b ! i) = sig \<and> e_session (entries b ! i) = sid_key sid) [0..<length (entries b)]"

definition new_entry :: "cstr \<Rightarrow> u64 \<Rightarrow> entry" where
  "new_entry key sig = \<lparr>e_session = key, e_signature = sig, e_refusals = 0, e_latched = False,
     e_outcome = PLAN_BREAKER_TERMINAL_DENY, e_action = None\<rparr>"

definition intern_entry :: "plan_breaker \<Rightarrow> cstr option \<Rightarrow> u64 \<Rightarrow> allocs \<Rightarrow> nat option \<times> plan_breaker \<times> allocs" where
  "intern_entry b sid sig al =
     (case find_entry b sid sig of
        Some i \<Rightarrow> (Some i, b, al)
      | None \<Rightarrow>
          let (grown, b, al) =
            (if length (entries b) = cap b then
               let (ok, al) = take_alloc al in
               (ok, if ok then b\<lparr>cap := (if cap b \<noteq> 0 then cap b * 2 else 16)\<rparr> else b, al)
             else (True, b, al))
          in if \<not> grown then (None, b, al)
             else
               let (dup, al) = take_alloc al in
               if \<not> dup then (None, b, al)
               else (Some (length (entries b)), b\<lparr>entries := entries b @ [new_entry (sid_key sid) sig]\<rparr>, al))"

definition find_session :: "plan_breaker \<Rightarrow> cstr option \<Rightarrow> nat option" where
  "find_session b sid = find (\<lambda>i. s_session (sessions b ! i) = sid_key sid) [0..<length (sessions b)]"

definition new_session :: "cstr \<Rightarrow> session" where
  "new_session key = \<lparr>s_session = key, s_refusals = 0, s_latched = False,
     s_outcome = PLAN_BREAKER_TERMINAL_DENY, s_action = None\<rparr>"

definition intern_session :: "plan_breaker \<Rightarrow> cstr option \<Rightarrow> allocs \<Rightarrow> nat option \<times> plan_breaker \<times> allocs" where
  "intern_session b sid al =
     (case find_session b sid of
        Some i \<Rightarrow> (Some i, b, al)
      | None \<Rightarrow>
          let (grown, b, al) =
            (if length (sessions b) = scap b then
               let (ok, al) = take_alloc al in
               (ok, if ok then b\<lparr>scap := (if scap b \<noteq> 0 then scap b * 2 else 8)\<rparr> else b, al)
             else (True, b, al))
          in if \<not> grown then (None, b, al)
             else
               let (dup, al) = take_alloc al in
               if \<not> dup then (None, b, al)
               else (Some (length (sessions b)), b\<lparr>sessions := sessions b @ [new_session (sid_key sid)]\<rparr>, al))"

definition terminalize :: "plan_disposition \<Rightarrow> plan_breaker_outcome \<times> cstr option" where
  "terminalize disp =
     (if disp_kind disp = PLAN_DISP_TERMINAL \<and> disp_action disp \<noteq> None
      then (PLAN_BREAKER_TERMINAL_ACTION, disp_action disp)
      else (PLAN_BREAKER_TERMINAL_DENY, None))"

section \<open>The step\<close>

definition upd_entry :: "nat \<Rightarrow> (entry \<Rightarrow> entry) \<Rightarrow> plan_breaker \<Rightarrow> plan_breaker" where
  "upd_entry i f b = b\<lparr>entries := (entries b)[i := f (entries b ! i)]\<rparr>"

definition upd_session :: "nat \<Rightarrow> (session \<Rightarrow> session) \<Rightarrow> plan_breaker \<Rightarrow> plan_breaker" where
  "upd_session i f b = b\<lparr>sessions := (sessions b)[i := f (sessions b ! i)]\<rparr>"

definition latch_entry :: "plan_breaker_outcome \<times> cstr option \<Rightarrow> entry \<Rightarrow> entry" where
  "latch_entry t e = e\<lparr>e_latched := True, e_outcome := fst t, e_action := snd t\<rparr>"

definition latch_session :: "plan_breaker_outcome \<times> cstr option \<Rightarrow> session \<Rightarrow> session" where
  "latch_session t s = s\<lparr>s_latched := True, s_outcome := fst t, s_action := snd t\<rparr>"

text \<open>The result as it is initialised.\<close>

definition result_init :: "plan_label_policy_config option \<Rightarrow> plan_breaker_result" where
  "result_init co =
     \<lparr>res_outcome = PLAN_BREAKER_TERMINAL_DENY, res_refusals = 0,
      res_budget = plan_label_policy_config_refusal_budget co, res_terminal_action = None, res_latched = False,
      res_session_refusals = 0, res_session_budget = plan_label_policy_config_session_refusal_budget co,
      res_session_exhausted = False\<rparr>"

text \<open>A SATISFIED verdict.\<close>

definition step_satisfied ::
  "plan_breaker option \<Rightarrow> cstr option \<Rightarrow> u64 \<Rightarrow> plan_breaker_result \<Rightarrow> plan_breaker_result \<times> plan_breaker option" where
  "step_satisfied bo session_id sig r =
     (let r = r\<lparr>res_outcome := PLAN_BREAKER_PASS\<rparr> in
      case bo of
        None \<Rightarrow> (r, None)
      | Some b \<Rightarrow>
          let b = (case find_entry b session_id sig of
                     None \<Rightarrow> b
                   | Some i \<Rightarrow> upd_entry i (\<lambda>e. e\<lparr>e_refusals := 0, e_latched := False, e_action := None\<rparr>) b)
          in (case find_session b session_id of
                None \<Rightarrow> (r, Some b)
              | Some j \<Rightarrow> (r\<lparr>res_session_refusals := s_refusals (sessions b ! j),
                              res_session_exhausted := s_latched (sessions b ! j)\<rparr>, Some b)))"

text \<open>A refusal of entry \<open>i\<close> in session \<open>j\<close>, neither of them latched: it is counted.\<close>

definition step_counted ::
  "plan_breaker \<Rightarrow> nat \<Rightarrow> nat \<Rightarrow> plan_decision \<Rightarrow> plan_label_policy_config option \<Rightarrow> plan_breaker_result \<Rightarrow>
   plan_breaker_result \<times> plan_breaker" where
  "step_counted b i j v co r =
     (let b = upd_session j (\<lambda>s. s\<lparr>s_refusals := (if s_refusals s < UINT_MAX then s_refusals s + 1 else s_refusals s)\<rparr>) b;
          n = s_refusals (sessions b ! j);
          r = r\<lparr>res_session_refusals := n\<rparr>;
          session_spent = (res_session_budget r \<noteq> 0 \<and> n \<ge> res_session_budget r);
          exh = terminalize (plan_label_policy_config_on_exhaustion co)
      in
      if v = PLAN_DEC_UNKNOWN then
        let t = terminalize (plan_label_policy_config_unknown_disposition co);
            b = upd_entry i (latch_entry t) b;
            r = r\<lparr>res_outcome := fst t, res_terminal_action := snd t, res_refusals := e_refusals (entries b ! i),
                   res_latched := True\<rparr>
        in if session_spent then (r\<lparr>res_session_exhausted := True\<rparr>, upd_session j (latch_session exh) b) else (r, b)
      else
        let b = upd_entry i (\<lambda>e. e\<lparr>e_refusals := (if e_refusals e < UINT_MAX then e_refusals e + 1 else e_refusals e)\<rparr>) b;
            m = e_refusals (entries b ! i);
            r = r\<lparr>res_refusals := m\<rparr>
        in if \<not> plan_label_policy_config_breaker_enabled co then (r\<lparr>res_outcome := PLAN_BREAKER_REFUSED_RETRYABLE\<rparr>, b)
           else if m < res_budget r \<and> \<not> session_spent then (r\<lparr>res_outcome := PLAN_BREAKER_REFUSED_RETRYABLE\<rparr>, b)
           else
             let b = upd_entry i (latch_entry exh) b;
                 r = r\<lparr>res_outcome := fst exh, res_terminal_action := snd exh, res_latched := True\<rparr>
             in if session_spent then (r\<lparr>res_session_exhausted := True\<rparr>, upd_session j (latch_session exh) b) else (r, b))"

definition step_refused ::
  "plan_breaker \<Rightarrow> nat \<Rightarrow> nat \<Rightarrow> plan_decision \<Rightarrow> plan_label_policy_config option \<Rightarrow> plan_breaker_result \<Rightarrow>
   plan_breaker_result \<times> plan_breaker" where
  "step_refused b i j v co r =
     (let e = entries b ! i; s = sessions b ! j in
      if e_latched e then
        (r\<lparr>res_outcome := e_outcome e, res_terminal_action := e_action e, res_refusals := e_refusals e,
           res_session_refusals := s_refusals s, res_latched := True, res_session_exhausted := s_latched s\<rparr>, b)
      else if s_latched s then
        (r\<lparr>res_outcome := s_outcome s, res_terminal_action := s_action s, res_refusals := e_refusals e,
           res_session_refusals := s_refusals s, res_latched := True, res_session_exhausted := True\<rparr>,
         upd_entry i (latch_entry (s_outcome s, s_action s)) b)
      else step_counted b i j v co r)"

definition fail_closed :: "plan_label_policy_config option \<Rightarrow> plan_breaker_result \<Rightarrow> plan_breaker_result" where
  "fail_closed co r =
     (let t = terminalize (plan_label_policy_config_on_exhaustion co) in
      r\<lparr>res_outcome := fst t, res_terminal_action := snd t, res_latched := True\<rparr>)"

definition plan_breaker_step ::
  "plan_breaker option \<Rightarrow> cstr option \<Rightarrow> u64 \<Rightarrow> plan_decision \<Rightarrow> plan_label_policy_config option \<Rightarrow> allocs \<Rightarrow>
   plan_breaker_result \<times> plan_breaker option \<times> allocs" where
  "plan_breaker_step bo session_id sig v co al =
     (let r = result_init co in
      if v = PLAN_DEC_SATISFIED then (let (r, bo) = step_satisfied bo session_id sig r in (r, bo, al))
      else
        (case bo of
           None \<Rightarrow> (fail_closed co r, None, al)
         | Some b \<Rightarrow>
             (case intern_session b session_id al of
                (None, b, al) \<Rightarrow> (fail_closed co r, Some b, al)
              | (Some j, b, al) \<Rightarrow>
                  (case intern_entry b session_id sig al of
                     (None, b, al) \<Rightarrow> (fail_closed co r, Some b, al)
                   | (Some i, b, al) \<Rightarrow> (let (r, b) = step_refused b i j v co r in (r, Some b, al))))))"

fun plan_breaker_outcome_name :: "plan_breaker_outcome \<Rightarrow> string" where
  "plan_breaker_outcome_name PLAN_BREAKER_PASS = ''PASS''"
| "plan_breaker_outcome_name PLAN_BREAKER_REFUSED_RETRYABLE = ''REFUSED_RETRYABLE''"
| "plan_breaker_outcome_name PLAN_BREAKER_TERMINAL_DENY = ''TERMINAL_DENY''"
| "plan_breaker_outcome_name PLAN_BREAKER_TERMINAL_ACTION = ''TERMINAL_ACTION''"

section \<open>The interface of an interned table\<close>

text \<open>Both tables promise the same: a lookup finds the element with the key, and interning a key adds at
  most one fresh element, at the end. What a client sees of a table is \<open>lookup\<close>.\<close>

locale interned =
  fixes tab :: "'b \<Rightarrow> 'e list" and key :: "'e \<Rightarrow> 'k" and fresh :: "'k \<Rightarrow> 'e"
    and find_in :: "'b \<Rightarrow> 'k \<Rightarrow> nat option" and intern_in :: "'b \<Rightarrow> 'k \<Rightarrow> allocs \<Rightarrow> nat option \<times> 'b \<times> allocs"
  assumes key_fresh: "key (fresh k) = k"
    and find_Some: "find_in b k = Some i \<Longrightarrow> i < length (tab b) \<and> key (tab b ! i) = k"
    and find_None: "find_in b k = None \<Longrightarrow> k \<notin> key ` set (tab b)"
    and intern_found: "find_in b k = Some i \<Longrightarrow> intern_in b k al = (Some i, b, al)"
    and intern_new: "find_in b k = None \<Longrightarrow> intern_in b k al = (io, b', al') \<Longrightarrow>
      (io = None \<and> tab b' = tab b) \<or> (io = Some (length (tab b)) \<and> tab b' = tab b @ [fresh k])"
    and intern_ok: "\<exists>i b'. intern_in b k [] = (Some i, b', [])"
begin

definition lookup :: "'b \<Rightarrow> 'k \<Rightarrow> 'e option" where
  "lookup b k = map_of (map (\<lambda>e. (key e, e)) (tab b)) k"

definition distinct_keys :: "'b \<Rightarrow> bool" where
  "distinct_keys b \<longleftrightarrow> distinct (map key (tab b))"

lemma lookup_tab: "tab b' = tab b \<Longrightarrow> lookup b' = lookup b"
  by (simp add: lookup_def fun_eq_iff)

lemma lookup_None: "lookup b k = None \<longleftrightarrow> k \<notin> key ` set (tab b)"
  by (auto simp: lookup_def map_of_eq_None_iff image_image)

lemma lookup_index: "distinct_keys b \<Longrightarrow> i < length (tab b) \<Longrightarrow> lookup b (key (tab b ! i)) = Some (tab b ! i)"
  unfolding lookup_def distinct_keys_def
  by (rule map_of_is_SomeI) (auto simp: comp_def)

lemma lookup_Some: "lookup b k = Some e \<Longrightarrow> e \<in> set (tab b) \<and> key e = k"
  by (auto simp: lookup_def dest!: map_of_SomeD)

lemma lookup_mem: "distinct_keys b \<Longrightarrow> e \<in> set (tab b) \<Longrightarrow> lookup b (key e) = Some e"
  using lookup_index by (metis in_set_conv_nth)

lemma find_lookup: "distinct_keys b \<Longrightarrow>
    lookup b k = (case find_in b k of None \<Rightarrow> None | Some i \<Rightarrow> Some (tab b ! i))"
  using find_Some [of b k] find_None [of b k] lookup_index [of b] lookup_None
  by (auto split: option.splits)

text \<open>Updating an element in place, keeping its key.\<close>

lemma update_keys:
  assumes "tab b' = (tab b)[i := e]" and "i < length (tab b)" and "key e = key (tab b ! i)"
  shows "map key (tab b') = map key (tab b)"
  using assms by (metis list_update_id map_update)

lemma update_lookup:
  assumes "distinct_keys b" and "tab b' = (tab b)[i := e]" and "i < length (tab b)" and "key e = key (tab b ! i)"
  shows "distinct_keys b' \<and> lookup b' = (lookup b)(key e \<mapsto> e)"
proof
  have k: "map key (tab b') = map key (tab b)" by (rule update_keys [OF assms(2-4)])
  show d: "distinct_keys b'" using assms(1) k by (simp add: distinct_keys_def)
  show "lookup b' = (lookup b)(key e \<mapsto> e)"
  proof
    fix x
    have inj: "j < length (tab b) \<Longrightarrow> key (tab b ! j) = key (tab b ! i) \<Longrightarrow> j = i" for j
      using assms(1,3) by (auto simp: distinct_keys_def distinct_conv_nth)
    have len: "length (tab b') = length (tab b)" using assms(2) by simp
    show "lookup b' x = ((lookup b)(key e \<mapsto> e)) x"
    proof (cases "x \<in> key ` set (tab b)")
      case False
      then have "x \<notin> key ` set (tab b')" using k by (metis list.set_map)
      then have "lookup b' x = None" "lookup b x = None" using False by (simp_all add: lookup_None)
      moreover have "x \<noteq> key e" using False assms(3,4) by auto
      ultimately show ?thesis by simp
    next
      case True
      then obtain j where j: "j < length (tab b)" "x = key (tab b ! j)" by (auto simp: in_set_conv_nth)
      then have "key (tab b' ! j) = x" using k len by (metis nth_map)
      moreover have "lookup b' (key (tab b' ! j)) = Some (tab b' ! j)" using lookup_index [OF d] j len by simp
      ultimately have "lookup b' x = Some (tab b' ! j)" by simp
      moreover have "lookup b x = Some (tab b ! j)" using lookup_index [OF assms(1)] j by simp
      ultimately show ?thesis using j assms(2-4) inj by (cases "j = i") auto
    qed
  qed
qed

lemma append_lookup:
  assumes "distinct_keys b" and "tab b' = tab b @ [e]" and "key e \<notin> key ` set (tab b)"
  shows "distinct_keys b' \<and> lookup b' = (lookup b)(key e \<mapsto> e)"
proof
  show "distinct_keys b'" using assms by (simp add: distinct_keys_def)
  have "lookup b (key e) = None" using assms(3) by (simp add: lookup_None)
  then show "lookup b' = (lookup b)(key e \<mapsto> e)"
    by (auto simp: lookup_def assms(2) fun_eq_iff map_add_def split: option.splits)
qed

text \<open>What interning does: on success the key is present, fresh if it was missing; on failure nothing
  changes.\<close>

lemma intern_lookup:
  assumes "distinct_keys b" and "intern_in b k al = (io, b', al')"
  shows "distinct_keys b' \<and>
    (case io of
       None \<Rightarrow> lookup b' = lookup b \<and> lookup b k = None \<and> tab b' = tab b
     | Some i \<Rightarrow> i < length (tab b') \<and> key (tab b' ! i) = k \<and> lookup b' k = Some (tab b' ! i) \<and>
         tab b' ! i = (case lookup b k of None \<Rightarrow> fresh k | Some e \<Rightarrow> e) \<and>
         (\<forall>x. x \<noteq> k \<longrightarrow> lookup b' x = lookup b x) \<and>
         (tab b' = (case lookup b k of None \<Rightarrow> tab b @ [fresh k] | Some e \<Rightarrow> tab b)))"
proof (cases "find_in b k")
  case (Some i)
  then have "io = Some i" "b' = b" using assms(2) intern_found [OF Some] by auto
  moreover have "lookup b k = Some (tab b ! i)"
    using lookup_index [OF assms(1), of i] find_Some [OF Some] by simp
  ultimately show ?thesis using find_Some [OF Some] assms(1) by simp
next
  case None
  then have l: "lookup b k = None" using find_None [OF None] by (simp add: lookup_None)
  from intern_new [OF None assms(2)] show ?thesis
  proof
    assume "io = None \<and> tab b' = tab b"
    then show ?thesis using l lookup_tab [of b' b] assms(1) by (simp add: distinct_keys_def)
  next
    assume a: "io = Some (length (tab b)) \<and> tab b' = tab b @ [fresh k]"
    moreover have "key (fresh k) \<notin> key ` set (tab b)" unfolding key_fresh by (rule find_None [OF None])
    ultimately have "distinct_keys b' \<and> lookup b' = (lookup b)(k \<mapsto> fresh k)"
      using append_lookup [OF assms(1), of b' "fresh k"] by (simp add: key_fresh)
    then show ?thesis using a l key_fresh by (simp add: nth_append)
  qed
qed

end

interpretation ent: interned entries "\<lambda>e. (e_session e, e_signature e)" "\<lambda>(k, g). new_entry k g"
  "\<lambda>b (k, g). find_entry b (Some k) g" "\<lambda>b (k, g). intern_entry b (Some k) g"
proof (unfold_locales, goal_cases)
  case (1 k)
  show ?case by (simp add: new_entry_def split: prod.split)
next
  case (2 b k i)
  then show ?case by (auto simp: find_entry_def find_Some_iff sid_key_def split: prod.splits)
next
  case (3 b k)
  then show ?case by (auto simp: find_entry_def find_None_iff sid_key_def in_set_conv_nth split: prod.splits)
next
  case (4 b k i al)
  then show ?case by (auto simp: intern_entry_def split: prod.splits)
next
  case (5 b k al io b' al')
  then show ?case
    by (auto simp: intern_entry_def sid_key_def Let_def split: prod.splits if_splits)
next
  case (6 b k)
  show ?case by (auto simp: intern_entry_def Let_def split: prod.splits option.splits)
qed

interpretation ses: interned sessions s_session new_session "\<lambda>b k. find_session b (Some k)" "\<lambda>b k. intern_session b (Some k)"
proof (unfold_locales, goal_cases)
  case (1 k)
  show ?case by (simp add: new_session_def)
next
  case (2 b k i)
  then show ?case by (auto simp: find_session_def find_Some_iff sid_key_def)
next
  case (3 b k)
  then show ?case by (auto simp: find_session_def find_None_iff sid_key_def in_set_conv_nth)
next
  case (4 b k i al)
  then show ?case by (simp add: intern_session_def)
next
  case (5 b k al io b' al')
  then show ?case by (auto simp: intern_session_def sid_key_def Let_def split: prod.splits if_splits)
next
  case (6 b k)
  show ?case by (auto simp: intern_session_def Let_def split: prod.splits option.splits)
qed

section \<open>The abstract breaker\<close>

text \<open>What one refusal does to the two records it concerns, with the outcome and the terminal action.\<close>

definition sat_inc :: "nat \<Rightarrow> nat" where
  "sat_inc n = min UINT_MAX (n + 1)"

definition exh :: "plan_label_policy_config option \<Rightarrow> plan_breaker_outcome \<times> cstr option" where
  "exh co = terminalize (plan_label_policy_config_on_exhaustion co)"

definition unk :: "plan_label_policy_config option \<Rightarrow> plan_breaker_outcome \<times> cstr option" where
  "unk co = terminalize (plan_label_policy_config_unknown_disposition co)"

definition bump_entry :: "entry \<Rightarrow> entry" where
  "bump_entry e = e\<lparr>e_refusals := sat_inc (e_refusals e)\<rparr>"

definition bump_session :: "session \<Rightarrow> session" where
  "bump_session s = s\<lparr>s_refusals := sat_inc (s_refusals s)\<rparr>"

definition spent :: "plan_label_policy_config option \<Rightarrow> session \<Rightarrow> bool" where
  "spent co s \<longleftrightarrow> plan_label_policy_config_session_refusal_budget co \<noteq> 0 \<and>
     plan_label_policy_config_session_refusal_budget co \<le> s_refusals s"

definition settle :: "plan_label_policy_config option \<Rightarrow> session \<Rightarrow> session" where
  "settle co s = (if spent co s then latch_session (exh co) s else s)"

definition retryable :: "plan_label_policy_config option \<Rightarrow> entry \<Rightarrow> session \<Rightarrow> bool" where
  "retryable co e s \<longleftrightarrow> \<not> plan_label_policy_config_breaker_enabled co \<or>
     e_refusals e < plan_label_policy_config_refusal_budget co \<and> \<not> spent co s"

definition refuse_spec ::
  "plan_label_policy_config option \<Rightarrow> plan_decision \<Rightarrow> entry \<Rightarrow> session \<Rightarrow>
   entry \<times> session \<times> plan_breaker_outcome \<times> cstr option" where
  "refuse_spec co v e s =
     (if e_latched e then (e, s, e_outcome e, e_action e)
      else if s_latched s then (latch_entry (s_outcome s, s_action s) e, s, s_outcome s, s_action s)
      else if v = PLAN_DEC_UNKNOWN then (latch_entry (unk co) e, settle co (bump_session s), unk co)
      else if retryable co (bump_entry e) (bump_session s)
      then (bump_entry e, bump_session s, PLAN_BREAKER_REFUSED_RETRYABLE, None)
      else (latch_entry (exh co) (bump_entry e), settle co (bump_session s), exh co))"

lemma step_refused_spec:
  assumes "i < length (entries b)" and "j < length (sessions b)" and "e_refusals (entries b ! i) \<le> UINT_MAX"
    and "s_refusals (sessions b ! j) \<le> UINT_MAX"
    and "refuse_spec co v (entries b ! i) (sessions b ! j) = (e', s', oc, act)"
  shows "\<exists>r. step_refused b i j v co (result_init co) =
      (r, b\<lparr>entries := (entries b)[i := e'], sessions := (sessions b)[j := s']\<rparr>) \<and>
    res_outcome r = oc \<and> res_terminal_action r = act"
proof -
  have inc: "n \<le> UINT_MAX \<Longrightarrow> (if n < UINT_MAX then n + 1 else n) = sat_inc n" for n by (auto simp: sat_inc_def)
  note inc1 = inc [OF assms(3)] and inc2 = inc [OF assms(4)]
  let ?e = "entries b ! i" and ?s = "sessions b ! j"
  note ups = upd_entry_def upd_session_def result_init_def latch_entry_def latch_session_def
  show ?thesis
  proof (cases "e_latched ?e \<or> s_latched ?s")
    case True
    then show ?thesis
      using assms(1,2,5) by (auto simp: refuse_spec_def Let_def step_refused_def ups split: if_splits)
  next
    case False
    then have "step_refused b i j v co (result_init co) = step_counted b i j v co (result_init co)"
      by (simp add: step_refused_def)
    then show ?thesis
      using assms(5) False assms(1,2) inc1 inc2 unfolding refuse_spec_def Let_def step_counted_def
      by (auto simp: ups exh_def unk_def bump_entry_def bump_session_def spent_def settle_def retryable_def split: if_split_asm)
  qed
qed

end
