(* ===== verification/Breaker_Spec.thy ===== *)
theory Breaker_Spec
  imports Breaker
begin

text \<open>
  What the breaker promises. The abstract state is what the two tables say of each key; a step of
  \<^verbatim>\<open>plan_breaker_step\<close> is simulated by the step relation \<open>bstep\<close>, whose rules are the four things that can
  happen to a submission. The bounds on refusals, the permanence of a latch and the invariant are proved
  on that relation, for every sequence of submissions and every behaviour of the allocator.
\<close>

section \<open>The step relation\<close>

type_synonym bkey = "cstr \<times> u64"
type_synonym bstate = "(bkey \<Rightarrow> entry option) \<times> (cstr \<Rightarrow> session option)"

definition entry_at :: "bstate \<Rightarrow> bkey \<Rightarrow> entry" where
  "entry_at st k = (case fst st k of None \<Rightarrow> new_entry (fst k) (snd k) | Some e \<Rightarrow> e)"

definition session_at :: "bstate \<Rightarrow> cstr \<Rightarrow> session" where
  "session_at st n = (case snd st n of None \<Rightarrow> new_session n | Some s \<Rightarrow> s)"

definition clear_entry :: "entry \<Rightarrow> entry" where
  "clear_entry e = e\<lparr>e_refusals := 0, e_latched := False, e_action := None\<rparr>"

inductive bstep ::
  "plan_label_policy_config option \<Rightarrow> bstate \<Rightarrow> bkey \<Rightarrow> plan_decision \<Rightarrow> plan_breaker_outcome \<times> cstr option \<Rightarrow> bstate \<Rightarrow> bool"
  for co :: "plan_label_policy_config option" and st :: bstate and k :: bkey where
  pass: "bstep co st k PLAN_DEC_SATISFIED (PLAN_BREAKER_PASS, None)
           ((fst st)(k := map_option clear_entry (fst st k)), snd st)"
| unrecorded: "v \<noteq> PLAN_DEC_SATISFIED \<Longrightarrow> snd st (fst k) = None \<Longrightarrow> bstep co st k v (exh co) st"
| session_only: "v \<noteq> PLAN_DEC_SATISFIED \<Longrightarrow> fst st k = None \<Longrightarrow> bstep co st k v (exh co) (fst st, (snd st)(fst k \<mapsto> session_at st (fst k)))"
| refuse: "v \<noteq> PLAN_DEC_SATISFIED \<Longrightarrow> refuse_spec co v (entry_at st k) (session_at st (fst k)) = (e', s', oa) \<Longrightarrow>
     bstep co st k v oa ((fst st)(k \<mapsto> e'), (snd st)(fst k \<mapsto> s'))"

definition babs :: "plan_breaker \<Rightarrow> bstate" where
  "babs b = (ent.lookup b, ses.lookup b)"

text \<open>The representation: keys are unique, the arrays have room, counts are unsigned, and what a record
  stands for is terminal: a latched record runs an action exactly when it is latched to one.\<close>

definition entry_ok :: "entry \<Rightarrow> bool" where
  "entry_ok e \<longleftrightarrow> e_refusals e \<le> UINT_MAX \<and>
     (e_outcome e = PLAN_BREAKER_TERMINAL_DENY \<or> e_outcome e = PLAN_BREAKER_TERMINAL_ACTION) \<and>
     (if e_latched e then e_outcome e = PLAN_BREAKER_TERMINAL_ACTION \<longleftrightarrow> e_action e \<noteq> None else e_action e = None)"

definition session_ok :: "session \<Rightarrow> bool" where
  "session_ok s \<longleftrightarrow> s_refusals s \<le> UINT_MAX \<and>
     (s_outcome s = PLAN_BREAKER_TERMINAL_DENY \<or> s_outcome s = PLAN_BREAKER_TERMINAL_ACTION) \<and>
     (if s_latched s then s_outcome s = PLAN_BREAKER_TERMINAL_ACTION \<longleftrightarrow> s_action s \<noteq> None else s_action s = None)"

definition tables_ok :: "plan_breaker \<Rightarrow> bool" where
  "tables_ok b \<longleftrightarrow> ent.distinct_keys b \<and> ses.distinct_keys b \<and> length (entries b) \<le> cap b \<and> length (sessions b) \<le> scap b \<and>
     (\<forall>e \<in> set (entries b). entry_ok e) \<and> (\<forall>s \<in> set (sessions b). session_ok s)"

section \<open>Simulation\<close>

lemma sid_key_idem [simp]: "sid_key (Some n) = n"
  by (simp add: sid_key_def)

lemma intern_entry_frame:
  assumes "intern_entry b sid g al = (io, b', al')"
  shows "sessions b' = sessions b \<and> scap b' = scap b \<and> (length (entries b) \<le> cap b \<longrightarrow> length (entries b') \<le> cap b')"
  using assms by (auto simp: intern_entry_def Let_def split: option.splits if_splits prod.splits)

lemma intern_session_frame:
  assumes "intern_session b sid al = (io, b', al')"
  shows "entries b' = entries b \<and> cap b' = cap b \<and> (length (sessions b) \<le> scap b \<longrightarrow> length (sessions b') \<le> scap b')"
  using assms by (auto simp: intern_session_def Let_def split: option.splits if_splits prod.splits)

lemma by_key:
  "find_entry b sid g = find_entry b (Some (sid_key sid)) g"
  "find_session b sid = find_session b (Some (sid_key sid))"
  "intern_entry b sid g = intern_entry b (Some (sid_key sid)) g"
  "intern_session b sid = intern_session b (Some (sid_key sid))"
  unfolding find_entry_def find_session_def fun_eq_iff intern_entry_def intern_session_def sid_key_idem
  by (rule refl allI)+

lemma fresh_ok: "entry_ok (new_entry n g)" "session_ok (new_session n)"
  by (simp_all add: entry_ok_def session_ok_def new_entry_def new_session_def)

lemma intern_entry_ok:
  assumes "tables_ok b" and "intern_entry b sid g al = (io, b', al')"
  shows "tables_ok b' \<and> ses.lookup b' = ses.lookup b \<and>
    (case io of
       None \<Rightarrow> ent.lookup b' = ent.lookup b \<and> entries b' = entries b \<and> ent.lookup b (sid_key sid, g) = None
     | Some i \<Rightarrow> i < length (entries b') \<and> entries b' ! i = entry_at (babs b) (sid_key sid, g) \<and>
         e_session (entries b' ! i) = sid_key sid \<and> e_signature (entries b' ! i) = g \<and>
         ent.lookup b' = (ent.lookup b)((sid_key sid, g) \<mapsto> entries b' ! i) \<and>
         (entries b' = entries b \<or> entries b' = entries b @ [new_entry (sid_key sid) g]))"
proof -
  let ?k = "(sid_key sid, g)"
  have d: "ent.distinct_keys b" using assms(1) by (simp add: tables_ok_def)
  have i: "(case ?k of (k, g) \<Rightarrow> intern_entry b (Some k) g) al = (io, b', al')"
    using assms(2) by (simp add: by_key(3) [of b sid g])
  note f = intern_entry_frame [OF assms(2)] and l = ent.intern_lookup [OF d i]
  have ses: "ses.lookup b' = ses.lookup b" "ses.distinct_keys b' = ses.distinct_keys b"
    using f by (simp_all add: ses.lookup_def ses.distinct_keys_def fun_eq_iff)
  have ek: "entries b' = entries b \<or> entries b' = entries b @ [new_entry (sid_key sid) g]"
    using l by (auto split: option.splits)
  then have eo: "\<forall>e \<in> set (entries b'). entry_ok e" using assms(1) fresh_ok by (auto simp: tables_ok_def)
  have t: "tables_ok b'" using l eo f ses(2) assms(1) by (auto simp: tables_ok_def)
  show ?thesis
  proof (cases io)
    case None
    then show ?thesis using l t ses by simp
  next
    case (Some i)
    then have "i < length (entries b')" "entries b' ! i = entry_at (babs b) ?k" "ent.lookup b' ?k = Some (entries b' ! i)"
      "\<forall>x. x \<noteq> ?k \<longrightarrow> ent.lookup b' x = ent.lookup b x" "(e_session (entries b' ! i), e_signature (entries b' ! i)) = ?k"
      using l unfolding Some option.case babs_def entry_at_def session_at_def fst_conv snd_conv by auto
    then have "ent.lookup b' = (ent.lookup b)(?k \<mapsto> entries b' ! i)" by (auto simp: fun_eq_iff)
    then show ?thesis using t ses ek Some \<open>i < length (entries b')\<close> \<open>entries b' ! i = entry_at (babs b) ?k\<close>
        \<open>(e_session (entries b' ! i), e_signature (entries b' ! i)) = ?k\<close> by simp
  qed
qed

lemma intern_session_ok:
  assumes "tables_ok b" and "intern_session b sid al = (jo, b', al')"
  shows "tables_ok b' \<and> ent.lookup b' = ent.lookup b \<and> entries b' = entries b \<and>
    (case jo of
       None \<Rightarrow> ses.lookup b' = ses.lookup b \<and> sessions b' = sessions b \<and> ses.lookup b (sid_key sid) = None
     | Some j \<Rightarrow> j < length (sessions b') \<and> sessions b' ! j = session_at (babs b) (sid_key sid) \<and>
         s_session (sessions b' ! j) = sid_key sid \<and>
         ses.lookup b' = (ses.lookup b)(sid_key sid \<mapsto> sessions b' ! j) \<and>
         (sessions b' = sessions b \<or>
          sid_key sid \<notin> s_session ` set (sessions b) \<and> sessions b' = sessions b @ [new_session (sid_key sid)]))"
proof -
  let ?k = "sid_key sid"
  have d: "ses.distinct_keys b" using assms(1) by (simp add: tables_ok_def)
  have i: "intern_session b (Some ?k) al = (jo, b', al')" using assms(2) by (simp add: by_key(4) [of b sid])
  note f = intern_session_frame [OF assms(2)] and l = ses.intern_lookup [OF d i]
  have ent: "ent.lookup b' = ent.lookup b" "ent.distinct_keys b' = ent.distinct_keys b"
    using f by (simp_all add: ent.lookup_def ent.distinct_keys_def fun_eq_iff)
  have sk: "sessions b' = sessions b \<or> ?k \<notin> s_session ` set (sessions b) \<and> sessions b' = sessions b @ [new_session ?k]"
    using l ses.lookup_None [of b ?k] by (auto split: option.splits)
  then have so: "\<forall>e \<in> set (sessions b'). session_ok e" using assms(1) fresh_ok by (auto simp: tables_ok_def)
  have t: "tables_ok b'" using l so f ent(2) assms(1) by (auto simp: tables_ok_def)
  show ?thesis
  proof (cases jo)
    case None
    then show ?thesis using l t ent f by simp
  next
    case (Some i)
    then have "i < length (sessions b')" "sessions b' ! i = session_at (babs b) ?k" "ses.lookup b' ?k = Some (sessions b' ! i)"
      "\<forall>x. x \<noteq> ?k \<longrightarrow> ses.lookup b' x = ses.lookup b x" "s_session (sessions b' ! i) = ?k"
      using l unfolding Some option.case babs_def entry_at_def session_at_def fst_conv snd_conv by auto
    then have "ses.lookup b' = (ses.lookup b)(?k \<mapsto> sessions b' ! i)" by (auto simp: fun_eq_iff)
    then show ?thesis using t ent f sk Some \<open>i < length (sessions b')\<close> \<open>sessions b' ! i = session_at (babs b) ?k\<close>
        \<open>s_session (sessions b' ! i) = ?k\<close> by simp
  qed
qed

lemma terminalize_ok: "(fst (terminalize d) = PLAN_BREAKER_TERMINAL_DENY \<or> fst (terminalize d) = PLAN_BREAKER_TERMINAL_ACTION) \<and>
    (fst (terminalize d) = PLAN_BREAKER_TERMINAL_ACTION \<longleftrightarrow> snd (terminalize d) \<noteq> None)"
  by (auto simp: terminalize_def)

lemmas exh_ok = terminalize_ok [of "plan_label_policy_config_on_exhaustion co" for co, folded exh_def]
lemmas unk_ok = terminalize_ok [of "plan_label_policy_config_unknown_disposition co" for co, folded unk_def]

lemma latch_names [simp]:
  "e_session (latch_entry t x) = e_session x" "e_signature (latch_entry t x) = e_signature x"
  "e_session (bump_entry x) = e_session x" "e_signature (bump_entry x) = e_signature x"
  "s_session (latch_session t y) = s_session y" "s_session (bump_session y) = s_session y" "s_session (settle co y) = s_session y"
  by (simp_all add: latch_entry_def latch_session_def bump_entry_def bump_session_def settle_def)

lemma latch_ok:
  "entry_ok e \<Longrightarrow> entry_ok (latch_entry (terminalize d) e)"
  "session_ok s \<Longrightarrow> session_ok (latch_session (terminalize d) s)"
  "session_ok s \<Longrightarrow> s_latched s \<Longrightarrow> entry_ok e \<Longrightarrow> entry_ok (latch_entry (s_outcome s, s_action s) e)"
  using terminalize_ok [of d] by (auto simp: entry_ok_def session_ok_def latch_entry_def latch_session_def)

lemma bump_ok:
  "entry_ok e \<Longrightarrow> entry_ok (bump_entry e)" "session_ok s \<Longrightarrow> session_ok (bump_session s)"
  by (simp_all add: entry_ok_def session_ok_def bump_entry_def bump_session_def sat_inc_def)

lemma settle_ok: "session_ok s \<Longrightarrow> session_ok (settle co s)"
  by (simp add: settle_def exh_def latch_ok)

lemma refuse_spec_ok:
  assumes "refuse_spec co v e s = (e', s', oc, act)" and "entry_ok e" and "session_ok s"
  shows "entry_ok e' \<and> session_ok s' \<and> e_session e' = e_session e \<and> e_signature e' = e_signature e \<and>
    s_session s' = s_session s \<and> oc \<noteq> PLAN_BREAKER_PASS \<and> (oc = PLAN_BREAKER_TERMINAL_ACTION \<longleftrightarrow> act \<noteq> None)"
proof -
  have e: "e_latched e \<Longrightarrow> e_outcome e \<noteq> PLAN_BREAKER_PASS \<and> (e_outcome e = PLAN_BREAKER_TERMINAL_ACTION \<longleftrightarrow> e_action e \<noteq> None)"
    and s: "s_latched s \<Longrightarrow> s_outcome s \<noteq> PLAN_BREAKER_PASS \<and> (s_outcome s = PLAN_BREAKER_TERMINAL_ACTION \<longleftrightarrow> s_action s \<noteq> None)"
    using assms(2,3) by (auto simp: entry_ok_def session_ok_def)
  have x: "exh co = (oc, act) \<Longrightarrow> oc \<noteq> PLAN_BREAKER_PASS \<and> (oc = PLAN_BREAKER_TERMINAL_ACTION \<longleftrightarrow> act \<noteq> None)"
    and u: "unk co = (oc, act) \<Longrightarrow> oc \<noteq> PLAN_BREAKER_PASS \<and> (oc = PLAN_BREAKER_TERMINAL_ACTION \<longleftrightarrow> act \<noteq> None)"
    using exh_ok [of co] unk_ok [of co] by auto
  show ?thesis
    using assms latch_ok(1) [OF assms(2)] latch_ok(1) [OF bump_ok(1) [OF assms(2)]] latch_ok(3) [OF assms(3) _ assms(2)]
      bump_ok(1) [OF assms(2)] bump_ok(2) [OF assms(3)] settle_ok [OF bump_ok(2) [OF assms(3)]] e s x u
    unfolding refuse_spec_def exh_def unk_def by (auto split: if_split_asm)
qed

text \<open>One step of the program is a step of the relation and keeps the representation.\<close>

lemma babs_update:
  assumes "tables_ok b" and "i < length (entries b)" and "j < length (sessions b)" and "entry_ok e'" and "session_ok s'"
    and "e_session e' = e_session (entries b ! i)" "e_signature e' = e_signature (entries b ! i)" "s_session s' = s_session (sessions b ! j)"
  defines "b' \<equiv> b\<lparr>entries := (entries b)[i := e'], sessions := (sessions b)[j := s']\<rparr>"
  shows "tables_ok b' \<and> babs b' = ((fst (babs b))((e_session e', e_signature e') \<mapsto> e'), (snd (babs b))(s_session s' \<mapsto> s'))"
proof -
  have "ent.distinct_keys b' \<and> ent.lookup b' = (ent.lookup b)((e_session e', e_signature e') \<mapsto> e')"
    using assms by (intro ent.update_lookup [where i = i]) (simp_all add: tables_ok_def)
  moreover have "ses.distinct_keys b' \<and> ses.lookup b' = (ses.lookup b)(s_session s' \<mapsto> s')"
    using assms by (intro ses.update_lookup [where i = j]) (simp_all add: tables_ok_def)
  moreover have "\<forall>e \<in> set (entries b'). entry_ok e" "\<forall>e \<in> set (sessions b'). session_ok e"
    using assms(1,4,5) set_update_subset_insert [of "entries b" i e'] set_update_subset_insert [of "sessions b" j s']
    by (auto simp: tables_ok_def b'_def)
  ultimately show ?thesis using assms(1) by (simp add: tables_ok_def babs_def b'_def)
qed

lemma refused_step:
  assumes ok: "tables_ok b" and v: "v \<noteq> PLAN_DEC_SATISFIED" and step: "plan_breaker_step (Some b) sid g v co al = (r, bo', al')"
  defines "n \<equiv> sid_key sid"
  obtains (closed) b' where "bo' = Some b'" "tables_ok b'" "entries b' = entries b" "(res_outcome r, res_terminal_action r) = exh co"
      "sessions b' = sessions b \<or> n \<notin> s_session ` set (sessions b) \<and> sessions b' = sessions b @ [new_session n]"
      "babs b' = babs b \<and> snd (babs b) n = None \<or>
       babs b' = (fst (babs b), (snd (babs b))(n \<mapsto> session_at (babs b) n)) \<and> fst (babs b) (n, g) = None"
  | (recorded) b1 i j e' s' where "tables_ok b1" "i < length (entries b1)" "j < length (sessions b1)"
      "entries b1 ! i = entry_at (babs b) (n, g)" "sessions b1 ! j = session_at (babs b) n"
      "e_session (entries b1 ! i) = n" "e_signature (entries b1 ! i) = g" "s_session (sessions b1 ! j) = n"
      "refuse_spec co v (entries b1 ! i) (sessions b1 ! j) = (e', s', res_outcome r, res_terminal_action r)"
      "bo' = Some (b1\<lparr>entries := (entries b1)[i := e'], sessions := (sessions b1)[j := s']\<rparr>)"
      "entries b1 = entries b \<or> entries b1 = entries b @ [new_entry n g]"
      "sessions b1 = sessions b \<or> n \<notin> s_session ` set (sessions b) \<and> sessions b1 = sessions b @ [new_session n]"
      "fst (babs b1) = (fst (babs b))((n, g) \<mapsto> entries b1 ! i)" "snd (babs b1) = (snd (babs b))(n \<mapsto> sessions b1 ! j)"
proof -
  obtain jo b2 al2 where iS: "intern_session b sid al = (jo, b2, al2)" using prod_cases3 by blast
  have fc: "res_outcome (fail_closed co (result_init co)) = fst (exh co)"
    "res_terminal_action (fail_closed co (result_init co)) = snd (exh co)"
    by (simp_all add: fail_closed_def exh_def Let_def)
  note s = intern_session_ok [OF ok iS, folded n_def]
  show thesis
  proof (cases jo)
    case None
    then have "r = fail_closed co (result_init co)" "bo' = Some b2" using step v iS by (auto simp: plan_breaker_step_def)
    then show thesis using closed [of b2] s None fc by (simp add: babs_def)
  next
    case (Some j)
    obtain io b3 al3 where ie: "intern_entry b2 sid g al2 = (io, b3, al3)" using prod_cases3 by blast
    have ok2: "tables_ok b2" using s by simp
    note e = intern_entry_ok [OF ok2 ie, folded n_def] and f = intern_entry_frame [OF ie]
    have at: "entry_at (babs b2) (n, g) = entry_at (babs b) (n, g)" using s by (simp add: babs_def entry_at_def)
    show thesis
    proof (cases io)
      case None
      then have "r = fail_closed co (result_init co)" "bo' = Some b3" using step v iS ie Some by (auto simp: plan_breaker_step_def)
      then show thesis using closed [of b3] s Some e None f fc by (auto simp: babs_def)
    next
      case i: (Some i)
      have j: "j < length (sessions b3)" "sessions b3 = sessions b2" using s Some f by auto
      have bnd: "e_refusals (entries b3 ! i) \<le> UINT_MAX" "s_refusals (sessions b3 ! j) \<le> UINT_MAX"
        using e i j ok2 by (auto simp: tables_ok_def entry_ok_def session_ok_def)
      obtain e' s' oc act where rs: "refuse_spec co v (entries b3 ! i) (sessions b3 ! j) = (e', s', oc, act)" using prod_cases4 by blast
      have il: "i < length (entries b3)" using e i by simp
      from step_refused_spec [OF il j(1) bnd rs] obtain r' where
        r': "step_refused b3 i j v co (result_init co) = (r', b3\<lparr>entries := (entries b3)[i := e'], sessions := (sessions b3)[j := s']\<rparr>)"
          "res_outcome r' = oc" "res_terminal_action r' = act" by blast
      have fin: "r = r'" "bo' = Some (b3\<lparr>entries := (entries b3)[i := e'], sessions := (sessions b3)[j := s']\<rparr>)"
        using step v iS ie Some i r'(1) by (auto simp: plan_breaker_step_def)
      show thesis by (rule recorded [of b3 i j e' s']) (use fin e i il j s Some rs r'(2,3) at in \<open>auto simp: babs_def\<close>)
    qed
  qed
qed

lemma step_simulated:
  assumes ok: "tables_ok b" and step: "plan_breaker_step (Some b) sid g v co al = (r, bo', al')"
  shows "\<exists>b'. bo' = Some b' \<and> tables_ok b' \<and> bstep co (babs b) (sid_key sid, g) v (res_outcome r, res_terminal_action r) (babs b')"
proof (cases "v = PLAN_DEC_SATISFIED")
  case False
  from ok False step show ?thesis
  proof (cases rule: refused_step)
    case (closed b')
    then show ?thesis using bstep.unrecorded [OF False, of "babs b" "(sid_key sid, g)" co]
        bstep.session_only [OF False, of "babs b" "(sid_key sid, g)" co] by auto
  next
    case (recorded b1 i j e' s')
    have ok1: "entry_ok (entries b1 ! i)" "session_ok (sessions b1 ! j)"
      using recorded(1-3) by (auto simp: tables_ok_def)
    note names = refuse_spec_ok [OF recorded(9) ok1]
    from babs_update [OF recorded(1-3), of e' s'] names recorded
    have "tables_ok (b1\<lparr>entries := (entries b1)[i := e'], sessions := (sessions b1)[j := s']\<rparr>)"
      "babs (b1\<lparr>entries := (entries b1)[i := e'], sessions := (sessions b1)[j := s']\<rparr>) =
        ((fst (babs b))((sid_key sid, g) \<mapsto> e'), (snd (babs b))(sid_key sid \<mapsto> s'))" by auto
    moreover have rs: "refuse_spec co v (entry_at (babs b) (sid_key sid, g)) (session_at (babs b) (fst (sid_key sid, g))) =
        (e', s', (res_outcome r, res_terminal_action r))"
      using recorded(4,5,9) by simp
    moreover from bstep.refuse [OF False rs] have "bstep co (babs b) (sid_key sid, g) v (res_outcome r, res_terminal_action r)
        ((fst (babs b))((sid_key sid, g) \<mapsto> e'), (snd (babs b))(sid_key sid \<mapsto> s'))" by simp
    ultimately show ?thesis using recorded(10) by auto
  qed
next
  case True
  have d: "ent.distinct_keys b" using ok by (simp add: tables_ok_def)
  let ?k = "(sid_key sid, g)"
  have lk: "ent.lookup b ?k = (case find_entry b sid g of None \<Rightarrow> None | Some i \<Rightarrow> Some (entries b ! i))"
    using ent.find_lookup [OF d, of ?k] by (simp add: by_key(1) [of b sid])
  define b' where "b' = (case find_entry b sid g of None \<Rightarrow> b | Some i \<Rightarrow> upd_entry i clear_entry b)"
  have s: "res_outcome r = PLAN_BREAKER_PASS \<and> res_terminal_action r = None \<and> bo' = Some b'"
    using step True
    by (auto simp: plan_breaker_step_def step_satisfied_def Let_def result_init_def b'_def clear_entry_def [abs_def]
        split: option.splits prod.splits)
  have "tables_ok b' \<and> babs b' = ((fst (babs b))(?k := map_option clear_entry (fst (babs b) ?k)), snd (babs b))"
  proof (cases "find_entry b sid g")
    case None
    then show ?thesis using lk ok by (auto simp: b'_def babs_def)
  next
    case (Some i)
    have i: "i < length (entries b)" "(e_session (entries b ! i), e_signature (entries b ! i)) = ?k"
      using ent.find_Some [of b ?k i] Some by (auto simp: by_key(1) [of b sid])
    have eq: "entries b' = (entries b)[i := clear_entry (entries b ! i)]" "sessions b' = sessions b" "scap b' = scap b" "cap b' = cap b"
      using Some by (simp_all add: b'_def upd_entry_def)
    have key: "(e_session (clear_entry x), e_signature (clear_entry x)) = (e_session x, e_signature x)" for x
      by (simp add: clear_entry_def)
    from ent.update_lookup [OF d eq(1) i(1) key] have u: "ent.distinct_keys b'" "ent.lookup b' = (ent.lookup b)(?k \<mapsto> clear_entry (entries b ! i))"
      unfolding key i(2) by auto
    have "entry_ok (entries b ! i)" using ok i(1) by (simp add: tables_ok_def)
    then have "\<forall>e \<in> set (entries b'). entry_ok e"
      using ok set_update_subset_insert [of "entries b" i "clear_entry (entries b ! i)"] eq(1)
      by (auto simp: tables_ok_def entry_ok_def clear_entry_def)
    then show ?thesis using u lk Some ok eq
      by (simp add: tables_ok_def babs_def ses.lookup_def ses.distinct_keys_def fun_eq_iff)
  qed
  then show ?thesis using s True bstep.pass [of co "babs b" ?k] by auto
qed

section \<open>The invariant\<close>

text \<open>Every entry's session is counted, and a session's count is at least what its entries hold (up to
  saturation).\<close>

definition linked :: "bstate \<Rightarrow> bool" where
  "linked st \<longleftrightarrow> (\<forall>n g. fst st (n, g) \<noteq> None \<longrightarrow> snd st n \<noteq> None)"

definition held :: "cstr \<Rightarrow> entry list \<Rightarrow> nat" where
  "held n es = sum_list (map (\<lambda>e. if e_session e = n then e_refusals e else 0) es)"

definition covered :: "plan_breaker \<Rightarrow> bool" where
  "covered b \<longleftrightarrow> (\<forall>s \<in> set (sessions b). min UINT_MAX (held (s_session s) (entries b)) \<le> s_refusals s)"

definition breaker_ok :: "plan_breaker \<Rightarrow> bool" where
  "breaker_ok b \<longleftrightarrow> tables_ok b \<and> linked (babs b) \<and> covered b"

lemma bstep_linked:
  assumes "bstep co st k v oa st'" and "linked st"
  shows "linked st'"
  using assms(1)
proof cases
  case pass
  have "snd st n \<noteq> None" if "((fst st)(k := map_option clear_entry (fst st k))) (n, g) \<noteq> None" for n g
    using that assms(2) unfolding linked_def by (cases "(n, g) = k") auto
  then show ?thesis using pass by (simp add: linked_def)
next
  case unrecorded
  then show ?thesis using assms(2) by simp
next
  case session_only
  then show ?thesis using assms(2) unfolding linked_def by (metis fst_conv fun_upd_apply option.distinct(1) snd_conv)
next
  case (refuse e' s')
  then show ?thesis using assms(2) unfolding linked_def by (metis fst_conv fun_upd_apply option.distinct(1) snd_conv)
qed

lemma sum_list_update_nat: "i < length xs \<Longrightarrow> sum_list (xs[i := y]) + xs ! i = sum_list xs + (y :: nat)"
proof (induction xs arbitrary: i)
  case (Cons x xs)
  then show ?case by (cases i) auto
qed simp

lemma held_update:
  assumes "i < length es" and "e_session e' = e_session (es ! i)"
  shows "held n (es[i := e']) + (if e_session e' = n then e_refusals (es ! i) else 0) =
    held n es + (if e_session e' = n then e_refusals e' else 0)"
proof -
  let ?f = "\<lambda>e. if e_session e = n then e_refusals e else 0"
  have "held n (es[i := e']) + ?f (es ! i) = held n es + ?f e'"
    unfolding held_def map_update using assms(1) sum_list_update_nat [of i "map ?f es" "?f e'"] by simp
  then show ?thesis using assms(2) by simp
qed

lemma held_append: "held n (es @ [e]) = held n es + (if e_session e = n then e_refusals e else 0)"
  by (simp add: held_def)

lemma held_fresh: "held n (es @ [new_entry m g]) = held n es"
  by (simp add: held_append new_entry_def)

lemma bump_counts [simp]:
  "e_refusals (latch_entry t e) = e_refusals e" "s_refusals (latch_session t s) = s_refusals s"
  "e_refusals (bump_entry e) = sat_inc (e_refusals e)" "s_refusals (bump_session s) = sat_inc (s_refusals s)"
  "s_refusals (settle co s) = s_refusals s"
  by (simp_all add: latch_entry_def latch_session_def bump_entry_def bump_session_def settle_def)

lemma refuse_spec_counts:
  assumes "refuse_spec co v e s = (e', s', oa)" and "e_refusals e \<le> UINT_MAX" and "s_refusals s \<le> UINT_MAX"
  shows "e_refusals e \<le> e_refusals e' \<and> s_refusals s \<le> s_refusals s' \<and>
    (e_refusals e' = e_refusals e \<or> e_refusals e' = sat_inc (e_refusals e) \<and> s_refusals s' = sat_inc (s_refusals s))"
proof -
  have "n \<le> sat_inc n" if "n \<le> UINT_MAX" for n using that by (simp add: sat_inc_def)
  then show ?thesis using assms unfolding refuse_spec_def by (auto split: if_split_asm)
qed

lemma covered_new_session: "covered b \<Longrightarrow> entries b' = entries b \<Longrightarrow> sessions b' = sessions b @ [new_session n] \<Longrightarrow>
    held n (entries b) = 0 \<Longrightarrow> covered b'"
  by (simp add: covered_def new_session_def)

lemma held_unlinked:
  assumes "tables_ok b" and "linked (babs b)" and "n \<notin> s_session ` set (sessions b)"
  shows "held n (entries b) = 0"
proof -
  have "e_session e \<noteq> n" if e: "e \<in> set (entries b)" for e
  proof
    assume n: "e_session e = n"
    have "ent.lookup b (e_session e, e_signature e) = Some e"
      using ent.lookup_mem [of b e] assms(1) e by (simp add: tables_ok_def)
    then have "ent.lookup b (n, e_signature e) \<noteq> None" using n by simp
    then have "ses.lookup b n \<noteq> None" using assms(2) unfolding linked_def babs_def fst_conv snd_conv by blast
    then show False using assms(3) ses.lookup_None [of b n] by simp
  qed
  then show ?thesis by (simp add: held_def cong: map_cong)
qed

lemma covered_update:
  assumes cov: "covered b1" and i: "i < length (entries b1)" and j: "j < length (sessions b1)"
    and names: "e_session (entries b1 ! i) = n" "e_session e' = n" "s_session (sessions b1 ! j) = n" "s_session s' = n"
    and ok: "tables_ok b1" and rs: "refuse_spec co v (entries b1 ! i) (sessions b1 ! j) = (e', s', oa)"
  shows "covered (b1\<lparr>entries := (entries b1)[i := e'], sessions := (sessions b1)[j := s']\<rparr>)"
proof -
  let ?e = "entries b1 ! i" and ?s = "sessions b1 ! j"
  have bnd: "e_refusals ?e \<le> UINT_MAX" "s_refusals ?s \<le> UINT_MAX"
    using ok i j by (auto simp: tables_ok_def entry_ok_def session_ok_def)
  note c = refuse_spec_counts [OF rs bnd]
  note h = held_update [OF i, of e'] 
  have same: "held m ((entries b1)[i := e']) = held m (entries b1)" if "m \<noteq> n" for m using h [of m] names that by simp
  have mine: "held n ((entries b1)[i := e']) + e_refusals ?e = held n (entries b1) + e_refusals e'" using h [of n] names by simp
  have old: "min UINT_MAX (held n (entries b1)) \<le> s_refusals ?s" using cov j names(3) by (auto simp: covered_def)
  have new: "min UINT_MAX (held n ((entries b1)[i := e'])) \<le> s_refusals s'"
    using c mine old bnd by (auto simp: sat_inc_def)
  have "min UINT_MAX (held (s_session s) ((entries b1)[i := e'])) \<le> s_refusals s" if s: "s \<in> set ((sessions b1)[j := s'])" for s
  proof (cases "s_session s = n")
    case True
    have "s = s'"
    proof -
      obtain k where k: "k < length (sessions b1)" "s = (sessions b1)[j := s'] ! k" using s by (auto simp: in_set_conv_nth)
      have "k = j"
      proof (rule ccontr)
        assume "k \<noteq> j"
        then have "s_session (sessions b1 ! k) = s_session (sessions b1 ! j)" using k True names(3) by simp
        then show False using ok k(1) j \<open>k \<noteq> j\<close> by (auto simp: tables_ok_def ses.distinct_keys_def distinct_conv_nth)
      qed
      then show ?thesis using k by simp
    qed
    then show ?thesis using new True by simp
  next
    case False
    then have "s \<in> set (sessions b1)" using s names(4) set_update_subset_insert [of "sessions b1" j s'] by auto
    then show ?thesis using cov same [OF False] by (auto simp: covered_def)
  qed
  then show ?thesis by (simp add: covered_def)
qed

lemma step_covered:
  assumes ok: "breaker_ok b" and step: "plan_breaker_step (Some b) sid g v co al = (r, Some b', al')"
  shows "covered b'"
proof (cases "v = PLAN_DEC_SATISFIED")
  case True
  have lower: "held m (es[i := clear_entry (es ! i)]) \<le> held m es" for m es i
  proof (cases "i < length es")
    case True
    from held_update [OF True, of "clear_entry (es ! i)" m] show ?thesis
      by (cases "e_session (es ! i) = m") (simp_all add: clear_entry_def)
  qed (simp add: list_update_beyond)
  have b': "b' = (case find_entry b sid g of None \<Rightarrow> b | Some i \<Rightarrow> upd_entry i clear_entry b)"
    using step True
    by (auto simp: plan_breaker_step_def step_satisfied_def Let_def clear_entry_def [abs_def] split: option.splits prod.splits)
  then have "\<exists>i. sessions b' = sessions b \<and> (entries b' = entries b \<or> entries b' = (entries b)[i := clear_entry (entries b ! i)])"
    by (auto simp: upd_entry_def split: option.splits)
  then have h: "held m (entries b') \<le> held m (entries b)" and s: "sessions b' = sessions b" for m using lower by auto
  show ?thesis unfolding covered_def s
  proof
    fix x
    assume "x \<in> set (sessions b)"
    then have "min UINT_MAX (held (s_session x) (entries b)) \<le> s_refusals x" using ok by (simp add: breaker_ok_def covered_def)
    then show "min UINT_MAX (held (s_session x) (entries b')) \<le> s_refusals x" using h [of "s_session x"] by linarith
  qed
next
  case False
  have t: "tables_ok b" and l: "linked (babs b)" and c: "covered b" using ok by (simp_all add: breaker_ok_def)
  from t False step show ?thesis
  proof (cases rule: refused_step)
    case (closed b2)
    then show ?thesis using c covered_new_session [OF c] held_unlinked [OF t l] by (auto simp: covered_def)
  next
    case (recorded b1 i j e' s')
    have "covered b1"
    proof -
      have h: "held m (entries b1) = held m (entries b)" for m using recorded(11) held_fresh by auto
      from recorded(12) show ?thesis
      proof
        assume "sessions b1 = sessions b"
        then show ?thesis using c h by (simp add: covered_def)
      next
        assume "sid_key sid \<notin> s_session ` set (sessions b) \<and> sessions b1 = sessions b @ [new_session (sid_key sid)]"
        then show ?thesis using c h held_unlinked [OF t l] by (simp add: covered_def new_session_def)
      qed
    qed
    moreover have "entry_ok (entries b1 ! i)" "session_ok (sessions b1 ! j)" using recorded(1-3) by (auto simp: tables_ok_def)
    note names = refuse_spec_ok [OF recorded(9) this]
    ultimately show ?thesis
      using covered_update [OF _ recorded(2,3) recorded(6) _ recorded(8) _ recorded(1,9)] names recorded(6,8,10) by simp
  qed
qed

lemma step_breaker_ok:
  assumes ok: "breaker_ok b" and step: "plan_breaker_step (Some b) sid g v co al = (r, bo', al')"
  shows "\<exists>b'. bo' = Some b' \<and> breaker_ok b' \<and> bstep co (babs b) (sid_key sid, g) v (res_outcome r, res_terminal_action r) (babs b')"
proof -
  from step_simulated [OF _ step] ok obtain b' where b': "bo' = Some b'" "tables_ok b'"
    "bstep co (babs b) (sid_key sid, g) v (res_outcome r, res_terminal_action r) (babs b')" by (auto simp: breaker_ok_def)
  then have "covered b'" using step_covered [OF ok] step by simp
  then show ?thesis using b' bstep_linked [OF b'(3)] ok by (auto simp: breaker_ok_def)
qed

lemma new_breaker_ok: "plan_breaker_new al = (Some b, al') \<Longrightarrow> breaker_ok b"
  by (auto simp: plan_breaker_new_def breaker_ok_def tables_ok_def linked_def covered_def babs_def ent.lookup_def
      ses.lookup_def ent.distinct_keys_def ses.distinct_keys_def split: if_splits prod.splits)

section \<open>Sequences of submissions\<close>

text \<open>A submission: the session, the signature of the plan, the gate's verdict, and how the allocator
  behaves during the call.\<close>

type_synonym submission = "cstr option \<times> u64 \<times> plan_decision \<times> allocs"

definition sub_key :: "submission \<Rightarrow> bkey" where
  "sub_key x = (case x of (sid, g, v, al) \<Rightarrow> (sid_key sid, g))"

definition sub_verdict :: "submission \<Rightarrow> plan_decision" where
  "sub_verdict x = (case x of (sid, g, v, al) \<Rightarrow> v)"

definition submit ::
  "plan_label_policy_config option \<Rightarrow> plan_breaker option \<Rightarrow> submission \<Rightarrow> plan_breaker_result \<times> plan_breaker option" where
  "submit co bo x = (case x of (sid, g, v, al) \<Rightarrow> (case plan_breaker_step bo sid g v co al of (r, bo', al') \<Rightarrow> (r, bo')))"

fun runs :: "('s \<Rightarrow> 'x \<Rightarrow> 'r \<times> 's) \<Rightarrow> 's \<Rightarrow> 'x list \<Rightarrow> 'r list \<times> 's" where
  "runs f s [] = ([], s)"
| "runs f s (x # xs) = (let (r, s') = f s x; (rs, s'') = runs f s' xs in (r # rs, s''))"

definition hits :: "('x \<Rightarrow> 'r \<Rightarrow> bool) \<Rightarrow> 'x list \<Rightarrow> 'r list \<Rightarrow> nat" where
  "hits p xs rs = length (filter (\<lambda>(x, r). p x r) (zip xs rs))"

text \<open>A counter that never falls, rises with every hit and is below \<open>N\<close> after one allows at most
  \<open>N - 1\<close> hits.\<close>

lemma hits_bounded:
  fixes c :: "'s \<Rightarrow> nat"
  assumes step: "\<And>s x r s'. ok s \<Longrightarrow> okx x \<Longrightarrow> f s x = (r, s') \<Longrightarrow> ok s' \<and> c s \<le> c s' \<and> (p x r \<longrightarrow> c s' = c s + 1 \<and> c s' < N)"
  shows "ok s \<Longrightarrow> list_all okx xs \<Longrightarrow> runs f s xs = (rs, s') \<Longrightarrow> hits p xs rs + c s \<le> max (N - 1) (c s)"
proof (induction xs arbitrary: s rs)
  case Nil
  then show ?case by (simp add: hits_def)
next
  case (Cons x xs)
  obtain r s1 where 1: "f s x = (r, s1)" by force
  obtain rs1 where 2: "runs f s1 xs = (rs1, s')" "rs = r # rs1" using Cons.prems(3) 1 by (auto split: prod.splits)
  have st: "ok s1" "c s \<le> c s1" "p x r \<longrightarrow> c s1 = c s + 1 \<and> c s1 < N" using step [OF Cons.prems(1) _ 1] Cons.prems(2) by auto
  have "hits p xs rs1 + c s1 \<le> max (N - 1) (c s1)" using Cons.IH [OF st(1) _ 2(1)] Cons.prems(2) by simp
  then show ?case using st(2,3) by (cases "p x r") (auto simp: hits_def 2(2))
qed

lemma hits_counted:
  fixes c :: "'s \<Rightarrow> nat"
  assumes step: "\<And>s x r s'. ok s \<Longrightarrow> okx x \<Longrightarrow> f s x = (r, s') \<Longrightarrow> ok s' \<and> c s \<le> c s' \<and> (p x r \<longrightarrow> c s' = c s + 1 \<and> c s' < N)"
  shows "ok s \<Longrightarrow> list_all okx xs \<Longrightarrow> runs f s xs = (rs, s') \<Longrightarrow> ok s' \<and> hits p xs rs + c s \<le> c s'"
proof (induction xs arbitrary: s rs)
  case Nil
  then show ?case by (simp add: hits_def)
next
  case (Cons x xs)
  obtain r s1 where 1: "f s x = (r, s1)" by force
  obtain rs1 where 2: "runs f s1 xs = (rs1, s')" "rs = r # rs1" using Cons.prems(3) 1 by (auto split: prod.splits)
  have st: "ok s1" "c s \<le> c s1" "p x r \<longrightarrow> c s1 = c s + 1" using step [OF Cons.prems(1) _ 1] Cons.prems(2) by auto
  have "ok s' \<and> hits p xs rs1 + c s1 \<le> c s'" using Cons.IH [OF st(1) _ 2(1)] Cons.prems(2) by simp
  then show ?case using st(2,3) by (cases "p x r") (auto simp: hits_def 2(2))
qed

abbreviation retry :: "plan_breaker_result \<Rightarrow> bool" where
  "retry r \<equiv> res_outcome r = PLAN_BREAKER_REFUSED_RETRYABLE"

definition bok :: "plan_breaker option \<Rightarrow> bool" where
  "bok bo \<longleftrightarrow> (\<exists>b. bo = Some b \<and> breaker_ok b)"

definition plan_count :: "bkey \<Rightarrow> plan_breaker option \<Rightarrow> nat" where
  "plan_count k bo = e_refusals (entry_at (babs (the bo)) k)"

definition session_count :: "cstr \<Rightarrow> plan_breaker option \<Rightarrow> nat" where
  "session_count n bo = s_refusals (session_at (babs (the bo)) n)"

lemma submit_step:
  assumes "bok bo" and "submit co bo x = (r, bo')"
  shows "bok bo' \<and> bstep co (babs (the bo)) (sub_key x) (sub_verdict x) (res_outcome r, res_terminal_action r) (babs (the bo'))"
proof -
  obtain sid g v al where x: "x = (sid, g, v, al)" using prod_cases4 by blast
  obtain b where b: "bo = Some b" "breaker_ok b" using assms(1) by (auto simp: bok_def)
  obtain al' where "plan_breaker_step (Some b) sid g v co al = (r, bo', al')"
    using assms(2) b x by (auto simp: submit_def split: prod.splits)
  from step_breaker_ok [OF b(2) this] show ?thesis using b x by (auto simp: bok_def sub_key_def sub_verdict_def)
qed

lemma at_ok:
  assumes "bok bo"
  shows "entry_ok (entry_at (babs (the bo)) k)" and "session_ok (session_at (babs (the bo)) n)"
proof -
  obtain b where b: "bo = Some b" "tables_ok b" using assms by (auto simp: bok_def breaker_ok_def)
  have "entry_ok e" if "ent.lookup b k = Some e" for e k using ent.lookup_Some [OF that] b by (auto simp: tables_ok_def)
  then show "entry_ok (entry_at (babs (the bo)) k)" using b fresh_ok by (simp add: entry_at_def babs_def split: option.split)
  have "session_ok s" if "ses.lookup b n = Some s" for s using ses.lookup_Some [OF that] b by (auto simp: tables_ok_def)
  then show "session_ok (session_at (babs (the bo)) n)" using b fresh_ok by (simp add: session_at_def babs_def split: option.split)
qed

lemma exh_not_retry: "fst (exh co) \<noteq> PLAN_BREAKER_REFUSED_RETRYABLE" "fst (unk co) \<noteq> PLAN_BREAKER_REFUSED_RETRYABLE"
  using exh_ok [of co] unk_ok [of co] by auto

lemma not_retry: "(oc, act) = exh co \<Longrightarrow> oc \<noteq> PLAN_BREAKER_REFUSED_RETRYABLE"
  using exh_not_retry(1) [of co] by (cases "exh co") simp

lemma refuse_spec_retry:
  assumes "refuse_spec co v e s = (e', s', oc, act)" and "oc = PLAN_BREAKER_REFUSED_RETRYABLE" and "entry_ok e" and "session_ok s"
  shows "e' = bump_entry e \<and> s' = bump_session s \<and> retryable co e' s'"
  using assms exh_not_retry [of co]
  by (auto simp: refuse_spec_def entry_ok_def session_ok_def split: if_split_asm)

lemma at_upd:
  "entry_at (E(k \<mapsto> e), S) k' = (if k = k' then e else entry_at (E, S) k')"
  "session_at (E, S(n \<mapsto> s)) n' = (if n = n' then s else session_at (E, S) n')"
  "entry_at (fst st, S) k' = entry_at st k'" "session_at (E, snd st) n' = session_at st n'"
  by (simp_all add: entry_at_def session_at_def)

lemma plan_count_step:
  assumes bok: "bok bo" and sub: "submit co bo x = (r, bo')" and en: "plan_label_policy_config_breaker_enabled co"
    and N: "plan_label_policy_config_refusal_budget co \<le> UINT_MAX"
    and v: "sub_key x = k \<longrightarrow> sub_verdict x \<noteq> PLAN_DEC_SATISFIED"
  shows "bok bo' \<and> plan_count k bo \<le> plan_count k bo' \<and> (sub_key x = k \<and> retry r \<longrightarrow>
    plan_count k bo' = plan_count k bo + 1 \<and> plan_count k bo' < plan_label_policy_config_refusal_budget co)"
proof -
  let ?st = "babs (the bo)" and ?st' = "babs (the bo')" and ?e = "entry_at (babs (the bo)) (sub_key x)"
    and ?s = "session_at (babs (the bo)) (fst (sub_key x))"
  note sim = submit_step [OF bok sub] and ok = at_ok(1) [OF bok, of "sub_key x"] at_ok(2) [OF bok, of "fst (sub_key x)"]
  from sim have "bstep co ?st (sub_key x) (sub_verdict x) (res_outcome r, res_terminal_action r) ?st'" by simp
  then have "plan_count k bo \<le> plan_count k bo' \<and> (sub_key x = k \<and> retry r \<longrightarrow>
    plan_count k bo' = plan_count k bo + 1 \<and> plan_count k bo' < plan_label_policy_config_refusal_budget co)"
  proof cases
    case pass
    then have "sub_key x \<noteq> k" using v by auto
    then show ?thesis using pass by (simp add: plan_count_def entry_at_def)
  next
    case unrecorded
    then show ?thesis using not_retry by (simp add: plan_count_def)
  next
    case session_only
    then show ?thesis using not_retry by (simp add: plan_count_def entry_at_def)
  next
    case (refuse e' s')
    have at: "entry_at ?st' k = (if sub_key x = k then e' else entry_at ?st k)" using refuse(1) by (simp add: at_upd)
    have le: "e_refusals ?e \<le> UINT_MAX" "s_refusals ?s \<le> UINT_MAX" using ok by (simp_all add: entry_ok_def session_ok_def)
    have "e_refusals ?e \<le> e_refusals e'" using refuse_spec_counts [OF refuse(3) le] by simp
    moreover have "e_refusals e' = e_refusals ?e + 1 \<and> e_refusals e' < plan_label_policy_config_refusal_budget co" if "retry r"
      using refuse_spec_retry [OF refuse(3) that ok] en N by (auto simp: retryable_def sat_inc_def)
    ultimately show ?thesis by (auto simp: plan_count_def at)
  qed
  then show ?thesis using sim by blast
qed

lemma session_count_step:
  assumes bok: "bok bo" and sub: "submit co bo x = (r, bo')" and en: "plan_label_policy_config_breaker_enabled co"
    and M: "plan_label_policy_config_session_refusal_budget co \<noteq> 0" "plan_label_policy_config_session_refusal_budget co \<le> UINT_MAX"
  shows "bok bo' \<and> session_count n bo \<le> session_count n bo' \<and> (fst (sub_key x) = n \<and> retry r \<longrightarrow>
    session_count n bo' = session_count n bo + 1 \<and> session_count n bo' < plan_label_policy_config_session_refusal_budget co)"
proof -
  let ?st = "babs (the bo)" and ?st' = "babs (the bo')" and ?e = "entry_at (babs (the bo)) (sub_key x)"
    and ?s = "session_at (babs (the bo)) (fst (sub_key x))"
  note sim = submit_step [OF bok sub] and ok = at_ok(1) [OF bok, of "sub_key x"] at_ok(2) [OF bok, of "fst (sub_key x)"]
  from sim have "bstep co ?st (sub_key x) (sub_verdict x) (res_outcome r, res_terminal_action r) ?st'" by simp
  then have "session_count n bo \<le> session_count n bo' \<and> (fst (sub_key x) = n \<and> retry r \<longrightarrow>
    session_count n bo' = session_count n bo + 1 \<and> session_count n bo' < plan_label_policy_config_session_refusal_budget co)"
  proof cases
    case pass
    then show ?thesis by (simp add: session_count_def session_at_def)
  next
    case unrecorded
    then show ?thesis using not_retry by (simp add: session_count_def)
  next
    case session_only
    then have "session_at ?st' n = session_at ?st n" by (simp add: at_upd)
    then show ?thesis using session_only not_retry by (simp add: session_count_def)
  next
    case (refuse e' s')
    have at: "session_at ?st' n = (if fst (sub_key x) = n then s' else session_at ?st n)" using refuse(1) by (simp add: at_upd)
    have le: "e_refusals ?e \<le> UINT_MAX" "s_refusals ?s \<le> UINT_MAX" using ok by (simp_all add: entry_ok_def session_ok_def)
    have "s_refusals ?s \<le> s_refusals s'" using refuse_spec_counts [OF refuse(3) le] by simp
    moreover have "s_refusals s' = s_refusals ?s + 1 \<and> s_refusals s' < plan_label_policy_config_session_refusal_budget co" if "retry r"
      using refuse_spec_retry [OF refuse(3) that ok] en M by (auto simp: retryable_def spent_def sat_inc_def)
    ultimately show ?thesis by (auto simp: session_count_def at)
  qed
  then show ?thesis using sim by blast
qed

lemma latched_step:
  assumes bok: "bok bo" and sub: "submit co bo x = (r, bo')" and e: "fst (babs (the bo)) k = Some e" "e_latched e"
    and v: "sub_key x = k \<longrightarrow> sub_verdict x \<noteq> PLAN_DEC_SATISFIED"
  shows "bok bo' \<and> fst (babs (the bo')) k = Some e \<and>
    (sub_key x = k \<longrightarrow> res_outcome r = e_outcome e \<and> res_terminal_action r = e_action e)"
proof -
  let ?st = "babs (the bo)" and ?st' = "babs (the bo')"
  have l: "linked ?st" using bok by (auto simp: bok_def breaker_ok_def)
  note sim = submit_step [OF bok sub]
  from sim have "bstep co ?st (sub_key x) (sub_verdict x) (res_outcome r, res_terminal_action r) ?st'" by simp
  then have "fst ?st' k = Some e \<and> (sub_key x = k \<longrightarrow> res_outcome r = e_outcome e \<and> res_terminal_action r = e_action e)"
  proof cases
    case pass
    then show ?thesis using v e by auto
  next
    case unrecorded
    moreover have "sub_key x \<noteq> k"
    proof
      assume "sub_key x = k"
      then have "snd ?st (fst k) \<noteq> None" using l e(1) unfolding linked_def by (metis option.distinct(1) prod.collapse)
      then show False using unrecorded \<open>sub_key x = k\<close> by simp
    qed
    ultimately show ?thesis using e by simp
  next
    case session_only
    then show ?thesis using e by auto
  next
    case (refuse e' s')
    show ?thesis
    proof (cases "sub_key x = k")
      case True
      then have "entry_at ?st (sub_key x) = e" using e(1) by (simp add: entry_at_def)
      then show ?thesis using refuse e(2) True by (auto simp: refuse_spec_def)
    next
      case False
      then show ?thesis using refuse e by simp
    qed
  qed
  then show ?thesis using sim by blast
qed

lemma latched_runs:
  assumes "bok bo" and "fst (babs (the bo)) k = Some e" and "e_latched e"
    and "list_all (\<lambda>x. sub_key x = k \<longrightarrow> sub_verdict x \<noteq> PLAN_DEC_SATISFIED) xs" and "runs (submit co) bo xs = (rs, bo')"
  shows "\<forall>(x, r) \<in> set (zip xs rs). sub_key x = k \<longrightarrow> res_outcome r = e_outcome e \<and> res_terminal_action r = e_action e"
  using assms
proof (induction xs arbitrary: bo rs)
  case (Cons x xs)
  obtain r bo1 where 1: "submit co bo x = (r, bo1)" by force
  obtain rs1 where 2: "runs (submit co) bo1 xs = (rs1, bo')" "rs = r # rs1" using Cons.prems(5) 1 by (auto split: prod.splits)
  from latched_step [OF Cons.prems(1) 1 Cons.prems(2,3)] Cons.prems(4)
  have "bok bo1" "fst (babs (the bo1)) k = Some e" "sub_key x = k \<longrightarrow> res_outcome r = e_outcome e \<and> res_terminal_action r = e_action e"
    by auto
  with Cons.IH [OF this(1,2) Cons.prems(3) _ 2(1)] Cons.prems(4) show ?case by (auto simp: 2(2))
qed simp

section \<open>Properties\<close>

text \<open>The examples: a breaker just made, and a configuration with a budget of 2 and a session budget of 3.\<close>

definition fresh_breaker :: plan_breaker where
  "fresh_breaker = \<lparr>entries = [], cap = 0, sessions = [], scap = 0\<rparr>"

lemma fresh_breaker_ok: "breaker_ok fresh_breaker"
  using new_breaker_ok [of "[]"] by (simp add: plan_breaker_new_def fresh_breaker_def)

definition budget_config :: plan_label_policy_config where
  "budget_config = cfg_zero\<lparr>refusal_budget := 2, budget_set := True, session_refusal_budget := 3, session_budget_set := True\<rparr>"

lemma retries_bounded:
  assumes "breaker_ok b" and "plan_label_policy_config_breaker_enabled co"
    and "plan_label_policy_config_refusal_budget co \<le> UINT_MAX"
    and "list_all (\<lambda>x. sub_key x = k \<longrightarrow> sub_verdict x \<noteq> PLAN_DEC_SATISFIED) xs"
    and "runs (submit co) (Some b) xs = (rs, bo')"
  shows "hits (\<lambda>x r. sub_key x = k \<and> res_outcome r = PLAN_BREAKER_REFUSED_RETRYABLE) xs rs
    \<le> plan_label_policy_config_refusal_budget co - 1"
proof -
  have "bok (Some b)" using assms(1) by (simp add: bok_def)
  from hits_bounded [where f = "submit co" and ok = bok and c = "plan_count k" and p = "\<lambda>x r. sub_key x = k \<and> retry r",
      OF plan_count_step this assms(4,5)] assms(2,3)
  have "hits (\<lambda>x r. sub_key x = k \<and> retry r) xs rs + plan_count k (Some b)
      \<le> max (plan_label_policy_config_refusal_budget co - 1) (plan_count k (Some b))" by blast
  then show ?thesis by linarith
qed


definition three_refusals :: "submission list" where
  "three_refusals = [(Some ''s'', 7, PLAN_DEC_UNSATISFIED, []), (Some ''s'', 8, PLAN_DEC_UNSATISFIED, [False]),
     (Some ''s'', 7, PLAN_DEC_UNSATISFIED, [])]"

lemma budget_config_budgets:
  "plan_label_policy_config_breaker_enabled (Some budget_config)"
  "plan_label_policy_config_refusal_budget (Some budget_config) = 2"
  "plan_label_policy_config_session_refusal_budget (Some budget_config) = 3"
  by (simp_all add: plan_label_policy_config_breaker_enabled_def plan_label_policy_config_refusal_budget_def
      plan_label_policy_config_session_refusal_budget_def budget_config_def)

lemma three_refusals_refused: "list_all (\<lambda>x. sub_key x = k \<longrightarrow> sub_verdict x \<noteq> PLAN_DEC_SATISFIED) three_refusals"
  by (simp add: three_refusals_def sub_verdict_def)


text \<open>The bound on a session: with a session budget of \<open>M\<close>, at most \<open>M - 1\<close> submissions of one session are
  ever answered "refused, retryable", whatever plans they are and whatever is authorized in between.\<close>

theorem session_refusals_bounded:
  assumes "breaker_ok b" and "plan_label_policy_config_breaker_enabled co"
    and "0 < plan_label_policy_config_session_refusal_budget co"
    and "plan_label_policy_config_session_refusal_budget co \<le> UINT_MAX"
    and "runs (submit co) (Some b) xs = (rs, bo')"
  shows "hits (\<lambda>x r. fst (sub_key x) = n \<and> res_outcome r = PLAN_BREAKER_REFUSED_RETRYABLE) xs rs
    \<le> plan_label_policy_config_session_refusal_budget co - 1"
proof -
  have "bok (Some b)" using assms(1) by (simp add: bok_def)
  from hits_bounded [where f = "submit co" and ok = bok and okx = "\<lambda>_. True" and c = "session_count n" and p = "\<lambda>x r. fst (sub_key x) = n \<and> retry r",
      OF session_count_step this _ assms(5)] assms(2-4)
  have "hits (\<lambda>x r. fst (sub_key x) = n \<and> retry r) xs rs + session_count n (Some b)
      \<le> max (plan_label_policy_config_session_refusal_budget co - 1) (session_count n (Some b))" by (simp add: list_all_iff)
  then show ?thesis by linarith
qed

theorem session_refusals_bounded_witness:
  "hits (\<lambda>x r. fst (sub_key x) = ''s'' \<and> res_outcome r = PLAN_BREAKER_REFUSED_RETRYABLE) three_refusals
     (fst (runs (submit (Some budget_config)) (Some fresh_breaker) three_refusals)) \<le> 2"
  using session_refusals_bounded [OF fresh_breaker_ok budget_config_budgets(1) _ _ prod.collapse [symmetric],
      of "''s''" three_refusals] budget_config_budgets(3) by simp

text \<open>A latch is permanent: once an entry is latched, every later submission of that plan in that session
  gets the latched outcome and action, until the plan is authorized; the answer is never retryable.\<close>

theorem latch_permanent:
  assumes "breaker_ok b" and "e \<in> set (entries b)" and "e_latched e"
    and "list_all (\<lambda>x. sub_key x = (e_session e, e_signature e) \<longrightarrow> sub_verdict x \<noteq> PLAN_DEC_SATISFIED) xs"
    and "runs (submit co) (Some b) xs = (rs, bo')"
  shows "e_outcome e \<noteq> PLAN_BREAKER_REFUSED_RETRYABLE \<and> e_outcome e \<noteq> PLAN_BREAKER_PASS \<and>
    (\<forall>(x, r) \<in> set (zip xs rs). sub_key x = (e_session e, e_signature e) \<longrightarrow>
       res_outcome r = e_outcome e \<and> res_terminal_action r = e_action e)"
proof -
  have t: "tables_ok b" using assms(1) by (simp add: breaker_ok_def)
  then have l: "ent.lookup b (e_session e, e_signature e) = Some e"
    using ent.lookup_mem [of b e] assms(2) by (simp add: tables_ok_def)
  have "entry_ok e" using t assms(2) by (simp add: tables_ok_def)
  moreover have "bok (Some b)" using assms(1) by (simp add: bok_def)
  from latched_runs [OF this _ assms(3-5)] l have "\<forall>(x, r) \<in> set (zip xs rs). sub_key x = (e_session e, e_signature e) \<longrightarrow>
       res_outcome r = e_outcome e \<and> res_terminal_action r = e_action e" by (simp add: babs_def)
  ultimately show ?thesis by (auto simp: entry_ok_def)
qed

definition latched_entry :: entry where
  "latched_entry = \<lparr>e_session = ''s'', e_signature = 7, e_refusals = 2, e_latched = True,
     e_outcome = PLAN_BREAKER_TERMINAL_DENY, e_action = None\<rparr>"

definition latched_breaker :: plan_breaker where
  "latched_breaker = \<lparr>entries = [latched_entry], cap = 16,
     sessions = [(new_session ''s'')\<lparr>s_refusals := 2\<rparr>], scap = 8\<rparr>"

lemma latched_breaker_ok: "breaker_ok latched_breaker"
  by (auto simp: breaker_ok_def tables_ok_def entry_ok_def session_ok_def linked_def covered_def babs_def ent.lookup_def
      ses.lookup_def ent.distinct_keys_def ses.distinct_keys_def latched_breaker_def latched_entry_def new_session_def held_def
      split: if_splits)

theorem latch_permanent_witness:
  "e_outcome latched_entry \<noteq> PLAN_BREAKER_REFUSED_RETRYABLE \<and> e_outcome latched_entry \<noteq> PLAN_BREAKER_PASS"
proof -
  have "latched_entry \<in> set (entries latched_breaker)" "e_latched latched_entry"
    by (simp_all add: latched_breaker_def latched_entry_def)
  from latch_permanent [OF latched_breaker_ok this three_refusals_refused prod.collapse [symmetric], of "Some budget_config"]
  show ?thesis by blast
qed

lemma answer_ok:
  assumes "case bo of None \<Rightarrow> True | Some b \<Rightarrow> breaker_ok b"
    and "plan_breaker_step bo sid g v co al = (r, bo', al')"
  shows "(res_outcome r = PLAN_BREAKER_PASS \<longleftrightarrow> v = PLAN_DEC_SATISFIED) \<and>
    (res_outcome r = PLAN_BREAKER_TERMINAL_ACTION \<longleftrightarrow> res_terminal_action r \<noteq> None)"
proof (cases bo)
  case None
  then show ?thesis using assms(2) exh_ok [of co]
    by (auto simp: plan_breaker_step_def step_satisfied_def fail_closed_def result_init_def Let_def exh_def split: if_splits)
next
  case (Some b)
  then have ok: "breaker_ok b" using assms(1) by simp
  then have bok: "bok (Some b)" by (simp add: bok_def)
  obtain b' where "bstep co (babs b) (sid_key sid, g) v (res_outcome r, res_terminal_action r) (babs b')"
    using step_breaker_ok [OF ok] assms(2) Some by blast
  then show ?thesis
  proof cases
    case pass
    then show ?thesis by simp
  next
    case unrecorded
    then show ?thesis using exh_ok [of co] by (cases "exh co") auto
  next
    case session_only
    then show ?thesis using exh_ok [of co] by (cases "exh co") auto
  next
    case (refuse e' s')
    from refuse_spec_ok [OF refuse(3)] at_ok [OF bok] refuse(2) show ?thesis by simp
  qed
qed

text \<open>The answers: whatever the state, an authorized submission passes, a refused one never does, and an
  action is named exactly when it is the outcome.\<close>

theorem answers_sound:
  assumes "case bo of None \<Rightarrow> True | Some b \<Rightarrow> breaker_ok b"
    and "plan_breaker_step bo sid g v co al = (r, bo', al')"
  shows "(res_outcome r = PLAN_BREAKER_PASS \<longleftrightarrow> v = PLAN_DEC_SATISFIED) \<and>
    (res_outcome r = PLAN_BREAKER_TERMINAL_ACTION \<longleftrightarrow> res_terminal_action r \<noteq> None)"
  by (rule answer_ok [OF assms])

theorem answers_sound_witness:
  "res_outcome (fst (plan_breaker_step (Some fresh_breaker) None 7 PLAN_DEC_SATISFIED (Some budget_config) [])) = PLAN_BREAKER_PASS"
  using answers_sound [of "Some fresh_breaker" None 7 PLAN_DEC_SATISFIED "Some budget_config" "[]"] fresh_breaker_ok
  by (cases "plan_breaker_step (Some fresh_breaker) None 7 PLAN_DEC_SATISFIED (Some budget_config) []") auto

lemma runs_answers:
  assumes "bok bo" and "runs (submit co) bo xs = (rs, bo')"
  shows "length rs = length xs \<and> (\<forall>(x, r) \<in> set (zip xs rs). res_outcome r = PLAN_BREAKER_PASS \<longleftrightarrow> sub_verdict x = PLAN_DEC_SATISFIED)"
  using assms
proof (induction xs arbitrary: bo rs)
  case (Cons x xs)
  obtain sid g v al where x: "x = (sid, g, v, al)" using prod_cases4 by blast
  obtain r bo1 where 1: "submit co bo x = (r, bo1)" by force
  obtain rs1 where 2: "runs (submit co) bo1 xs = (rs1, bo')" "rs = r # rs1" using Cons.prems(2) 1 by (auto split: prod.splits)
  obtain b where b: "bo = Some b" "breaker_ok b" using Cons.prems(1) by (auto simp: bok_def)
  obtain al' where "plan_breaker_step bo sid g v co al = (r, bo1, al')" using 1 x by (auto simp: submit_def split: prod.splits)
  then have "res_outcome r = PLAN_BREAKER_PASS \<longleftrightarrow> sub_verdict x = PLAN_DEC_SATISFIED"
    using answer_ok [of bo] b x by (auto simp: sub_verdict_def)
  moreover have "bok bo1" using submit_step [OF Cons.prems(1) 1] by simp
  ultimately show ?case using Cons.IH [OF _ 2(1)] by (simp add: 2(2))
qed simp

lemma terminal_after_budget:
  assumes "breaker_ok b" and "plan_label_policy_config_breaker_enabled co"
    and "plan_label_policy_config_refusal_budget co \<le> UINT_MAX"
    and "list_all (\<lambda>x. sub_key x = k \<longrightarrow> sub_verdict x \<noteq> PLAN_DEC_SATISFIED) xs"
    and "0 < plan_label_policy_config_refusal_budget co"
    and "plan_label_policy_config_refusal_budget co \<le> length (filter (\<lambda>x. sub_key x = k) xs)"
    and "runs (submit co) (Some b) xs = (rs, bo')"
  shows "\<exists>(x, r) \<in> set (zip xs rs). sub_key x = k \<and>
    (res_outcome r = PLAN_BREAKER_TERMINAL_DENY \<or> res_outcome r = PLAN_BREAKER_TERMINAL_ACTION)"
proof (rule ccontr)
  assume none: "\<not> ?thesis"
  have ok: "bok (Some b)" using assms(1) by (simp add: bok_def)
  note ra = runs_answers [OF ok assms(7)]
  have all: "sub_key x = k \<longleftrightarrow> sub_key x = k \<and> retry r" if xr: "(x, r) \<in> set (zip xs rs)" for x r
  proof -
    have "sub_key x = k \<Longrightarrow> res_outcome r \<noteq> PLAN_BREAKER_PASS"
      using ra xr assms(4) set_zip_leftD [OF xr] by (fastforce simp: list_all_iff)
    moreover have "sub_key x = k \<Longrightarrow> \<not> (res_outcome r = PLAN_BREAKER_TERMINAL_DENY \<or> res_outcome r = PLAN_BREAKER_TERMINAL_ACTION)"
      using none xr by blast
    ultimately show ?thesis by (cases "res_outcome r") auto
  qed
  have "filter (\<lambda>(x, r). sub_key x = k \<and> retry r) (zip xs rs) = filter (\<lambda>(x, r). sub_key x = k) (zip xs rs)"
  proof (rule filter_cong [OF refl])
    fix y
    assume "y \<in> set (zip xs rs)"
    then show "(case y of (x, r) \<Rightarrow> sub_key x = k \<and> retry r) = (case y of (x, r) \<Rightarrow> sub_key x = k)"
      using all [of "fst y" "snd y"] by (simp add: case_prod_unfold)
  qed
  moreover have "length (filter (\<lambda>(x, r). sub_key x = k) (zip xs rs)) = length (filter (\<lambda>x. sub_key x = k) (map fst (zip xs rs)))"
    by (simp add: filter_map comp_def case_prod_unfold)
  ultimately have "hits (\<lambda>x r. sub_key x = k \<and> retry r) xs rs = length (filter (\<lambda>x. sub_key x = k) xs)"
    using ra by (simp add: hits_def)
  then show False using retries_bounded [OF assms(1-4,7)] assms(5,6) by linarith
qed

text \<open>Progress: a plan that is refused as often as its budget allows, in whatever company, gets a terminal
  answer: nothing waits for a human.\<close>

theorem terminal_reached:
  assumes "breaker_ok b" and "plan_label_policy_config_breaker_enabled co"
    and "plan_label_policy_config_refusal_budget co \<le> UINT_MAX"
    and "list_all (\<lambda>x. sub_key x = k \<longrightarrow> sub_verdict x \<noteq> PLAN_DEC_SATISFIED) xs"
    and "0 < plan_label_policy_config_refusal_budget co"
    and "plan_label_policy_config_refusal_budget co \<le> length (filter (\<lambda>x. sub_key x = k) xs)"
    and "runs (submit co) (Some b) xs = (rs, bo')"
  shows "\<exists>(x, r) \<in> set (zip xs rs). sub_key x = k \<and>
    (res_outcome r = PLAN_BREAKER_TERMINAL_DENY \<or> res_outcome r = PLAN_BREAKER_TERMINAL_ACTION)"
  by (rule terminal_after_budget [OF assms])

theorem terminal_reached_witness:
  "\<exists>(x, r) \<in> set (zip three_refusals (fst (runs (submit (Some budget_config)) (Some fresh_breaker) three_refusals))).
     sub_key x = (''s'', 7) \<and> (res_outcome r = PLAN_BREAKER_TERMINAL_DENY \<or> res_outcome r = PLAN_BREAKER_TERMINAL_ACTION)"
proof -
  have "filter (\<lambda>x. sub_key x = (''s'', 7)) three_refusals =
      [(Some ''s'', 7, PLAN_DEC_UNSATISFIED, []), (Some ''s'', 7, PLAN_DEC_UNSATISFIED, [])]"
    by (simp add: three_refusals_def sub_key_def)
  then show ?thesis
    using terminal_reached [OF fresh_breaker_ok budget_config_budgets(1) _ three_refusals_refused _ _ prod.collapse [symmetric],
      of "(''s'', 7)"] budget_config_budgets(2) by simp
qed

text \<open>C22. The invariant: making a breaker establishes it and every submission keeps it, with every behaviour of
  the allocator: one entry per session and plan, one record per session that has entries, room in the
  arrays, and a session count of at least what its entries hold.\<close>

theorem breaker_invariant:
  "(plan_breaker_new al0 = (Some b0, al1) \<longrightarrow> breaker_ok b0) \<and>
   (breaker_ok b \<and> runs (submit co) (Some b) xs = (rs, bo') \<longrightarrow> (\<exists>b'. bo' = Some b' \<and> breaker_ok b'))"
proof (intro conjI impI)
  assume "plan_breaker_new al0 = (Some b0, al1)"
  then show "breaker_ok b0" by (rule new_breaker_ok)
next
  have "bok bo \<Longrightarrow> runs (submit co) bo xs = (rs, bo') \<Longrightarrow> bok bo'" for bo
  proof (induction xs arbitrary: bo rs)
    case (Cons x xs)
    obtain r bo1 where 1: "submit co bo x = (r, bo1)" by force
    then show ?case using Cons submit_step [OF Cons.prems(1) 1] by (auto split: prod.splits)
  qed simp
  then show "\<exists>b'. bo' = Some b' \<and> breaker_ok b'" if "breaker_ok b \<and> runs (submit co) (Some b) xs = (rs, bo')"
    using that unfolding bok_def by blast
qed

theorem breaker_invariant_witness:
  "\<exists>b'. snd (runs (submit (Some budget_config)) (Some fresh_breaker) three_refusals) = Some b' \<and> breaker_ok b'"
  using breaker_invariant [of "[]" fresh_breaker "[]" fresh_breaker "Some budget_config" three_refusals] fresh_breaker_ok
  by (cases "runs (submit (Some budget_config)) (Some fresh_breaker) three_refusals") auto

text \<open>C21. The breaker implements its contract: each call answers as the step relation allows and leaves the
  tables that relation prescribes, which fixes the answer and the state unless a record cannot be
  allocated.\<close>

theorem step_refines:
  assumes "breaker_ok b" and "plan_breaker_step (Some b) sid g v co al = (r, bo', al')"
  shows "\<exists>b'. bo' = Some b' \<and> bstep co (babs b) (sid_key sid, g) v (res_outcome r, res_terminal_action r) (babs b')"
  using step_breaker_ok [OF assms] by blast

theorem step_refines_witness:
  "\<exists>b'. snd (submit (Some budget_config) (Some fresh_breaker) (None, 7, PLAN_DEC_UNKNOWN, [])) = Some b' \<and>
     (\<exists>oa. bstep (Some budget_config) (babs fresh_breaker) ([], 7) PLAN_DEC_UNKNOWN oa (babs b'))"
proof -
  obtain r bo al where s: "plan_breaker_step (Some fresh_breaker) None 7 PLAN_DEC_UNKNOWN (Some budget_config) [] = (r, bo, al)"
    using prod_cases3 by blast
  from step_refines [OF fresh_breaker_ok s] show ?thesis using s by (auto simp: submit_def sid_key_def)
qed

end
