(* ===== verification/Decimal.thy ===== *)
theory Decimal
  imports Json Url
begin

text \<open>
  Decimal numbers as the code prints and reads them: the digits printed by the writers of journals, state files
  and patterns, and their value as the readers fold it.
\<close>

lemma decval_append: "decval v (s @ [c]) = decval v s * 10 + (byte c - 48)"
  by (simp add: decval_def)

lemma decval_digits: "decval 0 (rev (digits_rev v)) = v"
proof (induction v rule: digits_rev.induct)
  case (1 v)
  show ?case
  proof (cases "v = 0")
    case True
    then show ?thesis by (simp add: digits_rev.simps decval_def)
  next
    case False
    have "v mod 10 < 10" by simp
    then have "byte (char_of (48 + v mod 10)) = 48 + v mod 10" by (intro byte_char_of) linarith
    then show ?thesis using 1 False by (subst digits_rev.simps) (simp add: decval_append)
  qed
qed

lemma digits_rev_length: "v < 10 ^ k \<Longrightarrow> length (digits_rev v) \<le> k"
proof (induction k arbitrary: v)
  case 0
  then show ?case by (simp add: digits_rev.simps)
next
  case (Suc k)
  then show ?case by (subst digits_rev.simps) (simp add: less_mult_imp_div_less mult.commute)
qed

lemma decimal_digits: "decimal v \<noteq> [] \<and> list_all isdigit (decimal v)"
  using digits_rev_digits [of v] digits_rev_last [of v] by (auto simp: decimal_def list_all_iff isdigit_def byte_def)

lemma decval_decimal: "decval 0 (decimal v) = v"
  using decval_digits [of v] by (simp add: decimal_def) (simp add: decval_def byte_def)

lemma decimal_first: "1 \<le> v \<Longrightarrow> hd (decimal v) \<noteq> CHR ''0''"
  using digits_rev_last [of v] by (simp add: decimal_def hd_rev)

end
