(* ===== verification/Breaker_State.thy ===== *)
theory Breaker_State
  imports Breaker_Spec Decimal
begin

text \<open>
  The breaker's state file: \<open>plan_breaker_save\<close> and \<open>plan_breaker_load\<close> of \<^verbatim>\<open>src/v1_7/plan_breaker.c\<close>. The
  Warden gates one plan per launch, so the refusals survive only through this file; a damaged or
  shortened file must be refused, never read as a smaller table.

  A file is the text that can be read and whether a read error follows. \<open>sscanf\<close> is modelled by the
  conversions the two formats use; a \<open>%d\<close> that does not fit an \<open>int\<close> is reduced modulo \<open>2 ^ 32\<close>, as the
  common C libraries do. On failure the caller gives the breaker up, so a failed load has no result.
\<close>

unbundle bit_operations_syntax

section \<open>Writing\<close>

definition byte_hex :: "char \<Rightarrow> string" where
  "byte_hex c = [hexdigit (byte c div 16), hexdigit (byte c)]"

definition session_hex :: "cstr \<Rightarrow> string" where
  "session_hex n = (if n = [] then ''-'' else concat (map byte_hex n))"

definition sig_hex :: "u64 \<Rightarrow> string" where
  "sig_hex w = map (\<lambda>i. hexdigit (unat w div 16 ^ (15 - i))) [0..<16]"

fun outcome_num :: "plan_breaker_outcome \<Rightarrow> nat" where
  "outcome_num PLAN_BREAKER_PASS = 0"
| "outcome_num PLAN_BREAKER_REFUSED_RETRYABLE = 1"
| "outcome_num PLAN_BREAKER_TERMINAL_DENY = 2"
| "outcome_num PLAN_BREAKER_TERMINAL_ACTION = 3"

definition latch_text :: "bool \<Rightarrow> plan_breaker_outcome \<Rightarrow> cstr option \<Rightarrow> string" where
  "latch_text latched oc act =
     (if latched then ''1'' else ''0'') @ '' '' @ decimal (outcome_num oc) @ '' '' @ (case act of None \<Rightarrow> ''-'' | Some a \<Rightarrow> a)"

definition entry_line :: "entry \<Rightarrow> string" where
  "entry_line e =
     session_hex (e_session e) @ '' '' @ sig_hex (e_signature e) @ '' '' @ decimal (e_refusals e) @ '' '' @
     latch_text (e_latched e) (e_outcome e) (e_action e)"

definition session_line :: "session \<Rightarrow> string" where
  "session_line s =
     ''session '' @ session_hex (s_session s) @ '' '' @ decimal (s_refusals s) @ '' '' @
     latch_text (s_latched s) (s_outcome s) (s_action s)"

definition save_lines :: "plan_breaker \<Rightarrow> string list" where
  "save_lines b =
     ''varek-breaker 2'' # map entry_line (entries b) @ map session_line (sessions b) @
     [''end '' @ decimal (length (entries b) + length (sessions b))]"

text \<open>\<open>writable\<close>: the stream is there and every write succeeds. The result is what has been written.\<close>

definition plan_breaker_save :: "plan_breaker option \<Rightarrow> bool \<Rightarrow> string option" where
  "plan_breaker_save bo writable =
     (case bo of None \<Rightarrow> None
      | Some b \<Rightarrow> if writable then Some (concat (map (\<lambda>l. l @ nl) (save_lines b))) else None)"

section \<open>Reading\<close>

definition hex_nibble :: "char \<Rightarrow> nat option" where
  "hex_nibble c =
     (if isdigit c then Some (byte c - 48)
      else if 97 \<le> byte c \<and> byte c \<le> 102 then Some (byte c - 87)
      else None)"

definition known_action :: "plan_label_policy_config option \<Rightarrow> cstr \<Rightarrow> cstr option" where
  "known_action co name =
     (case find (\<lambda>d. disp_kind d = PLAN_DISP_TERMINAL \<and> disp_action d = Some name)
        [plan_label_policy_config_on_exhaustion co, plan_label_policy_config_unknown_disposition co] of
        None \<Rightarrow> None
      | Some d \<Rightarrow> disp_action d)"

definition parse_count :: "string \<Rightarrow> nat option" where
  "parse_count t =
     (if t = [] \<or> length t > 10 then None
      else if \<not> list_all isdigit t then None
      else if decval 0 t > UINT_MAX then None
      else Some (decval 0 t))"

fun decode_bytes :: "string \<Rightarrow> cstr option" where
  "decode_bytes [] = Some []"
| "decode_bytes [c] = None"
| "decode_bytes (c # d # s) =
     (case (hex_nibble c, hex_nibble d) of
        (Some hi, Some lo) \<Rightarrow>
          if hi = 0 \<and> lo = 0 then None else map_option ((#) (char_of (hi * 16 + lo))) (decode_bytes s)
      | _ \<Rightarrow> None)"

definition decode_session :: "string \<Rightarrow> nat \<Rightarrow> cstr option" where
  "decode_session hex outsz =
     (if hex = ''-'' then Some []
      else if hex = [] \<or> odd (length hex) \<or> length hex div 2 \<ge> outsz then None
      else decode_bytes hex)"

definition restore_latch ::
  "plan_label_policy_config option \<Rightarrow> int \<Rightarrow> int \<Rightarrow> string \<Rightarrow> plan_breaker_outcome \<times> cstr option" where
  "restore_latch co latched outcome action =
     (let oc = (if outcome = 3 then PLAN_BREAKER_TERMINAL_ACTION else PLAN_BREAKER_TERMINAL_DENY) in
      if latched = 1 \<and> outcome = 3 then
        (case (if action \<noteq> ''-'' then known_action co action else None) of
           None \<Rightarrow> (PLAN_BREAKER_TERMINAL_DENY, None)
         | Some a \<Rightarrow> (oc, Some a))
      else (oc, None))"

text \<open>The conversions of \<open>sscanf\<close>.\<close>

definition scan_s :: "nat \<Rightarrow> string \<Rightarrow> (string \<times> string) option" where
  "scan_s n s =
     (let s = dropWhile isspace s; t = take n (takeWhile (Not \<circ> isspace) s) in
      if t = [] then None else Some (t, drop (length t) s))"

definition scan_d :: "string \<Rightarrow> (int \<times> string) option" where
  "scan_d s =
     (let (v, r) = strtol10 s in
      if length r = length s then None else Some (sint (word_of_int v :: 32 word), r))"

text \<open>\<^verbatim>\<open>"... %d %d %255s %c"\<close>, with no character left for the last conversion.\<close>

definition scan_latch :: "string \<Rightarrow> (int \<times> int \<times> string) option" where
  "scan_latch s =
     (case scan_d s of None \<Rightarrow> None | Some (latched, s) \<Rightarrow>
     (case scan_d s of None \<Rightarrow> None | Some (outcome, s) \<Rightarrow>
     (case scan_s 255 s of None \<Rightarrow> None | Some (action, s) \<Rightarrow>
        if dropWhile isspace s = [] then Some (latched, outcome, action) else None)))"

definition latch_valid :: "int \<Rightarrow> int \<Rightarrow> bool" where
  "latch_valid latched outcome \<longleftrightarrow> (latched = 0 \<or> latched = 1) \<and> (outcome = 2 \<or> outcome = 3)"

definition load_session_line ::
  "plan_label_policy_config option \<Rightarrow> plan_breaker \<Rightarrow> string \<Rightarrow> allocs \<Rightarrow> (plan_breaker \<times> allocs) option" where
  "load_session_line co b line al =
     (case scan_s 519 line of None \<Rightarrow> None | Some (sess, s) \<Rightarrow>
     (case scan_s 31 s of None \<Rightarrow> None | Some (cnt, s) \<Rightarrow>
     (case scan_latch s of None \<Rightarrow> None | Some (latched, outcome, action) \<Rightarrow>
     (case parse_count cnt of None \<Rightarrow> None | Some refusals \<Rightarrow>
        if \<not> latch_valid latched outcome then None
        else
          (case decode_session sess 260 of None \<Rightarrow> None | Some n \<Rightarrow>
             if find_session b (Some n) \<noteq> None then None
             else
               (case intern_session b (Some n) al of
                  (None, b, al) \<Rightarrow> None
                | (Some j, b, al) \<Rightarrow>
                    let (oc, act) = restore_latch co latched outcome action in
                    Some (upd_session j (\<lambda>s. s\<lparr>s_refusals := refusals, s_latched := (latched = 1), s_outcome := oc,
                                               s_action := act\<rparr>) b, al)))))))"

definition sig_value :: "string \<Rightarrow> u64 option" where
  "sig_value t =
     foldl (\<lambda>w c. case (w, hex_nibble c) of (Some w, Some v) \<Rightarrow> Some ((push_bit 4 w) OR of_nat v) | _ \<Rightarrow> None) (Some 0) t"

definition load_entry_line ::
  "plan_label_policy_config option \<Rightarrow> plan_breaker \<Rightarrow> string \<Rightarrow> allocs \<Rightarrow> (plan_breaker \<times> allocs) option" where
  "load_entry_line co b line al =
     (case scan_s 519 line of None \<Rightarrow> None | Some (sess, s) \<Rightarrow>
     (case scan_s 16 s of None \<Rightarrow> None | Some (sig, s) \<Rightarrow>
     (case scan_s 31 s of None \<Rightarrow> None | Some (cnt, s) \<Rightarrow>
     (case scan_latch s of None \<Rightarrow> None | Some (latched, outcome, action) \<Rightarrow>
     (case parse_count cnt of None \<Rightarrow> None | Some refusals \<Rightarrow>
        if length sig \<noteq> 16 \<or> \<not> latch_valid latched outcome then None
        else
          (case sig_value sig of None \<Rightarrow> None | Some g \<Rightarrow>
          (case decode_session sess 260 of None \<Rightarrow> None | Some n \<Rightarrow>
             if find_entry b (Some n) g \<noteq> None then None
             else
               (case intern_entry b (Some n) g al of
                  (None, b, al) \<Rightarrow> None
                | (Some i, b, al) \<Rightarrow>
                    let (oc, act) = restore_latch co latched outcome action in
                    Some (upd_entry i (\<lambda>e. e\<lparr>e_refusals := refusals, e_latched := (latched = 1), e_outcome := oc,
                                             e_action := act\<rparr>) b, al)))))))))"

text \<open>One line after the header: \<^const>\<open>None\<close> refuses the file; otherwise the table and whether the trailer has
  been read.\<close>

definition load_table_line ::
  "plan_label_policy_config option \<Rightarrow> nat \<Rightarrow> string \<Rightarrow> plan_breaker \<times> bool \<times> allocs \<Rightarrow> (plan_breaker \<times> bool \<times> allocs) option" where
  "load_table_line co version buf st =
     (let (b, ended, al) = st; line0 = c_string buf in
      if ended then None
      else if line0 = [] \<or> last line0 \<noteq> newline then None
      else
        let line = butlast line0 in
        if take 4 line = ''end '' then
          let t = drop 4 line in
          if t = [] \<or> \<not> list_all isdigit t \<or>
             min (2 ^ 64 - 1) (decval 0 t) \<noteq> length (entries b) + length (sessions b) then None
          else Some (b, True, al)
        else if take 8 line = ''session '' then
          if version < 2 then None
          else map_option (\<lambda>(b, al). (b, False, al)) (load_session_line co b (drop 8 line) al)
        else map_option (\<lambda>(b, al). (b, False, al)) (load_entry_line co b line al))"

fun load_table ::
  "plan_label_policy_config option \<Rightarrow> nat \<Rightarrow> string list \<Rightarrow> plan_breaker \<times> bool \<times> allocs \<Rightarrow> (plan_breaker \<times> bool \<times> allocs) option" where
  "load_table co version [] st = Some st"
| "load_table co version (l # ls) st =
     (case load_table_line co version l st of None \<Rightarrow> None | Some st' \<Rightarrow> load_table co version ls st')"

text \<open>Sessions that have entries but no line of their own start from what the entries hold.\<close>

definition add_refusals :: "nat \<Rightarrow> session \<Rightarrow> session" where
  "add_refusals add s = s\<lparr>s_refusals := (if s_refusals s > UINT_MAX - add then UINT_MAX else s_refusals s + add)\<rparr>"

definition added :: "nat \<Rightarrow> entry \<Rightarrow> nat" where
  "added version en = (if version = 1 \<and> e_latched en \<and> e_refusals en = 0 then 1 else e_refusals en)"

fun count_sessions :: "nat \<Rightarrow> nat \<Rightarrow> entry list \<Rightarrow> plan_breaker \<times> allocs \<Rightarrow> (plan_breaker \<times> allocs) option" where
  "count_sessions version ns_read [] st = Some st"
| "count_sessions version ns_read (en # es) (b, al) =
     (case find_session b (Some (e_session en)) of
        Some j \<Rightarrow>
          if j < ns_read then count_sessions version ns_read es (b, al)
          else count_sessions version ns_read es (upd_session j (add_refusals (added version en)) b, al)
      | None \<Rightarrow>
          (case intern_session b (Some (e_session en)) al of
             (None, b, al) \<Rightarrow> None
           | (Some j, b, al) \<Rightarrow> count_sessions version ns_read es (upd_session j (add_refusals (added version en)) b, al)))"

definition sums_ok :: "nat \<Rightarrow> plan_breaker \<Rightarrow> bool" where
  "sums_ok ns_read b \<longleftrightarrow>
     list_all (\<lambda>s. sum_list (map e_refusals (filter (\<lambda>e. e_session e = s_session s) (entries b))) \<le> s_refusals s)
       (take ns_read (sessions b))"

definition plan_breaker_load ::
  "plan_breaker option \<Rightarrow> (string \<times> bool) option \<Rightarrow> plan_label_policy_config option \<Rightarrow> allocs \<Rightarrow> plan_breaker option" where
  "plan_breaker_load bo input co al =
     (case (bo, input, co) of
        (Some b, Some (body, read_error), Some c) \<Rightarrow>
          if entries b \<noteq> [] \<or> sessions b \<noteq> [] then None
          else
            (case fgets_lines body of
               [] \<Rightarrow> None
             | header # ls \<Rightarrow>
                 let version = (if c_string header = ''varek-breaker 1'' @ nl then 1
                                else if c_string header = ''varek-breaker 2'' @ nl then 2 else 0)
                 in
                 if version = 0 then None
                 else
                   (case load_table co version ls (b, False, al) of
                      None \<Rightarrow> None
                    | Some (b, ended, al) \<Rightarrow>
                        if read_error \<or> \<not> ended then None
                        else
                          (case count_sessions version (length (sessions b)) (entries b) (b, al) of
                             None \<Rightarrow> None
                           | Some (b', al) \<Rightarrow> if sums_ok (length (sessions b)) b' then Some b' else None)))
      | _ \<Rightarrow> None)"

section \<open>Reading back what is written\<close>

lemma scan_s_word:
  assumes "word_text t" and "length t \<le> n" and "rest = [] \<or> isspace (hd rest)"
  shows "scan_s n (t @ rest) = Some (t, rest)" and "scan_s n (CHR '' '' # t @ rest) = Some (t, rest)"
proof -
  obtain c t' where t: "t = c # t'" using assms(1) by (cases t) (auto simp: word_text_def)
  have d: "dropWhile isspace (t @ rest) = t @ rest" using assms(1) t by (simp add: word_text_def)
  have "takeWhile (Not \<circ> isspace) rest = []" using assms(3) by (cases rest) auto
  moreover have "takeWhile (Not \<circ> isspace) (t @ rest) = t @ takeWhile (Not \<circ> isspace) rest"
    by (rule takeWhile_append2) (use assms(1) in \<open>simp add: word_text_def\<close>)
  ultimately have tw: "takeWhile (Not \<circ> isspace) (t @ rest) = t" by simp
  show "scan_s n (t @ rest) = Some (t, rest)" unfolding scan_s_def d Let_def tw using assms(2) t by simp
  then show "scan_s n (CHR '' '' # t @ rest) = Some (t, rest)" by (simp add: scan_s_def)
qed

lemma scan_d_digit:
  assumes "isdigit c" and "rest = [] \<or> \<not> isdigit (hd rest)"
  shows "scan_d (CHR '' '' # c # rest) = Some (int (byte c - 48), rest)"
proof -
  have "\<not> isspace c" "c \<noteq> CHR ''-''" "c \<noteq> CHR ''+''" using assms(1) by (auto simp: isdigit_def isspace_def byte_def)
  moreover have "takeWhile isdigit rest = []" "dropWhile isdigit rest = rest" using assms(2) by (cases rest; simp)+
  ultimately have "strtol10 (CHR '' '' # c # rest) = (int (byte c - 48), rest)"
    using assms(1) by (simp add: strtol10_def decval_def) (simp add: isdigit_def)
  moreover have "sint (word_of_int (int (byte c - 48)) :: 32 word) = int (byte c - 48)"
    unfolding sint_sbintrunc'
  proof (rule signed_take_bit_int_eq_self)
    have "byte c - 48 < 2147483648" using byte_less_256 [of c] by linarith
    then show "int (byte c - 48) < 2 ^ (LENGTH(32) - 1)" by simp
  qed simp
  ultimately show ?thesis by (simp add: scan_d_def)
qed

lemma decimal_word: "word_text (decimal v)"
proof -
  have "isdigit c \<Longrightarrow> \<not> isspace c \<and> c \<noteq> CHR 0x00" for c by (auto simp: isdigit_def isspace_def byte_def)
  then show ?thesis using decimal_digits [of v] by (simp add: word_text_def list_all_iff)
qed

lemma decimal_length: "v \<le> UINT_MAX \<Longrightarrow> length (decimal v) \<le> 10"
  using digits_rev_length [of v 10] by (simp add: decimal_def)

lemma parse_count_decimal: "v \<le> UINT_MAX \<Longrightarrow> parse_count (decimal v) = Some v"
  using decimal_digits [of v] decval_decimal [of v] decimal_length [of v] by (simp add: parse_count_def)

lemma hexdigit_cases: "n mod 16 = 0 \<or> n mod 16 = 1 \<or> n mod 16 = 2 \<or> n mod 16 = 3 \<or> n mod 16 = 4 \<or> n mod 16 = 5 \<or>
    n mod 16 = 6 \<or> n mod 16 = 7 \<or> n mod 16 = 8 \<or> n mod 16 = 9 \<or> n mod 16 = 10 \<or> n mod 16 = 11 \<or> n mod 16 = 12 \<or>
    n mod 16 = 13 \<or> n mod 16 = 14 \<or> n mod 16 = (15::nat)"
  by presburger

lemma hexdigit_props: "hex_nibble (hexdigit n) = Some (n mod 16) \<and> \<not> isspace (hexdigit n) \<and> hexdigit n \<noteq> CHR 0x00 \<and>
    hexdigit n \<noteq> CHR ''n'' \<and> hexdigit n \<noteq> CHR ''s''"
  using hexdigit_cases [of n]
  by (elim disjE) (simp_all add: hexdigit_def hex_nibble_def isdigit_def isspace_def byte_def)

lemma decode_bytes_hex: "CHR 0x00 \<notin> set n \<Longrightarrow> decode_bytes (concat (map byte_hex n)) = Some n"
proof (induction n)
  case (Cons c n)
  have "byte c \<noteq> 0" using Cons.prems byte_inject [of c "CHR 0x00"] by (auto simp: byte_def)
  moreover have "byte c div 16 < 16" by (rule less_mult_imp_div_less) simp
  moreover have "byte c div 16 * 16 + byte c mod 16 = byte c" by simp
  ultimately show ?case using Cons hexdigit_props by (auto simp: byte_hex_def)
qed simp

lemma session_hex_length: "length (session_hex n) = (if n = [] then 1 else 2 * length n)"
proof -
  have "length (concat (map byte_hex n)) = 2 * length n" by (induction n) (simp_all add: byte_hex_def)
  then show ?thesis by (simp add: session_hex_def)
qed

lemma session_hex_word: "word_text (session_hex n)"
proof -
  have "\<forall>c \<in> set (concat (map byte_hex n)). \<not> isspace c \<and> c \<noteq> CHR 0x00" using hexdigit_props by (auto simp: byte_hex_def)
  moreover have "session_hex n \<noteq> []" using session_hex_length [of n] by (cases n) auto
  ultimately show ?thesis by (auto simp: word_text_def session_hex_def isspace_def byte_def split: if_splits)
qed

lemma decode_session_hex:
  assumes "CHR 0x00 \<notin> set n" and "length n \<le> 259"
  shows "decode_session (session_hex n) 260 = Some n"
proof (cases "n = []")
  case True
  then show ?thesis by (simp add: decode_session_def session_hex_def)
next
  case False
  have "length (session_hex n) \<noteq> 1" using session_hex_length [of n] False by auto
  then have "session_hex n \<noteq> ''-''" by auto
  moreover have "session_hex n \<noteq> []" using session_hex_word by (simp add: word_text_def)
  moreover have "decode_bytes (session_hex n) = Some n" using decode_bytes_hex [OF assms(1)] False by (simp add: session_hex_def)
  ultimately show ?thesis using session_hex_length [of n] False assms(2) by (simp add: decode_session_def)
qed

text \<open>The sixteen digits of a signature.\<close>

lemma shift_or:
  assumes "d < 16"
  shows "push_bit 4 w OR of_nat d = w * 16 + (of_nat d :: u64)"
proof -
  have "take_bit 4 d = d" using assms by (simp add: take_bit_nat_eq_self)
  then have b: "bit d n \<Longrightarrow> \<not> 4 \<le> n" for n by (metis bit_take_bit_iff not_le)
  have "push_bit 4 w OR of_nat d = push_bit 4 w + (of_nat d :: u64)"
    by (rule disjunctive_add [symmetric]) (use b in \<open>auto simp: bit_push_bit_iff bit_of_nat_iff\<close>)
  then show ?thesis by (simp add: push_bit_eq_mult mult.commute)
qed

lemma sig_value_digits:
  "sig_value (map hexdigit ds) = Some (of_nat (foldl (\<lambda>v d. v * 16 + d mod 16) 0 ds))"
proof (induction ds rule: rev_induct)
  case (snoc d ds)
  then show ?case using shift_or [of "d mod 16"] hexdigit_props [of d] by (simp add: sig_value_def)
qed (simp add: sig_value_def)

lemma hex_digits_value: "foldl (\<lambda>v d. v * 16 + d mod 16) 0 (map (\<lambda>i. n div 16 ^ (k - 1 - i)) [0..<k]) = (n::nat) mod 16 ^ k"
proof (induction k arbitrary: n)
  case (Suc k)
  have "map (\<lambda>i. n div 16 ^ (Suc k - 1 - i)) [0..<Suc k] = map (\<lambda>i. (n div 16) div 16 ^ (k - 1 - i)) [0..<k] @ [n]"
  proof -
    have "n div 16 ^ (k - i) = n div 16 div 16 ^ (k - 1 - i)" if "i < k" for i
    proof -
      have "(16::nat) ^ (k - i) = 16 * 16 ^ (k - 1 - i)" using that by (metis Suc_diff_1 diff_commute power_Suc zero_less_diff)
      then show ?thesis by (simp add: div_mult2_eq)
    qed
    then show ?thesis by simp
  qed
  moreover have "(n div 16) mod 16 ^ k * 16 + n mod 16 = n mod 16 ^ Suc k"
    by (metis add.commute mod_mult2_eq mult.commute power_Suc)
  ultimately show ?case using Suc [of "n div 16"] by (simp only: foldl_append foldl.simps)
qed simp

lemma sig_hex_value: "sig_value (sig_hex w) = Some w"
proof -
  have "sig_hex w = map hexdigit (map (\<lambda>i. unat w div 16 ^ (16 - 1 - i)) [0..<16])" by (simp add: sig_hex_def)
  then have "sig_value (sig_hex w) = Some (of_nat (unat w mod 16 ^ 16))"
    unfolding sig_value_digits hex_digits_value by (simp only: sig_value_digits hex_digits_value)
  moreover have "unat w < 16 ^ 16" using unsigned_less [of w] by simp
  ultimately show ?thesis by simp
qed

lemma sig_hex_word: "word_text (sig_hex w)" and sig_hex_length: "length (sig_hex w) = 16"
  using hexdigit_props by (auto simp: word_text_def sig_hex_def)

text \<open>What must hold of a record for its line to be readable: the session and the action are short, the action
  is one word the configuration still names, and not the mark for no action.\<close>

definition action_savable :: "plan_label_policy_config option \<Rightarrow> cstr option \<Rightarrow> bool" where
  "action_savable co act \<longleftrightarrow>
     (case act of None \<Rightarrow> True
      | Some a \<Rightarrow> word_text a \<and> length a \<le> 255 \<and> a \<noteq> ''-'' \<and> known_action co a = Some a)"

definition session_savable :: "cstr \<Rightarrow> bool" where
  "session_savable n \<longleftrightarrow> CHR 0x00 \<notin> set n \<and> length n \<le> 259"

abbreviation action_text :: "cstr option \<Rightarrow> string" where
  "action_text act \<equiv> (case act of None \<Rightarrow> ''-'' | Some a \<Rightarrow> a)"

lemma scan_latch_text:
  assumes "oc = PLAN_BREAKER_TERMINAL_DENY \<or> oc = PLAN_BREAKER_TERMINAL_ACTION" and "action_savable co act"
  shows "scan_latch (CHR '' '' # latch_text latched oc act) = Some (if latched then 1 else 0, int (outcome_num oc), action_text act)"
proof -
  have w: "word_text (action_text act)" "length (action_text act) \<le> 255"
    using assms(2) by (auto simp: action_savable_def word_text_def isspace_def byte_def split: option.splits)
  have dec: "decimal (outcome_num oc) = [char_of (48 + outcome_num oc)]" "isdigit (char_of (48 + outcome_num oc))"
    "byte (char_of (48 + outcome_num oc)) - 48 = outcome_num oc"
    using assms(1) by (auto simp: decimal_def digits_rev.simps isdigit_def)
  have one: "scan_d (CHR '' '' # (if latched then CHR ''1'' else CHR ''0'') # rest) = Some (if latched then 1 else 0, rest)"
    if "rest = [] \<or> \<not> isdigit (hd rest)" for rest
    using scan_d_digit [OF _ that, of "if latched then CHR ''1'' else CHR ''0''"] by (cases latched) (simp_all add: isdigit_def byte_def)
  have two: "scan_d (CHR '' '' # char_of (48 + outcome_num oc) # rest) = Some (int (outcome_num oc), rest)"
    if "rest = [] \<or> \<not> isdigit (hd rest)" for rest
    using scan_d_digit [OF dec(2) that] dec(3) by simp
  have b: "\<not> isdigit (CHR '' '')" by (simp add: isdigit_def byte_def)
  have act: "scan_s 255 (CHR '' '' # action_text act) = Some (action_text act, [])"
    using scan_s_word(2) [OF w, of "[]"] by simp
  have eq: "CHR '' '' # latch_text latched oc act = CHR '' '' # (if latched then CHR ''1'' else CHR ''0'') # CHR '' '' #
      char_of (48 + outcome_num oc) # CHR '' '' # action_text act"
    by (simp add: latch_text_def dec(1))
  show ?thesis unfolding eq scan_latch_def using b by (simp add: one two act)
qed

lemma restore_latch_text:
  assumes "oc = PLAN_BREAKER_TERMINAL_DENY \<or> oc = PLAN_BREAKER_TERMINAL_ACTION" and "action_savable co act"
    and "if latched then oc = PLAN_BREAKER_TERMINAL_ACTION \<longleftrightarrow> act \<noteq> None else act = None"
  shows "restore_latch co (if latched then 1 else 0) (int (outcome_num oc)) (action_text act) = (oc, act)"
  using assms by (auto simp: restore_latch_def action_savable_def split: option.splits if_splits)

definition entry_savable :: "plan_label_policy_config option \<Rightarrow> entry \<Rightarrow> bool" where
  "entry_savable co e \<longleftrightarrow> entry_ok e \<and> session_savable (e_session e) \<and> action_savable co (e_action e)"

definition session_rec_savable :: "plan_label_policy_config option \<Rightarrow> session \<Rightarrow> bool" where
  "session_rec_savable co s \<longleftrightarrow> session_ok s \<and> session_savable (s_session s) \<and> action_savable co (s_action s)"

lemma outcome_valid:
  assumes "oc = PLAN_BREAKER_TERMINAL_DENY \<or> oc = PLAN_BREAKER_TERMINAL_ACTION"
  shows "latch_valid (if latched then 1 else 0) (int (outcome_num oc))"
  using assms by (auto simp: latch_valid_def)

lemma intern_entry_new:
  assumes "find_entry b (Some n) g = None"
  shows "\<exists>b'. intern_entry b (Some n) g [] = (Some (length (entries b)), b', []) \<and>
    entries b' = entries b @ [new_entry n g] \<and> sessions b' = sessions b"
  using assms by (auto simp: intern_entry_def Let_def sid_key_def)

lemma intern_session_new:
  assumes "find_session b (Some n) = None"
  shows "\<exists>b'. intern_session b (Some n) [] = (Some (length (sessions b)), b', []) \<and>
    sessions b' = sessions b @ [new_session n] \<and> entries b' = entries b"
  using assms by (auto simp: intern_session_def Let_def sid_key_def)

lemma load_entry_line_ok:
  assumes e: "entry_savable co e" and new: "find_entry b (Some (e_session e)) (e_signature e) = None"
  shows "\<exists>b'. load_entry_line co b (entry_line e) [] = Some (b', []) \<and> entries b' = entries b @ [e] \<and> sessions b' = sessions b"
proof -
  have oc: "e_outcome e = PLAN_BREAKER_TERMINAL_DENY \<or> e_outcome e = PLAN_BREAKER_TERMINAL_ACTION"
    and lt: "if e_latched e then e_outcome e = PLAN_BREAKER_TERMINAL_ACTION \<longleftrightarrow> e_action e \<noteq> None else e_action e = None"
    and n: "e_refusals e \<le> UINT_MAX" and ses: "session_savable (e_session e)" and act: "action_savable co (e_action e)"
    using e by (auto simp: entry_savable_def entry_ok_def)
  let ?tail = "CHR '' '' # latch_text (e_latched e) (e_outcome e) (e_action e)"
  have line: "entry_line e = session_hex (e_session e) @ CHR '' '' # sig_hex (e_signature e) @ CHR '' '' # decimal (e_refusals e) @ ?tail"
    by (simp add: entry_line_def)
  have len: "length (session_hex (e_session e)) \<le> 519" using ses session_hex_length by (simp add: session_savable_def)
  have 1: "scan_s 519 (entry_line e) = Some (session_hex (e_session e), CHR '' '' # sig_hex (e_signature e) @ CHR '' '' # decimal (e_refusals e) @ ?tail)"
    unfolding line by (rule scan_s_word(1) [OF session_hex_word len]) simp
  have 2: "scan_s 16 (CHR '' '' # sig_hex (e_signature e) @ CHR '' '' # decimal (e_refusals e) @ ?tail) =
      Some (sig_hex (e_signature e), CHR '' '' # decimal (e_refusals e) @ ?tail)"
    by (rule scan_s_word(2) [OF sig_hex_word]) (simp_all add: sig_hex_length)
  have 3: "scan_s 31 (CHR '' '' # decimal (e_refusals e) @ ?tail) = Some (decimal (e_refusals e), ?tail)"
    by (rule scan_s_word(2) [OF decimal_word]) (use decimal_length [OF n] in simp_all)
  note 4 = scan_latch_text [OF oc act] and 5 = parse_count_decimal [OF n] and 6 = outcome_valid [OF oc] and 7 = restore_latch_text [OF oc act lt]
  have 8: "decode_session (session_hex (e_session e)) 260 = Some (e_session e)"
    using ses by (intro decode_session_hex) (auto simp: session_savable_def)
  obtain b1 where k: "intern_entry b (Some (e_session e)) (e_signature e) [] = (Some (length (entries b)), b1, [])"
      "entries b1 = entries b @ [new_entry (e_session e) (e_signature e)]" "sessions b1 = sessions b"
    using intern_entry_new [OF new] by blast
  have re: "(new_entry (e_session e) (e_signature e))\<lparr>e_refusals := e_refusals e, e_latched := ((if e_latched e then 1 else 0) = (1::int)),
      e_outcome := e_outcome e, e_action := e_action e\<rparr> = e" by (simp add: new_entry_def)
  have l: "load_entry_line co b (entry_line e) [] = Some (upd_entry (length (entries b)) (\<lambda>x. x\<lparr>e_refusals := e_refusals e,
      e_latched := ((if e_latched e then 1 else 0) = (1::int)), e_outcome := e_outcome e, e_action := e_action e\<rparr>) b1, [])"
    unfolding load_entry_line_def by (simp only: 1 2 3 4 5 6 7 8 sig_hex_length sig_hex_value new k option.case prod.case Let_def) simp
  show ?thesis using l k(2,3) re by (simp only: upd_entry_def) simp
qed

lemma load_session_line_ok:
  assumes s: "session_rec_savable co s" and new: "find_session b (Some (s_session s)) = None"
  shows "\<exists>b'. load_session_line co b (drop 8 (session_line s)) [] = Some (b', []) \<and> sessions b' = sessions b @ [s] \<and> entries b' = entries b"
proof -
  have oc: "s_outcome s = PLAN_BREAKER_TERMINAL_DENY \<or> s_outcome s = PLAN_BREAKER_TERMINAL_ACTION"
    and lt: "if s_latched s then s_outcome s = PLAN_BREAKER_TERMINAL_ACTION \<longleftrightarrow> s_action s \<noteq> None else s_action s = None"
    and n: "s_refusals s \<le> UINT_MAX" and ses: "session_savable (s_session s)" and act: "action_savable co (s_action s)"
    using s by (auto simp: session_rec_savable_def session_ok_def)
  let ?tail = "CHR '' '' # latch_text (s_latched s) (s_outcome s) (s_action s)"
  have line: "drop 8 (session_line s) = session_hex (s_session s) @ CHR '' '' # decimal (s_refusals s) @ ?tail"
    by (simp add: session_line_def)
  have len: "length (session_hex (s_session s)) \<le> 519" using ses session_hex_length by (simp add: session_savable_def)
  have 1: "scan_s 519 (drop 8 (session_line s)) = Some (session_hex (s_session s), CHR '' '' # decimal (s_refusals s) @ ?tail)"
    unfolding line by (rule scan_s_word(1) [OF session_hex_word len]) simp
  have 3: "scan_s 31 (CHR '' '' # decimal (s_refusals s) @ ?tail) = Some (decimal (s_refusals s), ?tail)"
    by (rule scan_s_word(2) [OF decimal_word]) (use decimal_length [OF n] in simp_all)
  note 4 = scan_latch_text [OF oc act] and 5 = parse_count_decimal [OF n] and 6 = outcome_valid [OF oc] and 7 = restore_latch_text [OF oc act lt]
  have 8: "decode_session (session_hex (s_session s)) 260 = Some (s_session s)"
    using ses by (intro decode_session_hex) (auto simp: session_savable_def)
  obtain b1 where k: "intern_session b (Some (s_session s)) [] = (Some (length (sessions b)), b1, [])"
      "sessions b1 = sessions b @ [new_session (s_session s)]" "entries b1 = entries b"
    using intern_session_new [OF new] by blast
  have re: "(new_session (s_session s))\<lparr>s_refusals := s_refusals s, s_latched := ((if s_latched s then 1 else 0) = (1::int)),
      s_outcome := s_outcome s, s_action := s_action s\<rparr> = s" by (simp add: new_session_def)
  have l: "load_session_line co b (drop 8 (session_line s)) [] = Some (upd_session (length (sessions b)) (\<lambda>x. x\<lparr>s_refusals := s_refusals s,
      s_latched := ((if s_latched s then 1 else 0) = (1::int)), s_outcome := s_outcome s, s_action := s_action s\<rparr>) b1, [])"
    unfolding load_session_line_def by (simp only: 1 3 4 5 6 7 8 new k option.case prod.case Let_def) simp
  show ?thesis using l k(2,3) re by (simp only: upd_session_def) simp
qed

section \<open>Reading a whole table\<close>

abbreviation with_nl :: "string list \<Rightarrow> string list" where
  "with_nl ls \<equiv> map (\<lambda>l. l @ nl) ls"

definition clean :: "string \<Rightarrow> bool" where
  "clean l \<longleftrightarrow> (\<forall>c \<in> set l. c \<noteq> CHR 0x00 \<and> c \<noteq> newline)"

lemma clean_append [simp]: "clean (a @ b) \<longleftrightarrow> clean a \<and> clean b" "clean (c # l) \<longleftrightarrow> c \<noteq> CHR 0x00 \<and> c \<noteq> newline \<and> clean l" "clean []"
  by (auto simp: clean_def)

lemma isspace_newline: "isspace newline"
  by (simp add: newline_def isspace_def byte_def)

lemma word_clean: "word_text t \<Longrightarrow> clean t"
  unfolding word_text_def clean_def using isspace_newline by metis

lemma latch_text_clean:
  assumes "action_savable co act"
  shows "clean (latch_text latched oc act)"
  using assms word_clean [OF decimal_word] word_clean
  by (auto simp: latch_text_def action_savable_def newline_def split: option.splits)

lemma latch_text_length:
  assumes "action_savable co act"
  shows "length (latch_text latched oc act) \<le> 259"
proof -
  have "length (decimal (outcome_num oc)) = 1" by (cases oc) (simp_all add: decimal_def digits_rev.simps)
  then show ?thesis using assms by (auto simp: latch_text_def action_savable_def split: option.splits)
qed

lemma entry_line_clean:
  assumes "entry_savable co e"
  shows "clean (entry_line e)" and "length (entry_line e) < 1023"
proof -
  show "clean (entry_line e)"
    using assms latch_text_clean [of co "e_action e"] word_clean [OF session_hex_word] word_clean [OF sig_hex_word] word_clean [OF decimal_word]
    by (simp add: entry_line_def entry_savable_def newline_def)
  have "length (decimal (e_refusals e)) \<le> 10" "length (session_hex (e_session e)) \<le> 518"
    using assms decimal_length session_hex_length by (auto simp: entry_savable_def entry_ok_def session_savable_def)
  then show "length (entry_line e) < 1023"
    using latch_text_length [of co "e_action e" "e_latched e" "e_outcome e"] assms
    by (simp add: entry_line_def sig_hex_length entry_savable_def)
qed

lemma session_line_clean:
  assumes "session_rec_savable co s"
  shows "clean (session_line s)" and "length (session_line s) < 1023"
proof -
  show "clean (session_line s)"
    using assms latch_text_clean [of co "s_action s"] word_clean [OF session_hex_word] word_clean [OF decimal_word]
    by (simp add: session_line_def session_rec_savable_def newline_def)
  have "length (decimal (s_refusals s)) \<le> 10" "length (session_hex (s_session s)) \<le> 518"
    using assms decimal_length session_hex_length by (auto simp: session_rec_savable_def session_ok_def session_savable_def)
  then show "length (session_line s) < 1023"
    using latch_text_length [of co "s_action s" "s_latched s" "s_outcome s"] assms
    by (simp add: session_line_def session_rec_savable_def)
qed

lemma table_line:
  assumes "clean l"
  shows "load_table_line co version (l @ nl) (b, False, al) =
    (if take 4 l = ''end '' then
       (if drop 4 l = [] \<or> \<not> list_all isdigit (drop 4 l) \<or>
           min (2 ^ 64 - 1) (decval 0 (drop 4 l)) \<noteq> length (entries b) + length (sessions b) then None
        else Some (b, True, al))
     else if take 8 l = ''session '' then
       (if version < 2 then None else map_option (\<lambda>(b, al). (b, False, al)) (load_session_line co b (drop 8 l) al))
     else map_option (\<lambda>(b, al). (b, False, al)) (load_entry_line co b l al))"
proof -
  have "c_string (l @ nl) = l @ nl"
    unfolding c_string_def takeWhile_eq_all_conv using assms by (auto simp: clean_def nl_def newline_def)
  then show ?thesis by (simp add: load_table_line_def nl_def butlast_append)
qed

lemma entry_line_start: "take 4 (entry_line e) \<noteq> ''end ''" "take 8 (entry_line e) \<noteq> ''session ''"
proof -
  obtain c d rest where x: "entry_line e = c # d # rest" "c \<noteq> CHR ''s''" "c = CHR ''e'' \<longrightarrow> d \<noteq> CHR ''n''"
  proof (cases "e_session e")
    case Nil
    then show ?thesis using that [of "CHR ''-''" "CHR '' ''"] by (simp add: entry_line_def session_hex_def)
  next
    case (Cons a n)
    then show ?thesis using that [of "hexdigit (byte a div 16)" "hexdigit (byte a)"] hexdigit_props
      by (simp add: entry_line_def session_hex_def byte_hex_def)
  qed
  then show "take 4 (entry_line e) \<noteq> ''end ''" "take 8 (entry_line e) \<noteq> ''session ''" by auto
qed

lemma load_entries:
  assumes "\<forall>e \<in> set es. entry_savable co e" and "distinct (map (\<lambda>e. (e_session e, e_signature e)) (entries b @ es))"
  shows "\<exists>b'. load_table co version (with_nl (map entry_line es) @ ls) (b, False, []) = load_table co version ls (b', False, []) \<and>
    entries b' = entries b @ es \<and> sessions b' = sessions b"
  using assms
proof (induction es arbitrary: b)
  case (Cons e es)
  have sav: "entry_savable co e" using Cons.prems(1) by simp
  have "find_entry b (Some (e_session e)) (e_signature e) = None"
  proof (rule ccontr)
    assume "find_entry b (Some (e_session e)) (e_signature e) \<noteq> None"
    then obtain i where "find_entry b (Some (e_session e)) (e_signature e) = Some i" by blast
    then have i: "i < length (entries b)" "(e_session (entries b ! i), e_signature (entries b ! i)) = (e_session e, e_signature e)"
      using ent.find_Some [of b "(e_session e, e_signature e)" i] by auto
    have "(e_session e, e_signature e) \<notin> (\<lambda>e. (e_session e, e_signature e)) ` set (entries b)" using Cons.prems(2) by simp
    moreover have "(e_session e, e_signature e) \<in> (\<lambda>e. (e_session e, e_signature e)) ` set (entries b)"
      by (rule image_eqI [of _ _ "entries b ! i"]) (use i in simp_all)
    ultimately show False by contradiction
  qed
  from load_entry_line_ok [OF _ this] Cons.prems(1) obtain b1 where
    1: "load_entry_line co b (entry_line e) [] = Some (b1, [])" "entries b1 = entries b @ [e]" "sessions b1 = sessions b" by auto
  have "load_table_line co version (entry_line e @ nl) (b, False, []) = Some (b1, False, [])"
    unfolding table_line [OF entry_line_clean(1) [OF sav]] if_not_P [OF entry_line_start(1)] if_not_P [OF entry_line_start(2)]
    by (simp add: 1(1))
  moreover from Cons.IH [of b1] Cons.prems 1(2) obtain b' where
    "load_table co version (with_nl (map entry_line es) @ ls) (b1, False, []) = load_table co version ls (b', False, [])"
    "entries b' = entries b1 @ es" "sessions b' = sessions b1" by auto
  ultimately show ?case using 1 by auto
qed auto

lemma load_sessions:
  assumes "\<forall>s \<in> set ss. session_rec_savable co s" and "distinct (map s_session (sessions b @ ss))"
  shows "\<exists>b'. load_table co 2 (with_nl (map session_line ss) @ ls) (b, False, []) = load_table co 2 ls (b', False, []) \<and>
    sessions b' = sessions b @ ss \<and> entries b' = entries b"
  using assms
proof (induction ss arbitrary: b)
  case (Cons s ss)
  have sav: "session_rec_savable co s" using Cons.prems(1) by simp
  have "find_session b (Some (s_session s)) = None"
  proof (rule ccontr)
    assume "find_session b (Some (s_session s)) \<noteq> None"
    then obtain i where "find_session b (Some (s_session s)) = Some i" by blast
    then have i: "i < length (sessions b)" "s_session (sessions b ! i) = s_session s"
      using ses.find_Some [of b "s_session s" i] by auto
    have "s_session s \<notin> s_session ` set (sessions b)" using Cons.prems(2) by simp
    then show False using i nth_mem by (metis imageI)
  qed
  from load_session_line_ok [OF _ this] Cons.prems(1) obtain b1 where
    1: "load_session_line co b (drop 8 (session_line s)) [] = Some (b1, [])" "sessions b1 = sessions b @ [s]" "entries b1 = entries b" by auto
  have st: "take 4 (session_line s) \<noteq> ''end ''" "take 8 (session_line s) = ''session ''" by (simp_all add: session_line_def)
  have "load_table_line co 2 (session_line s @ nl) (b, False, []) = Some (b1, False, [])"
    unfolding table_line [OF session_line_clean(1) [OF sav]] if_not_P [OF st(1)] if_P [OF st(2)] by (simp add: 1(1))
  moreover from Cons.IH [of b1] Cons.prems 1(2) obtain b' where
    "load_table co 2 (with_nl (map session_line ss) @ ls) (b1, False, []) = load_table co 2 ls (b', False, [])"
    "sessions b' = sessions b1 @ ss" "entries b' = entries b1" by auto
  ultimately show ?case using 1 by auto
qed auto

lemma load_trailer:
  assumes "length (entries b) + length (sessions b) < 2 ^ 64"
  shows "load_table co version [''end '' @ decimal (length (entries b) + length (sessions b)) @ nl] (b, False, al) = Some (b, True, al)"
proof -
  let ?n = "length (entries b) + length (sessions b)"
  have c: "clean (''end '' @ decimal ?n)" using word_clean [OF decimal_word] by (simp add: newline_def)
  have "min (2 ^ 64 - 1) ?n = ?n" using assms by simp
  then have "load_table_line co version ((''end '' @ decimal ?n) @ nl) (b, False, al) = Some (b, True, al)"
    unfolding table_line [OF c] using decimal_digits [of ?n] decval_decimal [of ?n] by simp
  then show ?thesis by simp
qed

text \<open>When every session has its own line nothing is added to the counts.\<close>

lemma count_sessions_id:
  assumes "\<forall>e \<in> set es. e_session e \<in> s_session ` set (sessions b)"
  shows "count_sessions version (length (sessions b)) es (b, al) = Some (b, al)"
  using assms
proof (induction es)
  case (Cons e es)
  obtain j where "find_session b (Some (e_session e)) = Some j"
    using ses.find_None [of b "e_session e"] Cons.prems by (cases "find_session b (Some (e_session e))") auto
  moreover from this have "j < length (sessions b)" using ses.find_Some by blast
  ultimately show ?case using Cons by simp
qed simp

lemma held_unlinked_session:
  assumes "tables_ok b" and "linked (babs b)" and "e \<in> set (entries b)"
  shows "e_session e \<in> s_session ` set (sessions b)"
proof -
  have "ent.lookup b (e_session e, e_signature e) \<noteq> None"
    using ent.lookup_mem [of b e] assms(1,3) by (simp add: tables_ok_def)
  then have "ses.lookup b (e_session e) \<noteq> None" using assms(2) unfolding linked_def babs_def fst_conv snd_conv by blast
  then show ?thesis using ses.lookup_None [of b "e_session e"] by simp
qed

lemma held_filter: "sum_list (map e_refusals (filter (\<lambda>e. e_session e = n) es)) = held n es"
  by (induction es) (simp_all add: held_def)

lemma save_lines_short:
  assumes "\<forall>e \<in> set (entries b). entry_savable co e" and "\<forall>s \<in> set (sessions b). session_rec_savable co s"
    and "length (entries b) + length (sessions b) < 2 ^ 64"
  shows "\<forall>l \<in> set (save_lines b). clean l \<and> short_line l"
proof -
  have sh: "clean l \<Longrightarrow> length l < 1023 \<Longrightarrow> clean l \<and> short_line l" for l by (auto simp: clean_def short_line_def)
  let ?n = "length (entries b) + length (sessions b)"
  have "?n < 10 ^ 20" using assms(3) by simp
  then have "length (decimal ?n) \<le> 20" using digits_rev_length [of ?n 20] by (simp add: decimal_def)
  then have "clean (''end '' @ decimal ?n) \<and> short_line (''end '' @ decimal ?n)"
    using word_clean [OF decimal_word, of ?n] by (intro sh) (simp_all add: newline_def)
  moreover have "clean ''varek-breaker 2'' \<and> short_line ''varek-breaker 2''" by (intro sh) (simp_all add: newline_def)
  moreover have "\<forall>e \<in> set (entries b). clean (entry_line e) \<and> short_line (entry_line e)" using sh entry_line_clean assms(1) by blast
  moreover have "\<forall>s \<in> set (sessions b). clean (session_line s) \<and> short_line (session_line s)" using sh session_line_clean assms(2) by blast
  ultimately show ?thesis by (auto simp: save_lines_def)
qed

section \<open>A loaded table satisfies the invariant\<close>

lemma upd_entry_tables:
  assumes "tables_ok b" and "i < length (entries b)" and "entry_ok (f (entries b ! i))"
    and "e_session (f (entries b ! i)) = e_session (entries b ! i)" "e_signature (f (entries b ! i)) = e_signature (entries b ! i)"
  shows "tables_ok (upd_entry i f b)"
proof -
  have "ent.distinct_keys (upd_entry i f b)"
    using assms ent.update_lookup [of b "upd_entry i f b" i "f (entries b ! i)"] by (simp add: tables_ok_def upd_entry_def)
  moreover have "\<forall>e \<in> set (entries (upd_entry i f b)). entry_ok e"
    using assms(1,3) set_update_subset_insert [of "entries b" i "f (entries b ! i)"] by (auto simp: tables_ok_def upd_entry_def)
  ultimately show ?thesis using assms(1) by (simp add: tables_ok_def upd_entry_def ses.distinct_keys_def)
qed

lemma upd_session_tables:
  assumes "tables_ok b" and "j < length (sessions b)" and "session_ok (f (sessions b ! j))"
    and "s_session (f (sessions b ! j)) = s_session (sessions b ! j)"
  shows "tables_ok (upd_session j f b)"
proof -
  have "ses.distinct_keys (upd_session j f b)"
    using assms ses.update_lookup [of b "upd_session j f b" j "f (sessions b ! j)"] by (simp add: tables_ok_def upd_session_def)
  moreover have "\<forall>s \<in> set (sessions (upd_session j f b)). session_ok s"
    using assms(1,3) set_update_subset_insert [of "sessions b" j "f (sessions b ! j)"] by (auto simp: tables_ok_def upd_session_def)
  ultimately show ?thesis using assms(1) by (simp add: tables_ok_def upd_session_def ent.distinct_keys_def)
qed

lemma parse_count_bound: "parse_count t = Some n \<Longrightarrow> n \<le> UINT_MAX"
  by (auto simp: parse_count_def split: if_splits)

lemma restore_latch_ok:
  assumes "restore_latch co latched outcome action = (oc, act)"
  shows "(oc = PLAN_BREAKER_TERMINAL_DENY \<or> oc = PLAN_BREAKER_TERMINAL_ACTION) \<and>
    (if latched = 1 then oc = PLAN_BREAKER_TERMINAL_ACTION \<longleftrightarrow> act \<noteq> None else act = None)"
proof (cases "known_action co action")
  case None
  then show ?thesis using assms by (auto simp: restore_latch_def Let_def split: if_splits)
next
  case (Some a)
  then show ?thesis using assms unfolding restore_latch_def Some by (auto simp: Let_def split: if_splits)
qed

lemma load_entry_tables:
  assumes "load_entry_line co b line al = Some (b', al')" and "tables_ok b"
  shows "tables_ok b' \<and> sessions b' = sessions b"
proof -
  obtain n g i b1 latched outcome action cnt refusals oc act where
    i: "intern_entry b (Some n) g al = (Some i, b1, al')" and c: "parse_count cnt = Some refusals"
    and r: "restore_latch co latched outcome action = (oc, act)"
    and b': "b' = upd_entry i (\<lambda>e. e\<lparr>e_refusals := refusals, e_latched := (latched = 1), e_outcome := oc, e_action := act\<rparr>) b1"
    using assms(1) unfolding load_entry_line_def by (auto simp: Let_def split: option.splits prod.splits if_splits)
  note io = intern_entry_ok [OF assms(2) i] and f = intern_entry_frame [OF i]
  have "tables_ok b'" unfolding b'
    using io restore_latch_ok [OF r] parse_count_bound [OF c] by (intro upd_entry_tables) (auto simp: entry_ok_def)
  then show ?thesis using f by (simp add: b' upd_entry_def)
qed

lemma load_session_tables:
  assumes "load_session_line co b line al = Some (b', al')" and "tables_ok b"
  shows "tables_ok b' \<and> entries b' = entries b"
proof -
  obtain n j b1 latched outcome action cnt refusals oc act where
    i: "intern_session b (Some n) al = (Some j, b1, al')" and c: "parse_count cnt = Some refusals"
    and r: "restore_latch co latched outcome action = (oc, act)"
    and b': "b' = upd_session j (\<lambda>s. s\<lparr>s_refusals := refusals, s_latched := (latched = 1), s_outcome := oc, s_action := act\<rparr>) b1"
    using assms(1) unfolding load_session_line_def by (auto simp: Let_def split: option.splits prod.splits if_splits)
  note io = intern_session_ok [OF assms(2) i] and f = intern_session_frame [OF i]
  have "tables_ok b'" unfolding b'
    using io restore_latch_ok [OF r] parse_count_bound [OF c] by (intro upd_session_tables) (auto simp: session_ok_def)
  then show ?thesis using f by (simp add: b' upd_session_def)
qed

lemma load_table_tables:
  "load_table co version ls (b, ended, al) = Some (b', ended', al') \<Longrightarrow> tables_ok b \<Longrightarrow> tables_ok b'"
proof (induction ls arbitrary: b ended al)
  case (Cons l ls)
  obtain b1 e1 al1 where 1: "load_table_line co version l (b, ended, al) = Some (b1, e1, al1)"
    "load_table co version ls (b1, e1, al1) = Some (b', ended', al')"
    using Cons.prems(1) by (auto split: option.splits)
  have "tables_ok b1"
    using 1(1) Cons.prems(2) load_entry_tables load_session_tables
    unfolding load_table_line_def Let_def by (auto split: if_splits)
  then show ?case using Cons.IH 1(2) by blast
qed simp

text \<open>The sessions added from the entries: each holds at least what the entries read so far hold.\<close>

definition cov_from :: "nat \<Rightarrow> entry list \<Rightarrow> plan_breaker \<Rightarrow> bool" where
  "cov_from k es b \<longleftrightarrow> (\<forall>j < length (sessions b). k \<le> j \<longrightarrow>
     min UINT_MAX (held (s_session (sessions b ! j)) es) \<le> s_refusals (sessions b ! j))"

lemma distinct_session: "tables_ok b \<Longrightarrow> i < length (sessions b) \<Longrightarrow> j < length (sessions b) \<Longrightarrow>
    s_session (sessions b ! i) = s_session (sessions b ! j) \<Longrightarrow> i = j"
  by (auto simp: tables_ok_def ses.distinct_keys_def distinct_conv_nth)

lemma held_absent: "\<forall>e \<in> set es. e_session e \<noteq> n \<Longrightarrow> held n es = 0"
  by (simp add: held_def cong: map_cong)

lemma add_refusals_ok:
  "add \<le> UINT_MAX \<Longrightarrow> session_ok s \<Longrightarrow> session_ok (add_refusals add s)" "s_session (add_refusals add s) = s_session s"
  "a \<le> add \<Longrightarrow> min UINT_MAX h \<le> s_refusals s \<Longrightarrow> min UINT_MAX (h + a) \<le> s_refusals (add_refusals add s)"
  by (auto simp: add_refusals_def session_ok_def)

text \<open>One entry of the loop, once its session is in the table at \<open>j\<close>.\<close>

lemma cov_from_step:
  assumes t: "tables_ok b" and j: "j < length (sessions b)" "s_session (sessions b ! j) = e_session en" and cov: "cov_from k es b"
    and a: "e_refusals en \<le> add"
  shows "j < k \<Longrightarrow> cov_from k (es @ [en]) b" and "cov_from k (es @ [en]) (upd_session j (add_refusals add) b)"
proof -
  have other: "held (s_session (sessions b ! i)) (es @ [en]) = held (s_session (sessions b ! i)) es"
    if "i < length (sessions b)" "i \<noteq> j" for i
    using distinct_session [OF t that(1) j(1)] that j(2) by (auto simp: held_append)
  show "cov_from k (es @ [en]) b" if "j < k" using cov other that by (auto simp: cov_from_def)
  show "cov_from k (es @ [en]) (upd_session j (add_refusals add) b)"
    unfolding cov_from_def
  proof (intro allI impI)
    fix i
    assume i: "i < length (sessions (upd_session j (add_refusals add) b))" and k: "k \<le> i"
    have il: "i < length (sessions b)" using i by (simp add: upd_session_def)
    have c: "min UINT_MAX (held (s_session (sessions b ! i)) es) \<le> s_refusals (sessions b ! i)" using cov il k by (simp add: cov_from_def)
    show "min UINT_MAX (held (s_session (sessions (upd_session j (add_refusals add) b) ! i)) (es @ [en]))
        \<le> s_refusals (sessions (upd_session j (add_refusals add) b) ! i)"
    proof (cases "i = j")
      case True
      then show ?thesis using add_refusals_ok(3) [OF a c] j by (simp add: upd_session_def add_refusals_ok(2) held_append)
    next
      case False
      then show ?thesis using c other [OF il False] by (simp add: upd_session_def)
    qed
  qed
qed

lemma count_sessions_covers:
  assumes "count_sessions version k es (b, al) = Some (b', al')" and "tables_ok b" and "k \<le> length (sessions b)"
    and "cov_from k pre b" and "\<forall>e \<in> set pre. e_session e \<in> s_session ` set (sessions b)"
    and "\<forall>e \<in> set es. e_refusals e \<le> UINT_MAX"
  shows "tables_ok b' \<and> entries b' = entries b \<and> take k (sessions b') = take k (sessions b) \<and> cov_from k (pre @ es) b' \<and>
    (\<forall>e \<in> set (pre @ es). e_session e \<in> s_session ` set (sessions b'))"
  using assms
proof (induction es arbitrary: b al pre)
  case Nil
  then show ?case by simp
next
  case (Cons en es)
  let ?add = "added version en"
  have a: "e_refusals en \<le> ?add" "?add \<le> UINT_MAX" using Cons.prems(6) by (simp_all add: added_def)
  text \<open>The session of \<open>en\<close> is at \<open>j\<close> of \<open>b1\<close>, in which the sessions seen so far are still covered.\<close>
  have go: ?case if t1: "tables_ok b1" and e1: "entries b1 = entries b" and tk: "take k (sessions b1) = take k (sessions b)"
      and len: "k \<le> length (sessions b1)" and cov: "cov_from k pre b1"
      and pre: "\<forall>e \<in> set pre. e_session e \<in> s_session ` set (sessions b1)"
      and j: "j < length (sessions b1)" "s_session (sessions b1 ! j) = e_session en"
      and c: "count_sessions version k es (if j < k then b1 else upd_session j (add_refusals ?add) b1, al1) = Some (b', al')"
    for b1 j al1
  proof (cases "j < k")
    case True
    have "e_session en \<in> s_session ` set (sessions b1)" using j by (metis imageI nth_mem)
    then show ?thesis
      using Cons.IH [OF _ t1 len cov_from_step(1) [OF t1 j cov a(1) True]] c True pre Cons.prems(6) e1 tk by simp
  next
    case False
    let ?b2 = "upd_session j (add_refusals ?add) b1"
    have t2: "tables_ok ?b2" using t1 j(1) a(2) add_refusals_ok(1,2) by (intro upd_session_tables) (auto simp: tables_ok_def)
    have "map s_session (sessions ?b2) = map s_session (sessions b1)"
      using j(1) by (simp add: upd_session_def map_update add_refusals_ok(2) list_update_same_conv)
    then have nm: "s_session ` set (sessions ?b2) = s_session ` set (sessions b1)" by (metis list.set_map)
    have "e_session en \<in> s_session ` set (sessions b1)" using j by (metis imageI nth_mem)
    moreover have "take k (sessions ?b2) = take k (sessions b1)" using False by (simp add: upd_session_def)
    moreover have "k \<le> length (sessions ?b2)" "entries ?b2 = entries b" using len e1 by (simp_all add: upd_session_def)
    ultimately show ?thesis
      using Cons.IH [OF _ t2 _ cov_from_step(2) [OF t1 j cov a(1)]] c False pre Cons.prems(6) tk nm by simp
  qed
  show ?case
  proof (cases "find_session b (Some (e_session en))")
    case (Some j)
    have j: "j < length (sessions b)" "s_session (sessions b ! j) = e_session en" using ses.find_Some [OF Some] by auto
    show ?thesis
      by (rule go [of b j al]) (use Cons.prems Some j in \<open>simp_all split: if_splits\<close>)
  next
    case None
    obtain jo b1 al1 where i: "intern_session b (Some (e_session en)) al = (jo, b1, al1)" using prod_cases3 by blast
    then obtain j where jo: "jo = Some j" using Cons.prems(1) None by (cases jo) auto
    note ok = intern_session_ok [OF Cons.prems(2) i, unfolded jo option.case sid_key_idem]
    have nin: "e_session en \<notin> s_session ` set (sessions b)" by (rule ses.find_None [OF None])
    have new: "sessions b1 = sessions b @ [new_session (e_session en)]"
      using ses.intern_new [OF None i] jo by simp
    have j: "j = length (sessions b)" using ses.intern_new [OF None i] jo by simp
    have cov: "cov_from k pre b1"
    proof -
      have "held (e_session en) pre = 0" using Cons.prems(5) nin by (intro held_absent) metis
      then show ?thesis using Cons.prems(4) unfolding cov_from_def new by (auto simp: nth_append new_session_def less_Suc_eq)
    qed
    show ?thesis
      by (rule go [of b1 j al1]) (use Cons.prems ok j new cov i jo None in \<open>auto\<close>)
  qed
qed

lemma linked_members:
  assumes "\<forall>e \<in> set (entries b). e_session e \<in> s_session ` set (sessions b)"
  shows "linked (babs b)"
  unfolding linked_def babs_def fst_conv snd_conv
proof (intro allI impI)
  fix n g
  assume "ent.lookup b (n, g) \<noteq> None"
  then obtain e where e: "ent.lookup b (n, g) = Some e" by blast
  then have "e \<in> set (entries b)" "e_session e = n" using ent.lookup_Some [OF e] by simp_all
  then have "n \<in> s_session ` set (sessions b)" using assms by metis
  then show "ses.lookup b n \<noteq> None" using ses.lookup_None [of b n] by simp
qed

lemma empty_tables: "entries b = [] \<Longrightarrow> sessions b = [] \<Longrightarrow> tables_ok b"
  by (simp add: tables_ok_def ent.distinct_keys_def ses.distinct_keys_def)

lemma loaded_table_ok:
  assumes "plan_breaker_load bo input co al = Some b'"
  shows "breaker_ok b'"
proof -
  obtain b version ls b1 al1 al2 where e: "entries b = []" "sessions b = []"
    and l: "load_table co version ls (b, False, al) = Some (b1, True, al1)"
    and c: "count_sessions version (length (sessions b1)) (entries b1) (b1, al1) = Some (b', al2)"
    and s: "sums_ok (length (sessions b1)) b'"
    using assms unfolding plan_breaker_load_def by (auto simp: Let_def split: option.splits prod.splits if_splits list.splits)
  let ?k = "length (sessions b1)"
  have t: "tables_ok b1" by (rule load_table_tables [OF l empty_tables [OF e]])
  have "\<forall>e \<in> set (entries b1). e_refusals e \<le> UINT_MAX" using t by (auto simp: tables_ok_def entry_ok_def)
  moreover have "cov_from ?k [] b1" by (simp add: cov_from_def held_def)
  ultimately have r: "tables_ok b'" "entries b' = entries b1" "cov_from ?k (entries b1) b'"
    "\<forall>e \<in> set (entries b1). e_session e \<in> s_session ` set (sessions b')"
    using count_sessions_covers [OF c t, of "[]"] by auto
  have "min UINT_MAX (held (s_session (sessions b' ! j)) (entries b')) \<le> s_refusals (sessions b' ! j)"
    if "j < length (sessions b')" for j
  proof (cases "j < ?k")
    case True
    then show ?thesis using s that unfolding sums_ok_def held_filter by (simp add: list_all_length min.coboundedI2)
  next
    case False
    then show ?thesis using r(2,3) that by (simp add: cov_from_def)
  qed
  then have "covered b'" by (auto simp: covered_def in_set_conv_nth)
  then show ?thesis using r linked_members [of b'] by (simp add: breaker_ok_def)
qed

section \<open>Properties\<close>

definition table_savable :: "plan_label_policy_config option \<Rightarrow> plan_breaker \<Rightarrow> bool" where
  "table_savable co b \<longleftrightarrow>
     (\<forall>e \<in> set (entries b). session_savable (e_session e) \<and> action_savable co (e_action e)) \<and>
     (\<forall>s \<in> set (sessions b). session_savable (s_session s) \<and> action_savable co (s_action s) \<and>
        held (s_session s) (entries b) \<le> UINT_MAX) \<and>
     length (entries b) + length (sessions b) < 2 ^ 64"

lemma saved_loads:
  assumes "breaker_ok b" and "table_savable (Some c) b"
  shows "\<exists>body b'. plan_breaker_save (Some b) True = Some body \<and>
    plan_breaker_load (Some fresh_breaker) (Some (body, False)) (Some c) [] = Some b' \<and>
    entries b' = entries b \<and> sessions b' = sessions b"
proof -
  let ?co = "Some c"
  have t: "tables_ok b" and cov: "covered b" and link: "linked (babs b)" using assms(1) by (simp_all add: breaker_ok_def)
  have es: "\<forall>e \<in> set (entries b). entry_savable ?co e" and ss: "\<forall>s \<in> set (sessions b). session_rec_savable ?co s"
    using assms(2) t by (auto simp: table_savable_def entry_savable_def session_rec_savable_def tables_ok_def)
  have n: "length (entries b) + length (sessions b) < 2 ^ 64" using assms(2) by (simp add: table_savable_def)
  let ?trailer = "''end '' @ decimal (length (entries b) + length (sessions b))"
  have short: "\<forall>l \<in> set (save_lines b). newline \<notin> set l \<and> length l < 1023"
    using save_lines_short [OF es ss n] by (simp add: short_line_def)
  have lines: "fgets_lines (concat (with_nl (save_lines b))) = with_nl (save_lines b)" by (rule fgets_lines_concat [OF short])
  have de: "distinct (map (\<lambda>e. (e_session e, e_signature e)) (entries fresh_breaker @ entries b))"
    using t by (simp add: tables_ok_def ent.distinct_keys_def fresh_breaker_def)
  let ?ls = "with_nl (map session_line (sessions b)) @ [?trailer @ nl]"
  from load_entries [OF es de, of 2 ?ls] obtain b1 where
    1: "load_table ?co 2 (with_nl (map entry_line (entries b)) @ ?ls) (fresh_breaker, False, []) = load_table ?co 2 ?ls (b1, False, [])"
      "entries b1 = entries b" "sessions b1 = []" by (auto simp: fresh_breaker_def)
  have ds: "distinct (map s_session (sessions b1 @ sessions b))" using t 1(3) by (simp add: tables_ok_def ses.distinct_keys_def)
  from load_sessions [OF ss ds, of "[?trailer @ nl]"] obtain b2 where
    2: "load_table ?co 2 ?ls (b1, False, []) = load_table ?co 2 [?trailer @ nl] (b2, False, [])"
      "sessions b2 = sessions b" "entries b2 = entries b" using 1 by auto
  have 3: "load_table ?co 2 [?trailer @ nl] (b2, False, []) = Some (b2, True, [])"
    using load_trailer [of b2 ?co 2 "[]"] n 2(2,3) by simp
  have "e_session e \<in> s_session ` set (sessions b2)" if e: "e \<in> set (entries b2)" for e
    using held_unlinked_session [OF t link] e 2 by simp
  then have 4: "count_sessions 2 (length (sessions b2)) (entries b2) (b2, []) = Some (b2, [])" by (intro count_sessions_id) blast
  have 5: "sums_ok (length (sessions b2)) b2"
    unfolding sums_ok_def held_filter using cov assms(2) 2 by (auto simp: list_all_iff covered_def table_savable_def)
  have hdr: "c_string (''varek-breaker 2'' @ nl) = ''varek-breaker 2'' @ nl" by (simp add: c_string_def nl_def newline_def)
  have v: "''varek-breaker 2'' @ nl \<noteq> ''varek-breaker 1'' @ nl" by simp
  have "plan_breaker_load (Some fresh_breaker) (Some (concat (with_nl (save_lines b)), False)) ?co [] = Some b2"
    unfolding plan_breaker_load_def option.case prod.case lines
    using 1(1) 2(1) 3 4 5 hdr v by (simp add: save_lines_def fresh_breaker_def Let_def del: append_Cons append_Nil append.simps)
  then show ?thesis using 2 by (simp add: plan_breaker_save_def)
qed


lemma latched_savable: "table_savable (Some budget_config) latched_breaker"
  by (simp add: table_savable_def latched_breaker_def latched_entry_def new_session_def session_savable_def action_savable_def held_def)


lemma unfinished_line:
  assumes "newline \<notin> set r"
  shows "load_table_line co version r st = None"
proof -
  have "newline \<notin> set (c_string r)" using assms by (auto simp: c_string_def dest: set_takeWhileD)
  then have "c_string r = [] \<or> last (c_string r) \<noteq> newline" using last_in_set by metis
  then show ?thesis by (auto simp: load_table_line_def Let_def split: prod.splits)
qed

lemma load_table_append: "load_table co version (ls @ ls') st =
    (case load_table co version ls st of None \<Rightarrow> None | Some st' \<Rightarrow> load_table co version ls' st')"
  by (induction ls arbitrary: st) (auto split: option.splits)

lemma load_table_ended:
  assumes "load_table co version ls (b, False, al) = Some (b', True, al')"
  shows "\<exists>l \<in> set ls. take 4 (butlast (c_string l)) = ''end ''"
  using assms
proof (induction ls arbitrary: b al)
  case (Cons l ls)
  obtain b1 e1 al1 where 1: "load_table_line co version l (b, False, al) = Some (b1, e1, al1)"
    "load_table co version ls (b1, e1, al1) = Some (b', True, al')"
    using Cons.prems by (auto split: option.splits)
  show ?case
  proof (cases e1)
    case True
    then have "take 4 (butlast (c_string l)) = ''end ''"
      using 1(1) by (auto simp: load_table_line_def Let_def split: if_splits)
    then show ?thesis by simp
  next
    case False
    then show ?thesis using Cons.IH [of b1 al1] 1(2) by auto
  qed
qed simp

text \<open>C26. A state file cut short anywhere, even at the end of a line, is refused: no proper beginning of a saved
  table loads, whatever breaker, configuration and allocator it is read with.\<close>

theorem truncated_refused:
  assumes "breaker_ok b" and "table_savable (Some c) b" and "plan_breaker_save (Some b) True = Some (p @ q)" and "q \<noteq> []"
  shows "plan_breaker_load bo (Some (p, read_error)) co al = None"
proof -
  have t: "tables_ok b" using assms(1) by (simp add: breaker_ok_def)
  have es: "\<forall>e \<in> set (entries b). entry_savable (Some c) e" and ss: "\<forall>s \<in> set (sessions b). session_rec_savable (Some c) s"
    and n: "length (entries b) + length (sessions b) < 2 ^ 64"
    using assms(2) t by (auto simp: table_savable_def entry_savable_def session_rec_savable_def tables_ok_def)
  have short: "\<forall>l \<in> set (save_lines b). clean l \<and> short_line l" by (rule save_lines_short [OF es ss n])
  have body: "p @ q = concat (with_nl (save_lines b))" using assms(3) by (simp add: plan_breaker_save_def)
  from fgets_lines_prefix [OF _ body] short obtain k r where k: "k \<le> length (save_lines b)" "newline \<notin> set r"
    "p = concat (with_nl (take k (save_lines b))) @ r" "fgets_lines p = with_nl (take k (save_lines b)) @ (if r = [] then [] else [r])"
    by blast
  have fail: "load_table co2 version ls st \<noteq> Some (b2, True, al2)"
    if ls: "ls = with_nl (take (k - 1) (tl (save_lines b))) @ (if r = [] then [] else [r])" and st: "st = (b1, False, al1)"
    for co2 version ls st b1 b2 al1 al2
  proof (cases "r = []")
    case False
    then show ?thesis using unfinished_line [OF k(2)] by (auto simp: ls load_table_append split: option.splits)
  next
    case True
    have "k < length (save_lines b)"
    proof (rule ccontr)
      assume "\<not> k < length (save_lines b)"
      then have "p = p @ q" using k(1,3) True body by simp
      then show False using assms(4) by simp
    qed
    then have "take (k - 1) (tl (save_lines b)) = take (k - 1) (map entry_line (entries b) @ map session_line (sessions b))"
      by (simp add: save_lines_def)
    then have tk: "set (take (k - 1) (tl (save_lines b))) \<subseteq> set (map entry_line (entries b) @ map session_line (sessions b))"
      using set_take_subset by metis
    have "take 4 (butlast (c_string l)) \<noteq> ''end ''" if lin: "l \<in> set ls" for l
    proof -
      obtain x where x: "l = x @ nl" "x \<in> set (map entry_line (entries b) @ map session_line (sessions b))"
        using lin tk ls True by (simp only: if_True append_Nil2 set_map simp_thms) blast
      have "clean x" using short x(2) by (auto simp: save_lines_def)
      then have "c_string l = x @ nl"
        unfolding x(1) c_string_def takeWhile_eq_all_conv by (auto simp: clean_def nl_def newline_def)
      moreover have "take 4 (session_line s) \<noteq> ''end ''" for s by (simp add: session_line_def)
      ultimately show ?thesis using x(2) entry_line_start(1) by (auto simp: nl_def butlast_append)
    qed
    then show ?thesis using load_table_ended st by blast
  qed
  show ?thesis
  proof (cases "k = 0")
    case True
    have "newline \<notin> set (c_string r)" using k(2) by (auto simp: c_string_def dest: set_takeWhileD)
    then have "c_string r \<noteq> l @ nl" for l by (auto simp: nl_def)
    then show ?thesis using k(4) True by (auto simp: plan_breaker_load_def Let_def split: option.splits prod.splits if_splits)
  next
    case False
    then have "fgets_lines p = (''varek-breaker 2'' @ nl) # with_nl (take (k - 1) (tl (save_lines b))) @ (if r = [] then [] else [r])"
      unfolding k(4) by (cases k) (simp_all add: save_lines_def)
    with fail show ?thesis by (auto simp: plan_breaker_load_def Let_def split: option.splits prod.splits if_splits)
  qed
qed

theorem truncated_refused_witness:
  "\<exists>p q. plan_breaker_save (Some latched_breaker) True = Some (p @ q) \<and> q = nl \<and>
    plan_breaker_load (Some fresh_breaker) (Some (p, False)) (Some budget_config) [] = None"
proof -
  obtain p where p: "plan_breaker_save (Some latched_breaker) True = Some (p @ nl)"
    by (simp add: plan_breaker_save_def save_lines_def)
  from truncated_refused [OF latched_breaker_ok latched_savable this] p show ?thesis by (auto simp: nl_def)
qed

text \<open>C25. Reading cannot break the breaker: whatever bytes a state file holds, a table that is accepted satisfies
  the invariant the bounds rest on, including the sessions that are rebuilt from the entries of an older format.\<close>

theorem load_establishes_invariant:
  assumes "plan_breaker_load bo input co al = Some b'"
  shows "breaker_ok b'"
  by (rule loaded_table_ok [OF assms])

theorem load_establishes_invariant_witness:
  "\<exists>body b'. plan_breaker_save (Some latched_breaker) True = Some body \<and>
    plan_breaker_load (Some fresh_breaker) (Some (body, False)) (Some budget_config) [] = Some b' \<and> breaker_ok b'"
  using saved_loads [OF latched_breaker_ok latched_savable] load_establishes_invariant by metis



end
