(* ===== verification/Progress.thy ===== *)
theory Progress
  imports Breaker_Spec
begin

text \<open>
  The progress verifier: \<^verbatim>\<open>src/v1_7/plan_progress.h\<close> and \<^verbatim>\<open>plan_progress.c\<close>. Before anything runs it checks that
  a policy which can refuse declares a budget, and that every action the breaker may fall back to is declared
  and is authorized by the same gate, as a plan of its own. Composed with the breaker this bounds how long a
  refused plan can go on without an automatic outcome.
\<close>

section \<open>The verifier\<close>

record plan_progress_finding =
  pf_verdict :: plan_decision
  pf_reason :: string
  pf_obligation :: int
  pf_detail :: string

text \<open>\<open>detail\<close> is a buffer of 256 bytes, as is the text formatted for it.\<close>

definition set_finding :: "plan_decision \<Rightarrow> string \<Rightarrow> int \<Rightarrow> string option \<Rightarrow> plan_progress_finding" where
  "set_finding v reason obligation detail =
     \<lparr>pf_verdict = v, pf_reason = reason, pf_obligation = obligation,
      pf_detail = (case detail of None \<Rightarrow> [] | Some d \<Rightarrow> take 255 d)\<rparr>"

definition snprintf256 :: "string \<Rightarrow> string" where
  "snprintf256 s = take 255 s"

text \<open>A plan of the one action, decided SATISFIED, put to the gate. \<open>None\<close> would mean that the evaluator left
  its arrays.\<close>

definition fallback_authorizes ::
  "plan_label_policy_config option \<Rightarrow> cstr option \<Rightarrow> allocs \<Rightarrow> plan_decision option \<times> allocs" where
  "fallback_authorizes co action_name al =
     (let (ok, al) = take_alloc al in
      (case exec_plan_new ok of
         None \<Rightarrow> (Some PLAN_DEC_UNKNOWN, al)
       | Some p \<Rightarrow>
           let (node, plan) = exec_plan_add_node (Some p) action_name PLAN_DEC_SATISFIED in
           if node = PLAN_NODE_ID_INVALID then (Some PLAN_DEC_UNKNOWN, al)
           else
             let req = \<lparr>req_plan = plan, req_actions = Some [\<lparr>act_name = action_name, named_args = []\<rparr>],
                        req_policy = plan_label_policy_config_policy co,
                        req_path_opts = plan_label_policy_config_pathology_opts co,
                        req_pathology_buf = False, req_pathology_buf_sz = 0\<rparr>;
                 (ok, al) = take_alloc al
             in
             (case plan_warden_verify ok (Some req) of
                None \<Rightarrow> (None, al)
              | Some (rc, resp) \<Rightarrow> (Some (if rc \<noteq> 0 then PLAN_DEC_UNKNOWN else verdict resp), al))))"

abbreviation named_text :: "string \<Rightarrow> string \<Rightarrow> string \<Rightarrow> string \<Rightarrow> string" where
  "named_text where_s before name after \<equiv> where_s @ '': '' @ before @ CHR 0x27 # name @ CHR 0x27 # after"

text \<open>The obligation that failed, or 0; with the finding when one is written.\<close>

definition check_disposition ::
  "plan_label_policy_config option \<Rightarrow> plan_disposition \<Rightarrow> string \<Rightarrow> int \<Rightarrow> plan_progress_finding \<Rightarrow> allocs \<Rightarrow>
   (int \<times> plan_progress_finding) option \<times> allocs" where
  "check_disposition co disp where_s obligation out al =
     (if disp_kind disp = PLAN_DISP_DENY then (Some (0, out), al)
      else
        (case disp_action disp of
           None \<Rightarrow>
             (Some (obligation, set_finding PLAN_DEC_UNSATISFIED ''terminal disposition missing a safe action'' obligation
                (Some (snprintf256 (where_s @ '': terminal disposition has no action name'')))), al)
         | Some name \<Rightarrow>
             if \<not> plan_label_policy_config_has_action co (Some name) then
               (Some (obligation, set_finding PLAN_DEC_UNSATISFIED ''terminal disposition names an undeclared action'' obligation
                  (Some (snprintf256 (named_text where_s ''safe action '' name '' is not a declared rule'')))), al)
             else if plan_label_policy_config_action_denies_sticky co (Some name) then
               (Some (obligation, set_finding PLAN_DEC_UNSATISFIED ''fallback action is deadlock-prone (denies a sticky label)'' obligation
                  (Some (snprintf256 (named_text where_s ''safe action '' name
                     '' denies a sticky label it may receive (refuse->fallback->refuse)'')))), al)
             else
               (case fallback_authorizes co (Some name) al of
                  (None, al) \<Rightarrow> (None, al)
                | (Some v, al) \<Rightarrow>
                    if v = PLAN_DEC_SATISFIED then (Some (0, out), al)
                    else if v = PLAN_DEC_UNKNOWN then
                      (Some (obligation, set_finding PLAN_DEC_UNKNOWN ''fallback authorization undecidable; fail closed'' obligation
                         (Some (snprintf256 (named_text where_s ''could not decide whether '' name '' authorizes'')))), al)
                    else
                      (Some (obligation, set_finding PLAN_DEC_UNSATISFIED ''fallback action does not authorize (deadlock)'' obligation
                         (Some (snprintf256 (named_text where_s ''safe action '' name
                            '' is itself refused (refuse->fallback->refuse)'')))), al))))"

text \<open>The return value and what \<open>*out\<close> holds; \<open>out_given\<close> says whether \<open>out\<close> is a pointer.\<close>

definition plan_progress_verify ::
  "plan_label_policy_config option \<Rightarrow> bool \<Rightarrow> allocs \<Rightarrow> (int \<times> plan_progress_finding option) option" where
  "plan_progress_verify co out_given al =
     (if co = None \<or> \<not> out_given then Some (-1, None)
      else
        let out = set_finding PLAN_DEC_SATISFIED ''policy is progress-safe (human-out-of-the-loop certified)'' 0 None;
            enabled = plan_label_policy_config_breaker_enabled co
        in
        if plan_label_policy_config_can_refuse co \<and> \<not> enabled then
          Some (0, Some (set_finding PLAN_DEC_UNSATISFIED
            ''policy can refuse but declares no refusal_budget (unbounded retry is not human-out-of-the-loop safe)'' 1
            (Some ''add: refusal_budget N'')))
        else
          (case check_disposition co (plan_label_policy_config_unknown_disposition co) ''unknown_disposition'' 2 out al of
             (None, al) \<Rightarrow> None
           | (Some (failed, out), al) \<Rightarrow>
               if failed \<noteq> 0 then Some (0, Some out)
               else if enabled then
                 (case check_disposition co (plan_label_policy_config_on_exhaustion co) ''on_exhaustion'' 3 out al of
                    (None, al) \<Rightarrow> None
                  | (Some (failed, out), al) \<Rightarrow> Some (0, Some out))
               else Some (0, Some out)))"

definition plan_progress_certified :: "plan_progress_finding option \<Rightarrow> bool" where
  "plan_progress_certified out = (case out of None \<Rightarrow> False | Some f \<Rightarrow> pf_verdict f = PLAN_DEC_SATISFIED)"

section \<open>What the oracle decides\<close>

definition single_plan :: "cstr \<Rightarrow> exec_plan" where
  "single_plan a = \<lparr>nodes = [\<lparr>node_id = 0, node_label = Some a, node_decision = PLAN_DEC_SATISFIED\<rparr>], edges = []\<rparr>"

definition bare_action :: "cstr \<Rightarrow> plan_action_desc" where
  "bare_action a = \<lparr>act_name = Some a, named_args = []\<rparr>"

text \<open>An action is a safe fallback: as a plan of its own it is authorized under the policy.\<close>

definition stands_alone :: "plan_label_policy_config \<Rightarrow> cstr \<Rightarrow> bool" where
  "stands_alone c a \<longleftrightarrow> gate_spec (single_plan a) [bare_action a] (cfg_table c) (cfg_sticky c)"

lemma single_plan_new:
  "exec_plan_add_node (Some empty_plan) (Some a) PLAN_DEC_SATISFIED = (0, Some (single_plan a))"
  by (simp add: exec_plan_add_node_def empty_plan_def single_plan_def PLAN_MAX_NODES_def)

lemma single_plan_built: "plan_built (single_plan a)"
  using plan_built.add_node [OF plan_built.fresh [of True empty_plan] single_plan_new] by (simp add: exec_plan_new_def)

text \<open>A plan of one node has no flow, so only the classification can stand in its way.\<close>

lemma stands_alone_iff: "stands_alone c a \<longleftrightarrow> fst (plan_label_policy_from_table (cfg_table c) (bare_action a) empty_class) = 0"
  by (auto simp: stands_alone_def gate_spec_def single_plan_def plan_rel_def acyclic_def)

lemma fallback_gate:
  assumes "cfg_ok c"
    and req: "req_plan req = Some (single_plan a)" "req_actions req = Some [bare_action a]" "req_policy req = plan_label_policy_config_policy (Some c)"
  shows "\<exists>rc resp. plan_warden_verify True (Some req) = Some (rc, resp) \<and>
    (if stands_alone c a then rc = 0 \<and> verdict resp = PLAN_DEC_SATISFIED else rc = -1)"
proof -
  have wf: "wf_table (cfg_table c)" "wf_lset (cfg_sticky c)" using cfg_ok_table [OF assms(1)] by auto
  have pol: "req_policy req = Some (gate_policy (cfg_table c) (cfg_sticky c))"
    using req(3) by (simp add: plan_label_policy_config_policy_def gate_policy_def)
  from gate_correct [OF single_plan_built wf req(1,2) pol] obtain rc resp where
    g: "plan_warden_verify True (Some req) = Some (rc, resp)" "plan_warden_authorized (Some resp) \<longleftrightarrow> stands_alone c a"
      "rc \<noteq> 0 \<longrightarrow> rc = -1 \<and> resp = response_init_refuse" by (auto simp: stands_alone_def)
  show ?thesis
  proof (cases "stands_alone c a")
    case True
    then show ?thesis using g by (auto simp: plan_warden_authorized_def response_init_refuse_def)
  next
    case False
    obtain df0 where new: "plan_dataflow_new True (Some (single_plan a)) = Some df0" by (simp add: plan_dataflow_new_def)
    have "fst (plan_dataflow_populate df0 (Some [bare_action a]) (Some (gate_policy (cfg_table c) (cfg_sticky c)))) = -1"
      using False by (intro gate_refused [OF plan_built_wf [OF single_plan_built] wf new]) (simp add: stands_alone_iff)
    then have "plan_warden_verify True (Some req) = Some (-1, response_init_refuse)"
      using req(1,2) pol new by (auto simp: plan_warden_verify_def split: prod.splits)
    then show ?thesis using False by simp
  qed
qed

lemma fallback_decides:
  assumes "cfg_ok c"
  shows "\<exists>v al'. fallback_authorizes (Some c) (Some a) al = (Some v, al') \<and> (v = PLAN_DEC_SATISFIED \<or> v = PLAN_DEC_UNKNOWN) \<and>
    (v = PLAN_DEC_SATISFIED \<longrightarrow> stands_alone c a) \<and> (al = [] \<longrightarrow> al' = [] \<and> (stands_alone c a \<longrightarrow> v = PLAN_DEC_SATISFIED))"
proof -
  obtain ok1 al1 where 1: "take_alloc al = (ok1, al1)" by force
  obtain ok2 al2 where 2: "take_alloc al1 = (ok2, al2)" by force
  have n: "al = [] \<Longrightarrow> ok1 \<and> al1 = [] \<and> ok2 \<and> al2 = []" using 1 2 by simp
  let ?req = "\<lparr>req_plan = Some (single_plan a), req_actions = Some [\<lparr>act_name = Some a, named_args = []\<rparr>],
    req_policy = plan_label_policy_config_policy (Some c), req_path_opts = plan_label_policy_config_pathology_opts (Some c),
    req_pathology_buf = False, req_pathology_buf_sz = 0\<rparr>"
  from fallback_gate [OF assms, of ?req a] obtain rc resp where
    g: "plan_warden_verify True (Some ?req) = Some (rc, resp)" "if stands_alone c a then rc = 0 \<and> verdict resp = PLAN_DEC_SATISFIED else rc = -1"
    by (auto simp: bare_action_def)
  have f: "plan_warden_verify False (Some ?req) = Some (-1, response_init_refuse)"
    by (simp add: plan_warden_verify_def plan_dataflow_new_def plan_label_policy_config_policy_def)
  show ?thesis
  proof (cases ok1)
    case False
    then show ?thesis using 1 n by (auto simp: fallback_authorizes_def exec_plan_new_def)
  next
    case True
    then have "fallback_authorizes (Some c) (Some a) al =
      (case plan_warden_verify ok2 (Some ?req) of None \<Rightarrow> (None, al2) | Some (rc, resp) \<Rightarrow> (Some (if rc \<noteq> 0 then PLAN_DEC_UNKNOWN else verdict resp), al2))"
      using 1 2 by (simp add: fallback_authorizes_def exec_plan_new_def single_plan_new)
    then show ?thesis using f g n by (cases ok2) (auto split: if_splits)
  qed
qed

section \<open>What a certificate says\<close>

text \<open>A disposition that always ends the matter: deny, or an action that is declared, that takes every sticky
  label, and that is authorized on its own.\<close>

definition sound_disposition :: "plan_label_policy_config \<Rightarrow> plan_disposition \<Rightarrow> bool" where
  "sound_disposition c d \<longleftrightarrow> disp_kind d = PLAN_DISP_DENY \<or>
     (\<exists>a. disp_action d = Some a \<and> plan_label_policy_config_has_action (Some c) (Some a) \<and>
        \<not> plan_label_policy_config_action_denies_sticky (Some c) (Some a) \<and> stands_alone c a)"

lemma check_disposition_sound:
  assumes "cfg_ok c" and ob: "ob \<noteq> 0"
  shows "\<exists>failed out' al'. check_disposition (Some c) d w ob out al = (Some (failed, out'), al') \<and>
    (failed = 0 \<longrightarrow> out' = out) \<and> (failed = 0 \<longrightarrow> sound_disposition c d) \<and>
    (failed \<noteq> 0 \<longrightarrow> pf_verdict out' \<noteq> PLAN_DEC_SATISFIED) \<and>
    (al = [] \<and> sound_disposition c d \<longrightarrow> failed = 0 \<and> al' = [])"
proof (cases "disp_action d")
  case None
  then show ?thesis using ob by (auto simp: check_disposition_def sound_disposition_def set_finding_def)
next
  case (Some a)
  obtain v al' where "fallback_authorizes (Some c) (Some a) al = (Some v, al')" "v = PLAN_DEC_SATISFIED \<or> v = PLAN_DEC_UNKNOWN"
    "v = PLAN_DEC_SATISFIED \<longrightarrow> stands_alone c a" "al = [] \<longrightarrow> al' = [] \<and> (stands_alone c a \<longrightarrow> v = PLAN_DEC_SATISFIED)"
    using fallback_decides [OF assms(1)] by blast
  then show ?thesis using Some ob by (auto simp: check_disposition_def sound_disposition_def set_finding_def)
qed

definition sound_policy :: "plan_label_policy_config \<Rightarrow> bool" where
  "sound_policy c \<longleftrightarrow>
     (plan_label_policy_config_can_refuse (Some c) \<longrightarrow> plan_label_policy_config_breaker_enabled (Some c)) \<and>
     sound_disposition c (unknown_disp c) \<and>
     (plan_label_policy_config_breaker_enabled (Some c) \<longrightarrow> sound_disposition c (on_exhaustion c))"

lemma progress_exact:
  assumes "cfg_ok c"
  shows "\<exists>out. plan_progress_verify (Some c) True al = Some (0, Some out) \<and>
    (plan_progress_certified (Some out) \<longrightarrow> sound_policy c) \<and> (al = [] \<and> sound_policy c \<longrightarrow> plan_progress_certified (Some out))"
proof -
  let ?out = "set_finding PLAN_DEC_SATISFIED ''policy is progress-safe (human-out-of-the-loop certified)'' 0 None"
  have co: "plan_label_policy_config_unknown_disposition (Some c) = unknown_disp c" "plan_label_policy_config_on_exhaustion (Some c) = on_exhaustion c"
    by (simp_all add: plan_label_policy_config_unknown_disposition_def plan_label_policy_config_on_exhaustion_def)
  obtain f1 o1 al1 where 1: "check_disposition (Some c) (unknown_disp c) ''unknown_disposition'' 2 ?out al = (Some (f1, o1), al1)"
    "f1 = 0 \<longrightarrow> o1 = ?out" "f1 = 0 \<longrightarrow> sound_disposition c (unknown_disp c)" "f1 \<noteq> 0 \<longrightarrow> pf_verdict o1 \<noteq> PLAN_DEC_SATISFIED"
    "al = [] \<and> sound_disposition c (unknown_disp c) \<longrightarrow> f1 = 0 \<and> al1 = []"
    using check_disposition_sound [OF assms, of 2 "unknown_disp c" "''unknown_disposition''" ?out al] by auto
  obtain f2 o2 al2 where 2: "check_disposition (Some c) (on_exhaustion c) ''on_exhaustion'' 3 ?out al1 = (Some (f2, o2), al2)"
    "f2 = 0 \<longrightarrow> o2 = ?out" "f2 = 0 \<longrightarrow> sound_disposition c (on_exhaustion c)" "f2 \<noteq> 0 \<longrightarrow> pf_verdict o2 \<noteq> PLAN_DEC_SATISFIED"
    "al1 = [] \<and> sound_disposition c (on_exhaustion c) \<longrightarrow> f2 = 0 \<and> al2 = []"
    using check_disposition_sound [OF assms, of 3 "on_exhaustion c" "''on_exhaustion''" ?out al1] by auto
  have v: "pf_verdict ?out = PLAN_DEC_SATISFIED" by (simp add: set_finding_def)
  let ?en = "plan_label_policy_config_breaker_enabled (Some c)"
  show ?thesis
  proof (cases "plan_label_policy_config_can_refuse (Some c) \<and> \<not> ?en")
    case True
    then show ?thesis by (auto simp: plan_progress_verify_def plan_progress_certified_def sound_policy_def set_finding_def)
  next
    case False
    let ?o = "if f1 = 0 \<and> ?en then o2 else o1"
    have "plan_progress_verify (Some c) True al = Some (0, Some ?o)"
      unfolding plan_progress_verify_def co Let_def 1(1) if_not_P [OF False] using 1(2) 2(1) by simp
    moreover have "pf_verdict ?o = PLAN_DEC_SATISFIED \<longleftrightarrow> f1 = 0 \<and> (?en \<longrightarrow> f2 = 0)" using 1(2,4) 2(2,4) v by (cases "f1 = 0"; cases "f2 = 0") auto
    moreover have "sound_policy c \<longleftrightarrow> sound_disposition c (unknown_disp c) \<and> (?en \<longrightarrow> sound_disposition c (on_exhaustion c))"
      using False by (auto simp: sound_policy_def)
    ultimately show ?thesis using 1(3,5) 2(3,5) by (auto simp: plan_progress_certified_def)
  qed
qed

section \<open>The actions a breaker names\<close>

definition disposition_actions :: "plan_label_policy_config option \<Rightarrow> cstr option set" where
  "disposition_actions co = {None, snd (exh co), snd (unk co)}"

definition named_from :: "plan_label_policy_config option \<Rightarrow> bstate \<Rightarrow> bool" where
  "named_from co st \<longleftrightarrow> (\<forall>k. e_action (entry_at st k) \<in> disposition_actions co) \<and> (\<forall>n. s_action (session_at st n) \<in> disposition_actions co)"

lemma refuse_spec_named:
  assumes "refuse_spec co v e s = (e', s', oa)" and "e_action e \<in> disposition_actions co" and "s_action s \<in> disposition_actions co"
  shows "e_action e' \<in> disposition_actions co \<and> s_action s' \<in> disposition_actions co \<and> snd oa \<in> disposition_actions co"
  using assms
  by (auto simp: refuse_spec_def disposition_actions_def latch_entry_def latch_session_def settle_def bump_entry_def bump_session_def split: if_splits)

lemma bstep_named:
  assumes "bstep co st k v oa st'" and "named_from co st"
  shows "named_from co st' \<and> snd oa \<in> disposition_actions co"
  using assms(1)
proof cases
  case pass
  then show ?thesis
    using assms(2) by (auto simp: named_from_def entry_at_def session_at_def disposition_actions_def clear_entry_def new_entry_def split: option.splits)
next
  case unrecorded
  then show ?thesis using assms(2) by (simp add: disposition_actions_def)
next
  case session_only
  then show ?thesis using assms(2) by (auto simp: named_from_def entry_at_def session_at_def disposition_actions_def new_session_def split: option.splits)
next
  case (refuse e' s')
  have "e_action e' \<in> disposition_actions co \<and> s_action s' \<in> disposition_actions co \<and> snd oa \<in> disposition_actions co"
    using assms(2) by (intro refuse_spec_named [OF refuse(3)]) (auto simp only: named_from_def)
  then show ?thesis using refuse(1) assms(2) by (simp add: named_from_def entry_at_def session_at_def)
qed

lemma runs_named:
  assumes "bok bo" and "named_from co (babs (the bo))" and "runs (submit co) bo xs = (rs, bo')"
  shows "\<forall>r \<in> set rs. res_terminal_action r \<in> disposition_actions co"
  using assms
proof (induction xs arbitrary: bo rs)
  case (Cons x xs)
  obtain r bo1 where 1: "submit co bo x = (r, bo1)" by force
  obtain rs1 where 2: "runs (submit co) bo1 xs = (rs1, bo')" "rs = r # rs1" using Cons.prems(3) 1 by (auto split: prod.splits)
  have "bok bo1" and st: "bstep co (babs (the bo)) (sub_key x) (sub_verdict x) (res_outcome r, res_terminal_action r) (babs (the bo1))"
    using submit_step [OF Cons.prems(1) 1] by simp_all
  then show ?case using Cons.IH [OF _ _ 2(1)] bstep_named [OF st Cons.prems(2)] by (simp add: 2(2))
qed simp

lemma fresh_named: "named_from co (babs fresh_breaker)"
  by (simp add: named_from_def entry_at_def session_at_def babs_def fresh_breaker_def ent.lookup_def ses.lookup_def new_entry_def new_session_def
      disposition_actions_def)

lemma sound_action:
  assumes "sound_disposition c d" and "snd (terminalize d) = Some a"
  shows "stands_alone c a"
  using assms by (auto simp: sound_disposition_def terminalize_def split: if_splits option.splits)

section \<open>Properties\<close>

text \<open>The certificate is exact: the verifier answers every loaded policy, a policy it certifies satisfies its
  obligations (a budget if the policy can refuse; each disposition is deny or names a declared action
  that takes every sticky label and is authorized as a plan of its own), and one that satisfies them is certified
  unless an allocation fails.\<close>

theorem certificate_exact:
  assumes "plan_label_policy_config_load_stream memory read_error stream = Inr c"
  shows "\<exists>out. plan_progress_verify (Some c) True al = Some (0, Some out) \<and>
    (plan_progress_certified (Some out) \<longrightarrow> sound_policy c) \<and> (al = [] \<and> sound_policy c \<longrightarrow> plan_progress_certified (Some out))"
  using progress_exact loaded_ok [OF assms] by blast

theorem certificate_exact_witness:
  "\<exists>out. plan_progress_verify (Some cfg_zero) True [] = Some (0, Some out) \<and> plan_progress_certified (Some out)"
proof -
  have "\<not> plan_label_policy_config_can_refuse (Some cfg_zero)" by code_simp
  then have "sound_policy cfg_zero"
    by (simp add: sound_policy_def sound_disposition_def cfg_zero_def plan_label_policy_config_breaker_enabled_def)
  then show ?thesis using certificate_exact [OF zero_loads, of "[]"] by blast
qed

text \<open>C14. What the certificate is for: under a well-formed (as every loaded one is) and certified policy that can refuse, a plan that is refused as
  often as its budget allows gets a terminal answer, whatever else is submitted and however the
  allocator behaves, and every action a host is told to run is one the same policy authorizes on its own.
  No sequence of refusals waits for a human.\<close>

theorem certified_progress:
  assumes "cfg_ok c"
    and "plan_progress_verify (Some c) True al = Some (0, Some out)" and "plan_progress_certified (Some out)"
    and "plan_label_policy_config_can_refuse (Some c)" and "0 < plan_label_policy_config_refusal_budget (Some c)"
    and "list_all (\<lambda>x. sub_key x = k \<longrightarrow> sub_verdict x \<noteq> PLAN_DEC_SATISFIED) xs"
    and "plan_label_policy_config_refusal_budget (Some c) \<le> length (filter (\<lambda>x. sub_key x = k) xs)"
    and "runs (submit (Some c)) (Some fresh_breaker) xs = (rs, bo')"
  shows "(\<exists>(x, r) \<in> set (zip xs rs). sub_key x = k \<and>
      (res_outcome r = PLAN_BREAKER_TERMINAL_DENY \<or> res_outcome r = PLAN_BREAKER_TERMINAL_ACTION)) \<and>
    (\<forall>r \<in> set rs. \<forall>a. res_terminal_action r = Some a \<longrightarrow> stands_alone c a)"
proof
  note ok = assms(1)
  have s: "sound_policy c" using progress_exact [OF ok, of al] assms(2,3) by auto
  then have en: "plan_label_policy_config_breaker_enabled (Some c)" using assms(4) by (simp add: sound_policy_def)
  have "plan_label_policy_config_refusal_budget (Some c) \<le> UINT_MAX"
    using ok en by (simp add: cfg_ok_def plan_label_policy_config_refusal_budget_def plan_label_policy_config_breaker_enabled_def)
  then show "\<exists>(x, r) \<in> set (zip xs rs). sub_key x = k \<and>
      (res_outcome r = PLAN_BREAKER_TERMINAL_DENY \<or> res_outcome r = PLAN_BREAKER_TERMINAL_ACTION)"
    using terminal_after_budget [OF fresh_breaker_ok en _ assms(6,5,7,8)] by blast
  have "bok (Some fresh_breaker)" using fresh_breaker_ok by (simp add: bok_def)
  from runs_named [OF this _ assms(8)] fresh_named
  have n: "\<forall>r \<in> set rs. res_terminal_action r \<in> disposition_actions (Some c)" by simp
  have "stands_alone c a" if "Some a \<in> disposition_actions (Some c)" for a
    using that s en sound_action [of c "unknown_disp c" a] sound_action [of c "on_exhaustion c" a]
    by (auto simp: disposition_actions_def exh_def unk_def sound_policy_def plan_label_policy_config_on_exhaustion_def
        plan_label_policy_config_unknown_disposition_def)
  with n show "\<forall>r \<in> set rs. \<forall>a. res_terminal_action r = Some a \<longrightarrow> stands_alone c a" by metis
qed

text \<open>A policy with a secret, a fallback that denies it, and a budget.\<close>

definition quarantine_config :: plan_label_policy_config where
  "quarantine_config = cfg_zero\<lparr>
     cfg_rules := [\<lparr>rule_action = Some ''read'', rule_classify = empty_class\<lparr>cls_origin := [1, 0]\<rparr>, rule_matches = []\<rparr>,
       \<lparr>rule_action = Some ''quarantine'', rule_classify = empty_class\<lparr>cls_deny_in := [1, 0]\<rparr>, rule_matches = []\<rparr>],
     cap_rules := 8, label_names := (\<lambda>i. if i = 0 then Some ''secret'' else None), n_labels := 1,
     budget_set := True, refusal_budget := 2, on_exhaustion_set := True,
     on_exhaustion := \<lparr>disp_kind = PLAN_DISP_TERMINAL, disp_action = Some ''quarantine''\<rparr>\<rparr>"

lemma secret_set: "wf_lset [1, 0]" "lset [1, 0] = {0}"
proof -
  show "wf_lset [1, 0]" by (simp add: wf_lset_def)
  have "[1, 0] = plan_label_set_clear[(0::nat) div 64 := plan_label_set_clear ! (0 div 64) OR push_bit (0 mod 64) 1]" by code_simp
  then show "lset [1, 0] = {0}" using lset_add [of plan_label_set_clear 0] lab.clear by (simp add: PLAN_MAX_LABELS_def)
qed

lemma quarantine_ok: "cfg_ok quarantine_config" "sound_policy quarantine_config" "plan_label_policy_config_can_refuse (Some quarantine_config)"
proof -
  have d: "declared quarantine_config = {0}" by (auto simp: declared_def quarantine_config_def split: if_splits)
  show "cfg_ok quarantine_config"
    unfolding cfg_ok_def labels_ok_def d
    by (auto simp: quarantine_config_def cfg_zero_def disp_ok_def lab.clear rule_ok_def wf_class_def empty_class_def class_labels_def secret_set
        PLAN_MAX_LABELS_def split: if_splits)
  show "plan_label_policy_config_can_refuse (Some quarantine_config)" by code_simp
  have "plan_label_policy_config_has_action (Some quarantine_config) (Some ''quarantine'')"
    "\<not> plan_label_policy_config_action_denies_sticky (Some quarantine_config) (Some ''quarantine'')"
    "fst (plan_label_policy_from_table (cfg_table quarantine_config) (bare_action ''quarantine'') empty_class) = 0" by code_simp+
  then show "sound_policy quarantine_config"
    by (simp add: sound_policy_def sound_disposition_def stands_alone_iff)
      (simp add: quarantine_config_def cfg_zero_def plan_label_policy_config_breaker_enabled_def)
qed

theorem certified_progress_witness:
  "\<exists>out. plan_progress_verify (Some quarantine_config) True [] = Some (0, Some out) \<and> plan_progress_certified (Some out) \<and>
    (\<exists>(x, r) \<in> set (zip three_refusals (fst (runs (submit (Some quarantine_config)) (Some fresh_breaker) three_refusals))).
      sub_key x = (''s'', 7) \<and> (res_outcome r = PLAN_BREAKER_TERMINAL_DENY \<or> res_outcome r = PLAN_BREAKER_TERMINAL_ACTION))"
proof -
  obtain out where out: "plan_progress_verify (Some quarantine_config) True [] = Some (0, Some out)" "plan_progress_certified (Some out)"
    using progress_exact [OF quarantine_ok(1), of "[]"] quarantine_ok(2) by blast
  have b: "plan_label_policy_config_refusal_budget (Some quarantine_config) = 2"
    by (simp add: plan_label_policy_config_refusal_budget_def quarantine_config_def cfg_zero_def)
  have f: "length (filter (\<lambda>x. sub_key x = (''s'', 7)) three_refusals) = 2" by (simp add: three_refusals_def sub_key_def sid_key_def)
  show ?thesis
    using certified_progress [OF quarantine_ok(1) out quarantine_ok(3) _ three_refusals_refused _ prod.collapse [symmetric], of "(''s'', 7)"]
      out b f by auto
qed


end
