(* ===== verification/Plan_Parser.thy ===== *)
theory Plan_Parser
  imports C_Text Json
begin

text \<open>
  The plan file parser: \<^verbatim>\<open>src/v1_6/plan_spec.h\<close>, \<^verbatim>\<open>plan_parser.h\<close> and \<^verbatim>\<open>plan_parser.c\<close>. A file is read line by
  line with \<open>getline\<close>; each line adds an action (a label, a kind, a target and fields) or an edge between
  two actions named before, or names the format. A failure is a value of \<open>perr\<close> with the line number; the
  text the caller gets is computed from it. Arrays with a count are lists; strings are copied with an
  allocator that may fail.
\<close>

section \<open>Limits and data\<close>

definition PLAN_FIELDS_MAX :: nat where "PLAN_FIELDS_MAX = 16"
definition PLAN_FIELD_KEY_MAX :: nat where "PLAN_FIELD_KEY_MAX = 32"
definition PLAN_FIELD_VALUE_MAX :: nat where "PLAN_FIELD_VALUE_MAX = 4096"
definition PLAN_TARGET_MAX :: nat where "PLAN_TARGET_MAX = 4095"
definition PLAN_PARSE_MAX_ACTIONS :: nat where "PLAN_PARSE_MAX_ACTIONS = 256"
definition PLAN_PARSE_MAX_EDGES :: nat where "PLAN_PARSE_MAX_EDGES = 1024"
definition PLAN_LABEL_MAX :: nat where "PLAN_LABEL_MAX = 64"
definition PLAN_LINE_MAX :: nat where "PLAN_LINE_MAX = 16384"
definition PLAN_OWNED_STRINGS_MAX :: nat where
  "PLAN_OWNED_STRINGS_MAX = PLAN_PARSE_MAX_ACTIONS * (4 + 2 * PLAN_FIELDS_MAX)"

lemmas parser_limits = PLAN_FIELDS_MAX_def PLAN_FIELD_KEY_MAX_def PLAN_FIELD_VALUE_MAX_def PLAN_TARGET_MAX_def
  PLAN_PARSE_MAX_ACTIONS_def PLAN_PARSE_MAX_EDGES_def PLAN_LABEL_MAX_def PLAN_LINE_MAX_def PLAN_OWNED_STRINGS_MAX_def

record plan_spec_action =
  sa_kind :: "cstr option"
  sa_target :: "cstr option"
  sa_parameters :: "cstr option"
  sa_label :: "cstr option"

record plan_spec_field =
  sf_key :: cstr
  sf_value :: cstr

record plan_spec_edge =
  from_idx :: nat
  to_idx :: nat

record plan_spec =
  spec_actions :: "plan_spec_action list"
  spec_edges :: "plan_spec_edge list"

record plan_parsed =
  pp_owned :: "cstr list"
  pp_labels :: "cstr list"
  pp_actions :: "plan_spec_action list"
  pp_fields :: "plan_spec_field list list"
  pp_edges :: "plan_spec_edge list"
  pp_version :: nat
  pp_seen_directive :: bool

definition parsed_zero :: plan_parsed where
  "parsed_zero = \<lparr>pp_owned = [], pp_labels = [], pp_actions = [], pp_fields = [], pp_edges = [], pp_version = 0,
     pp_seen_directive = False\<rparr>"

datatype perr =
    P_INTERN_FULL | P_NO_MEMORY | P_FIELD_SYNTAX | P_FIELD_NAME | P_FIELD_TARGET | P_FIELD_DUPLICATE | P_FIELD_COUNT
  | P_UNTERMINATED | P_ESCAPE | P_CONTROL | P_VALUE_LONG | P_AFTER_QUOTE | P_BARE
  | P_PLAN_FIRST | P_PLAN_SYNTAX | P_PLAN_VERSION | P_ACTIONS | P_ACTION_SYNTAX | P_TARGET_LONG | P_LABEL | P_DUPLICATE
  | P_EDGES | P_EDGE_SYNTAX | P_EDGE_EXTRA | P_EDGE_FROM | P_EDGE_TO | P_SELF_EDGE | P_INDEX | P_DIRECTIVE
  | P_LINE_LONG | P_NUL | P_NO_ACTIONS | P_NULL_PATH | P_OPEN

section \<open>Messages\<close>

abbreviation sq :: char where "sq \<equiv> CHR 0x27"

fun perr_msg :: "perr \<Rightarrow> string" where
  "perr_msg P_INTERN_FULL = ''intern table exhausted''"
| "perr_msg P_NO_MEMORY = ''out of memory''"
| "perr_msg P_FIELD_SYNTAX = ''after the target an action takes only key=value fields''"
| "perr_msg P_FIELD_NAME = ''invalid field name (use [a-z][a-z0-9_]*, at most 32 characters)''"
| "perr_msg P_FIELD_TARGET = ''field '' @ [sq] @ ''target'' @ [sq] @ '' is reserved (the target is the third field)''"
| "perr_msg P_FIELD_DUPLICATE = ''duplicate field in one action''"
| "perr_msg P_FIELD_COUNT = ''too many fields in one action (at most 16)''"
| "perr_msg P_UNTERMINATED = ''unterminated quoted field value''"
| "perr_msg P_ESCAPE = ''bad escape in a quoted field value (use '' @ [bslash, quote] @ '' '' @ [bslash, bslash] @ '' '' @
     bslash # ''n '' @ bslash # ''r '' @ bslash # ''t or '' @ bslash # ''xHH, not '' @ bslash # ''x00)''"
| "perr_msg P_CONTROL = ''control character in a field value''"
| "perr_msg P_VALUE_LONG = ''field value too long (at most 4096 bytes)''"
| "perr_msg P_AFTER_QUOTE = ''text after a closing quote''"
| "perr_msg P_BARE = ''a bare field value holds no '' @ [sq, quote, sq] @ '' or control character (quote it)''"
| "perr_msg P_PLAN_FIRST = CHR 0x60 # ''plan VERSION'' @ CHR 0x60 # '' must be the plan'' @ sq # ''s first line, once''"
| "perr_msg P_PLAN_SYNTAX = ''plan requires: plan <version>''"
| "perr_msg P_PLAN_VERSION = ''unknown plan version (this Warden reads plan 1.35)''"
| "perr_msg P_ACTIONS = ''too many actions''"
| "perr_msg P_ACTION_SYNTAX = ''action requires: action <label> <kind> <target> [key=value ...]''"
| "perr_msg P_TARGET_LONG = ''target too long (at most 4095 bytes)''"
| "perr_msg P_LABEL = ''invalid label (use [A-Za-z_][A-Za-z0-9_-]*)''"
| "perr_msg P_DUPLICATE = ''duplicate action label''"
| "perr_msg P_EDGES = ''too many edges''"
| "perr_msg P_EDGE_SYNTAX = ''edge requires: edge <from_label> <to_label>''"
| "perr_msg P_EDGE_EXTRA = ''edge accepts only two labels''"
| "perr_msg P_EDGE_FROM = ''edge '' @ [sq] @ ''from'' @ [sq] @ '' label undefined''"
| "perr_msg P_EDGE_TO = ''edge '' @ [sq] @ ''to'' @ [sq] @ '' label undefined''"
| "perr_msg P_SELF_EDGE = ''self-edge rejected''"
| "perr_msg P_INDEX = ''label index overflow''"
| "perr_msg P_DIRECTIVE = ''unknown directive (expected '' @ [sq] @ ''plan'' @ [sq] @ '', '' @ [sq] @ ''action'' @ [sq] @ '' or '' @ [sq] @ ''edge'' @ [sq] @ '')''"
| "perr_msg P_LINE_LONG = ''line too long (at most 16383 bytes)''"
| "perr_msg P_NUL = ''NUL byte in line''"
| "perr_msg P_NO_ACTIONS = ''no actions declared''"
| "perr_msg P_NULL_PATH = ''null path''"
| "perr_msg P_OPEN = ''cannot open''"

text \<open>\<open>snprintf\<close> into a buffer of \<open>len\<close> bytes keeps \<open>len - 1\<close> of them; nothing is written into no buffer.\<close>

definition set_err :: "nat \<Rightarrow> cstr option \<Rightarrow> nat \<Rightarrow> string \<Rightarrow> string" where
  "set_err len path line msg =
     take (len - 1) ((case path of Some p \<Rightarrow> p | None \<Rightarrow> ''(plan)'') @ '':'' @ decimal line @ '': '' @ msg)"

definition plan_parser_message :: "nat \<Rightarrow> cstr option \<Rightarrow> nat \<times> perr \<Rightarrow> string" where
  "plan_parser_message len path err =
     (case err of (line, e) \<Rightarrow>
        if e = P_INTERN_FULL \<or> e = P_NO_MEMORY \<or> e = P_NULL_PATH then take (len - 1) (perr_msg e)
        else
          let p = (case path of Some p \<Rightarrow> p | None \<Rightarrow> ''?'') in
          if e = P_OPEN then take (len - 1) (p @ '': '' @ perr_msg e) else set_err len (Some p) line (perr_msg e))"

section \<open>Tokens\<close>

definition intern :: "cstr \<Rightarrow> cstr list \<times> allocs \<Rightarrow> perr option \<times> cstr list \<times> allocs" where
  "intern s st =
     (case st of (owned, al) \<Rightarrow>
        if length owned \<ge> PLAN_OWNED_STRINGS_MAX then (Some P_INTERN_FULL, owned, al)
        else let (ok, al) = take_alloc al in if ok then (None, owned @ [s], al) else (Some P_NO_MEMORY, owned, al))"

definition is_label_char :: "char \<Rightarrow> bool \<Rightarrow> bool" where
  "is_label_char c leading \<longleftrightarrow>
     (if isalpha c \<or> c = CHR ''_'' then True else \<not> leading \<and> (isdigit c \<or> c = CHR ''-''))"

definition valid_label :: "cstr \<Rightarrow> bool" where
  "valid_label s \<longleftrightarrow>
     s \<noteq> [] \<and> is_label_char (hd s) True \<and> list_all (\<lambda>c. is_label_char c False) (tl s) \<and> length s < PLAN_LABEL_MAX"

fun find_index :: "cstr list \<Rightarrow> cstr \<Rightarrow> nat option" where
  "find_index [] l = None"
| "find_index (x # xs) l = (if x = l then Some 0 else map_option Suc (find_index xs l))"

definition find_label :: "plan_parsed \<Rightarrow> cstr \<Rightarrow> nat option" where
  "find_label h l = find_index (take (length (pp_actions h)) (pp_labels h)) l"

definition trim_inplace :: "string \<Rightarrow> string" where
  "trim_inplace s = rev (dropWhile isspace (rev (dropWhile isspace s)))"

definition is_blank :: "char \<Rightarrow> bool" where
  "is_blank c \<longleftrightarrow> c = CHR '' '' \<or> c = CHR 0x09"

text \<open>\<open>strtok_r\<close> over spaces and tabs: the token, and what the next call starts from.\<close>

definition next_token :: "string \<Rightarrow> (string \<times> string) option" where
  "next_token s =
     (let s = dropWhile is_blank s in
      if s = [] then None
      else Some (takeWhile (Not \<circ> is_blank) s, tl (dropWhile (Not \<circ> is_blank) s)))"

section \<open>Fields\<close>

definition valid_field_key :: "string \<Rightarrow> bool" where
  "valid_field_key s \<longleftrightarrow>
     s \<noteq> [] \<and> length s \<le> PLAN_FIELD_KEY_MAX \<and> islower (hd s) \<and>
     list_all (\<lambda>c. islower c \<or> isdigit c \<or> c = CHR ''_'') (tl s)"

definition hexdig :: "char \<Rightarrow> nat option" where
  "hexdig c =
     (if isdigit c then Some (byte c - 48)
      else if 97 \<le> byte c \<and> byte c \<le> 102 then Some (byte c - 97 + 10)
      else if 65 \<le> byte c \<and> byte c \<le> 70 then Some (byte c - 65 + 10)
      else None)"

text \<open>One byte of a quoted value that is not the closing quote, and the text after it.\<close>

definition unquote_char :: "char \<Rightarrow> string \<Rightarrow> perr + char \<times> string" where
  "unquote_char c p =
     (if c = bslash then
        (case p of
           [] \<Rightarrow> Inl P_ESCAPE
         | e # p \<Rightarrow>
             if e = quote \<or> e = bslash then Inr (e, p)
             else if e = CHR ''n'' then Inr (CHR 0x0A, p)
             else if e = CHR ''r'' then Inr (CHR 0x0D, p)
             else if e = CHR ''t'' then Inr (CHR 0x09, p)
             else if e = CHR ''x'' then
               (case p of
                  h # l # p \<Rightarrow>
                    (case (hexdig h, hexdig l) of
                       (Some hi, Some lo) \<Rightarrow> if hi = 0 \<and> lo = 0 then Inl P_ESCAPE else Inr (char_of (hi * 16 + lo), p)
                     | _ \<Rightarrow> Inl P_ESCAPE)
                | _ \<Rightarrow> Inl P_ESCAPE)
             else Inl P_ESCAPE)
      else if (byte c < 32 \<and> c \<noteq> CHR 0x09) \<or> byte c = 127 then Inl P_CONTROL
      else Inr (c, p))"

lemma unquote_char_shorter: "unquote_char c p = Inr (d, p') \<Longrightarrow> length p' \<le> length p"
  by (auto simp: unquote_char_def split: if_splits list.splits option.splits)

function unquote :: "string \<Rightarrow> string \<Rightarrow> perr + string \<times> string" where
  "unquote val [] = Inl P_UNTERMINATED"
| "unquote val (c # p) =
     (if c = quote then Inr (val, p)
      else
        (case unquote_char c p of
           Inl e \<Rightarrow> Inl e
         | Inr (d, p') \<Rightarrow> if length val \<ge> PLAN_FIELD_VALUE_MAX then Inl P_VALUE_LONG else unquote (val @ [d]) p'))"
  by pat_completeness auto
termination
  by (relation "measure (length \<circ> snd)") (auto dest: unquote_char_shorter)

fun bare_value :: "string \<Rightarrow> string \<Rightarrow> perr + string \<times> string" where
  "bare_value val [] = Inr (val, [])"
| "bare_value val (c # p) =
     (if is_blank c then Inr (val, c # p)
      else if c = quote \<or> byte c < 32 \<or> byte c = 127 then Inl P_BARE
      else if length val \<ge> PLAN_FIELD_VALUE_MAX then Inl P_VALUE_LONG
      else bare_value (val @ [c]) p)"

definition field_value :: "string \<Rightarrow> perr + string \<times> string" where
  "field_value p =
     (if p \<noteq> [] \<and> hd p = quote then
        (case unquote [] (tl p) of
           Inl e \<Rightarrow> Inl e
         | Inr (v, p) \<Rightarrow> if p \<noteq> [] \<and> \<not> is_blank (hd p) then Inl P_AFTER_QUOTE else Inr (v, p))
      else bare_value [] p)"

definition parse_field :: "plan_spec_field list \<Rightarrow> string \<Rightarrow> perr + string \<times> string \<times> string" where
  "parse_field fs p =
     (let key = takeWhile (\<lambda>c. c \<noteq> CHR ''='' \<and> \<not> is_blank c) p;
          p = drop (length key) p
      in
      if p = [] \<or> hd p \<noteq> CHR ''='' then Inl P_FIELD_SYNTAX
      else if \<not> valid_field_key key then Inl P_FIELD_NAME
      else if key = ''target'' then Inl P_FIELD_TARGET
      else if list_ex (\<lambda>f. sf_key f = key) fs then Inl P_FIELD_DUPLICATE
      else if length fs \<ge> PLAN_FIELDS_MAX then Inl P_FIELD_COUNT
      else (case field_value (tl p) of Inl e \<Rightarrow> Inl e | Inr (v, p) \<Rightarrow> Inr (key, v, p)))"

lemma unquote_shorter: "unquote val p = Inr (v, p') \<Longrightarrow> length p' < length p"
proof (induction val p rule: unquote.induct)
  case (2 val c p)
  show ?case
  proof (cases "c = quote")
    case False
    then obtain d p1 where 1: "unquote_char c p = Inr (d, p1)" "unquote (val @ [d]) p1 = Inr (v, p')"
      using 2(2) by (auto split: sum.splits if_splits)
    then have "length p' < length p1"
      using 2(1) [OF False 1(1)] 2(2) False by (auto split: if_splits)
    then show ?thesis using unquote_char_shorter [OF 1(1)] by simp
  qed (use 2(2) in simp)
qed simp

lemma bare_shorter: "bare_value val p = Inr (v, p') \<Longrightarrow> length p' \<le> length p"
  by (induction p arbitrary: val) (auto split: if_splits, fastforce)

lemma field_value_shorter: "field_value p = Inr (v, p') \<Longrightarrow> length p' \<le> length p"
  using unquote_shorter [of "[]" "tl p" v p'] bare_shorter [of "[]" p v p']
  by (auto simp: field_value_def split: if_splits sum.splits)

lemma parse_field_shorter: "parse_field fs p = Inr (k, v, p') \<Longrightarrow> length p' < length p"
proof -
  assume a: "parse_field fs p = Inr (k, v, p')"
  let ?r = "drop (length (takeWhile (\<lambda>c. c \<noteq> CHR ''='' \<and> \<not> is_blank c) p)) p"
  from a have "?r \<noteq> []" "field_value (tl ?r) = Inr (v, p')"
    by (auto simp: parse_field_def Let_def split: if_splits sum.splits)
  then have "length p' < length ?r" using field_value_shorter by (cases ?r) fastforce+
  then show ?thesis by simp
qed

definition intern_field :: "string \<Rightarrow> string \<Rightarrow> cstr list \<times> allocs \<Rightarrow> perr + cstr list \<times> allocs" where
  "intern_field k v st =
     (case intern k st of
        (Some e, _) \<Rightarrow> Inl e
      | (None, st) \<Rightarrow> (case intern v st of (Some e, _) \<Rightarrow> Inl e | (None, st) \<Rightarrow> Inr st))"

function parse_fields ::
  "plan_spec_field list \<Rightarrow> string \<Rightarrow> cstr list \<times> allocs \<Rightarrow> perr + plan_spec_field list \<times> cstr list \<times> allocs" where
  "parse_fields fs p st =
     (if dropWhile is_blank p = [] then Inr (fs, st)
      else
        (case parse_field fs (dropWhile is_blank p) of
           Inl e \<Rightarrow> Inl e
         | Inr (k, v, p') \<Rightarrow>
             (case intern_field k v st of
                Inl e \<Rightarrow> Inl e
              | Inr st \<Rightarrow> parse_fields (fs @ [\<lparr>sf_key = k, sf_value = v\<rparr>]) p' st)))"
  by pat_completeness auto
termination
  by (relation "measure (\<lambda>(fs, p, st). length p)")
    (auto dest!: parse_field_shorter intro: less_le_trans [OF _ length_dropWhile_le])

declare parse_fields.simps [simp del]

section \<open>Lines\<close>

type_synonym parse_result = "perr + plan_parsed \<times> allocs"

definition parse_plan :: "plan_parsed \<Rightarrow> string \<Rightarrow> allocs \<Rightarrow> parse_result" where
  "parse_plan h rest al =
     (let ver = next_token rest;
          extra = (case ver of None \<Rightarrow> None | Some (_, rest) \<Rightarrow> next_token rest)
      in
      if pp_seen_directive h \<or> pp_version h \<noteq> 0 then Inl P_PLAN_FIRST
      else
        (case ver of
           None \<Rightarrow> Inl P_PLAN_SYNTAX
         | Some (v, _) \<Rightarrow>
             if extra \<noteq> None then Inl P_PLAN_SYNTAX
             else if v \<noteq> ''1.35'' then Inl P_PLAN_VERSION
             else Inr (h\<lparr>pp_version := 135\<rparr>, al)))"

text \<open>The label, the kind, the target and the rest of an action's line.\<close>

definition action_words :: "string \<Rightarrow> (string \<times> string \<times> string \<times> string) option" where
  "action_words s =
     (case next_token s of
        None \<Rightarrow> None
      | Some (label, s) \<Rightarrow>
          (case next_token s of
             None \<Rightarrow> None
           | Some (kind, s) \<Rightarrow>
               (case next_token s of
                  None \<Rightarrow> None
                | Some (target, rest) \<Rightarrow> Some (label, kind, target, rest))))"

definition add_action ::
  "plan_parsed \<Rightarrow> string \<Rightarrow> string \<Rightarrow> string \<Rightarrow> plan_spec_field list \<Rightarrow> cstr list \<Rightarrow> plan_parsed" where
  "add_action h label kind target fs owned = h\<lparr>
     pp_owned := owned,
     pp_labels := pp_labels h @ [take (PLAN_LABEL_MAX - 1) label],
     pp_actions := pp_actions h @
       [\<lparr>sa_kind = Some kind, sa_target = Some target, sa_parameters = None, sa_label = Some label\<rparr>],
     pp_fields := pp_fields h @ [fs]\<rparr>"

definition intern_action :: "string \<Rightarrow> string \<Rightarrow> string \<Rightarrow> cstr list \<times> allocs \<Rightarrow> perr + cstr list \<times> allocs" where
  "intern_action kind target label st =
     (let (e1, st) = intern kind st; (e2, st) = intern target st; (e3, st) = intern label st in
      case e3 of Some e \<Rightarrow> Inl e
      | None \<Rightarrow> (case e2 of Some e \<Rightarrow> Inl e | None \<Rightarrow> (case e1 of Some e \<Rightarrow> Inl e | None \<Rightarrow> Inr st)))"

definition parse_action :: "plan_parsed \<Rightarrow> string \<Rightarrow> allocs \<Rightarrow> parse_result" where
  "parse_action h rest al =
     (if length (pp_actions h) \<ge> PLAN_PARSE_MAX_ACTIONS then Inl P_ACTIONS
      else
        (case action_words rest of
           None \<Rightarrow> Inl P_ACTION_SYNTAX
         | Some (label, kind, target, rest) \<Rightarrow>
             if length target > PLAN_TARGET_MAX then Inl P_TARGET_LONG
             else if \<not> valid_label label then Inl P_LABEL
             else if find_label h label \<noteq> None then Inl P_DUPLICATE
             else
               (case intern_action kind target label (pp_owned h, al) of
                  Inl e \<Rightarrow> Inl e
                | Inr st \<Rightarrow>
                    (case parse_fields [] rest st of
                       Inl e \<Rightarrow> Inl e
                     | Inr (fs, owned, al) \<Rightarrow> Inr (add_action h label kind target fs owned, al)))))"

definition parse_edge :: "plan_parsed \<Rightarrow> string \<Rightarrow> allocs \<Rightarrow> parse_result" where
  "parse_edge h rest al =
     (if length (pp_edges h) \<ge> PLAN_PARSE_MAX_EDGES then Inl P_EDGES
      else
        (case next_token rest of
           None \<Rightarrow> Inl P_EDGE_SYNTAX
         | Some (from, rest) \<Rightarrow>
             (case next_token rest of
                None \<Rightarrow> Inl P_EDGE_SYNTAX
              | Some (to, rest) \<Rightarrow>
                  if next_token rest \<noteq> None then Inl P_EDGE_EXTRA
                  else
                    (case find_label h from of
                       None \<Rightarrow> Inl P_EDGE_FROM
                     | Some fi \<Rightarrow>
                         (case find_label h to of
                            None \<Rightarrow> Inl P_EDGE_TO
                          | Some ti \<Rightarrow>
                              if fi = ti then Inl P_SELF_EDGE
                              else if fi > UINT32_MAX \<or> ti > UINT32_MAX then Inl P_INDEX
                              else Inr (h\<lparr>pp_edges := pp_edges h @ [\<lparr>from_idx = fi, to_idx = ti\<rparr>]\<rparr>, al))))))"

definition parse_line :: "plan_parsed \<Rightarrow> string \<Rightarrow> allocs \<Rightarrow> parse_result" where
  "parse_line h line al =
     (let trimmed = trim_inplace line in
      if trimmed = [] \<or> hd trimmed = CHR ''#'' then Inr (h, al)
      else
        (case next_token trimmed of
           None \<Rightarrow> Inr (h, al)
         | Some (directive, rest) \<Rightarrow>
             if directive = ''plan'' then parse_plan h rest al
             else
               let h = h\<lparr>pp_seen_directive := True\<rparr> in
               if directive = ''action'' then parse_action h rest al
               else if directive = ''edge'' then parse_edge h rest al
               else Inl P_DIRECTIVE))"

section \<open>Files\<close>

text \<open>\<open>getline\<close>: up to and with the newline, whatever its length. A read error ends the loop like the end of
  the file, so the text is what could be read.\<close>

function getlines :: "string \<Rightarrow> string list" where
  "getlines s =
     (if s = [] then []
      else
        let n = length (takeWhile (\<lambda>c. c \<noteq> newline) s) + 1 in take n s # getlines (drop n s))"
  by pat_completeness auto
termination
  by (relation "measure length") auto

declare getlines.simps [simp del]

definition load_getline :: "plan_parsed \<Rightarrow> string \<Rightarrow> allocs \<Rightarrow> parse_result" where
  "load_getline h line al =
     (let n = (if line \<noteq> [] \<and> last line = newline then length line - 1 else length line) in
      if n \<ge> PLAN_LINE_MAX then Inl P_LINE_LONG
      else if CHR 0x00 \<in> set (take n line) then Inl P_NUL
      else parse_line h line al)"

fun load_getlines :: "nat \<Rightarrow> string list \<Rightarrow> plan_parsed \<times> allocs \<Rightarrow> nat \<times> perr + nat \<times> plan_parsed" where
  "load_getlines lineno [] (h, al) = Inr (lineno, h)"
| "load_getlines lineno (l # ls) (h, al) =
     (case load_getline h l al of
        Inl e \<Rightarrow> Inl (lineno + 1, e)
      | Inr st \<Rightarrow> load_getlines (lineno + 1) ls st)"

definition plan_parser_load_stream :: "string option \<Rightarrow> allocs \<Rightarrow> nat \<times> perr + plan_parsed" where
  "plan_parser_load_stream fp al =
     (case fp of
        None \<Rightarrow> Inl (0, P_OPEN)
      | Some body \<Rightarrow>
          let (ok, al) = take_alloc al in
          if \<not> ok then Inl (0, P_NO_MEMORY)
          else
            (case load_getlines 0 (getlines body) (parsed_zero, al) of
               Inl e \<Rightarrow> Inl e
             | Inr (lineno, h) \<Rightarrow> if pp_actions h = [] then Inl (lineno, P_NO_ACTIONS) else Inr h))"

text \<open>\<open>fopen\<close> is an argument: what a path holds, or nothing when it cannot be opened.\<close>

definition plan_parser_load :: "(cstr \<Rightarrow> string option) \<Rightarrow> cstr option \<Rightarrow> allocs \<Rightarrow> nat \<times> perr + plan_parsed" where
  "plan_parser_load fopen path al =
     (case path of
        None \<Rightarrow> Inl (0, P_NULL_PATH)
      | Some p \<Rightarrow>
          (case fopen p of
             None \<Rightarrow> Inl (0, P_OPEN)
           | Some body \<Rightarrow> plan_parser_load_stream (Some body) al))"

definition plan_parser_spec :: "plan_parsed option \<Rightarrow> plan_spec option" where
  "plan_parser_spec parsed = map_option (\<lambda>h. \<lparr>spec_actions = pp_actions h, spec_edges = pp_edges h\<rparr>) parsed"

definition plan_parser_action_count :: "plan_parsed option \<Rightarrow> nat" where
  "plan_parser_action_count parsed = (case parsed of None \<Rightarrow> 0 | Some h \<Rightarrow> length (pp_actions h))"

definition plan_parser_edge_count :: "plan_parsed option \<Rightarrow> nat" where
  "plan_parser_edge_count parsed = (case parsed of None \<Rightarrow> 0 | Some h \<Rightarrow> length (pp_edges h))"

definition plan_parser_fields :: "plan_parsed option \<Rightarrow> nat \<Rightarrow> plan_spec_field list option \<times> nat" where
  "plan_parser_fields parsed action_idx =
     (case parsed of
        None \<Rightarrow> (None, 0)
      | Some h \<Rightarrow>
          if action_idx \<ge> length (pp_actions h) then (None, 0)
          else
            let fs = pp_fields h ! action_idx in (if fs \<noteq> [] then Some fs else None, length fs))"

definition plan_parser_version :: "plan_parsed option \<Rightarrow> nat" where
  "plan_parser_version parsed = (case parsed of None \<Rightarrow> 0 | Some h \<Rightarrow> pp_version h)"

section \<open>The invariant of a parsed plan\<close>

definition field_ok :: "plan_spec_field \<Rightarrow> bool" where
  "field_ok f \<longleftrightarrow> valid_field_key (sf_key f) \<and> sf_key f \<noteq> ''target'' \<and> length (sf_value f) \<le> PLAN_FIELD_VALUE_MAX \<and>
     CHR 0x00 \<notin> set (sf_value f)"

definition fields_ok :: "plan_spec_field list \<Rightarrow> bool" where
  "fields_ok fs \<longleftrightarrow> length fs \<le> PLAN_FIELDS_MAX \<and> distinct (map sf_key fs) \<and> list_all field_ok fs"

definition token :: "string \<Rightarrow> bool" where
  "token t \<longleftrightarrow> t \<noteq> [] \<and> list_all (\<lambda>c. \<not> is_blank c) t"

definition action_ok :: "plan_spec_action \<Rightarrow> bool" where
  "action_ok a \<longleftrightarrow> (\<exists>k t. sa_kind a = Some k \<and> token k \<and> sa_target a = Some t \<and> token t \<and> length t \<le> PLAN_TARGET_MAX) \<and>
     sa_parameters a = None"

definition edge_ok :: "nat \<Rightarrow> plan_spec_edge \<Rightarrow> bool" where
  "edge_ok n e \<longleftrightarrow> from_idx e < n \<and> to_idx e < n \<and> from_idx e \<noteq> to_idx e"

definition parsed_ok :: "plan_parsed \<Rightarrow> bool" where
  "parsed_ok h \<longleftrightarrow>
     length (pp_actions h) \<le> PLAN_PARSE_MAX_ACTIONS \<and> length (pp_edges h) \<le> PLAN_PARSE_MAX_EDGES \<and>
     map sa_label (pp_actions h) = map Some (pp_labels h) \<and> length (pp_fields h) = length (pp_actions h) \<and>
     distinct (pp_labels h) \<and> list_all valid_label (pp_labels h) \<and> list_all action_ok (pp_actions h) \<and>
     list_all fields_ok (pp_fields h) \<and> list_all (edge_ok (length (pp_actions h))) (pp_edges h) \<and>
     pp_version h \<in> {0, 135}"

text \<open>Every action owns its kind, target and label, and two strings for each field.\<close>

definition owned_ok :: "plan_parsed \<Rightarrow> bool" where
  "owned_ok h \<longleftrightarrow> length (pp_owned h) = 3 * length (pp_actions h) + 2 * sum_list (map length (pp_fields h))"

lemma unquote_char_props:
  assumes "unquote_char c p = Inr (d, p')" and "CHR 0x00 \<notin> set (c # p)"
  shows "d \<noteq> CHR 0x00" and "set p' \<subseteq> set p"
proof -
  have hx: "hexdig h = Some n \<Longrightarrow> n < 16" for h n by (auto simp: hexdig_def isdigit_def split: if_splits)
  have nz: "char_of (hi * 16 + lo) \<noteq> CHR 0x00" if "hexdig h = Some hi" "hexdig l = Some lo" "hi = 0 \<longrightarrow> 0 < lo" for h l hi lo
  proof
    assume "char_of (hi * 16 + lo) = CHR 0x00"
    moreover have "hi * 16 + lo < 256" using hx [OF that(1)] hx [OF that(2)] by linarith
    ultimately have "hi * 16 + lo = byte (CHR 0x00)" using byte_char_of by metis
    then show False using that(3) by (simp add: byte_def)
  qed
  show "d \<noteq> CHR 0x00" using assms nz by (auto simp: unquote_char_def split: if_splits list.splits option.splits)
  show "set p' \<subseteq> set p" using assms(1) by (auto simp: unquote_char_def split: if_splits list.splits option.splits)
qed

lemma unquote_props:
  assumes "unquote val p = Inr (v, p')" and "CHR 0x00 \<notin> set p" "CHR 0x00 \<notin> set val" "length val \<le> PLAN_FIELD_VALUE_MAX"
  shows "CHR 0x00 \<notin> set v \<and> length v \<le> PLAN_FIELD_VALUE_MAX \<and> set p' \<subseteq> set p"
  using assms
proof (induction val p rule: unquote.induct)
  case (2 val c p)
  show ?case
  proof (cases "c = quote")
    case False
    obtain d p1 where 1: "unquote_char c p = Inr (d, p1)" "length val < PLAN_FIELD_VALUE_MAX" "unquote (val @ [d]) p1 = Inr (v, p')"
      using 2(2) False by (auto split: sum.splits if_splits)
    note u = unquote_char_props [OF 1(1) 2(3)]
    have "CHR 0x00 \<notin> set v \<and> length v \<le> PLAN_FIELD_VALUE_MAX \<and> set p' \<subseteq> set p1"
      using 2(1) [OF False 1(1) refl _ 1(3)] 1(2) u 2(3,4) by auto
    then show ?thesis using u(2) by auto
  qed (use 2 in auto)
qed simp

lemma bare_props:
  "bare_value val p = Inr (v, p') \<Longrightarrow> CHR 0x00 \<notin> set val \<Longrightarrow> length val \<le> PLAN_FIELD_VALUE_MAX \<Longrightarrow>
    CHR 0x00 \<notin> set v \<and> length v \<le> PLAN_FIELD_VALUE_MAX \<and> set p' \<subseteq> set p"
proof (induction p arbitrary: val)
  case (Cons c p)
  show ?case
  proof (cases "is_blank c")
    case False
    have c: "c \<noteq> CHR 0x00" "length val < PLAN_FIELD_VALUE_MAX" "bare_value (val @ [c]) p = Inr (v, p')"
      using Cons.prems(1) False by (auto simp: byte_def split: if_splits)
    then show ?thesis using Cons.IH [OF c(3)] Cons.prems(2) by auto
  qed (use Cons.prems in simp)
qed simp

lemma parse_field_props:
  assumes "parse_field fs p = Inr (k, v, p')" and "CHR 0x00 \<notin> set p"
  shows "field_ok \<lparr>sf_key = k, sf_value = v\<rparr> \<and> k \<notin> sf_key ` set fs \<and> length fs < PLAN_FIELDS_MAX \<and> set p' \<subseteq> set p"
proof -
  let ?r = "drop (length (takeWhile (\<lambda>c. c \<noteq> CHR ''='' \<and> \<not> is_blank c) p)) p"
  from assms(1) have 1: "valid_field_key k" "k \<noteq> ''target''" "\<not> list_ex (\<lambda>f. sf_key f = k) fs" "length fs < PLAN_FIELDS_MAX"
    "field_value (tl ?r) = Inr (v, p')"
    by (auto simp: parse_field_def Let_def not_le split: if_splits sum.splits)
  have sub: "set (tl ?r) \<subseteq> set p" by (metis drop_Suc tl_drop set_drop_subset)
  have "CHR 0x00 \<notin> set v \<and> length v \<le> PLAN_FIELD_VALUE_MAX \<and> set p' \<subseteq> set (tl ?r)"
  proof (cases "tl ?r \<noteq> [] \<and> hd (tl ?r) = quote")
    case True
    then have u: "unquote [] (tl (tl ?r)) = Inr (v, p')" using 1(5) by (auto simp: field_value_def split: if_splits sum.splits)
    have "CHR 0x00 \<notin> set (tl (tl ?r))" using sub assms(2) True by (meson list.set_sel(2) subsetD tl_Nil)
    then show ?thesis using unquote_props [OF u] True by (cases "tl ?r") auto
  next
    case False
    then show ?thesis using bare_props [of "[]" "tl ?r" v p'] 1(5) by (auto simp: field_value_def)
  qed
  then show ?thesis using 1 sub by (auto simp: field_ok_def list_ex_iff)
qed

lemma intern_None: "intern s (ow, al) = (None, st') \<Longrightarrow> \<exists>al'. st' = (ow @ [s], al')"
  by (auto simp: intern_def Let_def split: if_splits prod.splits)

lemma intern_field_Inr:
  assumes "intern_field k v (ow, al) = Inr st'"
  shows "\<exists>al'. st' = (ow @ [k, v], al')"
proof -
  obtain st1 where 1: "intern k (ow, al) = (None, st1)" "intern v st1 = (None, st')"
    using assms by (auto simp: intern_field_def split: prod.splits option.splits)
  then obtain al1 where "st1 = (ow @ [k], al1)" using intern_None by blast
  then show ?thesis using 1(2) intern_None [of v "ow @ [k]"] by fastforce
qed

text \<open>One round of the loop over the fields.\<close>

lemma parse_fields_round:
  assumes "dropWhile is_blank p \<noteq> []" and "parse_field fs (dropWhile is_blank p) = Inr (k, v, p')"
    and "fields_ok fs" and "CHR 0x00 \<notin> set p"
  shows "fields_ok (fs @ [\<lparr>sf_key = k, sf_value = v\<rparr>])" and "CHR 0x00 \<notin> set p'"
proof -
  have nul: "CHR 0x00 \<notin> set (dropWhile is_blank p)" using assms(4) set_dropWhileD by metis
  note f = parse_field_props [OF assms(2) nul]
  show "fields_ok (fs @ [\<lparr>sf_key = k, sf_value = v\<rparr>])" using f assms(3) by (auto simp: fields_ok_def)
  show "CHR 0x00 \<notin> set p'" using f nul by blast
qed

lemma parse_fields_props:
  assumes "parse_fields fs p st = Inr (fs', ow', al')" and "fields_ok fs" and "CHR 0x00 \<notin> set p"
  shows "fields_ok fs' \<and> length ow' + 2 * length fs = length (fst st) + 2 * length fs'"
  using assms
proof (induction fs p st rule: parse_fields.induct)
  case (1 fs p st)
  show ?case
  proof (cases "dropWhile is_blank p = []")
    case True
    then show ?thesis using 1(2,3) by (auto simp: parse_fields.simps)
  next
    case False
    then obtain k v p1 st1 where
      k: "parse_field fs (dropWhile is_blank p) = Inr (k, v, p1)" "intern_field k v st = Inr st1"
        "parse_fields (fs @ [\<lparr>sf_key = k, sf_value = v\<rparr>]) p1 st1 = Inr (fs', ow', al')"
      using 1(2) unfolding parse_fields.simps [of fs p st] if_not_P [OF False] by (auto split: sum.splits)
    note r = parse_fields_round [OF False k(1) 1(3,4)]
    have "length (fst st1) = length (fst st) + 2" using intern_field_Inr [of k v "fst st" "snd st"] k(2) by auto
    then show ?thesis using 1(1) [OF False k(1) refl refl k(2,3) r] by simp
  qed
qed

text \<open>The table of owned strings is never full: at most 35 strings for each of 256 actions.\<close>

lemma intern_room: "length ow < PLAN_OWNED_STRINGS_MAX \<Longrightarrow> intern s (ow, al) \<noteq> (Some P_INTERN_FULL, st)"
  by (auto simp: intern_def Let_def split: prod.splits)

lemma intern_field_room:
  assumes "length ow + 1 < PLAN_OWNED_STRINGS_MAX"
  shows "intern_field k v (ow, al) \<noteq> Inl P_INTERN_FULL"
proof
  assume "intern_field k v (ow, al) = Inl P_INTERN_FULL"
  then obtain st where st: "intern k (ow, al) = (Some P_INTERN_FULL, st) \<or> (\<exists>st'. intern k (ow, al) = (None, st') \<and> intern v st' = (Some P_INTERN_FULL, st))"
    by (auto simp: intern_field_def split: prod.splits option.splits)
  then obtain al1 where "intern v (ow @ [k], al1) = (Some P_INTERN_FULL, st)" using intern_room [of ow k al] intern_None [of k ow al] assms by auto
  then show False using intern_room [of "ow @ [k]"] assms by simp
qed

lemma parse_field_error: "parse_field fs p \<noteq> Inl P_INTERN_FULL"
proof -
  have c: "unquote_char c p \<noteq> Inl P_INTERN_FULL" for c p
    by (auto simp: unquote_char_def split: if_splits list.splits option.splits)
  have u: "unquote val p \<noteq> Inl P_INTERN_FULL" for val p
    by (induction val p rule: unquote.induct) (auto simp: c split: sum.splits)
  have b: "bare_value val p \<noteq> Inl P_INTERN_FULL" for val p by (induction p arbitrary: val) auto
  show ?thesis by (auto simp: parse_field_def field_value_def Let_def u b split: if_splits sum.splits)
qed

lemma parse_fields_room:
  assumes "length (fst st) + 2 * (PLAN_FIELDS_MAX - length fs) < PLAN_OWNED_STRINGS_MAX" and "fields_ok fs" and "CHR 0x00 \<notin> set p"
  shows "parse_fields fs p st \<noteq> Inl P_INTERN_FULL"
  using assms
proof (induction fs p st rule: parse_fields.induct)
  case (1 fs p st)
  show ?case
  proof
    assume full: "parse_fields fs p st = Inl P_INTERN_FULL"
    then have ne: "dropWhile is_blank p \<noteq> []" by (auto simp: parse_fields.simps [of fs p] split: if_splits)
    with full obtain k v p1 where k: "parse_field fs (dropWhile is_blank p) = Inr (k, v, p1)"
      using parse_field_error [of fs] by (auto simp: parse_fields.simps [of fs p] split: sum.splits if_splits)
    note r = parse_fields_round [OF ne k 1(3,4)]
    have "length fs < PLAN_FIELDS_MAX" using r(1) by (simp add: fields_ok_def)
    then have room: "length (fst st) + 2 + 2 * (PLAN_FIELDS_MAX - (length fs + 1)) < PLAN_OWNED_STRINGS_MAX" using 1(2) by linarith
    obtain st1 where st1: "intern_field k v st = Inr st1"
      using full k ne intern_field_room [of "fst st" k v "snd st"] room by (auto simp: parse_fields.simps [of fs p] split: sum.splits if_splits)
    have "length (fst st1) = length (fst st) + 2" using intern_field_Inr [of k v "fst st" "snd st"] st1 by auto
    then have "parse_fields (fs @ [\<lparr>sf_key = k, sf_value = v\<rparr>]) p1 st1 \<noteq> Inl P_INTERN_FULL"
      using 1(1) [OF ne k refl refl st1 _ r] room by simp
    then show False using full unfolding parse_fields.simps [of fs p st] if_not_P [OF ne] k by (simp add: st1)
  qed
qed

section \<open>Every line keeps the invariant\<close>

lemma find_index_Some: "find_index xs l = Some i \<Longrightarrow> i < length xs \<and> xs ! i = l"
  by (induction xs arbitrary: i) (auto split: if_splits)

lemma find_index_None: "find_index xs l = None \<longleftrightarrow> l \<notin> set xs"
  by (induction xs) auto

lemma find_index_nth: "distinct xs \<Longrightarrow> i < length xs \<Longrightarrow> find_index xs (xs ! i) = Some i"
  by (induction xs arbitrary: i) (auto simp: nth_Cons split: nat.splits)

lemma parsed_labels: "parsed_ok h \<Longrightarrow> length (pp_labels h) = length (pp_actions h)"
  by (metis parsed_ok_def length_map)

lemma find_label_index: "parsed_ok h \<Longrightarrow> find_label h l = find_index (pp_labels h) l"
  by (simp add: find_label_def parsed_labels)

lemma next_token_props: "next_token s = Some (t, r) \<Longrightarrow> token t \<and> set t \<subseteq> set s \<and> set r \<subseteq> set s"
proof -
  assume a: "next_token s = Some (t, r)"
  let ?s = "dropWhile is_blank s"
  have t: "?s \<noteq> []" "t = takeWhile (Not \<circ> is_blank) ?s" "r = tl (dropWhile (Not \<circ> is_blank) ?s)"
    using a by (auto simp: next_token_def Let_def split: if_splits)
  have "\<not> is_blank (hd ?s)" using t(1) hd_dropWhile by blast
  then have "token t" using t(1,2) by (cases ?s) (auto simp: token_def list_all_iff dest: set_takeWhileD)
  moreover have "set ?s \<subseteq> set s" by (auto dest: set_dropWhileD)
  moreover have "set t \<subseteq> set ?s" "set r \<subseteq> set ?s"
    unfolding t(2,3) by (auto dest: set_takeWhileD set_dropWhileD in_set_takeD list.set_sel(2) [rotated] simp: tl_append2)
      (metis list.sel(2) list.set_sel(2) set_dropWhileD)
  ultimately show ?thesis by blast
qed

lemma parse_plan_ok: "parse_plan h rest al = Inr (h', al') \<Longrightarrow> parsed_ok h \<and> owned_ok h \<Longrightarrow> parsed_ok h' \<and> owned_ok h'"
  by (auto simp: parse_plan_def parsed_ok_def owned_ok_def Let_def split: if_splits option.splits)

lemma action_words_props:
  "action_words s = Some (l, k, t, r) \<Longrightarrow> token k \<and> token t \<and> set r \<subseteq> set s"
  by (auto simp: action_words_def split: option.splits prod.splits dest!: next_token_props)

lemma intern_action_Inr:
  assumes "intern_action k t l (ow, al) = Inr st'"
  shows "\<exists>al'. st' = (ow @ [k, t, l], al')"
proof -
  obtain st1 st2 where 1: "intern k (ow, al) = (None, st1)" "intern t st1 = (None, st2)" "intern l st2 = (None, st')"
    using assms by (auto simp: intern_action_def Let_def split: prod.splits option.splits)
  then obtain al1 where "st1 = (ow @ [k], al1)" using intern_None by blast
  then obtain al2 where "st2 = (ow @ [k, t], al2)" using 1(2) intern_None [of t "ow @ [k]"] by fastforce
  then show ?thesis using 1(3) intern_None [of l "ow @ [k, t]"] by fastforce
qed

lemma parse_action_ok:
  assumes "parse_action h rest al = Inr (h', al')" and "parsed_ok h" and "owned_ok h" and "CHR 0x00 \<notin> set rest"
  shows "parsed_ok h' \<and> owned_ok h'"
proof -
  obtain l k t r st fs ow where n: "length (pp_actions h) < PLAN_PARSE_MAX_ACTIONS"
    and w: "action_words rest = Some (l, k, t, r)" "length t \<le> PLAN_TARGET_MAX" "valid_label l" "find_label h l = None"
    and i: "intern_action k t l (pp_owned h, al) = Inr st" and f: "parse_fields [] r st = Inr (fs, ow, al')"
    and h': "h' = add_action h l k t fs ow"
    using assms(1) by (auto simp: parse_action_def split: if_splits option.splits sum.splits)
  note aw = action_words_props [OF w(1)]
  have nul: "CHR 0x00 \<notin> set r" using aw assms(4) by auto
  have fs: "fields_ok fs" "length ow = length (fst st) + 2 * length fs"
    using parse_fields_props [OF f _ nul] by (auto simp: fields_ok_def)
  have st: "length (fst st) = length (pp_owned h) + 3" using intern_action_Inr [OF i] by auto
  have l: "l \<notin> set (pp_labels h)" "take (PLAN_LABEL_MAX - 1) l = l"
    using w(3,4) find_label_index [OF assms(2)] find_index_None by (auto simp: valid_label_def PLAN_LABEL_MAX_def)
  have e: "list_all (edge_ok (length (pp_actions h))) es \<Longrightarrow> list_all (edge_ok (Suc (length (pp_actions h)))) es" for es
    by (auto simp: list_all_iff edge_ok_def)
  show ?thesis
    using assms(2,3) n aw w fs st l e unfolding h' parsed_ok_def owned_ok_def
    by (auto simp: add_action_def action_ok_def)
qed

lemma parse_edge_ok:
  assumes "parse_edge h rest al = Inr (h', al')" and "parsed_ok h" and "owned_ok h"
  shows "parsed_ok h' \<and> owned_ok h'"
proof -
  obtain u v fi ti where "length (pp_edges h) < PLAN_PARSE_MAX_EDGES" "find_label h u = Some fi" "find_label h v = Some ti" "fi \<noteq> ti"
    "h' = h\<lparr>pp_edges := pp_edges h @ [\<lparr>from_idx = fi, to_idx = ti\<rparr>]\<rparr>"
    using assms(1) by (auto simp: parse_edge_def split: if_splits option.splits)
  moreover from this have "fi < length (pp_actions h)" "ti < length (pp_actions h)"
    using find_index_Some find_label_index [OF assms(2)] parsed_labels [OF assms(2)] by metis+
  ultimately show ?thesis using assms(2,3) by (auto simp: parsed_ok_def owned_ok_def edge_ok_def)
qed

lemma trim_set: "set (trim_inplace s) \<subseteq> set s"
  unfolding trim_inplace_def set_rev by (metis set_dropWhileD set_rev subsetI)

lemma parse_line_ok:
  assumes "parse_line h line al = Inr (h', al')" and "parsed_ok h" and "owned_ok h" and "CHR 0x00 \<notin> set line"
  shows "parsed_ok h' \<and> owned_ok h'"
proof (cases "trim_inplace line = [] \<or> hd (trim_inplace line) = CHR ''#''")
  case True
  then show ?thesis using assms by (auto simp: parse_line_def Let_def)
next
  case False
  let ?h = "h\<lparr>pp_seen_directive := True\<rparr>"
  have ok: "parsed_ok ?h" "owned_ok ?h" using assms(2,3) by (simp_all add: parsed_ok_def owned_ok_def)
  show ?thesis
  proof (cases "next_token (trim_inplace line)")
    case None
    then show ?thesis using assms False by (auto simp: parse_line_def Let_def)
  next
    case (Some dr)
    obtain d r where dr: "next_token (trim_inplace line) = Some (d, r)" using Some by (cases dr) auto
    have "CHR 0x00 \<notin> set r" using next_token_props [OF dr] trim_set assms(4) by blast
    then show ?thesis
      using assms(1-3) False dr parse_plan_ok parse_action_ok [OF _ ok] parse_edge_ok [OF _ ok]
      by (auto simp: parse_line_def Let_def split: if_splits)
  qed
qed

lemma load_getline_ok:
  assumes "load_getline h l al = Inr (h', al')" and "parsed_ok h" and "owned_ok h"
  shows "parsed_ok h' \<and> owned_ok h'"
proof -
  let ?n = "if l \<noteq> [] \<and> last l = newline then length l - 1 else length l"
  have p: "parse_line h l al = Inr (h', al')" and nul: "CHR 0x00 \<notin> set (take ?n l)"
    using assms(1) by (auto simp: load_getline_def Let_def split: if_splits)
  have "CHR 0x00 \<notin> set l"
  proof (cases "l \<noteq> [] \<and> last l = newline")
    case True
    then obtain l0 where "l = l0 @ [newline]" by (metis append_butlast_last_id)
    then show ?thesis using nul by (simp add: newline_def)
  qed (use nul in auto)
  then show ?thesis using parse_line_ok [OF p assms(2,3)] by blast
qed

lemma load_getlines_ok:
  "load_getlines n ls (h, al) = Inr (n', h') \<Longrightarrow> parsed_ok h \<and> owned_ok h \<Longrightarrow> parsed_ok h' \<and> owned_ok h'"
proof (induction ls arbitrary: n h al)
  case (Cons l ls)
  then obtain h1 al1 where "load_getline h l al = Inr (h1, al1)" "load_getlines (n + 1) ls (h1, al1) = Inr (n', h')"
    by (auto split: sum.splits)
  then show ?case using Cons.IH load_getline_ok Cons.prems(2) by blast
qed simp

lemma parsed_zero_ok: "parsed_ok parsed_zero" "owned_ok parsed_zero"
  by (simp_all add: parsed_ok_def owned_ok_def parsed_zero_def)

lemma loaded_plan_ok: "plan_parser_load_stream fp al = Inr h \<Longrightarrow> parsed_ok h \<and> owned_ok h \<and> pp_actions h \<noteq> []"
  using load_getlines_ok parsed_zero_ok
  by (auto simp: plan_parser_load_stream_def Let_def split: option.splits prod.splits if_splits sum.splits)

text \<open>The table of owned strings has room for every action the parser takes.\<close>

lemma sum_list_fields: "list_all fields_ok fss \<Longrightarrow> sum_list (map length fss) \<le> PLAN_FIELDS_MAX * length fss"
  by (induction fss) (auto simp: fields_ok_def)

lemma owned_room: "parsed_ok h \<Longrightarrow> owned_ok h \<Longrightarrow> length (pp_owned h) \<le> 35 * length (pp_actions h)"
  using sum_list_fields [of "pp_fields h"] by (simp add: parsed_ok_def owned_ok_def PLAN_FIELDS_MAX_def)

lemma intern_action_room:
  assumes "length ow + 2 < PLAN_OWNED_STRINGS_MAX"
  shows "intern_action k t l (ow, al) \<noteq> Inl P_INTERN_FULL"
proof -
  have step: "\<exists>ow' al'. st = (ow', al') \<and> length ow' \<le> length ow0 + 1" if "intern s (ow0, al0) = (e, st)" for s ow0 al0 e st
    using that by (auto simp: intern_def Let_def split: if_splits prod.splits)
  obtain e1 st1 e2 st2 e3 st3 where 1: "intern k (ow, al) = (e1, st1)" "intern t st1 = (e2, st2)" "intern l st2 = (e3, st3)"
    by (metis prod.exhaust)
  obtain ow1 al1 where s1: "st1 = (ow1, al1)" "length ow1 \<le> length ow + 1" using step [OF 1(1)] by blast
  obtain ow2 al2 where s2: "st2 = (ow2, al2)" "length ow2 \<le> length ow1 + 1" using step [OF 1(2) [unfolded s1]] by blast
  have "e1 \<noteq> Some P_INTERN_FULL" "e2 \<noteq> Some P_INTERN_FULL" "e3 \<noteq> Some P_INTERN_FULL"
    using intern_room [of ow k al st1] intern_room [of ow1 t al1 st2] intern_room [of ow2 l al2 st3] 1 s1 s2 assms by auto
  then show ?thesis using 1 by (auto simp: intern_action_def split: option.splits)
qed

lemma parse_action_room:
  assumes "parsed_ok h" and "owned_ok h" and "CHR 0x00 \<notin> set rest"
  shows "parse_action h rest al \<noteq> Inl P_INTERN_FULL"
proof
  assume f: "parse_action h rest al = Inl P_INTERN_FULL"
  then have n: "length (pp_owned h) \<le> 35 * 255"
    using owned_room [OF assms(1,2)] by (auto simp: parse_action_def PLAN_PARSE_MAX_ACTIONS_def split: if_splits)
  then have "intern_action k t l (pp_owned h, al) \<noteq> Inl P_INTERN_FULL" for k t l by (intro intern_action_room) (simp add: parser_limits)
  with f obtain l k t r st where w: "action_words rest = Some (l, k, t, r)" "intern_action k t l (pp_owned h, al) = Inr st"
    "parse_fields [] r st = Inl P_INTERN_FULL"
    by (auto simp: parse_action_def split: if_splits option.splits sum.splits)
  have "CHR 0x00 \<notin> set r" using action_words_props [OF w(1)] assms(3) by auto
  moreover have "length (fst st) = length (pp_owned h) + 3" using intern_action_Inr [OF w(2)] by auto
  ultimately show False using parse_fields_room [of st "[]" r] w(3) n by (simp add: fields_ok_def parser_limits)
qed

lemma parse_line_room:
  assumes "parsed_ok h" and "owned_ok h" and "CHR 0x00 \<notin> set line"
  shows "parse_line h line al \<noteq> Inl P_INTERN_FULL"
proof
  let ?h = "h\<lparr>pp_seen_directive := True\<rparr>"
  have ok: "parsed_ok ?h" "owned_ok ?h" using assms(1,2) by (simp_all add: parsed_ok_def owned_ok_def)
  assume f: "parse_line h line al = Inl P_INTERN_FULL"
  have "parse_plan h r al \<noteq> Inl P_INTERN_FULL" for r by (auto simp: parse_plan_def Let_def split: option.splits if_splits)
  moreover have "parse_edge ?h r al \<noteq> Inl P_INTERN_FULL" for r by (auto simp: parse_edge_def split: option.splits if_splits)
  ultimately obtain d r where d: "next_token (trim_inplace line) = Some (d, r)" "parse_action ?h r al = Inl P_INTERN_FULL"
    using f by (auto simp: parse_line_def Let_def split: if_splits option.splits)
  have "CHR 0x00 \<notin> set r" using next_token_props [OF d(1)] trim_set assms(3) by blast
  then show False using parse_action_room [OF ok] d(2) by blast
qed

lemma load_getline_NUL:
  assumes "load_getline h l al \<noteq> Inl P_LINE_LONG" and "load_getline h l al \<noteq> Inl P_NUL"
  shows "CHR 0x00 \<notin> set l" and "load_getline h l al = parse_line h l al"
proof -
  let ?n = "if l \<noteq> [] \<and> last l = newline then length l - 1 else length l"
  show "load_getline h l al = parse_line h l al" using assms by (auto simp: load_getline_def Let_def)
  have nul: "CHR 0x00 \<notin> set (take ?n l)" using assms by (auto simp: load_getline_def Let_def split: if_splits)
  show "CHR 0x00 \<notin> set l"
  proof (cases "l \<noteq> [] \<and> last l = newline")
    case True
    then obtain l0 where "l = l0 @ [newline]" by (metis append_butlast_last_id)
    then show ?thesis using nul by (simp add: newline_def)
  qed (use nul in auto)
qed

lemma load_getlines_room:
  "parsed_ok h \<Longrightarrow> owned_ok h \<Longrightarrow> load_getlines n ls (h, al) \<noteq> Inl (n', P_INTERN_FULL)"
proof (induction ls arbitrary: n h al)
  case (Cons l ls)
  have "load_getline h l al \<noteq> Inl P_INTERN_FULL"
    using load_getline_NUL [of h l al] parse_line_room [OF Cons.prems] by (metis perr.distinct sum.inject(1))
  then show ?case using Cons.IH load_getline_ok [OF _ Cons.prems] by (auto split: sum.splits)
qed simp

section \<open>Writing a plan\<close>

text \<open>A text for a plan, to state what the parser reads back.\<close>

definition quote_char :: "char \<Rightarrow> string" where
  "quote_char c =
     (if c = quote \<or> c = bslash then [bslash, c]
      else if byte c < 32 \<or> byte c = 127 then [bslash, CHR ''x'', hexdigit (byte c div 16), hexdigit (byte c)]
      else [c])"

definition field_text :: "plan_spec_field \<Rightarrow> string" where
  "field_text f = '' '' @ sf_key f @ ''='' @ quote # concat (map quote_char (sf_value f)) @ [quote]"

definition action_text :: "cstr \<Rightarrow> plan_spec_action \<Rightarrow> plan_spec_field list \<Rightarrow> string" where
  "action_text l a fs =
     ''action '' @ l @ '' '' @ the (sa_kind a) @ '' '' @ the (sa_target a) @ concat (map field_text fs)"

definition edge_text :: "cstr list \<Rightarrow> plan_spec_edge \<Rightarrow> string" where
  "edge_text ls e = ''edge '' @ ls ! from_idx e @ '' '' @ ls ! to_idx e"

definition plan_lines :: "plan_parsed \<Rightarrow> string list" where
  "plan_lines h =
     (if pp_version h = 135 then [''plan 1.35''] else []) @
     map (\<lambda>(l, a, fs). action_text l a fs) (zip (pp_labels h) (zip (pp_actions h) (pp_fields h))) @
     map (edge_text (pp_labels h)) (pp_edges h)"

definition plan_text :: "plan_parsed \<Rightarrow> string" where
  "plan_text h = concat (map (\<lambda>l. l @ nl) (plan_lines h))"

lemma hexdig_hexdigit: "hexdig (hexdigit n) = Some (n mod 16)"
proof -
  have "\<forall>k \<in> set [0..<16]. hexdig (''0123456789abcdef'' ! k) = Some k" by code_simp
  then show ?thesis unfolding hexdigit_def by auto
qed

lemma unquote_quoted:
  "CHR 0x00 \<notin> set v \<Longrightarrow> length val + length v \<le> PLAN_FIELD_VALUE_MAX \<Longrightarrow>
    unquote val (concat (map quote_char v) @ quote # r) = Inr (val @ v, r)"
proof (induction v arbitrary: val)
  case (Cons c v)
  let ?r = "concat (map quote_char v) @ quote # r"
  have lt: "length val < PLAN_FIELD_VALUE_MAX" using Cons.prems(2) by simp
  have go: "unquote (val @ [c]) ?r = Inr (val @ c # v, r)" using Cons.IH [of "val @ [c]"] Cons.prems by simp
  consider "c = quote \<or> c = bslash" | "c \<noteq> quote" "c \<noteq> bslash" "byte c < 32 \<or> byte c = 127"
    | "c \<noteq> quote" "c \<noteq> bslash" "\<not> (byte c < 32 \<or> byte c = 127)" by blast
  then show ?case
  proof cases
    case 1
    then show ?thesis using lt go by (auto simp: quote_char_def [of c] unquote_char_def)
  next
    case 2
    have nz: "byte c \<noteq> 0" using Cons.prems(1) byte_inject [of c "CHR 0x00"] by (auto simp: byte_def)
    have "byte c div 16 < 16" by (rule less_mult_imp_div_less) simp
    then have "byte c div 16 mod 16 * 16 + byte c mod 16 = byte c" by simp
    moreover have "\<not> (byte c div 16 mod 16 = 0 \<and> byte c mod 16 = 0)" using nz calculation by linarith
    ultimately show ?thesis using 2 lt go by (auto simp: quote_char_def [of c] unquote_char_def hexdig_hexdigit)
  next
    case 3
    then show ?thesis using lt go by (auto simp: quote_char_def [of c] unquote_char_def)
  qed
qed simp

lemma token_hd: "token t \<Longrightarrow> t \<noteq> [] \<and> \<not> is_blank (hd t)"
  by (cases t) (auto simp: token_def)

lemma next_token_word:
  assumes "token t" and "r = [] \<or> is_blank (hd r)"
  shows "next_token (t @ r) = Some (t, tl r)"
proof -
  have t: "t \<noteq> []" "\<forall>c \<in> set t. \<not> is_blank c" using assms(1) by (auto simp: token_def list_all_iff)
  have "dropWhile is_blank (t @ r) = t @ r" using t by (cases t) auto
  moreover have "takeWhile (Not \<circ> is_blank) (t @ r) = t"
    using t(2) assms(2) by (subst takeWhile_append2) (auto, cases r, auto)
  moreover have "dropWhile (Not \<circ> is_blank) (t @ r) = r"
    using t(2) assms(2) by (subst dropWhile_append2) (auto, cases r, auto)
  ultimately show ?thesis using t(1) by (simp add: next_token_def)
qed

lemma blank_space [simp]: "is_blank (CHR '' '')"
  by (simp add: is_blank_def)

lemma blank_isspace: "is_blank c \<Longrightarrow> isspace c"
  by (auto simp: is_blank_def isspace_def byte_def)

lemma word_token: "word_text t \<Longrightarrow> token t"
  using blank_isspace by (auto simp: word_text_def token_def list_all_iff)

lemma valid_label_word: "valid_label l \<Longrightarrow> word_text l"
proof -
  assume l: "valid_label l"
  have c: "is_label_char c b \<Longrightarrow> \<not> isspace c \<and> c \<noteq> CHR 0x00" for c b
    by (auto simp: is_label_char_def ctype_defs byte_def split: if_splits)
  show ?thesis using l c by (cases l) (auto simp: valid_label_def word_text_def list_all_iff)
qed

lemma field_key_chars:
  assumes "valid_field_key k"
  shows "k \<noteq> []" and "\<forall>c \<in> set k. c \<noteq> CHR ''='' \<and> \<not> is_blank c \<and> c \<noteq> CHR 0x00 \<and> c \<noteq> newline"
proof -
  have c: "islower c \<or> isdigit c \<or> c = CHR ''_'' \<Longrightarrow> c \<noteq> CHR ''='' \<and> \<not> is_blank c \<and> c \<noteq> CHR 0x00 \<and> c \<noteq> newline" for c
    by (auto simp: ctype_defs byte_def is_blank_def newline_def)
  show "k \<noteq> []" using assms by (simp add: valid_field_key_def)
  show "\<forall>c \<in> set k. c \<noteq> CHR ''='' \<and> \<not> is_blank c \<and> c \<noteq> CHR 0x00 \<and> c \<noteq> newline"
    using assms c by (cases k) (auto simp: valid_field_key_def list_all_iff)
qed

lemma parse_field_text:
  assumes "field_ok f" and "sf_key f \<notin> sf_key ` set fs" and "length fs < PLAN_FIELDS_MAX" and "r = [] \<or> is_blank (hd r)"
  shows "parse_field fs (tl (field_text f) @ r) = Inr (sf_key f, sf_value f, r)"
proof -
  let ?q = "quote # concat (map quote_char (sf_value f)) @ quote # r"
  have k: "valid_field_key (sf_key f)" "sf_key f \<noteq> ''target''" and v: "length (sf_value f) \<le> PLAN_FIELD_VALUE_MAX" "CHR 0x00 \<notin> set (sf_value f)"
    using assms(1) by (simp_all add: field_ok_def)
  have p: "tl (field_text f) @ r = sf_key f @ CHR ''='' # ?q" by (simp add: field_text_def)
  have tw: "takeWhile (\<lambda>c. c \<noteq> CHR ''='' \<and> \<not> is_blank c) (sf_key f @ CHR ''='' # ?q) = sf_key f"
    using field_key_chars(2) [OF k(1)] by (subst takeWhile_append2) auto
  have "field_value ?q = Inr (sf_value f, r)"
    using unquote_quoted [OF v(2), of "[]" r] v(1) assms(4) by (auto simp: field_value_def)
  then show ?thesis
    unfolding p parse_field_def tw Let_def using k assms(2,3) by (auto simp: list_ex_iff image_iff)
qed

lemma intern_ok: "length ow < PLAN_OWNED_STRINGS_MAX \<Longrightarrow> intern s (ow, []) = (None, ow @ [s], [])"
  by (simp add: intern_def)

lemma parse_fields_blank: "is_blank c \<Longrightarrow> parse_fields fs (c # p) st = parse_fields fs p st"
  unfolding parse_fields.simps [of fs "c # p"] parse_fields.simps [of fs p] by simp

lemma parse_fields_text:
  "fields_ok (fs0 @ fs) \<Longrightarrow> length ow + 2 * length fs < PLAN_OWNED_STRINGS_MAX \<Longrightarrow>
    parse_fields fs0 (tl (concat (map field_text fs))) (ow, []) =
      Inr (fs0 @ fs, ow @ concat (map (\<lambda>f. [sf_key f, sf_value f]) fs), [])"
proof (induction fs arbitrary: fs0 ow)
  case Nil
  then show ?case by (simp add: parse_fields.simps)
next
  case (Cons f fs)
  let ?r = "concat (map field_text fs)"
  have hd: "?r = [] \<or> is_blank (hd ?r)" by (cases fs) (simp_all add: field_text_def)
  have f: "field_ok f" "sf_key f \<notin> sf_key ` set fs0" "length fs0 < PLAN_FIELDS_MAX" using Cons.prems(1) by (auto simp: fields_ok_def)
  have p: "tl (concat (map field_text (f # fs))) = tl (field_text f) @ ?r" by (simp add: field_text_def)
  have ne: "dropWhile is_blank (tl (field_text f) @ ?r) = tl (field_text f) @ ?r" "tl (field_text f) @ ?r \<noteq> []"
    using field_key_chars [of "sf_key f"] f(1) by (cases "sf_key f"; simp add: field_text_def field_ok_def)+
  have i: "intern_field (sf_key f) (sf_value f) (ow, []) = Inr (ow @ [sf_key f, sf_value f], [])"
    using Cons.prems(2) by (simp add: intern_field_def intern_ok)
  have d: "parse_fields fs1 ?r st = parse_fields fs1 (tl ?r) st" for fs1 st
    using hd parse_fields_blank by (metis list.collapse list.sel(2))
  have "parse_fields (fs0 @ [f]) (tl ?r) (ow @ [sf_key f, sf_value f], []) =
    Inr (fs0 @ f # fs, ow @ concat (map (\<lambda>f. [sf_key f, sf_value f]) (f # fs)), [])"
    using Cons.IH [of "fs0 @ [f]"] Cons.prems by simp
  moreover have "\<lparr>sf_key = sf_key f, sf_value = sf_value f\<rparr> = f" by (cases f) simp
  ultimately show ?case
    unfolding p parse_fields.simps [of fs0 "tl (field_text f) @ ?r"] ne(1) if_not_P [OF ne(2)] parse_field_text [OF f hd]
    by (simp only: sum.case prod.case i d)
qed

section \<open>Reading a written plan back\<close>

lemma trim_line:
  assumes "s \<noteq> []" and "\<not> isspace (hd s)" and "\<not> isspace (last s)"
  shows "trim_inplace (s @ nl) = s"
proof -
  have nl: "isspace newline" by (simp add: isspace_def newline_def byte_def)
  have "dropWhile isspace (s @ nl) = s @ nl" using assms(1,2) by (cases s) simp_all
  moreover have "dropWhile isspace (rev s) = rev s" using assms(1,3) by (cases s rule: rev_cases) simp_all
  ultimately show ?thesis using nl by (simp add: trim_inplace_def nl_def)
qed

definition plain_line :: "string \<Rightarrow> bool" where
  "plain_line s \<longleftrightarrow> s \<noteq> [] \<and> \<not> isspace (hd s) \<and> \<not> isspace (last s) \<and> hd s \<noteq> CHR ''#'' \<and> CHR 0x00 \<notin> set s \<and> newline \<notin> set s \<and>
     length s < PLAN_LINE_MAX"

lemma load_plain_line: "plain_line s \<Longrightarrow> load_getline h (s @ nl) al = parse_line h (s @ nl) al"
  by (simp add: plain_line_def load_getline_def nl_def)

lemma parse_plain_line:
  assumes "plain_line s" and "s = d @ CHR '' '' # r" and "token d"
  shows "parse_line h (s @ nl) al =
    (if d = ''plan'' then parse_plan h r al
     else
       let h = h\<lparr>pp_seen_directive := True\<rparr> in
       if d = ''action'' then parse_action h r al else if d = ''edge'' then parse_edge h r al else Inl P_DIRECTIVE)"
proof -
  have t: "trim_inplace (s @ nl) = s" using assms(1) by (intro trim_line) (simp_all add: plain_line_def)
  have n: "next_token s = Some (d, r)" using next_token_word [OF assms(3), of "CHR '' '' # r"] assms(2) by simp
  have "s \<noteq> []" "hd s \<noteq> CHR ''#''" using assms(1) by (simp_all add: plain_line_def)
  then show ?thesis unfolding parse_line_def t Let_def by (simp only: n option.case prod.case if_False simp_thms)
qed

lemma action_words_text:
  assumes "token l" "token k" "token t" and "r = [] \<or> is_blank (hd r)"
  shows "action_words (l @ CHR '' '' # k @ CHR '' '' # t @ r) = Some (l, k, t, tl r)"
  unfolding action_words_def
  using next_token_word [OF assms(1), of "CHR '' '' # k @ CHR '' '' # t @ r"] next_token_word [OF assms(2), of "CHR '' '' # t @ r"]
    next_token_word [OF assms(3,4)] by simp

lemma parse_action_text:
  assumes "parsed_ok h" "owned_ok h" and n: "length (pp_actions h) < PLAN_PARSE_MAX_ACTIONS"
    and l: "valid_label l" "l \<notin> set (pp_labels h)" "sa_label a = Some l" and a: "action_ok a" and fs: "fields_ok fs"
  shows "\<exists>ow. parse_action h (l @ CHR '' '' # the (sa_kind a) @ CHR '' '' # the (sa_target a) @ concat (map field_text fs)) [] =
    Inr (h\<lparr>pp_owned := ow, pp_labels := pp_labels h @ [l], pp_actions := pp_actions h @ [a], pp_fields := pp_fields h @ [fs]\<rparr>, [])"
proof -
  let ?r = "concat (map field_text fs)"
  obtain k t where kt: "sa_kind a = Some k" "sa_target a = Some t" "token k" "token t" "length t \<le> PLAN_TARGET_MAX" "sa_parameters a = None"
    using a by (auto simp: action_ok_def)
  have hd: "?r = [] \<or> is_blank (hd ?r)" by (cases fs) (simp_all add: field_text_def)
  have w: "action_words (l @ CHR '' '' # k @ CHR '' '' # t @ ?r) = Some (l, k, t, tl ?r)"
    by (rule action_words_text [OF word_token [OF valid_label_word [OF l(1)]] kt(3,4) hd])
  have ow: "length (pp_owned h) \<le> 35 * 255" using owned_room [OF assms(1,2)] n by (simp add: PLAN_PARSE_MAX_ACTIONS_def)
  have nf: "length fs \<le> 16" using fs by (simp add: fields_ok_def PLAN_FIELDS_MAX_def)
  have i: "intern_action k t l (pp_owned h, []) = Inr (pp_owned h @ [k, t, l], [])"
    using ow by (simp add: intern_action_def intern_ok parser_limits)
  have f: "parse_fields [] (tl ?r) (pp_owned h @ [k, t, l], []) = Inr (fs, (pp_owned h @ [k, t, l]) @ concat (map (\<lambda>f. [sf_key f, sf_value f]) fs), [])"
    using parse_fields_text [of "[]" fs "pp_owned h @ [k, t, l]"] fs ow nf by (simp add: parser_limits)
  have lab: "find_label h l = None" "take (PLAN_LABEL_MAX - 1) l = l"
    using l find_label_index [OF assms(1)] find_index_None by (auto simp: valid_label_def PLAN_LABEL_MAX_def)
  have "a = \<lparr>sa_kind = Some k, sa_target = Some t, sa_parameters = None, sa_label = Some l\<rparr>" using kt l(3) by simp
  then show ?thesis
    using n w kt l(1) lab i f by (auto simp: parse_action_def add_action_def)
qed

lemma parse_edge_text:
  assumes "parsed_ok h" and "length (pp_edges h) < PLAN_PARSE_MAX_EDGES" and e: "edge_ok (length (pp_labels h)) e"
  shows "parse_edge h (pp_labels h ! from_idx e @ CHR '' '' # pp_labels h ! to_idx e) al = Inr (h\<lparr>pp_edges := pp_edges h @ [e]\<rparr>, al)"
proof -
  let ?u = "pp_labels h ! from_idx e" and ?v = "pp_labels h ! to_idx e"
  have d: "distinct (pp_labels h)" "list_all valid_label (pp_labels h)" "length (pp_labels h) \<le> 256"
    using assms(1) parsed_labels [OF assms(1)] by (simp_all add: parsed_ok_def PLAN_PARSE_MAX_ACTIONS_def)
  have i: "from_idx e < length (pp_labels h)" "to_idx e < length (pp_labels h)" "from_idx e \<noteq> to_idx e" using e by (simp_all add: edge_ok_def)
  have t: "token ?u" "token ?v" using d(2) i word_token valid_label_word by (auto simp: list_all_length)
  have "next_token (?u @ CHR '' '' # ?v) = Some (?u, ?v)" "next_token ?v = Some (?v, [])" "next_token [] = None"
    using next_token_word [OF t(1), of "CHR '' '' # ?v"] next_token_word [OF t(2), of "[]"] by (simp_all add: next_token_def)
  moreover have "find_label h ?u = Some (from_idx e)" "find_label h ?v = Some (to_idx e)"
    using find_index_nth [OF d(1)] i find_label_index [OF assms(1)] by simp_all
  ultimately show ?thesis using assms(2) i d(3) by (simp add: parse_edge_def)
qed

lemma getlines_concat: "\<forall>l \<in> set ls. newline \<notin> set l \<Longrightarrow> getlines (concat (map (\<lambda>l. l @ nl) ls)) = map (\<lambda>l. l @ nl) ls"
proof (induction ls)
  case Nil
  then show ?case by (simp add: getlines.simps)
next
  case (Cons l ls)
  have "takeWhile (\<lambda>c. c \<noteq> newline) (l @ newline # concat (map (\<lambda>l. l @ nl) ls)) = l"
    using Cons.prems by (subst takeWhile_append2) auto
  then show ?case using Cons by (subst getlines.simps) (simp add: nl_def)
qed

lemma quote_char_chars: "c \<noteq> CHR 0x00 \<Longrightarrow> \<forall>d \<in> set (quote_char c). d \<noteq> CHR 0x00 \<and> d \<noteq> newline"
proof -
  assume c: "c \<noteq> CHR 0x00"
  have "\<forall>k \<in> set [0..<16]. ''0123456789abcdef'' ! k \<noteq> CHR 0x00 \<and> ''0123456789abcdef'' ! k \<noteq> newline" by code_simp
  then have "hexdigit n \<noteq> CHR 0x00 \<and> hexdigit n \<noteq> newline" for n unfolding hexdigit_def by auto
  then show ?thesis using c by (auto simp: quote_char_def newline_def byte_def)
qed

lemma field_text_chars:
  assumes "field_ok f"
  shows "\<forall>c \<in> set (field_text f). c \<noteq> CHR 0x00 \<and> c \<noteq> newline" and "last (field_text f) = quote" and "field_text f \<noteq> []"
proof -
  have "c \<noteq> CHR 0x00 \<and> c \<noteq> newline" if "d \<in> set (sf_value f)" "c \<in> set (quote_char d)" for c d
    using quote_char_chars [of d] that assms by (auto simp: field_ok_def)
  then show "\<forall>c \<in> set (field_text f). c \<noteq> CHR 0x00 \<and> c \<noteq> newline"
    using field_key_chars(2) [of "sf_key f"] assms by (auto simp: field_text_def field_ok_def newline_def)
qed (simp_all add: field_text_def)

definition action_printable :: "plan_spec_action \<Rightarrow> bool" where
  "action_printable a \<longleftrightarrow> word_text (the (sa_kind a)) \<and> word_text (the (sa_target a))"

definition plan_printable :: "plan_parsed \<Rightarrow> bool" where
  "plan_printable h \<longleftrightarrow> list_all action_printable (pp_actions h) \<and> list_all (\<lambda>l. length l < PLAN_LINE_MAX) (plan_lines h)"

lemma word_chars: "word_text w \<Longrightarrow> w \<noteq> [] \<and> CHR 0x00 \<notin> set w \<and> newline \<notin> set w \<and> \<not> isspace (last w)"
proof -
  assume w: "word_text w"
  have "isspace newline" by (simp add: isspace_def newline_def byte_def)
  then show ?thesis using w last_in_set [of w] by (auto simp: word_text_def)
qed

lemma plain_action_text:
  assumes "valid_label l" "action_printable a" "fields_ok fs" and "length (action_text l a fs) < PLAN_LINE_MAX"
  shows "plain_line (action_text l a fs)"
proof -
  let ?k = "the (sa_kind a)" and ?t = "the (sa_target a)"
  have w: "word_text l" "word_text ?k" "word_text ?t" using assms(1,2) valid_label_word by (auto simp: action_printable_def)
  have f: "\<forall>f \<in> set fs. field_ok f" using assms(3) by (simp add: fields_ok_def list_all_iff)
  have "\<not> isspace (last (action_text l a fs))"
  proof (cases fs rule: rev_cases)
    case Nil
    then show ?thesis using word_chars [OF w(3)] by (simp add: action_text_def)
  next
    case (snoc fs' g)
    then have "last (action_text l a fs) = quote" using field_text_chars(2,3) [of g] f by (simp add: action_text_def)
    then show ?thesis by (simp add: isspace_def byte_def)
  qed
  moreover have "c \<noteq> CHR 0x00 \<and> c \<noteq> newline" if c: "c \<in> set (concat (map field_text fs))" for c
  proof -
    obtain g where "g \<in> set fs" "c \<in> set (field_text g)" using c by auto
    then show ?thesis using field_text_chars(1) [of g] f by blast
  qed
  then have "CHR 0x00 \<notin> set (concat (map field_text fs))" "newline \<notin> set (concat (map field_text fs))" by blast+
  moreover have "CHR 0x00 \<notin> set ''action ''" "newline \<notin> set ''action ''" "newline \<noteq> CHR '' ''" by (simp_all add: newline_def)
  moreover have "hd (action_text l a fs) = CHR ''a''" by (simp add: action_text_def)
  ultimately show ?thesis
    using w [THEN word_chars] assms(4) unfolding plain_line_def
    by (simp add: isspace_def byte_def) (simp only: action_text_def set_append Un_iff append_is_Nil_conv, simp)
qed

lemma load_actions:
  assumes "parsed_ok h" "owned_ok h" and "length (pp_actions h) + length xs \<le> PLAN_PARSE_MAX_ACTIONS"
    and "\<forall>(l, a, fs) \<in> set xs. valid_label l \<and> sa_label a = Some l \<and> action_ok a \<and> fields_ok fs \<and> plain_line (action_text l a fs)"
    and "distinct (pp_labels h @ map fst xs)"
  shows "\<exists>h'. load_getlines n (map (\<lambda>(l, a, fs). action_text l a fs @ nl) xs @ rest) (h, []) = load_getlines (n + length xs) rest (h', []) \<and>
    parsed_ok h' \<and> owned_ok h' \<and> pp_labels h' = pp_labels h @ map fst xs \<and> pp_actions h' = pp_actions h @ map (fst \<circ> snd) xs \<and>
    pp_fields h' = pp_fields h @ map (snd \<circ> snd) xs \<and> pp_edges h' = pp_edges h \<and> pp_version h' = pp_version h"
  using assms
proof (induction xs arbitrary: n h)
  case (Cons x xs)
  obtain l a fs where x: "x = (l, a, fs)" by (cases x)
  let ?h = "h\<lparr>pp_seen_directive := True\<rparr>"
  have p: "valid_label l" "sa_label a = Some l" "action_ok a" "fields_ok fs" "plain_line (action_text l a fs)" "l \<notin> set (pp_labels ?h)"
    using Cons.prems(4,5) x by auto
  have ok: "parsed_ok ?h" "owned_ok ?h" using Cons.prems(1,2) by (simp_all add: parsed_ok_def owned_ok_def)
  have n: "length (pp_actions ?h) < PLAN_PARSE_MAX_ACTIONS" using Cons.prems(3) by simp
  from parse_action_text [OF ok n p(1,6,2,3,4)] obtain ow where
    pa: "parse_action ?h (tl (dropWhile (Not \<circ> is_blank) (action_text l a fs))) [] =
      Inr (?h\<lparr>pp_owned := ow, pp_labels := pp_labels ?h @ [l], pp_actions := pp_actions ?h @ [a], pp_fields := pp_fields ?h @ [fs]\<rparr>, [])" (is "_ = Inr (?h1, [])")
    by (auto simp: action_text_def is_blank_def)
  have tx: "action_text l a fs = ''action'' @ CHR '' '' # tl (dropWhile (Not \<circ> is_blank) (action_text l a fs))" by (simp add: action_text_def is_blank_def)
  have "token ''action''" by (simp add: token_def is_blank_def)
  then have g: "load_getline h (action_text l a fs @ nl) [] = Inr (?h1, [])"
    using load_plain_line [OF p(5)] parse_plain_line [OF p(5) tx] pa by simp
  have ok1: "parsed_ok ?h1" "owned_ok ?h1" using load_getline_ok [OF g Cons.prems(1,2)] by simp_all
  from Cons.IH [OF ok1, of "n + 1"] obtain h' where
    "load_getlines (n + 1) (map (\<lambda>(l, a, fs). action_text l a fs @ nl) xs @ rest) (?h1, []) = load_getlines (n + 1 + length xs) rest (h', [])"
    "parsed_ok h'" "owned_ok h'" "pp_labels h' = pp_labels ?h1 @ map fst xs" "pp_actions h' = pp_actions ?h1 @ map (fst \<circ> snd) xs"
    "pp_fields h' = pp_fields ?h1 @ map (snd \<circ> snd) xs" "pp_edges h' = pp_edges ?h1" "pp_version h' = pp_version ?h1"
    using Cons.prems(3,4,5) x by auto
  then show ?case using g x by (intro exI [of _ h']) simp
qed auto

lemma load_edges:
  assumes "parsed_ok h" "owned_ok h" and "length (pp_edges h) + length es \<le> PLAN_PARSE_MAX_EDGES"
    and "\<forall>e \<in> set es. edge_ok (length (pp_labels h)) e \<and> plain_line (edge_text (pp_labels h) e)"
  shows "\<exists>h'. load_getlines n (map (\<lambda>e. edge_text (pp_labels h) e @ nl) es) (h, []) = Inr (n + length es, h') \<and>
    pp_labels h' = pp_labels h \<and> pp_actions h' = pp_actions h \<and> pp_fields h' = pp_fields h \<and> pp_edges h' = pp_edges h @ es \<and>
    pp_version h' = pp_version h"
  using assms
proof (induction es arbitrary: n h)
  case (Cons e es)
  let ?h = "h\<lparr>pp_seen_directive := True\<rparr>" and ?r = "pp_labels h ! from_idx e @ CHR '' '' # pp_labels h ! to_idx e"
  have ok: "parsed_ok ?h" "owned_ok ?h" using Cons.prems(1,2) by (simp_all add: parsed_ok_def owned_ok_def)
  let ?h1 = "?h\<lparr>pp_edges := pp_edges ?h @ [e]\<rparr>"
  have pe: "parse_edge ?h ?r [] = Inr (?h1, [])" using parse_edge_text [OF ok(1), of e "[]"] Cons.prems(3,4) by simp
  have tx: "edge_text (pp_labels h) e = ''edge'' @ CHR '' '' # ?r" by (simp add: edge_text_def)
  have pl: "plain_line (edge_text (pp_labels h) e)" using Cons.prems(4) by simp
  have "token ''edge''" by (simp add: token_def is_blank_def)
  then have g: "load_getline h (edge_text (pp_labels h) e @ nl) [] = Inr (?h1, [])"
    using load_plain_line [OF pl] parse_plain_line [OF pl tx] pe by simp
  have ok1: "parsed_ok ?h1" "owned_ok ?h1" using load_getline_ok [OF g Cons.prems(1,2)] by simp_all
  from Cons.IH [OF ok1, of "n + 1"] obtain h' where
    "load_getlines (n + 1) (map (\<lambda>e. edge_text (pp_labels ?h1) e @ nl) es) (?h1, []) = Inr (n + 1 + length es, h')"
    "pp_labels h' = pp_labels ?h1" "pp_actions h' = pp_actions ?h1" "pp_fields h' = pp_fields ?h1" "pp_edges h' = pp_edges ?h1 @ es"
    "pp_version h' = pp_version ?h1" using Cons.prems(3,4) by auto
  then show ?case using g by (intro exI [of _ h']) simp
qed simp

lemma written_actions:
  assumes "parsed_ok h" and "plan_printable h"
  shows "\<forall>(l, a, fs) \<in> set (zip (pp_labels h) (zip (pp_actions h) (pp_fields h))).
    valid_label l \<and> sa_label a = Some l \<and> action_ok a \<and> fields_ok fs \<and> plain_line (action_text l a fs)"
proof (clarify)
  fix l a fs
  assume m: "(l, a, fs) \<in> set (zip (pp_labels h) (zip (pp_actions h) (pp_fields h)))"
  then obtain i where i: "i < length (pp_actions h)" "pp_labels h ! i = l" "pp_actions h ! i = a" "pp_fields h ! i = fs"
    using parsed_labels [OF assms(1)] assms(1) by (auto simp: set_zip parsed_ok_def)
  have "sa_label (pp_actions h ! i) = Some (pp_labels h ! i)"
    using assms(1) i(1) parsed_labels [OF assms(1)] by (metis nth_map parsed_ok_def)
  moreover have p: "valid_label l" "action_ok a" "fields_ok fs" "action_printable a"
    using assms i parsed_labels [OF assms(1)] by (auto simp: parsed_ok_def plan_printable_def list_all_length)
  moreover have "action_text l a fs \<in> set (plan_lines h)" using m by (force simp: plan_lines_def)
  then have "length (action_text l a fs) < PLAN_LINE_MAX" using assms(2) by (auto simp: plan_printable_def list_all_iff)
  ultimately show "valid_label l \<and> sa_label a = Some l \<and> action_ok a \<and> fields_ok fs \<and> plain_line (action_text l a fs)"
    using plain_action_text i by simp
qed

lemma written_edges:
  assumes "parsed_ok h" and "plan_printable h"
  shows "\<forall>e \<in> set (pp_edges h). edge_ok (length (pp_labels h)) e \<and> plain_line (edge_text (pp_labels h) e)"
proof
  fix e
  assume e: "e \<in> set (pp_edges h)"
  then have ok: "edge_ok (length (pp_labels h)) e" using assms(1) parsed_labels [OF assms(1)] by (auto simp: parsed_ok_def list_all_iff)
  then have "word_text (pp_labels h ! from_idx e)" "word_text (pp_labels h ! to_idx e)"
    using assms(1) valid_label_word by (auto simp: parsed_ok_def list_all_length edge_ok_def)
  note w = this [THEN word_chars]
  have "edge_text (pp_labels h) e \<in> set (plan_lines h)" using e by (simp add: plan_lines_def)
  then have "length (edge_text (pp_labels h) e) < PLAN_LINE_MAX" using assms(2) by (auto simp: plan_printable_def list_all_iff)
  moreover have "hd (edge_text (pp_labels h) e) = CHR ''e''" by (simp add: edge_text_def)
  moreover have "CHR 0x00 \<notin> set ''edge ''" "newline \<notin> set ''edge ''" "newline \<noteq> CHR '' ''" by (simp_all add: newline_def)
  ultimately have "plain_line (edge_text (pp_labels h) e)"
    using w unfolding plain_line_def
    by (simp add: isspace_def byte_def) (simp only: edge_text_def set_append Un_iff append_is_Nil_conv last_appendR, simp)
  with ok show "edge_ok (length (pp_labels h)) e \<and> plain_line (edge_text (pp_labels h) e)" by blast
qed

lemma written_version:
  assumes "parsed_ok h"
  shows "\<exists>h0. parsed_ok h0 \<and> owned_ok h0 \<and> pp_labels h0 = [] \<and> pp_actions h0 = [] \<and> pp_fields h0 = [] \<and> pp_edges h0 = [] \<and>
    pp_version h0 = pp_version h \<and>
    load_getlines 0 (map (\<lambda>l. l @ nl) (if pp_version h = 135 then [''plan 1.35''] else []) @ rest) (parsed_zero, []) =
      load_getlines (length (if pp_version h = 135 then [''plan 1.35''] else [])) rest (h0, [])"
proof (cases "pp_version h = 135")
  case True
  let ?h0 = "parsed_zero\<lparr>pp_version := 135\<rparr>"
  have "load_getline parsed_zero (''plan 1.35'' @ nl) [] = Inr (?h0, [])" by code_simp
  moreover from load_getline_ok [OF this parsed_zero_ok] have "parsed_ok ?h0" "owned_ok ?h0" by simp_all
  ultimately show ?thesis using True by (intro exI [of _ ?h0]) (simp add: parsed_zero_def)
next
  case False
  then have "pp_version h = 0" using assms by (auto simp: parsed_ok_def)
  then show ?thesis using parsed_zero_ok by (intro exI [of _ parsed_zero]) (simp add: parsed_zero_def)
qed

lemma plan_text_loads:
  assumes "parsed_ok h" and "pp_actions h \<noteq> []" and "plan_printable h"
  shows "\<exists>h'. plan_parser_load_stream (Some (plan_text h)) [] = Inr h' \<and> pp_labels h' = pp_labels h \<and>
    pp_actions h' = pp_actions h \<and> pp_fields h' = pp_fields h \<and> pp_edges h' = pp_edges h \<and> pp_version h' = pp_version h"
proof -
  let ?xs = "zip (pp_labels h) (zip (pp_actions h) (pp_fields h))" and ?v = "if pp_version h = 135 then [''plan 1.35''] else []"
  let ?ls = "map (\<lambda>(l, a, fs). action_text l a fs @ nl) ?xs" and ?es = "map (\<lambda>e. edge_text (pp_labels h) e @ nl) (pp_edges h)"
  have len: "length (pp_labels h) = length (pp_actions h)" "length (pp_fields h) = length (pp_actions h)"
    using assms(1) parsed_labels [OF assms(1)] by (simp_all add: parsed_ok_def)
  have xs: "\<forall>(l, a, fs) \<in> set ?xs. valid_label l \<and> sa_label a = Some l \<and> action_ok a \<and> fields_ok fs \<and> plain_line (action_text l a fs)"
    by (rule written_actions [OF assms(1,3)])
  have es: "\<forall>e \<in> set (pp_edges h). edge_ok (length (pp_labels h)) e \<and> plain_line (edge_text (pp_labels h) e)"
    by (rule written_edges [OF assms(1,3)])
  have nl: "\<forall>l \<in> set (plan_lines h). newline \<notin> set l"
    using xs es by (fastforce simp: plan_lines_def plain_line_def newline_def)
  have lines: "getlines (plan_text h) = map (\<lambda>l. l @ nl) ?v @ ?ls @ ?es"
    unfolding plan_text_def getlines_concat [OF nl] by (auto simp: plan_lines_def)
  obtain h0 where h0: "parsed_ok h0" "owned_ok h0" "pp_labels h0 = []" "pp_actions h0 = []" "pp_fields h0 = []" "pp_edges h0 = []" "pp_version h0 = pp_version h"
    and l0: "load_getlines 0 (map (\<lambda>l. l @ nl) ?v @ ?ls @ ?es) (parsed_zero, []) = load_getlines (length ?v) (?ls @ ?es) (h0, [])"
    using written_version [OF assms(1)] by blast
  have unz: "map fst ?xs = pp_labels h" "map (fst \<circ> snd) ?xs = pp_actions h" "map (snd \<circ> snd) ?xs = pp_fields h"
    using len by (simp_all flip: map_map)
  have pre: "length (pp_actions h0) + length ?xs \<le> PLAN_PARSE_MAX_ACTIONS" "distinct (pp_labels h0 @ map fst ?xs)"
    using assms(1) len h0(3,4) unz(1) by (simp_all add: parsed_ok_def)
  from load_actions [OF h0(1,2) pre(1) xs pre(2), of "length ?v" ?es] obtain h1 where h1: "parsed_ok h1" "owned_ok h1" "pp_labels h1 = pp_labels h"
    "pp_actions h1 = pp_actions h" "pp_fields h1 = pp_fields h" "pp_edges h1 = []" "pp_version h1 = pp_version h"
    and l1: "load_getlines (length ?v) (?ls @ ?es) (h0, []) = load_getlines (length ?v + length ?xs) ?es (h1, [])"
    unfolding unz h0 append_Nil by blast
  from load_edges [OF h1(1,2), of "pp_edges h" "length ?v + length ?xs"] obtain h2 where "load_getlines (length ?v + length ?xs) ?es (h1, []) = Inr (length ?v + length ?xs + length (pp_edges h), h2)"
    "pp_labels h2 = pp_labels h" "pp_actions h2 = pp_actions h" "pp_fields h2 = pp_fields h" "pp_edges h2 = pp_edges h" "pp_version h2 = pp_version h"
    using assms(1) h1 es by (auto simp: parsed_ok_def)
  then show ?thesis using l0 l1 lines assms(2) by (intro exI [of _ h2]) (simp add: plan_parser_load_stream_def)
qed

section \<open>Properties\<close>


text \<open>C18. Whatever the file holds, a plan that loads is well formed: it has between 1 and 256 actions and at most 1024
  edges, every action has its own valid label, a kind and a target of at most 4095 bytes without blanks, at
  most 16 fields with distinct valid names and values that fit, and every edge joins two different
  actions of the plan. The table of owned
  strings is large enough: no file is ever refused because it is full.\<close>

theorem plan_parser_invariant:
  "(plan_parser_load_stream fp al = Inr h \<longrightarrow> parsed_ok h \<and> owned_ok h \<and> pp_actions h \<noteq> []) \<and>
   plan_parser_load_stream fp al \<noteq> Inl (n, P_INTERN_FULL)"
proof
  show "plan_parser_load_stream fp al = Inr h \<longrightarrow> parsed_ok h \<and> owned_ok h \<and> pp_actions h \<noteq> []" using loaded_plan_ok by blast
  show "plan_parser_load_stream fp al \<noteq> Inl (n, P_INTERN_FULL)"
    using load_getlines_room [OF parsed_zero_ok]
    by (auto simp: plan_parser_load_stream_def Let_def split: option.splits prod.splits if_splits sum.splits)
qed

text \<open>A small plan with a field that needs every kind of escape.\<close>

definition sample_plan :: plan_parsed where
  "sample_plan = \<lparr>pp_owned = [], pp_labels = [''r'', ''s''],
     pp_actions = [\<lparr>sa_kind = Some ''file_open'', sa_target = Some ''/etc/passwd'', sa_parameters = None, sa_label = Some ''r''\<rparr>,
       \<lparr>sa_kind = Some ''net_connect'', sa_target = Some ''h:1'', sa_parameters = None, sa_label = Some ''s''\<rparr>],
     pp_fields = [[], [\<lparr>sf_key = ''body'', sf_value = [quote, CHR '' '', newline]\<rparr>]],
     pp_edges = [\<lparr>from_idx = 0, to_idx = 1\<rparr>], pp_version = 135, pp_seen_directive = True\<rparr>"

lemma sample_plan_ok: "parsed_ok sample_plan" "pp_actions sample_plan \<noteq> []" "plan_printable sample_plan"
proof -
  have "valid_label ''r''" "valid_label ''s''" by code_simp+
  moreover have "action_ok \<lparr>sa_kind = Some ''file_open'', sa_target = Some ''/etc/passwd'', sa_parameters = None, sa_label = Some ''r''\<rparr>"
    "action_ok \<lparr>sa_kind = Some ''net_connect'', sa_target = Some ''h:1'', sa_parameters = None, sa_label = Some ''s''\<rparr>"
    by (simp_all add: action_ok_def token_def is_blank_def PLAN_TARGET_MAX_def)
  moreover have "fields_ok []" "fields_ok [\<lparr>sf_key = ''body'', sf_value = [quote, CHR '' '', newline]\<rparr>]" by code_simp+
  ultimately show "parsed_ok sample_plan" by (simp add: parsed_ok_def sample_plan_def edge_ok_def parser_limits)
  show "pp_actions sample_plan \<noteq> []" by (simp add: sample_plan_def)
  show "plan_printable sample_plan" by code_simp
qed


theorem plan_parser_invariant_witness:
  "\<exists>h. plan_parser_load_stream (Some (plan_text sample_plan)) [] = Inr h \<and> parsed_ok h \<and> pp_actions h \<noteq> []"
proof -
  obtain h where "plan_parser_load_stream (Some (plan_text sample_plan)) [] = Inr h" using plan_text_loads [OF sample_plan_ok] by blast
  then show ?thesis using plan_parser_invariant [of "Some (plan_text sample_plan)" "[]" h] by blast
qed

end
