(* ===== verification/Warden_Adapter.thy ===== *)
theory Warden_Adapter
  imports Plan_Evaluator Pathology Plan_Parser
begin

text \<open>
  From a declared plan to a verdict: \<^verbatim>\<open>src/v1_6/warden_adapter.c\<close>. The adapter asks a decider about every action,
  builds an execution plan from the decisions and the declared edges, verifies it, and logs one record that
  says why a plan was suppressed. The decider is the caller's: an argument that may keep state, so that the
  order of the calls is part of the model. The three clock readings are an argument too.
\<close>

section \<open>The adapter\<close>

record timespec =
  tv_sec :: int
  tv_nsec :: int

text \<open>The monotonic clock at the start and when the latency is taken, and the wall clock of the record.\<close>

record clocks =
  clk_t0 :: timespec
  clk_t1 :: timespec
  clk_sec :: nat
  clk_nsec :: nat

definition monotonic_us_since :: "timespec \<Rightarrow> timespec \<Rightarrow> nat" where
  "monotonic_us_since t0 t1 =
     (let sec = tv_sec t1 - tv_sec t0;
          nsec = tv_nsec t1 - tv_nsec t0;
          total_ns = sec * 1000000000 + nsec;
          total_ns = (if total_ns < 0 then 0 else total_ns)
      in nat (total_ns div 1000))"

fun find_first_with_decision :: "plan_decision list \<Rightarrow> plan_decision \<Rightarrow> nat option" where
  "find_first_with_decision [] d = None"
| "find_first_with_decision (x # xs) d = (if x = d then Some 0 else map_option Suc (find_first_with_decision xs d))"

type_synonym 'u decider = "'u \<Rightarrow> plan_spec_action \<Rightarrow> plan_decision \<times> 'u"

definition coerce_decision :: "plan_decision \<Rightarrow> plan_decision" where
  "coerce_decision d =
     (if d \<noteq> PLAN_DEC_SATISFIED \<and> d \<noteq> PLAN_DEC_UNSATISFIED \<and> d \<noteq> PLAN_DEC_UNKNOWN then PLAN_DEC_UNKNOWN else d)"

text \<open>The loop over the actions: the decisions taken and the plan, or nothing when a node is refused.\<close>

fun decide_actions ::
  "'u decider \<Rightarrow> plan_spec_action list \<Rightarrow> 'u \<Rightarrow> exec_plan option \<Rightarrow> plan_decision list \<Rightarrow> (exec_plan option \<times> plan_decision list) option \<times> 'u" where
  "decide_actions decider [] u plan ds = (Some (plan, ds), u)"
| "decide_actions decider (a # as) u plan ds =
     (let (d, u) = decider u a;
          d = coerce_decision d;
          (node, plan) = exec_plan_add_node plan (sa_label a) d
      in
      if node = PLAN_NODE_ID_INVALID then (None, u) else decide_actions decider as u plan (ds @ [d]))"

fun add_spec_edges :: "plan_spec_edge list \<Rightarrow> exec_plan option \<Rightarrow> exec_plan option option" where
  "add_spec_edges [] plan = Some plan"
| "add_spec_edges (e # es) plan =
     (let (rc, plan) = exec_plan_add_edge plan (from_idx e) (to_idx e) in
      if rc \<noteq> 0 then None else add_spec_edges es plan)"

definition suppression ::
  "plan_decision \<Rightarrow> plan_decision list \<Rightarrow> plan_spec_action list \<Rightarrow> cstr option \<times> plan_decision \<times> pathology_reason" where
  "suppression result ds actions =
     (if result = PLAN_DEC_UNSATISFIED then
        (case find_first_with_decision ds PLAN_DEC_UNSATISFIED of
           Some k \<Rightarrow> (sa_label (actions ! k), PLAN_DEC_UNSATISFIED, PATH_REASON_NODE)
         | None \<Rightarrow> (None, PLAN_DEC_UNSATISFIED, PATH_REASON_NODE))
      else if result = PLAN_DEC_UNKNOWN then
        (case find_first_with_decision ds PLAN_DEC_UNKNOWN of
           Some k \<Rightarrow> (sa_label (actions ! k), PLAN_DEC_UNKNOWN, PATH_REASON_NODE)
         | None \<Rightarrow> (None, PLAN_DEC_UNKNOWN, PATH_REASON_CYCLE))
      else (None, PLAN_DEC_SATISFIED, PATH_REASON_NONE))"

definition emit_decision ::
  "clocks \<Rightarrow> pathology_sink option \<Rightarrow> plan_decision \<Rightarrow> nat \<Rightarrow> nat \<Rightarrow> cstr option \<times> plan_decision \<times> pathology_reason \<Rightarrow> pathology_sink option" where
  "emit_decision clk sink result n e why =
     (case sink of
        None \<Rightarrow> None
      | Some _ \<Rightarrow>
          (case why of (lbl, dec, reason) \<Rightarrow>
             pathology_emit_plan_decision (clk_sec clk) (clk_nsec clk) sink result n e
               (monotonic_us_since (clk_t0 clk) (clk_t1 clk)) lbl dec reason))"

text \<open>The answer of an early return: UNKNOWN, with the reason in the record.\<close>

abbreviation structural :: "pathology_reason \<Rightarrow> cstr option \<times> plan_decision \<times> pathology_reason" where
  "structural reason \<equiv> (None, PLAN_DEC_UNKNOWN, reason)"

text \<open>The result is \<open>None\<close> only if the evaluator left its arrays, which it never does.\<close>

definition warden_adapter_verify ::
  "bool \<Rightarrow> clocks \<Rightarrow> plan_spec option \<Rightarrow> 'u decider option \<Rightarrow> 'u \<Rightarrow> pathology_sink option \<Rightarrow>
   (plan_decision \<times> 'u \<times> pathology_sink option) option" where
  "warden_adapter_verify alloc_ok clk spec_o decider_o u sink =
     (case (spec_o, decider_o) of
        (Some spec, Some decider) \<Rightarrow>
          let n = length (spec_actions spec); m = length (spec_edges spec) in
          if n = 0 then Some (PLAN_DEC_UNKNOWN, u, emit_decision clk sink PLAN_DEC_UNKNOWN 0 m (structural PATH_REASON_EMPTY))
          else if n > PLAN_MAX_NODES \<or> m > PLAN_MAX_EDGES then
            Some (PLAN_DEC_UNKNOWN, u, emit_decision clk sink PLAN_DEC_UNKNOWN n m (structural PATH_REASON_CAPACITY))
          else
            (case exec_plan_new alloc_ok of
               None \<Rightarrow> Some (PLAN_DEC_UNKNOWN, u, emit_decision clk sink PLAN_DEC_UNKNOWN n m (structural PATH_REASON_CAPACITY))
             | Some plan \<Rightarrow>
                 (case decide_actions decider (spec_actions spec) u (Some plan) [] of
                    (None, u) \<Rightarrow> Some (PLAN_DEC_UNKNOWN, u, emit_decision clk sink PLAN_DEC_UNKNOWN n m (structural PATH_REASON_CAPACITY))
                  | (Some (plan, ds), u) \<Rightarrow>
                      (case add_spec_edges (spec_edges spec) plan of
                         None \<Rightarrow> Some (PLAN_DEC_UNKNOWN, u, emit_decision clk sink PLAN_DEC_UNKNOWN n m (structural PATH_REASON_EDGE_INDEX))
                       | Some plan \<Rightarrow>
                           (case exec_plan_verify plan of
                              None \<Rightarrow> None
                            | Some result \<Rightarrow>
                                Some (result, u, emit_decision clk sink result n m (suppression result ds (spec_actions spec)))))))
      | _ \<Rightarrow> Some (PLAN_DEC_UNKNOWN, u, emit_decision clk sink PLAN_DEC_UNKNOWN 0 0 (structural PATH_REASON_CAPACITY)))"

section \<open>What the adapter builds\<close>

text \<open>The decisions the decider gives, in order, and the state it ends in.\<close>

fun decisions :: "'u decider \<Rightarrow> plan_spec_action list \<Rightarrow> 'u \<Rightarrow> plan_decision list \<times> 'u" where
  "decisions decider [] u = ([], u)"
| "decisions decider (a # as) u =
     (let (d, u) = decider u a; (ds, u) = decisions decider as u in (coerce_decision d # ds, u))"

definition spec_plan :: "plan_spec \<Rightarrow> plan_decision list \<Rightarrow> exec_plan" where
  "spec_plan spec ds =
     \<lparr>nodes = map (\<lambda>i. \<lparr>node_id = i, node_label = sa_label (spec_actions spec ! i), node_decision = ds ! i\<rparr>) [0..<length (spec_actions spec)],
      edges = map (\<lambda>e. \<lparr>edge_from = from_idx e, edge_to = to_idx e\<rparr>) (spec_edges spec)\<rparr>"

lemma coerce_valid: "valid_decision (coerce_decision d)"
  by (auto simp: coerce_decision_def valid_decision_def)

lemma decisions_length: "length (fst (decisions decider as u)) = length as"
  by (induction as arbitrary: u) (auto split: prod.splits, metis fst_conv)

lemma decisions_valid: "list_all valid_decision (fst (decisions decider as u))"
  by (induction as arbitrary: u) (auto simp: coerce_valid split: prod.splits, metis fst_conv)

lemma decide_actions_spec:
  assumes "length (nodes p) + length as \<le> PLAN_MAX_NODES"
  shows "decide_actions decider as u (Some p) ds =
    (Some (Some (p\<lparr>nodes := nodes p @ map (\<lambda>i. \<lparr>node_id = length (nodes p) + i, node_label = sa_label (as ! i),
        node_decision = fst (decisions decider as u) ! i\<rparr>) [0..<length as]\<rparr>), ds @ fst (decisions decider as u)), snd (decisions decider as u))"
  using assms
proof (induction as arbitrary: u p ds)
  case Nil
  then show ?case by simp
next
  case (Cons a as)
  obtain d u1 where d: "decider u a = (d, u1)" by force
  obtain ds1 u2 where r: "decisions decider as u1 = (ds1, u2)" by force
  let ?x = "\<lparr>node_id = length (nodes p), node_label = sa_label a, node_decision = coerce_decision d\<rparr>"
  let ?p = "p\<lparr>nodes := nodes p @ [?x]\<rparr>"
  have lt: "length (nodes p) < PLAN_MAX_NODES" using Cons.prems by simp
  then have add: "exec_plan_add_node (Some p) (sa_label a) (coerce_decision d) = (length (nodes p), Some ?p)"
    using coerce_valid [of d] by (auto simp: exec_plan_add_node_def valid_decision_def)
  have ne: "length (nodes p) \<noteq> PLAN_NODE_ID_INVALID" using lt by (simp add: PLAN_MAX_NODES_def)
  have up: "[0..<Suc (length as)] = 0 # map Suc [0..<length as]" by (simp add: upt_conv_Cons map_Suc_upt del: upt_Suc)
  show ?case
    using Cons.IH [of ?p u1 "ds @ [coerce_decision d]"] Cons.prems d r add ne up
    by (simp add: comp_def Let_def del: upt_Suc)
qed

lemma add_spec_edges_spec:
  assumes "length (edges p) + length es \<le> PLAN_MAX_EDGES"
  shows "add_spec_edges es (Some p) =
    (if list_all (edge_ok (length (nodes p))) es
     then Some (Some (p\<lparr>edges := edges p @ map (\<lambda>e. \<lparr>edge_from = from_idx e, edge_to = to_idx e\<rparr>) es\<rparr>)) else None)"
  using assms
proof (induction es arbitrary: p)
  case (Cons e es)
  let ?p = "p\<lparr>edges := edges p @ [\<lparr>edge_from = from_idx e, edge_to = to_idx e\<rparr>]\<rparr>"
  have "exec_plan_add_edge (Some p) (from_idx e) (to_idx e) = (if edge_ok (length (nodes p)) e then (0, Some ?p) else (-1, Some p))"
    using Cons.prems by (auto simp: exec_plan_add_edge_def edge_ok_def)
  then show ?case using Cons.IH [of ?p] Cons.prems by simp
qed simp

definition spec_fits :: "plan_spec \<Rightarrow> bool" where
  "spec_fits spec \<longleftrightarrow> 0 < length (spec_actions spec) \<and> length (spec_actions spec) \<le> PLAN_MAX_NODES \<and> length (spec_edges spec) \<le> PLAN_MAX_EDGES"

abbreviation spec_edges_ok :: "plan_spec \<Rightarrow> bool" where
  "spec_edges_ok spec \<equiv> list_all (edge_ok (length (spec_actions spec))) (spec_edges spec)"

definition spec_rel :: "plan_spec \<Rightarrow> (nat \<times> nat) set" where
  "spec_rel spec = (\<lambda>e. (from_idx e, to_idx e)) ` set (spec_edges spec)"

lemma spec_plan_wf:
  assumes "spec_fits spec" and "spec_edges_ok spec" and "list_all valid_decision ds" and "length ds = length (spec_actions spec)"
  shows "wf_plan (spec_plan spec ds)"
  using assms by (auto simp: wf_plan_def spec_plan_def spec_fits_def edge_ok_def list_all_iff)

lemma adapter_run:
  assumes "spec_fits spec"
  shows "warden_adapter_verify True clk (Some spec) (Some decider) u sink =
    (case decisions decider (spec_actions spec) u of (ds, u') \<Rightarrow>
      if spec_edges_ok spec then
        Some (plan_verdict_spec (spec_plan spec ds), u', emit_decision clk sink (plan_verdict_spec (spec_plan spec ds))
          (length (spec_actions spec)) (length (spec_edges spec)) (suppression (plan_verdict_spec (spec_plan spec ds)) ds (spec_actions spec)))
      else Some (PLAN_DEC_UNKNOWN, u', emit_decision clk sink PLAN_DEC_UNKNOWN
          (length (spec_actions spec)) (length (spec_edges spec)) (structural PATH_REASON_EDGE_INDEX)))"
proof -
  obtain ds u' where d: "decisions decider (spec_actions spec) u = (ds, u')" by force
  have ds: "length ds = length (spec_actions spec)" "list_all valid_decision ds"
    using decisions_length [of decider "spec_actions spec" u] decisions_valid [of decider "spec_actions spec" u] d by simp_all
  let ?p = "empty_plan\<lparr>nodes := nodes (spec_plan spec ds)\<rparr>"
  have "decide_actions decider (spec_actions spec) u (Some empty_plan) [] = (Some (Some ?p, ds), u')"
    using decide_actions_spec [of empty_plan "spec_actions spec" decider u "[]"] assms d
    by (simp add: empty_plan_def spec_plan_def spec_fits_def)
  moreover have "add_spec_edges (spec_edges spec) (Some ?p) = (if spec_edges_ok spec then Some (Some (spec_plan spec ds)) else None)"
    using add_spec_edges_spec [of ?p "spec_edges spec"] assms by (simp add: spec_fits_def spec_plan_def empty_plan_def)
  moreover have "spec_edges_ok spec \<Longrightarrow> exec_plan_verify (Some (spec_plan spec ds)) = Some (plan_verdict_spec (spec_plan spec ds))"
    by (intro exec_plan_verify_spec spec_plan_wf assms ds)
  ultimately show ?thesis
    using assms d by (auto simp: warden_adapter_verify_def spec_fits_def exec_plan_new_def Let_def)
qed

lemma spec_verdict_sat:
  assumes "spec_fits spec" and "spec_edges_ok spec" and "list_all valid_decision ds" and "length ds = length (spec_actions spec)"
  shows "plan_verdict_spec (spec_plan spec ds) = PLAN_DEC_SATISFIED \<longleftrightarrow> acyclic (spec_rel spec) \<and> list_all (\<lambda>d. d = PLAN_DEC_SATISFIED) ds"
proof -
  have "plan_rel (spec_plan spec ds) = spec_rel spec" by (simp add: plan_rel_def spec_plan_def spec_rel_def image_image)
  moreover have "(\<forall>x \<in> set (nodes (spec_plan spec ds)). node_decision x = PLAN_DEC_SATISFIED) \<longleftrightarrow> list_all (\<lambda>d. d = PLAN_DEC_SATISFIED) ds"
    using assms(4) by (auto simp: spec_plan_def list_all_length)
  moreover have "nodes (spec_plan spec ds) \<noteq> []" using assms(1) by (simp add: spec_plan_def spec_fits_def)
  ultimately show ?thesis using plan_verdict_sat_iff [OF spec_plan_wf [OF assms]] by simp
qed

lemma adapter_authorizes:
  "\<exists>v u' sink'. warden_adapter_verify alloc_ok clk (Some spec) (Some decider) u sink = Some (v, u', sink') \<and>
    (v = PLAN_DEC_SATISFIED \<longleftrightarrow> alloc_ok \<and> spec_fits spec \<and> spec_edges_ok spec \<and> acyclic (spec_rel spec) \<and>
       list_all (\<lambda>d. d = PLAN_DEC_SATISFIED) (fst (decisions decider (spec_actions spec) u)))"
proof (cases "spec_fits spec \<and> alloc_ok")
  case True
  obtain ds u' where d: "decisions decider (spec_actions spec) u = (ds, u')" by force
  have ds: "list_all valid_decision ds" "length ds = length (spec_actions spec)"
    using decisions_length [of decider "spec_actions spec" u] decisions_valid [of decider "spec_actions spec" u] d by simp_all
  show ?thesis
    using adapter_run [of spec clk decider u sink] True d spec_verdict_sat [OF _ _ ds] by auto
next
  case False
  then show ?thesis by (auto simp: warden_adapter_verify_def spec_fits_def exec_plan_new_def Let_def not_le)
qed

lemma find_first_Some:
  "find_first_with_decision ds d = Some k \<Longrightarrow> k < length ds \<and> ds ! k = d \<and> (\<forall>j < k. ds ! j \<noteq> d)"
  by (induction ds arbitrary: k) (auto simp: nth_Cons split: if_splits nat.splits)

lemma find_first_None: "find_first_with_decision ds d = None \<longleftrightarrow> d \<notin> set ds"
  by (induction ds) auto

text \<open>What the reason of a record means.\<close>

definition explains ::
  "bool \<Rightarrow> plan_spec \<Rightarrow> plan_decision list \<Rightarrow> plan_decision \<Rightarrow> cstr option \<times> plan_decision \<times> pathology_reason \<Rightarrow> bool" where
  "explains alloc_ok spec ds v why \<longleftrightarrow>
     (case why of (lbl, dec, reason) \<Rightarrow>
        dec = v \<and>
        (case reason of
           PATH_REASON_NONE \<Rightarrow> v = PLAN_DEC_SATISFIED
         | PATH_REASON_NODE \<Rightarrow>
             v \<noteq> PLAN_DEC_SATISFIED \<and>
             (\<exists>k < length (spec_actions spec). ds ! k = v \<and> lbl = sa_label (spec_actions spec ! k) \<and> (\<forall>j < k. ds ! j \<noteq> v))
         | PATH_REASON_CYCLE \<Rightarrow> v = PLAN_DEC_UNKNOWN \<and> \<not> acyclic (spec_rel spec) \<and> PLAN_DEC_UNKNOWN \<notin> set ds
         | PATH_REASON_EMPTY \<Rightarrow> v = PLAN_DEC_UNKNOWN \<and> spec_actions spec = []
         | PATH_REASON_CAPACITY \<Rightarrow>
             v = PLAN_DEC_UNKNOWN \<and>
             (length (spec_actions spec) > PLAN_MAX_NODES \<or> length (spec_edges spec) > PLAN_MAX_EDGES \<or> \<not> alloc_ok)
         | PATH_REASON_EDGE_INDEX \<Rightarrow> v = PLAN_DEC_UNKNOWN \<and> \<not> spec_edges_ok spec
         | PATH_REASON_INVALID _ \<Rightarrow> False))"

lemma suppression_explains:
  assumes "spec_fits spec" and "spec_edges_ok spec" and "list_all valid_decision ds" and "length ds = length (spec_actions spec)"
    and "v = plan_verdict_spec (spec_plan spec ds)"
  shows "explains alloc_ok spec ds v (suppression v ds (spec_actions spec))"
proof -
  have rel: "plan_rel (spec_plan spec ds) = spec_rel spec" by (simp add: plan_rel_def spec_plan_def spec_rel_def image_image)
  have ne: "nodes (spec_plan spec ds) \<noteq> []" using assms(1) by (simp add: spec_plan_def spec_fits_def)
  have mem: "(\<exists>x \<in> set (nodes (spec_plan spec ds)). node_decision x = d) \<longleftrightarrow> d \<in> set ds" for d
    using assms(4) by (auto simp: spec_plan_def in_set_conv_nth)
  note v = assms(5) [unfolded plan_verdict_spec_def rel mem]
  consider "v = PLAN_DEC_SATISFIED" | "v = PLAN_DEC_UNSATISFIED" "PLAN_DEC_UNSATISFIED \<in> set ds"
    | "v = PLAN_DEC_UNKNOWN" "PLAN_DEC_UNKNOWN \<notin> set ds \<longrightarrow> \<not> acyclic (spec_rel spec)"
    using v ne by (auto split: if_splits)
  then show ?thesis
  proof cases
    case 1
    then show ?thesis by (simp add: suppression_def explains_def)
  next
    case 2
    then obtain k where k: "find_first_with_decision ds PLAN_DEC_UNSATISFIED = Some k" using find_first_None by (metis option.exhaust)
    then show ?thesis using 2(1) find_first_Some [OF k] assms(4) by (auto simp: suppression_def explains_def)
  next
    case 3
    show ?thesis
    proof (cases "find_first_with_decision ds PLAN_DEC_UNKNOWN")
      case None
      then have "PLAN_DEC_UNKNOWN \<notin> set ds" using find_first_None [of ds] by blast
      with None show ?thesis using 3 by (simp add: suppression_def explains_def)
    next
      case (Some k)
      then show ?thesis using 3(1) find_first_Some [OF Some] assms(4) by (auto simp: suppression_def explains_def)
    qed
  qed
qed

lemma adapter_explains:
  "\<exists>v u' why. warden_adapter_verify alloc_ok clk (Some spec) (Some decider) u sink =
      Some (v, u', emit_decision clk sink v (length (spec_actions spec)) (length (spec_edges spec)) why) \<and>
    explains alloc_ok spec (fst (decisions decider (spec_actions spec) u)) v why"
proof (cases "spec_fits spec \<and> alloc_ok")
  case True
  obtain ds u' where d: "decisions decider (spec_actions spec) u = (ds, u')" by force
  have ds: "list_all valid_decision ds" "length ds = length (spec_actions spec)"
    using decisions_length [of decider "spec_actions spec" u] decisions_valid [of decider "spec_actions spec" u] d by simp_all
  show ?thesis
  proof (cases "spec_edges_ok spec")
    case e: True
    let ?v = "plan_verdict_spec (spec_plan spec ds)"
    show ?thesis
      using adapter_run [of spec clk decider u sink] True d e suppression_explains [OF _ e ds refl, of alloc_ok]
      by (intro exI [of _ ?v] exI [of _ u'] exI [of _ "suppression ?v ds (spec_actions spec)"]) simp
  next
    case e: False
    then show ?thesis
      using adapter_run [of spec clk decider u sink] True d by (intro exI [of _ PLAN_DEC_UNKNOWN] exI [of _ u'] exI [of _ "structural PATH_REASON_EDGE_INDEX"]) (simp add: explains_def)
  qed
next
  case False
  show ?thesis
  proof (cases "spec_actions spec = []")
    case True
    then show ?thesis
      by (intro exI [of _ PLAN_DEC_UNKNOWN] exI [of _ u] exI [of _ "structural PATH_REASON_EMPTY"]) (simp add: warden_adapter_verify_def explains_def Let_def)
  next
    case ne: False
    then show ?thesis
      using False by (intro exI [of _ PLAN_DEC_UNKNOWN] exI [of _ u] exI [of _ "structural PATH_REASON_CAPACITY"])
        (auto simp: warden_adapter_verify_def explains_def Let_def spec_fits_def exec_plan_new_def)
  qed
qed

section \<open>Properties\<close>

text \<open>C15. The adapter is exact: it answers every declared plan, and it answers SATISFIED if and only if the plan has
  between 1 and 1024 actions and at most 4096 edges, every edge joins two different actions of the plan,
  the edges have no cycle, and the decider (asked once about each action, in order) decides every action
  SATISFIED. An allocation failure, like any decision that is no verdict, never authorizes.\<close>

theorem adapter_authorizes_iff:
  "\<exists>v u' sink'. warden_adapter_verify alloc_ok clk (Some spec) (Some decider) u sink = Some (v, u', sink') \<and>
    (v = PLAN_DEC_SATISFIED \<longleftrightarrow> alloc_ok \<and> spec_fits spec \<and> spec_edges_ok spec \<and> acyclic (spec_rel spec) \<and>
       list_all (\<lambda>d. d = PLAN_DEC_SATISFIED) (fst (decisions decider (spec_actions spec) u)))"
  by (rule adapter_authorizes)

text \<open>The log tells the truth: a declared plan with a sink gets exactly one record, and its reason is right. A
  reported node is the first one with the plan's verdict; a cycle is reported only of a cyclic plan whose
  nodes are not UNKNOWN; an empty plan, a plan over capacity and a bad edge are reported as such; and no
  reason is given exactly for an authorized plan.\<close>

theorem adapter_reason_right:
  "\<exists>v u' why. warden_adapter_verify alloc_ok clk (Some spec) (Some decider) u sink =
      Some (v, u', emit_decision clk sink v (length (spec_actions spec)) (length (spec_edges spec)) why) \<and>
    explains alloc_ok spec (fst (decisions decider (spec_actions spec) u)) v why"
  by (rule adapter_explains)

lemma parsed_spec_fits:
  assumes "parsed_ok h" and "pp_actions h \<noteq> []" and "plan_parser_spec (Some h) = Some spec"
  shows "spec_fits spec \<and> spec_edges_ok spec"
  using assms by (auto simp: parsed_ok_def plan_parser_spec_def spec_fits_def parser_limits PLAN_MAX_NODES_def PLAN_MAX_EDGES_def)

text \<open>C16. From file to verdict: whatever a plan file holds, if it loads then its plan is authorized exactly when its
  edges have no cycle and the decider decides every action SATISFIED. The limits of the parser are inside
  those of the evaluator, so a loaded plan is never turned away for its size or its edges.\<close>

theorem parsed_plan_authorized_iff:
  assumes "plan_parser_load_stream stream al = Inr h" and "plan_parser_spec (Some h) = Some spec"
  shows "\<exists>v u' sink'. warden_adapter_verify True clk (Some spec) (Some decider) u sink = Some (v, u', sink') \<and>
    (v = PLAN_DEC_SATISFIED \<longleftrightarrow> acyclic ((\<lambda>e. (from_idx e, to_idx e)) ` set (pp_edges h)) \<and>
       list_all (\<lambda>d. d = PLAN_DEC_SATISFIED) (fst (decisions decider (pp_actions h) u)))"
proof -
  have ok: "parsed_ok h" "pp_actions h \<noteq> []" using loaded_plan_ok [OF assms(1)] by simp_all
  have spec: "spec = \<lparr>spec_actions = pp_actions h, spec_edges = pp_edges h\<rparr>" using assms(2) by (simp add: plan_parser_spec_def)
  show ?thesis
    using adapter_authorizes [of True clk spec decider u sink] parsed_spec_fits [OF ok assms(2)] by (simp add: spec spec_rel_def)
qed

definition allow_all :: "unit decider" where
  "allow_all u a = (PLAN_DEC_SATISFIED, u)"

definition zero_clocks :: clocks where
  "zero_clocks = \<lparr>clk_t0 = \<lparr>tv_sec = 0, tv_nsec = 0\<rparr>, clk_t1 = \<lparr>tv_sec = 0, tv_nsec = 0\<rparr>, clk_sec = 0, clk_nsec = 0\<rparr>"

theorem parsed_plan_authorized_iff_witness:
  "\<exists>h spec sink'. plan_parser_load_stream (Some (plan_text sample_plan)) [] = Inr h \<and> plan_parser_spec (Some h) = Some spec \<and>
    warden_adapter_verify True zero_clocks (Some spec) (Some allow_all) () None = Some (PLAN_DEC_SATISFIED, (), sink')"
proof -
  obtain h where h: "plan_parser_load_stream (Some (plan_text sample_plan)) [] = Inr h" "pp_edges h = pp_edges sample_plan" "pp_actions h = pp_actions sample_plan"
    using plan_text_loads [OF sample_plan_ok] by blast
  obtain spec where spec: "plan_parser_spec (Some h) = Some spec" by (simp add: plan_parser_spec_def)
  have "acyclic {(0::nat, 1)}" by (auto simp: acyclic_def trancl_insert)
  then have a: "acyclic ((\<lambda>e. (from_idx e, to_idx e)) ` set (pp_edges h))" by (simp add: h(2) sample_plan_def)
  have d: "list_all (\<lambda>d. d = PLAN_DEC_SATISFIED) (fst (decisions allow_all (pp_actions h) ()))"
    by (simp add: h(3) sample_plan_def allow_all_def coerce_decision_def)
  from parsed_plan_authorized_iff [OF h(1) spec, of zero_clocks allow_all "()" None] h(1) spec a d show ?thesis by auto
qed

end
