(* ===== verification/Vdp_Glob.thy ===== *)
theory Vdp_Glob
  imports C_Text
begin

text \<open>
  The globs of the certificate checker, \<^verbatim>\<open>src/varek/v1_4/checker/vdp_checker.c\<close>: the tokens of a
  pattern with their 256-bit sets, the parser \<open>parse_glob\<close>, and the matcher, which advances one row
  of the dynamic programme for each byte of the text and stops when no state is alive. The reference
  definition gives each token the bytes it may take; the matcher is proved equal to it, and the parser
  to give tokens that cross a path separator only where the pattern says \<open>**\<close>.
\<close>

unbundle bit_operations_syntax

section \<open>Byte sets\<close>

type_synonym byteset = "8 word list"

definition set_has :: "byteset \<Rightarrow> nat \<Rightarrow> bool" where
  "set_has st b = bit (st ! (b div 8)) (b mod 8)"

definition set_add :: "byteset \<Rightarrow> nat \<Rightarrow> byteset" where
  "set_add st b = st[b div 8 := (st ! (b div 8)) OR push_bit (b mod 8) 1]"

definition empty_set :: byteset where "empty_set = replicate 32 0"

lemma length_set_add [simp]: "length (set_add st b) = length st"
  by (simp add: set_add_def)

lemma set_has_empty [simp]: "b < 256 \<Longrightarrow> \<not> set_has empty_set b"
  by (simp add: set_has_def empty_set_def less_mult_imp_div_less)

lemma length_empty_set [simp]: "length empty_set = 32"
  by (simp add: empty_set_def)

lemma set_has_add [simp]:
  assumes "length st = 32" and "b < 256" and "c < 256"
  shows "set_has (set_add st b) c \<longleftrightarrow> c = b \<or> set_has st c"
proof -
  have b: "b div 8 < 32" "b mod 8 < 8" using assms by auto
  show ?thesis
  proof (cases "b div 8 = c div 8")
    case True
    then have "c = b \<longleftrightarrow> c mod 8 = b mod 8" by (metis div_mult_mod_eq)
    with True b assms(1) show ?thesis
      by (auto simp: set_has_def set_add_def bit_or_iff bit_exp_iff)
  next
    case False
    then show ?thesis using assms(1) by (auto simp: set_has_def set_add_def)
  qed
qed

lemma set_has_fold:
  assumes "length st = 32" and "\<forall>b \<in> set bs. b < 256" and "c < 256"
  shows "set_has (fold (\<lambda>b st. if P b then set_add st b else st) bs st) c \<longleftrightarrow>
    set_has st c \<or> (c \<in> set bs \<and> P c)"
  using assms by (induction bs arbitrary: st) auto

lemma length_set_fold [simp]:
  "length (fold (\<lambda>b st. if P b then set_add st b else st) bs st) = length st"
  by (induction bs arbitrary: st) auto

section \<open>Tokens and the parser\<close>

datatype gtok = G_LIT char | G_SET byteset | G_STAR | G_DSTAR | G_SEGS

abbreviation backslash :: char where "backslash \<equiv> CHR 0x5C"
abbreviation slash :: char where "slash \<equiv> CHR ''/''"

definition VDPC_MAX_STRETCH :: nat where "VDPC_MAX_STRETCH = 32"

text \<open>A byte of a set, or the byte after a backslash.\<close>

definition set_byte :: "char \<Rightarrow> string \<Rightarrow> (char \<times> string) option" where
  "set_byte c p =
     (if c = backslash then (case p of [] \<Rightarrow> None | d # q \<Rightarrow> Some (d, q)) else Some (c, p))"

text \<open>The upper end of an item: the byte after a \<open>-\<close> that does not stand before the closing bracket,
  or the lower end itself.\<close>

definition set_upper :: "char \<Rightarrow> string \<Rightarrow> string + (char \<times> string)" where
  "set_upper lo p =
     (case p of
        m # h # q \<Rightarrow>
          (if m = CHR ''-'' \<and> h \<noteq> CHR '']'' then
             (case set_byte h q of
                None \<Rightarrow> Inl ''glob ends in a lone backslash''
              | Some (hi, q) \<Rightarrow>
                  if byte hi < byte lo then Inl ''bad range in a glob set'' else Inr (hi, q))
           else Inr (lo, p))
      | _ \<Rightarrow> Inr (lo, p))"

lemma set_byte_length: "set_byte c p = Some (d, q) \<Longrightarrow> length q \<le> length p"
  by (auto simp: set_byte_def split: if_splits list.splits)

lemma set_upper_length: "set_upper lo p = Inr (hi, q) \<Longrightarrow> length q \<le> length p"
  by (auto simp: set_upper_def split: if_splits list.splits option.splits dest: set_byte_length)

function set_items :: "bool \<Rightarrow> byteset \<Rightarrow> string \<Rightarrow> string + (byteset \<times> string)" where
  "set_items first m [] = Inl ''unterminated '[' in a glob''"
| "set_items first m (c # p) =
     (if c = CHR '']'' \<and> \<not> first then Inr (m, p)
      else case set_byte c p of
        None \<Rightarrow> Inl ''glob ends in a lone backslash''
      | Some (lo, p1) \<Rightarrow>
          (case set_upper lo p1 of
             Inl e \<Rightarrow> Inl e
           | Inr (hi, p2) \<Rightarrow>
               if list_ex (\<lambda>b. b = byte slash) [byte lo..<Suc (byte hi)] then Inl '''/' in a glob set''
               else set_items False (fold (\<lambda>b m. set_add m b) [byte lo..<Suc (byte hi)] m) p2))"
  by pat_completeness auto
termination
  by (relation "measure (\<lambda>(first, m, p). length p)")
     (auto dest!: set_byte_length set_upper_length)

text \<open>A leading \<open>!\<close> or \<open>^\<close> negates the set; NUL is in no set, and a negated set leaves out the
  separator.\<close>

definition glob_set :: "string \<Rightarrow> string + (byteset \<times> string)" where
  "glob_set p =
     (let neg = (p \<noteq> [] \<and> (hd p = CHR ''!'' \<or> hd p = CHR ''^''));
          p = (if neg then tl p else p)
      in case set_items True empty_set p of
           Inl e \<Rightarrow> Inl e
         | Inr (m, q) \<Rightarrow>
             Inr (fold (\<lambda>b st. if (if neg then \<not> set_has m b \<and> b \<noteq> byte slash else set_has m b)
                                then set_add st b else st) [1..<256] empty_set, q))"

definition any_but_slash :: byteset where
  "any_but_slash = fold (\<lambda>b st. if b \<noteq> byte slash then set_add st b else st) [1..<256] empty_set"

text \<open>One token: its value, whether it counts as a wildcard, whether a \<open>**/\<close> after it is a unit, and
  the rest of the pattern.\<close>

definition glob_token :: "bool \<Rightarrow> char \<Rightarrow> string \<Rightarrow> string + (gtok \<times> bool \<times> bool \<times> string)" where
  "glob_token slash_before ch p =
     (if ch = backslash then
        (case p of [] \<Rightarrow> Inl ''glob ends in a lone backslash'' | c # q \<Rightarrow> Inr (G_LIT c, False, False, q))
      else if ch = CHR ''*'' \<and> p \<noteq> [] \<and> hd p = CHR ''*'' then
        (let q = tl p in
         if q \<noteq> [] \<and> hd q = CHR ''*'' then Inl '''***' in a glob''
         else if slash_before \<and> q \<noteq> [] \<and> hd q = slash then Inr (G_SEGS, True, True, tl q)
         else Inr (G_DSTAR, True, False, q))
      else if ch = CHR ''*'' then Inr (G_STAR, True, False, p)
      else if ch = CHR ''?'' then Inr (G_SET any_but_slash, True, False, p)
      else if ch = CHR ''['' then
        (case glob_set p of Inl e \<Rightarrow> Inl e | Inr (st, q) \<Rightarrow> Inr (G_SET st, True, False, q))
      else Inr (G_LIT ch, False, ch = slash, p))"

definition push_tok :: "allocs \<Rightarrow> gtok list \<Rightarrow> nat \<Rightarrow> gtok \<Rightarrow> (gtok list \<times> nat) option \<times> allocs" where
  "push_tok al v cap t =
     (if length v = cap then
        let nc = (if cap \<noteq> 0 then cap * 2 else 16); (ok, al) = take_alloc al in
        if ok then (Some (v @ [t], nc), al) else (None, al)
      else (Some (v @ [t], cap), al))"

lemma set_items_length: "set_items first m p = Inr (m', q) \<Longrightarrow> length q < length p"
  by (induction first m p rule: set_items.induct)
     (fastforce split: if_splits option.splits sum.splits dest: set_byte_length set_upper_length)+

declare set_items.simps(2) [simp del]

lemma glob_set_length: "glob_set p = Inr (st, q) \<Longrightarrow> length q \<le> length p"
  by (cases p) (auto simp: glob_set_def Let_def split: if_splits sum.splits dest!: set_items_length)

lemma glob_token_length: "glob_token sb ch p = Inr (t, w, sl, q) \<Longrightarrow> length q \<le> length p"
  by (cases p; cases "tl p")
     (auto simp: glob_token_def Let_def split: if_splits sum.splits list.splits dest!: glob_set_length)

function parse_glob_loop ::
    "allocs \<Rightarrow> gtok list \<Rightarrow> nat \<Rightarrow> nat \<Rightarrow> bool \<Rightarrow> string \<Rightarrow> (string + gtok list) \<times> allocs" where
  "parse_glob_loop al v cap wild slash_before [] = (Inr v, al)"
| "parse_glob_loop al v cap wild slash_before (ch # p) =
     (case glob_token slash_before ch p of
        Inl e \<Rightarrow> (Inl e, al)
      | Inr (t, w, sb, q) \<Rightarrow>
          (let wild = (if w then wild + 1 else wild) in
           if wild > VDPC_MAX_STRETCH then (Inl ''more than 32 wildcards in a glob'', al)
           else case push_tok al v cap t of
             (None, al) \<Rightarrow> (Inl ''out of memory'', al)
           | (Some (v, cap), al) \<Rightarrow> parse_glob_loop al v cap wild sb q))"
  by pat_completeness auto
termination
  by (relation "measure (\<lambda>(al, v, cap, wild, sb, p). length p)") (auto dest!: glob_token_length)

definition parse_glob :: "allocs \<Rightarrow> string \<Rightarrow> (string + gtok list) \<times> allocs" where
  "parse_glob al pat = parse_glob_loop al [] 0 0 False pat"

section \<open>The matcher\<close>

definition VDPC_MAX_S :: nat where "VDPC_MAX_S = 4095"
definition MAXG :: nat where "MAXG = VDPC_MAX_S + 3"

fun tok_takes :: "gtok \<Rightarrow> char \<Rightarrow> bool" where
  "tok_takes (G_LIT c) b \<longleftrightarrow> b = c"
| "tok_takes (G_SET st) b \<longleftrightarrow> set_has st (byte b)"
| "tok_takes G_STAR b \<longleftrightarrow> b \<noteq> slash"
| "tok_takes G_DSTAR b \<longleftrightarrow> True"
| "tok_takes G_SEGS b \<longleftrightarrow> True"

fun is_stretch :: "gtok \<Rightarrow> bool" where
  "is_stretch (G_LIT c) \<longleftrightarrow> False"
| "is_stretch (G_SET st) \<longleftrightarrow> False"
| "is_stretch G_STAR \<longleftrightarrow> True"
| "is_stretch G_DSTAR \<longleftrightarrow> True"
| "is_stretch G_SEGS \<longleftrightarrow> True"

text \<open>The first row: \<open>a\<close> is the entry before the tokens that remain.\<close>

primrec first_row :: "bool \<Rightarrow> gtok list \<Rightarrow> bool list" where
  "first_row a [] = []"
| "first_row a (t # g) = (let v = a \<and> is_stretch t in v # first_row v g)"

text \<open>One byte: the entries of the next row after the first, given the entry \<open>nat_j\<close> of it before the
  tokens that remain, and the old rows from that place on. The third component is \<open>any\<close>.\<close>

fun next_row :: "char \<Rightarrow> bool \<Rightarrow> gtok list \<Rightarrow> bool list \<Rightarrow> bool list \<Rightarrow> bool list \<times> bool list \<times> bool" where
  "next_row b nat_j (t # g) (at_j # at_j1 # at') (inside_j # inside') =
     (let inn = (t = G_SEGS \<and> (at_j \<or> inside_j));
          v = (if t = G_SEGS then inn \<and> b = slash
               else if is_stretch t then at_j1 \<and> tok_takes t b
               else at_j \<and> tok_takes t b);
          v = (v \<or> (nat_j \<and> is_stretch t));
          (nat', ninside', any) = next_row b v g (at_j1 # at') inside'
      in (v # nat', inn # ninside', v \<or> inn \<or> any))"
| "next_row b nat_j g at' inside' = ([], [False], False)"

primrec glob_rows :: "gtok list \<Rightarrow> bool list \<Rightarrow> bool list \<Rightarrow> string \<Rightarrow> bool" where
  "glob_rows g at' inside' [] = at' ! length g"
| "glob_rows g at' inside' (b # s) =
     (let (nat', ninside', any) = next_row b False g at' inside' in
      if any then glob_rows g (False # nat') ninside' s else False)"

definition vdpc_glob_match :: "gtok list \<Rightarrow> string \<Rightarrow> bool" where
  "vdpc_glob_match g s =
     (if length g + 1 > MAXG then False
      else glob_rows g (True # first_row True g) (replicate (length g + 1) False) s)"

section \<open>What the tokens match\<close>

text \<open>The bytes a token may take, and the strings a list of tokens matches.\<close>

fun tok_span :: "gtok \<Rightarrow> string \<Rightarrow> bool" where
  "tok_span (G_LIT c) w \<longleftrightarrow> w = [c]"
| "tok_span (G_SET st) w \<longleftrightarrow> length w = 1 \<and> set_has st (byte (hd w))"
| "tok_span G_STAR w \<longleftrightarrow> slash \<notin> set w"
| "tok_span G_DSTAR w \<longleftrightarrow> True"
| "tok_span G_SEGS w \<longleftrightarrow> w = [] \<or> last w = slash"

primrec toks_match :: "gtok list \<Rightarrow> string \<Rightarrow> bool" where
  "toks_match [] s \<longleftrightarrow> s = []"
| "toks_match (t # g) s \<longleftrightarrow> (\<exists>k \<le> length s. tok_span t (take k s) \<and> toks_match g (drop k s))"

lemma toks_match_Cons: "toks_match (t # g) s \<longleftrightarrow> (\<exists>u v. s = u @ v \<and> tok_span t u \<and> toks_match g v)"
  by (metis append_eq_conv_conj append_take_drop_id le_iff_add length_append toks_match.simps(2))

declare toks_match.simps(2) [simp del]

lemma toks_match_append:
  "toks_match (g @ h) s \<longleftrightarrow> (\<exists>u v. s = u @ v \<and> toks_match g u \<and> toks_match h v)"
proof (induction g arbitrary: s)
  case Nil
  then show ?case by simp
next
  case (Cons t g)
  have "toks_match ((t # g) @ h) s \<longleftrightarrow>
      (\<exists>u v. s = u @ v \<and> tok_span t u \<and> (\<exists>v1 v2. v = v1 @ v2 \<and> toks_match g v1 \<and> toks_match h v2))"
    by (simp add: toks_match_Cons Cons.IH)
  also have "\<dots> \<longleftrightarrow> (\<exists>u v. s = u @ v \<and> toks_match (t # g) u \<and> toks_match h v)"
    by (simp add: toks_match_Cons) (metis append.assoc)
  finally show ?case .
qed

lemma toks_match_single [simp]: "toks_match [t] s \<longleftrightarrow> tok_span t s"
  by (auto simp: toks_match_Cons)

lemma toks_match_snoc:
  "toks_match (g @ [t]) s \<longleftrightarrow> (\<exists>u v. s = u @ v \<and> toks_match g u \<and> tok_span t v)"
  by (simp add: toks_match_append)

lemma tok_span_Nil [simp]: "tok_span t [] \<longleftrightarrow> is_stretch t"
  by (cases t) auto

lemma toks_match_snoc_Nil [simp]: "toks_match (g @ [t]) [] \<longleftrightarrow> toks_match g [] \<and> is_stretch t"
  by (simp add: toks_match_snoc)

text \<open>A text one byte longer: the last token takes nothing, or its bytes end with that byte.\<close>

lemma toks_match_snoc_snoc:
  "toks_match (g @ [t]) (s @ [b]) \<longleftrightarrow>
    (toks_match g (s @ [b]) \<and> is_stretch t) \<or>
    (\<exists>u v. s = u @ v \<and> toks_match g u \<and> tok_span t (v @ [b]))"
proof -
  have "toks_match (g @ [t]) (s @ [b]) \<longleftrightarrow>
      (\<exists>u v. s @ [b] = u @ v \<and> toks_match g u \<and> tok_span t v)"
    by (rule toks_match_snoc)
  also have "\<dots> \<longleftrightarrow> (\<exists>u v. s @ [b] = u @ v \<and> toks_match g u \<and> tok_span t v \<and> v = []) \<or>
      (\<exists>u v. s @ [b] = u @ v \<and> toks_match g u \<and> tok_span t v \<and> v \<noteq> [])"
    by blast
  also have "(\<exists>u v. s @ [b] = u @ v \<and> toks_match g u \<and> tok_span t v \<and> v \<noteq> []) \<longleftrightarrow>
      (\<exists>u v. s = u @ v \<and> toks_match g u \<and> tok_span t (v @ [b]))"
  proof
    assume "\<exists>u v. s @ [b] = u @ v \<and> toks_match g u \<and> tok_span t v \<and> v \<noteq> []"
    then obtain u v where v: "s @ [b] = u @ v" "toks_match g u" "tok_span t v" "v \<noteq> []" by blast
    then have "s = u @ butlast v" "b = last v" by (metis butlast_append butlast_snoc, metis last_appendR last_snoc)
    with v show "\<exists>u v. s = u @ v \<and> toks_match g u \<and> tok_span t (v @ [b])"
      by (intro exI [of _ u] exI [of _ "butlast v"]) simp
  next
    assume "\<exists>u v. s = u @ v \<and> toks_match g u \<and> tok_span t (v @ [b])"
    then obtain u v where "s = u @ v" "toks_match g u" "tok_span t (v @ [b])" by blast
    then show "\<exists>u v. s @ [b] = u @ v \<and> toks_match g u \<and> tok_span t v \<and> v \<noteq> []"
      by (intro exI [of _ u] exI [of _ "v @ [b]"]) simp
  qed
  finally show ?thesis by simp
qed

definition inside :: "gtok list \<Rightarrow> string \<Rightarrow> bool" where
  "inside g s \<longleftrightarrow> (\<exists>u v. s = u @ v \<and> v \<noteq> [] \<and> toks_match g u)"

lemma inside_snoc: "inside g (s @ [b]) \<longleftrightarrow> toks_match g s \<or> inside g s"
proof
  assume "inside g (s @ [b])"
  then obtain u v where v: "s @ [b] = u @ v" "v \<noteq> []" "toks_match g u" by (auto simp: inside_def)
  then have "s = u @ butlast v" by (metis butlast_append butlast_snoc)
  with v(3) show "toks_match g s \<or> inside g s"
    unfolding inside_def by (cases "butlast v = []") auto
next
  assume "toks_match g s \<or> inside g s"
  then show "inside g (s @ [b])"
    unfolding inside_def by (metis append.assoc append_Nil2 snoc_eq_iff_butlast)
qed

lemma inside_Nil [simp]: "\<not> inside g []"
  by (simp add: inside_def)

lemma match_or_inside: "toks_match g s \<or> inside g s \<longleftrightarrow> (\<exists>u v. s = u @ v \<and> toks_match g u)"
  unfolding inside_def by (metis append_Nil2)

text \<open>The recurrence the rows follow.\<close>

lemma row_entry:
  "toks_match (g @ [t]) (s @ [b]) \<longleftrightarrow>
    (if t = G_SEGS then (toks_match g s \<or> inside g s) \<and> b = slash
     else if is_stretch t then toks_match (g @ [t]) s \<and> tok_takes t b
     else toks_match g s \<and> tok_takes t b) \<or>
    (toks_match g (s @ [b]) \<and> is_stretch t)"
proof -
  have "(\<exists>u v. s = u @ v \<and> toks_match g u \<and> tok_span t (v @ [b])) \<longleftrightarrow>
      (if t = G_SEGS then (toks_match g s \<or> inside g s) \<and> b = slash
       else if is_stretch t then toks_match (g @ [t]) s \<and> tok_takes t b
       else toks_match g s \<and> tok_takes t b)"
    by (cases t) (auto simp: toks_match_snoc match_or_inside)
  then show ?thesis unfolding toks_match_snoc_snoc by blast
qed

section \<open>The matcher is the reference\<close>

text \<open>The rows the matcher should hold after \<open>s\<close>, from the tokens after \<open>pre\<close> on.\<close>

primrec at_row :: "gtok list \<Rightarrow> gtok list \<Rightarrow> string \<Rightarrow> bool list" where
  "at_row pre [] s = []"
| "at_row pre (t # g) s = toks_match (pre @ [t]) s # at_row (pre @ [t]) g s"

primrec inside_row :: "gtok list \<Rightarrow> gtok list \<Rightarrow> string \<Rightarrow> bool list" where
  "inside_row pre [] s = [False]"
| "inside_row pre (t # g) s = (t = G_SEGS \<and> inside pre s) # inside_row (pre @ [t]) g s"

lemma first_row_eq: "first_row (toks_match pre []) g = at_row pre g []"
  by (induction g arbitrary: pre) (auto simp: Let_def simp flip: toks_match_snoc_Nil)

lemma inside_row_Nil: "inside_row pre g [] = replicate (length g + 1) False"
  by (induction g arbitrary: pre) auto

lemma at_row_last: "(toks_match pre s # at_row pre g s) ! length g = toks_match (pre @ g) s"
  by (induction g arbitrary: pre) auto

lemma next_row_eq:
  "next_row b (toks_match pre (s @ [b])) g (toks_match pre s # at_row pre g s) (inside_row pre g s) =
    (at_row pre g (s @ [b]), inside_row pre g (s @ [b]),
     True \<in> set (at_row pre g (s @ [b])) \<or> True \<in> set (inside_row pre g (s @ [b])))"
proof (induction g arbitrary: pre)
  case Nil
  then show ?case by simp
next
  case (Cons t g)
  let ?v = "toks_match (pre @ [t]) (s @ [b])"
  have v: "((if t = G_SEGS then (t = G_SEGS \<and> (toks_match pre s \<or> t = G_SEGS \<and> inside pre s)) \<and> b = slash
      else if is_stretch t then toks_match (pre @ [t]) s \<and> tok_takes t b
      else toks_match pre s \<and> tok_takes t b) \<or> (toks_match pre (s @ [b]) \<and> is_stretch t)) = ?v"
    unfolding row_entry [of pre t s b] by simp
  show ?case
    by (simp only: at_row.simps inside_row.simps next_row.simps Let_def v Cons.IH prod.case)
       (auto simp: inside_snoc)
qed

lemma all_false:
  "True \<notin> set xs \<Longrightarrow> True \<notin> set ys \<Longrightarrow> length xs = length g \<Longrightarrow> length ys = length g + 1 \<Longrightarrow>
    next_row b False g (False # xs) ys = (map (\<lambda>_. False) g, map (\<lambda>_. False) g @ [False], False)"
proof (induction g arbitrary: xs ys)
  case Nil
  then show ?case by simp
next
  case (Cons t g)
  then obtain x xs' y ys' where "xs = x # xs'" "ys = y # ys'" by (cases xs; cases ys) auto
  with Cons show ?case by (simp add: Let_def)
qed

lemma length_at_row [simp]: "length (at_row pre g s) = length g"
  by (induction g arbitrary: pre) auto

lemma length_inside_row [simp]: "length (inside_row pre g s) = Suc (length g)"
  by (induction g arbitrary: pre) auto

text \<open>A dead row stays dead: stopping early loses nothing.\<close>

lemma dead_row:
  assumes "True \<notin> set (at_row [] g s)" and "True \<notin> set (inside_row [] g s)" and "s \<noteq> []"
  shows "\<not> toks_match g (s @ w)"
  using assms
proof (induction w arbitrary: s)
  case Nil
  have "(toks_match [] s # at_row [] g s) ! length g = toks_match g s"
    using at_row_last [of "[]" s g] by simp
  with Nil show ?case by (cases "length g") (auto simp: in_set_conv_nth)
next
  case (Cons b w)
  have "next_row b False g (False # at_row [] g s) (inside_row [] g s) =
      (map (\<lambda>_. False) g, map (\<lambda>_. False) g @ [False], False)"
    using Cons.prems by (intro all_false) auto
  then have "True \<notin> set (at_row [] g (s @ [b]))" "True \<notin> set (inside_row [] g (s @ [b]))"
    using next_row_eq [of b "[]" s g] Cons.prems(3) by auto
  from Cons.IH [OF this] show ?case by simp
qed

lemma glob_rows_eq:
  "glob_rows g (toks_match [] s # at_row [] g s) (inside_row [] g s) w \<longleftrightarrow> toks_match g (s @ w)"
proof (induction w arbitrary: s)
  case Nil
  then show ?case using at_row_last [of "[]" s g] by simp
next
  case (Cons b w)
  show ?case
  proof (cases "True \<in> set (at_row [] g (s @ [b])) \<or> True \<in> set (inside_row [] g (s @ [b]))")
    case True
    then show ?thesis using Cons.IH [of "s @ [b]"] next_row_eq [of b "[]" s g] by simp
  next
    case False
    then have "\<not> toks_match g ((s @ [b]) @ w)" using dead_row by blast
    with False show ?thesis using next_row_eq [of b "[]" s g] by simp
  qed
qed

lemma vdpc_glob_match_eq:
  assumes "length g \<le> VDPC_MAX_S + 2"
  shows "vdpc_glob_match g s \<longleftrightarrow> toks_match g s"
  using assms glob_rows_eq [of g "[]" s] first_row_eq [of "[]" g] inside_row_Nil [of "[]" g]
  by (simp add: vdpc_glob_match_def MAXG_def)

section \<open>What the parser builds\<close>

definition tok_ok :: "gtok \<Rightarrow> bool" where
  "tok_ok t = (case t of
     G_SET st \<Rightarrow> length st = 32 \<and> \<not> set_has st 0 \<and> \<not> set_has st (byte slash)
   | _ \<Rightarrow> True)"

lemma tok_ok_simps [simp]: "tok_ok (G_LIT c)" "tok_ok G_STAR" "tok_ok G_DSTAR" "tok_ok G_SEGS"
  by (simp_all add: tok_ok_def)

fun is_wild :: "gtok \<Rightarrow> bool" where
  "is_wild (G_LIT c) \<longleftrightarrow> False"
| "is_wild t \<longleftrightarrow> True"

definition wilds :: "gtok list \<Rightarrow> nat" where
  "wilds g = length (filter is_wild g)"

text \<open>A \<open>/**/\<close> unit stands after a separator or another unit.\<close>

primrec segs_ok :: "bool \<Rightarrow> gtok list \<Rightarrow> bool" where
  "segs_ok sb [] \<longleftrightarrow> True"
| "segs_ok sb (t # g) \<longleftrightarrow> (t = G_SEGS \<longrightarrow> sb) \<and> segs_ok (t = G_LIT slash \<or> t = G_SEGS) g"

definition glob_ok :: "gtok list \<Rightarrow> bool" where
  "glob_ok g \<longleftrightarrow> list_all tok_ok g \<and> segs_ok False g \<and> wilds g \<le> VDPC_MAX_STRETCH"

lemma segs_ok_snoc:
  "segs_ok sb (g @ [t]) \<longleftrightarrow>
    segs_ok sb g \<and> (t = G_SEGS \<longrightarrow> (if g = [] then sb else last g = G_LIT slash \<or> last g = G_SEGS))"
  by (induction g arbitrary: sb) auto

lemma byte_slash [simp]: "byte slash = 47"
  by (simp add: byte_def)

lemma tok_ok_any_but_slash [simp]: "tok_ok (G_SET any_but_slash)"
  using set_has_fold [of empty_set "[1..<256]" 0 "\<lambda>b. b \<noteq> 47"]
    set_has_fold [of empty_set "[1..<256]" 47 "\<lambda>b. b \<noteq> 47"]
  by (simp add: tok_ok_def any_but_slash_def)

lemma set_has_any_but_slash: "set_has any_but_slash (byte c) \<longleftrightarrow> c \<noteq> CHR 0x00 \<and> c \<noteq> slash"
proof -
  have "set_has any_but_slash (byte c) \<longleftrightarrow> byte c \<in> set [1..<256] \<and> byte c \<noteq> byte slash"
    unfolding any_but_slash_def by (subst set_has_fold) auto
  moreover have "byte c = 0 \<longleftrightarrow> c = CHR 0x00" using byte_inject [of c "CHR 0x00"] by (simp add: byte_def)
  moreover have "byte c = byte slash \<longleftrightarrow> c = slash" by (rule byte_inject)
  ultimately show ?thesis by auto
qed

lemma fold_add_sets:
  "length m = 32 \<Longrightarrow> \<forall>b \<in> set bs. b < 256 \<Longrightarrow> c < 256 \<Longrightarrow>
    set_has (fold (\<lambda>b m. set_add m b) bs m) c \<longleftrightarrow> set_has m c \<or> c \<in> set bs"
  using set_has_fold [of m bs c "\<lambda>_. True"] by simp

lemma length_fold_add [simp]: "length (fold (\<lambda>b m. set_add m b) bs m) = length m"
  using length_set_fold [of "\<lambda>_. True" bs m] by simp

lemma upt_byte: "b \<in> set [byte lo..<Suc (byte hi)] \<Longrightarrow> b < 256"
  using byte_less_256 [of hi] by (auto simp del: byte_less_256)

text \<open>The items of a set never hold the separator.\<close>

lemma set_items_ok:
  "set_items first m p = Inr (m', q) \<Longrightarrow> length m = 32 \<Longrightarrow> \<not> set_has m 47 \<Longrightarrow>
    length m' = 32 \<and> \<not> set_has m' 47"
proof (induction first m p rule: set_items.induct)
  case (1 first m)
  then show ?case by simp
next
  case (2 first m c p)
  show ?case
  proof (cases "c = CHR '']'' \<and> \<not> first")
    case True
    with 2 show ?thesis by (simp add: set_items.simps(2))
  next
    case False
    with "2.prems" obtain lo p1 hi p2 where st: "set_byte c p = Some (lo, p1)"
      "set_upper lo p1 = Inr (hi, p2)" "\<not> list_ex (\<lambda>b. b = byte slash) [byte lo..<Suc (byte hi)]"
      "set_items False (fold (\<lambda>b m. set_add m b) [byte lo..<Suc (byte hi)] m) p2 = Inr (m', q)"
      by (auto simp: set_items.simps(2) split: option.splits sum.splits if_splits)
    have "47 \<notin> set [byte lo..<Suc (byte hi)]" using st(3) unfolding list_ex_iff byte_slash by blast
    then have "\<not> set_has (fold (\<lambda>b m. set_add m b) [byte lo..<Suc (byte hi)] m) 47"
      using "2.prems"(2,3) upt_byte [of _ lo hi] by (subst fold_add_sets) (blast | simp)+
    with 2 False st show ?thesis by (metis length_fold_add)
  qed
qed

lemma glob_set_ok:
  assumes "glob_set p = Inr (st, q)"
  shows "tok_ok (G_SET st)"
proof -
  let ?neg = "p \<noteq> [] \<and> (hd p = CHR ''!'' \<or> hd p = CHR ''^'')"
  obtain m where m: "set_items True empty_set (if ?neg then tl p else p) = Inr (m, q)"
    and st: "st = fold (\<lambda>b st. if (if ?neg then \<not> set_has m b \<and> b \<noteq> 47 else set_has m b)
      then set_add st b else st) [1..<256] empty_set"
    using assms unfolding glob_set_def Let_def byte_slash by (auto split: sum.splits simp del: One_nat_def)
  have "\<not> set_has m 47" using set_items_ok [OF m] by simp
  then show ?thesis unfolding tok_ok_def st by (auto simp: set_has_fold)
qed

lemma glob_token_ok:
  assumes "glob_token sb ch p = Inr (t, w, sb', q)"
  shows "tok_ok t" and "w = is_wild t" and "t = G_SEGS \<longrightarrow> sb"
    and "sb' \<longrightarrow> t = G_LIT slash \<or> t = G_SEGS"
proof -
  have "tok_ok t \<and> w = is_wild t \<and> (t = G_SEGS \<longrightarrow> sb) \<and> (sb' \<longrightarrow> t = G_LIT slash \<or> t = G_SEGS)"
    using assms by (auto simp: glob_token_def Let_def split: if_splits list.splits sum.splits dest: glob_set_ok)
  then show "tok_ok t" "w = is_wild t" "t = G_SEGS \<longrightarrow> sb" "sb' \<longrightarrow> t = G_LIT slash \<or> t = G_SEGS" by auto
qed

lemma push_tok_Some: "push_tok al v cap t = (Some (v', cap'), al') \<Longrightarrow> v' = v @ [t]"
  by (auto simp: push_tok_def Let_def split: if_splits prod.splits)

lemma parse_glob_loop_ok:
  assumes "parse_glob_loop al v cap wild sb p = (Inr g, al')"
    and "glob_ok v" and "wilds v = wild" and "sb \<longrightarrow> v \<noteq> [] \<and> (last v = G_LIT slash \<or> last v = G_SEGS)"
  shows "glob_ok g \<and> length g \<le> length v + length p"
  using assms
proof (induction al v cap wild sb p rule: parse_glob_loop.induct)
  case (1 al v cap wild sb)
  then show ?case by simp
next
  case (2 al v cap wild sb ch p)
  obtain t w sb' q where tok: "glob_token sb ch p = Inr (t, w, sb', q)"
    using "2.prems"(1) by (auto split: sum.splits)
  define wild' where "wild' = (if w then wild + 1 else wild)"
  have le: "\<not> wild' > VDPC_MAX_STRETCH"
    using "2.prems"(1) by (auto simp: tok wild'_def Let_def split: if_splits)
  obtain v' cap' al1 where push: "push_tok al v cap t = (Some (v', cap'), al1)"
    using "2.prems"(1) le by (auto simp: tok wild'_def Let_def split: if_splits prod.splits option.splits)
  have rec: "parse_glob_loop al1 v' cap' wild' sb' q = (Inr g, al')"
    using "2.prems"(1) le by (simp add: tok push wild'_def Let_def)
  have v': "v' = v @ [t]" using push by (rule push_tok_Some)
  have w: "wilds v' = wild'" using "2.prems"(3) glob_token_ok(2) [OF tok] by (simp add: v' wilds_def wild'_def)
  have "glob_ok v'"
    using "2.prems"(2,4) glob_token_ok [OF tok] le w by (auto simp: v' glob_ok_def segs_ok_snoc)
  moreover have "sb' \<longrightarrow> v' \<noteq> [] \<and> (last v' = G_LIT slash \<or> last v' = G_SEGS)"
    using glob_token_ok(4) [OF tok] by (simp add: v')
  ultimately have "glob_ok g \<and> length g \<le> length v' + length q"
    using "2.IH" [OF tok refl refl refl wild'_def le push [symmetric] refl refl] rec w
    by blast
  then show ?case using glob_token_length [OF tok] by (simp add: v')
qed

lemma parse_glob_ok:
  "parse_glob al p = (Inr g, al') \<Longrightarrow> glob_ok g \<and> length g \<le> length p"
  unfolding parse_glob_def
  by (drule parse_glob_loop_ok) (auto simp: glob_ok_def wilds_def)

text \<open>Only \<open>**\<close> crosses a separator.\<close>

definition crosses :: "gtok \<Rightarrow> bool" where
  "crosses t \<longleftrightarrow> t = G_DSTAR \<or> t = G_SEGS"

lemma count_list_append_gen: "count_list (u @ v) x = count_list u x + count_list v x"
  by (induction u) auto

lemma tok_span_separators:
  assumes "tok_ok t" and "\<not> crosses t" and "tok_span t w"
  shows "count_list w slash = (if t = G_LIT slash then 1 else 0)"
proof (cases t)
  case (G_LIT c)
  with assms show ?thesis by auto
next
  case (G_SET st)
  with assms(3) obtain c where c: "w = [c]" "set_has st (byte c)"
    by (cases w) auto
  with assms(1) G_SET have "c \<noteq> slash" by (auto simp: tok_ok_def)
  with c G_SET show ?thesis by simp
qed (use assms in \<open>auto simp: crosses_def count_list_0_iff\<close>)

lemma toks_match_separators:
  "toks_match g s \<Longrightarrow> list_all tok_ok g \<Longrightarrow> \<not> list_ex crosses g \<Longrightarrow>
    count_list s slash = count_list g (G_LIT slash)"
proof (induction g arbitrary: s)
  case Nil
  then show ?case by simp
next
  case (Cons t g)
  then obtain u v where "s = u @ v" "tok_span t u" "toks_match g v" by (auto simp: toks_match_Cons)
  with Cons tok_span_separators [of t u] show ?case by (simp add: count_list_append_gen)
qed

lemma toks_match_append_lits:
  "toks_match (map G_LIT t) s \<longleftrightarrow> s = t"
proof (induction t arbitrary: s)
  case Nil
  then show ?case by simp
next
  case (Cons c t)
  then show ?case by (auto simp: toks_match_Cons)
qed

section \<open>Quoting\<close>

text \<open>A backslash before each byte the parser reads specially.\<close>

definition glob_special :: "char \<Rightarrow> bool" where
  "glob_special c \<longleftrightarrow> c = backslash \<or> c = CHR ''*'' \<or> c = CHR ''?'' \<or> c = CHR ''[''"

definition glob_quote :: "string \<Rightarrow> string" where
  "glob_quote t = concat (map (\<lambda>c. if glob_special c then [backslash, c] else [c]) t)"

lemma push_tok_succeeds: "\<exists>cap'. push_tok [] v cap t = (Some (v @ [t], cap'), [])"
  by (simp add: push_tok_def Let_def)

lemma parse_glob_loop_quote:
  "wild \<le> VDPC_MAX_STRETCH \<Longrightarrow>
    parse_glob_loop [] v cap wild sb (glob_quote t) = (Inr (v @ map G_LIT t), [])"
proof (induction t arbitrary: v cap sb)
  case Nil
  then show ?case by (simp add: glob_quote_def)
next
  case (Cons c t)
  obtain cap' where push: "push_tok [] v cap (G_LIT c) = (Some (v @ [G_LIT c], cap'), [])"
    using push_tok_succeeds by blast
  obtain ch p sb' where "glob_quote (c # t) = ch # p" and
    tok: "glob_token sb ch p = Inr (G_LIT c, False, sb', glob_quote t)"
    by (cases "glob_special c") (auto simp: glob_quote_def glob_token_def glob_special_def)
  with Cons push show ?case by (simp add: Let_def)
qed

section \<open>The properties\<close>

text \<open>C38. The row-by-row matcher with its early stop decides exactly the declarative reading of the tokens,
  for every glob that fits the rows (each policy glob does).\<close>

theorem glob_match_reference:
  assumes "length g \<le> VDPC_MAX_S + 2"
  shows "vdpc_glob_match g s \<longleftrightarrow> toks_match g s"
  using assms by (rule vdpc_glob_match_eq)

theorem glob_match_reference_witness:
  "length [G_LIT CHR ''a'', G_STAR] \<le> VDPC_MAX_S + 2 \<and>
    (vdpc_glob_match [G_LIT CHR ''a'', G_STAR] ''abc'' \<longleftrightarrow> toks_match [G_LIT CHR ''a'', G_STAR] ''abc'')"
  using glob_match_reference [of "[G_LIT CHR ''a'', G_STAR]" "''abc''"] by (simp add: VDPC_MAX_S_def)



text \<open>A quoted text is a glob that matches that text and no other.\<close>

theorem glob_quote_exact:
  assumes "length t \<le> VDPC_MAX_S"
  shows "\<exists>g. parse_glob [] (glob_quote t) = (Inr g, []) \<and> (\<forall>s. vdpc_glob_match g s \<longleftrightarrow> s = t)"
  using assms parse_glob_loop_quote [of 0 "[]" 0 False t]
  by (simp add: parse_glob_def vdpc_glob_match_eq toks_match_append_lits)

theorem glob_quote_exact_witness:
  "length ''a*b'' \<le> VDPC_MAX_S \<and>
    (\<exists>g. parse_glob [] (glob_quote ''a*b'') = (Inr g, []) \<and> (\<forall>s. vdpc_glob_match g s \<longleftrightarrow> s = ''a*b''))"
  using glob_quote_exact [of "''a*b''"] by (simp add: VDPC_MAX_S_def)

end
