(* ===== verification/Vdp_Rules.thy ===== *)
theory Vdp_Rules
  imports Vdp_Glob "HOL-Library.Sublist"
begin

text \<open>
  The rules of the certificate checker, \<^verbatim>\<open>src/varek/v1_4/checker/vdp_checker.c\<close>: the flags of
  \<open>open\<close>, the parsed rule and policy, the matchers of a rule's string atom, and the witness a
  certificate gives for it. The reference is what a rule matches in terms of prefixes, suffixes, sublists
  and glob tokens; the matchers with their pre-filters are proved equal to it.
\<close>

unbundle bit_operations_syntax

section \<open>Flags\<close>

type_synonym u32 = "32 word"

definition FLAGS :: "(string \<times> u32) list" where
  "FLAGS =
    [(''O_CREAT'', 64), (''O_EXCL'', 128), (''O_NOCTTY'', 256),
     (''O_TRUNC'', 512), (''O_APPEND'', 1024), (''O_NONBLOCK'', 2048),
     (''O_DSYNC'', 4096), (''O_ASYNC'', 8192), (''O_DIRECT'', 16384),
     (''O_LARGEFILE'', 32768), (''O_DIRECTORY'', 65536), (''O_NOFOLLOW'', 131072),
     (''O_NOATIME'', 262144), (''O_CLOEXEC'', 524288), (''O_SYNC'', 1048576),
     (''O_PATH'', 2097152), (''O_TMPFILE'', 4194304)]"

definition ACCMODE :: u32 where "ACCMODE = 3"

definition known_bits :: u32 where
  "known_bits = fold (\<lambda>(name, bit) k. k OR bit) FLAGS ACCMODE"

definition flag_named :: "string \<Rightarrow> u32" where
  "flag_named s = (case map_of FLAGS s of None \<Rightarrow> 0 | Some b \<Rightarrow> b)"

lemma known_bits_eq: "known_bits = 8388547"
  by (simp add: known_bits_def FLAGS_def ACCMODE_def)

lemma known_AND_3 [simp]: "known_bits AND 3 = 3"
  by (simp add: known_bits_eq)

lemma flag_named_known: "flag_named s AND known_bits = flag_named s"
proof (cases "map_of FLAGS s")
  case None
  then show ?thesis by (simp add: flag_named_def)
next
  case (Some b)
  then have "(s, b) \<in> set FLAGS" by (rule map_of_SomeD)
  moreover have "list_all (\<lambda>(n, b). b AND known_bits = b) FLAGS"
    by (simp add: FLAGS_def known_bits_eq)
  ultimately show ?thesis using Some by (fastforce simp: list_all_iff flag_named_def)
qed

section \<open>Rules and policies\<close>

definition VDPC_PATH :: int where "VDPC_PATH = 0"
definition VDPC_HOST :: int where "VDPC_HOST = 1"
definition VDPC_EXEC :: int where "VDPC_EXEC = 2"
definition VDPC_REQUEST :: int where "VDPC_REQUEST = 3"
definition VDPC_MCP :: int where "VDPC_MCP = 4"

lemmas kind_defs = VDPC_PATH_def VDPC_HOST_def VDPC_EXEC_def VDPC_REQUEST_def VDPC_MCP_def

definition VDPC_MAX_RULES :: nat where "VDPC_MAX_RULES = 512"

datatype vmatch = M_PREFIX | M_EXACT | M_SUFFIX | M_CONTAINS | M_GLOB | M_HOST

record vdpc_rule =
  r_allow :: bool
  r_kind :: int
  r_match :: vmatch
  r_c :: string
  r_g :: "gtok list"
  r_npre :: nat
  r_nsuf :: nat
  r_minlen :: nat
  r_fixed :: bool
  r_mask :: u32
  r_value :: u32
  r_line :: nat
  r_portless :: bool
  r_name :: bool
  r_wild :: bool
  r_names :: nat
  r_rate :: nat
  r_max_body :: nat
  r_rhost :: string
  r_qmode :: nat
  r_rwild :: bool
  r_rport :: nat
  r_cred :: nat
  r_hdr :: string
  r_scheme :: string
  r_subagent :: string
  r_subj :: int
  r_csubj :: int
  r_confined :: bool
  r_mcp_server :: bool
  r_sha256 :: string

record vdpc_cred =
  cr_name :: string
  cr_store :: nat
  cr_ref :: string
  cr_line :: nat
  cr_audience :: string
  cr_opaque :: bool

record vdpc_issuer =
  is_iss :: string
  is_aud :: string
  is_jwks :: string
  is_line :: nat

record vdpc_spiffe =
  sp_domain :: string
  sp_bundle :: string
  sp_line :: nat

record vdpc_mcpres =
  mr_url :: string
  mr_aud :: string
  mr_line :: nat

record vdpc_subject =
  sj_name :: string
  sj_rule :: nat
  sj_mcp :: bool
  sj_line :: nat

record vdpc_policy =
  p_rules :: "vdpc_rule list"
  p_sha256 :: "8 word list"
  p_proxy :: bool
  p_proxy_ports :: "nat list"
  p_proxy_up_host :: string
  p_proxy_up_port :: nat
  p_proxy_inspect :: bool
  p_proxy_pass :: "string list"
  p_launches :: bool
  p_open_as_agent :: bool
  p_creds :: "vdpc_cred list"
  p_issuers :: "vdpc_issuer list"
  p_spiffe :: "vdpc_spiffe list"
  p_require_obo :: bool
  p_require_plan :: bool
  p_subjects :: "vdpc_subject list"
  p_mcpres :: "vdpc_mcpres list"

record vdpc_cert =
  c_r :: int
  c_wkind :: int
  c_off :: nat
  c_nspan :: nat
  c_span :: "(nat \<times> nat) list"

text \<open>The pre-filters of a glob, read off its tokens.\<close>

definition is_lit :: "gtok \<Rightarrow> bool" where "is_lit t \<longleftrightarrow> (case t of G_LIT c \<Rightarrow> True | _ \<Rightarrow> False)"

definition glob_filters :: "vdpc_rule \<Rightarrow> vdpc_rule" where
  "glob_filters r = r\<lparr>
     r_minlen := length (filter (\<lambda>t. \<not> is_stretch t) (r_g r)),
     r_fixed := list_all (\<lambda>t. \<not> is_stretch t) (r_g r),
     r_npre := length (takeWhile is_lit (r_g r)),
     r_nsuf := length (takeWhile is_lit (rev (r_g r)))\<rparr>"

section \<open>Matchers\<close>

text \<open>The first occurrence of a string in another, as \<open>memmem\<close> finds it.\<close>

fun memmem :: "string \<Rightarrow> string \<Rightarrow> bool" where
  "memmem [] c \<longleftrightarrow> c = []"
| "memmem (b # s) c \<longleftrightarrow> take (length c) (b # s) = c \<or> memmem s c"

function quad_parts :: "string \<Rightarrow> nat \<Rightarrow> bool" where
  "quad_parts c parts =
     (if parts \<ge> 4 then c = []
      else
        let d = takeWhile isdigit c; rest = drop (length d) c in
        if length d > 3 then False
        else if d = [] \<or> foldl (\<lambda>v b. v * 10 + (byte b - 48)) 0 d > 255 \<or> (hd d = CHR ''0'' \<and> length d > 1) then False
        else if parts + 1 < 4 then
          (if rest = [] \<or> hd rest \<noteq> CHR ''.'' then False else quad_parts (tl rest) (parts + 1))
        else quad_parts rest (parts + 1))"
  by pat_completeness auto
termination by (relation "measure (\<lambda>(c, parts). 4 - parts)") auto

definition ipv4_quad :: "string \<Rightarrow> bool" where
  "ipv4_quad c = quad_parts c 0"

definition tok_byte :: "gtok \<Rightarrow> char" where
  "tok_byte t = (case t of G_LIT c \<Rightarrow> c | _ \<Rightarrow> CHR 0x00)"

definition qcut :: "string \<Rightarrow> string" where
  "qcut s = takeWhile (\<lambda>b. b \<noteq> CHR ''?'') s"

definition glob_holds :: "vdpc_rule \<Rightarrow> string \<Rightarrow> bool" where
  "glob_holds r s =
     (if length s < r_minlen r \<or> (r_fixed r \<and> length s \<noteq> r_minlen r) then False
      else if list_ex (\<lambda>k. s ! k \<noteq> tok_byte (r_g r ! k)) [0..<r_npre r] then False
      else if list_ex (\<lambda>k. s ! (length s - 1 - k) \<noteq> tok_byte (r_g r ! (length (r_g r) - 1 - k)))
        [0..<r_nsuf r] then False
      else vdpc_glob_match (r_g r) s)"

definition str_holds :: "vdpc_rule \<Rightarrow> string \<Rightarrow> bool" where
  "str_holds r s =
     (let c = r_c r; cl = length c; sl = length s in
      case r_match r of
        M_PREFIX \<Rightarrow> sl \<ge> cl \<and> take cl s = c
      | M_EXACT \<Rightarrow> sl = cl \<and> take cl s = c
      | M_SUFFIX \<Rightarrow> sl \<ge> cl \<and> drop (sl - cl) s = c
      | M_CONTAINS \<Rightarrow> memmem s c
      | M_HOST \<Rightarrow>
          (if sl = cl \<and> take cl s = c then True
           else if \<not> r_portless r then False
           else sl > cl \<and> take cl s = c \<and> s ! cl = CHR '':'')
      | M_GLOB \<Rightarrow>
          (if r_qmode r \<noteq> 0 then
             (if CHR ''?'' \<in> set s \<and> r_qmode r = 1 then False else glob_holds r (qcut s))
           else glob_holds r s))"

definition flag_holds :: "vdpc_rule \<Rightarrow> u32 \<Rightarrow> bool" where
  "flag_holds r f \<longleftrightarrow> f AND r_mask r = r_value r"

definition vdpc_holds :: "vdpc_policy \<Rightarrow> nat \<Rightarrow> string \<Rightarrow> int" where
  "vdpc_holds p i s =
     (if i \<ge> length (p_rules p) then -1 else if str_holds (p_rules p ! i) s then 1 else 0)"

section \<open>Witnesses\<close>

datatype vres = Accepted | Refused string | Out_of_bounds

text \<open>The walk over the tokens: \<open>pos\<close> is the place in the string and \<open>k\<close> the next span. A span beyond the
  array of the certificate is a read out of bounds.\<close>

fun wit_walk :: "string \<Rightarrow> (nat \<times> nat) list \<Rightarrow> nat \<Rightarrow> gtok list \<Rightarrow> nat \<Rightarrow> nat \<Rightarrow> vres" where
  "wit_walk s span nspan [] pos k =
     (if k \<noteq> nspan then Refused ''glob witness: too many spans''
      else if pos \<noteq> length s then Refused ''glob witness: string not consumed''
      else Accepted)"
| "wit_walk s span nspan (t # g) pos k =
     (if \<not> is_stretch t then
        (if pos \<ge> length s \<or> \<not> tok_takes t (s ! pos) then Refused ''glob witness: byte mismatch''
         else wit_walk s span nspan g (pos + 1) k)
      else if k \<ge> nspan then Refused ''glob witness: too few spans''
      else case rd span k of
        None \<Rightarrow> Out_of_bounds
      | Some (a, b) \<Rightarrow>
          if a \<noteq> pos \<or> b < a \<or> b > length s then Refused ''glob witness: span out of place''
          else if (if t = G_SEGS then b > a \<and> s ! (b - 1) \<noteq> slash
                   else list_ex (\<lambda>x. \<not> tok_takes t (s ! x)) [a..<b])
          then Refused (if t = G_SEGS then ''glob witness: /**/ span does not end in '/'' @ [CHR 0x27]
                        else ''glob witness: '/' inside '*'' @ [CHR 0x27])
          else wit_walk s span nspan g b (k + 1))"

definition witness_holds :: "vdpc_rule \<Rightarrow> string \<Rightarrow> vdpc_cert \<Rightarrow> vres" where
  "witness_holds r s c =
     (if r_match r = M_CONTAINS then
        (if c_wkind c \<noteq> 1 then Refused ''contains rule without an offset witness''
         else if c_off c > length s \<or> length (r_c r) > length s - c_off c \<or>
                 take (length (r_c r)) (drop (c_off c) s) \<noteq> r_c r
         then Refused ''contains witness does not match''
         else Accepted)
      else if r_match r \<noteq> M_GLOB then
        (if c_wkind c \<noteq> 0 then Refused ''unexpected witness''
         else if \<not> str_holds r s then Refused ''deciding rule's constant does not match''
         else Accepted)
      else if c_wkind c \<noteq> 2 then Refused ''glob rule without a span witness''
      else if r_qmode r \<noteq> 0 \<and> CHR ''?'' \<in> set s \<and> r_qmode r = 1 then
        Refused ''a request rule without a query, on a request with one''
      else wit_walk (if r_qmode r \<noteq> 0 then qcut s else s) (c_span c) (c_nspan c) (r_g r) 0 0)"

section \<open>What a rule matches\<close>

definition rule_matches :: "vdpc_rule \<Rightarrow> string \<Rightarrow> bool" where
  "rule_matches r s =
     (case r_match r of
        M_PREFIX \<Rightarrow> prefix (r_c r) s
      | M_EXACT \<Rightarrow> s = r_c r
      | M_SUFFIX \<Rightarrow> suffix (r_c r) s
      | M_CONTAINS \<Rightarrow> sublist (r_c r) s
      | M_HOST \<Rightarrow> s = r_c r \<or> (r_portless r \<and> prefix (r_c r @ '':'') s)
      | M_GLOB \<Rightarrow>
          (if r_qmode r = 0 then toks_match (r_g r) s
           else (r_qmode r = 1 \<longrightarrow> CHR ''?'' \<notin> set s) \<and> toks_match (r_g r) (qcut s)))"

text \<open>What the loader guarantees of a rule: its flag atom is about flags of \<open>open\<close>, and a glob's tokens fit
  the matcher and come with the pre-filters read off them.\<close>

definition rule_wf :: "vdpc_rule \<Rightarrow> bool" where
  "rule_wf r \<longleftrightarrow>
     r_mask r AND known_bits = r_mask r \<and> r_value r AND r_mask r = r_value r \<and>
     (r_match r = M_GLOB \<longrightarrow>
        glob_ok (r_g r) \<and> length (r_g r) \<le> VDPC_MAX_S + 2 \<and> glob_filters r = r)"

definition policy_ok :: "vdpc_policy \<Rightarrow> bool" where
  "policy_ok p \<longleftrightarrow> length (p_rules p) \<le> VDPC_MAX_RULES \<and> list_all rule_wf (p_rules p)"

lemma prefix_take: "prefix c s \<longleftrightarrow> length c \<le> length s \<and> take (length c) s = c"
  by (auto simp: prefix_def) (metis append_take_drop_id)

lemma suffix_drop: "suffix c s \<longleftrightarrow> length c \<le> length s \<and> drop (length s - length c) s = c"
  by (auto simp: suffix_def) (metis append_take_drop_id)

lemma memmem_sublist: "memmem s c \<longleftrightarrow> sublist c s"
proof (induction s)
  case Nil
  then show ?case by simp
next
  case (Cons b s)
  have "take (length c) (b # s) = c \<longleftrightarrow> prefix c (b # s)"
    unfolding prefix_take by (metis length_take min.absorb_iff2 min.commute)
  with Cons show ?case by (simp add: sublist_Cons_right del: take_Suc_Cons)
qed

lemma toks_match_minlen: "toks_match g s \<Longrightarrow> length (filter (\<lambda>t. \<not> is_stretch t) g) \<le> length s"
proof (induction g arbitrary: s)
  case Nil
  then show ?case by simp
next
  case (Cons t g)
  then obtain u v where s: "s = u @ v" "tok_span t u" "toks_match g v" by (auto simp: toks_match_Cons)
  have "\<not> is_stretch t \<Longrightarrow> length u = 1" using s(2) by (cases t) auto
  with s Cons.IH [of v] show ?case by auto
qed

lemma toks_match_fixed:
  "toks_match g s \<Longrightarrow> list_all (\<lambda>t. \<not> is_stretch t) g \<Longrightarrow> length s = length g"
proof (induction g arbitrary: s)
  case Nil
  then show ?case by simp
next
  case (Cons t g)
  then obtain u v where s: "s = u @ v" "tok_span t u" "toks_match g v" by (auto simp: toks_match_Cons)
  have "length u = 1" using s(2) Cons.prems(2) by (cases t) auto
  with s Cons show ?case by auto
qed

lemma tok_byte_lit [simp]: "tok_byte (G_LIT c) = c"
  by (simp add: tok_byte_def)

lemma is_litE: "is_lit t \<Longrightarrow> t = G_LIT (tok_byte t)"
  by (cases t) (auto simp: is_lit_def)

lemma toks_match_first:
  "toks_match g s \<Longrightarrow> k < length (takeWhile is_lit g) \<Longrightarrow> k < length s \<and> s ! k = tok_byte (g ! k)"
proof (induction g arbitrary: s k)
  case Nil
  then show ?case by simp
next
  case (Cons t g)
  then obtain u v where s: "s = u @ v" "tok_span t u" "toks_match g v" by (auto simp: toks_match_Cons)
  have "is_lit t" using Cons.prems(2) by (auto split: if_splits)
  then have "u = [tok_byte t]" using s(2) by (metis is_litE tok_span.simps(1))
  with s Cons \<open>is_lit t\<close> show ?case by (cases k) auto
qed

lemma toks_match_last:
  "toks_match (rev g) s \<Longrightarrow> k < length (takeWhile is_lit g) \<Longrightarrow>
    k < length s \<and> s ! (length s - 1 - k) = tok_byte (g ! k)"
proof (induction g arbitrary: s k)
  case Nil
  then show ?case by simp
next
  case (Cons t g)
  then obtain u v where s: "s = u @ v" "toks_match (rev g) u" "tok_span t v"
    by (auto simp: toks_match_snoc)
  have "is_lit t" using Cons.prems(2) by (auto split: if_splits)
  then have v: "v = [tok_byte t]" using s(3) by (metis is_litE tok_span.simps(1))
  show ?case
  proof (cases k)
    case 0
    then show ?thesis using s v by (simp add: nth_append)
  next
    case (Suc j)
    then have "j < length u \<and> u ! (length u - 1 - j) = tok_byte (g ! j)"
      using Cons.IH [OF s(2), of j] Cons.prems(2) \<open>is_lit t\<close> by simp
    then show ?thesis using s v Suc by (auto simp: nth_append)
  qed
qed

text \<open>The pre-filters refuse nothing the tokens match.\<close>

lemma glob_holds_eq:
  assumes "glob_filters r = r" and "length (r_g r) \<le> VDPC_MAX_S + 2"
  shows "glob_holds r s \<longleftrightarrow> toks_match (r_g r) s"
proof -
  have f: "r_minlen r = length (filter (\<lambda>t. \<not> is_stretch t) (r_g r))"
    "r_fixed r = list_all (\<lambda>t. \<not> is_stretch t) (r_g r)"
    "r_npre r = length (takeWhile is_lit (r_g r))"
    "r_nsuf r = length (takeWhile is_lit (rev (r_g r)))"
    by (subst assms(1) [symmetric], simp add: glob_filters_def)+
  show ?thesis
  proof
    assume "glob_holds r s"
    then show "toks_match (r_g r) s"
      using assms(2) by (simp add: glob_holds_def vdpc_glob_match_eq split: if_splits)
  next
    assume m: "toks_match (r_g r) s"
    have "filter (\<lambda>t. \<not> is_stretch t) (r_g r) = r_g r" if "r_fixed r"
      using that by (simp add: f(2) filter_id_conv list_all_iff)
    then have "\<not> (length s < r_minlen r \<or> (r_fixed r \<and> length s \<noteq> r_minlen r))"
      using toks_match_minlen [OF m] toks_match_fixed [OF m] by (auto simp: f(1) f(2))
    moreover have "\<not> list_ex (\<lambda>k. s ! k \<noteq> tok_byte (r_g r ! k)) [0..<r_npre r]"
      using toks_match_first [OF m] by (auto simp: list_ex_iff f(3))
    moreover have "\<not> list_ex (\<lambda>k. s ! (length s - 1 - k) \<noteq> tok_byte (r_g r ! (length (r_g r) - 1 - k)))
        [0..<r_nsuf r]"
    proof -
      have "s ! (length s - 1 - k) = tok_byte (r_g r ! (length (r_g r) - 1 - k))" if "k < r_nsuf r" for k
      proof -
        have k: "k < length (takeWhile is_lit (rev (r_g r)))" using that by (simp add: f(4))
        then have "k < length (r_g r)" using length_takeWhile_le [of is_lit "rev (r_g r)"] by simp
        with toks_match_last [of "rev (r_g r)" s k] m k show ?thesis by (simp add: rev_nth)
      qed
      then show ?thesis by (auto simp: list_ex_iff)
    qed
    ultimately show "glob_holds r s" using m assms(2) by (simp add: glob_holds_def vdpc_glob_match_eq)
  qed
qed

lemma qcut_id: "CHR ''?'' \<notin> set s \<Longrightarrow> qcut s = s"
  unfolding qcut_def takeWhile_eq_all_conv by blast

lemma str_holds_eq:
  assumes "rule_wf r"
  shows "str_holds r s \<longleftrightarrow> rule_matches r s"
proof (cases "r_match r")
  case M_HOST
  have "length s > length c \<and> take (length c) s = c \<and> s ! length c = CHR '':'' \<longleftrightarrow> prefix (c @ '':'') s" for c
    unfolding prefix_take by (auto simp: take_Suc_conv_app_nth)
  moreover have "length s = length c \<and> take (length c) s = c \<longleftrightarrow> s = c" for c :: string
    by (metis take_all_iff order_refl)
  ultimately show ?thesis by (simp add: M_HOST str_holds_def rule_matches_def Let_def)
next
  case M_GLOB
  with assms have "glob_holds r t \<longleftrightarrow> toks_match (r_g r) t" for t
    by (intro glob_holds_eq) (auto simp: rule_wf_def)
  with M_GLOB show ?thesis by (auto simp: str_holds_def rule_matches_def Let_def qcut_id)
qed (auto simp: str_holds_def rule_matches_def Let_def prefix_take suffix_drop memmem_sublist)

end
