(* ===== verification/Vdp_Names.thy ===== *)
theory Vdp_Names
  imports Vdp_Rules Json
begin

text \<open>
  The texts a policy of the certificate checker is made of, from \<^verbatim>\<open>src/varek/v1_4/checker/vdp_checker.c\<close>: host
  names and ports, the upstream proxy, request URLs and their globs, the canonical form of an MCP server's
  URL, HTTP header names, paths, versions, and the programs that run others. A reader that fails
  returns the code's message, or \<^const>\<open>None\<close> where the code gives none.
\<close>

definition starts :: "string \<Rightarrow> string \<Rightarrow> bool" where
  "starts p s \<longleftrightarrow> take (length p) s = p"

lemma starts_append [simp]: "starts p (p @ s)"
  by (simp add: starts_def)

lemma starts_iff: "starts p s \<longleftrightarrow> (\<exists>t. s = p @ t)"
  by (metis append_eq_conv_conj append_take_drop_id starts_def)

text \<open>The fields of a text between separators; a text without one is a single field.\<close>

fun split_on :: "char \<Rightarrow> string \<Rightarrow> string list" where
  "split_on x [] = [[]]"
| "split_on x (c # s) =
     (if c = x then [] # split_on x s
      else case split_on x s of [] \<Rightarrow> [[c]] | f # fs \<Rightarrow> (c # f) # fs)"

definition digits_value :: "string \<Rightarrow> nat" where
  "digits_value d = foldl (\<lambda>v c. v * 10 + (byte c - 48)) 0 d"

definition hexd :: "char \<Rightarrow> nat option" where
  "hexd c =
     (if isdigit c then Some (byte c - 48)
      else if 97 \<le> byte c \<and> byte c \<le> 102 then Some (byte c - 87)
      else if 65 \<le> byte c \<and> byte c \<le> 70 then Some (byte c - 55)
      else None)"

definition tolower :: "char \<Rightarrow> char" where
  "tolower c = (if isupper c then char_of (byte c + 32) else c)"

section \<open>Versions and short names\<close>

definition parse_ver :: "string \<Rightarrow> (nat \<times> nat) option" where
  "parse_ver s =
     (let d1 = takeWhile isdigit s; r1 = drop (length d1) s in
      if length d1 > 6 \<or> d1 = [] \<or> r1 = [] \<or> hd r1 \<noteq> CHR ''.'' then None
      else
        let d2 = takeWhile isdigit (tl r1); r2 = drop (length d2) (tl r1) in
        if length d2 > 6 \<or> d2 = [] \<or> r2 \<noteq> [] then None
        else Some (digits_value d1, digits_value d2))"

definition ver_ge :: "nat \<times> nat \<Rightarrow> nat \<times> nat \<Rightarrow> bool" where
  "ver_ge v w \<longleftrightarrow> fst v > fst w \<or> (fst v = fst w \<and> snd v \<ge> snd w)"

definition name_byte :: "char \<Rightarrow> bool" where
  "name_byte c \<longleftrightarrow> islower c \<or> isdigit c \<or> c = CHR ''_''"

definition short_name :: "string \<Rightarrow> bool" where
  "short_name n \<longleftrightarrow>
     1 \<le> length n \<and> length n \<le> 32 \<and> islower (hd n) \<and> list_all name_byte (tl n)"

definition tchar :: "char \<Rightarrow> bool" where
  "tchar c \<longleftrightarrow> isdigit c \<or> isalpha c \<or> c \<in> set ''!#$%&*+-.^_`|~'' \<or> c = CHR 0x27"

definition all_tchar :: "string \<Rightarrow> nat \<Rightarrow> bool" where
  "all_tchar s hi \<longleftrightarrow> s \<noteq> [] \<and> length s \<le> hi \<and> list_all tchar s"

definition framing_header :: "string \<Rightarrow> bool" where
  "framing_header h \<longleftrightarrow>
     length h < 65 \<and>
     map tolower h \<in> set [''host'', ''content-length'', ''transfer-encoding'', ''connection'', ''upgrade'', ''te'',
       ''trailer'', ''keep-alive'', ''proxy-connection'', ''proxy-authorization'']"

definition printable :: "string \<Rightarrow> nat \<Rightarrow> nat \<Rightarrow> bool" where
  "printable v lo hi \<longleftrightarrow>
     lo \<le> length v \<and> length v \<le> hi \<and> list_all (\<lambda>c. 0x20 < byte c \<and> byte c < 0x7f) v"

definition https_with_host :: "string \<Rightarrow> nat \<Rightarrow> bool" where
  "https_with_host u hi \<longleftrightarrow>
     printable u 9 hi \<and> starts ''https://'' u \<and> u ! 8 \<notin> {CHR ''/'', CHR ''?'', CHR ''#''}"

definition dot_segment :: "string \<Rightarrow> bool" where
  "dot_segment s \<longleftrightarrow> s = ''.'' \<or> s = ''..''"

definition clean_abs_path :: "string \<Rightarrow> bool" where
  "clean_abs_path r \<longleftrightarrow>
     2 \<le> length r \<and> hd r = slash \<and> list_all (\<lambda>s. s \<noteq> [] \<and> \<not> dot_segment s) (split_on slash (tl r))"

section \<open>Host names\<close>

text \<open>The labels of a name: the byte before, the length of the label so far, and whether it is all
  digits.\<close>

fun host_labels :: "char \<Rightarrow> nat \<Rightarrow> bool \<Rightarrow> string \<Rightarrow> string + (nat \<times> bool)" where
  "host_labels prev lab lab_digits [] = Inr (lab, lab_digits)"
| "host_labels prev lab lab_digits (ch # s) =
     (if ch = CHR ''.'' then
        (if lab = 0 \<or> prev = CHR ''-'' then Inl ''bad label'' else host_labels ch 0 True s)
      else if \<not> islower ch \<and> \<not> isdigit ch \<and> ch \<noteq> CHR ''-'' then Inl ''byte not allowed in a host name''
      else if lab = 0 \<and> ch = CHR ''-'' then Inl ''bad label''
      else if lab + 1 > 63 then Inl ''label over 63 bytes''
      else host_labels ch (lab + 1) (lab_digits \<and> isdigit ch) s)"

text \<open>\<^term>\<open>Inr False\<close> is a numeric form, \<^term>\<open>Inr True\<close> a valid name.\<close>

definition host_name_form :: "string \<Rightarrow> string + bool" where
  "host_name_form c =
     (if c \<noteq> [] \<and> hd c = CHR ''['' then Inr False
      else if starts ''unix:'' c then Inr False
      else
        let h = takeWhile (\<lambda>b. b \<noteq> CHR '':'') c; n = length h in
        if list_all (\<lambda>b. b = CHR ''.'' \<or> isdigit b) h then Inr False
        else if CHR ''*'' \<in> set h then Inl ''wildcard host name''
        else if n > 253 then Inl ''host name over 253 bytes''
        else case host_labels (CHR 0x00) 0 True h of
          Inl e \<Rightarrow> Inl e
        | Inr (lab, lab_digits) \<Rightarrow>
            if lab = 0 \<or> last h = CHR ''-'' then Inl ''bad label''
            else if lab_digits then Inl ''last label all digits''
            else if h = ''unix'' then Inl ''host name unix is reserved''
            else if n < length c then
              (let port = drop (n + 1) c in
               if length port < 1 \<or> length port > 5 \<or> (length port > 1 \<and> hd port = CHR ''0'') then Inl ''bad port''
               else if \<not> list_all isdigit port then Inl ''bad port''
               else if digits_value port > 65535 then Inl ''bad port''
               else Inr True)
            else Inr True)"

section \<open>The upstream proxy\<close>

definition up_octet :: "string \<Rightarrow> bool" where
  "up_octet o8 \<longleftrightarrow>
     o8 \<noteq> [] \<and> length o8 \<le> 3 \<and> \<not> (length o8 > 1 \<and> hd o8 = CHR ''0'') \<and> digits_value o8 \<le> 255"

definition up_label :: "string \<Rightarrow> bool" where
  "up_label l \<longleftrightarrow> 1 \<le> length l \<and> length l \<le> 63 \<and> hd l \<noteq> CHR ''-'' \<and> last l \<noteq> CHR ''-''"

definition up_parse :: "string \<Rightarrow> (string \<times> nat) option" where
  "up_parse v =
     (if \<not> starts ''http://'' v then None
      else
        let a = drop 7 v;
            a = (if a \<noteq> [] \<and> last a = slash then butlast a else a);
            port = rev (takeWhile (\<lambda>c. c \<noteq> CHR '':'') (rev a))
        in if length port = length a then None
        else
          let host = take (length a - length port - 1) a in
          if length port < 1 \<or> length port > 5 \<or> hd port = CHR ''0'' then None
          else if \<not> list_all isdigit port then None
          else if digits_value port < 1 \<or> digits_value port > 65535 \<or> length host < 1 \<or> length host > 253 then None
          else if \<not> list_all (\<lambda>c. c = CHR ''.'' \<or> isalpha c \<or> c = CHR ''-'' \<or> isdigit c) host then None
          else if (if \<not> list_ex (\<lambda>c. isalpha c \<or> c = CHR ''-'') host then
                     length (filter (\<lambda>c. c = CHR ''.'') host) = 3 \<and> list_all up_octet (split_on CHR ''.'' host)
                   else
                     list_all up_label (split_on CHR ''.'' host) \<and>
                     \<not> list_all isdigit (last (split_on CHR ''.'' host)))
          then Some (map tolower host, digits_value port)
          else None)"

section \<open>Request URLs\<close>

definition forbidden_escape :: "nat \<Rightarrow> bool" where
  "forbidden_escape v \<longleftrightarrow>
     v = 0x2f \<or> v = 0x5c \<or> (0x30 \<le> v \<and> v \<le> 0x39) \<or> (0x41 \<le> v \<and> v \<le> 0x5a) \<or> (0x61 \<le> v \<and> v \<le> 0x7a) \<or>
     v = 0x2d \<or> v = 0x2e \<or> v = 0x5f \<or> v = 0x7e"

text \<open>The two digits after a percent sign.\<close>

definition escape_value :: "string \<Rightarrow> nat option" where
  "escape_value s =
     (case s of
        a # b # r \<Rightarrow>
          (case (hexd a, hexd b) of (Some d1, Some d2) \<Rightarrow> Some (d1 * 16 + d2) | _ \<Rightarrow> None)
      | _ \<Rightarrow> None)"

text \<open>A port after the host: five digits at most, none leading zero.\<close>

definition url_port :: "string \<Rightarrow> nat option" where
  "url_port d =
     (if length d < 1 \<or> length d > 5 \<or> hd d = CHR ''0'' then None
      else if \<not> list_all isdigit d then None
      else if digits_value d < 1 \<or> digits_value d > 65535 then None
      else Some (digits_value d))"

text \<open>The path and query after the first separator: the error, if there is one. \<open>q\<close> is set in the query, and
  \<open>seg\<close> is the segment so far.\<close>

fun req_path :: "bool \<Rightarrow> string \<Rightarrow> string \<Rightarrow> string option" where
  "req_path q seg [] = (if \<not> q \<and> dot_segment seg then Some ''dot segment'' else None)"
| "req_path q seg (c # s) =
     (if \<not> q \<and> (c = slash \<or> c = CHR ''?'') then
        (if seg = [] \<and> c = slash then Some ''empty path segment''
         else if dot_segment seg then Some ''dot segment''
         else req_path (c = CHR ''?'') [] s)
      else if byte c \<le> 0x20 \<or> byte c \<ge> 0x7f \<or> c = backslash \<or> c = CHR '';'' \<or> c = CHR ''#'' then
        Some ''byte not allowed in a request path''
      else if c = CHR ''?'' then Some ''more than one '?' in a request URL''
      else if c = CHR ''%'' \<and> escape_value s = None then Some ''bad percent escape''
      else if c = CHR ''%'' \<and> forbidden_escape (the (escape_value s)) then
        Some ''percent escape of '/' or an unreserved byte''
      else req_path q (seg @ [c]) s)"

record req_url =
  rq_glob :: string
  rq_host :: string
  rq_wild :: bool
  rq_port :: nat

definition method_ok :: "string \<Rightarrow> bool" where
  "method_ok m \<longleftrightarrow> m = ''*'' \<or> (1 \<le> length m \<and> length m \<le> 20 \<and> list_all isupper m)"

text \<open>The authority: host part, port and rest, for a scheme of default port \<open>port\<close>.\<close>

definition req_authority :: "string \<Rightarrow> nat \<Rightarrow> string + (string \<times> nat)" where
  "req_authority auth port =
     (let hl = takeWhile (\<lambda>c. c \<noteq> CHR '':'') auth in
      if length hl < length auth then
        (case url_port (drop (length hl + 1) auth) of
           None \<Rightarrow> Inl ''bad request URL port''
         | Some x \<Rightarrow> Inr (hl, x))
      else Inr (hl, port))"

text \<open>An allocation of the glob may fail.\<close>

definition req_parse :: "allocs \<Rightarrow> string \<Rightarrow> string \<Rightarrow> (string + req_url) \<times> allocs" where
  "req_parse al m u =
     (if \<not> method_ok m then (Inl ''bad method'', al)
      else if \<not> starts ''https://'' u \<and> \<not> starts ''http://'' u then (Inl ''bad request URL scheme'', al)
      else
        let scheme = (if starts ''https://'' u then ''https'' else ''http'');
            port = (if starts ''https://'' u then 443 else 80);
            a = drop (length scheme + 3) u;
            auth = takeWhile (\<lambda>c. c \<noteq> slash) a;
            p = drop (length auth) a
        in if p = [] then (Inl ''request URL without a path'', al)
        else case req_authority auth port of
          Inl e \<Rightarrow> (Inl e, al)
        | Inr (hl, port) \<Rightarrow>
            let wild = starts ''*.'' hl; h = (if wild then drop 2 hl else hl) in
            if length h < 1 \<or> length h > 253 then (Inl ''bad request URL host'', al)
            else case host_name_form h of
              Inl e \<Rightarrow> (Inl e, al)
            | Inr False \<Rightarrow> (Inl ''bad request URL host'', al)
            | Inr True \<Rightarrow>
                if wild \<and> CHR ''.'' \<notin> set h then (Inl ''wildcard over one label'', al)
                else case req_path False [] (tl p) of
                  Some e \<Rightarrow> (Inl e, al)
                | None \<Rightarrow>
                    let head = m @ '' '' @ scheme @ ''://'' @ (if wild then ''?*.'' else []) @ h @ '':'' @ decimal port in
                    if length head \<ge> 300 then (Inl ''request object over the bound'', al)
                    else if length head + length p + length (filter (\<lambda>c. c = CHR ''?'') p) > VDPC_MAX_S then
                      (Inl ''request object over the bound'', al)
                    else
                      let (ok, al) = take_alloc al in
                      if \<not> ok then (Inl ''out of memory'', al)
                      else (Inr \<lparr>rq_glob = head @ concat (map (\<lambda>c. if c = CHR ''?'' then [backslash, c] else [c]) p),
                                 rq_host = h, rq_wild = wild, rq_port = port\<rparr>, al))"

section \<open>MCP servers\<close>

fun mcp_path_bytes :: "string \<Rightarrow> bool" where
  "mcp_path_bytes [] \<longleftrightarrow> True"
| "mcp_path_bytes (c # s) \<longleftrightarrow>
     0x20 < byte c \<and> byte c < 0x7f \<and> c \<notin> set [backslash, CHR '';'', CHR ''#'', CHR ''?'', CHR ''*'', CHR ''['', CHR '']''] \<and>
     (c = CHR ''%'' \<longrightarrow> (case escape_value s of None \<Rightarrow> False | Some v \<Rightarrow> \<not> forbidden_escape v)) \<and>
     mcp_path_bytes s"

definition mcp_segments_ok :: "string \<Rightarrow> bool" where
  "mcp_segments_ok path \<longleftrightarrow>
     (let segs = split_on slash (tl path) in
      list_all (\<lambda>s. s \<noteq> []) (butlast segs) \<and> list_all (\<lambda>s. \<not> dot_segment s) segs)"

definition mcp_canon :: "string \<Rightarrow> bool \<Rightarrow> nat \<Rightarrow> (string \<times> string \<times> nat) option" where
  "mcp_canon u https_only outn =
     (if \<not> starts ''https://'' u \<and> (https_only \<or> \<not> starts ''http://'' u) then None
      else
        let sch = (if starts ''https://'' u then ''https'' else ''http'');
            pt = (if starts ''https://'' u then 443 else 80);
            a = drop (length sch + 3) u;
            auth = takeWhile (\<lambda>c. c \<noteq> slash) a;
            host = takeWhile (\<lambda>c. c \<noteq> CHR '':'') auth
        in case (if length host < length auth then url_port (drop (length host + 1) auth) else Some pt) of
          None \<Rightarrow> None
        | Some pt \<Rightarrow>
            if length host < 1 \<or> length host > 253 then None
            else if CHR ''@'' \<in> set host \<or> CHR ''*'' \<in> set host then None
            else if host_name_form host \<noteq> Inr True then None
            else
              let path = (if length auth < length a then drop (length auth) a else ''/'') in
              if \<not> mcp_segments_ok path then None
              else if \<not> mcp_path_bytes path then None
              else
                let out = sch @ ''://'' @ host @ '':'' @ decimal pt @ path in
                if length out \<ge> outn then None else Some (out, host, pt))"

definition mcp_method :: "string \<Rightarrow> bool \<Rightarrow> bool" where
  "mcp_method m glob \<longleftrightarrow>
     1 \<le> length m \<and> length m \<le> 128 \<and>
     list_all (\<lambda>c. isalpha c \<or> isdigit c \<or> c = CHR ''_'' \<or> c = CHR ''.'' \<or> c = slash \<or> c = CHR ''-'' \<or>
       (glob \<and> c = CHR ''*'')) m"

section \<open>Programs that run others\<close>

definition kAny :: "string list" where
  "kAny =
    [''sh'', ''bash'', ''dash'', ''zsh'', ''ksh'', ''mksh'', ''csh'', ''tcsh'', ''fish'', ''ash'', ''busybox'',
     ''python'', ''python2'', ''python3'', ''pypy'', ''pypy3'', ''perl'', ''ruby'', ''node'', ''nodejs'',
     ''deno'', ''bun'', ''php'', ''lua'', ''luajit'', ''tclsh'', ''wish'', ''pwsh'', ''Rscript'', ''R'',
     ''julia'', ''guile'', ''awk'', ''gawk'', ''mawk'', ''nawk'', ''java'', ''jshell'', ''osascript'',
     ''rbash'', ''toybox'', ''ipython'', ''ipython3'', ''gdb'', ''expect'']"

definition kLaunchers :: "string list" where
  "kLaunchers =
    [''npx'', ''npm'', ''pnpm'', ''pnpx'', ''yarn'', ''bunx'', ''corepack'', ''uvx'', ''uv'', ''pipx'', ''pip'', ''pip3'',
     ''docker'', ''podman'', ''nerdctl'', ''ctr'', ''env'', ''sudo'', ''doas'', ''su'', ''nix'', ''nix-shell'',
     ''flatpak'', ''snap'', ''xargs'', ''nohup'', ''setsid'', ''timeout'', ''stdbuf'', ''nice'', ''ionice'',
     ''chroot'', ''unshare'', ''nsenter'', ''systemd-run'', ''runuser'', ''sg'',
     ''time'', ''taskset'', ''setpriv'', ''strace'', ''ltrace'', ''flock'', ''bwrap'', ''firejail'', ''chrt'', ''prlimit'',
     ''script'', ''watch'', ''xvfb-run'', ''start-stop-daemon'', ''tsx'', ''ts-node'', ''valgrind'', ''numactl'',
     ''torsocks'', ''proxychains'', ''proxychains4'']"

definition runs_others :: "string \<Rightarrow> bool" where
  "runs_others path \<longleftrightarrow>
     (let b = rev (takeWhile (\<lambda>c. c \<noteq> slash) (rev path)) in
      b \<in> set kLaunchers \<or>
      starts ''ld-linux'' b \<or> starts ''ld-musl'' b \<or> b = ''ld.so'' \<or>
      (starts ''ld-'' b \<and> length b > 3 \<and> isdigit (b ! 3) \<and> memmem b ''.so'') \<or>
      list_ex (\<lambda>k. starts k b \<and> list_all (\<lambda>c. isdigit c \<or> c = CHR ''.'') (drop (length k) b)) kAny)"

end
