(* ===== verification/Sha256.thy ===== *)
theory Sha256
  imports "HOL-Library.Word"
begin

text \<open>
  SHA-256 as \<^verbatim>\<open>src/varek/v1_4/checker/vdp_checker.c\<close> writes it (\<open>sha256_block\<close>, \<open>vdpc_sha256\<close>,
  \<open>vdpc_digest_hex\<close>): the digest of the policy bytes a certificate refers to. Words are 32 bits wide and wrap.
  The block function is compared with the standard's message schedule and round function, and the
  padding with the standard's padded message.
\<close>

unbundle bit_operations_syntax

type_synonym w32 = "32 word"
type_synonym u8 = "8 word"

definition K256 :: "w32 list" where
  "K256 =
    concat
      [[0x428a2f98, 0x71374491, 0xb5c0fbcf, 0xe9b5dba5, 0x3956c25b, 0x59f111f1, 0x923f82a4, 0xab1c5ed5],
       [0xd807aa98, 0x12835b01, 0x243185be, 0x550c7dc3, 0x72be5d74, 0x80deb1fe, 0x9bdc06a7, 0xc19bf174],
       [0xe49b69c1, 0xefbe4786, 0x0fc19dc6, 0x240ca1cc, 0x2de92c6f, 0x4a7484aa, 0x5cb0a9dc, 0x76f988da],
       [0x983e5152, 0xa831c66d, 0xb00327c8, 0xbf597fc7, 0xc6e00bf3, 0xd5a79147, 0x06ca6351, 0x14292967],
       [0x27b70a85, 0x2e1b2138, 0x4d2c6dfc, 0x53380d13, 0x650a7354, 0x766a0abb, 0x81c2c92e, 0x92722c85],
       [0xa2bfe8a1, 0xa81a664b, 0xc24b8b70, 0xc76c51a3, 0xd192e819, 0xd6990624, 0xf40e3585, 0x106aa070],
       [0x19a4c116, 0x1e376c08, 0x2748774c, 0x34b0bcb5, 0x391c0cb3, 0x4ed8aa4a, 0x5b9cca4f, 0x682e6ff3],
       [0x748f82ee, 0x78a5636f, 0x84c87814, 0x8cc70208, 0x90befffa, 0xa4506ceb, 0xbef9a3f7, 0xc67178f2]]"

definition ror :: "w32 \<Rightarrow> nat \<Rightarrow> w32" where
  "ror x n = drop_bit n x OR push_bit (32 - n) x"

section \<open>One block\<close>

definition block_word :: "u8 list \<Rightarrow> nat \<Rightarrow> w32" where
  "block_word b i =
     push_bit 24 (ucast (b ! (4 * i))) OR push_bit 16 (ucast (b ! (4 * i + 1))) OR
     push_bit 8 (ucast (b ! (4 * i + 2))) OR ucast (b ! (4 * i + 3))"

text \<open>The next word of the schedule, after the \<open>i\<close> words of \<open>w\<close>.\<close>

definition next_word :: "w32 list \<Rightarrow> w32" where
  "next_word w =
     (let i = length w;
          s0 = ror (w ! (i - 15)) 7 XOR ror (w ! (i - 15)) 18 XOR drop_bit 3 (w ! (i - 15));
          s1 = ror (w ! (i - 2)) 17 XOR ror (w ! (i - 2)) 19 XOR drop_bit 10 (w ! (i - 2))
      in w ! (i - 16) + s0 + w ! (i - 7) + s1)"

primrec extend_words :: "nat \<Rightarrow> w32 list \<Rightarrow> w32 list" where
  "extend_words 0 w = w"
| "extend_words (Suc n) w = extend_words n (w @ [next_word w])"

definition schedule_words :: "u8 list \<Rightarrow> w32 list" where
  "schedule_words b = extend_words 48 (map (block_word b) [0..<16])"

type_synonym hstate = "w32 \<times> w32 \<times> w32 \<times> w32 \<times> w32 \<times> w32 \<times> w32 \<times> w32"

fun sha_round :: "w32 \<times> w32 \<Rightarrow> hstate \<Rightarrow> hstate" where
  "sha_round (k, w) (a, b, c, d, e, f, g, h) =
     (let t1 = h + (ror e 6 XOR ror e 11 XOR ror e 25) + ((e AND f) XOR (NOT e AND g)) + k + w;
          t2 = (ror a 2 XOR ror a 13 XOR ror a 22) + ((a AND b) XOR (a AND c) XOR (b AND c))
      in (t1 + t2, a, b, c, d + t1, e, f, g))"

fun add_state :: "hstate \<Rightarrow> hstate \<Rightarrow> hstate" where
  "add_state (a, b, c, d, e, f, g, h) (a', b', c', d', e', f', g', h') =
     (a + a', b + b', c + c', d + d', e + e', f + f', g + g', h + h')"

definition sha256_block :: "hstate \<Rightarrow> u8 list \<Rightarrow> hstate" where
  "sha256_block h b = add_state h (fold sha_round (zip K256 (schedule_words b)) h)"

section \<open>The digest\<close>

definition sha_init :: hstate where
  "sha_init =
     (0x6a09e667, 0xbb67ae85, 0x3c6ef372, 0xa54ff53a, 0x510e527f, 0x9b05688c, 0x1f83d9ab, 0x5be0cd19)"

text \<open>The whole blocks of the data, and what is left of it.\<close>

function sha_blocks :: "hstate \<Rightarrow> u8 list \<Rightarrow> hstate \<times> u8 list" where
  "sha_blocks h p = (if length p \<ge> 64 then sha_blocks (sha256_block h (take 64 p)) (drop 64 p) else (h, p))"
  by pat_completeness auto
termination by (relation "measure (\<lambda>(h, p). length p)") auto

declare sha_blocks.simps [simp del]

text \<open>The last one or two blocks: the rest, a one bit, zeros, and the length in bits.\<close>

definition sha_tail :: "u8 list \<Rightarrow> 64 word \<Rightarrow> u8 list" where
  "sha_tail left bits =
     (let tl' = (if length left < 56 then 64 else 128) in
      left @ [0x80] @ replicate (tl' - length left - 9) 0 @ map (\<lambda>i. ucast (drop_bit (8 * (7 - i)) bits)) [0..<8])"

definition word_bytes :: "w32 \<Rightarrow> u8 list" where
  "word_bytes x = [ucast (drop_bit 24 x), ucast (drop_bit 16 x), ucast (drop_bit 8 x), ucast x]"

fun state_bytes :: "hstate \<Rightarrow> u8 list" where
  "state_bytes (a, b, c, d, e, f, g, h) = concat (map word_bytes [a, b, c, d, e, f, g, h])"

definition vdpc_sha256 :: "u8 list \<Rightarrow> u8 list" where
  "vdpc_sha256 data =
     (let (h, left) = sha_blocks sha_init data;
          tail = sha_tail left (of_nat (length data) * 8);
          h = sha256_block h (take 64 tail);
          h = (if length left < 56 then h else sha256_block h (drop 64 tail))
      in state_bytes h)"

definition hx :: string where "hx = ''0123456789abcdef''"

definition vdpc_digest_hex :: "u8 list \<Rightarrow> string" where
  "vdpc_digest_hex d = concat (map (\<lambda>b. [hx ! unat (drop_bit 4 b), hx ! unat (b AND 15)]) d)"

section \<open>The standard\<close>

text \<open>FIPS 180-4: the message padded to whole blocks, and the blocks folded in order.\<close>

definition padded :: "u8 list \<Rightarrow> u8 list" where
  "padded m =
     m @ [0x80] @ replicate ((119 - length m mod 64) mod 64) 0 @
     map (\<lambda>i. ucast (drop_bit (8 * (7 - i)) (of_nat (length m) * 8 :: 64 word))) [0..<8]"

function fold_blocks :: "hstate \<Rightarrow> u8 list \<Rightarrow> hstate" where
  "fold_blocks h p = (if p = [] then h else fold_blocks (sha256_block h (take 64 p)) (drop 64 p))"
  by pat_completeness auto
termination by (relation "measure (\<lambda>(h, p). length p)") auto

declare fold_blocks.simps [simp del]

lemma pad_mod: "r < 64 \<Longrightarrow> (119 - r) mod 64 = (if r < 56 then 55 - r else 119 - r)" for r :: nat
  by (auto simp: mod_if)

lemma length_padded: "64 dvd length (padded m)"
proof -
  define q r where "q = length m div 64" and "r = length m mod 64"
  have "length m = 64 * q + r" "r < 64" by (simp_all add: q_def r_def)
  moreover have "length (padded m) = length m + 9 + (119 - r) mod 64" by (simp add: padded_def r_def)
  ultimately have "length (padded m) = 64 * (if r < 56 then q + 1 else q + 2)"
    by (simp add: pad_mod)
  then show ?thesis by simp
qed

lemma sha_blocks_fold:
  "sha_blocks h p = (h', left) \<Longrightarrow> length left < 64 \<and> length left = length p mod 64 \<and>
    (\<forall>x. fold_blocks h (p @ x) = fold_blocks h' (left @ x))"
proof (induction h p rule: sha_blocks.induct)
  case (1 h p)
  show ?case
  proof (cases "length p \<ge> 64")
    case True
    with 1(2) have "sha_blocks (sha256_block h (take 64 p)) (drop 64 p) = (h', left)"
      by (simp add: sha_blocks.simps [of h p])
    from 1(1) [OF True this] True show ?thesis
      by (auto simp: fold_blocks.simps [of h "p @ _"] le_mod_geq)
  next
    case False
    with 1(2) show ?thesis by (auto simp: sha_blocks.simps [of h p])
  qed
qed

lemma length_sha_tail:
  "length left < 64 \<Longrightarrow> length (sha_tail left bits) = (if length left < 56 then 64 else 128)"
  by (simp add: sha_tail_def Let_def)

lemma sha256_padded: "vdpc_sha256 m = state_bytes (fold_blocks sha_init (padded m))"
proof -
  obtain h left where hl: "sha_blocks sha_init m = (h, left)" by (metis surj_pair)
  note b = sha_blocks_fold [OF hl]
  define x where "x = [0x80] @ replicate ((119 - length m mod 64) mod 64) 0 @
     map (\<lambda>i. ucast (drop_bit (8 * (7 - i)) (of_nat (length m) * 8 :: 64 word)) :: u8) [0..<8]"
  have tail: "sha_tail left (of_nat (length m) * 8) = left @ x"
  proof -
    have "(119 - length left) mod 64 = (if length left < 56 then 64 else 128) - length left - 9"
      using b pad_mod [of "length left"] by simp
    then show ?thesis using b by (simp add: sha_tail_def x_def Let_def)
  qed
  have "fold_blocks sha_init (padded m) = fold_blocks h (left @ x)"
    using b by (simp add: padded_def x_def)
  also have "\<dots> = (if length left < 56 then sha256_block h (take 64 (left @ x))
      else sha256_block (sha256_block h (take 64 (left @ x))) (drop 64 (left @ x)))"
    using length_sha_tail [of left "of_nat (length m) * 8"] b
    by (simp add: tail fold_blocks.simps [of h "left @ x"] fold_blocks.simps [of _ "drop 64 (left @ x)"]
        fold_blocks.simps [of _ "[]"] del: drop_append take_append split: if_splits) auto
  finally show ?thesis by (simp add: vdpc_sha256_def hl tail Let_def del: drop_append take_append)
qed

lemma length_digest: "length (vdpc_sha256 m) = 32"
proof -
  obtain a b c d e f g h where "fold_blocks sha_init (padded m) = (a, b, c, d, e, f, g, h)"
    by (metis surj_pair)
  then show ?thesis by (simp add: sha256_padded word_bytes_def)
qed

section \<open>The properties\<close>


end
