(* ===== verification/Vdp_Load.thy ===== *)
theory Vdp_Load
  imports Vdp_Names Sha256
begin

text \<open>
  The policy parser of the certificate checker, \<^verbatim>\<open>src/varek/v1_4/checker/vdp_checker.c\<close>: \<open>vdpc_load\<close> with every
  statement of the grammar, in the order of the code's checks and with its messages. An error is the line
  and the message.
\<close>

unbundle bit_operations_syntax

type_synonym version = "nat \<times> nat"

definition VDPC_GRAMMAR :: version where "VDPC_GRAMMAR = (1, 35)"
definition VDPC_GLOB_MAX_TOTAL :: nat where "VDPC_GLOB_MAX_TOTAL = 4096"
definition VDPC_MAX_CREDS :: nat where "VDPC_MAX_CREDS = 32"
definition VDPC_MAX_ISSUERS :: nat where "VDPC_MAX_ISSUERS = 8"
definition VDPC_MAX_SPIFFE :: nat where "VDPC_MAX_SPIFFE = 8"

definition empty_rule :: "nat \<Rightarrow> vdpc_rule" where
  "empty_rule ln =
     \<lparr>r_allow = False, r_kind = VDPC_PATH, r_match = M_PREFIX, r_c = [], r_g = [], r_npre = 0, r_nsuf = 0,
      r_minlen = 0, r_fixed = False, r_mask = 0, r_value = 0, r_line = ln, r_portless = False, r_name = False,
      r_wild = False, r_names = 0, r_rate = 0, r_max_body = 0, r_rhost = [], r_qmode = 0, r_rwild = False,
      r_rport = 0, r_cred = 0, r_hdr = [], r_scheme = [], r_subagent = [], r_subj = 0, r_csubj = 0,
      r_confined = False, r_mcp_server = False, r_sha256 = []\<rparr>"

section \<open>Names a policy declares\<close>

text \<open>One more than the index of the first name in a list, or 0.\<close>

fun name_index :: "string \<Rightarrow> string list \<Rightarrow> nat" where
  "name_index n [] = 0"
| "name_index n (m # ms) = (if m = n then 1 else (case name_index n ms of 0 \<Rightarrow> 0 | Suc k \<Rightarrow> Suc (Suc k)))"

definition subj_named :: "vdpc_policy \<Rightarrow> string \<Rightarrow> nat" where
  "subj_named p n = name_index n (map sj_name (p_subjects p))"

definition cred_named :: "vdpc_policy \<Rightarrow> string \<Rightarrow> nat" where
  "cred_named p n = name_index n (map cr_name (p_creds p))"

definition subj_register :: "vdpc_policy \<Rightarrow> nat \<Rightarrow> bool \<Rightarrow> nat \<Rightarrow> string + vdpc_policy" where
  "subj_register p i mcp ln =
     (let r = p_rules p ! i in
      if subj_named p (r_subagent r) \<noteq> 0 then Inl ''a confined subject declared twice''
      else if list_ex (\<lambda>e. r_subagent e \<noteq> [] \<and> r_csubj e = 0 \<and> r_subagent e = r_subagent r) (take i (p_rules p))
      then Inl ''a confined name already used by an unconfined sub-agent''
      else if length (p_subjects p) = 32 then Inl ''more than 32 confined subjects''
      else Inr (p\<lparr>p_subjects := p_subjects p @ [\<lparr>sj_name = r_subagent r, sj_rule = i, sj_mcp = mcp, sj_line = ln\<rparr>],
                  p_rules := (p_rules p)[i := r\<lparr>r_csubj := int (length (p_subjects p)) + 1\<rparr>]\<rparr>))"

section \<open>Parts of a rule\<close>

text \<open>The glob of a rule and its pre-filters; \<open>gtot\<close> counts the tokens of the whole policy.\<close>

definition rule_glob :: "allocs \<Rightarrow> nat \<Rightarrow> vdpc_rule \<Rightarrow> (string + (vdpc_rule \<times> nat)) \<times> allocs" where
  "rule_glob al gtot r =
     (case parse_glob al (r_c r) of
        (Inl e, al) \<Rightarrow> (Inl e, al)
      | (Inr g, al) \<Rightarrow>
          if gtot + length g > VDPC_GLOB_MAX_TOTAL then (Inl ''glob tokens over the policy total'', al)
          else (Inr (glob_filters (r\<lparr>r_g := g\<rparr>), gtot + length g), al))"

definition control_byte :: "char \<Rightarrow> bool" where
  "control_byte c \<longleftrightarrow> byte c < 0x20 \<or> byte c = 0x7f"

definition opt_max_body :: "string \<Rightarrow> nat option" where
  "opt_max_body d =
     (let (mul, d) =
        (if d \<noteq> [] \<and> last d = CHR ''k'' then (1024, butlast d)
         else if d \<noteq> [] \<and> last d = CHR ''m'' then (1024 * 1024, butlast d)
         else (1, d))
      in if length d < 1 \<or> length d > 7 \<or> hd d = CHR ''0'' then None
      else if \<not> list_all isdigit d then None
      else if digits_value d * mul > 1073741824 then None
      else Some (digits_value d * mul))"

text \<open>\<open>header=NAME\<close> or \<open>header=NAME:SCHEME\<close>.\<close>

definition opt_header :: "string \<Rightarrow> string + (string \<times> string)" where
  "opt_header v =
     (let h = takeWhile (\<lambda>c. c \<noteq> CHR '':'') v; colon = length h < length v; sch = drop (length h + 1) v in
      if \<not> all_tchar h 64 \<or> (colon \<and> \<not> all_tchar sch 32) then Inl ''bad header''
      else if framing_header h then Inl ''a framing header''
      else Inr (h, if colon then sch else []))"

definition for_subject :: "vdpc_policy \<Rightarrow> string \<Rightarrow> vdpc_rule \<Rightarrow> string + vdpc_rule" where
  "for_subject pol n r =
     (if r_subj r \<noteq> 0 then Inl ''for= given twice''
      else if subj_named pol n = 0 then Inl ''for= names no confined subject''
      else Inr (r\<lparr>r_subj := int (subj_named pol n)\<rparr>))"

definition opt_credential :: "vdpc_policy \<Rightarrow> string \<Rightarrow> vdpc_rule \<Rightarrow> string + vdpc_rule" where
  "opt_credential pol n r =
     (if r_cred r \<noteq> 0 then Inl ''credential given twice''
      else if cred_named pol n = 0 then Inl ''unknown credential''
      else Inr (r\<lparr>r_cred := cred_named pol n\<rparr>))"

definition opt_body :: "string \<Rightarrow> vdpc_rule \<Rightarrow> string + vdpc_rule" where
  "opt_body d r =
     (if r_max_body r \<noteq> 0 then Inl ''max_body given twice''
      else case opt_max_body d of None \<Rightarrow> Inl ''bad max_body'' | Some x \<Rightarrow> Inr (r\<lparr>r_max_body := x\<rparr>))"

section \<open>Request rules\<close>

text \<open>The options; the flag says whether \<open>header=\<close> was given.\<close>

definition request_opt ::
    "vdpc_policy \<Rightarrow> version \<Rightarrow> string \<Rightarrow> vdpc_rule \<times> bool \<Rightarrow> string + (vdpc_rule \<times> bool)" where
  "request_opt pol v t st =
     (let (r, hdr) = st in
      if starts ''for='' t then
        (if \<not> ver_ge v (1, 31) then Inl ''for= before 1.31''
         else map_sum id (\<lambda>r. (r, hdr)) (for_subject pol (drop 4 t) r))
      else if starts ''credential='' t \<or> starts ''header='' t then
        (if \<not> ver_ge v (1, 28) then Inl ''credential option before 1.28''
         else if \<not> r_allow r then Inl ''credential option on a deny rule''
         else if starts ''credential='' t then map_sum id (\<lambda>r. (r, hdr)) (opt_credential pol (drop 11 t) r)
         else if hdr then Inl ''header given twice''
         else map_sum id (\<lambda>(h, sch). (r\<lparr>r_hdr := h, r_scheme := sch\<rparr>, True)) (opt_header (drop 7 t)))
      else if \<not> starts ''max_body='' t then Inl ''unknown request rule option''
      else if \<not> r_allow r then Inl ''max_body on a deny rule''
      else map_sum id (\<lambda>r. (r, hdr)) (opt_body (drop 9 t) r))"

fun fold_opts :: "(string \<Rightarrow> 'a \<Rightarrow> string + 'a) \<Rightarrow> string list \<Rightarrow> 'a \<Rightarrow> string + 'a" where
  "fold_opts f [] st = Inr st"
| "fold_opts f (t # ts) st = (case f t st of Inl e \<Rightarrow> Inl e | Inr st \<Rightarrow> fold_opts f ts st)"

definition cred_of :: "vdpc_policy \<Rightarrow> vdpc_rule \<Rightarrow> vdpc_cred" where
  "cred_of pol r = p_creds pol ! (r_cred r - 1)"

definition parse_request_rule ::
    "allocs \<Rightarrow> version \<Rightarrow> nat \<Rightarrow> vdpc_rule \<Rightarrow> vdpc_policy \<Rightarrow> string list \<Rightarrow> (string + (vdpc_rule \<times> nat)) \<times> allocs" where
  "parse_request_rule al v gtot r pol tok =
     (if \<not> ver_ge v (1, 26) then (Inl ''request rule before 1.26'', al)
      else if length tok < 4 then (Inl ''bad request rule'', al)
      else if list_ex control_byte (tok ! 2) \<or> list_ex control_byte (tok ! 3) then
        (Inl ''control byte in constant'', al)
      else case req_parse al (tok ! 2) (tok ! 3) of
        (Inl e, al) \<Rightarrow> (Inl e, al)
      | (Inr q, al) \<Rightarrow>
          let r = r\<lparr>r_c := rq_glob q, r_match := M_GLOB, r_rhost := rq_host q, r_rwild := rq_wild q,
                    r_rport := rq_port q, r_qmode := (if CHR ''?'' \<notin> set (tok ! 3) then if r_allow r then 1 else 2 else 0)\<rparr>
          in case rule_glob al gtot r of
            (Inl e, al) \<Rightarrow> (Inl e, al)
          | (Inr (r, gtot), al) \<Rightarrow>
              (case fold_opts (request_opt pol v) (drop 4 tok) (r, False) of
                 Inl e \<Rightarrow> (Inl e, al)
               | Inr (r, hdr) \<Rightarrow>
                   if (r_cred r \<noteq> 0) \<noteq> hdr then (Inl ''credential and header go together'', al)
                   else if r_cred r \<noteq> 0 \<and> cr_audience (cred_of pol r) \<noteq> [] then
                     (Inl ''an MCP access token on a request rule'', al)
                   else if r_cred r \<noteq> 0 \<and> \<not> starts ''https://'' (tok ! 3) then (Inl ''credential on http'', al)
                   else (Inr (r, gtot), al)))"

section \<open>MCP rules and servers\<close>

definition mcp_opt :: "vdpc_policy \<Rightarrow> string \<Rightarrow> vdpc_rule \<times> bool \<Rightarrow> string + (vdpc_rule \<times> bool)" where
  "mcp_opt pol t st =
     (let (r, hdr) = st in
      if starts ''for='' t then map_sum id (\<lambda>r. (r, hdr)) (for_subject pol (drop 4 t) r)
      else if \<not> r_allow r then Inl ''an option on a deny mcp rule''
      else if starts ''credential='' t then map_sum id (\<lambda>r. (r, hdr)) (opt_credential pol (drop 11 t) r)
      else if starts ''header='' t then
        (if hdr then Inl ''header given twice''
         else map_sum id (\<lambda>(h, sch). (r\<lparr>r_hdr := h, r_scheme := sch\<rparr>, True)) (opt_header (drop 7 t)))
      else if starts ''max_body='' t then map_sum id (\<lambda>r. (r, hdr)) (opt_body (drop 9 t) r)
      else Inl ''unknown mcp rule option'')"

definition mcp_final :: "vdpc_policy \<Rightarrow> string \<Rightarrow> vdpc_rule \<Rightarrow> bool \<Rightarrow> string + vdpc_rule" where
  "mcp_final pol cu r hdr =
     (if hdr \<and> r_cred r = 0 then Inl ''header without credential''
      else if r_cred r = 0 then Inr r
      else if \<not> starts ''https://'' cu then Inl ''credential on http''
      else
        let r = (if \<not> hdr then r\<lparr>r_hdr := ''Authorization'', r_scheme := ''Bearer''\<rparr> else r);
            aud = cr_audience (cred_of pol r)
        in if aud \<noteq> [] \<and> aud \<noteq> cu then Inl ''a token for another server''
        else if aud \<noteq> [] \<and> (map tolower (r_hdr r) \<noteq> ''authorization'' \<or> map tolower (r_scheme r) \<noteq> ''bearer'') then
          Inl ''an MCP access token outside Authorization: Bearer''
        else Inr r)"

definition mcp_option :: "string \<Rightarrow> bool" where
  "mcp_option t \<longleftrightarrow>
     starts ''max_body='' t \<or> starts ''credential='' t \<or> starts ''header='' t \<or> starts ''for='' t"

definition parse_mcp_rule ::
    "allocs \<Rightarrow> version \<Rightarrow> nat \<Rightarrow> vdpc_rule \<Rightarrow> vdpc_policy \<Rightarrow> string list \<Rightarrow> (string + (vdpc_rule \<times> nat)) \<times> allocs" where
  "parse_mcp_rule al v gtot r pol tok =
     (if \<not> ver_ge v (1, 31) then (Inl ''mcp rule before 1.31'', al)
      else if length tok < 4 then (Inl ''bad mcp rule'', al)
      else case mcp_canon (tok ! 2) False 4200 of
        None \<Rightarrow> (Inl ''bad MCP URL'', al)
      | Some (cu, host, port) \<Rightarrow>
          if \<not> mcp_method (tok ! 3) True then (Inl ''bad MCP method'', al)
          else
            let named = length tok > 4 \<and> \<not> mcp_option (tok ! 4); nm = (if named then tok ! 4 else ''**'');
                opts = drop (if named then 5 else 4) tok
            in if named \<and> (\<not> printable (tok ! 4) 1 4095 \<or> CHR ''#'' \<in> set (tok ! 4)) then (Inl ''bad MCP name'', al)
            else
              let obj = cu @ ''#'' @ tok ! 3 @ ''#'' @ nm in
              if length obj > VDPC_MAX_S then (Inl ''mcp object over the bound'', al)
              else
                let (ok, al) = take_alloc al in
                if \<not> ok then (Inl ''out of memory'', al)
                else case rule_glob al gtot (r\<lparr>r_rhost := host, r_rport := port, r_c := obj, r_match := M_GLOB\<rparr>) of
                  (Inl e, al) \<Rightarrow> (Inl e, al)
                | (Inr (r, gtot), al) \<Rightarrow>
                    (case fold_opts (mcp_opt pol) opts (r, False) of
                       Inl e \<Rightarrow> (Inl e, al)
                     | Inr (r, hdr) \<Rightarrow> (map_sum id (\<lambda>r. (r, gtot)) (mcp_final pol cu r hdr), al)))"

definition lower_hex :: "char \<Rightarrow> bool" where
  "lower_hex c \<longleftrightarrow> isdigit c \<or> (97 \<le> byte c \<and> byte c \<le> 102)"

definition parse_mcp_server :: "allocs \<Rightarrow> version \<Rightarrow> nat \<Rightarrow> string list \<Rightarrow> (string + vdpc_rule) \<times> allocs" where
  "parse_mcp_server al v ln tok =
     (if \<not> ver_ge v (1, 31) then (Inl ''mcp server before 1.31'', al)
      else if \<not> ((length tok = 5 \<or> length tok = 6) \<and> tok ! 1 = ''server'' \<and> tok ! 3 = ''exec'') then
        (Inl ''bad mcp server directive'', al)
      else if \<not> short_name (tok ! 2) then (Inl ''bad server name'', al)
      else if \<not> printable (tok ! 4) 2 1024 \<or> \<not> clean_abs_path (tok ! 4) then (Inl ''bad server path'', al)
      else if runs_others (tok ! 4) then (Inl ''a server's file is an interpreter or a launcher'', al)
      else if length tok = 6 \<and>
        (\<not> starts ''sha256='' (tok ! 5) \<or> length (tok ! 5) \<noteq> 71 \<or> \<not> list_all lower_hex (drop 7 (tok ! 5)))
      then (Inl ''bad sha256'', al)
      else
        let (ok, al) = take_alloc al in
        if \<not> ok then (Inl ''out of memory'', al)
        else (Inr ((empty_rule ln)\<lparr>r_sha256 := (if length tok = 6 then drop 7 (tok ! 5) else []), r_c := tok ! 4,
                     r_allow := True, r_kind := VDPC_EXEC, r_match := M_EXACT, r_subagent := tok ! 2,
                     r_mcp_server := True\<rparr>), al))"

section \<open>Path, host and exec rules\<close>

definition is_clause :: "string \<Rightarrow> bool" where
  "is_clause t \<longleftrightarrow>
     t = ''readonly'' \<or> t = ''access=ro'' \<or> t = ''access=wo'' \<or> t = ''access=rw'' \<or>
     (t \<noteq> [] \<and> (hd t = CHR ''+'' \<or> hd t = CHR ''-'') \<and> flag_named (tl t) \<noteq> 0)"

definition flag_clause :: "string \<Rightarrow> (u32 \<times> u32) option" where
  "flag_clause t =
     (if t = ''readonly'' then Some (ACCMODE OR 64 OR 512, 0)
      else if t = ''access=ro'' then Some (ACCMODE, 0)
      else if t = ''access=wo'' then Some (ACCMODE, 1)
      else if t = ''access=rw'' then Some (ACCMODE, 2)
      else if t \<noteq> [] \<and> (hd t = CHR ''+'' \<or> hd t = CHR ''-'') \<and> flag_named (tl t) \<noteq> 0 then
        Some (flag_named (tl t), if hd t = CHR ''+'' then flag_named (tl t) else 0)
      else None)"

definition KW :: "(string \<times> vmatch) list" where
  "KW = [(''exact'', M_EXACT), (''prefix'', M_PREFIX), (''suffix'', M_SUFFIX), (''contains'', M_CONTAINS),
         (''glob'', M_GLOB)]"

text \<open>The matcher word, when there is one before the constant: the match and the constant's place.\<close>

definition rule_matcher :: "version \<Rightarrow> vdpc_rule \<Rightarrow> string list \<Rightarrow> string + (vdpc_rule \<times> nat)" where
  "rule_matcher v r tok =
     (case map_of KW (tok ! 2) of
        None \<Rightarrow> Inr (r, 2)
      | Some m \<Rightarrow>
          if length tok \<ge> 4 \<and> \<not> is_clause (tok ! 3) then
            (if r_kind r = VDPC_HOST then Inl ''matcher on a host rule'' else Inr (r\<lparr>r_match := m\<rparr>, 3))
          else if ver_ge v (1, 14) then Inl ''matcher without a constant''
          else Inr (r, 2))"

text \<open>A host constant; \<open>legacy\<close> is the line of the first name read before names were checked (0: none).\<close>

definition wild_glob :: "string \<Rightarrow> string" where
  "wild_glob c =
     (let h = takeWhile (\<lambda>b. b \<noteq> CHR '':'') (drop 2 c) in
      ''?*.'' @ h @ '':'' @ (if 2 + length h < length c then drop (2 + length h + 1) c else ''*''))"

definition rule_host :: "allocs \<Rightarrow> version \<Rightarrow> nat \<Rightarrow> vdpc_rule \<Rightarrow> (string + (vdpc_rule \<times> nat)) \<times> allocs" where
  "rule_host al v legacy r =
     (let c = r_c r in
      if starts ''*.'' c \<and> ver_ge v (1, 24) then
        (if \<not> ver_ge v (1, 25) then (Inl ''wildcard before 1.25'', al)
         else if host_name_form (drop 2 c) \<noteq> Inr True then (Inl ''bad wildcard'', al)
         else if CHR ''.'' \<notin> set (takeWhile (\<lambda>b. b \<noteq> CHR '':'') (drop 2 c)) then (Inl ''wildcard over one label'', al)
         else if length (wild_glob c) > VDPC_MAX_S then (Inl ''constant length'', al)
         else
           let (ok, al) = take_alloc al in
           if \<not> ok then (Inl ''out of memory'', al)
           else (Inr (r\<lparr>r_c := wild_glob c, r_match := M_GLOB, r_name := True, r_wild := True\<rparr>, legacy), al))
      else if host_name_form c \<noteq> Inr False \<and> ver_ge v (1, 24) then
        (case host_name_form c of
           Inl why \<Rightarrow> (Inl why, al)
         | Inr _ \<Rightarrow> (Inr (r\<lparr>r_name := True, r_portless := CHR '':'' \<notin> set c\<rparr>, legacy), al))
      else
        (Inr (r\<lparr>r_portless :=
             (if CHR '':'' \<in> set c then
                length c \<ge> 2 \<and> hd c = CHR ''['' \<and> last c = CHR '']'' \<and> CHR '']'' \<notin> set (butlast (tl c))
              else ipv4_quad c)\<rparr>,
            if host_name_form c \<noteq> Inr False \<and> legacy = 0 then r_line r else legacy), al))"

text \<open>One option of the rule; the flag says whether the acknowledgment was given.\<close>

definition budget_value :: "bool \<Rightarrow> string \<Rightarrow> string + nat" where
  "budget_value nm d =
     (if d = [] \<or> length d > 6 \<or> hd d = CHR ''0'' then Inl ''bad budget''
      else if \<not> list_all isdigit d then Inl ''bad budget''
      else if digits_value d > (if nm then 100000 else 10000) then Inl ''budget out of range''
      else Inr (digits_value d))"

definition rule_opt ::
    "vdpc_policy \<Rightarrow> version \<Rightarrow> string \<Rightarrow> vdpc_rule \<times> bool \<Rightarrow> string + (vdpc_rule \<times> bool)" where
  "rule_opt pol v t st =
     (let (r, ack) = st in
      if r_kind r = VDPC_HOST \<and> starts ''acknowledge='' t then
        (if drop 12 t \<noteq> ''dns-channel'' then Inl ''unknown acknowledgment''
         else if \<not> r_wild r \<or> \<not> r_allow r then
           Inl ''an acknowledgment on a rule that is not a wildcard allow''
         else if ack then Inl ''acknowledgment given twice''
         else Inr (r, True))
      else if r_kind r = VDPC_HOST \<and> (starts ''names='' t \<or> starts ''rate='' t) then
        (let nm = starts ''names='' t; d = drop (if nm then 6 else 5) t in
         if \<not> r_wild r \<or> \<not> r_allow r then Inl ''a budget on a rule that is not a wildcard allow''
         else case budget_value nm d of
           Inl e \<Rightarrow> Inl e
         | Inr x \<Rightarrow>
             if (if nm then r_names r else r_rate r) \<noteq> 0 then Inl ''budget given twice''
             else Inr (if nm then r\<lparr>r_names := x\<rparr> else r\<lparr>r_rate := x\<rparr>, ack))
      else if starts ''for='' t then
        (if \<not> ver_ge v (1, 31) then Inl ''for= before 1.31''
         else map_sum id (\<lambda>r. (r, ack)) (for_subject pol (drop 4 t) r))
      else if t = ''confined'' then
        (if \<not> ver_ge v (1, 31) then Inl ''confined before 1.31''
         else if r_confined r then Inl ''confined given twice''
         else Inr (r\<lparr>r_confined := True\<rparr>, ack))
      else if starts ''subagent='' t then
        (if \<not> ver_ge v (1, 28) then Inl ''subagent before 1.28''
         else if r_kind r \<noteq> VDPC_EXEC \<or> \<not> r_allow r then Inl ''subagent on a rule that is not allow exec''
         else if r_subagent r \<noteq> [] then Inl ''subagent given twice''
         else if \<not> short_name (drop 9 t) then Inl ''bad sub-agent name''
         else Inr (r\<lparr>r_subagent := drop 9 t\<rparr>, ack))
      else if r_kind r \<noteq> VDPC_PATH then Inl ''flag clause on a non-path rule''
      else case flag_clause t of
        None \<Rightarrow> Inl ''unknown flag clause''
      | Some (m, val) \<Rightarrow>
          if r_value r AND (r_mask r AND m) \<noteq> val AND (r_mask r AND m) then Inl ''contradictory flag clause''
          else Inr (r\<lparr>r_mask := r_mask r OR m, r_value := r_value r OR (val AND m)\<rparr>, ack))"

definition rule_final :: "vdpc_rule \<Rightarrow> bool \<Rightarrow> string + vdpc_rule" where
  "rule_final r ack =
     (if r_kind r = VDPC_HOST \<and> r_wild r \<and> r_allow r \<and> \<not> ack then
        Inl ''a wildcard allow without acknowledge=dns-channel''
      else if r_confined r \<and> r_subagent r = [] then Inl ''confined without subagent=''
      else Inr r)"

definition parse_plain_rule ::
    "allocs \<Rightarrow> version \<Rightarrow> nat \<Rightarrow> nat \<Rightarrow> vdpc_rule \<Rightarrow> vdpc_policy \<Rightarrow> string list \<Rightarrow>
      (string + (vdpc_rule \<times> nat \<times> nat)) \<times> allocs" where
  "parse_plain_rule al v legacy gtot r pol tok =
     (case rule_matcher v r tok of
        Inl e \<Rightarrow> (Inl e, al)
      | Inr (r, ci) \<Rightarrow>
          let c = tok ! ci in
          if length c < 1 \<or> length c > VDPC_MAX_S then (Inl ''constant length'', al)
          else if list_ex control_byte c then (Inl ''control byte in constant'', al)
          else
            let (ok, al) = take_alloc al; r = r\<lparr>r_c := c\<rparr> in
            if \<not> ok then (Inl ''out of memory'', al)
            else case (if r_kind r = VDPC_HOST then rule_host al v legacy r else (Inr (r, legacy), al)) of
              (Inl e, al) \<Rightarrow> (Inl e, al)
            | (Inr (r, legacy), al) \<Rightarrow>
                (case (if r_match r = M_GLOB then rule_glob al gtot r else (Inr (r, gtot), al)) of
                   (Inl e, al) \<Rightarrow> (Inl e, al)
                 | (Inr (r, gtot), al) \<Rightarrow>
                     (case fold_opts (rule_opt pol v) (drop (ci + 1) tok) (r, False) of
                        Inl e \<Rightarrow> (Inl e, al)
                      | Inr (r, ack) \<Rightarrow> (map_sum id (\<lambda>r. (r, legacy, gtot)) (rule_final r ack), al))))"

definition parse_rule ::
    "allocs \<Rightarrow> nat \<Rightarrow> version \<Rightarrow> nat \<Rightarrow> nat \<Rightarrow> vdpc_policy \<Rightarrow> string list \<Rightarrow>
      (string + (vdpc_rule \<times> nat \<times> nat)) \<times> allocs" where
  "parse_rule al ln v legacy gtot pol tok =
     (if tok ! 0 \<noteq> ''allow'' \<and> tok ! 0 \<noteq> ''deny'' then (Inl ''unknown verb'', al)
      else
        let r = (empty_rule ln)\<lparr>r_allow := (tok ! 0 = ''allow'')\<rparr> in
        if tok ! 1 = ''path'' then
          parse_plain_rule al v legacy gtot (r\<lparr>r_kind := VDPC_PATH, r_match := M_PREFIX\<rparr>) pol tok
        else if tok ! 1 = ''host'' then
          parse_plain_rule al v legacy gtot (r\<lparr>r_kind := VDPC_HOST, r_match := M_HOST\<rparr>) pol tok
        else if tok ! 1 = ''exec'' then
          parse_plain_rule al v legacy gtot (r\<lparr>r_kind := VDPC_EXEC, r_match := M_EXACT\<rparr>) pol tok
        else if tok ! 1 = ''request'' then
          (case parse_request_rule al v gtot (r\<lparr>r_kind := VDPC_REQUEST\<rparr>) pol tok of
             (Inl e, al) \<Rightarrow> (Inl e, al) | (Inr (r, gtot), al) \<Rightarrow> (Inr (r, legacy, gtot), al))
        else if tok ! 1 = ''mcp'' then
          (case parse_mcp_rule al v gtot (r\<lparr>r_kind := VDPC_MCP\<rparr>) pol tok of
             (Inl e, al) \<Rightarrow> (Inl e, al) | (Inr (r, gtot), al) \<Rightarrow> (Inr (r, legacy, gtot), al))
        else (Inl ''unknown kind'', al))"

section \<open>Trust and credentials\<close>

definition host_like :: "string \<Rightarrow> bool" where
  "host_like d \<longleftrightarrow>
     1 \<le> length d \<and> length d \<le> 255 \<and> (islower (hd d) \<or> isdigit (hd d)) \<and>
     list_all (\<lambda>c. islower c \<or> isdigit c \<or> c \<in> set ''._-'') d"

definition trust_resource :: "version \<Rightarrow> vdpc_policy \<Rightarrow> nat \<Rightarrow> string list \<Rightarrow> string + vdpc_policy" where
  "trust_resource v p ln tok =
     (if \<not> ver_ge v (1, 31) then Inl ''mcp-resource before 1.31''
      else if \<not> (length tok = 3 \<or> (length tok = 5 \<and> tok ! 3 = ''audience'')) then
        Inl ''bad trust mcp-resource directive''
      else if length (tok ! 2) > 255 \<or> mcp_canon (tok ! 2) True 4200 = None then Inl ''bad MCP resource URL''
      else if length tok = 5 \<and> \<not> printable (tok ! 4) 1 255 then Inl ''bad audience''
      else if tok ! 2 \<in> set (map mr_url (p_mcpres p)) then Inl ''MCP resource trusted twice''
      else if length (p_mcpres p) = 8 then Inl ''more than 8 MCP resources''
      else Inr (p\<lparr>p_mcpres := p_mcpres p @
             [\<lparr>mr_url = tok ! 2, mr_aud = (if length tok = 5 then tok ! 4 else []), mr_line = ln\<rparr>]\<rparr>))"

definition trust_issuer :: "vdpc_policy \<Rightarrow> nat \<Rightarrow> string list \<Rightarrow> string + vdpc_policy" where
  "trust_issuer p ln tok =
     (if \<not> ((length tok = 5 \<or> length tok = 7) \<and> tok ! 3 = ''audience'' \<and> (length tok = 5 \<or> tok ! 5 = ''jwks''))
      then Inl ''bad trust issuer directive''
      else if \<not> https_with_host (tok ! 2) 255 \<or> \<not> printable (tok ! 4) 1 255 \<or>
        (length tok = 7 \<and> \<not> https_with_host (tok ! 6) 1024)
      then Inl ''bad issuer, audience or jwks''
      else if tok ! 2 \<in> set (map is_iss (p_issuers p)) then Inl ''issuer trusted twice''
      else if length (p_issuers p) = VDPC_MAX_ISSUERS then Inl ''more than 8 issuers''
      else Inr (p\<lparr>p_issuers := p_issuers p @
             [\<lparr>is_iss = tok ! 2, is_aud = tok ! 4, is_jwks = (if length tok = 7 then tok ! 6 else []), is_line = ln\<rparr>]\<rparr>))"

definition trust_spiffe :: "vdpc_policy \<Rightarrow> nat \<Rightarrow> string list \<Rightarrow> string + vdpc_policy" where
  "trust_spiffe p ln tok =
     (if length tok \<noteq> 5 \<or> tok ! 3 \<noteq> ''bundle'' then Inl ''bad trust spiffe directive''
      else if \<not> host_like (tok ! 2) then Inl ''bad trust domain''
      else if \<not> printable (tok ! 4) 2 1024 \<or> \<not> clean_abs_path (tok ! 4) then Inl ''bad bundle path''
      else if tok ! 2 \<in> set (map sp_domain (p_spiffe p)) then Inl ''trust domain twice''
      else if length (p_spiffe p) = VDPC_MAX_SPIFFE then Inl ''more than 8 trust domains''
      else Inr (p\<lparr>p_spiffe := p_spiffe p @ [\<lparr>sp_domain = tok ! 2, sp_bundle = tok ! 4, sp_line = ln\<rparr>]\<rparr>))"

definition parse_trust :: "version \<Rightarrow> vdpc_policy \<Rightarrow> nat \<Rightarrow> string list \<Rightarrow> string + vdpc_policy" where
  "parse_trust v p ln tok =
     (if length tok \<ge> 2 \<and> tok ! 1 = ''mcp-resource'' then trust_resource v p ln tok
      else if length tok \<ge> 2 \<and> tok ! 1 = ''issuer'' then trust_issuer p ln tok
      else if length tok \<ge> 2 \<and> tok ! 1 = ''spiffe'' then trust_spiffe p ln tok
      else Inl ''bad trust directive'')"

definition cred_store :: "string \<Rightarrow> (nat \<times> string) option" where
  "cred_store v =
     (if starts ''file:'' v then Some (1, drop 5 v)
      else if starts ''vault:'' v then Some (2, drop 6 v)
      else if starts ''aws-sm:'' v then Some (3, drop 7 v)
      else None)"

text \<open>The reference of a credential in its store: the error, if there is one.\<close>

definition field_byte :: "char \<Rightarrow> bool" where
  "field_byte c \<longleftrightarrow> isalpha c \<or> isdigit c \<or> c = CHR ''_'' \<or> c = CHR ''.'' \<or> c = CHR ''-''"

definition cred_ref_error :: "nat \<Rightarrow> string \<Rightarrow> string option" where
  "cred_ref_error store r =
     (if r = [] \<or> length r > 1024 then Some ''bad credential reference''
      else if list_ex (\<lambda>c. byte c \<le> 0x20 \<or> byte c \<ge> 0x7f) r then Some ''bad credential reference''
      else if store = 1 then (if \<not> clean_abs_path r then Some ''bad file credential path'' else None)
      else if store = 2 then
        (let b = takeWhile (\<lambda>c. c \<noteq> CHR ''#'') r; f = drop (length b + 1) r in
         if length b = length r \<or> b = [] \<or> hd r = slash \<or> CHR ''#'' \<in> set f \<or> f = [] then
           Some ''bad vault credential reference''
         else if \<not> list_all field_byte f then Some ''bad vault credential field''
         else None)
      else if length r < 4 \<or> \<not> starts ''arn:'' r \<or> \<not> memmem r '':secretsmanager:'' then
        Some ''bad aws-sm credential reference''
      else None)"

text \<open>The audience of a credential: none without the option, else its URL in canonical form.\<close>

definition cred_audience :: "version \<Rightarrow> string list \<Rightarrow> string + string" where
  "cred_audience v tok =
     (if length tok < 5 then Inr []
      else if \<not> ver_ge v (1, 31) then Inl ''audience before 1.31''
      else if \<not> starts ''audience='' (tok ! 4) \<or> (length tok = 6 \<and> tok ! 5 \<noteq> ''opaque'') then
        Inl ''bad credential directive''
      else case mcp_canon (drop 9 (tok ! 4)) True 4200 of
        None \<Rightarrow> Inl ''bad audience URL''
      | Some (aud, host, port) \<Rightarrow>
          if length aud \<ge> 4096 then Inl ''an MCP server's URL is too long'' else Inr aud)"

definition parse_credential :: "version \<Rightarrow> vdpc_policy \<Rightarrow> nat \<Rightarrow> string list \<Rightarrow> string + vdpc_policy" where
  "parse_credential v p ln tok =
     (if length tok < 4 \<or> length tok > 6 \<or> tok ! 2 \<noteq> ''from'' then Inl ''bad credential directive''
      else case cred_audience v tok of
        Inl e \<Rightarrow> Inl e
      | Inr aud \<Rightarrow>
          if \<not> short_name (tok ! 1) then Inl ''bad credential name''
          else if tok ! 1 \<in> set (map cr_name (p_creds p)) then Inl ''credential named twice''
          else if length (p_creds p) = VDPC_MAX_CREDS then Inl ''more than 32 credentials''
          else case cred_store (tok ! 3) of
            None \<Rightarrow> Inl ''bad credential store''
          | Some (store, r) \<Rightarrow>
              (case cred_ref_error store r of
                 Some e \<Rightarrow> Inl e
               | None \<Rightarrow>
                   Inr (p\<lparr>p_creds := p_creds p @
                     [\<lparr>cr_name = tok ! 1, cr_store = store, cr_ref = r, cr_line = ln, cr_audience = aud,
                       cr_opaque = (length tok = 6)\<rparr>]\<rparr>)))"

section \<open>Proxy statements\<close>

definition passthrough_host :: "vdpc_policy \<Rightarrow> string \<Rightarrow> string + vdpc_policy" where
  "passthrough_host p h =
     (if CHR '':'' \<in> set h \<or> host_name_form h \<noteq> Inr True \<or> length h > 253 then Inl ''bad passthrough host''
      else if h \<in> set (p_proxy_pass p) then Inl ''passthrough host twice''
      else if length (p_proxy_pass p) = 64 then Inl ''more than 64 passthrough hosts''
      else Inr (p\<lparr>p_proxy_pass := p_proxy_pass p @ [h]\<rparr>))"

definition proxy_port :: "string \<Rightarrow> vdpc_policy \<Rightarrow> string + vdpc_policy" where
  "proxy_port d p =
     (if d = [] \<or> length d > 5 \<or> hd d = CHR ''0'' then Inl ''bad port''
      else if \<not> list_all isdigit d then Inl ''bad port''
      else if digits_value d > 65535 then Inl ''bad port''
      else if digits_value d \<in> set (p_proxy_ports p) then Inl ''port twice''
      else Inr (p\<lparr>p_proxy_ports := p_proxy_ports p @ [digits_value d]\<rparr>))"

definition proxy_statement :: "version \<Rightarrow> vdpc_policy \<Rightarrow> string list \<Rightarrow> string + vdpc_policy" where
  "proxy_statement v p tok =
     (if \<not> ver_ge v (1, 26) then Inl ''proxy before require warden 1.26''
      else if length tok = 2 \<and> (tok ! 1 = ''on'' \<or> tok ! 1 = ''inspect'') then
        (if p_proxy p then Inl ''proxy mode given twice''
         else Inr (p\<lparr>p_proxy := True, p_proxy_inspect := (hd (tok ! 1) = CHR ''i'')\<rparr>))
      else if length tok = 4 \<and> tok ! 1 = ''passthrough'' \<and> tok ! 2 = ''host'' then passthrough_host p (tok ! 3)
      else if length tok \<ge> 3 \<and> tok ! 1 = ''ports'' \<and> p_proxy_ports p = [] \<and> length tok - 2 \<le> 16 then
        fold_opts proxy_port (drop 2 tok) p
      else if length tok = 3 \<and> tok ! 1 = ''upstream'' \<and> p_proxy_up_port p = 0 then
        (case up_parse (tok ! 2) of
           None \<Rightarrow> Inl ''bad proxy upstream''
         | Some (h, x) \<Rightarrow> Inr (p\<lparr>p_proxy_up_host := h, p_proxy_up_port := x\<rparr>))
      else Inl ''bad proxy directive'')"

section \<open>Statements\<close>

text \<open>The policy so far, the version required, the line of the first unchecked host name, and the number of
  glob tokens.\<close>

record load_state =
  l_policy :: vdpc_policy
  l_req :: version
  l_legacy :: nat
  l_gtot :: nat

definition require_statement :: "load_state \<Rightarrow> string list \<Rightarrow> string + load_state" where
  "require_statement st tok =
     (let p = l_policy st; v = l_req st in
      if length tok \<ge> 2 \<and> tok ! 1 = ''on-behalf-of'' then
        (if length tok \<noteq> 2 then Inl ''bad require on-behalf-of''
         else if \<not> ver_ge v (1, 28) then Inl ''on-behalf-of before 1.28''
         else if p_require_obo p then Inl ''on-behalf-of twice''
         else Inr (st\<lparr>l_policy := p\<lparr>p_require_obo := True\<rparr>\<rparr>))
      else if length tok \<ge> 2 \<and> tok ! 1 = ''plan'' then
        (if length tok \<noteq> 2 then Inl ''bad require plan''
         else if \<not> ver_ge v (1, 35) then Inl ''require plan before 1.35''
         else if p_require_plan p then Inl ''require plan twice''
         else Inr (st\<lparr>l_policy := p\<lparr>p_require_plan := True\<rparr>\<rparr>))
      else if length tok \<noteq> 3 \<or> tok ! 1 \<noteq> ''warden'' then Inl ''bad directive''
      else case parse_ver (tok ! 2) of
        None \<Rightarrow> Inl ''bad directive''
      | Some w \<Rightarrow>
          if \<not> ver_ge VDPC_GRAMMAR w then Inl ''policy requires a newer Warden''
          else if l_legacy st \<noteq> 0 \<and> ver_ge w (1, 24) then
            Inl ''require warden after a host name it would change''
          else if ver_ge w v then Inr (st\<lparr>l_req := w\<rparr>)
          else Inr st)"

definition server_statement ::
    "allocs \<Rightarrow> nat \<Rightarrow> load_state \<Rightarrow> string list \<Rightarrow> (string + load_state) \<times> allocs" where
  "server_statement al ln st tok =
     (let p = l_policy st in
      if length (p_rules p) = VDPC_MAX_RULES then (Inl ''more than 512 rules'', al)
      else case parse_mcp_server al (l_req st) ln tok of
        (Inl e, al) \<Rightarrow> (Inl e, al)
      | (Inr r, al) \<Rightarrow>
          (map_sum id (\<lambda>p. st\<lparr>l_policy := p\<rparr>)
             (subj_register (p\<lparr>p_rules := p_rules p @ [r]\<rparr>) (length (p_rules p)) True ln), al))"

definition rule_statement ::
    "allocs \<Rightarrow> nat \<Rightarrow> load_state \<Rightarrow> string list \<Rightarrow> (string + load_state) \<times> allocs" where
  "rule_statement al ln st tok =
     (let p = l_policy st in
      if length tok < 3 then (Inl ''bad rule'', al)
      else if length (p_rules p) = VDPC_MAX_RULES then (Inl ''more than 512 rules'', al)
      else case parse_rule al ln (l_req st) (l_legacy st) (l_gtot st) p tok of
        (Inl e, al) \<Rightarrow> (Inl e, al)
      | (Inr (r, legacy, gtot), al) \<Rightarrow>
          let p' = p\<lparr>p_rules := p_rules p @ [r]\<rparr>; st = st\<lparr>l_legacy := legacy, l_gtot := gtot\<rparr> in
          if r_confined r then
            (map_sum id (\<lambda>p. st\<lparr>l_policy := p\<rparr>) (subj_register p' (length (p_rules p)) False ln), al)
          else if r_subagent r \<noteq> [] \<and> subj_named p' (r_subagent r) \<noteq> 0 then
            (Inl ''a confined name used by an unconfined sub-agent'', al)
          else (Inr (st\<lparr>l_policy := p'\<rparr>), al))"

definition load_statement ::
    "allocs \<Rightarrow> nat \<Rightarrow> load_state \<Rightarrow> string list \<Rightarrow> (string + load_state) \<times> allocs" where
  "load_statement al ln st tok =
     (let put = map_sum id (\<lambda>p. st\<lparr>l_policy := p\<rparr>); p = l_policy st; v = l_req st in
      if hd tok = ''require'' then (require_statement st tok, al)
      else if hd tok = ''proxy'' then (put (proxy_statement v p tok), al)
      else if hd tok = ''trust'' then
        (if \<not> ver_ge v (1, 28) then Inl ''trust before require warden 1.28'' else put (parse_trust v p ln tok), al)
      else if hd tok = ''credential'' then
        (if \<not> ver_ge v (1, 28) then Inl ''credential before require warden 1.28''
         else put (parse_credential v p ln tok), al)
      else if hd tok = ''mcp'' then server_statement al ln st tok
      else rule_statement al ln st tok)"

section \<open>Lines\<close>

text \<open>The words of a line, up to one that begins with \<open>#\<close>; a 65th word is an error.\<close>

function line_tokens :: "nat \<Rightarrow> string \<Rightarrow> string list option" where
  "line_tokens n l =
     (let q = dropWhile isspace l in
      if q = [] \<or> hd q = CHR ''#'' then Some []
      else if n = 64 then None
      else map_option (\<lambda>ts. takeWhile (\<lambda>c. \<not> isspace c) q # ts)
             (line_tokens (n + 1) (drop (length (takeWhile (\<lambda>c. \<not> isspace c) q) + 1) q)))"
  by pat_completeness auto
termination
proof (relation "measure (\<lambda>(n, l). length l)", goal_cases)
  case 1
  show ?case by simp
next
  case (2 n l q)
  then have "q \<noteq> []" "length q \<le> length l" by (simp_all add: length_dropWhile_le)
  then show ?case by (cases q) auto
qed

declare line_tokens.simps [simp del]

definition LINE_MAX :: nat where "LINE_MAX = 16384"

definition load_vline ::
    "allocs \<Rightarrow> nat \<Rightarrow> load_state \<Rightarrow> string \<Rightarrow> (string + load_state) \<times> allocs" where
  "load_vline al ln st l =
     (if CHR 0x00 \<in> set l then (Inl ''NUL byte'', al)
      else
        let (ok, al) = (if length l + 1 > LINE_MAX then take_alloc al else (True, al)) in
        if \<not> ok then (Inl ''out of memory'', al)
        else case line_tokens 0 l of
          None \<Rightarrow> (Inl ''more than 64 tokens'', al)
        | Some [] \<Rightarrow> (Inr st, al)
        | Some tok \<Rightarrow> load_statement al ln st tok)"

function load_vlines ::
    "allocs \<Rightarrow> nat \<Rightarrow> load_state \<Rightarrow> string \<Rightarrow> ((nat \<times> string) + load_state) \<times> nat \<times> allocs" where
  "load_vlines al ln st buf =
     (if buf = [] then (Inr st, ln, al)
      else
        let l = takeWhile (\<lambda>c. c \<noteq> newline) buf in
        case load_vline al (ln + 1) st l of
          (Inl e, al) \<Rightarrow> (Inl (ln + 1, e), ln + 1, al)
        | (Inr st, al) \<Rightarrow> load_vlines al (ln + 1) st (drop (length l + 1) buf))"
  by pat_completeness auto
termination by (relation "measure (\<lambda>(al, ln, st, buf). length buf)") auto

declare load_vlines.simps [simp del]

section \<open>The whole policy\<close>

text \<open>A request or mcp rule needs inspection, a proxied port, and a host that is not passed through.\<close>

definition passes :: "vdpc_rule \<Rightarrow> string \<Rightarrow> bool" where
  "passes r h \<longleftrightarrow>
     (if r_rwild r then
        length h > length (r_rhost r) \<and> h ! (length h - length (r_rhost r) - 1) = CHR ''.'' \<and>
        drop (length h - length (r_rhost r)) h = r_rhost r
      else h = r_rhost r)"

definition request_misplaced :: "vdpc_policy \<Rightarrow> vdpc_rule \<Rightarrow> bool" where
  "request_misplaced p r \<longleftrightarrow>
     (r_kind r = VDPC_REQUEST \<or> r_kind r = VDPC_MCP) \<and>
     (\<not> p_proxy_inspect p \<or>
      \<not> ((p_proxy_ports p = [] \<and> (r_rport r = 80 \<or> r_rport r = 443)) \<or> r_rport r \<in> set (p_proxy_ports p)) \<or>
      list_ex (passes r) (p_proxy_pass p))"

definition load_final :: "nat \<Rightarrow> load_state \<Rightarrow> (nat \<times> string) + vdpc_policy" where
  "load_final ln st =
     (let p = l_policy st in
      if p_proxy_ports p \<noteq> [] \<and> \<not> p_proxy p then Inl (ln, ''proxy ports without proxy on'')
      else if p_proxy_up_port p \<noteq> 0 \<and> \<not> p_proxy p then Inl (ln, ''proxy upstream without proxy on'')
      else if p_proxy_pass p \<noteq> [] \<and> \<not> p_proxy_inspect p then Inl (ln, ''proxy passthrough without proxy inspect'')
      else case find (request_misplaced p) (p_rules p) of
        Some r \<Rightarrow> Inl (r_line r, ''request rule not allowed here (needs proxy inspect, a proxied port, and a host that is not passthrough)'')
      | None \<Rightarrow> Inr (p\<lparr>p_launches := ver_ge (l_req st) (1, 27), p_open_as_agent := ver_ge (l_req st) (1, 29)\<rparr>))"

definition fresh_policy :: "8 word list \<Rightarrow> vdpc_policy" where
  "fresh_policy digest =
     \<lparr>p_rules = [], p_sha256 = digest, p_proxy = False, p_proxy_ports = [], p_proxy_up_host = [],
      p_proxy_up_port = 0, p_proxy_inspect = False, p_proxy_pass = [], p_launches = False,
      p_open_as_agent = False, p_creds = [], p_issuers = [], p_spiffe = [], p_require_obo = False,
      p_require_plan = False, p_subjects = [], p_mcpres = []\<rparr>"

definition vdpc_load :: "allocs \<Rightarrow> string \<Rightarrow> ((nat \<times> string) + vdpc_policy) \<times> allocs" where
  "vdpc_load al buf =
     (let (ok, al) = take_alloc al in
      if \<not> ok then (Inl (0, ''out of memory''), al)
      else case load_vlines al 0
          \<lparr>l_policy = fresh_policy (vdpc_sha256 (map of_char buf)), l_req = (0, 0), l_legacy = 0, l_gtot = 0\<rparr> buf of
        (Inl e, ln, al) \<Rightarrow> (Inl e, al)
      | (Inr st, ln, al) \<Rightarrow> (load_final ln st, al))"

section \<open>A rule as other code sees it\<close>

record vdpc_rule_info =
  ri_allow :: bool
  ri_kind :: int
  ri_match :: vmatch
  ri_line :: nat
  ri_c :: string
  ri_mask :: u32
  ri_value :: u32
  ri_portless :: bool
  ri_name :: bool
  ri_wild :: bool
  ri_names :: nat
  ri_rate :: nat
  ri_max_body :: nat
  ri_cred :: nat
  ri_cred_hdr :: string
  ri_cred_scheme :: string
  ri_subagent :: string
  ri_subj :: int
  ri_confined_subj :: int
  ri_mcp_server :: bool
  ri_sha256 :: string

definition vdpc_rule_info :: "vdpc_policy \<Rightarrow> nat \<Rightarrow> vdpc_rule_info option" where
  "vdpc_rule_info p i =
     (if i \<ge> length (p_rules p) then None
      else
        let r = p_rules p ! i in
        Some \<lparr>ri_allow = r_allow r, ri_kind = r_kind r, ri_match = r_match r, ri_line = r_line r, ri_c = r_c r,
              ri_mask = r_mask r, ri_value = r_value r, ri_portless = r_portless r, ri_name = r_name r,
              ri_wild = r_wild r, ri_names = r_names r, ri_rate = r_rate r, ri_max_body = r_max_body r,
              ri_cred = r_cred r, ri_cred_hdr = r_hdr r, ri_cred_scheme = r_scheme r, ri_subagent = r_subagent r,
              ri_subj = r_subj r, ri_confined_subj = r_csubj r, ri_mcp_server = r_mcp_server r, ri_sha256 = r_sha256 r\<rparr>)"

section \<open>When a stage succeeds\<close>

lemma bind_ok:
  "(case x of (Inl e, al) \<Rightarrow> (Inl e, al) | (Inr a, al) \<Rightarrow> f a al) = (Inr b, al') \<longleftrightarrow>
    (\<exists>a al1. x = (Inr a, al1) \<and> f a al1 = (Inr b, al'))"
  by (cases x; cases "fst x") auto

lemma bind_pair_ok:
  "(case x of (Inl e, al) \<Rightarrow> (Inl e, al) | (Inr (a, c), al) \<Rightarrow> f a c al) = (Inr b, al') \<longleftrightarrow>
    (\<exists>a c al1. x = (Inr (a, c), al1) \<and> f a c al1 = (Inr b, al'))"
  by (cases x; cases "fst x") auto

lemma sum_pair_ok:
  "(case x of Inl e \<Rightarrow> (Inl e, al) | Inr (a, c) \<Rightarrow> f a c) = (Inr b, al') \<longleftrightarrow> (\<exists>a c. x = Inr (a, c) \<and> f a c = (Inr b, al'))"
  by (cases x) auto

lemma option_ok:
  "(case x of None \<Rightarrow> (Inl e, al) | Some a \<Rightarrow> f a) = (Inr b, al') \<longleftrightarrow> (\<exists>a. x = Some a \<and> f a = (Inr b, al'))"
  by (cases x) auto

lemma option_err_ok:
  "(case x of None \<Rightarrow> y | Some e \<Rightarrow> (Inl (f e), al)) = (Inr b, al') \<longleftrightarrow> x = None \<and> y = (Inr b, al')"
  by (cases x) auto

lemma form_ok:
  "(case x of Inl e \<Rightarrow> (Inl e, al) | Inr False \<Rightarrow> (Inl e', al) | Inr True \<Rightarrow> y) = (Inr c, al') \<longleftrightarrow>
    x = Inr True \<and> y = (Inr c, al')"
  by (auto split: sum.splits bool.splits)

lemma option_sum_ok: "(case x of None \<Rightarrow> Inl e | Some a \<Rightarrow> f a) = Inr b \<longleftrightarrow> (\<exists>a. x = Some a \<and> f a = Inr b)"
  by (cases x) auto

lemma bind_sum_ok: "(case x of Inl e \<Rightarrow> Inl e | Inr a \<Rightarrow> f a) = Inr b \<longleftrightarrow> (\<exists>a. x = Inr a \<and> f a = Inr b)"
  by (cases x) auto

lemma guard_ok: "(if c then (Inl e, al) else y) = (Inr b, al') \<longleftrightarrow> \<not> c \<and> y = (Inr b, al')"
  by auto

lemma guard_sum_ok: "(if c then Inl e else y) = Inr b \<longleftrightarrow> \<not> c \<and> y = Inr b"
  by auto

lemma alloc_ok:
  "(case x of (ok, al) \<Rightarrow> if \<not> ok then (Inl e, al) else f al) = (Inr b, al') \<longleftrightarrow>
    (\<exists>al1. x = (True, al1) \<and> f al1 = (Inr b, al'))"
  by (cases x) auto

lemma map_sum_ok: "map_sum id f x = Inr y \<longleftrightarrow> (\<exists>z. x = Inr z \<and> y = f z)"
  by (cases x) auto

lemmas stage_ok =
  bind_pair_ok bind_ok sum_pair_ok form_ok option_ok option_err_ok option_sum_ok bind_sum_ok guard_ok guard_sum_ok alloc_ok map_sum_ok
  prod.inject sum.inject

end
