(* ===== verification/Vdp_Checker.thy ===== *)
theory Vdp_Checker
  imports Vdp_Rules
begin

text \<open>
  The certificate checker of \<^verbatim>\<open>src/varek/v1_4/checker/vdp_checker.c\<close>: an action the decision procedure
  allows comes with a certificate, and \<open>vdpc_check_subj\<close> accepts it only when the rule it names is the
  first of its kind and subject that holds, and allows. A symbolic certificate claims this for every
  flags value, which the checker decides by enumerating the subsets of the flag bits the holding rules
  test; \<open>vdpc_path_openable\<close> and \<open>vdpc_path_writable\<close> use the same enumeration. The reference is
  \<open>deciding_rule\<close>, and each check is proved to accept exactly what the reference allows.
\<close>

unbundle bit_operations_syntax

section \<open>Enumerating the subsets of a set of bits\<close>

text \<open>\<open>(sub - bits) & bits\<close> is the next subset of \<open>bits\<close> after \<open>sub\<close>.\<close>

lemma and_int_div2: "(S AND B) div 2 = (S div 2) AND (B div 2)" for S B :: int
  by (simp flip: drop_bit_Suc [of 0, simplified] add: drop_bit_and)

lemma subset_int_div2:
  "S AND B = S \<longleftrightarrow> (odd S \<longrightarrow> odd B) \<and> (S div 2) AND (B div 2) = S div 2" for S B :: int
proof -
  have "S AND B = S \<longleftrightarrow> (S AND B) div 2 = S div 2 \<and> odd (S AND B) = odd S"
    by (metis div_mult_mod_eq mod2_eq_if)
  then show ?thesis by (auto simp: and_int_div2 even_and_iff)
qed

lemma next_subset_int:
  fixes B S :: int
  assumes "0 \<le> B" and "0 \<le> S" and "S AND B = S" and "S \<noteq> B"
  shows "S < (S - B) AND B \<and> (\<forall>T. 0 \<le> T \<longrightarrow> T AND B = T \<longrightarrow> S < T \<longrightarrow> (S - B) AND B \<le> T)"
  using assms
proof (induction "nat B" arbitrary: B S rule: less_induct)
  case less
  define B' S' where "B' = B div 2" and "S' = S div 2"
  have odd: "odd S \<Longrightarrow> odd B" and sub: "S' AND B' = S'"
    using less.prems(3) by (auto simp: B'_def S'_def subset_int_div2 [of S B])
  have B: "B = 2 * B' + of_bool (odd B)" and S: "S = 2 * S' + of_bool (odd S)"
    by (auto simp: B'_def S'_def)
  have T: "T AND B = T \<Longrightarrow> (T div 2) AND B' = T div 2 \<and> (odd T \<longrightarrow> odd B)" for T
    by (simp add: B'_def subset_int_div2 [of T B])
  show ?case
  proof (cases "odd B \<and> even S")
    case True
    have "S - B = 2 * (S' - B' - 1) + 1" using B S True by simp
    then have "(S - B) div 2 = S' - B' - 1" "odd (S - B)" by simp_all
    moreover have "(S' - B' - 1) AND B' = S'"
    proof -
      have "S' - B' - 1 = S' + NOT B'" by (simp add: not_int_def)
      also have "\<dots> = S' OR NOT B'"
      proof (rule disjunctive_add)
        fix n show "\<not> bit S' n \<or> \<not> bit (NOT B') n"
          using arg_cong [OF sub, of "\<lambda>x. bit x n"] by (auto simp: bit_and_iff bit_not_iff)
      qed
      finally have "(S' - B' - 1) AND B' = (S' OR NOT B') AND B'" by simp
      also have "\<dots> = S' AND B'" by (rule bit_eqI) (auto simp: bit_simps)
      finally show ?thesis by (simp add: sub)
    qed
    ultimately have "(S - B) AND B = S + 1"
      using S True and_int.rec [of "S - B" B] by (simp only: B'_def) simp
    then show ?thesis by auto
  next
    case False
    then have par: "odd S \<longleftrightarrow> odd B" using odd by blast
    then have "S' \<noteq> B'" using B S less.prems(4) by auto
    then have "B \<noteq> 0" using sub less.prems by (auto simp: B'_def)
    then have "nat B' < nat B" using less.prems(1) by (simp add: B'_def)
    from less.hyps [OF this] sub \<open>S' \<noteq> B'\<close> less.prems(1,2)
    have IH: "S' < (S' - B') AND B'" "\<And>T. 0 \<le> T \<Longrightarrow> T AND B' = T \<Longrightarrow> S' < T \<Longrightarrow> (S' - B') AND B' \<le> T"
      by (auto simp: B'_def S'_def)
    have "S - B = 2 * (S' - B')" using B S par by simp
    then have "(S - B) div 2 = S' - B'" "even (S - B)" by simp_all
    then have nxt: "(S - B) AND B = 2 * ((S' - B') AND B')"
      using and_int.rec [of "S - B" B] by (simp only: B'_def) simp
    have "S < (S - B) AND B" using IH(1) S nxt by (cases "odd S") auto
    moreover have "(S - B) AND B \<le> T" if "0 \<le> T" "T AND B = T" "S < T" for T
    proof (cases "S' = T div 2")
      case True
      moreover have "T = 2 * (T div 2) + of_bool (odd T)" by simp
      ultimately have "even S" "odd T"
        using S that(3) by (cases "odd S"; cases "odd T"; simp)+
      then show ?thesis using T [OF that(2)] False by blast
    next
      case neq: False
      then have "S' < T div 2" using that(3) by (simp add: S'_def zdiv_mono1 less_le)
      then have "(S' - B') AND B' \<le> T div 2" using IH(2) T [OF that(2)] that(1) by simp
      then show ?thesis using nxt by linarith
    qed
    ultimately show ?thesis by blast
  qed
qed

lemma uint_next_subset:
  fixes sub bits :: "'a::len word"
  shows "uint ((sub - bits) AND bits) = (uint sub - uint bits) AND uint bits"
proof (rule bit_eqI)
  fix n
  have "bit (uint bits) n \<Longrightarrow> n < LENGTH('a)" by (simp add: bit_uint_iff)
  then show "bit (uint ((sub - bits) AND bits)) n \<longleftrightarrow> bit ((uint sub - uint bits) AND uint bits) n"
    by (auto simp: unsigned_and_eq uint_word_ariths bit_and_iff bit_take_bit_iff simp flip: take_bit_eq_mod)
qed

lemma next_subset:
  fixes sub bits :: "'a::len word"
  assumes "sub AND bits = sub" and "sub \<noteq> bits"
  shows "sub < (sub - bits) AND bits"
    and "t AND bits = t \<Longrightarrow> sub < t \<Longrightarrow> (sub - bits) AND bits \<le> t"
proof -
  have "uint sub AND uint bits = uint sub" using assms(1) by (metis unsigned_and_eq)
  moreover have "uint sub \<noteq> uint bits" using assms(2) by (simp add: word_uint_eq_iff)
  ultimately have *: "uint sub < (uint sub - uint bits) AND uint bits"
    "\<And>T. 0 \<le> T \<Longrightarrow> T AND uint bits = T \<Longrightarrow> uint sub < T \<Longrightarrow> (uint sub - uint bits) AND uint bits \<le> T"
    using next_subset_int [of "uint bits" "uint sub"] by auto
  show "sub < (sub - bits) AND bits" using *(1) by (simp add: word_less_def uint_next_subset)
  assume "t AND bits = t" "sub < t"
  then have "uint t AND uint bits = uint t" "uint sub < uint t"
    by (metis unsigned_and_eq, simp add: word_less_def)
  then show "(sub - bits) AND bits \<le> t" using *(2) [of "uint t"] by (simp add: word_le_def uint_next_subset)
qed

text \<open>How many subsets may remain, for termination: the next value is always a subset.\<close>

definition subsets_left :: "'a::len word \<Rightarrow> 'a word \<Rightarrow> nat" where
  "subsets_left bits sub = (if sub AND bits = sub then unat bits - unat sub else Suc (unat bits))"

lemma and_le_word: "sub AND bits = sub \<Longrightarrow> unat sub \<le> unat (bits :: 'a::len word)"
  by (metis word_and_le1 word_le_nat_alt)

lemma subsets_left_next:
  fixes sub bits :: "'a::len word"
  assumes "sub \<noteq> bits"
  shows "subsets_left bits ((sub - bits) AND bits) < subsets_left bits sub"
proof (cases "sub AND bits = sub")
  case True
  have "unat sub < unat ((sub - bits) AND bits)" using next_subset(1) [OF True assms] by (simp add: word_less_nat_alt)
  moreover have "unat ((sub - bits) AND bits) \<le> unat bits" by (rule and_le_word) (simp add: and.assoc)
  ultimately show ?thesis using True by (simp add: subsets_left_def and.assoc)
next
  case False
  then show ?thesis by (simp add: subsets_left_def and.assoc)
qed

text \<open>The subsets in the order the loops visit them.\<close>

function subsets_from :: "'a::len word \<Rightarrow> 'a word \<Rightarrow> 'a word list" where
  "subsets_from bits sub =
     (if sub = bits then [sub] else sub # subsets_from bits ((sub - bits) AND bits))"
  by pat_completeness auto
termination by (relation "measure (\<lambda>(bits, sub). subsets_left bits sub)") (auto intro: subsets_left_next)

declare subsets_from.simps [simp del]

lemma set_subsets_from:
  "sub AND bits = sub \<Longrightarrow> set (subsets_from bits sub) = {t. t AND bits = t \<and> sub \<le> t}"
proof (induction bits sub rule: subsets_from.induct)
  case (1 bits sub)
  show ?case
  proof (cases "sub = bits")
    case True
    have "t = bits" if "t AND bits = t" "bits \<le> t" for t
      using that word_and_le1 [of t bits] by simp
    with True show ?thesis by (auto simp: subsets_from.simps [of bits bits])
  next
    case False
    let ?n = "(sub - bits) AND bits"
    note nxt = next_subset [OF 1(2) False]
    have "set (subsets_from bits ?n) = {t. t AND bits = t \<and> ?n \<le> t}"
      using 1(1) [OF False] by (simp add: and.assoc)
    moreover have "t AND bits = t \<and> sub \<le> t \<longleftrightarrow> t = sub \<or> (t AND bits = t \<and> ?n \<le> t)" for t
      using nxt 1(2) by (metis order.strict_trans1 order_le_imp_less_or_eq order_less_imp_le order_refl)
    ultimately show ?thesis using False by (auto simp: subsets_from.simps [of bits sub])
  qed
qed

lemma set_subsets: "set (subsets_from bits 0) = {t. t AND bits = t}"
  by (subst set_subsets_from) auto

section \<open>The ground check\<close>

definition check_ground :: "vdpc_policy \<Rightarrow> int \<Rightarrow> int \<Rightarrow> string \<Rightarrow> u32 \<Rightarrow> vdpc_cert \<Rightarrow> vres" where
  "check_ground p subj kind s f c =
     (if c_r c < 0 \<or> nat (c_r c) \<ge> length (p_rules p) then Refused ''no such rule''
      else
        let r = p_rules p ! nat (c_r c) in
        if r_kind r \<noteq> kind then Refused ''deciding rule is of another kind''
        else if r_subj r \<noteq> subj then Refused ''deciding rule is another subject's''
        else if \<not> r_allow r then Refused ''deciding rule is not an allow rule''
        else if \<not> flag_holds r f then Refused ''deciding rule's flag clause does not hold''
        else case witness_holds r s c of
          Accepted \<Rightarrow>
            (if list_ex (\<lambda>e. r_kind e = kind \<and> r_subj e = subj \<and> flag_holds e f \<and> str_holds e s)
                 (take (nat (c_r c)) (p_rules p))
             then Refused ''an earlier rule holds''
             else Accepted)
        | w \<Rightarrow> w)"

section \<open>The symbolic check\<close>

text \<open>The path rules of the subject whose string atom holds, up to the first that tests no flag.\<close>

primrec holding :: "int \<Rightarrow> string \<Rightarrow> vdpc_rule list \<Rightarrow> nat \<Rightarrow> nat list" where
  "holding subj s [] j = []"
| "holding subj s (e # es) j =
     (if r_kind e \<noteq> VDPC_PATH \<or> r_subj e \<noteq> subj \<or> \<not> str_holds e s then holding subj s es (j + 1)
      else if r_mask e = 0 then [j]
      else j # holding subj s es (j + 1))"

definition hold_bits :: "vdpc_policy \<Rightarrow> nat list \<Rightarrow> u32" where
  "hold_bits p hold = fold (\<lambda>j bits. bits OR r_mask (p_rules p ! j)) hold 0"

text \<open>One flags value of the enumeration: the deciding rule so far (-2: none yet, -1: several).\<close>

definition sym_step :: "vdpc_policy \<Rightarrow> nat list \<Rightarrow> u32 \<Rightarrow> int \<Rightarrow> string + int" where
  "sym_step p hold sub deciding =
     (if sub AND ACCMODE \<noteq> ACCMODE then
        (case find (\<lambda>j. flag_holds (p_rules p ! j) sub) hold of
           None \<Rightarrow> Inl ''some flags value is decided by no rule''
         | Some first \<Rightarrow>
             if \<not> r_allow (p_rules p ! first) then Inl ''some flags value is denied''
             else Inr (if deciding = -2 \<or> deciding = int first then int first else -1))
      else Inr deciding)"

function sym_loop :: "vdpc_policy \<Rightarrow> nat list \<Rightarrow> u32 \<Rightarrow> u32 \<Rightarrow> int \<Rightarrow> string + int" where
  "sym_loop p hold bits sub deciding =
     (case sym_step p hold sub deciding of
        Inl e \<Rightarrow> Inl e
      | Inr d \<Rightarrow> if sub = bits then Inr d else sym_loop p hold bits ((sub - bits) AND bits) d)"
  by pat_completeness auto
termination
  by (relation "measure (\<lambda>(p, hold, bits, sub, d). subsets_left bits sub)") (auto intro: subsets_left_next)

declare sym_loop.simps [simp del]

definition check_symbolic :: "vdpc_policy \<Rightarrow> int \<Rightarrow> string \<Rightarrow> vdpc_cert \<Rightarrow> vres" where
  "check_symbolic p subj s c =
     (if c_r c < 0 \<and> c_wkind c \<noteq> 0 then Refused ''unexpected witness''
      else
        let wit =
          (if c_r c \<ge> 0 then
             (if nat (c_r c) \<ge> length (p_rules p) \<or> r_kind (p_rules p ! nat (c_r c)) \<noteq> VDPC_PATH \<or>
                 r_subj (p_rules p ! nat (c_r c)) \<noteq> subj
              then Refused ''no such path rule''
              else witness_holds (p_rules p ! nat (c_r c)) s c)
           else Accepted)
        in case wit of
          Accepted \<Rightarrow>
            (let hold = holding subj s (p_rules p) 0 in
             if length hold > VDPC_MAX_RULES then Out_of_bounds
             else if hold = [] then Refused ''no rule holds''
             else case sym_loop p hold (hold_bits p hold) 0 (-2) of
               Inl e \<Rightarrow> Refused e
             | Inr deciding \<Rightarrow>
                 if c_r c \<ge> 0 \<and> c_r c \<noteq> deciding then Refused ''certificate names the wrong rule''
                 else Accepted)
        | w \<Rightarrow> w)"

section \<open>The check\<close>

definition vdpc_check_subj ::
    "vdpc_policy \<Rightarrow> int \<Rightarrow> int \<Rightarrow> string \<Rightarrow> u32 \<Rightarrow> bool \<Rightarrow> vdpc_cert \<Rightarrow> vres" where
  "vdpc_check_subj p subj kind s f has_flags c =
     (if kind \<noteq> VDPC_PATH \<and> kind \<noteq> VDPC_HOST \<and> kind \<noteq> VDPC_EXEC \<and> kind \<noteq> VDPC_REQUEST \<and>
         kind \<noteq> VDPC_MCP
      then Refused ''bad kind''
      else if subj < 0 \<or> nat subj > length (p_subjects p) then Refused ''no such subject''
      else if length s > VDPC_MAX_S then Refused ''string over the length bound''
      else if CHR 0x00 \<in> set s then Refused ''NUL byte in the string''
      else
        let (f', has_flags') = (if kind \<noteq> VDPC_PATH then (0, True) else (f, has_flags)) in
        if kind = VDPC_PATH \<and> has_flags \<and> f AND NOT known_bits \<noteq> 0 then
          Refused ''flag bits outside open(2)''
        else if kind = VDPC_PATH \<and> has_flags \<and> f AND ACCMODE = ACCMODE then Refused ''access mode 3''
        else if has_flags' then check_ground p subj kind s f' c
        else check_symbolic p subj s c)"

definition vdpc_check ::
    "vdpc_policy \<Rightarrow> int \<Rightarrow> string \<Rightarrow> u32 \<Rightarrow> bool \<Rightarrow> vdpc_cert \<Rightarrow> vres" where
  "vdpc_check p kind s f has_flags c = vdpc_check_subj p 0 kind s f has_flags c"

section \<open>Openable and writable paths\<close>

definition sub_writes :: "u32 \<Rightarrow> u32 \<Rightarrow> bool" where
  "sub_writes bits sub \<longleftrightarrow>
     sub AND ACCMODE \<noteq> 0 \<or> sub AND 512 \<noteq> 0 \<or> bits AND 512 = 0 \<or>
     (bits AND 1 = 0 \<and> sub AND 2 = 0) \<or> (bits AND 2 = 0 \<and> sub AND 1 = 0)"

function open_loop :: "vdpc_policy \<Rightarrow> nat list \<Rightarrow> bool \<Rightarrow> u32 \<Rightarrow> u32 \<Rightarrow> bool" where
  "open_loop p hold writing bits sub =
     (if sub AND ACCMODE \<noteq> ACCMODE \<and> (\<not> writing \<or> sub_writes bits sub) \<and>
         (case find (\<lambda>j. flag_holds (p_rules p ! j) sub) hold of
            Some j \<Rightarrow> r_allow (p_rules p ! j)
          | None \<Rightarrow> False)
      then True
      else if sub = bits then False
      else open_loop p hold writing bits ((sub - bits) AND bits))"
  by pat_completeness auto
termination
  by (relation "measure (\<lambda>(p, hold, w, bits, sub). subsets_left bits sub)") (auto intro: subsets_left_next)

declare open_loop.simps [simp del]

text \<open>\<^const>\<open>None\<close> is a write beyond the array of holding rules.\<close>

definition path_openable_subj :: "vdpc_policy \<Rightarrow> int \<Rightarrow> string \<Rightarrow> bool \<Rightarrow> bool option" where
  "path_openable_subj p subj s writing =
     (if length s > VDPC_MAX_S \<or> CHR 0x00 \<in> set s then Some False
      else
        let hold = holding subj s (p_rules p) 0 in
        if length hold > VDPC_MAX_RULES then None
        else Some (open_loop p hold writing (hold_bits p hold) 0))"

primrec any_subject :: "vdpc_policy \<Rightarrow> string \<Rightarrow> bool \<Rightarrow> nat list \<Rightarrow> bool option" where
  "any_subject p s writing [] = Some False"
| "any_subject p s writing (k # ks) =
     (case path_openable_subj p (int k) s writing of
        None \<Rightarrow> None
      | Some True \<Rightarrow> Some True
      | Some False \<Rightarrow> any_subject p s writing ks)"

definition path_openable_if :: "vdpc_policy \<Rightarrow> string \<Rightarrow> bool \<Rightarrow> bool option" where
  "path_openable_if p s writing = any_subject p s writing [0..<Suc (length (p_subjects p))]"

definition vdpc_path_openable :: "vdpc_policy \<Rightarrow> string \<Rightarrow> bool option" where
  "vdpc_path_openable p s = path_openable_if p s False"

definition vdpc_path_writable :: "vdpc_policy \<Rightarrow> string \<Rightarrow> bool option" where
  "vdpc_path_writable p s = path_openable_if p s True"

section \<open>The rule that decides\<close>

definition applies :: "int \<Rightarrow> int \<Rightarrow> string \<Rightarrow> u32 \<Rightarrow> vdpc_rule \<Rightarrow> bool" where
  "applies kind subj s f r \<longleftrightarrow>
     r_kind r = kind \<and> r_subj r = subj \<and> flag_holds r f \<and> rule_matches r s"

definition deciding_rule :: "vdpc_policy \<Rightarrow> int \<Rightarrow> int \<Rightarrow> string \<Rightarrow> u32 \<Rightarrow> nat option" where
  "deciding_rule p subj kind s f =
     find (\<lambda>j. applies kind subj s f (p_rules p ! j)) [0..<length (p_rules p)]"

definition allowed :: "vdpc_policy \<Rightarrow> int \<Rightarrow> int \<Rightarrow> string \<Rightarrow> u32 \<Rightarrow> bool" where
  "allowed p subj kind s f \<longleftrightarrow>
     (case deciding_rule p subj kind s f of None \<Rightarrow> False | Some j \<Rightarrow> r_allow (p_rules p ! j))"

definition admissible :: "u32 \<Rightarrow> bool" where
  "admissible f \<longleftrightarrow> f AND known_bits = f \<and> f AND ACCMODE \<noteq> ACCMODE"

text \<open>The fragment the claims are about: the action's kind, subject, string and flags.\<close>

definition string_ok :: "vdpc_policy \<Rightarrow> int \<Rightarrow> string \<Rightarrow> bool" where
  "string_ok p subj s \<longleftrightarrow>
     0 \<le> subj \<and> nat subj \<le> length (p_subjects p) \<and> length s \<le> VDPC_MAX_S \<and> CHR 0x00 \<notin> set s"

definition in_fragment :: "vdpc_policy \<Rightarrow> int \<Rightarrow> int \<Rightarrow> string \<Rightarrow> u32 \<Rightarrow> bool" where
  "in_fragment p subj kind s f \<longleftrightarrow>
     kind \<in> {VDPC_PATH, VDPC_HOST, VDPC_EXEC, VDPC_REQUEST, VDPC_MCP} \<and> string_ok p subj s \<and>
     (if kind = VDPC_PATH then admissible f else f = 0)"

definition cert_ok :: "vdpc_cert \<Rightarrow> bool" where
  "cert_ok c \<longleftrightarrow> length (c_span c) = VDPC_MAX_STRETCH"

lemma find_upt:
  "find P [a..<n] = Some j \<longleftrightarrow> a \<le> j \<and> j < n \<and> P j \<and> (\<forall>i. a \<le> i \<and> i < j \<longrightarrow> \<not> P i)"
proof (induction "n - a" arbitrary: a)
  case 0
  then show ?case by auto
next
  case (Suc m)
  then have a: "a < n" "m = n - Suc a" by simp_all
  show ?case
  proof (cases "P a")
    case True
    with a show ?thesis by (auto simp: upt_conv_Cons)
  next
    case False
    have "find P [a..<n] = Some j \<longleftrightarrow> find P [Suc a..<n] = Some j" using a False by (simp add: upt_conv_Cons)
    also have "\<dots> \<longleftrightarrow> a \<le> j \<and> j < n \<and> P j \<and> (\<forall>i. a \<le> i \<and> i < j \<longrightarrow> \<not> P i)"
      using Suc.hyps(1) [OF a(2)] False by (metis Suc_le_eq le_neq_implies_less nat_less_le)
    finally show ?thesis .
  qed
qed

lemma deciding_rule_Some:
  "deciding_rule p subj kind s f = Some j \<longleftrightarrow>
    j < length (p_rules p) \<and> applies kind subj s f (p_rules p ! j) \<and>
    (\<forall>i < j. \<not> applies kind subj s f (p_rules p ! i))"
  by (simp add: deciding_rule_def find_upt)

lemma allowed_iff:
  "allowed p subj kind s f \<longleftrightarrow>
    (\<exists>j. deciding_rule p subj kind s f = Some j \<and> r_allow (p_rules p ! j))"
  by (auto simp: allowed_def split: option.splits)

section \<open>Witnesses prove the match\<close>

lemma is_stretch_span:
  "is_stretch t \<Longrightarrow>
    tok_span t w \<longleftrightarrow> (if t = G_SEGS then w = [] \<or> last w = slash else list_all (tok_takes t) w)"
  by (cases t) (auto simp: list_all_iff)

lemma span_between:
  assumes "is_stretch t" and "a \<le> b" and "b \<le> length s"
  shows "tok_span t (take (b - a) (drop a s)) \<longleftrightarrow>
    \<not> (if t = G_SEGS then b > a \<and> s ! (b - 1) \<noteq> slash
       else list_ex (\<lambda>x. \<not> tok_takes t (s ! x)) [a..<b])"
proof (cases "t = G_SEGS")
  case True
  have "last (take (b - a) (drop a s)) = s ! (b - 1)" if "a < b"
    using that assms by (subst last_conv_nth) auto
  moreover have "take (b - a) (drop a s) = [] \<longleftrightarrow> \<not> a < b" using assms by auto
  ultimately show ?thesis using True assms(1) by (auto simp: is_stretch_span)
next
  case False
  have "list_all (tok_takes t) (take (b - a) (drop a s)) \<longleftrightarrow> (\<forall>x. a \<le> x \<and> x < b \<longrightarrow> tok_takes t (s ! x))"
  proof
    assume "list_all (tok_takes t) (take (b - a) (drop a s))"
    then have "\<And>i. i < b - a \<Longrightarrow> tok_takes t (s ! (a + i))" using assms by (auto simp: list_all_length)
    then show "\<forall>x. a \<le> x \<and> x < b \<longrightarrow> tok_takes t (s ! x)"
      by (metis diff_less_mono le_add_diff_inverse)
  qed (use assms in \<open>auto simp: list_all_length\<close>)
  then show ?thesis using False assms(1) by (auto simp: is_stretch_span list_ex_iff)
qed

lemma tok_span_one: "\<not> is_stretch t \<Longrightarrow> tok_span t w \<longleftrightarrow> (\<exists>b. w = [b] \<and> tok_takes t b)"
  by (cases t; cases w) auto

text \<open>The steps of the walk.\<close>

lemma wit_walk_one:
  "\<not> is_stretch t \<Longrightarrow>
    wit_walk s span nspan (t # g) pos k =
      (if pos < length s \<and> tok_takes t (s ! pos) then wit_walk s span nspan g (pos + 1) k
       else Refused ''glob witness: byte mismatch'')"
  by simp

lemma wit_walk_stretch:
  assumes "is_stretch t" and "k < nspan" and "rd span k = Some (a, b)"
  shows "wit_walk s span nspan (t # g) pos k = wit_walk s span nspan g b (k + 1) \<and>
      a = pos \<and> pos \<le> b \<and> b \<le> length s \<and> tok_span t (take (b - pos) (drop pos s)) \<or>
    (\<exists>why. wit_walk s span nspan (t # g) pos k = Refused why) \<and>
      \<not> (a = pos \<and> pos \<le> b \<and> b \<le> length s \<and> tok_span t (take (b - pos) (drop pos s)))"
proof (cases "a \<noteq> pos \<or> b < a \<or> b > length s")
  case True
  then show ?thesis using assms by (simp del: rd_Some_iff Some_rd_iff) linarith
next
  case False
  then have ab: "a = pos" "pos \<le> b" "b \<le> length s" by auto
  show ?thesis
    using assms(2,3) False span_between [OF assms(1) ab(2,3)] assms(1)
    unfolding wit_walk.simps by (simp del: rd_Some_iff Some_rd_iff append.simps add: ab)
qed

lemma wit_walk_no_span:
  assumes "is_stretch t"
  shows "\<not> k < nspan \<Longrightarrow> \<exists>why. wit_walk s span nspan (t # g) pos k = Refused why"
    and "k < nspan \<Longrightarrow> rd span k = None \<Longrightarrow> wit_walk s span nspan (t # g) pos k = Out_of_bounds"
  using assms by auto

declare wit_walk.simps(2) [simp del]

lemma wit_walk_sound:
  "wit_walk s span nspan g pos k = Accepted \<Longrightarrow> pos \<le> length s \<Longrightarrow> toks_match g (drop pos s)"
proof (induction g arbitrary: pos k)
  case Nil
  then show ?case by (auto split: if_splits)
next
  case (Cons t g)
  show ?case
  proof (cases "is_stretch t")
    case False
    with Cons.prems have c: "pos < length s" "tok_takes t (s ! pos)" "wit_walk s span nspan g (pos + 1) k = Accepted"
      by (auto simp: wit_walk_one split: if_splits)
    have "toks_match g (drop (Suc pos) s)" using Cons.IH [OF c(3)] c(1) by simp
    moreover have "drop pos s = [s ! pos] @ drop (Suc pos) s" using c(1) by (simp add: Cons_nth_drop_Suc)
    moreover have "tok_span t [s ! pos]" using False c(2) tok_span_one by blast
    ultimately show ?thesis unfolding toks_match_Cons by blast
  next
    case True
    have k: "k < nspan" using wit_walk_no_span(1) [OF True] Cons.prems(1) by (metis vres.distinct(1))
    moreover obtain a b where ab: "rd span k = Some (a, b)"
      using wit_walk_no_span(2) [OF True k] Cons.prems(1) by (metis option.exhaust surj_pair vres.distinct(3))
    ultimately have b: "wit_walk s span nspan g b (k + 1) = Accepted" "pos \<le> b" "b \<le> length s"
      "tok_span t (take (b - pos) (drop pos s))"
      using wit_walk_stretch [OF True k ab, of s g pos] Cons.prems(1) by auto
    then have "toks_match g (drop b s)" using Cons.IH by blast
    moreover have "drop pos s = take (b - pos) (drop pos s) @ drop b s"
      by (metis append_take_drop_id b(2) drop_drop le_add_diff_inverse2)
    ultimately show ?thesis using b(4) by (metis toks_match_Cons)
  qed
qed

definition stretches :: "gtok list \<Rightarrow> nat" where
  "stretches g = length (filter is_stretch g)"

lemma stretches_le: "glob_ok g \<Longrightarrow> stretches g \<le> VDPC_MAX_STRETCH"
proof -
  have "is_stretch t \<Longrightarrow> is_wild t" for t by (cases t) auto
  then have "length (filter is_stretch g) \<le> length (filter is_wild g)"
    by (induction g) auto
  then show "glob_ok g \<Longrightarrow> stretches g \<le> VDPC_MAX_STRETCH" by (simp add: glob_ok_def wilds_def stretches_def)
qed

lemma wit_walk_in_bounds:
  "k + stretches g \<le> length span \<Longrightarrow> wit_walk s span nspan g pos k \<noteq> Out_of_bounds"
proof (induction g arbitrary: pos k)
  case Nil
  then show ?case by simp
next
  case (Cons t g)
  show ?case
  proof (cases "is_stretch t \<and> k < nspan")
    case False
    with Cons show ?thesis by (auto simp: stretches_def wit_walk.simps(2))
  next
    case True
    then have "k < length span" "(k + 1) + stretches g \<le> length span" using Cons.prems by (auto simp: stretches_def)
    moreover from this obtain a b where "rd span k = Some (a, b)" by (metis rd_in surj_pair)
    ultimately show ?thesis
      using wit_walk_stretch [of t k nspan span a b s g pos] True Cons.IH [of "k + 1" b] by auto
  qed
qed

lemma wit_walk_complete:
  assumes "toks_match g (drop pos s)" and "pos \<le> length s"
  shows "\<exists>spans. length spans = stretches g \<and>
    (\<forall>pre post. wit_walk s (pre @ spans @ post) (length pre + length spans) g pos (length pre) = Accepted)"
  using assms
proof (induction g arbitrary: pos)
  case Nil
  then show ?case by (simp add: stretches_def)
next
  case (Cons t g)
  then obtain u v where u: "drop pos s = u @ v" "tok_span t u" "toks_match g v" by (auto simp: toks_match_Cons)
  define b where "b = pos + length u"
  have v: "v = drop b s" unfolding b_def by (metis add.commute append_eq_conv_conj drop_drop u(1))
  have len: "b \<le> length s" using arg_cong [OF u(1), of length] Cons.prems(2) unfolding b_def by simp
  obtain spans where sp: "length spans = stretches g"
    "\<And>pre post. wit_walk s (pre @ spans @ post) (length pre + length spans) g b (length pre) = Accepted"
    using Cons.IH [of b] u(3) len v by blast
  show ?case
  proof (cases "is_stretch t")
    case False
    then obtain c where c: "u = [c]" "tok_takes t c" using u(2) tok_span_one by blast
    have "pos < length s" using len c(1) by (simp add: b_def)
    moreover from this have "s ! pos = c" using u(1) c(1) by (simp add: Cons_nth_drop_Suc [symmetric])
    ultimately have "wit_walk s (pre @ spans @ post) (length pre + length spans) (t # g) pos (length pre) = Accepted"
      for pre post using sp(2) [of pre post] False c by (simp add: b_def wit_walk_one)
    with sp(1) False show ?thesis by (intro exI [of _ spans]) (simp add: stretches_def)
  next
    case True
    have span: "tok_span t (take (b - pos) (drop pos s))" using u(1,2) by (simp add: b_def)
    have le: "pos \<le> b" by (simp add: b_def)
    have "wit_walk s (pre @ ((pos, b) # spans) @ post) (length pre + length ((pos, b) # spans)) (t # g) pos (length pre)
        = Accepted" (is "wit_walk s ?sp ?n _ _ _ = _") for pre post
    proof -
      have "wit_walk s ?sp ?n (t # g) pos (length pre) = wit_walk s ?sp ?n g b (length pre + 1)"
        using wit_walk_stretch [OF True, of "length pre" ?n ?sp pos b s g pos] len le span
        by (simp only: rd_Some_iff) simp
      also have "\<dots> = Accepted" using sp(2) [of "pre @ [(pos, b)]" post] by simp
      finally show ?thesis .
    qed
    then show ?thesis using sp(1) True by (intro exI [of _ "(pos, b) # spans"]) (simp add: stretches_def)
  qed
qed

lemma sublist_at: "take (length c) (drop k s) = c \<Longrightarrow> sublist c s"
  by (metis append_take_drop_id sublist_appendI)

lemma witness_sound:
  assumes "rule_wf r" and "witness_holds r s c = Accepted"
  shows "rule_matches r s"
proof (cases "r_match r")
  case M_CONTAINS
  with assms(2) show ?thesis by (auto simp: witness_holds_def rule_matches_def sublist_at split: if_splits)
next
  case M_GLOB
  with assms(2) have w: "wit_walk (if r_qmode r \<noteq> 0 then qcut s else s) (c_span c) (c_nspan c) (r_g r) 0 0 = Accepted"
    and q: "\<not> (r_qmode r \<noteq> 0 \<and> CHR ''?'' \<in> set s \<and> r_qmode r = 1)"
    by (auto simp: witness_holds_def split: if_splits)
  from wit_walk_sound [OF w] q M_GLOB show ?thesis by (auto simp: rule_matches_def split: if_splits)
qed (use assms in \<open>auto simp: witness_holds_def str_holds_eq split: if_splits\<close>)

lemma witness_in_bounds:
  assumes "rule_wf r" and "cert_ok c"
  shows "witness_holds r s c \<noteq> Out_of_bounds"
proof (cases "r_match r = M_GLOB")
  case True
  then have "stretches (r_g r) \<le> length (c_span c)"
    using assms stretches_le by (simp add: rule_wf_def cert_ok_def)
  then show ?thesis using wit_walk_in_bounds [of 0 "r_g r" "c_span c"] by (simp add: witness_holds_def)
qed (simp add: witness_holds_def)

text \<open>Every match has a witness.\<close>

lemma witness_complete:
  assumes "rule_wf r" and "rule_matches r s"
  shows "\<exists>c. cert_ok c \<and> c_r c = n \<and> witness_holds r s c = Accepted"
proof (cases "r_match r")
  case M_CONTAINS
  with assms(2) obtain u v where s: "s = u @ r_c r @ v" by (auto simp: rule_matches_def sublist_def)
  show ?thesis
    by (rule exI [of _ "\<lparr>c_r = n, c_wkind = 1, c_off = length u, c_nspan = 0,
          c_span = replicate VDPC_MAX_STRETCH (0, 0)\<rparr>"])
      (simp add: cert_ok_def witness_holds_def M_CONTAINS s)
next
  case M_GLOB
  let ?s = "if r_qmode r \<noteq> 0 then qcut s else s"
  have q: "\<not> (r_qmode r \<noteq> 0 \<and> CHR ''?'' \<in> set s \<and> r_qmode r = 1)" and m: "toks_match (r_g r) (drop 0 ?s)"
    using assms(2) M_GLOB by (auto simp: rule_matches_def split: if_splits)
  obtain spans where spans: "length spans = stretches (r_g r)"
    "\<And>pre post. wit_walk ?s (pre @ spans @ post) (length pre + length spans) (r_g r) 0 (length pre) = Accepted"
    using wit_walk_complete [OF m] by blast
  have le: "length spans \<le> VDPC_MAX_STRETCH"
    using assms(1) M_GLOB stretches_le spans(1) by (simp add: rule_wf_def)
  let ?c = "\<lparr>c_r = n, c_wkind = 2, c_off = 0, c_nspan = length spans,
    c_span = spans @ replicate (VDPC_MAX_STRETCH - length spans) (0, 0)\<rparr>"
  have "witness_holds r s ?c = Accepted"
    using spans(2) [of "[]"] q M_GLOB by (simp add: witness_holds_def)
  with le show ?thesis by (intro exI [of _ ?c]) (simp add: cert_ok_def)
qed (use assms in \<open>auto simp: witness_holds_def str_holds_eq cert_ok_def
      intro!: exI [of _ "\<lparr>c_r = n, c_wkind = 0, c_off = 0, c_nspan = 0,
        c_span = replicate VDPC_MAX_STRETCH (0, 0)\<rparr>"]\<close>)

section \<open>The ground check accepts exactly the first rule\<close>

lemma rule_wf_nth: "policy_ok p \<Longrightarrow> j < length (p_rules p) \<Longrightarrow> rule_wf (p_rules p ! j)"
  by (simp add: policy_ok_def list_all_length)

lemma list_ex_take:
  assumes "j < length xs" and "\<And>i. i < j \<Longrightarrow> P (xs ! i) \<longleftrightarrow> Q (xs ! i)"
  shows "list_ex P (take j xs) \<longleftrightarrow> (\<exists>i < j. Q (xs ! i))"
  using assms by (auto simp: list_ex_length)

lemma check_ground_iff:
  assumes "policy_ok p"
  shows "check_ground p subj kind s f c = Accepted \<longleftrightarrow>
    0 \<le> c_r c \<and> deciding_rule p subj kind s f = Some (nat (c_r c)) \<and>
    r_allow (p_rules p ! nat (c_r c)) \<and> witness_holds (p_rules p ! nat (c_r c)) s c = Accepted"
proof (cases "c_r c < 0 \<or> nat (c_r c) \<ge> length (p_rules p)")
  case True
  then show ?thesis by (auto simp: check_ground_def deciding_rule_Some)
next
  case False
  let ?j = "nat (c_r c)" let ?r = "p_rules p ! ?j"
  have j: "?j < length (p_rules p)" using False by simp
  have early: "list_ex (\<lambda>e. r_kind e = kind \<and> r_subj e = subj \<and> flag_holds e f \<and> str_holds e s)
      (take ?j (p_rules p)) \<longleftrightarrow> (\<exists>i < ?j. applies kind subj s f (p_rules p ! i))"
    using j str_holds_eq [OF rule_wf_nth [OF assms]] by (intro list_ex_take) (auto simp: applies_def)
  have "check_ground p subj kind s f c = Accepted \<longleftrightarrow>
      r_kind ?r = kind \<and> r_subj ?r = subj \<and> r_allow ?r \<and> flag_holds ?r f \<and>
      witness_holds ?r s c = Accepted \<and> \<not> (\<exists>i < ?j. applies kind subj s f (p_rules p ! i))"
    using False by (auto simp: check_ground_def Let_def early split: vres.splits)
  then show ?thesis
    using False j witness_sound [OF rule_wf_nth [OF assms j]] by (auto simp: deciding_rule_Some applies_def)
qed

lemma check_ground_in_bounds:
  assumes "policy_ok p" and "cert_ok c"
  shows "check_ground p subj kind s f c \<noteq> Out_of_bounds"
  using witness_in_bounds [OF rule_wf_nth [OF assms(1)] assms(2)]
  by (auto simp: check_ground_def Let_def split: vres.splits)

section \<open>The symbolic check decides every flags value\<close>

lemma flag_holds_mask:
  assumes "r_mask r AND bits = r_mask r"
  shows "flag_holds r (f AND bits) \<longleftrightarrow> flag_holds r f"
proof -
  have "(f AND bits) AND r_mask r = f AND (r_mask r AND bits)" by (simp add: ac_simps)
  then show ?thesis by (simp add: flag_holds_def assms)
qed

lemma or_fold_upper:
  fixes g :: "'b \<Rightarrow> 'a::len word"
  shows "a AND fold (\<lambda>j bits. bits OR g j) xs a = a"
proof (induction xs arbitrary: a)
  case Nil
  then show ?case by simp
next
  case (Cons x xs)
  have "a AND (a OR g x) = a" by (rule bit_word_eqI) (auto simp: bit_simps)
  with Cons.IH [of "a OR g x"] show ?case by (metis and.assoc fold_simps(2))
qed

lemma or_fold_mem:
  fixes g :: "'b \<Rightarrow> 'a::len word"
  shows "x \<in> set xs \<Longrightarrow> g x AND fold (\<lambda>j bits. bits OR g j) xs a = g x"
proof (induction xs arbitrary: a)
  case Nil
  then show ?case by simp
next
  case (Cons y ys)
  show ?case
  proof (cases "x \<in> set ys")
    case True
    then show ?thesis using Cons.IH by simp
  next
    case False
    with Cons.prems have "x = y" by simp
    moreover have "g y AND (a OR g y) = g y" by (rule bit_word_eqI) (auto simp: bit_simps)
    ultimately show ?thesis using or_fold_upper [of "a OR g y" g ys] by (metis and.assoc fold_simps(2))
  qed
qed

lemma or_fold_subset:
  fixes g :: "'b \<Rightarrow> 'a::len word"
  shows "\<forall>x \<in> set xs. g x AND k = g x \<Longrightarrow> a AND k = a \<Longrightarrow>
    fold (\<lambda>j bits. bits OR g j) xs a AND k = fold (\<lambda>j bits. bits OR g j) xs a"
proof (induction xs arbitrary: a)
  case Nil
  then show ?case by simp
next
  case (Cons x xs)
  have "(a OR g x) AND k = a OR g x" using Cons.prems by (simp add: bit.conj_disj_distrib2)
  with Cons show ?case by simp
qed

lemma flag_holds_free: "rule_wf r \<Longrightarrow> r_mask r = 0 \<Longrightarrow> flag_holds r f"
  by (auto simp: rule_wf_def flag_holds_def)

lemma holding_bounds: "j \<in> set (holding subj s es k) \<Longrightarrow> k \<le> j \<and> j < k + length es"
proof (induction es arbitrary: k)
  case Nil
  then show ?case by simp
next
  case (Cons e es)
  have "j \<in> set (holding subj s es (Suc k)) \<Longrightarrow> k \<le> j \<and> j < Suc (k + length es)"
    using Cons.IH [of "Suc k"] by simp
  with Cons.prems show ?case by (auto split: if_splits)
qed

lemma length_holding: "length (holding subj s es k) \<le> length es"
  by (induction es arbitrary: k) (auto intro: le_SucI)

text \<open>Among the rules it collects, the first whose flags hold is the first that applies.\<close>

lemma find_holding:
  assumes "drop k rs = es" and "k \<le> length rs" and "list_all rule_wf es"
  shows "find (\<lambda>j. flag_holds (rs ! j) f) (holding subj s es k) =
    find (\<lambda>j. applies VDPC_PATH subj s f (rs ! j)) [k..<length rs]"
  using assms
proof (induction es arbitrary: k)
  case Nil
  then show ?case by simp
next
  case (Cons e es)
  then have k: "k < length rs" "rs ! k = e" "drop (Suc k) rs = es"
    by (metis drop_all list.distinct(1) not_le, metis Cons_nth_drop_Suc drop_all list.distinct(1) list.inject not_le,
        metis drop_Suc list.sel(3) tl_drop)
  have IH: "find (\<lambda>j. flag_holds (rs ! j) f) (holding subj s es (Suc k)) =
      find (\<lambda>j. applies VDPC_PATH subj s f (rs ! j)) [Suc k..<length rs]"
    using Cons.IH [OF k(3)] k(1) Cons.prems(3) by simp
  have e: "rule_wf e" using Cons.prems(3) by simp
  show ?case
    using IH k(1,2) str_holds_eq [OF e] flag_holds_free [OF e]
    by (auto simp: upt_conv_Cons applies_def)
qed

lemma find_hold:
  assumes "policy_ok p"
  shows "find (\<lambda>j. flag_holds (p_rules p ! j) f) (holding subj s (p_rules p) 0) = deciding_rule p subj VDPC_PATH s f"
  using assms find_holding [of 0 "p_rules p" "p_rules p"] by (simp add: policy_ok_def deciding_rule_def)

lemma hold_bits_known:
  assumes "policy_ok p"
  shows "hold_bits p (holding subj s (p_rules p) 0) AND known_bits = hold_bits p (holding subj s (p_rules p) 0)"
  unfolding hold_bits_def
proof (rule or_fold_subset)
  show "\<forall>j \<in> set (holding subj s (p_rules p) 0). r_mask (p_rules p ! j) AND known_bits = r_mask (p_rules p ! j)"
    using holding_bounds [of _ subj s "p_rules p" 0] rule_wf_nth [OF assms] by (auto simp: rule_wf_def)
qed simp

lemma adm_mask:
  assumes "bits AND known_bits = bits" and "admissible f"
  shows "admissible (f AND bits)"
proof -
  have "(f AND bits) AND known_bits = f AND (bits AND known_bits)" by (simp add: ac_simps)
  moreover have "(f AND bits) AND ACCMODE \<noteq> ACCMODE"
  proof
    assume a: "(f AND bits) AND ACCMODE = ACCMODE"
    have "f AND ACCMODE = f AND ((f AND bits) AND ACCMODE)" by (simp add: a)
    also have "\<dots> = (f AND bits) AND ACCMODE" by (simp add: ac_simps)
    finally show False using assms(2) by (simp add: a admissible_def)
  qed
  ultimately show ?thesis using assms(1) by (simp add: admissible_def)
qed

lemma adm_subset:
  "bits AND known_bits = bits \<Longrightarrow> t AND bits = t \<Longrightarrow> t AND ACCMODE \<noteq> ACCMODE \<Longrightarrow> admissible t"
  by (metis admissible_def and.assoc)

text \<open>Only the bits the holding rules test matter.\<close>

lemma deciding_rule_mask:
  assumes "policy_ok p" and "bits = hold_bits p (holding subj s (p_rules p) 0)"
  shows "deciding_rule p subj VDPC_PATH s (f AND bits) = deciding_rule p subj VDPC_PATH s f"
proof -
  let ?h = "holding subj s (p_rules p) 0"
  have "flag_holds (p_rules p ! j) (f AND bits) \<longleftrightarrow> flag_holds (p_rules p ! j) f" if "j \<in> set ?h" for j
    by (rule flag_holds_mask) (use or_fold_mem [OF that] in \<open>simp add: assms(2) hold_bits_def\<close>)
  then have "find (\<lambda>j. flag_holds (p_rules p ! j) (f AND bits)) ?h = find (\<lambda>j. flag_holds (p_rules p ! j) f) ?h"
    by (intro find_cong) auto
  then show ?thesis by (simp add: find_hold [OF assms(1)])
qed

lemma subset_visited:
  assumes "policy_ok p" and "bits = hold_bits p (holding subj s (p_rules p) 0)"
  shows "(\<forall>f. admissible f \<longrightarrow> P (deciding_rule p subj VDPC_PATH s f)) \<longleftrightarrow>
    (\<forall>t \<in> set (subsets_from bits 0). t AND ACCMODE \<noteq> ACCMODE \<longrightarrow> P (deciding_rule p subj VDPC_PATH s t))"
proof -
  have known: "bits AND known_bits = bits" using hold_bits_known [OF assms(1)] assms(2) by simp
  show ?thesis
  proof
    assume "\<forall>f. admissible f \<longrightarrow> P (deciding_rule p subj VDPC_PATH s f)"
    then show "\<forall>t \<in> set (subsets_from bits 0). t AND ACCMODE \<noteq> ACCMODE \<longrightarrow> P (deciding_rule p subj VDPC_PATH s t)"
      using adm_subset [OF known] by (simp add: set_subsets)
  next
    assume all: "\<forall>t \<in> set (subsets_from bits 0). t AND ACCMODE \<noteq> ACCMODE \<longrightarrow> P (deciding_rule p subj VDPC_PATH s t)"
    show "\<forall>f. admissible f \<longrightarrow> P (deciding_rule p subj VDPC_PATH s f)"
    proof (intro allI impI)
      fix f assume "admissible f"
      then have "admissible (f AND bits)" by (rule adm_mask [OF known])
      then have "P (deciding_rule p subj VDPC_PATH s (f AND bits))"
        using all by (simp add: set_subsets admissible_def and.assoc)
      then show "P (deciding_rule p subj VDPC_PATH s f)" by (simp add: deciding_rule_mask [OF assms])
    qed
  qed
qed

definition ok_step :: "vdpc_policy \<Rightarrow> nat list \<Rightarrow> u32 \<Rightarrow> bool" where
  "ok_step p hold t \<longleftrightarrow>
     (t AND ACCMODE \<noteq> ACCMODE \<longrightarrow>
       (\<exists>j. find (\<lambda>j. flag_holds (p_rules p ! j) t) hold = Some j \<and> r_allow (p_rules p ! j)))"

lemma sym_step_Inr: "(\<exists>d'. sym_step p hold t d = Inr d') \<longleftrightarrow> ok_step p hold t"
  by (auto simp: sym_step_def ok_step_def split: option.splits)

lemma sym_loop_Inr:
  "(\<exists>d'. sym_loop p hold bits sub d = Inr d') \<longleftrightarrow> (\<forall>t \<in> set (subsets_from bits sub). ok_step p hold t)"
proof (induction p hold bits sub d rule: sym_loop.induct)
  case (1 p hold bits sub d)
  show ?case
  proof (cases "sym_step p hold sub d")
    case (Inl e)
    then have "\<not> ok_step p hold sub" using sym_step_Inr [of p hold sub d] by auto
    with Inl show ?thesis by (auto simp: sym_loop.simps [of p hold bits sub d] subsets_from.simps [of bits sub])
  next
    case (Inr d1)
    then have "ok_step p hold sub" using sym_step_Inr by blast
    with Inr 1 show ?thesis
      by (cases "sub = bits")
         (auto simp: sym_loop.simps [of p hold bits sub d] sym_loop.simps [of p hold bits bits d]
           subsets_from.simps [of bits sub] subsets_from.simps [of bits bits])
  qed
qed

text \<open>A deciding rule that is named at the end decided every value.\<close>

lemma sym_loop_deciding:
  "sym_loop p hold bits sub d = Inr d' \<Longrightarrow> 0 \<le> d' \<Longrightarrow> -2 \<le> d \<Longrightarrow>
    (d = -2 \<or> d = d') \<and>
    (\<forall>t \<in> set (subsets_from bits sub). t AND ACCMODE \<noteq> ACCMODE \<longrightarrow>
      find (\<lambda>j. flag_holds (p_rules p ! j) t) hold = Some (nat d'))"
proof (induction p hold bits sub d rule: sym_loop.induct)
  case (1 p hold bits sub d)
  obtain d1 where d1: "sym_step p hold sub d = Inr d1"
    using 1(2) by (auto simp: sym_loop.simps [of p hold bits sub d] split: sum.splits)
  have d1': "sub AND ACCMODE \<noteq> ACCMODE \<Longrightarrow>
      \<exists>j. find (\<lambda>j. flag_holds (p_rules p ! j) sub) hold = Some j \<and> d1 = (if d = -2 \<or> d = int j then int j else -1)"
    "sub AND ACCMODE = ACCMODE \<Longrightarrow> d1 = d"
    using d1 by (auto simp: sym_step_def split: option.splits if_splits)
  have "(d1 = -2 \<or> d1 = d') \<and> (sub \<noteq> bits \<longrightarrow>
      (\<forall>t \<in> set (subsets_from bits ((sub - bits) AND bits)). t AND ACCMODE \<noteq> ACCMODE \<longrightarrow>
        find (\<lambda>j. flag_holds (p_rules p ! j) t) hold = Some (nat d')))"
  proof (cases "sub = bits")
    case True
    with 1(2) d1 show ?thesis by (simp add: sym_loop.simps [of p hold bits bits d])
  next
    case False
    moreover have "sym_loop p hold bits ((sub - bits) AND bits) d1 = Inr d'"
      using 1(2) d1 False by (simp add: sym_loop.simps [of p hold bits sub d])
    moreover have "-2 \<le> d1" using d1' 1(4) by (cases "sub AND ACCMODE = ACCMODE") auto
    ultimately show ?thesis using 1(1) [OF d1 False _ 1(3)] by blast
  qed
  then have d1_cases: "d1 = -2 \<or> d1 = d'"
    and rest: "sub \<noteq> bits \<Longrightarrow> \<forall>t \<in> set (subsets_from bits ((sub - bits) AND bits)). t AND ACCMODE \<noteq> ACCMODE \<longrightarrow>
        find (\<lambda>j. flag_holds (p_rules p ! j) t) hold = Some (nat d')" by blast+
  have here: "(d = -2 \<or> d = d') \<and>
      (sub AND ACCMODE \<noteq> ACCMODE \<longrightarrow> find (\<lambda>j. flag_holds (p_rules p ! j) sub) hold = Some (nat d'))"
  proof (cases "sub AND ACCMODE = ACCMODE")
    case True
    with d1'(2) d1_cases show ?thesis by simp
  next
    case False
    with d1'(1) obtain j where "find (\<lambda>j. flag_holds (p_rules p ! j) sub) hold = Some j"
      "d1 = (if d = -2 \<or> d = int j then int j else -1)" by blast
    with d1_cases 1(3) show ?thesis by (auto split: if_splits)
  qed
  then show ?case
  proof (cases "sub = bits")
    case True
    with here show ?thesis by (simp add: subsets_from.simps [of bits bits])
  next
    case False
    with here rest show ?thesis by (simp add: subsets_from.simps [of bits sub])
  qed
qed

lemma sym_loop_same:
  assumes "\<forall>t \<in> set (subsets_from bits sub). t AND ACCMODE \<noteq> ACCMODE \<longrightarrow>
      find (\<lambda>j. flag_holds (p_rules p ! j) t) hold = Some j"
    and "r_allow (p_rules p ! j)" and "d = int j \<or> (d = -2 \<and> sub AND ACCMODE \<noteq> ACCMODE)"
  shows "sym_loop p hold bits sub d = Inr (int j)"
  using assms
proof (induction p hold bits sub d rule: sym_loop.induct)
  case (1 p hold bits sub d)
  have here: "sub AND ACCMODE \<noteq> ACCMODE \<Longrightarrow> find (\<lambda>j. flag_holds (p_rules p ! j) sub) hold = Some j"
    using 1(2) by (auto simp: subsets_from.simps [of bits sub] subsets_from.simps [of bits bits] split: if_splits)
  have st: "sym_step p hold sub d = Inr (int j)"
    using here 1(3,4) by (auto simp: sym_step_def)
  show ?case
  proof (cases "sub = bits")
    case True
    with st show ?thesis by (simp add: sym_loop.simps [of p hold bits bits d])
  next
    case False
    have "\<forall>t \<in> set (subsets_from bits ((sub - bits) AND bits)). t AND ACCMODE \<noteq> ACCMODE \<longrightarrow>
        find (\<lambda>j. flag_holds (p_rules p ! j) t) hold = Some j"
      using 1(2) False by (simp add: subsets_from.simps [of bits sub])
    with 1(1) [OF st False] 1(3) st False show ?thesis by (simp add: sym_loop.simps [of p hold bits sub d])
  qed
qed

lemma admissible_0: "admissible 0"
  by (simp add: admissible_def ACCMODE_def)

lemma deciding_rule_path:
  "deciding_rule p subj kind s f = Some j \<Longrightarrow>
    j < length (p_rules p) \<and> r_kind (p_rules p ! j) = kind \<and> r_subj (p_rules p ! j) = subj"
  by (simp add: deciding_rule_Some applies_def)

lemma sym_loop_check:
  assumes "policy_ok p" and "hold = holding subj s (p_rules p) 0"
  shows "(\<exists>d. sym_loop p hold (hold_bits p hold) 0 (-2) = Inr d) \<longleftrightarrow>
      (\<forall>f. admissible f \<longrightarrow> allowed p subj VDPC_PATH s f)"
    and "sym_loop p hold (hold_bits p hold) 0 (-2) = Inr (int j) \<longleftrightarrow>
      (\<forall>f. admissible f \<longrightarrow> deciding_rule p subj VDPC_PATH s f = Some j) \<and> r_allow (p_rules p ! j)"
proof -
  note visited = subset_visited [OF assms(1) refl, of _ subj s, folded assms(2)]
  have step: "ok_step p hold t \<longleftrightarrow> (t AND ACCMODE \<noteq> ACCMODE \<longrightarrow> allowed p subj VDPC_PATH s t)" for t
    using assms by (simp add: ok_step_def find_hold allowed_iff)
  show all: "(\<exists>d. sym_loop p hold (hold_bits p hold) 0 (-2) = Inr d) \<longleftrightarrow>
      (\<forall>f. admissible f \<longrightarrow> allowed p subj VDPC_PATH s f)"
    using visited [of "\<lambda>x. case x of None \<Rightarrow> False | Some j \<Rightarrow> r_allow (p_rules p ! j)"]
    by (simp add: sym_loop_Inr step allowed_def)
  show "sym_loop p hold (hold_bits p hold) 0 (-2) = Inr (int j) \<longleftrightarrow>
      (\<forall>f. admissible f \<longrightarrow> deciding_rule p subj VDPC_PATH s f = Some j) \<and> r_allow (p_rules p ! j)"
  proof
    assume l: "sym_loop p hold (hold_bits p hold) 0 (-2) = Inr (int j)"
    have "\<forall>t \<in> set (subsets_from (hold_bits p hold) 0). t AND ACCMODE \<noteq> ACCMODE \<longrightarrow>
        deciding_rule p subj VDPC_PATH s t = Some j"
      using sym_loop_deciding [OF l] assms by (simp add: find_hold)
    then have first: "\<forall>f. admissible f \<longrightarrow> deciding_rule p subj VDPC_PATH s f = Some j"
      using visited [of "\<lambda>x. x = Some j"] by simp
    moreover have "r_allow (p_rules p ! j)"
      using all l first admissible_0 by (auto simp: allowed_iff)
    ultimately show "(\<forall>f. admissible f \<longrightarrow> deciding_rule p subj VDPC_PATH s f = Some j) \<and> r_allow (p_rules p ! j)" ..
  next
    assume r: "(\<forall>f. admissible f \<longrightarrow> deciding_rule p subj VDPC_PATH s f = Some j) \<and> r_allow (p_rules p ! j)"
    then have "\<forall>t \<in> set (subsets_from (hold_bits p hold) 0). t AND ACCMODE \<noteq> ACCMODE \<longrightarrow>
        find (\<lambda>j. flag_holds (p_rules p ! j) t) hold = Some j"
      using visited [of "\<lambda>x. x = Some j"] assms by (simp add: find_hold)
    with r show "sym_loop p hold (hold_bits p hold) 0 (-2) = Inr (int j)"
      by (intro sym_loop_same) (simp_all add: ACCMODE_def)
  qed
qed

lemma hold_nonempty:
  assumes "policy_ok p" and "allowed p subj VDPC_PATH s f"
  shows "holding subj s (p_rules p) 0 \<noteq> []"
  using assms find_hold [OF assms(1), of f subj s] by (auto simp: allowed_iff)

lemma check_symbolic_iff:
  assumes "policy_ok p"
  shows "check_symbolic p subj s c = Accepted \<longleftrightarrow>
    (\<forall>f. admissible f \<longrightarrow> allowed p subj VDPC_PATH s f) \<and>
    (if c_r c < 0 then c_wkind c = 0
     else (\<forall>f. admissible f \<longrightarrow> deciding_rule p subj VDPC_PATH s f = Some (nat (c_r c))) \<and>
       witness_holds (p_rules p ! nat (c_r c)) s c = Accepted)"
proof -
  define hold where "hold = holding subj s (p_rules p) 0"
  let ?l = "sym_loop p hold (hold_bits p hold) 0 (-2)"
  let ?all = "\<forall>f. admissible f \<longrightarrow> allowed p subj VDPC_PATH s f"
  have room: "\<not> length hold > VDPC_MAX_RULES"
    using assms length_holding [of subj s "p_rules p" 0] by (simp add: hold_def policy_ok_def)
  have ne: "?all \<Longrightarrow> hold \<noteq> []" using hold_nonempty [OF assms] admissible_0 unfolding hold_def by blast
  have tail: "(if length hold > VDPC_MAX_RULES then Out_of_bounds
       else if hold = [] then Refused ''no rule holds''
       else case ?l of
         Inl e \<Rightarrow> Refused e
       | Inr deciding \<Rightarrow>
           if c_r c \<ge> 0 \<and> c_r c \<noteq> deciding then Refused ''certificate names the wrong rule'' else Accepted) = Accepted
      \<longleftrightarrow> ?all \<and> (c_r c \<ge> 0 \<longrightarrow> ?l = Inr (c_r c))"
    using room ne sym_loop_check(1) [OF assms hold_def] by (auto split: sum.splits)
  have name: "?l = Inr (c_r c) \<longleftrightarrow>
      (\<forall>f. admissible f \<longrightarrow> deciding_rule p subj VDPC_PATH s f = Some (nat (c_r c))) \<and>
      r_allow (p_rules p ! nat (c_r c))" if "c_r c \<ge> 0"
    using sym_loop_check(2) [OF assms hold_def, of "nat (c_r c)"] that by simp
  show ?thesis
  proof (cases "c_r c < 0")
    case True
    have "check_symbolic p subj s c = Accepted \<longleftrightarrow> c_wkind c = 0 \<and> ?all"
      using tail True unfolding check_symbolic_def Let_def hold_def [symmetric] by simp
    with True show ?thesis by auto
  next
    case False
    let ?r = "p_rules p ! nat (c_r c)"
    have "check_symbolic p subj s c = Accepted \<longleftrightarrow>
        \<not> (nat (c_r c) \<ge> length (p_rules p) \<or> r_kind ?r \<noteq> VDPC_PATH \<or> r_subj ?r \<noteq> subj) \<and>
        witness_holds ?r s c = Accepted \<and> ?all \<and> ?l = Inr (c_r c)"
    proof (cases "nat (c_r c) \<ge> length (p_rules p) \<or> r_kind ?r \<noteq> VDPC_PATH \<or> r_subj ?r \<noteq> subj")
      case True
      then show ?thesis using False unfolding check_symbolic_def Let_def by simp
    next
      case ok: False
      show ?thesis
        using tail False ok unfolding check_symbolic_def Let_def hold_def [symmetric]
        by (cases "witness_holds ?r s c") simp_all
    qed
    with False show ?thesis
      using name deciding_rule_path [of p subj VDPC_PATH s 0 "nat (c_r c)"] admissible_0
      by (auto simp: allowed_iff)
  qed
qed

lemma check_symbolic_in_bounds:
  assumes "policy_ok p" and "cert_ok c"
  shows "check_symbolic p subj s c \<noteq> Out_of_bounds"
proof -
  have "\<not> length (holding subj s (p_rules p) 0) > VDPC_MAX_RULES"
    using assms length_holding [of subj s "p_rules p" 0] by (simp add: policy_ok_def)
  moreover have "nat (c_r c) < length (p_rules p) \<Longrightarrow> witness_holds (p_rules p ! nat (c_r c)) s c \<noteq> Out_of_bounds"
    using witness_in_bounds rule_wf_nth assms by blast
  ultimately show ?thesis
    unfolding check_symbolic_def Let_def
    by (cases "witness_holds (p_rules p ! nat (c_r c)) s c") (auto split: sum.split)
qed

section \<open>Openable and writable, exactly\<close>

definition open_writes :: "u32 \<Rightarrow> bool" where
  "open_writes f \<longleftrightarrow> f AND ACCMODE \<noteq> 0 \<or> f AND 512 \<noteq> 0"

lemma u32_eq_bits: "x = y \<longleftrightarrow> (\<forall>n. bit x n \<longleftrightarrow> bit y n)" for x y :: u32
  by (auto intro: bit_word_eqI)

lemma and_bits:
  fixes x :: u32
  shows "x AND 512 = 0 \<longleftrightarrow> \<not> bit x 9" and "x AND 1 = 0 \<longleftrightarrow> \<not> bit x 0" and "x AND 2 = 0 \<longleftrightarrow> \<not> bit x 1"
    and "x AND ACCMODE = 0 \<longleftrightarrow> \<not> bit x 0 \<and> \<not> bit x 1"
    and "x AND ACCMODE = ACCMODE \<longleftrightarrow> bit x 0 \<and> bit x 1"
proof -
  show "x AND 512 = 0 \<longleftrightarrow> \<not> bit x 9" using and_exp_eq_0_iff_not_bit [of x 9] by simp
  show "x AND 1 = 0 \<longleftrightarrow> \<not> bit x 0" using and_exp_eq_0_iff_not_bit [of x 0] by simp
  show "x AND 2 = 0 \<longleftrightarrow> \<not> bit x 1" using and_exp_eq_0_iff_not_bit [of x 1] by simp
  have m: "ACCMODE = mask 2" by (simp add: ACCMODE_def mask_numeral)
  have lt: "n < 2 \<longleftrightarrow> n = 0 \<or> n = 1" for n :: nat by auto
  have bits: "bit (x AND ACCMODE) n \<longleftrightarrow> (n = 0 \<or> n = 1) \<and> bit x n" for n
    unfolding m bit_and_iff bit_mask_iff lt by auto
  show "x AND ACCMODE = 0 \<longleftrightarrow> \<not> bit x 0 \<and> \<not> bit x 1"
    unfolding u32_eq_bits bits by auto (metis gr0I)
  have acc: "bit ACCMODE n \<longleftrightarrow> n = 0 \<or> n = 1" for n unfolding m bit_mask_iff lt by auto
  show "x AND ACCMODE = ACCMODE \<longleftrightarrow> bit x 0 \<and> bit x 1"
    unfolding u32_eq_bits bits acc by blast
qed

lemma and_eq_bits: "x AND b = x \<longleftrightarrow> (\<forall>n. bit x n \<longrightarrow> bit b n)" for x b :: u32
  unfolding u32_eq_bits by (auto simp: bit_and_iff dest: bit_imp_le_length)

lemma add_flag:
  assumes "bits AND known_bits = bits" and "t AND bits = t" and "known_bits AND 2 ^ n = (2 ^ n :: u32)"
    and "\<not> bit bits n"
  shows "(t OR 2 ^ n) AND known_bits = t OR 2 ^ n" and "(t OR 2 ^ n) AND bits = t"
proof -
  have "t AND known_bits = t" using assms(1,2) by (metis and.assoc)
  then show "(t OR 2 ^ n) AND known_bits = t OR 2 ^ n"
    by (simp only: bit.conj_disj_distrib2 and.commute [of "2 ^ n" known_bits] assms(3))
  have "2 ^ n AND bits = (0 :: u32)" using assms(4) by (simp add: and_exp_eq_0_iff_not_bit and.commute)
  then show "(t OR 2 ^ n) AND bits = t" using assms(2) by (simp add: bit.conj_disj_distrib2)
qed

lemma sub_writes_iff:
  assumes "bits AND known_bits = bits" and "t AND bits = t" and "t AND ACCMODE \<noteq> ACCMODE"
  shows "sub_writes bits t \<longleftrightarrow> (\<exists>f. admissible f \<and> f AND bits = t \<and> open_writes f)"
proof
  assume "\<exists>f. admissible f \<and> f AND bits = t \<and> open_writes f"
  then obtain f where f: "admissible f" "f AND bits = t" "open_writes f" by blast
  have "bit t n \<longleftrightarrow> bit f n \<and> bit bits n" for n using f(2) by (auto simp: bit_and_iff)
  with f(1,3) show "sub_writes bits t" by (auto simp: sub_writes_def open_writes_def and_bits admissible_def)
next
  assume w: "sub_writes bits t"
  have t: "admissible t" using adm_subset assms by blast
  have sub: "bit t n \<Longrightarrow> bit bits n" for n using assms(2) by (simp add: and_eq_bits)
  have adm: "admissible (t OR 2 ^ n) \<and> (t OR 2 ^ n) AND bits = t \<and> open_writes (t OR 2 ^ n)"
    if "n \<in> {0, 1, 9}" "\<not> bit bits n" "n = 0 \<longrightarrow> \<not> bit t 1" "n = 1 \<longrightarrow> \<not> bit t 0" for n
  proof -
    have "known_bits AND 2 ^ n = (2 ^ n :: u32)" using that(1) by (auto simp: known_bits_eq)
    note add = add_flag [OF assms(1,2) this that(2)]
    have "bit (t OR 2 ^ n) m \<longleftrightarrow> bit t m \<or> m = n" if "m < 32" for m
      using that \<open>n \<in> {0, 1, 9}\<close> by (auto simp: bit_or_iff bit_exp_iff)
    then have "(t OR 2 ^ n) AND ACCMODE \<noteq> ACCMODE" "open_writes (t OR 2 ^ n)"
      using that assms(3) by (auto simp: and_bits open_writes_def)
    with add show ?thesis by (simp add: admissible_def)
  qed
  show "\<exists>f. admissible f \<and> f AND bits = t \<and> open_writes f"
  proof (cases "open_writes t")
    case True
    with t assms(2) show ?thesis by blast
  next
    case False
    with w have "\<not> bit bits 9 \<or> (\<not> bit bits 0 \<and> \<not> bit t 1) \<or> (\<not> bit bits 1 \<and> \<not> bit t 0)"
      unfolding sub_writes_def open_writes_def and_bits by blast
    then show ?thesis
    proof (elim disjE conjE)
      assume "\<not> bit bits 9"
      then show ?thesis using adm [of 9] by auto
    next
      assume "\<not> bit bits 0" "\<not> bit t 1"
      then show ?thesis using adm [of 0] by auto
    next
      assume "\<not> bit bits 1" "\<not> bit t 0"
      then show ?thesis using adm [of 1] by auto
    qed
  qed
qed

lemma open_loop_iff:
  "open_loop p hold w bits sub \<longleftrightarrow>
    (\<exists>t \<in> set (subsets_from bits sub). t AND ACCMODE \<noteq> ACCMODE \<and> (w \<longrightarrow> sub_writes bits t) \<and>
      (\<exists>j. find (\<lambda>j. flag_holds (p_rules p ! j) t) hold = Some j \<and> r_allow (p_rules p ! j)))"
proof (induction p hold w bits sub rule: open_loop.induct)
  case (1 p hold w bits sub)
  have case_find: "(case find (\<lambda>j. flag_holds (p_rules p ! j) t) hold of Some j \<Rightarrow> r_allow (p_rules p ! j)
      | None \<Rightarrow> False) \<longleftrightarrow>
      (\<exists>j. find (\<lambda>j. flag_holds (p_rules p ! j) t) hold = Some j \<and> r_allow (p_rules p ! j))" for t
    by (auto split: option.splits)
  show ?case
  proof (cases "sub = bits")
    case True
    then show ?thesis
      unfolding open_loop.simps [of p hold w bits sub] subsets_from.simps [of bits sub] case_find by auto
  next
    case False
    with 1 show ?thesis
      unfolding open_loop.simps [of p hold w bits sub] subsets_from.simps [of bits sub] case_find by auto
  qed
qed

lemma path_openable_subj_iff:
  assumes "policy_ok p"
  shows "path_openable_subj p subj s w = Some (length s \<le> VDPC_MAX_S \<and> CHR 0x00 \<notin> set s \<and>
    (\<exists>f. admissible f \<and> (w \<longrightarrow> open_writes f) \<and> allowed p subj VDPC_PATH s f))"
proof -
  define hold where "hold = holding subj s (p_rules p) 0"
  define bits where "bits = hold_bits p hold"
  have room: "\<not> length hold > VDPC_MAX_RULES"
    using assms length_holding [of subj s "p_rules p" 0] by (simp add: hold_def policy_ok_def)
  have known: "bits AND known_bits = bits" using hold_bits_known [OF assms] by (simp add: bits_def hold_def)
  have mask: "allowed p subj VDPC_PATH s (f AND bits) \<longleftrightarrow> allowed p subj VDPC_PATH s f" for f
    using deciding_rule_mask [OF assms, of bits subj s f] by (simp add: allowed_def bits_def hold_def)
  have "open_loop p hold w bits 0 \<longleftrightarrow>
      (\<exists>t. t AND bits = t \<and> t AND ACCMODE \<noteq> ACCMODE \<and> (w \<longrightarrow> sub_writes bits t) \<and> allowed p subj VDPC_PATH s t)"
    unfolding open_loop_iff set_subsets hold_def find_hold [OF assms] allowed_iff by blast
  also have "\<dots> \<longleftrightarrow> (\<exists>f. admissible f \<and> (w \<longrightarrow> open_writes f) \<and> allowed p subj VDPC_PATH s f)"
  proof
    assume "\<exists>t. t AND bits = t \<and> t AND ACCMODE \<noteq> ACCMODE \<and> (w \<longrightarrow> sub_writes bits t) \<and>
      allowed p subj VDPC_PATH s t"
    then obtain t where t: "t AND bits = t" "t AND ACCMODE \<noteq> ACCMODE" "w \<longrightarrow> sub_writes bits t"
      "allowed p subj VDPC_PATH s t" by blast
    show "\<exists>f. admissible f \<and> (w \<longrightarrow> open_writes f) \<and> allowed p subj VDPC_PATH s f"
    proof (cases w)
      case True
      with t obtain f where "admissible f" "f AND bits = t" "open_writes f"
        using sub_writes_iff [OF known t(1,2)] by blast
      with t(4) mask [of f] show ?thesis by blast
    next
      case False
      with t adm_subset [OF known t(1,2)] show ?thesis by blast
    qed
  next
    assume "\<exists>f. admissible f \<and> (w \<longrightarrow> open_writes f) \<and> allowed p subj VDPC_PATH s f"
    then obtain f where f: "admissible f" "w \<longrightarrow> open_writes f" "allowed p subj VDPC_PATH s f" by blast
    have t: "(f AND bits) AND bits = f AND bits" by (simp add: and.assoc)
    have a: "(f AND bits) AND ACCMODE \<noteq> ACCMODE" using adm_mask [OF known f(1)] by (simp add: admissible_def)
    have "w \<longrightarrow> sub_writes bits (f AND bits)" using sub_writes_iff [OF known t a] f by blast
    with t a f(3) mask [of f]
    show "\<exists>t. t AND bits = t \<and> t AND ACCMODE \<noteq> ACCMODE \<and> (w \<longrightarrow> sub_writes bits t) \<and>
      allowed p subj VDPC_PATH s t" by blast
  qed
  finally show ?thesis
    using room by (auto simp: path_openable_subj_def Let_def hold_def [symmetric] bits_def [symmetric])
qed

lemma any_subject_iff:
  assumes "\<And>k. path_openable_subj p (int k) s w = Some (Q k)"
  shows "any_subject p s w ks = Some (\<exists>k \<in> set ks. Q k)"
  by (induction ks) (auto simp: assms split: bool.splits)

lemma path_openable_if_iff:
  assumes "policy_ok p"
  shows "path_openable_if p s w = Some (\<exists>subj f. string_ok p subj s \<and> admissible f \<and> (w \<longrightarrow> open_writes f) \<and>
    allowed p subj VDPC_PATH s f)"
proof -
  have "(\<exists>k \<le> length (p_subjects p). length s \<le> VDPC_MAX_S \<and> CHR 0x00 \<notin> set s \<and>
      (\<exists>f. admissible f \<and> (w \<longrightarrow> open_writes f) \<and> allowed p (int k) VDPC_PATH s f)) \<longleftrightarrow>
    (\<exists>subj f. string_ok p subj s \<and> admissible f \<and> (w \<longrightarrow> open_writes f) \<and> allowed p subj VDPC_PATH s f)"
    (is "?l \<longleftrightarrow> ?r")
  proof
    assume ?l
    then obtain k f where "k \<le> length (p_subjects p)" "length s \<le> VDPC_MAX_S" "CHR 0x00 \<notin> set s" "admissible f"
      "w \<longrightarrow> open_writes f" "allowed p (int k) VDPC_PATH s f" by blast
    then show ?r by (intro exI [of _ "int k"] exI [of _ f]) (simp add: string_ok_def)
  next
    assume ?r
    then obtain subj f where "string_ok p subj s" "admissible f" "w \<longrightarrow> open_writes f" "allowed p subj VDPC_PATH s f" by blast
    then show ?l by (intro exI [of _ "nat subj"]) (auto simp: string_ok_def)
  qed
  moreover have "(\<exists>k \<in> set [0..<Suc n]. P k) \<longleftrightarrow> (\<exists>k \<le> n. P k)" for n and P :: "nat \<Rightarrow> bool"
    unfolding set_upt Bex_def atLeastLessThan_iff less_Suc_eq_le by simp
  ultimately show ?thesis
    unfolding path_openable_if_def any_subject_iff [OF path_openable_subj_iff [OF assms]]
    by (simp only:)
qed

section \<open>The check as a whole\<close>

lemma and_not_known: "f AND NOT k = 0 \<longleftrightarrow> f AND k = f" for f k :: u32
proof -
  have len: "bit x n \<Longrightarrow> n < 32" for x :: u32 and n by (drule bit_imp_le_length) simp
  show ?thesis unfolding u32_eq_bits by (auto simp: bit_and_iff bit_not_iff dest: len)
qed

lemma check_subj_ground:
  assumes "policy_ok p"
  shows "vdpc_check_subj p subj kind s f True c = Accepted \<longleftrightarrow>
    in_fragment p subj kind s (if kind = VDPC_PATH then f else 0) \<and>
    check_ground p subj kind s (if kind = VDPC_PATH then f else 0) c = Accepted"
  unfolding vdpc_check_subj_def in_fragment_def string_ok_def admissible_def
  by (auto simp: and_not_known)

lemma check_subj_symbolic:
  "vdpc_check_subj p subj VDPC_PATH s f False c = Accepted \<longleftrightarrow>
    string_ok p subj s \<and> check_symbolic p subj s c = Accepted"
  by (auto simp: vdpc_check_subj_def string_ok_def)

lemma ground_cert_exists:
  assumes "policy_ok p" and "in_fragment p subj kind s (if kind = VDPC_PATH then f else 0)"
    and "allowed p subj kind s (if kind = VDPC_PATH then f else 0)"
  shows "\<exists>c. cert_ok c \<and> vdpc_check_subj p subj kind s f True c = Accepted"
proof -
  let ?f = "if kind = VDPC_PATH then f else 0"
  obtain j where j: "deciding_rule p subj kind s ?f = Some j" "r_allow (p_rules p ! j)"
    using assms(3) unfolding allowed_iff by blast
  then have "j < length (p_rules p)" "rule_matches (p_rules p ! j) s" by (auto simp: deciding_rule_Some applies_def)
  then obtain c where "cert_ok c" "c_r c = int j" "witness_holds (p_rules p ! j) s c = Accepted"
    using witness_complete [OF rule_wf_nth [OF assms(1)], of j s "int j"] by blast
  with j assms check_ground_iff [OF assms(1)] show ?thesis
    by (intro exI [of _ c]) (simp add: check_subj_ground)
qed

lemma ground_accepts_allowed:
  assumes "policy_ok p" and "vdpc_check_subj p subj kind s f True c = Accepted"
  shows "in_fragment p subj kind s (if kind = VDPC_PATH then f else 0) \<and>
    deciding_rule p subj kind s (if kind = VDPC_PATH then f else 0) = Some (nat (c_r c)) \<and>
    r_allow (p_rules p ! nat (c_r c))"
  using assms check_ground_iff [OF assms(1)] by (simp add: check_subj_ground)

lemma symbolic_accepts:
  assumes "policy_ok p" and "vdpc_check_subj p subj VDPC_PATH s f False c = Accepted"
  shows "string_ok p subj s \<and> (\<forall>g. admissible g \<longrightarrow> allowed p subj VDPC_PATH s g) \<and>
    (0 \<le> c_r c \<longrightarrow> (\<forall>g. admissible g \<longrightarrow> deciding_rule p subj VDPC_PATH s g = Some (nat (c_r c))))"
  using assms by (auto simp: check_subj_symbolic check_symbolic_iff split: if_splits)

lemma path_fragment: "in_fragment p subj VDPC_PATH s f \<longleftrightarrow> string_ok p subj s \<and> admissible f"
  by (simp add: in_fragment_def)

text \<open>What the startup query finds not openable, no certificate opens.\<close>

lemma unopenable_refused:
  assumes "policy_ok p" and "vdpc_path_openable p s = Some False"
  shows "vdpc_check_subj p subj VDPC_PATH s f has_flags c \<noteq> Accepted"
proof
  assume a: "vdpc_check_subj p subj VDPC_PATH s f has_flags c = Accepted"
  have none: "\<not> (string_ok p subj s \<and> admissible g \<and> allowed p subj VDPC_PATH s g)" for g
    using assms(2) path_openable_if_iff [OF assms(1)] by (auto simp: vdpc_path_openable_def)
  show False
  proof (cases has_flags)
    case True
    with ground_accepts_allowed [OF assms(1), of subj VDPC_PATH s f c] a none [of f]
    show False by (auto simp: path_fragment allowed_iff)
  next
    case False
    with symbolic_accepts [OF assms(1), of subj s f c] a none [of 0] admissible_0 show False by auto
  qed
qed

section \<open>An example policy\<close>

definition plain_rule :: "bool \<Rightarrow> int \<Rightarrow> vmatch \<Rightarrow> string \<Rightarrow> vdpc_rule" where
  "plain_rule allow kind m c =
     \<lparr>r_allow = allow, r_kind = kind, r_match = m, r_c = c, r_g = [], r_npre = 0, r_nsuf = 0, r_minlen = 0,
      r_fixed = False, r_mask = 0, r_value = 0, r_line = 1, r_portless = False, r_name = False, r_wild = False,
      r_names = 0, r_rate = 0, r_max_body = 0, r_rhost = [], r_qmode = 0, r_rwild = False, r_rport = 0,
      r_cred = 0, r_hdr = [], r_scheme = [], r_subagent = [], r_subj = 0, r_csubj = 0, r_confined = False,
      r_mcp_server = False, r_sha256 = []\<rparr>"

definition example_policy :: vdpc_policy where
  "example_policy =
     \<lparr>p_rules =
        [(plain_rule False VDPC_PATH M_PREFIX ''/k'') \<lparr>r_mask := 512, r_value := 512\<rparr>,
         glob_filters ((plain_rule True VDPC_PATH M_GLOB ''/k/*'')
           \<lparr>r_g := [G_LIT slash, G_LIT CHR ''k'', G_LIT slash, G_STAR]\<rparr>)],
      p_sha256 = [], p_proxy = False, p_proxy_ports = [], p_proxy_up_host = [], p_proxy_up_port = 0,
      p_proxy_inspect = False, p_proxy_pass = [], p_launches = False, p_open_as_agent = False, p_creds = [],
      p_issuers = [], p_spiffe = [], p_require_obo = False, p_require_plan = False, p_subjects = [],
      p_mcpres = []\<rparr>"

definition example_cert :: vdpc_cert where
  "example_cert = \<lparr>c_r = 1, c_wkind = 2, c_off = 0, c_nspan = 1, c_span = (3, 5) # replicate 31 (0, 0)\<rparr>"

lemma example_policy_ok: "policy_ok example_policy"
  by (simp add: policy_ok_def example_policy_def plain_rule_def rule_wf_def VDPC_MAX_RULES_def known_bits_eq
      glob_filters_def glob_ok_def wilds_def VDPC_MAX_STRETCH_def VDPC_MAX_S_def is_lit_def)

lemma example_cert_ok: "cert_ok example_cert"
  by (simp add: cert_ok_def example_cert_def VDPC_MAX_STRETCH_def)

lemmas example_eval =
  example_policy_def example_cert_def plain_rule_def glob_filters_def is_lit_def kind_defs VDPC_MAX_S_def
  known_bits_eq ACCMODE_def

lemma example_accepted: "vdpc_check_subj example_policy 0 VDPC_PATH ''/k/ab'' 0 True example_cert = Accepted"
  by (simp add: vdpc_check_subj_def check_ground_def Let_def flag_holds_def witness_holds_def wit_walk.simps
      rd_def example_eval)

lemma example_no_key: "vdpc_path_openable example_policy ''/etc/key'' = Some False"
  by (simp add: vdpc_path_openable_def path_openable_if_def path_openable_subj_def Let_def str_holds_def
      glob_holds_def hold_bits_def open_loop.simps [of _ "[]" _ 0 0] VDPC_MAX_RULES_def example_eval)

text \<open>A policy that allows every open below a prefix, and two certificates for it.\<close>

definition open_policy :: vdpc_policy where
  "open_policy = example_policy \<lparr>p_rules := [plain_rule True VDPC_PATH M_PREFIX ''/k'']\<rparr>"

definition name_none :: vdpc_cert where "name_none = example_cert \<lparr>c_r := -1, c_wkind := 0\<rparr>"
definition name_first :: vdpc_cert where "name_first = example_cert \<lparr>c_r := 0, c_wkind := 0\<rparr>"

lemma open_policy_ok: "policy_ok open_policy"
  by (simp add: open_policy_def policy_ok_def plain_rule_def rule_wf_def VDPC_MAX_RULES_def example_policy_def)

lemma admissible_64: "admissible 64"
  by (simp add: admissible_def known_bits_eq ACCMODE_def)

lemmas symbolic_eval =
  vdpc_check_subj_def check_symbolic_def Let_def str_holds_def witness_holds_def hold_bits_def
  sym_loop.simps [of _ _ 0 0] sym_step_def flag_holds_def VDPC_MAX_RULES_def example_eval

lemma name_none_accepted: "vdpc_check_subj open_policy 0 VDPC_PATH ''/k/ab'' 0 False name_none = Accepted"
  by (simp add: open_policy_def name_none_def symbolic_eval)

lemma name_first_accepted: "vdpc_check_subj open_policy 0 VDPC_PATH ''/k/ab'' 0 False name_first = Accepted"
  by (simp add: open_policy_def name_first_def symbolic_eval)

section \<open>The properties\<close>

text \<open>C3. An accepted ground certificate proves the claim it stands for: the action is in the fragment, and the
  rule the certificate names is the first of its kind and subject that holds on it, and allows it.\<close>

theorem certificate_sound:
  assumes "policy_ok p" and "vdpc_check_subj p subj kind s f True c = Accepted"
  shows "in_fragment p subj kind s (if kind = VDPC_PATH then f else 0) \<and>
    deciding_rule p subj kind s (if kind = VDPC_PATH then f else 0) = Some (nat (c_r c)) \<and>
    r_allow (p_rules p ! nat (c_r c))"
  using assms by (rule ground_accepts_allowed)

theorem certificate_sound_witness:
  "in_fragment example_policy 0 VDPC_PATH ''/k/ab'' 0 \<and>
    deciding_rule example_policy 0 VDPC_PATH ''/k/ab'' 0 = Some 1 \<and> r_allow (p_rules example_policy ! 1)"
  using certificate_sound [OF example_policy_ok example_accepted] by (simp add: example_cert_def)

text \<open>C4. Nothing the policy allows is lost to the checker: a certificate it accepts exists exactly for the
  actions of the fragment whose first holding rule allows them.\<close>

theorem certificate_exists_iff:
  assumes "policy_ok p"
  shows "(\<exists>c. cert_ok c \<and> vdpc_check_subj p subj kind s f True c = Accepted) \<longleftrightarrow>
    in_fragment p subj kind s (if kind = VDPC_PATH then f else 0) \<and>
    allowed p subj kind s (if kind = VDPC_PATH then f else 0)"
  using ground_cert_exists [OF assms] ground_accepts_allowed [OF assms] unfolding allowed_iff by blast

theorem certificate_exists_iff_witness:
  "in_fragment example_policy 0 VDPC_PATH ''/k/ab'' 0 \<and> allowed example_policy 0 VDPC_PATH ''/k/ab'' 0"
  using certificate_exists_iff [OF example_policy_ok, of 0 VDPC_PATH "''/k/ab''" 0] example_accepted example_cert_ok
  by auto

text \<open>C5. The symbolic claim is decided exactly: with the certificate that names no rule, the check accepts a
  path if and only if every admissible flags value of an open of it is allowed, although only the subsets of
  the flag bits the holding rules test are enumerated.\<close>

theorem symbolic_exact:
  assumes "policy_ok p" and "c_r c < 0" and "c_wkind c = 0"
  shows "vdpc_check_subj p subj VDPC_PATH s f False c = Accepted \<longleftrightarrow>
    string_ok p subj s \<and> (\<forall>g. admissible g \<longrightarrow> allowed p subj VDPC_PATH s g)"
  using assms by (simp add: check_subj_symbolic check_symbolic_iff)

theorem symbolic_exact_witness:
  "allowed open_policy 0 VDPC_PATH ''/k/ab'' 64"
  using symbolic_exact [OF open_policy_ok, of "name_none" 0 "''/k/ab''" 0] name_none_accepted admissible_64
  by (simp add: name_none_def)

text \<open>A symbolic certificate stands for a ground one: after it is accepted, for every admissible flags value
  some ground certificate is accepted, and one that names a rule proves that rule decides them all.\<close>

theorem symbolic_covers_ground:
  assumes "policy_ok p" and "vdpc_check_subj p subj VDPC_PATH s f False c = Accepted" and "admissible g"
  shows "(\<exists>c'. cert_ok c' \<and> vdpc_check_subj p subj VDPC_PATH s g True c' = Accepted) \<and>
    (0 \<le> c_r c \<longrightarrow> deciding_rule p subj VDPC_PATH s g = Some (nat (c_r c)))"
  using symbolic_accepts [OF assms(1,2)] ground_cert_exists [OF assms(1), of subj VDPC_PATH s g] assms(3)
  by (simp add: path_fragment)

theorem symbolic_covers_ground_witness:
  "deciding_rule open_policy 0 VDPC_PATH ''/k/ab'' 64 = Some 0"
  using symbolic_covers_ground [OF open_policy_ok name_first_accepted admissible_64] by (simp add: name_first_def)

text \<open>C37. The startup queries are exact: a path is openable (writable) if and only if some subject is allowed an
  open of it with some admissible flags value (one that writes).\<close>

theorem openable_exact:
  assumes "policy_ok p"
  shows "vdpc_path_openable p s =
      Some (\<exists>subj f. string_ok p subj s \<and> admissible f \<and> allowed p subj VDPC_PATH s f) \<and>
    vdpc_path_writable p s =
      Some (\<exists>subj f. string_ok p subj s \<and> admissible f \<and> open_writes f \<and> allowed p subj VDPC_PATH s f)"
  using path_openable_if_iff [OF assms] by (simp_all add: vdpc_path_openable_def vdpc_path_writable_def)

theorem openable_exact_witness:
  "vdpc_path_openable example_policy ''/etc/key'' =
    Some (\<exists>subj f. string_ok example_policy subj ''/etc/key'' \<and> admissible f \<and>
      allowed example_policy subj VDPC_PATH ''/etc/key'' f)"
  using openable_exact [OF example_policy_ok] by blast

text \<open>C40. Checking a certificate never reads outside the certificate's span array nor open_writes outside the array of
  holding rules, whatever number of spans the certificate claims.\<close>

theorem check_memory_safe:
  assumes "policy_ok p" and "cert_ok c"
  shows "vdpc_check_subj p subj kind s f has_flags c \<noteq> Out_of_bounds"
  using check_ground_in_bounds [OF assms] check_symbolic_in_bounds [OF assms]
  by (simp add: vdpc_check_subj_def)

theorem check_memory_safe_witness:
  "vdpc_check_subj example_policy 0 VDPC_PATH ''/k/ab'' 0 True (example_cert \<lparr>c_nspan := 4000000000\<rparr>) \<noteq> Out_of_bounds"
proof (rule check_memory_safe [OF example_policy_ok])
  show "cert_ok (example_cert \<lparr>c_nspan := 4000000000\<rparr>)"
    using example_cert_ok by (simp add: cert_ok_def)
qed

end
