(* ===== verification/Vdp_Parsed_Rule.thy ===== *)
theory Vdp_Parsed_Rule
  imports Vdp_Load Vdp_Checker
begin

text \<open>
  What the policy parser of the certificate checker builds for one statement: a rule that satisfies the
  invariant the checks of certificates rest on, with a credential only where it allows over https, and with a
  sub-agent's name only on an allowed exec rule.
\<close>

unbundle bit_operations_syntax

section \<open>What the parser builds: one rule\<close>

lemma name_index_le: "name_index n ms \<le> length ms"
  by (induction ms) (auto split: nat.splits)

lemma name_index_0: "name_index n ms = 0 \<longleftrightarrow> n \<notin> set ms"
  by (induction ms) (auto split: nat.splits)

lemma filters_eq:
  "glob_filters r = r \<longleftrightarrow>
    r_minlen r = length (filter (\<lambda>t. \<not> is_stretch t) (r_g r)) \<and>
    r_fixed r = list_all (\<lambda>t. \<not> is_stretch t) (r_g r) \<and>
    r_npre r = length (takeWhile is_lit (r_g r)) \<and>
    r_nsuf r = length (takeWhile is_lit (rev (r_g r)))"
  by (cases r) (auto simp: glob_filters_def)

text \<open>The glob of a rule comes from its pattern.\<close>

definition glob_of :: "string \<Rightarrow> gtok list \<Rightarrow> bool" where
  "glob_of c g \<longleftrightarrow> (\<exists>al al'. parse_glob al c = (Inr g, al'))"

definition rule_glob_ok :: "vdpc_rule \<Rightarrow> bool" where
  "rule_glob_ok r \<longleftrightarrow>
     (r_match r = M_GLOB \<longrightarrow>
        glob_ok (r_g r) \<and> length (r_g r) \<le> VDPC_MAX_S + 2 \<and> glob_filters r = r \<and> glob_of (r_c r) (r_g r))"

definition rule_flags_ok :: "vdpc_rule \<Rightarrow> bool" where
  "rule_flags_ok r \<longleftrightarrow>
     r_mask r AND known_bits = r_mask r \<and> r_value r AND r_mask r = r_value r \<and>
     (r_kind r \<noteq> VDPC_PATH \<longrightarrow> r_mask r = 0)"

definition rule_refs_ok :: "vdpc_policy \<Rightarrow> vdpc_rule \<Rightarrow> bool" where
  "rule_refs_ok pol r \<longleftrightarrow>
     0 \<le> r_subj r \<and> r_subj r \<le> int (length (p_subjects pol)) \<and> r_cred r \<le> length (p_creds pol)"

text \<open>The pattern of a request or mcp rule names the scheme, host and port of its destination, all plain bytes; a
  rule with a credential allows, and only over https.\<close>

definition host_byte :: "char \<Rightarrow> bool" where
  "host_byte c \<longleftrightarrow> c = CHR ''.'' \<or> c = CHR ''-'' \<or> islower c \<or> isdigit c"

definition dest_form :: "bool \<Rightarrow> string \<Rightarrow> bool \<Rightarrow> string \<Rightarrow> nat \<Rightarrow> bool" where
  "dest_form https c wild host port \<longleftrightarrow>
     list_all host_byte host \<and>
     (\<exists>m t. (m = [] \<or> (\<exists>k. method_ok k \<and> m = k @ '' '')) \<and>
        c = m @ (if https then ''https'' else ''http'') @ ''://'' @ (if wild then ''?*.'' else []) @ host @ '':'' @
          decimal port @ ''/'' @ t)"

definition web_kind :: "vdpc_rule \<Rightarrow> bool" where
  "web_kind r \<longleftrightarrow> r_kind r = VDPC_REQUEST \<or> r_kind r = VDPC_MCP"

definition rule_web_ok :: "vdpc_rule \<Rightarrow> bool" where
  "rule_web_ok r \<longleftrightarrow>
     (r_cred r \<noteq> 0 \<longrightarrow> web_kind r \<and> r_allow r) \<and>
     (web_kind r \<longrightarrow> r_match r = M_GLOB \<and>
        (\<exists>https. dest_form https (r_c r) (r_rwild r) (r_rhost r) (r_rport r) \<and> (r_cred r \<noteq> 0 \<longrightarrow> https)))"

definition rule_inv :: "vdpc_policy \<Rightarrow> vdpc_rule \<Rightarrow> bool" where
  "rule_inv pol r \<longleftrightarrow>
     rule_glob_ok r \<and> rule_flags_ok r \<and> rule_refs_ok pol r \<and> rule_web_ok r \<and>
     r_kind r \<in> {VDPC_PATH, VDPC_HOST, VDPC_EXEC, VDPC_REQUEST, VDPC_MCP}"

lemma rule_inv_wf: "rule_inv pol r \<Longrightarrow> rule_wf r"
  by (simp add: rule_inv_def rule_wf_def rule_glob_ok_def rule_flags_ok_def)

lemma empty_rule_simps [simp]:
  "rule_flags_ok (empty_rule ln)" "rule_refs_ok pol (empty_rule ln)" "rule_web_ok (empty_rule ln)"
  "r_cred (empty_rule ln) = 0" "r_mask (empty_rule ln) = 0" "r_value (empty_rule ln) = 0"
  "r_subj (empty_rule ln) = 0" "r_csubj (empty_rule ln) = 0" "r_subagent (empty_rule ln) = []"
  by (simp_all add: empty_rule_def rule_flags_ok_def rule_refs_ok_def rule_web_ok_def web_kind_def kind_defs)

text \<open>What the stages of a rule change.\<close>

lemma rule_glob_Inr:
  assumes "rule_glob al gtot r = (Inr (r', gtot'), al')"
  shows "\<exists>g. r' = glob_filters (r\<lparr>r_g := g\<rparr>) \<and> glob_ok g \<and> glob_of (r_c r) g \<and> length g \<le> VDPC_MAX_S + 2"
proof -
  obtain g al1 where g: "parse_glob al (r_c r) = (Inr g, al1)" "r' = glob_filters (r\<lparr>r_g := g\<rparr>)"
    "gtot + length g \<le> VDPC_GLOB_MAX_TOTAL"
    using assms by (auto simp: rule_glob_def split: sum.splits prod.splits if_splits)
  then have "glob_of (r_c r) g" unfolding glob_of_def by blast
  with g parse_glob_ok [OF g(1)] show ?thesis
    by (intro exI [of _ g]) (simp add: VDPC_GLOB_MAX_TOTAL_def VDPC_MAX_S_def)
qed

lemma glob_filters_simps [simp]:
  "r_c (glob_filters r) = r_c r" "r_g (glob_filters r) = r_g r" "r_match (glob_filters r) = r_match r"
  "r_mask (glob_filters r) = r_mask r" "r_value (glob_filters r) = r_value r" "r_kind (glob_filters r) = r_kind r"
  "r_subj (glob_filters r) = r_subj r" "r_cred (glob_filters r) = r_cred r" "r_allow (glob_filters r) = r_allow r"
  "r_rhost (glob_filters r) = r_rhost r" "r_rport (glob_filters r) = r_rport r"
  "r_rwild (glob_filters r) = r_rwild r" "r_csubj (glob_filters r) = r_csubj r" "r_subagent (glob_filters r) = r_subagent r"
  "r_confined (glob_filters r) = r_confined r" "glob_filters (glob_filters r) = glob_filters r"
  by (simp_all add: glob_filters_def)

text \<open>The options of request and mcp rules.\<close>

definition web_frame :: "vdpc_policy \<Rightarrow> vdpc_rule \<Rightarrow> vdpc_rule \<Rightarrow> bool" where
  "web_frame pol r r' \<longleftrightarrow>
     (\<exists>s c b h sch. r' = r\<lparr>r_subj := s, r_cred := c, r_max_body := b, r_hdr := h, r_scheme := sch\<rparr>) \<and>
     (rule_refs_ok pol r \<longrightarrow> rule_refs_ok pol r') \<and>
     (r_cred r' \<noteq> 0 \<longrightarrow> r_cred r \<noteq> 0 \<or> r_allow r)"

lemma web_frame_subj: "rule_refs_ok pol r \<longrightarrow> rule_refs_ok pol (r\<lparr>r_subj := k\<rparr>) \<Longrightarrow> web_frame pol r (r\<lparr>r_subj := k\<rparr>)"
  unfolding web_frame_def
  by (intro conjI exI [of _ k] exI [of _ "r_cred r"] exI [of _ "r_max_body r"] exI [of _ "r_hdr r"]
      exI [of _ "r_scheme r"]) simp_all

lemma web_frame_cred:
  "r_allow r \<Longrightarrow> k \<le> length (p_creds pol) \<Longrightarrow> web_frame pol r (r\<lparr>r_cred := k\<rparr>)"
  unfolding web_frame_def
  by (intro conjI exI [of _ "r_subj r"] exI [of _ k] exI [of _ "r_max_body r"] exI [of _ "r_hdr r"]
      exI [of _ "r_scheme r"]) (simp_all add: rule_refs_ok_def)

lemma web_frame_body: "web_frame pol r (r\<lparr>r_max_body := x\<rparr>)"
  unfolding web_frame_def
  by (intro conjI exI [of _ "r_subj r"] exI [of _ "r_cred r"] exI [of _ x] exI [of _ "r_hdr r"]
      exI [of _ "r_scheme r"]) (simp_all add: rule_refs_ok_def)

lemma web_frame_refl [simp]: "web_frame pol r r"
proof -
  have "r\<lparr>r_max_body := r_max_body r\<rparr> = r" by (cases r) simp
  with web_frame_body [of pol r "r_max_body r"] show ?thesis by simp
qed

lemma web_frame_header: "web_frame pol r (r\<lparr>r_hdr := h, r_scheme := sch\<rparr>)"
  unfolding web_frame_def
  by (intro conjI exI [of _ "r_subj r"] exI [of _ "r_cred r"] exI [of _ "r_max_body r"] exI [of _ h]
      exI [of _ sch]) (simp_all add: rule_refs_ok_def)

lemma web_frame_trans:
  assumes "web_frame pol r1 r2" and "web_frame pol r2 r3"
  shows "web_frame pol r1 r3"
proof -
  obtain a b c d e where 2: "r2 = r1\<lparr>r_subj := a, r_cred := b, r_max_body := c, r_hdr := d, r_scheme := e\<rparr>"
    using assms(1) unfolding web_frame_def by blast
  obtain a' b' c' d' e' where
    3: "r3 = r2\<lparr>r_subj := a', r_cred := b', r_max_body := c', r_hdr := d', r_scheme := e'\<rparr>"
    using assms(2) unfolding web_frame_def by blast
  have "r3 = r1\<lparr>r_subj := a', r_cred := b', r_max_body := c', r_hdr := d', r_scheme := e'\<rparr>"
    by (simp add: 3 2)
  moreover have "r_allow r2 = r_allow r1" by (simp add: 2)
  ultimately show ?thesis using assms unfolding web_frame_def by blast
qed

lemma for_subject_frame:
  "for_subject pol n r = Inr r' \<Longrightarrow> web_frame pol r r'"
  using name_index_le [of n "map sj_name (p_subjects pol)"]
  by (auto simp: for_subject_def rule_refs_ok_def subj_named_def split: if_splits intro!: web_frame_subj)

lemma opt_credential_frame:
  "opt_credential pol n r = Inr r' \<Longrightarrow> r_allow r \<Longrightarrow> web_frame pol r r'"
  using name_index_le [of n "map cr_name (p_creds pol)"]
  by (auto simp: opt_credential_def cred_named_def split: if_splits intro!: web_frame_cred)

lemma opt_body_frame: "opt_body d r = Inr r' \<Longrightarrow> web_frame pol r r'"
  by (auto simp: opt_body_def split: if_splits option.splits intro: web_frame_body)

lemmas web_frames = for_subject_frame opt_credential_frame opt_body_frame web_frame_header

lemma request_opt_frame:
  "request_opt pol v t (r, hdr) = Inr (r', hdr') \<Longrightarrow> web_frame pol r r'"
  unfolding request_opt_def Let_def prod.case
  by (auto simp: map_sum_ok split: if_splits intro: web_frames)

lemma mcp_opt_frame:
  "mcp_opt pol t (r, hdr) = Inr (r', hdr') \<Longrightarrow> web_frame pol r r'"
  unfolding mcp_opt_def Let_def prod.case
  by (auto simp: map_sum_ok split: if_splits intro: web_frames)

lemma fold_opts_frame:
  assumes "\<And>t r hdr r' hdr'. f t (r, hdr) = Inr (r', hdr') \<Longrightarrow> web_frame pol r r'"
  shows "fold_opts f ts (r, hdr) = Inr (r', hdr') \<Longrightarrow> web_frame pol r r'"
proof (induction ts arbitrary: r hdr)
  case Nil
  then show ?case by simp
next
  case (Cons t ts)
  then obtain r1 h1 where "f t (r, hdr) = Inr (r1, h1)" "fold_opts f ts (r1, h1) = Inr (r', hdr')"
    by (auto split: sum.splits)
  with assms Cons.IH web_frame_trans show ?case by blast
qed

lemma web_frame_inv:
  assumes "web_frame pol r r'"
  shows "rule_glob_ok r' = rule_glob_ok r" and "rule_flags_ok r' = rule_flags_ok r" and "r_c r' = r_c r"
    and "r_kind r' = r_kind r" and "r_match r' = r_match r" and "r_allow r' = r_allow r"
    and "r_csubj r' = r_csubj r" and "r_subagent r' = r_subagent r" and "r_confined r' = r_confined r"
    and "r_rhost r' = r_rhost r" and "r_rport r' = r_rport r" and "r_rwild r' = r_rwild r"
  using assms unfolding web_frame_def
  by (auto simp: rule_glob_ok_def rule_flags_ok_def filters_eq)

lemma rule_glob_ok_parsed:
  "glob_ok g \<Longrightarrow> length g \<le> VDPC_MAX_S + 2 \<Longrightarrow> glob_of (r_c r) g \<Longrightarrow>
    rule_glob_ok (glob_filters (r\<lparr>r_g := g\<rparr>))"
  by (simp add: rule_glob_ok_def)

text \<open>A fresh rule: no glob, no flags, no references.\<close>

definition bare :: "vdpc_rule \<Rightarrow> bool" where
  "bare r \<longleftrightarrow> r_mask r = 0 \<and> r_value r = 0 \<and> r_subj r = 0 \<and> r_cred r = 0 \<and> r_csubj r = 0 \<and>
     r_subagent r = [] \<and> \<not> r_confined r"

lemma bare_simps:
  "bare r \<Longrightarrow> rule_flags_ok r" "bare r \<Longrightarrow> rule_refs_ok pol r"
  by (simp_all add: bare_def rule_flags_ok_def rule_refs_ok_def)

lemma rule_glob_bare:
  assumes "rule_glob al gtot r = (Inr (r', gtot'), al')" and "bare r"
  shows "rule_glob_ok r' \<and> bare r' \<and> r_c r' = r_c r \<and> r_kind r' = r_kind r \<and> r_match r' = r_match r \<and>
    r_allow r' = r_allow r \<and> r_rhost r' = r_rhost r \<and> r_rport r' = r_rport r \<and> r_rwild r' = r_rwild r"
  using rule_glob_Inr [OF assms(1)] assms(2) rule_glob_ok_parsed [of _ r] by (auto simp: bare_def)

lemma host_labels_bytes:
  "host_labels prev lab ld h = Inr x \<Longrightarrow> list_all host_byte h"
  by (induction prev lab ld h rule: host_labels.induct) (auto simp: host_byte_def split: if_splits)

lemma host_name_form_bytes:
  "host_name_form h = Inr True \<Longrightarrow> CHR '':'' \<notin> set h \<Longrightarrow> list_all host_byte h"
proof -
  assume h: "host_name_form h = Inr True" "CHR '':'' \<notin> set h"
  have t: "takeWhile (\<lambda>b. b \<noteq> CHR '':'') h = h" unfolding takeWhile_eq_all_conv using h(2) by auto
  show ?thesis using h(1) unfolding host_name_form_def Let_def t
    by (auto split: if_splits sum.splits dest: host_labels_bytes)
qed

lemma dest_formI:
  "list_all host_byte host \<Longrightarrow> m = [] \<or> (\<exists>k. method_ok k \<and> m = k @ '' '') \<Longrightarrow>
    c = m @ (if https then ''https'' else ''http'') @ ''://'' @ (if wild then ''?*.'' else []) @ host @ '':'' @
      decimal port @ ''/'' @ t \<Longrightarrow> dest_form https c wild host port"
  unfolding dest_form_def by blast

lemma in_takeWhile: "x \<in> set (takeWhile P s) \<Longrightarrow> P x"
  by (auto dest: set_takeWhileD)

lemma no_colon_drop: "CHR '':'' \<notin> set (drop n (takeWhile (\<lambda>c. c \<noteq> CHR '':'') s))"
  by (auto dest: in_set_dropD in_takeWhile)

lemma drop_takeWhile_slash:
  "drop (length (takeWhile (\<lambda>c. c \<noteq> slash) a)) a = [] \<or>
    (\<exists>t. drop (length (takeWhile (\<lambda>c. c \<noteq> slash) a)) a = slash # t)"
proof -
  have "drop (length (takeWhile (\<lambda>c. c \<noteq> slash) a)) a = dropWhile (\<lambda>c. c \<noteq> slash) a"
    by (simp add: dropWhile_eq_drop)
  moreover have "dropWhile (\<lambda>c. c \<noteq> slash) a = [] \<or> hd (dropWhile (\<lambda>c. c \<noteq> slash) a) = slash"
    using hd_dropWhile by blast
  ultimately show ?thesis by (cases "dropWhile (\<lambda>c. c \<noteq> slash) a") auto
qed

definition req_head :: "string \<Rightarrow> string \<Rightarrow> bool \<Rightarrow> string \<Rightarrow> nat \<Rightarrow> string" where
  "req_head m u wild h port =
     m @ '' '' @ (if starts ''https://'' u then ''https'' else ''http'') @ ''://'' @ (if wild then ''?*.'' else []) @ h @
     '':'' @ decimal port"

lemma req_parse_Inr:
  assumes "req_parse al m u = (Inr q, al')"
  shows "\<exists>wild h port t. method_ok m \<and> host_name_form h = Inr True \<and> CHR '':'' \<notin> set h \<and> length h \<le> 253 \<and>
    q = \<lparr>rq_glob = req_head m u wild h port @ concat (map (\<lambda>c. if c = CHR ''?'' then [backslash, c] else [c]) (slash # t)),
         rq_host = h, rq_wild = wild, rq_port = port\<rparr> \<and>
    length (req_head m u wild h port) + length (slash # t) + length (filter (\<lambda>c. c = CHR ''?'') (slash # t)) \<le> VDPC_MAX_S"
proof -
  define sch where "sch = (if starts ''https://'' u then ''https'' else ''http'')"
  define a where "a = drop (length sch + 3) u"
  define p where "p = drop (length (takeWhile (\<lambda>c. c \<noteq> slash) a)) a"
  have head: "req_head m u wild h port =
    m @ '' '' @ sch @ ''://'' @ (if wild then ''?*.'' else []) @ h @ '':'' @ decimal port" for wild h port
    by (simp only: req_head_def sch_def)
  obtain hl port pt where m: "\<not> \<not> method_ok m" and p: "p \<noteq> []"
    and hl: "req_authority (takeWhile (\<lambda>c. c \<noteq> slash) a) pt = Inr (hl, port)"
    and n: "host_name_form (if starts ''*.'' hl then drop 2 hl else hl) = Inr True"
    and k: "\<not> (length (if starts ''*.'' hl then drop 2 hl else hl) < 1 \<or> 253 < length (if starts ''*.'' hl then drop 2 hl else hl))"
    and q: "\<lparr>rq_glob = req_head m u (starts ''*.'' hl) (if starts ''*.'' hl then drop 2 hl else hl) port @
        concat (map (\<lambda>c. if c = CHR ''?'' then [backslash, c] else [c]) p),
      rq_host = (if starts ''*.'' hl then drop 2 hl else hl), rq_wild = starts ''*.'' hl, rq_port = port\<rparr> = q"
    and l: "\<not> VDPC_MAX_S < length (req_head m u (starts ''*.'' hl) (if starts ''*.'' hl then drop 2 hl else hl) port) + length p + length (filter (\<lambda>c. c = CHR ''?'') p)"
    using assms
    unfolding req_parse_def Let_def sch_def [symmetric] a_def [symmetric] p_def [symmetric] stage_ok head [symmetric]
    by - (elim conjE exE, rule that, assumption+)
  define h where "h = (if starts ''*.'' hl then drop 2 hl else hl)"
  obtain t where t: "p = slash # t" using p drop_takeWhile_slash [of a] unfolding p_def by blast
  have "hl = takeWhile (\<lambda>c. c \<noteq> CHR '':'') (takeWhile (\<lambda>c. c \<noteq> slash) a)"
    using hl by (auto simp: req_authority_def Let_def split: if_splits option.splits)
  then have "CHR '':'' \<notin> set h"
    using no_colon_drop [of 0 "takeWhile (\<lambda>c. c \<noteq> slash) a"] no_colon_drop [of 2 "takeWhile (\<lambda>c. c \<noteq> slash) a"]
    by (auto simp: h_def)
  moreover have "length h \<le> 253" "length (req_head m u (starts ''*.'' hl) h port) + length (slash # t) +
      length (filter (\<lambda>c. c = CHR ''?'') (slash # t)) \<le> VDPC_MAX_S"
    using k l unfolding t h_def [symmetric] by linarith+
  ultimately show ?thesis using m n q [symmetric] unfolding t h_def [symmetric] by blast
qed

lemma req_parse_dest:
  assumes "req_parse al m u = (Inr q, al')"
  shows "dest_form (starts ''https://'' u) (rq_glob q) (rq_wild q) (rq_host q) (rq_port q)"
proof -
  obtain wild h port t where m: "method_ok m" and h: "host_name_form h = Inr True" "CHR '':'' \<notin> set h"
    and q: "q = \<lparr>rq_glob = req_head m u wild h port @
        concat (map (\<lambda>c. if c = CHR ''?'' then [backslash, c] else [c]) (slash # t)),
      rq_host = h, rq_wild = wild, rq_port = port\<rparr>"
    using req_parse_Inr [OF assms] by blast
  show ?thesis using m host_name_form_bytes [OF h] unfolding q req_head_def
    by (intro dest_formI [where m = "m @ '' ''" and t = "concat (map (\<lambda>c. if c = CHR ''?'' then [backslash, c] else [c]) t)"])
       auto
qed

lemma mcp_canon_dest:
  assumes "mcp_canon u ho n = Some (cu, host, port)"
  shows "dest_form (starts ''https://'' cu) (cu @ x) False host port"
proof -
  define sch where "sch = (if starts ''https://'' u then ''https'' else ''http'')"
  define a where "a = drop (length sch + 3) u"
  define path where "path = (if length (takeWhile (\<lambda>c. c \<noteq> slash) a) < length a
    then drop (length (takeWhile (\<lambda>c. c \<noteq> slash) a)) a else ''/'')"
  have c: "host = takeWhile (\<lambda>c. c \<noteq> CHR '':'') (takeWhile (\<lambda>c. c \<noteq> slash) a)"
    "host_name_form host = Inr True" "cu = sch @ ''://'' @ host @ '':'' @ decimal port @ path"
    using assms
    unfolding mcp_canon_def Let_def sch_def [symmetric] a_def [symmetric] path_def [symmetric]
    by (auto split: if_splits option.splits)
  have "list_all host_byte host" using host_name_form_bytes [OF c(2)] c(1) no_colon_drop [of 0] by simp
  moreover have "\<exists>t. path = slash # t"
    using drop_takeWhile_slash [of a] by (auto simp: path_def)
  then obtain t where "path = slash # t" by blast
  moreover have "starts ''https://'' cu \<longleftrightarrow> sch = ''https''" unfolding c(3) by (auto simp: starts_def sch_def)
  ultimately show ?thesis unfolding c(3)
    by (intro dest_formI [where m = "[]" and t = "t @ x"]) (auto simp: sch_def)
qed

lemma web_rule_inv:
  assumes "rule_glob al gtot r0 = (Inr (r1, gtot'), al')" and "bare r0" and "r_match r0 = M_GLOB"
    and "web_frame pol r1 r2" and "r_kind r0 \<in> {VDPC_REQUEST, VDPC_MCP}"
    and "dest_form https (r_c r0) (r_rwild r0) (r_rhost r0) (r_rport r0)" and "r_cred r2 \<noteq> 0 \<longrightarrow> https"
  shows "rule_inv pol r2" and "r_csubj r2 = 0" and "r_subagent r2 = []" and "\<not> r_confined r2"
proof -
  note g = rule_glob_bare [OF assms(1,2)]
  note f = web_frame_inv [OF assms(4)]
  have "rule_refs_ok pol r2" "r_cred r2 \<noteq> 0 \<longrightarrow> r_allow r1"
    using assms(4) g bare_simps(2) by (auto simp: web_frame_def bare_def)
  moreover have "dest_form https (r_c r2) (r_rwild r2) (r_rhost r2) (r_rport r2)" using g f assms(6) by simp
  ultimately show "rule_inv pol r2" using g f assms(3,5,7) bare_simps(1) [of r1]
    unfolding rule_inv_def rule_web_ok_def web_kind_def by auto
  show "r_csubj r2 = 0" "r_subagent r2 = []" "\<not> r_confined r2" using g f by (simp_all add: bare_def)
qed

lemma parse_request_rule_inv:
  assumes "parse_request_rule al v gtot r pol tok = (Inr (r', gtot'), al')" and "bare r"
    and "r_kind r = VDPC_REQUEST"
  shows "rule_inv pol r' \<and> r_csubj r' = 0 \<and> r_subagent r' = [] \<and> \<not> r_confined r'"
proof -
  obtain q al1 r1 al2 hdr where q: "req_parse al (tok ! 2) (tok ! 3) = (Inr q, al1)"
    and g: "rule_glob al1 gtot (r\<lparr>r_c := rq_glob q, r_match := M_GLOB, r_rhost := rq_host q, r_rwild := rq_wild q,
        r_rport := rq_port q, r_qmode := (if CHR ''?'' \<notin> set (tok ! 3) then if r_allow r then 1 else 2 else 0)\<rparr>)
        = (Inr (r1, gtot'), al2)" (is "rule_glob _ _ ?r0 = _")
    and o: "fold_opts (request_opt pol v) (drop 4 tok) (r1, False) = Inr (r', hdr)"
    and h: "r_cred r' \<noteq> 0 \<longrightarrow> starts ''https://'' (tok ! 3)"
    using assms(1) unfolding parse_request_rule_def Let_def stage_ok
    by - (elim conjE exE, hypsubst, rule that, assumption+, simp)
  have "web_frame pol r1 r'" using fold_opts_frame [OF request_opt_frame o] .
  moreover have "bare ?r0" using assms(2) by (simp add: bare_def)
  ultimately show ?thesis
    using web_rule_inv [OF g, of pol r' "starts ''https://'' (tok ! 3)"] req_parse_dest [OF q] h assms(3) by simp
qed

lemma mcp_final_frame:
  assumes "mcp_final pol cu r hdr = Inr r'"
  shows "web_frame pol r r' \<or> (\<exists>h sch. r' = r\<lparr>r_hdr := h, r_scheme := sch\<rparr>)"
    and "r_cred r' \<noteq> 0 \<longrightarrow> starts ''https://'' cu"
  using assms by (auto simp: mcp_final_def Let_def split: if_splits)

lemma parse_mcp_rule_inv:
  assumes "parse_mcp_rule al v gtot r pol tok = (Inr (r', gtot'), al')" and "bare r" and "r_kind r = VDPC_MCP"
    and "\<not> r_rwild r"
  shows "rule_inv pol r' \<and> r_csubj r' = 0 \<and> r_subagent r' = [] \<and> \<not> r_confined r'"
proof -
  define nm where "nm = (if length tok > 4 \<and> \<not> mcp_option (tok ! 4) then tok ! 4 else ''**'')"
  define opts where "opts = drop (if length tok > 4 \<and> \<not> mcp_option (tok ! 4) then 5 else 4) tok"
  obtain cu host port where m: "mcp_canon (tok ! 2) False 4200 = Some (cu, host, port)"
    using assms(1) by (auto simp: parse_mcp_rule_def split: if_splits option.splits)
  define obj where "obj = cu @ ''#'' @ tok ! 3 @ ''#'' @ nm"
  obtain al1 r1 al2 r2 hdr where
    g: "rule_glob al1 gtot (r\<lparr>r_rhost := host, r_rport := port, r_c := obj, r_match := M_GLOB\<rparr>) =
      (Inr (r1, gtot'), al2)" (is "rule_glob _ _ ?r0 = _")
    and o: "fold_opts (mcp_opt pol) opts (r1, False) = Inr (r2, hdr)"
    and f: "mcp_final pol cu r2 hdr = Inr r'"
    using assms(1)
    unfolding parse_mcp_rule_def m option.case prod.case Let_def nm_def [symmetric] opts_def [symmetric]
      obj_def [symmetric] stage_ok
    by - (elim conjE exE, hypsubst, rule that, assumption+)
  have "web_frame pol r1 r2" using fold_opts_frame [OF mcp_opt_frame o] .
  moreover have "web_frame pol r2 r'" using mcp_final_frame(1) [OF f] web_frame_header by blast
  ultimately have "web_frame pol r1 r'" by (rule web_frame_trans)
  moreover have "bare ?r0" using assms(2) by (simp add: bare_def)
  moreover have "dest_form (starts ''https://'' cu) obj False host port"
    unfolding obj_def by (rule mcp_canon_dest [OF m])
  ultimately show ?thesis
    using web_rule_inv [OF g, of pol r' "starts ''https://'' cu"] mcp_final_frame(2) [OF f] assms(3,4) by simp
qed

text \<open>The other rules.\<close>

lemma fold_opts_inv:
  assumes "\<And>t st st'. P st \<Longrightarrow> f t st = Inr st' \<Longrightarrow> P st'"
  shows "P st \<Longrightarrow> fold_opts f ts st = Inr st' \<Longrightarrow> P st'"
proof (induction ts arbitrary: st)
  case Nil
  then show ?case by simp
next
  case (Cons t ts)
  then obtain st1 where "f t st = Inr st1" "fold_opts f ts st1 = Inr st'" by (auto split: sum.splits)
  with assms Cons show ?case by blast
qed

definition plain_ok :: "vdpc_policy \<Rightarrow> vdpc_rule \<Rightarrow> bool" where
  "plain_ok pol r \<longleftrightarrow>
     rule_glob_ok r \<and> rule_flags_ok r \<and> rule_refs_ok pol r \<and> r_cred r = 0 \<and> r_csubj r = 0 \<and>
     (r_subagent r \<noteq> [] \<longrightarrow> r_kind r = VDPC_EXEC \<and> r_allow r) \<and> r_kind r \<in> {VDPC_PATH, VDPC_HOST, VDPC_EXEC}"

lemma rule_glob_ok_cong:
  assumes "r_match r' = r_match r" and "r_g r' = r_g r" and "r_c r' = r_c r" and "r_minlen r' = r_minlen r"
    and "r_fixed r' = r_fixed r" and "r_npre r' = r_npre r" and "r_nsuf r' = r_nsuf r"
  shows "rule_glob_ok r' = rule_glob_ok r"
  using assms by (simp add: rule_glob_ok_def filters_eq)

lemma plain_subject:
  assumes "for_subject pol n r = Inr r'" and "plain_ok pol r"
  shows "plain_ok pol r'"
proof -
  have "rule_refs_ok pol r'" using for_subject_frame [OF assms(1)] assms(2) by (simp add: web_frame_def plain_ok_def)
  then show ?thesis
    using assms rule_glob_ok_cong [of r' r]
    by (auto simp: for_subject_def plain_ok_def rule_flags_ok_def split: if_splits)
qed

lemma flag_clause_known: "flag_clause t = Some (m, val) \<Longrightarrow> m AND known_bits = m"
  using flag_named_known [of "tl t"]
  by (auto simp: flag_clause_def known_bits_eq ACCMODE_def split: if_splits)

lemma plain_flags:
  assumes "flag_clause t = Some (m, val)" and "plain_ok pol r" and "r_kind r = VDPC_PATH"
  shows "plain_ok pol (r\<lparr>r_mask := r_mask r OR m, r_value := r_value r OR (val AND m)\<rparr>)"
proof -
  have k: "r_mask r AND known_bits = r_mask r" "r_value r AND r_mask r = r_value r" "m AND known_bits = m"
    using assms flag_clause_known by (auto simp: plain_ok_def rule_flags_ok_def)
  have "(r_mask r OR m) AND known_bits = r_mask r OR m"
    by (simp add: k bit.conj_disj_distrib2)
  moreover have "(r_value r OR (val AND m)) AND (r_mask r OR m) = r_value r OR (val AND m)"
    using k(2) unfolding u32_eq_bits by (auto simp: bit_and_iff bit_or_iff)
  ultimately show ?thesis
    using assms rule_glob_ok_cong [of "r\<lparr>r_mask := r_mask r OR m, r_value := r_value r OR (val AND m)\<rparr>" r]
    by (simp add: plain_ok_def rule_flags_ok_def rule_refs_ok_def)
qed

lemma plain_updates:
  "plain_ok pol r \<Longrightarrow> plain_ok pol (r\<lparr>r_names := x\<rparr>)"
  "plain_ok pol r \<Longrightarrow> plain_ok pol (r\<lparr>r_rate := x\<rparr>)"
  "plain_ok pol r \<Longrightarrow> plain_ok pol (r\<lparr>r_confined := b\<rparr>)"
  "plain_ok pol r \<Longrightarrow> r_kind r = VDPC_EXEC \<Longrightarrow> r_allow r \<Longrightarrow> plain_ok pol (r\<lparr>r_subagent := n\<rparr>)"
  using rule_glob_ok_cong [of "r\<lparr>r_names := x\<rparr>" r] rule_glob_ok_cong [of "r\<lparr>r_rate := x\<rparr>" r]
    rule_glob_ok_cong [of "r\<lparr>r_confined := b\<rparr>" r] rule_glob_ok_cong [of "r\<lparr>r_subagent := n\<rparr>" r]
  by (simp_all add: plain_ok_def rule_flags_ok_def rule_refs_ok_def)

lemma rule_opt_plain:
  assumes "rule_opt pol v t (r, ack) = Inr (r', ack')" and "plain_ok pol r"
  shows "plain_ok pol r'"
  using assms unfolding rule_opt_def Let_def prod.case
  by (auto simp: map_sum_ok split: if_splits option.splits sum.splits
      intro: plain_subject plain_flags plain_updates)

lemma rule_host_bare:
  assumes "rule_host al v legacy r = (Inr (r', legacy'), al')" and "bare r"
  shows "bare r' \<and> r_kind r' = r_kind r"
  using assms by (auto simp: rule_host_def bare_def Let_def split: if_splits sum.splits prod.splits)

lemma rule_matcher_bare:
  assumes "rule_matcher v r tok = Inr (r', ci)" and "bare r"
  shows "bare r' \<and> r_kind r' = r_kind r"
  using assms by (auto simp: rule_matcher_def bare_def split: if_splits option.splits)

lemma bare_plain:
  "bare r \<Longrightarrow> rule_glob_ok r \<Longrightarrow> r_kind r \<in> {VDPC_PATH, VDPC_HOST, VDPC_EXEC} \<Longrightarrow> plain_ok pol r"
  using bare_simps [of r] by (simp add: plain_ok_def bare_def)

lemma parse_plain_rule_inv:
  assumes "parse_plain_rule al v legacy gtot r pol tok = (Inr (r', legacy', gtot'), al')" and "bare r"
    and "r_kind r \<in> {VDPC_PATH, VDPC_HOST, VDPC_EXEC}"
  shows "plain_ok pol r' \<and> (r_confined r' \<longrightarrow> r_subagent r' \<noteq> [])"
proof -
  obtain r1 ci where 1: "rule_matcher v r tok = Inr (r1, ci)"
    using assms(1) by (auto simp: parse_plain_rule_def split: sum.splits)
  define r1' where "r1' = r1\<lparr>r_c := tok ! ci\<rparr>"
  obtain al1 r2 legacy2 al2 r3 gtot3 al3 r4 ack where
    2: "(if r_kind r1' = VDPC_HOST then rule_host al1 v legacy r1' else (Inr (r1', legacy), al1)) =
      (Inr (r2, legacy2), al2)"
    and 3: "(if r_match r2 = M_GLOB then rule_glob al2 gtot r2 else (Inr (r2, gtot), al2)) = (Inr (r3, gtot3), al3)"
    and 4: "fold_opts (rule_opt pol v) (drop (ci + 1) tok) (r3, False) = Inr (r4, ack)"
    and 5: "rule_final r4 ack = Inr r'"
    using assms(1) unfolding parse_plain_rule_def 1 Let_def r1'_def [symmetric] sum.case prod.case stage_ok
    by - (elim conjE exE, hypsubst, rule that, assumption+)
  have b: "bare r1'" "r_kind r1' = r_kind r" using rule_matcher_bare [OF 1 assms(2)] by (simp_all add: r1'_def bare_def)
  then have b2: "bare r2" "r_kind r2 = r_kind r" using 2 rule_host_bare by (auto split: if_splits)
  then have "rule_glob_ok r3 \<and> bare r3 \<and> r_kind r3 = r_kind r"
    using 3 rule_glob_bare [of al2 gtot r2 r3 gtot3 al3]
    by (cases "r_match r2 = M_GLOB") (simp_all, simp add: rule_glob_ok_def)
  then have "plain_ok pol r3" using bare_plain assms(3) by auto
  then have "plain_ok pol r4"
    using fold_opts_inv [of "\<lambda>st. plain_ok pol (fst st)" "rule_opt pol v" "(r3, False)", OF _ _ 4] rule_opt_plain
    by fastforce
  then show ?thesis using 5 by (auto simp: rule_final_def split: if_splits)
qed

lemma plain_ok_inv: "plain_ok pol r \<Longrightarrow> rule_inv pol r"
  by (auto simp: plain_ok_def rule_inv_def rule_web_ok_def web_kind_def kind_defs)

section \<open>One rule of the parser\<close>

text \<open>A parsed rule satisfies the invariant, and only an allowed exec rule can name a sub-agent.\<close>

definition fresh_rule_ok :: "vdpc_policy \<Rightarrow> vdpc_rule \<Rightarrow> bool" where
  "fresh_rule_ok pol r \<longleftrightarrow>
     rule_inv pol r \<and> r_csubj r = 0 \<and> (r_confined r \<longrightarrow> r_subagent r \<noteq> []) \<and>
     (r_subagent r \<noteq> [] \<longrightarrow> r_kind r = VDPC_EXEC \<and> r_allow r)"

lemma empty_rule_bare:
  "bare (empty_rule ln)" "r_cred (empty_rule ln) = 0"
  by (simp_all add: bare_def empty_rule_def)

lemma bare_update:
  "bare r \<Longrightarrow> bare (r\<lparr>r_allow := a\<rparr>)" "bare r \<Longrightarrow> bare (r\<lparr>r_kind := k\<rparr>)" "bare r \<Longrightarrow> bare (r\<lparr>r_match := m\<rparr>)"
  by (simp_all add: bare_def)

lemmas bare_intros = bare_update empty_rule_bare

lemma parse_rule_ok:
  assumes "parse_rule al ln v legacy gtot pol tok = (Inr (r, legacy', gtot'), al')"
  shows "fresh_rule_ok pol r"
proof -
  define r0 where "r0 = (empty_rule ln)\<lparr>r_allow := (tok ! 0 = ''allow'')\<rparr>"
  have b: "bare r0" unfolding r0_def by (intro bare_intros)
  have w: "\<not> r_rwild r0" by (simp add: r0_def empty_rule_def)
  have plain: "fresh_rule_ok pol r"
    if "parse_plain_rule al v legacy gtot (r0\<lparr>r_kind := k, r_match := m\<rparr>) pol tok = (Inr (r, legacy', gtot'), al')"
      and "k \<in> {VDPC_PATH, VDPC_HOST, VDPC_EXEC}" for k m
  proof -
    have "plain_ok pol r \<and> (r_confined r \<longrightarrow> r_subagent r \<noteq> [])"
      using parse_plain_rule_inv [OF that(1)] that(2) b by (simp add: bare_intros)
    then show ?thesis using plain_ok_inv by (simp add: fresh_rule_ok_def plain_ok_def)
  qed
  have request: "fresh_rule_ok pol r"
    if "parse_request_rule al v gtot (r0\<lparr>r_kind := VDPC_REQUEST\<rparr>) pol tok = (Inr (r, g), a)" for g a
    using parse_request_rule_inv [OF that] b by (simp add: fresh_rule_ok_def bare_intros)
  have mcp: "fresh_rule_ok pol r"
    if "parse_mcp_rule al v gtot (r0\<lparr>r_kind := VDPC_MCP\<rparr>) pol tok = (Inr (r, g), a)" for g a
    using parse_mcp_rule_inv [OF that] b w by (simp add: fresh_rule_ok_def bare_intros)
  show ?thesis
    using assms unfolding parse_rule_def Let_def r0_def [symmetric]
    by (auto split: if_splits sum.splits prod.splits intro: plain request mcp)
qed

lemma parse_mcp_server_ok:
  assumes "parse_mcp_server al v ln tok = (Inr r, al')"
  shows "fresh_rule_ok pol r \<and> r_subagent r \<noteq> []"
  using assms
  by (auto simp: parse_mcp_server_def Let_def fresh_rule_ok_def rule_inv_def empty_rule_def rule_glob_ok_def
      rule_flags_ok_def rule_refs_ok_def rule_web_ok_def web_kind_def short_name_def kind_defs split: if_splits prod.splits)

end
