(* ===== verification/Vdp_Invariant.thy ===== *)
theory Vdp_Invariant
  imports Vdp_Load
begin

text \<open>
  The contract between the statements of a policy and the loader: what every statement keeps of a policy under
  construction holds of every policy the loader returns.
\<close>

locale loader_invariant =
  fixes I :: "vdpc_policy \<Rightarrow> bool"
  assumes fresh: "I (fresh_policy d)"
    and require: "require_statement st tok = Inr st' \<Longrightarrow> I (l_policy st) \<Longrightarrow> I (l_policy st')"
    and proxy: "proxy_statement v p tok = Inr p' \<Longrightarrow> I p \<Longrightarrow> I p'"
    and trust: "parse_trust v p ln tok = Inr p' \<Longrightarrow> I p \<Longrightarrow> I p'"
    and credential: "parse_credential v p ln tok = Inr p' \<Longrightarrow> I p \<Longrightarrow> I p'"
    and server: "server_statement al ln st tok = (Inr st', al') \<Longrightarrow> I (l_policy st) \<Longrightarrow> I (l_policy st')"
    and rule: "rule_statement al ln st tok = (Inr st', al') \<Longrightarrow> I (l_policy st) \<Longrightarrow> I (l_policy st')"
    and flags: "I p \<Longrightarrow> I (p\<lparr>p_launches := a, p_open_as_agent := b\<rparr>)"
begin

lemma statement:
  assumes "load_statement al ln st tok = (Inr st', al')" and "I (l_policy st)"
  shows "I (l_policy st')"
proof -
  have put: "map_sum id (\<lambda>p. st\<lparr>l_policy := p\<rparr>) x = Inr st' \<Longrightarrow> \<exists>p. x = Inr p \<and> l_policy st' = p" for x :: "string + vdpc_policy"
    by (cases x) auto
  show ?thesis
    using assms unfolding load_statement_def Let_def
    by (auto split: if_splits dest!: put intro: require proxy trust credential server rule)
qed

lemma line:
  assumes "load_vline al ln st l = (Inr st', al')" and "I (l_policy st)"
  shows "I (l_policy st')"
  using assms unfolding load_vline_def Let_def
  by (auto split: if_splits prod.splits option.splits list.splits intro: statement)

lemma lines:
  "load_vlines al ln st buf = (Inr st', ln', al') \<Longrightarrow> I (l_policy st) \<Longrightarrow> I (l_policy st')"
proof (induction al ln st buf rule: load_vlines.induct)
  case (1 al ln st buf)
  show ?case
  proof (cases "buf = []")
    case True
    then show ?thesis using 1(2,3) by (simp add: load_vlines.simps [of al ln st "[]"])
  next
    case False
    then obtain st1 al1 where l: "load_vline al (ln + 1) st (takeWhile (\<lambda>c. c \<noteq> newline) buf) = (Inr st1, al1)"
      and r: "load_vlines al1 (ln + 1) st1 (drop (length (takeWhile (\<lambda>c. c \<noteq> newline) buf) + 1) buf) = (Inr st', ln', al')"
      using 1(2) unfolding load_vlines.simps [of al ln st buf] by (auto simp: Let_def split: sum.splits prod.splits)
    show ?thesis by (rule 1(1) [OF False refl l [symmetric] refl r line [OF l 1(3)]])
  qed
qed

lemma loaded:
  assumes "vdpc_load al buf = (Inr p, al')"
  shows "I p"
proof -
  obtain al1 st ln al2 where l: "load_vlines al1 0
      \<lparr>l_policy = fresh_policy (vdpc_sha256 (map of_char buf)), l_req = (0, 0), l_legacy = 0, l_gtot = 0\<rparr> buf = (Inr st, ln, al2)"
    and f: "load_final ln st = Inr p"
    using assms by (auto simp: vdpc_load_def Let_def split: if_splits sum.splits prod.splits)
  have "I (l_policy st)" using lines [OF l] fresh by simp
  then show ?thesis using f flags by (auto simp: load_final_def Let_def split: if_splits option.splits)
qed

end

end
