(* ===== verification/Vdp_Loaded.thy ===== *)
theory Vdp_Loaded
  imports Vdp_Parsed_Rule Vdp_Invariant
begin

text \<open>
  What every loaded policy of the certificate checker satisfies: the invariant its checks rest on, the bounds
  and the distinct names of its tables, confined names that no other rule uses, request rules only where the
  proxy sees them, and credentials only over https.
\<close>

section \<open>The invariant of a policy\<close>

definition table :: "nat \<Rightarrow> 'a list \<Rightarrow> bool" where
  "table n xs \<longleftrightarrow> length xs \<le> n \<and> distinct xs"

definition policy_tables_ok :: "vdpc_policy \<Rightarrow> bool" where
  "policy_tables_ok p \<longleftrightarrow>
     table VDPC_MAX_CREDS (map cr_name (p_creds p)) \<and> table VDPC_MAX_ISSUERS (map is_iss (p_issuers p)) \<and>
     table VDPC_MAX_SPIFFE (map sp_domain (p_spiffe p)) \<and> table 8 (map mr_url (p_mcpres p)) \<and>
     table 64 (p_proxy_pass p) \<and> table 16 (p_proxy_ports p) \<and> (\<forall>x \<in> set (p_proxy_ports p). x \<le> 65535) \<and>
     (p_proxy_inspect p \<longrightarrow> p_proxy p)"

text \<open>The confined subjects and the exec rules that declare them.\<close>

definition declares :: "vdpc_policy \<Rightarrow> nat \<Rightarrow> bool" where
  "declares p k \<longleftrightarrow>
     (let s = p_subjects p ! k in
      sj_rule s < length (p_rules p) \<and> r_csubj (p_rules p ! sj_rule s) = int k + 1 \<and>
      r_subagent (p_rules p ! sj_rule s) = sj_name s)"

definition named_well :: "vdpc_policy \<Rightarrow> nat \<Rightarrow> bool" where
  "named_well p i \<longleftrightarrow>
     (let r = p_rules p ! i in
      (r_csubj r = 0 \<longrightarrow> r_subagent r = [] \<or> r_subagent r \<notin> set (map sj_name (p_subjects p))) \<and>
      (r_csubj r \<noteq> 0 \<longrightarrow>
         r_subagent r \<noteq> [] \<and> 1 \<le> r_csubj r \<and> r_csubj r \<le> int (length (p_subjects p)) \<and> sj_rule (p_subjects p ! nat (r_csubj r - 1)) = i) \<and>
      (r_confined r \<longrightarrow> r_csubj r \<noteq> 0) \<and>
      (r_subagent r \<noteq> [] \<longrightarrow> r_kind r = VDPC_EXEC \<and> r_allow r))"

definition subjects_ok :: "vdpc_policy \<Rightarrow> bool" where
  "subjects_ok p \<longleftrightarrow>
     table 32 (map sj_name (p_subjects p)) \<and> (\<forall>k < length (p_subjects p). declares p k) \<and>
     (\<forall>i < length (p_rules p). named_well p i)"

definition policy_inv :: "vdpc_policy \<Rightarrow> bool" where
  "policy_inv p \<longleftrightarrow>
     length (p_rules p) \<le> VDPC_MAX_RULES \<and> list_all (rule_inv p) (p_rules p) \<and> policy_tables_ok p \<and> subjects_ok p"

lemma policy_inv_ok: "policy_inv p \<Longrightarrow> policy_ok p"
  by (auto simp: policy_inv_def policy_ok_def list_all_iff intro: rule_inv_wf)

lemma table_add: "table n xs \<Longrightarrow> x \<notin> set xs \<Longrightarrow> length xs \<noteq> n \<Longrightarrow> table n (xs @ [x])"
  by (simp add: table_def)

lemma table_Nil [simp]: "table n []"
  by (simp add: table_def)

text \<open>Larger tables keep a rule's references.\<close>

lemma rule_inv_mono:
  "rule_inv p r \<Longrightarrow> length (p_subjects p) \<le> length (p_subjects p') \<Longrightarrow> length (p_creds p) \<le> length (p_creds p') \<Longrightarrow>
    rule_inv p' r"
  by (auto simp: rule_inv_def rule_refs_ok_def)

lemma rule_inv_csubj [simp]: "rule_inv p (r\<lparr>r_csubj := k\<rparr>) = rule_inv p r"
  using rule_glob_ok_cong [of "r\<lparr>r_csubj := k\<rparr>" r]
  by (simp add: rule_inv_def rule_flags_ok_def rule_refs_ok_def rule_web_ok_def web_kind_def)

lemma policy_inv_tables:
  assumes "policy_inv p" and "policy_tables_ok p'" and "p_rules p' = p_rules p" and "p_subjects p' = p_subjects p"
    and "length (p_creds p) \<le> length (p_creds p')"
  shows "policy_inv p'"
proof -
  have "list_all (rule_inv p') (p_rules p')"
    using assms by (auto simp: policy_inv_def list_all_iff intro: rule_inv_mono)
  moreover have "subjects_ok p'"
    using assms by (simp add: policy_inv_def subjects_ok_def declares_def named_well_def)
  ultimately show ?thesis using assms by (simp add: policy_inv_def)
qed

section \<open>Statements that fill a table\<close>

lemma trust_inv:
  assumes "parse_trust v p ln tok = Inr p'" and "policy_inv p"
  shows "policy_inv p'"
proof (rule policy_inv_tables [OF assms(2)])
  have t: "policy_tables_ok p" using assms(2) by (simp add: policy_inv_def)
  show "policy_tables_ok p'"
    using assms(1) t table_add [of 8 "map mr_url (p_mcpres p)" "tok ! 2"]
      table_add [of VDPC_MAX_ISSUERS "map is_iss (p_issuers p)" "tok ! 2"]
      table_add [of VDPC_MAX_SPIFFE "map sp_domain (p_spiffe p)" "tok ! 2"]
    by (auto simp: parse_trust_def trust_resource_def trust_issuer_def trust_spiffe_def policy_tables_ok_def split: if_splits)
qed (use assms(1) in \<open>auto simp: parse_trust_def trust_resource_def trust_issuer_def trust_spiffe_def split: if_splits\<close>)

lemma credential_inv:
  assumes "parse_credential v p ln tok = Inr p'" and "policy_inv p"
  shows "policy_inv p'"
proof (rule policy_inv_tables [OF assms(2)])
  have t: "policy_tables_ok p" using assms(2) by (simp add: policy_inv_def)
  show "policy_tables_ok p'"
    using assms(1) t table_add [of VDPC_MAX_CREDS "map cr_name (p_creds p)" "tok ! 1"]
    by (auto simp: parse_credential_def policy_tables_ok_def split: if_splits sum.splits option.splits)
qed (use assms(1) in \<open>auto simp: parse_credential_def split: if_splits sum.splits option.splits\<close>)

lemma proxy_ports_fold:
  "fold_opts proxy_port ts p = Inr p' \<Longrightarrow>
    p' = p\<lparr>p_proxy_ports := p_proxy_ports p @ map digits_value ts\<rparr> \<and>
    (distinct (p_proxy_ports p) \<longrightarrow> distinct (p_proxy_ports p')) \<and>
    (\<forall>x \<in> set (map digits_value ts). x \<le> 65535)"
proof (induction ts arbitrary: p)
  case Nil
  then show ?case by simp
next
  case (Cons t ts)
  then obtain p1 where p1: "proxy_port t p = Inr p1" "fold_opts proxy_port ts p1 = Inr p'"
    by (auto split: sum.splits)
  then have e: "p1 = p\<lparr>p_proxy_ports := p_proxy_ports p @ [digits_value t]\<rparr>"
    and x: "digits_value t \<le> 65535" "digits_value t \<notin> set (p_proxy_ports p)"
    by (auto simp: proxy_port_def split: if_splits)
  have "distinct (p_proxy_ports p) \<longrightarrow> distinct (p_proxy_ports p1)" using x e by simp
  then have "distinct (p_proxy_ports p) \<longrightarrow> distinct (p_proxy_ports p')" using Cons.IH [OF p1(2)] by blast
  moreover have "p' = p\<lparr>p_proxy_ports := p_proxy_ports p @ map digits_value (t # ts)\<rparr>"
    "\<forall>y \<in> set (map digits_value ts). y \<le> 65535" using Cons.IH [OF p1(2)] e by simp_all
  ultimately show ?case using x(1) by simp
qed

lemma proxy_inv:
  assumes "proxy_statement v p tok = Inr p'" and "policy_inv p"
  shows "policy_inv p'"
proof (rule policy_inv_tables [OF assms(2)])
  have t: "policy_tables_ok p" using assms(2) by (simp add: policy_inv_def)
  show "policy_tables_ok p'"
    using assms(1) t table_add [of 64 "p_proxy_pass p" "tok ! 3"] proxy_ports_fold [of "drop 2 tok" p p']
    by (auto simp: proxy_statement_def passthrough_host_def policy_tables_ok_def table_def split: if_splits option.splits)
qed (use assms(1) proxy_ports_fold [of "drop 2 tok" p p'] in
    \<open>auto simp: proxy_statement_def passthrough_host_def split: if_splits option.splits\<close>)

lemma require_inv:
  assumes "require_statement st tok = Inr st'" and "policy_inv (l_policy st)"
  shows "policy_inv (l_policy st')"
proof (rule policy_inv_tables [OF assms(2)])
  have t: "policy_tables_ok (l_policy st)" using assms(2) by (simp add: policy_inv_def)
  show "policy_tables_ok (l_policy st')"
    using assms(1) t by (auto simp: require_statement_def policy_tables_ok_def Let_def split: if_splits option.splits)
qed (use assms(1) in \<open>auto simp: require_statement_def Let_def split: if_splits option.splits\<close>)

section \<open>Statements that add a rule\<close>

lemma named_well_add:
  assumes "\<forall>i < length (p_rules p). named_well p i" and "i < length (p_rules p)"
  shows "named_well (p\<lparr>p_rules := p_rules p @ [r]\<rparr>) i"
  using assms by (simp add: named_well_def nth_append)

lemma add_rule_inv:
  assumes "policy_inv p" and "fresh_rule_ok p r" and "length (p_rules p) \<noteq> VDPC_MAX_RULES"
    and "\<not> r_confined r" and "r_subagent r \<noteq> [] \<Longrightarrow> r_subagent r \<notin> set (map sj_name (p_subjects p))"
  shows "policy_inv (p\<lparr>p_rules := p_rules p @ [r]\<rparr>)" (is "policy_inv ?p'")
proof -
  have i: "subjects_ok p" "length (p_rules p) < VDPC_MAX_RULES" "list_all (rule_inv p) (p_rules p)"
    using assms(1,3) by (simp_all add: policy_inv_def)
  have "list_all (rule_inv ?p') (p_rules ?p')"
    using i(3) assms(2) by (auto simp: list_all_iff fresh_rule_ok_def intro: rule_inv_mono)
  moreover have "named_well ?p' (length (p_rules p))"
    using assms(2,4,5) by (auto simp: named_well_def fresh_rule_ok_def)
  then have "\<forall>j < length (p_rules ?p'). named_well ?p' j"
    using i(1) named_well_add by (auto simp: subjects_ok_def less_Suc_eq)
  moreover have "\<forall>k < length (p_subjects p). declares ?p' k"
    using i(1) by (auto simp: subjects_ok_def declares_def Let_def nth_append)
  ultimately show ?thesis
    using assms(1) i by (simp add: policy_inv_def subjects_ok_def policy_tables_ok_def)
qed

text \<open>A confined subject: its rule comes last, and its name is new.\<close>

definition with_subject :: "vdpc_policy \<Rightarrow> vdpc_rule \<Rightarrow> bool \<Rightarrow> nat \<Rightarrow> vdpc_policy" where
  "with_subject p r mcp ln =
     p\<lparr>p_subjects := p_subjects p @ [\<lparr>sj_name = r_subagent r, sj_rule = length (p_rules p), sj_mcp = mcp, sj_line = ln\<rparr>],
       p_rules := p_rules p @ [r\<lparr>r_csubj := int (length (p_subjects p)) + 1\<rparr>]\<rparr>"

lemma subj_register_Inr:
  assumes "subj_register (p\<lparr>p_rules := p_rules p @ [r]\<rparr>) (length (p_rules p)) mcp ln = Inr p'"
  shows "p' = with_subject p r mcp ln" and "r_subagent r \<notin> set (map sj_name (p_subjects p))"
    and "length (p_subjects p) \<noteq> 32"
    and "\<forall>e \<in> set (p_rules p). r_subagent e \<noteq> [] \<and> r_csubj e = 0 \<longrightarrow> r_subagent e \<noteq> r_subagent r"
  using assms
  by (auto simp: subj_register_def subj_named_def name_index_0 with_subject_def Let_def list_ex_iff split: if_splits)

lemma subject_rule_inv:
  assumes "policy_inv p" and "fresh_rule_ok p r" and "r_subagent r \<noteq> []" and "length (p_rules p) \<noteq> VDPC_MAX_RULES"
    and "r_subagent r \<notin> set (map sj_name (p_subjects p))" and "length (p_subjects p) \<noteq> 32"
    and "\<forall>e \<in> set (p_rules p). r_subagent e \<noteq> [] \<and> r_csubj e = 0 \<longrightarrow> r_subagent e \<noteq> r_subagent r"
  shows "policy_inv (with_subject p r mcp ln)" (is "policy_inv ?p'")
proof -
  have i: "subjects_ok p" "length (p_rules p) < VDPC_MAX_RULES" "list_all (rule_inv p) (p_rules p)"
    using assms(1,4) by (simp_all add: policy_inv_def)
  have "rule_inv p r" using assms(2) by (simp add: fresh_rule_ok_def)
  then have "list_all (rule_inv ?p') (p_rules ?p')"
    using i(3) by (auto simp: list_all_iff with_subject_def intro: rule_inv_mono)
  moreover have "table 32 (map sj_name (p_subjects ?p'))"
    using i(1) assms(5,6) table_add by (fastforce simp: subjects_ok_def with_subject_def)
  moreover have "declares ?p' k" if "k < length (p_subjects ?p')" for k
    using i(1) that by (auto simp: subjects_ok_def declares_def Let_def with_subject_def nth_append less_Suc_eq)
  moreover have "named_well ?p' j" if "j < length (p_rules ?p')" for j
  proof (cases "j < length (p_rules p)")
    case True
    then have n: "named_well p j" "p_rules p ! j \<in> set (p_rules p)" using i(1) by (simp_all add: subjects_ok_def)
    then show ?thesis using True assms(7)
      by (auto simp: named_well_def Let_def with_subject_def nth_append nat_less_iff)
  next
    case False
    then have "j = length (p_rules p)" using that by (simp add: with_subject_def)
    then show ?thesis using assms(2,3) by (simp add: named_well_def with_subject_def fresh_rule_ok_def)
  qed
  ultimately show ?thesis
    using assms(1) i by (simp add: policy_inv_def subjects_ok_def policy_tables_ok_def with_subject_def)
qed

lemma server_inv:
  assumes "server_statement al ln st tok = (Inr st', al')" and "policy_inv (l_policy st)"
  shows "policy_inv (l_policy st')"
proof -
  obtain r al1 p' where r: "parse_mcp_server al (l_req st) ln tok = (Inr r, al1)"
    and n: "length (p_rules (l_policy st)) \<noteq> VDPC_MAX_RULES"
    and s: "subj_register ((l_policy st)\<lparr>p_rules := p_rules (l_policy st) @ [r]\<rparr>) (length (p_rules (l_policy st))) True ln
      = Inr p'" and st': "l_policy st' = p'"
    using assms(1) by (auto simp: server_statement_def Let_def map_sum_ok split: if_splits sum.splits prod.splits)
  note p = subj_register_Inr [OF s]
  show ?thesis
    using subject_rule_inv [OF assms(2), of r True ln] parse_mcp_server_ok [OF r] n p st' by simp
qed

lemma rule_statement_inv:
  assumes "rule_statement al ln st tok = (Inr st', al')" and "policy_inv (l_policy st)"
  shows "policy_inv (l_policy st')"
proof -
  let ?p = "l_policy st"
  obtain r legacy gtot al1 where r: "parse_rule al ln (l_req st) (l_legacy st) (l_gtot st) ?p tok = (Inr (r, legacy, gtot), al1)"
    and n: "length (p_rules ?p) \<noteq> VDPC_MAX_RULES"
    using assms(1) by (auto simp: rule_statement_def Let_def split: if_splits sum.splits prod.splits)
  note ok = parse_rule_ok [OF r]
  show ?thesis
  proof (cases "r_confined r")
    case True
    then obtain p' where s: "subj_register (?p\<lparr>p_rules := p_rules ?p @ [r]\<rparr>) (length (p_rules ?p)) False ln = Inr p'"
      "l_policy st' = p'"
      using assms(1) r n by (auto simp: rule_statement_def Let_def map_sum_ok split: if_splits)
    note p = subj_register_Inr [OF s(1)]
    have "r_subagent r \<noteq> []" using ok True by (simp add: fresh_rule_ok_def)
    then show ?thesis using subject_rule_inv [OF assms(2) ok, of False ln] n p s(2) by simp
  next
    case False
    then have "l_policy st' = ?p\<lparr>p_rules := p_rules ?p @ [r]\<rparr>"
      and u: "r_subagent r \<noteq> [] \<Longrightarrow> r_subagent r \<notin> set (map sj_name (p_subjects ?p))"
      using assms(1) r n by (auto simp: rule_statement_def Let_def subj_named_def name_index_0 split: if_splits)
    then show ?thesis using add_rule_inv [OF assms(2) ok n False u] by simp
  qed
qed

section \<open>The whole policy\<close>

lemma fresh_policy_inv: "policy_inv (fresh_policy d)"
  by (simp add: policy_inv_def fresh_policy_def policy_tables_ok_def subjects_ok_def)

text \<open>What the last checks add.\<close>

definition placed_ok :: "vdpc_policy \<Rightarrow> bool" where
  "placed_ok p \<longleftrightarrow>
     \<not> list_ex (request_misplaced p) (p_rules p) \<and> (p_proxy_ports p \<noteq> [] \<longrightarrow> p_proxy p) \<and>
     (p_proxy_up_port p \<noteq> 0 \<longrightarrow> p_proxy p) \<and> (p_proxy_pass p \<noteq> [] \<longrightarrow> p_proxy_inspect p)"

lemma policy_inv_flags:
  "policy_inv (p\<lparr>p_launches := a, p_open_as_agent := b\<rparr>) = policy_inv p"
  by (simp add: policy_inv_def policy_tables_ok_def subjects_ok_def declares_def named_well_def rule_inv_def rule_refs_ok_def
      list_all_iff Let_def)

lemma request_misplaced_flags:
  "request_misplaced (p\<lparr>p_launches := a, p_open_as_agent := b\<rparr>) = request_misplaced p"
  by (simp add: fun_eq_iff request_misplaced_def)

lemma load_final_placed: "load_final ln st = Inr p \<Longrightarrow> placed_ok p"
  by (auto simp: load_final_def Let_def placed_ok_def request_misplaced_flags list_ex_iff find_None_iff
      split: if_splits option.splits)

interpretation loader: loader_invariant policy_inv
  by unfold_locales (rule fresh_policy_inv require_inv proxy_inv trust_inv credential_inv server_inv rule_statement_inv
      policy_inv_flags [THEN iffD2]; assumption)+

lemma vdpc_load_inv:
  assumes "vdpc_load al buf = (Inr p, al')"
  shows "policy_inv p \<and> placed_ok p"
  using loader.loaded [OF assms] assms load_final_placed
  by (auto simp: vdpc_load_def Let_def split: if_splits sum.splits prod.splits)

end
