(* ===== verification/Vdp_Dest.thy ===== *)
theory Vdp_Dest
  imports Vdp_Loaded Decimal
begin

text \<open>
  Where the rules of a loaded policy reach: the objects a request or mcp rule matches name its scheme, its host
  (or a name under it) and its port, so a rule is never about a host that is passed through, and a rule
  with a credential is about https only. The lemmas follow the tokens of a pattern to the strings they match.
\<close>

section \<open>Patterns that begin with plain bytes\<close>

lemma parse_step:
  assumes "parse_glob_loop al v cap wild sb (ch # p) = (Inr g, al')" and "glob_token sb ch p = Inr (t, w, sb', q)"
  shows "\<exists>al1 cap1 wild1. parse_glob_loop al1 (v @ [t]) cap1 wild1 sb' q = (Inr g, al')"
  using assms by (auto simp: push_tok_def Let_def split: if_splits option.splits prod.splits)

lemma parse_lits:
  "list_all (\<lambda>c. \<not> glob_special c) u \<Longrightarrow> parse_glob_loop al v cap wild sb (u @ p) = (Inr g, al') \<Longrightarrow>
    \<exists>al1 cap1 wild1 sb1. parse_glob_loop al1 (v @ map G_LIT u) cap1 wild1 sb1 p = (Inr g, al')"
proof (induction u arbitrary: al v cap wild sb)
  case Nil
  then show ?case by auto
next
  case (Cons c u)
  have t: "glob_token sb c (u @ p) = Inr (G_LIT c, False, c = slash, u @ p)"
    using Cons.prems(1) by (simp add: glob_token_def glob_special_def)
  have "parse_glob_loop al v cap wild sb (c # (u @ p)) = (Inr g, al')" using Cons.prems(2) by simp
  from parse_step [OF this t] obtain al1 cap1 wild1 where
    "parse_glob_loop al1 (v @ [G_LIT c]) cap1 wild1 (c = slash) (u @ p) = (Inr g, al')" by blast
  from Cons.IH [OF _ this] Cons.prems(1) show ?case by simp
qed

lemma parse_prefix:
  "parse_glob_loop al v cap wild sb p = (Inr g, al') \<Longrightarrow> \<exists>h. g = v @ h"
proof (induction al v cap wild sb p rule: parse_glob_loop.induct)
  case (1 al v cap wild sb)
  then show ?case by simp
next
  case (2 al v cap wild sb ch p)
  obtain t w sb' q where t: "glob_token sb ch p = Inr (t, w, sb', q)"
    using 2(2) by (auto split: sum.splits)
  obtain al1 cap1 wild1 where "\<not> (if w then wild + 1 else wild) > VDPC_MAX_STRETCH"
    "push_tok al v cap t = (Some (v @ [t], cap1), al1)" "wild1 = (if w then wild + 1 else wild)"
    and r: "parse_glob_loop al1 (v @ [t]) cap1 wild1 sb' q = (Inr g, al')"
    using 2(2) t by (auto simp: push_tok_def Let_def split: if_splits option.splits prod.splits)
  with 2(1) [OF t refl refl refl, of wild1 "Some (v @ [t], cap1)" al1 "(v @ [t], cap1)" "v @ [t]" cap1]
  have "\<exists>h. g = (v @ [t]) @ h" by simp
  then show ?case by auto
qed

lemma parse_wild:
  assumes "parse_glob_loop al v cap wild sb (''?*.'' @ p) = (Inr g, al')"
  shows "\<exists>al1 cap1 wild1 sb1. parse_glob_loop al1 (v @ [G_SET any_but_slash, G_STAR, G_LIT CHR ''.'']) cap1 wild1 sb1 p =
    (Inr g, al')"
proof -
  have "parse_glob_loop al v cap wild sb (CHR ''?'' # ''*.'' @ p) = (Inr g, al')" using assms by simp
  from parse_step [OF this, of "G_SET any_but_slash" True False "''*.'' @ p"] obtain al1 cap1 wild1 where
    "parse_glob_loop al1 (v @ [G_SET any_but_slash]) cap1 wild1 False (CHR ''*'' # ''.'' @ p) = (Inr g, al')"
    by (auto simp: glob_token_def)
  from parse_step [OF this, of G_STAR True False "''.'' @ p"] obtain al2 cap2 wild2 where
    "parse_glob_loop al2 (v @ [G_SET any_but_slash, G_STAR]) cap2 wild2 False (''.'' @ p) = (Inr g, al')"
    by (auto simp: glob_token_def)
  from parse_lits [OF _ this] show ?thesis by (simp add: glob_special_def)
qed

lemma parse_wild_if:
  assumes "parse_glob_loop al v cap wild sb ((if w then ''?*.'' else []) @ p) = (Inr g, al')"
  shows "\<exists>al1 cap1 wild1 sb1.
    parse_glob_loop al1 (v @ (if w then [G_SET any_but_slash, G_STAR, G_LIT CHR ''.''] else [])) cap1 wild1 sb1 p = (Inr g, al')"
proof (cases w)
  case True
  then show ?thesis using parse_wild [of al v cap wild sb p g al'] assms by simp
next
  case False
  then have "parse_glob_loop al v cap wild sb p = (Inr g, al')" using assms by simp
  with False show ?thesis by (simp only: if_False append_Nil2) blast
qed

section \<open>The tokens of a destination\<close>

lemma host_byte_plain: "host_byte c \<Longrightarrow> \<not> glob_special c"
  by (auto simp: host_byte_def glob_special_def isdigit_def islower_def byte_def)

lemma digit_plain: "isdigit c \<Longrightarrow> \<not> glob_special c"
  by (auto simp: glob_special_def isdigit_def byte_def)

lemma upper_plain: "isupper c \<Longrightarrow> \<not> glob_special c \<and> c \<noteq> slash"
  by (auto simp: glob_special_def isupper_def byte_def)

text \<open>The tokens before the scheme match no slash.\<close>

definition method_toks :: "gtok list \<Rightarrow> bool" where
  "method_toks g \<longleftrightarrow> (\<forall>s. toks_match g s \<longrightarrow> slash \<notin> set s)"

lemma dest_tokens:
  assumes "dest_form https c wild host port" and "glob_of c g"
  shows "\<exists>gm h. g = gm @ map G_LIT ((if https then ''https'' else ''http'') @ ''://'') @
      (if wild then [G_SET any_but_slash, G_STAR, G_LIT CHR ''.''] else []) @
      map G_LIT (host @ '':'' @ decimal port @ ''/'') @ h \<and> method_toks gm"
proof -
  let ?sch = "(if https then ''https'' else ''http'') @ ''://''" and ?dest = "host @ '':'' @ decimal port @ ''/''"
  let ?wild = "if wild then [G_SET any_but_slash, G_STAR, G_LIT CHR ''.''] else []"
  obtain m t where m: "m = [] \<or> (\<exists>k. method_ok k \<and> m = k @ '' '')"
    and c: "c = m @ ?sch @ (if wild then ''?*.'' else []) @ ?dest @ t" and host: "list_all host_byte host"
    using assms(1) by (auto simp: dest_form_def)
  obtain al al' where p: "parse_glob_loop al [] 0 0 False c = (Inr g, al')"
    using assms(2) by (auto simp: glob_of_def parse_glob_def)
  have "list_all (\<lambda>c. \<not> glob_special c) host" using host host_byte_plain unfolding list_all_iff by blast
  moreover have "list_all (\<lambda>c. \<not> glob_special c) (decimal port)"
    using decimal_digits [of port] digit_plain unfolding list_all_iff by blast
  moreover have "\<not> glob_special CHR '':''" "\<not> glob_special slash" by (simp_all add: glob_special_def)
  ultimately have plain: "list_all (\<lambda>c. \<not> glob_special c) ?sch" "list_all (\<lambda>c. \<not> glob_special c) ?dest"
    by (simp_all, simp add: glob_special_def)
  have gm: "\<exists>gm al1 cap1 wild1 sb1. method_toks gm \<and>
    parse_glob_loop al1 gm cap1 wild1 sb1 (?sch @ (if wild then ''?*.'' else []) @ ?dest @ t) = (Inr g, al')"
  proof (cases "m = ''* ''")
    case True
    define rest where "rest = ?sch @ (if wild then ''?*.'' else []) @ ?dest @ t"
    have tok: "glob_token False CHR ''*'' ('' '' @ rest) = Inr (G_STAR, True, False, '' '' @ rest)"
      by (simp add: glob_token_def)
    have "parse_glob_loop al [] 0 0 False (CHR ''*'' # ('' '' @ rest)) = (Inr g, al')"
      using p True unfolding c rest_def by simp
    from parse_step [OF this tok] obtain al1 cap1 wild1 where
      "parse_glob_loop al1 [G_STAR] cap1 wild1 False ('' '' @ rest) = (Inr g, al')" by auto
    from parse_lits [OF _ this] have "\<exists>al1 cap1 wild1 sb1. parse_glob_loop al1 [G_STAR, G_LIT CHR '' ''] cap1 wild1 sb1
      rest = (Inr g, al')"
      by (simp add: glob_special_def)
    moreover have "method_toks [G_STAR, G_LIT CHR '' '']" by (auto simp: method_toks_def toks_match_Cons)
    ultimately show ?thesis unfolding rest_def by blast
  next
    case False
    then have sp: "c = CHR '' '' \<or> isupper c" if "c \<in> set m" for c using m that by (auto simp: method_ok_def list_all_iff)
    have "\<not> glob_special c \<and> c \<noteq> slash" if "c \<in> set m" for c
      using sp [OF that] upper_plain [of c] by (cases "c = CHR '' ''") (simp_all add: glob_special_def)
    then have u: "list_all (\<lambda>c. \<not> glob_special c \<and> c \<noteq> slash) m" unfolding list_all_iff by blast
    then have mt: "method_toks (map G_LIT m)"
      unfolding method_toks_def toks_match_append_lits by (auto simp: list_all_iff)
    have "list_all (\<lambda>c. \<not> glob_special c) m" using u by (simp add: list_all_iff)
    from parse_lits [OF this p [unfolded c]] obtain al1 cap1 wild1 sb1 where
      "parse_glob_loop al1 (map G_LIT m) cap1 wild1 sb1 (?sch @ (if wild then ''?*.'' else []) @ ?dest @ t) = (Inr g, al')"
      by auto
    with mt show ?thesis by blast
  qed
  then obtain gm al1 cap1 wild1 sb1 where gm: "method_toks gm"
    and 1: "parse_glob_loop al1 gm cap1 wild1 sb1 (?sch @ (if wild then ''?*.'' else []) @ ?dest @ t) = (Inr g, al')"
    by blast
  obtain al2 cap2 wild2 sb2 where
    2: "parse_glob_loop al2 (gm @ map G_LIT ?sch) cap2 wild2 sb2 ((if wild then ''?*.'' else []) @ ?dest @ t) = (Inr g, al')"
    using parse_lits [OF plain(1) 1] by blast
  have "\<exists>al3 cap3 wild3 sb3. parse_glob_loop al3 (gm @ map G_LIT ?sch @ ?wild) cap3 wild3 sb3 (?dest @ t) = (Inr g, al')"
    using parse_wild_if [OF 2] by (simp only: append_assoc)
  then obtain al3 cap3 wild3 sb3 where
    3: "parse_glob_loop al3 (gm @ map G_LIT ?sch @ ?wild) cap3 wild3 sb3 (?dest @ t) = (Inr g, al')" by blast
  obtain al4 cap4 wild4 sb4 where
    4: "parse_glob_loop al4 ((gm @ map G_LIT ?sch @ ?wild) @ map G_LIT ?dest) cap4 wild4 sb4 t = (Inr g, al')"
    using parse_lits [OF plain(2) 3] by blast
  obtain h where "g = ((gm @ map G_LIT ?sch @ ?wild) @ map G_LIT ?dest) @ h" using parse_prefix [OF 4] by blast
  then have "g = gm @ map G_LIT ?sch @ ?wild @ map G_LIT ?dest @ h" by (simp only: append_assoc)
  with gm show ?thesis by blast
qed

section \<open>What a destination's tokens match\<close>

text \<open>The hosts of a rule: its own, or with a wildcard a name under it.\<close>

definition rule_reaches :: "vdpc_rule \<Rightarrow> string \<Rightarrow> bool" where
  "rule_reaches r h \<longleftrightarrow>
     (if r_rwild r then \<exists>x. x \<noteq> [] \<and> h = x @ ''.'' @ r_rhost r else h = r_rhost r)"

lemma rule_reaches_passes: "rule_reaches r h \<Longrightarrow> passes r h"
  by (auto simp: rule_reaches_def passes_def nth_append split: if_splits)

lemma dest_match:
  assumes "toks_match (gm @ map G_LIT u @ (if wild then [G_SET any_but_slash, G_STAR, G_LIT CHR ''.''] else []) @
      map G_LIT v @ h) s" and "method_toks gm"
  shows "\<exists>w x t. s = w @ u @ x @ v @ t \<and> slash \<notin> set w \<and>
    (if wild then \<exists>y. y \<noteq> [] \<and> slash \<notin> set y \<and> x = y @ ''.'' else x = [])"
proof -
  obtain w x t where s: "s = w @ u @ x @ v @ t" and w: "toks_match gm w"
    and x: "toks_match (if wild then [G_SET any_but_slash, G_STAR, G_LIT CHR ''.''] else []) x"
    using assms(1) unfolding toks_match_append toks_match_append_lits by blast
  have "if wild then \<exists>y. y \<noteq> [] \<and> slash \<notin> set y \<and> x = y @ ''.'' else x = []"
  proof (cases wild)
    case True
    then obtain a b where "x = a @ b @ ''.''" "length a = 1" "set_has any_but_slash (byte (hd a))" "slash \<notin> set b"
      using x by (auto simp: toks_match_Cons)
    then have "x = (a @ b) @ ''.''" "a @ b \<noteq> []" "slash \<notin> set (a @ b)"
      by (auto simp: length_Suc_conv set_has_any_but_slash)
    with True show ?thesis by auto
  qed (use x in simp)
  then show ?thesis using s w assms(2) unfolding method_toks_def by blast
qed

section \<open>The rules of a loaded policy\<close>

definition port_proxied :: "vdpc_policy \<Rightarrow> nat \<Rightarrow> bool" where
  "port_proxied p x \<longleftrightarrow> (p_proxy_ports p = [] \<and> (x = 80 \<or> x = 443)) \<or> x \<in> set (p_proxy_ports p)"

definition web_object :: "vdpc_rule \<Rightarrow> bool \<Rightarrow> string \<Rightarrow> string \<Rightarrow> bool" where
  "web_object r https h s \<longleftrightarrow>
     (\<exists>w t. s = w @ (if https then ''https'' else ''http'') @ ''://'' @ h @ '':'' @ decimal (r_rport r) @ ''/'' @ t \<and>
        slash \<notin> set w) \<and> slash \<notin> set h"

lemma qcut_prefix: "\<exists>t. s = qcut s @ t"
  unfolding qcut_def by (metis takeWhile_dropWhile_id)

lemma web_object_append:
  assumes "web_object r https h s"
  shows "web_object r https h (s @ t)"
proof -
  obtain w u where "s = w @ (if https then ''https'' else ''http'') @ ''://'' @ h @ '':'' @ decimal (r_rport r) @ ''/'' @ u"
    and w: "slash \<notin> set w" and h: "slash \<notin> set h"
    using assms unfolding web_object_def by blast
  then have "s @ t = w @ (if https then ''https'' else ''http'') @ ''://'' @ h @ '':'' @ decimal (r_rport r) @ ''/'' @ (u @ t)"
    by (simp only: append_assoc)
  with w h show ?thesis unfolding web_object_def by blast
qed

lemma host_no_slash:
  assumes "list_all host_byte h"
  shows "slash \<notin> set h"
proof -
  have "\<not> host_byte slash" by (simp add: host_byte_def isdigit_def islower_def byte_def)
  then show ?thesis using assms unfolding list_all_iff by blast
qed

lemma web_tokens_object:
  assumes "rule_inv pol r" and "web_kind r" and "toks_match (r_g r) s"
  shows "\<exists>https h. web_object r https h s \<and> rule_reaches r h \<and> (r_cred r \<noteq> 0 \<longrightarrow> https \<and> r_allow r)"
proof -
  obtain https where d: "dest_form https (r_c r) (r_rwild r) (r_rhost r) (r_rport r)"
    and c: "r_cred r \<noteq> 0 \<longrightarrow> https \<and> r_allow r" and g: "glob_of (r_c r) (r_g r)"
    using assms(1,2) by (auto simp: rule_inv_def rule_web_ok_def rule_glob_ok_def)
  obtain gm g' where "r_g r = gm @ map G_LIT ((if https then ''https'' else ''http'') @ ''://'') @
      (if r_rwild r then [G_SET any_but_slash, G_STAR, G_LIT CHR ''.''] else []) @
      map G_LIT (r_rhost r @ '':'' @ decimal (r_rport r) @ ''/'') @ g'" "method_toks gm"
    using dest_tokens [OF d g] by blast
  then obtain w x t where s: "s = w @ ((if https then ''https'' else ''http'') @ ''://'') @ x @
      (r_rhost r @ '':'' @ decimal (r_rport r) @ ''/'') @ t" "slash \<notin> set w"
    and x: "if r_rwild r then \<exists>y. y \<noteq> [] \<and> slash \<notin> set y \<and> x = y @ ''.'' else x = []"
    using dest_match assms(3) by metis
  have "slash \<notin> set (x @ r_rhost r)" using x d host_no_slash by (auto simp: dest_form_def split: if_splits)
  moreover have "rule_reaches r (x @ r_rhost r)" using x by (auto simp: rule_reaches_def split: if_splits)
  moreover have "\<exists>w t. s = w @ (if https then ''https'' else ''http'') @ ''://'' @ (x @ r_rhost r) @ '':'' @
      decimal (r_rport r) @ ''/'' @ t \<and> slash \<notin> set w"
    using s by (intro exI [of _ w] exI [of _ t]) simp
  ultimately show ?thesis using c unfolding web_object_def by blast
qed

lemma web_rule_object:
  assumes "rule_inv pol r" and "web_kind r" and "str_holds r s"
  shows "\<exists>https h. web_object r https h s \<and> rule_reaches r h \<and> (r_cred r \<noteq> 0 \<longrightarrow> https \<and> r_allow r)"
proof -
  have "r_match r = M_GLOB" using assms(1,2) by (simp add: rule_inv_def rule_web_ok_def)
  then have "toks_match (r_g r) s \<or> toks_match (r_g r) (qcut s)"
    using assms(3) str_holds_eq [OF rule_inv_wf [OF assms(1)], of s]
    by (auto simp: rule_matches_def split: if_splits)
  then show ?thesis
  proof
    assume "toks_match (r_g r) s"
    then show ?thesis using web_tokens_object [OF assms(1,2)] by blast
  next
    assume "toks_match (r_g r) (qcut s)"
    moreover obtain t where "s = qcut s @ t" using qcut_prefix by blast
    ultimately show ?thesis using web_tokens_object [OF assms(1,2)] web_object_append by metis
  qed
qed

lemma placed_rule:
  assumes "placed_ok p" and "r \<in> set (p_rules p)" and "web_kind r"
  shows "p_proxy_inspect p \<and> port_proxied p (r_rport r) \<and> (\<forall>h. rule_reaches r h \<longrightarrow> h \<notin> set (p_proxy_pass p))"
  using assms rule_reaches_passes
  by (auto simp: placed_ok_def list_ex_iff request_misplaced_def web_kind_def port_proxied_def)

lemma holds_rule:
  "vdpc_holds p i s = 1 \<longleftrightarrow> i < length (p_rules p) \<and> str_holds (p_rules p ! i) s"
  by (auto simp: vdpc_holds_def)

lemma loaded_rule:
  "policy_inv p \<Longrightarrow> vdpc_holds p i s = 1 \<Longrightarrow> rule_inv p (p_rules p ! i) \<and> p_rules p ! i \<in> set (p_rules p)"
  by (auto simp: holds_rule policy_inv_def list_all_iff)

end
