(* ===== verification/Vdp_Certified.thy ===== *)
theory Vdp_Certified
  imports Vdp_Dest Vdp_Checker
begin

text \<open>
  What the certificate checker promises of a policy text it accepts: the properties of \<open>vdpc_load\<close> together with
  the checks of certificates and queries, and a policy that exercises them.
\<close>

section \<open>An example policy\<close>

definition vdp_sample_lines :: "string list" where
  "vdp_sample_lines =
     [''require warden 1.31'', ''proxy inspect'', ''proxy passthrough host b.c'', ''credential k from file:/s'',
      ''allow request GET https://a.b/x credential=k header=X'', ''mcp server m exec /m'', ''allow path /k'']"

definition vdp_sample_text :: string where
  "vdp_sample_text = concat (map (\<lambda>l. l @ [newline]) vdp_sample_lines)"

abbreviation vdp_sample_url :: string where "vdp_sample_url \<equiv> ''GET https://a.b:443/x''"

definition vdp_sample_request :: vdpc_rule where
  "vdp_sample_request = glob_filters ((empty_rule 5)
     \<lparr>r_allow := True, r_kind := VDPC_REQUEST, r_match := M_GLOB, r_c := vdp_sample_url, r_g := map G_LIT vdp_sample_url,
      r_rhost := ''a.b'', r_rport := 443, r_qmode := 1, r_cred := 1, r_hdr := ''X''\<rparr>)"

definition vdp_sample_server :: vdpc_rule where
  "vdp_sample_server = (empty_rule 6)
     \<lparr>r_allow := True, r_kind := VDPC_EXEC, r_match := M_EXACT, r_c := ''/m'', r_subagent := ''m'', r_csubj := 1,
      r_mcp_server := True\<rparr>"

definition vdp_sample_path :: vdpc_rule where
  "vdp_sample_path = (empty_rule 7) \<lparr>r_allow := True, r_c := ''/k''\<rparr>"

definition proxied :: "vdpc_policy \<Rightarrow> vdpc_policy" where
  "proxied p = p\<lparr>p_proxy := True, p_proxy_inspect := True\<rparr>"

definition with_credential :: "vdpc_policy \<Rightarrow> vdpc_policy" where
  "with_credential p = p\<lparr>p_proxy_pass := [''b.c''], p_creds := [\<lparr>cr_name = ''k'', cr_store = 1, cr_ref = ''/s'',
     cr_line = 4, cr_audience = [], cr_opaque = False\<rparr>]\<rparr>"

abbreviation st31 :: "vdpc_policy \<Rightarrow> nat \<Rightarrow> load_state" where
  "st31 p g \<equiv> \<lparr>l_policy = p, l_req = (1, 31), l_legacy = 0, l_gtot = g\<rparr>"

lemmas load_eval =
  load_vline_def load_statement_def require_statement_def parse_ver_def digits_value_def ver_ge_def VDPC_GRAMMAR_def
  proxy_statement_def passthrough_host_def proxy_port_def rule_statement_def server_statement_def parse_rule_def
  parse_plain_rule_def rule_matcher_def KW_def is_clause_def LINE_MAX_def VDPC_MAX_RULES_def
  line_tokens.simps ctype_defs byte_def newline_def starts_def empty_rule_def

lemmas cred_eval = parse_credential_def cred_audience_def short_name_def name_byte_def VDPC_MAX_CREDS_def cred_store_def
  cred_ref_error_def clean_abs_path_def dot_segment_def

lemmas rule_eval = kind_defs control_byte_def VDPC_MAX_S_def rule_opt_def rule_final_def flag_clause_def

lemma vdp_sample_require:
  "load_vline [] n \<lparr>l_policy = p, l_req = (0, 0), l_legacy = 0, l_gtot = 0\<rparr> ''require warden 1.31'' = (Inr (st31 p 0), [])"
  by (simp add: load_eval Let_def)

lemma vdp_sample_inspect:
  "\<not> p_proxy p \<Longrightarrow> load_vline [] n (st31 p 0) ''proxy inspect'' = (Inr (st31 (proxied p) 0), [])"
  by (simp add: load_eval Let_def proxied_def)

lemma vdp_sample_passthrough:
  "p_proxy_pass p = [] \<Longrightarrow>
    load_vline [] n (st31 p 0) ''proxy passthrough host b.c'' = (Inr (st31 (p\<lparr>p_proxy_pass := [''b.c'']\<rparr>) 0), [])"
  by (simp add: load_eval Let_def host_name_form_def)

lemma vdp_sample_credential:
  "p_creds p = [] \<Longrightarrow>
    load_vline [] 4 (st31 (p\<lparr>p_proxy_pass := [''b.c'']\<rparr>) 0) ''credential k from file:/s'' = (Inr (st31 (with_credential p) 0), [])"
  by (simp add: load_eval Let_def cred_eval with_credential_def)

lemma vdp_sample_allow_path:
  "length (p_rules p) < 4 \<Longrightarrow>
    load_vline [] 7 (st31 p g) ''allow path /k'' = (Inr (st31 (p\<lparr>p_rules := p_rules p @ [vdp_sample_path]\<rparr>) g), [])"
  by (simp add: load_eval Let_def rule_eval vdp_sample_path_def)

lemma decimal_443: "decimal 443 = ''443''"
  by (simp add: decimal_def digits_rev.simps char_of_def bit_Suc_0_iff)

lemma vdp_sample_req_parse:
  "req_parse [] ''GET'' ''https://a.b/x'' =
    (Inr \<lparr>rq_glob = vdp_sample_url, rq_host = ''a.b'', rq_wild = False, rq_port = 443\<rparr>, [])"
  by (simp add: req_parse_def method_ok_def req_authority_def host_name_form_def dot_segment_def starts_def ctype_defs
      byte_def Let_def VDPC_MAX_S_def decimal_443)

lemma vdp_sample_glob: "parse_glob [] vdp_sample_url = (Inr (map G_LIT vdp_sample_url), [])"
  by (simp add: parse_glob_def glob_token_def push_tok_def VDPC_MAX_STRETCH_def Let_def)

lemma vdp_sample_request_rule:
  assumes "p_subjects p = []" and "p_rules p = []"
  shows "load_vline [] 5 (st31 (with_credential p) 0) ''allow request GET https://a.b/x credential=k header=X'' =
    (Inr (st31 ((with_credential p)\<lparr>p_rules := [vdp_sample_request]\<rparr>) 21), [])"
proof -
  let ?r = "(empty_rule 5)\<lparr>r_allow := True, r_kind := VDPC_REQUEST, r_c := vdp_sample_url, r_match := M_GLOB, r_rhost := ''a.b'',
    r_rwild := False, r_rport := 443, r_qmode := 1\<rparr>"
  let ?tok = "[''allow'', ''request'', ''GET'', ''https://a.b/x'', ''credential=k'', ''header=X'']"
  have t: "line_tokens 0 ''allow request GET https://a.b/x credential=k header=X'' = Some ?tok"
    by (simp add: line_tokens.simps ctype_defs byte_def Let_def)
  have g: "rule_glob [] 0 ?r = (Inr (glob_filters (?r\<lparr>r_g := map G_LIT vdp_sample_url\<rparr>), 21), [])"
    using vdp_sample_glob by (simp add: rule_glob_def VDPC_GLOB_MAX_TOTAL_def)
  have c: "cred_named (with_credential p) ''k'' = 1" "p_creds (with_credential p) = p_creds (with_credential p)"
    by (simp_all add: cred_named_def with_credential_def)
  have r: "parse_request_rule [] (1, 31) 0 ((empty_rule 5)\<lparr>r_allow := True, r_kind := VDPC_REQUEST\<rparr>) (with_credential p) ?tok =
    (Inr (vdp_sample_request, 21), [])"
    using g vdp_sample_req_parse c
    by (simp add: parse_request_rule_def request_opt_def opt_credential_def opt_header_def all_tchar_def tchar_def
        framing_header_def tolower_def control_byte_def ver_ge_def starts_def ctype_defs byte_def Let_def cred_of_def
        vdp_sample_request_def glob_filters_def with_credential_def empty_rule_def is_lit_def)
  have "parse_rule [] 5 (1, 31) 0 0 (with_credential p) ?tok = (Inr (vdp_sample_request, 0, 21), [])"
    using r by (simp add: parse_rule_def Let_def)
  then show ?thesis using t assms
    by (simp add: load_vline_def load_statement_def rule_statement_def LINE_MAX_def VDPC_MAX_RULES_def Let_def
        with_credential_def vdp_sample_request_def glob_filters_def empty_rule_def)
qed

lemma vdp_sample_mcp_server:
  assumes "p_rules p = [r]" and "r_subagent r = []" and "p_subjects p = []"
  shows "load_vline [] 6 (st31 p g) ''mcp server m exec /m'' =
    (Inr (st31 (p\<lparr>p_rules := [r, vdp_sample_server],
       p_subjects := [\<lparr>sj_name = ''m'', sj_rule = 1, sj_mcp = True, sj_line = 6\<rparr>]\<rparr>) g), [])"
proof -
  let ?tok = "[''mcp'', ''server'', ''m'', ''exec'', ''/m'']"
  have t: "line_tokens 0 ''mcp server m exec /m'' = Some ?tok"
    by (simp add: line_tokens.simps ctype_defs byte_def Let_def)
  have r: "parse_mcp_server [] (1, 31) 6 ?tok = (Inr (vdp_sample_server\<lparr>r_csubj := 0\<rparr>), [])"
    by (simp add: parse_mcp_server_def ver_ge_def short_name_def ctype_defs byte_def printable_def clean_abs_path_def
        dot_segment_def runs_others_def kAny_def kLaunchers_def starts_def Let_def vdp_sample_server_def empty_rule_def)
  show ?thesis using t r assms
    by (simp add: load_vline_def load_statement_def server_statement_def LINE_MAX_def VDPC_MAX_RULES_def Let_def
        subj_register_def subj_named_def vdp_sample_server_def empty_rule_def)
qed

definition vdp_sample_policy :: vdpc_policy where
  "vdp_sample_policy = (with_credential (proxied (fresh_policy (vdpc_sha256 (map of_char vdp_sample_text)))))
     \<lparr>p_subjects := [\<lparr>sj_name = ''m'', sj_rule = 1, sj_mcp = True, sj_line = 6\<rparr>],
      p_rules := [vdp_sample_request, vdp_sample_server, vdp_sample_path],
      p_launches := True, p_open_as_agent := True\<rparr>"

lemma load_vlines_Cons:
  assumes "load_vline al m st l = (Inr st', al')" and "m = ln + 1" and "newline \<notin> set l"
  shows "load_vlines al ln st (l @ newline # buf) = load_vlines al' m st' buf"
proof -
  have t: "takeWhile (\<lambda>c. c \<noteq> newline) (l @ newline # buf) = l" using assms(3) by (auto simp: takeWhile_tail)
  show ?thesis using assms(1,2) unfolding load_vlines.simps [of al ln st "l @ newline # buf"] Let_def t by simp
qed

lemma vdp_sample_loaded: "vdpc_load [] vdp_sample_text = (Inr vdp_sample_policy, [])"
proof -
  define d where "d = vdpc_sha256 (map of_char vdp_sample_text)"
  define p where "p = proxied (fresh_policy d)"
  have p: "p_rules p = []" "p_subjects p = []" "p_creds p = []" "p_proxy_pass p = []"
    by (simp_all add: p_def proxied_def fresh_policy_def)
  define q where "q = with_credential p"
  have q: "p_rules (q\<lparr>p_rules := [vdp_sample_request]\<rparr>) = [vdp_sample_request]" "r_subagent vdp_sample_request = []"
    "p_subjects (q\<lparr>p_rules := [vdp_sample_request]\<rparr>) = []"
    using p by (simp_all add: q_def with_credential_def vdp_sample_request_def empty_rule_def)
  have n: "c \<noteq> newline \<longleftrightarrow> c \<noteq> CHR 0x0A" for c by (simp add: newline_def)
  have whole: "vdp_sample_text = ''require warden 1.31'' @ newline # ''proxy inspect'' @ newline #
      ''proxy passthrough host b.c'' @ newline # ''credential k from file:/s'' @ newline #
      ''allow request GET https://a.b/x credential=k header=X'' @ newline # ''mcp server m exec /m'' @ newline #
      ''allow path /k'' @ newline # []"
    by (simp add: vdp_sample_text_def vdp_sample_lines_def)
  have 1: "load_vlines [] 0 \<lparr>l_policy = fresh_policy d, l_req = (0, 0), l_legacy = 0, l_gtot = 0\<rparr>
      (''require warden 1.31'' @ newline # b) = load_vlines [] 1 (st31 (fresh_policy d) 0) b" for b
    by (rule load_vlines_Cons [OF vdp_sample_require]) (simp_all add: newline_def)
  have 2: "load_vlines [] 1 (st31 (fresh_policy d) 0) (''proxy inspect'' @ newline # b) = load_vlines [] 2 (st31 p 0) b" for b
    unfolding p_def by (rule load_vlines_Cons [OF vdp_sample_inspect]) (simp_all add: newline_def fresh_policy_def)
  have 3: "load_vlines [] 2 (st31 p 0) (''proxy passthrough host b.c'' @ newline # b) =
      load_vlines [] 3 (st31 (p\<lparr>p_proxy_pass := [''b.c'']\<rparr>) 0) b" for b
    using p by (intro load_vlines_Cons [OF vdp_sample_passthrough]) (simp_all add: newline_def)
  have 4: "load_vlines [] 3 (st31 (p\<lparr>p_proxy_pass := [''b.c'']\<rparr>) 0) (''credential k from file:/s'' @ newline # b) =
      load_vlines [] 4 (st31 q 0) b" for b
    using p unfolding q_def by (intro load_vlines_Cons [OF vdp_sample_credential]) (simp_all add: newline_def)
  have 5: "load_vlines [] 4 (st31 q 0) (''allow request GET https://a.b/x credential=k header=X'' @ newline # b) =
      load_vlines [] 5 (st31 (q\<lparr>p_rules := [vdp_sample_request]\<rparr>) 21) b" for b
    using p unfolding q_def by (intro load_vlines_Cons [OF vdp_sample_request_rule]) (simp_all add: newline_def)
  have 6: "load_vlines [] 5 (st31 (q\<lparr>p_rules := [vdp_sample_request]\<rparr>) 21) (''mcp server m exec /m'' @ newline # b) =
      load_vlines [] 6 (st31 ((q\<lparr>p_rules := [vdp_sample_request]\<rparr>)\<lparr>p_rules := [vdp_sample_request, vdp_sample_server],
        p_subjects := [\<lparr>sj_name = ''m'', sj_rule = 1, sj_mcp = True, sj_line = 6\<rparr>]\<rparr>) 21) b" for b
    using q by (intro load_vlines_Cons [OF vdp_sample_mcp_server]) (simp_all add: newline_def)
  have 7: "load_vlines [] 6 (st31 ((q\<lparr>p_rules := [vdp_sample_request]\<rparr>)\<lparr>p_rules := [vdp_sample_request, vdp_sample_server],
        p_subjects := [\<lparr>sj_name = ''m'', sj_rule = 1, sj_mcp = True, sj_line = 6\<rparr>]\<rparr>) 21) (''allow path /k'' @ newline # b) =
      load_vlines [] 7 (st31 (q\<lparr>p_subjects := [\<lparr>sj_name = ''m'', sj_rule = 1, sj_mcp = True, sj_line = 6\<rparr>],
        p_rules := [vdp_sample_request, vdp_sample_server, vdp_sample_path]\<rparr>) 21) b" for b
    using load_vlines_Cons [OF vdp_sample_allow_path [of "(q\<lparr>p_rules := [vdp_sample_request]\<rparr>)\<lparr>p_rules := [vdp_sample_request, vdp_sample_server],
        p_subjects := [\<lparr>sj_name = ''m'', sj_rule = 1, sj_mcp = True, sj_line = 6\<rparr>]\<rparr>" 21], of 6 b]
    by (simp add: newline_def)
  have lines: "load_vlines [] 0 \<lparr>l_policy = fresh_policy d, l_req = (0, 0), l_legacy = 0, l_gtot = 0\<rparr> vdp_sample_text =
    (Inr (st31 (q\<lparr>p_subjects := [\<lparr>sj_name = ''m'', sj_rule = 1, sj_mcp = True, sj_line = 6\<rparr>],
      p_rules := [vdp_sample_request, vdp_sample_server, vdp_sample_path]\<rparr>) 21), 7, [])"
    unfolding whole 1 2 3 4 5 6 7 by (simp add: load_vlines.simps)
  have c: "load_final 7 (st31 (q\<lparr>p_subjects := [\<lparr>sj_name = ''m'', sj_rule = 1, sj_mcp = True, sj_line = 6\<rparr>],
      p_rules := [vdp_sample_request, vdp_sample_server, vdp_sample_path]\<rparr>) 21) = Inr vdp_sample_policy"
    by (simp add: load_final_def ver_ge_def vdp_sample_policy_def q_def p_def d_def proxied_def with_credential_def fresh_policy_def
        request_misplaced_def passes_def vdp_sample_request_def vdp_sample_server_def vdp_sample_path_def empty_rule_def kind_defs)
  show ?thesis using lines c unfolding vdpc_load_def Let_def d_def by simp
qed

lemma vdp_sample_facts:
  "vdpc_holds vdp_sample_policy 0 vdp_sample_url = 1" "r_kind (p_rules vdp_sample_policy ! 0) = VDPC_REQUEST"
  "r_cred (p_rules vdp_sample_policy ! 0) = 1" "length (p_rules vdp_sample_policy) = 3"
  by (simp_all add: vdpc_holds_def vdp_sample_policy_def vdp_sample_request_def str_holds_def glob_holds_def vdpc_glob_match_def
      MAXG_def VDPC_MAX_S_def glob_filters_def is_lit_def empty_rule_def qcut_def Let_def)

section \<open>Confined names\<close>

lemma confined_alone:
  assumes "subjects_ok p" and "i < length (p_rules p)" and "j < length (p_rules p)"
    and "r_subagent (p_rules p ! j) = r_subagent (p_rules p ! i)" and "r_csubj (p_rules p ! i) \<noteq> 0"
  shows "j = i"
proof -
  define k where "k = nat (r_csubj (p_rules p ! i) - 1)"
  have n: "named_well p i" "named_well p j" using assms(1-3) by (simp_all add: subjects_ok_def)
  then have k: "k < length (p_subjects p)" "sj_rule (p_subjects p ! k) = i"
    using assms(5) by (auto simp: named_well_def Let_def k_def)
  then have nk: "r_subagent (p_rules p ! i) = sj_name (p_subjects p ! k)"
    using assms(1) by (auto simp: subjects_ok_def declares_def Let_def)
  have "r_csubj (p_rules p ! j) \<noteq> 0"
  proof
    assume "r_csubj (p_rules p ! j) = 0"
    then have "r_subagent (p_rules p ! j) = [] \<or> r_subagent (p_rules p ! j) \<notin> set (map sj_name (p_subjects p))"
      using n(2) by (simp add: named_well_def Let_def)
    moreover have "sj_name (p_subjects p ! k) \<in> set (map sj_name (p_subjects p))" using k by simp
    ultimately have "r_subagent (p_rules p ! i) = []" using assms(4) nk by auto
    then show False using n(1) assms(5) by (simp add: named_well_def Let_def)
  qed
  then obtain l where l: "l < length (p_subjects p)" "sj_rule (p_subjects p ! l) = j"
    using n(2) by (intro that [of "nat (r_csubj (p_rules p ! j) - 1)"]) (auto simp: named_well_def Let_def)
  then have "sj_name (p_subjects p ! l) = sj_name (p_subjects p ! k)"
    using assms(1,4) nk by (auto simp: subjects_ok_def declares_def Let_def)
  then have "l = k"
    using assms(1) k(1) l(1) nth_eq_iff_index_eq [of "map sj_name (p_subjects p)" l k]
    by (simp add: subjects_ok_def table_def)
  then show ?thesis using k(2) l(2) by simp
qed

section \<open>The properties\<close>

text \<open>C8. Every policy text the loader accepts gives a well-formed policy: at most 512 rules, each with flags of \<open>open\<close>
  and a glob that fits the matcher with its pre-filters, references into the tables, tables within their bounds
  and without duplicates, and a subject for each confined rule.\<close>

theorem loaded_policy_ok:
  assumes "vdpc_load al buf = (Inr p, al')"
  shows "policy_ok p \<and> policy_tables_ok p \<and> subjects_ok p \<and> list_all (rule_refs_ok p) (p_rules p)"
  using vdpc_load_inv [OF assms] policy_inv_ok
  by (auto simp: policy_inv_def list_all_iff rule_inv_def)

theorem loaded_policy_ok_witness:
  "policy_ok vdp_sample_policy \<and> policy_tables_ok vdp_sample_policy \<and> subjects_ok vdp_sample_policy"
  using loaded_policy_ok [OF vdp_sample_loaded] by blast

text \<open>A rule of a loaded policy that decides web requests: the object it holds on, and where it may stand.\<close>

lemma web_rule_loaded:
  assumes "vdpc_load al buf = (Inr p, al')" and "vdpc_holds p i s = 1" and "web_kind (p_rules p ! i)"
  shows "\<exists>https h. web_object (p_rules p ! i) https h s \<and> rule_reaches (p_rules p ! i) h \<and>
    p_proxy_inspect p \<and> port_proxied p (r_rport (p_rules p ! i)) \<and> h \<notin> set (p_proxy_pass p) \<and>
    (r_cred (p_rules p ! i) \<noteq> 0 \<longrightarrow> https \<and> r_allow (p_rules p ! i))"
proof -
  note inv = vdpc_load_inv [OF assms(1)]
  have r: "rule_inv p (p_rules p ! i)" "p_rules p ! i \<in> set (p_rules p)" "str_holds (p_rules p ! i) s"
    using loaded_rule [OF _ assms(2)] inv assms(2) by (simp_all add: holds_rule)
  show ?thesis using web_rule_object [OF r(1) assms(3) r(3)] placed_rule [OF conjunct2 [OF inv] r(2) assms(3)] by metis
qed

text \<open>C6. A request or mcp rule of a loaded policy holds only where the proxy inspects: the object it holds on names a
  proxied port and a host the rule reaches, and that host is none of those passed through uninspected.\<close>

theorem requests_inspected:
  assumes "vdpc_load al buf = (Inr p, al')" and "vdpc_holds p i s = 1" and "web_kind (p_rules p ! i)"
  shows "p_proxy p \<and> p_proxy_inspect p \<and> port_proxied p (r_rport (p_rules p ! i)) \<and>
    (\<exists>https h. web_object (p_rules p ! i) https h s \<and> rule_reaches (p_rules p ! i) h \<and> h \<notin> set (p_proxy_pass p))"
proof -
  have "p_proxy_inspect p \<longrightarrow> p_proxy p"
    using vdpc_load_inv [OF assms(1)] by (simp add: policy_inv_def policy_tables_ok_def)
  then show ?thesis using web_rule_loaded [OF assms] by blast
qed

theorem requests_inspected_witness:
  "port_proxied vdp_sample_policy (r_rport (p_rules vdp_sample_policy ! 0)) \<and> p_proxy_inspect vdp_sample_policy"
  using requests_inspected [OF vdp_sample_loaded vdp_sample_facts(1)] vdp_sample_facts(2) by (simp add: web_kind_def)

text \<open>C7. A credential leaves only over https: a rule of a loaded policy that carries one is an allow rule with an entry
  in the credential table, and every object it holds on has the scheme https, written before any slash.\<close>

theorem credentials_https:
  assumes "vdpc_load al buf = (Inr p, al')" and "vdpc_holds p i s = 1" and "r_cred (p_rules p ! i) \<noteq> 0"
  shows "r_allow (p_rules p ! i) \<and> r_cred (p_rules p ! i) \<le> length (p_creds p) \<and>
    (\<exists>h. web_object (p_rules p ! i) True h s \<and> rule_reaches (p_rules p ! i) h)"
proof -
  note inv = vdpc_load_inv [OF assms(1)]
  have r: "rule_inv p (p_rules p ! i)" "str_holds (p_rules p ! i) s"
    using loaded_rule [OF _ assms(2)] inv assms(2) by (simp_all add: holds_rule)
  then have "web_kind (p_rules p ! i)" "r_cred (p_rules p ! i) \<le> length (p_creds p)"
    using assms(3) by (auto simp: rule_inv_def rule_web_ok_def rule_refs_ok_def)
  then show ?thesis using web_rule_object [OF r(1) _ r(2)] assms(3) by metis
qed

theorem credentials_https_witness:
  "\<exists>h. web_object (p_rules vdp_sample_policy ! 0) True h vdp_sample_url"
  using credentials_https [OF vdp_sample_loaded vdp_sample_facts(1)] vdp_sample_facts(3) by auto

text \<open>C33. A confined name belongs to one rule: in a loaded policy no other rule, confined or not, carries the name of a
  confined sub-agent.\<close>

theorem confined_name_once:
  assumes "vdpc_load al buf = (Inr p, al')" and "i < length (p_rules p)" and "j < length (p_rules p)"
    and "j \<noteq> i" and "r_csubj (p_rules p ! i) \<noteq> 0"
  shows "r_subagent (p_rules p ! j) \<noteq> r_subagent (p_rules p ! i)"
  using confined_alone [OF _ assms(2,3) _ assms(5)] vdpc_load_inv [OF assms(1)] assms(4)
  by (auto simp: policy_inv_def)

theorem confined_name_once_witness:
  "r_subagent (p_rules vdp_sample_policy ! 2) \<noteq> r_subagent (p_rules vdp_sample_policy ! 1)"
  using confined_name_once [OF vdp_sample_loaded, of 1 2] vdp_sample_facts
  by (simp add: vdp_sample_policy_def vdp_sample_server_def)

text \<open>C31. The Warden's files are safe from the policy text on: when the startup query finds a path not openable under a
  loaded policy, no certificate for an open of it, ground or symbolic and for any subject, is accepted.\<close>

theorem loaded_key_safe:
  assumes "vdpc_load al buf = (Inr p, al')" and "vdpc_path_openable p s = Some False"
  shows "vdpc_check_subj p subj VDPC_PATH s f ground c \<noteq> Accepted"
  using unopenable_refused [OF policy_inv_ok [OF conjunct1 [OF vdpc_load_inv [OF assms(1)]]] assms(2)] .

lemma vdp_sample_no_key: "vdpc_path_openable vdp_sample_policy ''/etc/key'' = Some False"
  by (simp add: vdpc_path_openable_def path_openable_if_def path_openable_subj_def Let_def str_holds_def
      hold_bits_def open_loop.simps [of _ "[]" _ 0 0] VDPC_MAX_RULES_def example_eval vdp_sample_policy_def
      vdp_sample_request_def vdp_sample_server_def vdp_sample_path_def empty_rule_def with_credential_def proxied_def fresh_policy_def)

theorem loaded_key_safe_witness:
  "vdpc_check_subj vdp_sample_policy 0 VDPC_PATH ''/etc/key'' 0 True example_cert \<noteq> Accepted"
  by (rule loaded_key_safe [OF vdp_sample_loaded vdp_sample_no_key])

end
