(* ===== verification/Vdp_Bounds.thy ===== *)
theory Vdp_Bounds
  imports Vdp_Certified
begin

text \<open>
  Every text the policy parser of the certificate checker copies fits the array of its C struct
  (\<^verbatim>\<open>src/varek/v1_4/checker/vdp_checker.h\<close>): the byte after the last one is always left for the NUL. The invariant is an
  instance of the loader's contract.
\<close>

definition rule_fits :: "vdpc_rule \<Rightarrow> bool" where
  "rule_fits r \<longleftrightarrow>
     length (r_c r) \<le> VDPC_MAX_S \<and> length (r_rhost r) < 254 \<and> length (r_hdr r) < 65 \<and> length (r_scheme r) < 33 \<and>
     length (r_subagent r) < 33 \<and> length (r_sha256 r) < 65"

definition cred_fits :: "vdpc_cred \<Rightarrow> bool" where
  "cred_fits c \<longleftrightarrow> length (cr_name c) < 33 \<and> length (cr_ref c) < 1025 \<and> length (cr_audience c) < 4096"

definition issuer_fits :: "vdpc_issuer \<Rightarrow> bool" where
  "issuer_fits i \<longleftrightarrow> length (is_iss i) < 256 \<and> length (is_aud i) < 256 \<and> length (is_jwks i) < 1025"

definition spiffe_fits :: "vdpc_spiffe \<Rightarrow> bool" where
  "spiffe_fits s \<longleftrightarrow> length (sp_domain s) < 256 \<and> length (sp_bundle s) < 1025"

definition mcpres_fits :: "vdpc_mcpres \<Rightarrow> bool" where
  "mcpres_fits m \<longleftrightarrow> length (mr_url m) < 256 \<and> length (mr_aud m) < 256"

definition policy_fits :: "vdpc_policy \<Rightarrow> bool" where
  "policy_fits p \<longleftrightarrow>
     list_all rule_fits (p_rules p) \<and> list_all cred_fits (p_creds p) \<and> list_all issuer_fits (p_issuers p) \<and>
     list_all spiffe_fits (p_spiffe p) \<and> list_all mcpres_fits (p_mcpres p) \<and>
     list_all (\<lambda>s. length (sj_name s) < 33) (p_subjects p) \<and> list_all (\<lambda>h. length h < 254) (p_proxy_pass p) \<and>
     length (p_proxy_up_host p) < 254"

section \<open>Tables\<close>

lemma trust_fits:
  assumes "parse_trust v p ln tok = Inr p'" and "policy_fits p"
  shows "policy_fits p'"
  using assms
  by (auto simp: parse_trust_def trust_resource_def trust_issuer_def trust_spiffe_def policy_fits_def issuer_fits_def
      spiffe_fits_def mcpres_fits_def https_with_host_def printable_def host_like_def split: if_splits)

lemma cred_ref_fits: "cred_ref_error store r = None \<Longrightarrow> length r < 1025"
  by (auto simp: cred_ref_error_def split: if_splits)

lemma cred_audience_fits: "cred_audience v tok = Inr aud \<Longrightarrow> length aud < 4096"
  by (auto simp: cred_audience_def split: if_splits option.splits)

lemma credential_fits:
  assumes "parse_credential v p ln tok = Inr p'" and "policy_fits p"
  shows "policy_fits p'"
  using assms
  by (auto simp: parse_credential_def policy_fits_def cred_fits_def short_name_def
      split: if_splits sum.splits option.splits dest!: cred_ref_fits cred_audience_fits)

lemma up_parse_fits: "up_parse u = Some (h, x) \<Longrightarrow> length h < 254"
  unfolding up_parse_def Let_def by (auto split: if_splits)

lemma proxy_fits:
  assumes "proxy_statement v p tok = Inr p'" and "policy_fits p"
  shows "policy_fits p'"
  using assms proxy_ports_fold [of "drop 2 tok" p p'] up_parse_fits [of "tok ! 2"]
  by (auto simp: proxy_statement_def passthrough_host_def policy_fits_def split: if_splits option.splits)

lemma require_fits:
  assumes "require_statement st tok = Inr st'" and "policy_fits (l_policy st)"
  shows "policy_fits (l_policy st')"
  using assms by (auto simp: require_statement_def policy_fits_def Let_def split: if_splits option.splits)

section \<open>Rules\<close>

lemma empty_rule_fits: "rule_fits (empty_rule ln)"
  by (simp add: rule_fits_def empty_rule_def)

lemma rule_fits_updates:
  "rule_fits r \<Longrightarrow> rule_fits (r\<lparr>r_allow := a\<rparr>)" "rule_fits r \<Longrightarrow> rule_fits (r\<lparr>r_kind := k\<rparr>)"
  "rule_fits r \<Longrightarrow> rule_fits (r\<lparr>r_match := m\<rparr>)" "rule_fits r \<Longrightarrow> rule_fits (r\<lparr>r_subj := i\<rparr>)"
  "rule_fits r \<Longrightarrow> rule_fits (r\<lparr>r_cred := n\<rparr>)" "rule_fits r \<Longrightarrow> rule_fits (r\<lparr>r_max_body := n\<rparr>)"
  "rule_fits r \<Longrightarrow> rule_fits (r\<lparr>r_names := n\<rparr>)" "rule_fits r \<Longrightarrow> rule_fits (r\<lparr>r_rate := n\<rparr>)"
  "rule_fits r \<Longrightarrow> rule_fits (r\<lparr>r_confined := b\<rparr>)" "rule_fits r \<Longrightarrow> rule_fits (r\<lparr>r_csubj := i\<rparr>)"
  "rule_fits r \<Longrightarrow> rule_fits (r\<lparr>r_mask := x, r_value := y\<rparr>)" "rule_fits r \<Longrightarrow> rule_fits (r\<lparr>r_g := g\<rparr>)"
  "rule_fits r \<Longrightarrow> rule_fits (glob_filters r)"
  by (simp_all add: rule_fits_def glob_filters_def)

lemma rule_glob_fits: "rule_glob al gtot r = (Inr (r', gtot'), al') \<Longrightarrow> rule_fits r \<Longrightarrow> rule_fits r'"
  by (auto dest!: rule_glob_Inr intro: rule_fits_updates)

lemma opt_header_fits: "opt_header v = Inr (h, sch) \<Longrightarrow> length h < 65 \<and> length sch < 33"
  by (auto simp: opt_header_def all_tchar_def Let_def split: if_splits)

lemma rule_fits_header: "rule_fits r \<Longrightarrow> length h < 65 \<Longrightarrow> length sch < 33 \<Longrightarrow> rule_fits (r\<lparr>r_hdr := h, r_scheme := sch\<rparr>)"
  by (simp add: rule_fits_def)

lemma for_subject_fits: "for_subject pol n r = Inr r' \<Longrightarrow> rule_fits r \<Longrightarrow> rule_fits r'"
  by (auto simp: for_subject_def intro: rule_fits_updates split: if_splits)

lemma opt_credential_fits: "opt_credential pol n r = Inr r' \<Longrightarrow> rule_fits r \<Longrightarrow> rule_fits r'"
  by (auto simp: opt_credential_def intro: rule_fits_updates split: if_splits)

lemma opt_body_fits: "opt_body d r = Inr r' \<Longrightarrow> rule_fits r \<Longrightarrow> rule_fits r'"
  by (auto simp: opt_body_def intro: rule_fits_updates split: if_splits option.splits)

lemmas opt_fits = for_subject_fits opt_credential_fits opt_body_fits

lemma request_opt_fits:
  "request_opt pol v t (r, hdr) = Inr (r', hdr') \<Longrightarrow> rule_fits r \<Longrightarrow> rule_fits r'"
  unfolding request_opt_def Let_def prod.case
  by (auto simp: map_sum_ok split: if_splits dest!: opt_header_fits intro: opt_fits rule_fits_header)

lemma mcp_opt_fits:
  "mcp_opt pol t (r, hdr) = Inr (r', hdr') \<Longrightarrow> rule_fits r \<Longrightarrow> rule_fits r'"
  unfolding mcp_opt_def Let_def prod.case
  by (auto simp: map_sum_ok split: if_splits dest!: opt_header_fits intro: opt_fits rule_fits_header)

lemma fold_fits:
  assumes "\<forall>t r hdr r' hdr'. f t (r, hdr) = Inr (r', hdr') \<longrightarrow> rule_fits r \<longrightarrow> rule_fits r'"
    and "fold_opts f ts (r, hdr) = Inr (r', hdr')" and "rule_fits r"
  shows "rule_fits r'"
  using fold_opts_inv [of "\<lambda>st. rule_fits (fst st)" f "(r, hdr)" ts "(r', hdr')"] assms by fastforce

lemma length_escaped:
  "length (concat (map (\<lambda>c. if c = x then [b, c] else [c]) t)) = length t + length (filter (\<lambda>c. c = x) t)"
  by (induction t) auto

lemma req_parse_fits:
  "req_parse al m u = (Inr q, al') \<Longrightarrow> length (rq_host q) < 254 \<and> length (rq_glob q) \<le> VDPC_MAX_S"
proof -
  assume "req_parse al m u = (Inr q, al')"
  from req_parse_Inr [OF this] obtain wild h port t where "length h \<le> 253"
    "q = \<lparr>rq_glob = req_head m u wild h port @
        concat (map (\<lambda>c. if c = CHR ''?'' then [backslash, c] else [c]) (slash # t)),
      rq_host = h, rq_wild = wild, rq_port = port\<rparr>"
    "length (req_head m u wild h port) + length (slash # t) + length (filter (\<lambda>c. c = CHR ''?'') (slash # t)) \<le> VDPC_MAX_S"
    by blast
  then show ?thesis
    using length_escaped [of "CHR ''?''" backslash "slash # t"] by simp
qed

lemma parse_request_rule_fits:
  assumes "parse_request_rule al v gtot r pol tok = (Inr (r', gtot'), al')" and "rule_fits r"
  shows "rule_fits r'"
proof -
  obtain q al1 r1 al2 hdr where q: "req_parse al (tok ! 2) (tok ! 3) = (Inr q, al1)"
    and g: "rule_glob al1 gtot (r\<lparr>r_c := rq_glob q, r_match := M_GLOB, r_rhost := rq_host q, r_rwild := rq_wild q,
        r_rport := rq_port q, r_qmode := (if CHR ''?'' \<notin> set (tok ! 3) then if r_allow r then 1 else 2 else 0)\<rparr>)
        = (Inr (r1, gtot'), al2)" (is "rule_glob _ _ ?r0 = _")
    and o: "fold_opts (request_opt pol v) (drop 4 tok) (r1, False) = Inr (r', hdr)"
    using assms(1) unfolding parse_request_rule_def Let_def stage_ok
    by - (elim conjE exE, hypsubst, rule that, assumption+)
  have "rule_fits ?r0" using req_parse_fits [OF q] assms(2) by (simp add: rule_fits_def)
  then have "rule_fits r1" using rule_glob_fits [OF g] by blast
  then show ?thesis using fold_fits [OF _ o] request_opt_fits by blast
qed

lemma mcp_final_fits: "mcp_final pol cu r hdr = Inr r' \<Longrightarrow> rule_fits r \<Longrightarrow> rule_fits r'"
  by (auto simp: mcp_final_def Let_def rule_fits_def split: if_splits)

lemma mcp_canon_host: "mcp_canon u ho n = Some (cu, host, port) \<Longrightarrow> length host < 254"
  by (auto simp: mcp_canon_def Let_def split: if_splits option.splits)

lemma parse_mcp_rule_fits:
  assumes "parse_mcp_rule al v gtot r pol tok = (Inr (r', gtot'), al')" and "rule_fits r"
  shows "rule_fits r'"
proof -
  obtain cu host port where m: "mcp_canon (tok ! 2) False 4200 = Some (cu, host, port)"
    using assms(1) by (auto simp: parse_mcp_rule_def split: if_splits option.splits)
  obtain obj opts al1 r1 al2 r2 hdr where l: "\<not> length obj > VDPC_MAX_S"
    and g: "rule_glob al1 gtot (r\<lparr>r_rhost := host, r_rport := port, r_c := obj, r_match := M_GLOB\<rparr>) =
      (Inr (r1, gtot'), al2)" (is "rule_glob _ _ ?r0 = _")
    and o: "fold_opts (mcp_opt pol) opts (r1, False) = Inr (r2, hdr)"
    and f: "mcp_final pol cu r2 hdr = Inr r'"
    using assms(1) unfolding parse_mcp_rule_def m option.case prod.case Let_def stage_ok
    by - (elim conjE exE, hypsubst, rule that, assumption+)
  have "rule_fits ?r0" using mcp_canon_host [OF m] l assms(2) by (simp add: rule_fits_def)
  then have "rule_fits r1" using rule_glob_fits [OF g] by blast
  then have "rule_fits r2" using fold_fits [OF _ o] mcp_opt_fits by blast
  then show ?thesis using mcp_final_fits [OF f] by blast
qed

lemma rule_opt_fits:
  assumes "rule_opt pol v t (r, ack) = Inr (r', ack')" and "rule_fits r"
  shows "rule_fits r'"
proof -
  have n: "short_name n \<Longrightarrow> rule_fits (r\<lparr>r_subagent := n\<rparr>)" for n
    using assms(2) by (simp add: rule_fits_def short_name_def)
  show ?thesis
    using assms unfolding rule_opt_def Let_def prod.case
    by (auto simp: map_sum_ok split: if_splits option.splits sum.splits intro: opt_fits rule_fits_updates n)
qed

lemma rule_matcher_fits: "rule_matcher v r tok = Inr (r', ci) \<Longrightarrow> rule_fits r \<Longrightarrow> rule_fits r'"
  by (auto simp: rule_matcher_def intro: rule_fits_updates split: if_splits option.splits)

lemma rule_host_fits: "rule_host al v legacy r = (Inr (r', legacy'), al') \<Longrightarrow> rule_fits r \<Longrightarrow> rule_fits r'"
  by (auto simp: rule_host_def rule_fits_def Let_def split: if_splits sum.splits prod.splits)

lemma parse_plain_rule_fits:
  assumes "parse_plain_rule al v legacy gtot r pol tok = (Inr (r', legacy', gtot'), al')" and "rule_fits r"
  shows "rule_fits r'"
proof -
  obtain r1 ci where 1: "rule_matcher v r tok = Inr (r1, ci)"
    using assms(1) by (auto simp: parse_plain_rule_def split: sum.splits)
  define r1' where "r1' = r1\<lparr>r_c := tok ! ci\<rparr>"
  obtain al1 r2 legacy2 al2 r3 gtot3 al3 r4 ack where
    l: "\<not> (length (tok ! ci) < 1 \<or> length (tok ! ci) > VDPC_MAX_S)"
    and 2: "(if r_kind r1' = VDPC_HOST then rule_host al1 v legacy r1' else (Inr (r1', legacy), al1)) =
      (Inr (r2, legacy2), al2)"
    and 3: "(if r_match r2 = M_GLOB then rule_glob al2 gtot r2 else (Inr (r2, gtot), al2)) = (Inr (r3, gtot3), al3)"
    and 4: "fold_opts (rule_opt pol v) (drop (ci + 1) tok) (r3, False) = Inr (r4, ack)"
    and 5: "rule_final r4 ack = Inr r'"
    using assms(1) unfolding parse_plain_rule_def 1 Let_def r1'_def [symmetric] sum.case prod.case stage_ok
    by - (elim conjE exE, hypsubst, rule that, assumption+)
  have "rule_fits r1'" using rule_matcher_fits [OF 1 assms(2)] l by (simp add: r1'_def rule_fits_def)
  then have "rule_fits r3" using 2 3 rule_host_fits rule_glob_fits by (auto split: if_splits)
  then have "rule_fits r4" using fold_fits [OF _ 4] rule_opt_fits by blast
  then show ?thesis using 5 by (auto simp: rule_final_def split: if_splits)
qed

lemma parse_rule_fits:
  assumes "parse_rule al ln v legacy gtot pol tok = (Inr (r, legacy', gtot'), al')"
  shows "rule_fits r"
proof -
  have "rule_fits ((empty_rule ln)\<lparr>r_allow := (tok ! 0 = ''allow'')\<rparr>)" by (intro rule_fits_updates empty_rule_fits)
  then show ?thesis
    using assms unfolding parse_rule_def Let_def
    by (auto split: if_splits sum.splits prod.splits
        intro: parse_plain_rule_fits parse_request_rule_fits parse_mcp_rule_fits rule_fits_updates)
qed

lemma parse_mcp_server_fits: "parse_mcp_server al v ln tok = (Inr r, al') \<Longrightarrow> rule_fits r"
  by (auto simp: parse_mcp_server_def Let_def rule_fits_def empty_rule_def printable_def short_name_def VDPC_MAX_S_def
      split: if_splits prod.splits)

section \<open>The whole policy\<close>

lemma server_fits:
  assumes "server_statement al ln st tok = (Inr st', al')" and "policy_fits (l_policy st)"
  shows "policy_fits (l_policy st')"
proof -
  obtain r al1 p' where r: "parse_mcp_server al (l_req st) ln tok = (Inr r, al1)"
    and s: "subj_register ((l_policy st)\<lparr>p_rules := p_rules (l_policy st) @ [r]\<rparr>) (length (p_rules (l_policy st))) True ln
      = Inr p'" and st': "l_policy st' = p'"
    using assms(1) by (auto simp: server_statement_def Let_def map_sum_ok split: if_splits sum.splits prod.splits)
  show ?thesis
    using assms(2) parse_mcp_server_fits [OF r] subj_register_Inr(1) [OF s] st' rule_fits_updates
    by (auto simp: policy_fits_def with_subject_def rule_fits_def)
qed

lemma rule_statement_fits:
  assumes "rule_statement al ln st tok = (Inr st', al')" and "policy_fits (l_policy st)"
  shows "policy_fits (l_policy st')"
proof -
  let ?p = "l_policy st"
  obtain r legacy gtot al1 where r: "parse_rule al ln (l_req st) (l_legacy st) (l_gtot st) ?p tok = (Inr (r, legacy, gtot), al1)"
    using assms(1) by (auto simp: rule_statement_def Let_def split: if_splits sum.splits prod.splits)
  have "l_policy st' = ?p\<lparr>p_rules := p_rules ?p @ [r]\<rparr> \<or> l_policy st' = with_subject ?p r False ln"
    using assms(1) r subj_register_Inr(1) [of ?p r False ln]
    by (auto simp: rule_statement_def Let_def map_sum_ok split: if_splits)
  then show ?thesis
    using assms(2) parse_rule_fits [OF r] by (auto simp: policy_fits_def with_subject_def rule_fits_def)
qed

interpretation bounds: loader_invariant policy_fits
proof
  show "policy_fits (fresh_policy d)" for d by (simp add: policy_fits_def fresh_policy_def)
  show "policy_fits p \<Longrightarrow> policy_fits (p\<lparr>p_launches := a, p_open_as_agent := b\<rparr>)" for p a b
    by (simp add: policy_fits_def)
qed (rule require_fits proxy_fits trust_fits credential_fits server_fits rule_statement_fits; assumption)+

section \<open>The property\<close>

text \<open>C32. No text of a policy overruns its array: whatever bytes are loaded, every name, reference, URL, header, host and
  digest the parser copies is shorter than the array of the struct it goes to.\<close>

theorem loaded_texts_fit:
  assumes "vdpc_load al buf = (Inr p, al')"
  shows "policy_fits p"
  using assms by (rule bounds.loaded)

theorem loaded_texts_fit_witness:
  "length (r_hdr (p_rules vdp_sample_policy ! 0)) < 65 \<and> length (p_rules vdp_sample_policy) = 3"
  using loaded_texts_fit [OF vdp_sample_loaded] vdp_sample_facts(4) by (auto simp: policy_fits_def list_all_length rule_fits_def)

end
