(* ===== verification/Vdp_Canon.thy ===== *)
theory Vdp_Canon
  imports Vdp_Names Decimal
begin

text \<open>
  The canonical form of an MCP server's URL, \<open>mcp_canon\<close> of \<^verbatim>\<open>src/varek/v1_4/checker/vdp_checker.c\<close>: canonicalising
  twice changes nothing, so that two URLs of one server are compared as texts.
\<close>

lemma digits_value_decimal: "digits_value (decimal v) = v"
  using decval_decimal [of v] by (simp add: digits_value_def decval_def)

lemma url_port_decimal:
  assumes "1 \<le> v" and "v \<le> 65535"
  shows "url_port (decimal v) = Some v"
proof -
  have "length (decimal v) \<le> 5" using digits_rev_length [of v 5] assms by (simp add: decimal_def)
  moreover have "1 \<le> length (decimal v)" using decimal_digits [of v] by (cases "decimal v") auto
  ultimately show ?thesis
    using assms decimal_digits [of v] decimal_first [of v] digits_value_decimal [of v] by (auto simp: url_port_def)
qed

lemma url_port_range: "url_port d = Some x \<Longrightarrow> 1 \<le> x \<and> x \<le> 65535"
  by (auto simp: url_port_def split: if_splits)

text \<open>The parts of a URL the canonical form is made of.\<close>

definition canon_parts :: "string \<Rightarrow> string \<Rightarrow> nat \<Rightarrow> string \<Rightarrow> bool" where
  "canon_parts sch host pt path \<longleftrightarrow>
     sch \<in> {''https'', ''http''} \<and> 1 \<le> pt \<and> pt \<le> 65535 \<and> host \<noteq> [] \<and> length host \<le> 253 \<and>
     CHR '':'' \<notin> set host \<and> slash \<notin> set host \<and> CHR ''@'' \<notin> set host \<and> CHR ''*'' \<notin> set host \<and>
     host_name_form host = Inr True \<and> (\<exists>t. path = slash # t) \<and> mcp_segments_ok path \<and> mcp_path_bytes path"

lemma takeWhile_notin: "c \<notin> set (takeWhile (\<lambda>x. x \<noteq> c) s)"
  by (auto dest: set_takeWhileD)

lemma mcp_canon_parts:
  assumes "mcp_canon u ho n = Some (cu, host, pt)"
  shows "\<exists>sch path. canon_parts sch host pt path \<and> (ho \<longrightarrow> sch = ''https'') \<and>
    cu = sch @ ''://'' @ host @ '':'' @ decimal pt @ path \<and> length cu < n"
proof -
  define sch where "sch = (if starts ''https://'' u then ''https'' else ''http'')"
  define a where "a = drop (length sch + 3) u"
  define auth where "auth = takeWhile (\<lambda>c. c \<noteq> slash) a"
  define path where "path = (if length auth < length a then drop (length auth) a else ''/'')"
  have h: "host = takeWhile (\<lambda>c. c \<noteq> CHR '':'') auth"
    and p: "(if length host < length auth then url_port (drop (length host + 1) auth)
      else Some (if starts ''https://'' u then 443 else 80)) = Some pt"
    and c: "host \<noteq> []" "length host \<le> 253" "CHR ''@'' \<notin> set host" "CHR ''*'' \<notin> set host"
      "host_name_form host = Inr True" "mcp_segments_ok path" "mcp_path_bytes path" "ho \<longrightarrow> starts ''https://'' u"
    and cu: "cu = sch @ ''://'' @ host @ '':'' @ decimal pt @ path" "length cu < n"
    using assms
    unfolding mcp_canon_def Let_def sch_def [symmetric] a_def [symmetric] auth_def [symmetric] path_def [symmetric]
    by (auto split: if_splits option.splits)
  have "1 \<le> pt \<and> pt \<le> 65535" using p url_port_range by (auto split: if_splits)
  moreover have "CHR '':'' \<notin> set host" unfolding h by (rule takeWhile_notin)
  moreover have "slash \<notin> set auth" unfolding auth_def by (rule takeWhile_notin)
  then have "slash \<notin> set host" unfolding h by (auto dest: set_takeWhileD)
  moreover have "\<exists>t. path = slash # t"
  proof (cases "length auth < length a")
    case True
    have d: "drop (length auth) a = dropWhile (\<lambda>c. c \<noteq> slash) a" by (simp add: auth_def dropWhile_eq_drop)
    have "drop (length auth) a \<noteq> []" using True by simp
    then show ?thesis using True d hd_dropWhile [of "\<lambda>c. c \<noteq> slash" a]
      by (cases "dropWhile (\<lambda>c. c \<noteq> slash) a") (simp_all add: path_def)
  qed (simp add: path_def)
  moreover have "sch \<in> {''https'', ''http''}" "ho \<longrightarrow> sch = ''https''" using c(8) by (simp_all add: sch_def)
  ultimately have "canon_parts sch host pt path" using c unfolding canon_parts_def by blast
  with cu \<open>ho \<longrightarrow> sch = ''https''\<close> show ?thesis by blast
qed

lemma mcp_canon_of_parts:
  assumes "canon_parts sch host pt path" and "ho \<longrightarrow> sch = ''https''"
    and "cu = sch @ ''://'' @ host @ '':'' @ decimal pt @ path" and "length cu < n"
  shows "mcp_canon cu ho n = Some (cu, host, pt)"
proof -
  have s: "starts ''https://'' cu \<longleftrightarrow> sch = ''https''" "starts ''http://'' cu \<longleftrightarrow> sch = ''http''"
    using assms(1) by (auto simp: assms(3) starts_def canon_parts_def)
  have sch: "(if starts ''https://'' cu then ''https'' else ''http'') = sch"
    using assms(1) s by (auto simp: canon_parts_def)
  obtain t where t: "path = slash # t" using assms(1) by (auto simp: canon_parts_def)
  have a: "drop (length sch + 3) cu = host @ '':'' @ decimal pt @ path" by (simp add: assms(3))
  have "slash \<notin> set (decimal pt)" using decimal_digits [of pt] by (auto simp: list_all_iff isdigit_def byte_def)
  then have "\<forall>x \<in> set (host @ '':'' @ decimal pt). x \<noteq> slash" using assms(1) by (auto simp: canon_parts_def)
  then have auth: "takeWhile (\<lambda>c. c \<noteq> slash) (host @ '':'' @ decimal pt @ path) = host @ '':'' @ decimal pt"
    using takeWhile_append2 [of "host @ '':'' @ decimal pt" "\<lambda>c. c \<noteq> slash" path] by (simp add: t)
  have "\<forall>x \<in> set host. x \<noteq> CHR '':''" using assms(1) by (auto simp: canon_parts_def)
  then have host: "takeWhile (\<lambda>c. c \<noteq> CHR '':'') (host @ '':'' @ decimal pt) = host" by (simp add: takeWhile_append2)
  have p: "url_port (decimal pt) = Some pt" using url_port_decimal assms(1) by (simp add: canon_parts_def)
  show ?thesis
    unfolding mcp_canon_def Let_def sch a auth host
    using assms s p t by (auto simp: canon_parts_def)
qed

section \<open>The property\<close>

text \<open>C35. The canonical form of an MCP server's URL is canonical: reading it again gives it back, with its host and its
  port.\<close>

theorem mcp_canon_fixpoint:
  assumes "mcp_canon u https_only n = Some (cu, host, port)"
  shows "mcp_canon cu https_only n = Some (cu, host, port)"
  using mcp_canon_parts [OF assms] mcp_canon_of_parts by blast

theorem mcp_canon_fixpoint_witness:
  "mcp_canon ''https://a.b:443/'' True 4200 = Some (''https://a.b:443/'', ''a.b'', 443)"
proof (rule mcp_canon_fixpoint [of "''https://a.b''"])
  show "mcp_canon ''https://a.b'' True 4200 = Some (''https://a.b:443/'', ''a.b'', 443)"
    by (simp add: mcp_canon_def host_name_form_def mcp_segments_ok_def dot_segment_def starts_def ctype_defs byte_def
        decimal_def digits_rev.simps char_of_def bit_Suc_0_iff Let_def)
qed

end
