(* ===== verification/Vdp_Loops.thy ===== *)
theory Vdp_Loops
  imports Vdp_Checker
begin

text \<open>
  The enumeration loop of the symbolic check, \<open>vdpc_check_subj\<close> of
  \<^verbatim>\<open>src/varek/v1_4/checker/vdp_checker.c\<close>: it ends, after one pass over every subset of the flag bits the
  holding rules test.
\<close>

unbundle bit_operations_syntax

text \<open>One step after another, until the first error.\<close>

definition sym_pass :: "vdpc_policy \<Rightarrow> nat list \<Rightarrow> u32 list \<Rightarrow> int \<Rightarrow> string + int" where
  "sym_pass p hold ts d = foldl (\<lambda>r t. case r of Inl e \<Rightarrow> Inl e | Inr d \<Rightarrow> sym_step p hold t d) (Inr d) ts"

lemma foldl_Inl: "foldl (\<lambda>r t. case r of Inl e \<Rightarrow> Inl e | Inr d \<Rightarrow> f t d) (Inl e) ts = Inl e"
  by (induction ts) auto

lemma sym_pass_Nil: "sym_pass p hold [] d = Inr d"
  by (simp add: sym_pass_def)

lemma sym_pass_Cons:
  "sym_pass p hold (t # ts) d = (case sym_step p hold t d of Inl e \<Rightarrow> Inl e | Inr d \<Rightarrow> sym_pass p hold ts d)"
  by (cases "sym_step p hold t d") (simp_all add: sym_pass_def foldl_Inl)

lemma sym_loop_pass: "sym_loop p hold bits sub d = sym_pass p hold (subsets_from bits sub) d"
proof (induction bits sub arbitrary: d rule: subsets_from.induct)
  case (1 bits sub)
  show ?case
  proof (cases "sub = bits")
    case True
    then show ?thesis
      by (simp add: sym_loop.simps [of p hold bits bits d] subsets_from.simps [of bits bits] sym_pass_Cons sym_pass_Nil
          split: sum.splits)
  next
    case False
    then show ?thesis
      by (simp add: sym_loop.simps [of p hold bits sub d] subsets_from.simps [of bits sub] sym_pass_Cons 1 [OF False]
          split: sum.splits)
  qed
qed

lemma subsets_from_ordered:
  "sub AND bits = sub \<Longrightarrow> sorted_wrt (<) (subsets_from bits sub) \<and> (\<forall>t \<in> set (subsets_from bits sub). sub \<le> t)"
proof (induction bits sub rule: subsets_from.induct)
  case (1 bits sub)
  show ?case
  proof (cases "sub = bits")
    case True
    then show ?thesis by (simp add: subsets_from.simps [of bits bits])
  next
    case False
    have n: "((sub - bits) AND bits) AND bits = (sub - bits) AND bits" by (simp add: and.assoc)
    have "sub < (sub - bits) AND bits" using next_subset(1) [OF 1(2) False] .
    with 1(1) [OF False n] False show ?thesis
      by (auto simp: subsets_from.simps [of bits sub] intro: less_le_trans order.strict_implies_order)
  qed
qed

lemma subsets_distinct: "distinct (subsets_from bits 0)"
  using subsets_from_ordered [of 0 bits] by (simp add: strict_sorted_iff)

lemma card_submasks:
  fixes bits :: "'a::len word"
  shows "card {t. t AND bits = t} = 2 ^ card {n. bit bits n}"
proof -
  let ?f = "\<lambda>t :: 'a word. {n. bit t n}"
  have fin: "finite {n. bit bits n}"
    by (rule finite_subset [of _ "{..<LENGTH('a)}"]) (auto dest: bit_imp_le_length)
  have "bij_betw ?f {t. t AND bits = t} (Pow {n. bit bits n})"
  proof (rule bij_betw_imageI)
    show "inj_on ?f {t. t AND bits = t}" by (auto intro!: inj_onI bit_eqI)
    show "?f ` {t. t AND bits = t} = Pow {n. bit bits n}"
    proof (intro equalityI subsetI)
      fix S assume "S \<in> ?f ` {t. t AND bits = t}"
      then obtain t where "t AND bits = t" "S = ?f t" by blast
      then show "S \<in> Pow {n. bit bits n}" using bit_and_iff [of t bits] by auto
    next
      fix S assume S: "S \<in> Pow {n. bit bits n}"
      define t :: "'a word" where "t = horner_sum of_bool 2 (map (\<lambda>n. n \<in> S) [0..<LENGTH('a)])"
      have "bit t n \<longleftrightarrow> n < LENGTH('a) \<and> n \<in> S" for n by (auto simp: t_def bit_horner_sum_bit_iff)
      then have b: "bit t n \<longleftrightarrow> n \<in> S" for n using S bit_imp_le_length by blast
      then have "t AND bits = t" using S by (intro bit_eqI) (auto simp: bit_and_iff)
      moreover have "?f t = S" using b by auto
      ultimately show "S \<in> ?f ` {t. t AND bits = t}" by blast
    qed
  qed
  then show ?thesis using bij_betw_same_card card_Pow [OF fin] by metis
qed

section \<open>The property\<close>

text \<open>C34. The enumeration of flags values ends: it is one pass of the step over the subsets of the tested bits, each once
  and in increasing order, so a rule set that tests \<open>n\<close> bits costs at most \<open>2 ^ n\<close> steps.\<close>

theorem sym_loop_ends:
  "sym_loop p hold bits 0 d = sym_pass p hold (subsets_from bits 0) d \<and> sorted_wrt (<) (subsets_from bits 0) \<and>
    set (subsets_from bits 0) = {t. t AND bits = t} \<and> length (subsets_from bits 0) = 2 ^ card {n. bit bits n}"
  using sym_loop_pass subsets_from_ordered [of 0 bits] set_subsets [of bits] card_submasks [of bits]
    distinct_card [OF subsets_distinct [of bits]] by simp

end
