(* ===== verification/Proxy_Chunked.thy ===== *)
theory Proxy_Chunked
  imports C_Text
begin

text \<open>
  The chunked request body of the egress proxy, from \<^verbatim>\<open>src/varek/v1_4/proxy_parse.c\<close>
  (\<open>pp_chunked_feed\<close>): a machine that reads a body as it arrives and says where it ends. The model keeps
  the code's state and its loop, data taken in bulk included; the counters are numbers with the wrap-around
  of \<open>unsigned\<close> and \<open>uint64_t\<close> written out. What is shown: the loop is the machine that reads one byte at a
  time, so how the body is cut into reads does not matter; the counters never wrap; and the machine ends
  exactly on the bodies of the grammar of RFC 9112, section 7.1, within its bounds.
\<close>

section \<open>The machine\<close>

definition CR :: char where "CR = CHR 0x0D"
definition LF :: char where "LF = CHR 0x0A"
definition NUL :: char where "NUL = CHR 0x00"

datatype ck = CK_SIZE | CK_EXT | CK_SIZE_LF | CK_DATA | CK_DATA_CR | CK_DATA_LF | CK_TR_START | CK_TR_LINE
  | CK_TR_LF | CK_END_LF

record pp_chunked =
  ck_st :: ck
  ck_left :: nat
  ck_digits :: nat
  ck_line :: nat
  ck_lines :: nat

definition hexv :: "char \<Rightarrow> nat option" where
  "hexv c =
     (if 48 \<le> byte c \<and> byte c \<le> 57 then Some (byte c - 48)
      else if 97 \<le> byte c \<and> byte c \<le> 102 then Some (byte c - 97 + 10)
      else if 65 \<le> byte c \<and> byte c \<le> 70 then Some (byte c - 65 + 10)
      else None)"

definition inc32 :: "nat \<Rightarrow> nat" where
  "inc32 x = (x + 1) mod 2 ^ 32"

text \<open>The bytes still to be read, and how many were. \<^const>\<open>None\<close> is the code's \<open>-1\<close>; the flag is
  \<open>*done\<close>.\<close>

function ck_loop :: "pp_chunked \<Rightarrow> string \<Rightarrow> nat \<Rightarrow> (pp_chunked \<times> nat \<times> bool) option" where
  "ck_loop c [] i = Some (c, i, False)"
| "ck_loop c (b # s) i =
     (case ck_st c of
        CK_SIZE \<Rightarrow>
          (case hexv b of
             Some v \<Rightarrow>
               if inc32 (ck_digits c) > 15 then None
               else ck_loop (c\<lparr>ck_digits := inc32 (ck_digits c), ck_left := (ck_left c * 16 + v) mod 2 ^ 64\<rparr>) s (i + 1)
           | None \<Rightarrow>
               if ck_digits c = 0 then None
               else if b = CR then ck_loop (c\<lparr>ck_st := CK_SIZE_LF\<rparr>) s (i + 1)
               else if b = CHR '';'' \<or> b = CHR '' '' \<or> b = CHR 0x09 then
                 ck_loop (c\<lparr>ck_st := CK_EXT, ck_line := 0\<rparr>) s (i + 1)
               else None)
      | CK_EXT \<Rightarrow>
          if b = LF \<or> b = NUL then None
          else if b = CR then ck_loop (c\<lparr>ck_st := CK_SIZE_LF\<rparr>) s (i + 1)
          else if inc32 (ck_line c) > 4096 then None
          else ck_loop (c\<lparr>ck_line := inc32 (ck_line c)\<rparr>) s (i + 1)
      | CK_SIZE_LF \<Rightarrow>
          if b \<noteq> LF then None
          else ck_loop (c\<lparr>ck_digits := 0, ck_st := (if ck_left c \<noteq> 0 then CK_DATA else CK_TR_START)\<rparr>) s (i + 1)
      | CK_DATA \<Rightarrow>
          let n = length (b # s); k = (if n < ck_left c then n else ck_left c) in
          ck_loop (c\<lparr>ck_left := ck_left c - k, ck_st := (if ck_left c - k = 0 then CK_DATA_CR else CK_DATA)\<rparr>)
            (drop k (b # s)) (i + k)
      | CK_DATA_CR \<Rightarrow>
          if b \<noteq> CR then None else ck_loop (c\<lparr>ck_st := CK_DATA_LF\<rparr>) s (i + 1)
      | CK_DATA_LF \<Rightarrow>
          if b \<noteq> LF then None else ck_loop (c\<lparr>ck_st := CK_SIZE, ck_left := 0\<rparr>) s (i + 1)
      | CK_TR_START \<Rightarrow>
          if b = CR then ck_loop (c\<lparr>ck_st := CK_END_LF\<rparr>) s (i + 1)
          else if b = LF \<or> b = NUL \<or> inc32 (ck_lines c) > 64 then None
          else ck_loop (c\<lparr>ck_lines := inc32 (ck_lines c), ck_st := CK_TR_LINE, ck_line := 0\<rparr>) (b # s) i
      | CK_TR_LINE \<Rightarrow>
          if b = LF \<or> b = NUL then None
          else if b = CR then ck_loop (c\<lparr>ck_st := CK_TR_LF\<rparr>) s (i + 1)
          else if inc32 (ck_line c) > 4096 then None
          else ck_loop (c\<lparr>ck_line := inc32 (ck_line c)\<rparr>) s (i + 1)
      | CK_TR_LF \<Rightarrow>
          if b \<noteq> LF then None else ck_loop (c\<lparr>ck_st := CK_TR_START\<rparr>) s (i + 1)
      | CK_END_LF \<Rightarrow>
          if b \<noteq> LF then None else Some (c, i + 1, True))"
  by pat_completeness auto

termination
  by (relation "measures [\<lambda>(c, s, i). length s, \<lambda>(c, s, i). if ck_st c \<in> {CK_DATA, CK_TR_START} then 1 else 0]")
    (auto split: if_splits)

declare ck_loop.simps(2) [simp del]

definition pp_chunked_feed :: "pp_chunked \<Rightarrow> string \<Rightarrow> (pp_chunked \<times> nat \<times> bool) option" where
  "pp_chunked_feed c s = ck_loop c s 0"

definition ck_zero :: pp_chunked where
  "ck_zero = \<lparr>ck_st = CK_SIZE, ck_left = 0, ck_digits = 0, ck_line = 0, ck_lines = 0\<rparr>"

section \<open>One byte at a time\<close>

text \<open>The same machine as a step on one byte: the next state and whether the body ended, or
  \<^const>\<open>None\<close> for a malformed body.\<close>

definition ck_step :: "pp_chunked \<Rightarrow> char \<Rightarrow> (pp_chunked \<times> bool) option" where
  "ck_step c b =
     (case ck_st c of
        CK_SIZE \<Rightarrow>
          (case hexv b of
             Some v \<Rightarrow>
               if ck_digits c \<ge> 15 then None
               else Some (c\<lparr>ck_digits := ck_digits c + 1, ck_left := ck_left c * 16 + v\<rparr>, False)
           | None \<Rightarrow>
               if ck_digits c = 0 then None
               else if b = CR then Some (c\<lparr>ck_st := CK_SIZE_LF\<rparr>, False)
               else if b \<in> {CHR '';'', CHR '' '', CHR 0x09} then Some (c\<lparr>ck_st := CK_EXT, ck_line := 0\<rparr>, False)
               else None)
      | CK_EXT \<Rightarrow>
          if b \<in> {LF, NUL} then None
          else if b = CR then Some (c\<lparr>ck_st := CK_SIZE_LF\<rparr>, False)
          else if ck_line c \<ge> 4096 then None
          else Some (c\<lparr>ck_line := ck_line c + 1\<rparr>, False)
      | CK_SIZE_LF \<Rightarrow>
          if b \<noteq> LF then None
          else Some (c\<lparr>ck_digits := 0, ck_st := (if ck_left c \<noteq> 0 then CK_DATA else CK_TR_START)\<rparr>, False)
      | CK_DATA \<Rightarrow>
          Some (c\<lparr>ck_left := ck_left c - 1, ck_st := (if ck_left c = 1 then CK_DATA_CR else CK_DATA)\<rparr>, False)
      | CK_DATA_CR \<Rightarrow> if b \<noteq> CR then None else Some (c\<lparr>ck_st := CK_DATA_LF\<rparr>, False)
      | CK_DATA_LF \<Rightarrow> if b \<noteq> LF then None else Some (c\<lparr>ck_st := CK_SIZE, ck_left := 0\<rparr>, False)
      | CK_TR_START \<Rightarrow>
          if b = CR then Some (c\<lparr>ck_st := CK_END_LF\<rparr>, False)
          else if b \<in> {LF, NUL} \<or> ck_lines c \<ge> 64 then None
          else Some (c\<lparr>ck_lines := ck_lines c + 1, ck_st := CK_TR_LINE, ck_line := 1\<rparr>, False)
      | CK_TR_LINE \<Rightarrow>
          if b \<in> {LF, NUL} then None
          else if b = CR then Some (c\<lparr>ck_st := CK_TR_LF\<rparr>, False)
          else if ck_line c \<ge> 4096 then None
          else Some (c\<lparr>ck_line := ck_line c + 1\<rparr>, False)
      | CK_TR_LF \<Rightarrow> if b \<noteq> LF then None else Some (c\<lparr>ck_st := CK_TR_START\<rparr>, False)
      | CK_END_LF \<Rightarrow> if b \<noteq> LF then None else Some (c, True))"

fun ck_run :: "pp_chunked \<Rightarrow> string \<Rightarrow> nat \<Rightarrow> (pp_chunked \<times> nat \<times> bool) option" where
  "ck_run c [] i = Some (c, i, False)"
| "ck_run c (b # s) i =
     (case ck_step c b of
        None \<Rightarrow> None
      | Some (c', True) \<Rightarrow> Some (c', i + 1, True)
      | Some (c', False) \<Rightarrow> ck_run c' s (i + 1))"

text \<open>The bounds the counters keep, and the data state only while data is left.\<close>

definition ck_inv :: "pp_chunked \<Rightarrow> bool" where
  "ck_inv c \<longleftrightarrow> ck_digits c \<le> 15 \<and> ck_line c \<le> 4096 \<and> ck_lines c \<le> 64 \<and> ck_left c < 2 ^ 60 \<and>
     (ck_st c = CK_SIZE \<longrightarrow> ck_left c < 16 ^ ck_digits c) \<and> (ck_st c = CK_DATA \<longrightarrow> 0 < ck_left c)"

lemma ck_inv_zero: "ck_inv ck_zero"
  by (simp add: ck_inv_def ck_zero_def)

lemma hexv_less: "hexv b = Some v \<Longrightarrow> v < 16"
  by (auto simp: hexv_def split: if_splits)

lemma inc32_small: "x \<le> 4096 \<Longrightarrow> inc32 x = x + 1"
  by (simp add: inc32_def)

text \<open>A digit of a size keeps it below the power of sixteen of the digits so far.\<close>

lemma size_digit: "l < 16 ^ d \<Longrightarrow> v < 16 \<Longrightarrow> l * 16 + v < (16::nat) ^ Suc d"
proof -
  assume a: "l < 16 ^ d" "v < 16"
  then have "l * 16 + v < (l + 1) * 16" by simp
  also have "\<dots> \<le> 16 ^ d * 16" using a(1) by (intro mult_le_mono1) simp
  finally show ?thesis by simp
qed

lemma size_bound: "l < 16 ^ d \<Longrightarrow> d \<le> 15 \<Longrightarrow> l < (2::nat) ^ 60"
proof -
  assume a: "l < 16 ^ d" "d \<le> 15"
  have "(16::nat) ^ d \<le> 16 ^ 15" using a(2) by (intro power_increasing) simp_all
  with a(1) show ?thesis by simp
qed

lemma ck_step_inv:
  assumes c: "ck_inv c" and st: "ck_step c b = Some (c', e)"
  shows "ck_inv c'"
proof (cases "ck_st c")
  case CK_SIZE
  show ?thesis
  proof (cases "hexv b")
    case None
    then show ?thesis using c st CK_SIZE by (auto simp: ck_step_def ck_inv_def split: if_splits)
  next
    case (Some v)
    then have c': "c' = c\<lparr>ck_digits := ck_digits c + 1, ck_left := ck_left c * 16 + v\<rparr>" "ck_digits c < 15"
      using st CK_SIZE by (auto simp: ck_step_def split: if_splits)
    have "ck_left c * 16 + v < 16 ^ Suc (ck_digits c)"
      using size_digit hexv_less [OF Some] c CK_SIZE by (simp add: ck_inv_def)
    from this size_bound [OF this] show ?thesis using c c' CK_SIZE by (simp add: ck_inv_def)
  qed
qed (use c st in \<open>auto simp: ck_step_def ck_inv_def split: if_splits\<close>)

text \<open>Data taken in bulk is data taken byte by byte.\<close>

lemma ck_run_data:
  assumes "ck_st c = CK_DATA" "k \<le> length s" "k \<le> ck_left c" "0 < k"
  shows "ck_run c s i =
    ck_run (c\<lparr>ck_left := ck_left c - k, ck_st := (if ck_left c - k = 0 then CK_DATA_CR else CK_DATA)\<rparr>) (drop k s) (i + k)"
  using assms
proof (induction k arbitrary: c s i)
  case 0
  then show ?case by simp
next
  case (Suc k)
  obtain b s' where s: "s = b # s'" using Suc.prems(2) by (cases s) auto
  let ?c = "c\<lparr>ck_left := ck_left c - 1, ck_st := (if ck_left c = 1 then CK_DATA_CR else CK_DATA)\<rparr>"
  have step: "ck_run c s i = ck_run ?c s' (i + 1)" using Suc.prems(1) by (simp add: s ck_step_def)
  show ?case
  proof (cases "k = 0")
    case True
    then show ?thesis unfolding step using Suc.prems by (simp add: s)
  next
    case False
    then have "ck_st ?c = CK_DATA" "k \<le> length s'" "k \<le> ck_left ?c" "0 < k" using Suc.prems by (auto simp: s)
    from Suc.IH [OF this, of "i + 1"] show ?thesis unfolding step using False by (simp add: s)
  qed
qed

lemma ck_inv_counters:
  "ck_inv c \<Longrightarrow> inc32 (ck_digits c) = ck_digits c + 1"
  "ck_inv c \<Longrightarrow> inc32 (ck_line c) = ck_line c + 1"
  "ck_inv c \<Longrightarrow> inc32 (ck_lines c) = ck_lines c + 1"
  by (simp_all add: ck_inv_def inc32_small)

lemma ck_inv_left: "ck_inv c \<Longrightarrow> hexv b = Some v \<Longrightarrow> (ck_left c * 16 + v) mod 2 ^ 64 = ck_left c * 16 + v"
  using hexv_less [of b v] by (simp add: ck_inv_def)

text \<open>Except where data is taken in bulk, and before a trailer line, an iteration is a step.\<close>

lemma ck_loop_step:
  assumes "ck_inv c" and "ck_st c \<notin> {CK_DATA, CK_TR_START}"
  shows "ck_loop c (b # s) i =
    (case ck_step c b of
       None \<Rightarrow> None
     | Some (c', True) \<Rightarrow> Some (c', i + 1, True)
     | Some (c', False) \<Rightarrow> ck_loop c' s (i + 1))"
proof (cases "ck_st c = CK_SIZE")
  case True
  note facts = ck_inv_counters(1) [OF assms(1)] ck_inv_left [OF assms(1), of b]
  show ?thesis
  proof (cases "hexv b")
    case None
    then show ?thesis using True by (simp add: ck_loop.simps(2) [of c b s i] ck_step_def)
  next
    case (Some v)
    then show ?thesis using True facts by (simp add: ck_loop.simps(2) [of c b s i] ck_step_def not_less_eq_eq)
  qed
next
  case False
  then show ?thesis using assms(2) ck_inv_counters(2) [OF assms(1)]
    by (cases "ck_st c") (simp_all add: ck_loop.simps(2) [of c b s i] ck_step_def not_less_eq_eq)
qed

lemma ck_loop_line:
  "ck_st c = CK_TR_LINE \<Longrightarrow> ck_line c = 0 \<Longrightarrow> b \<notin> {CR, LF, NUL} \<Longrightarrow>
    ck_loop c (b # s) i = ck_loop (c\<lparr>ck_line := 1\<rparr>) s (i + 1)"
  by (simp add: ck_loop.simps(2) [of c b s i] inc32_def)

lemma ck_loop_trailer:
  assumes "ck_inv c" and "ck_st c = CK_TR_START"
  shows "ck_loop c (b # s) i =
    (case ck_step c b of
       None \<Rightarrow> None
     | Some (c', True) \<Rightarrow> Some (c', i + 1, True)
     | Some (c', False) \<Rightarrow> ck_loop c' s (i + 1))"
proof -
  have "b \<notin> {CR, LF, NUL} \<Longrightarrow>
      ck_loop (c\<lparr>ck_lines := Suc (ck_lines c), ck_st := CK_TR_LINE, ck_line := 0\<rparr>) (b # s) i =
      ck_loop (c\<lparr>ck_lines := Suc (ck_lines c), ck_st := CK_TR_LINE, ck_line := 1\<rparr>) s (i + 1)"
    by (subst ck_loop_line) simp_all
  then show ?thesis using assms(2) ck_inv_counters(3) [OF assms(1)]
    by (auto simp: ck_loop.simps(2) [of c b s i] ck_step_def not_less_eq_eq)
qed

lemma ck_loop_run: "ck_inv c \<Longrightarrow> ck_loop c s i = ck_run c s i"
proof (induction "length s" arbitrary: c s i rule: less_induct)
  case less
  show ?case
  proof (cases s)
    case Nil
    then show ?thesis by simp
  next
    case (Cons b s')
    show ?thesis
    proof (cases "ck_st c = CK_DATA")
      case True
      let ?k = "if length s < ck_left c then length s else ck_left c"
      let ?c = "c\<lparr>ck_left := ck_left c - ?k, ck_st := (if ck_left c - ?k = 0 then CK_DATA_CR else CK_DATA)\<rparr>"
      have k: "?k \<le> length s" "?k \<le> ck_left c" "0 < ?k" using less.prems True Cons by (auto simp: ck_inv_def)
      have "ck_loop c s i = ck_loop ?c (drop ?k s) (i + ?k)" using True by (simp add: Cons ck_loop.simps(2) [of c b s' i] Let_def)
      moreover have "ck_inv ?c" using less.prems by (auto simp: ck_inv_def True)
      then have "ck_loop ?c (drop ?k s) (i + ?k) = ck_run ?c (drop ?k s) (i + ?k)"
        using k by (intro less.hyps) simp_all
      ultimately show ?thesis using ck_run_data [OF True k] by simp
    next
      case False
      then have "ck_loop c s i =
          (case ck_step c b of None \<Rightarrow> None | Some (c', True) \<Rightarrow> Some (c', i + 1, True)
           | Some (c', False) \<Rightarrow> ck_loop c' s' (i + 1))"
        using ck_loop_step ck_loop_trailer less.prems unfolding Cons by (cases "ck_st c = CK_TR_START") simp_all
      also have "\<dots> = ck_run c s i"
        using less.hyps [of s'] ck_step_inv [OF less.prems] unfolding Cons
        by (auto split: option.split bool.split)
      finally show ?thesis .
    qed
  qed
qed

lemma ck_run_append:
  "ck_run c (s @ t) i =
    (case ck_run c s i of None \<Rightarrow> None | Some (c', k, True) \<Rightarrow> Some (c', k, True) | Some (c', k, False) \<Rightarrow> ck_run c' t k)"
  by (induction s arbitrary: c i) (auto split: option.split bool.split)

lemma ck_run_shift: "ck_run c s (i + j) = map_option (\<lambda>(c', k, d). (c', k + j, d)) (ck_run c s i)"
proof (induction s arbitrary: c i)
  case (Cons b s)
  show ?case using Cons [of _ "i + 1"] by (auto split: option.split bool.split)
qed simp

lemma ck_run_inv: "ck_inv c \<Longrightarrow> ck_run c s i = Some (c', k, d) \<Longrightarrow> ck_inv c'"
proof (induction s arbitrary: c i)
  case (Cons b s)
  from Cons.prems(2) consider (last) "ck_step c b = Some (c', True)"
    | (more) c1 where "ck_step c b = Some (c1, False)" "ck_run c1 s (i + 1) = Some (c', k, d)"
    by (auto split: option.splits bool.splits)
  then show ?case using ck_step_inv [OF Cons.prems(1)] Cons.IH by cases blast+
qed simp

lemma ck_run_length: "ck_run c s i = Some (c', k, d) \<Longrightarrow> i \<le> k \<and> k \<le> i + length s \<and> (\<not> d \<longrightarrow> k = i + length s)"
proof (induction s arbitrary: c i)
  case (Cons b s)
  then show ?case by (fastforce split: option.splits bool.splits)
qed simp

text \<open>A state the feed can be in.\<close>

inductive ck_reached :: "pp_chunked \<Rightarrow> bool" where
  zero: "ck_reached ck_zero"
| feed: "ck_reached c \<Longrightarrow> pp_chunked_feed c s = Some (c', k, d) \<Longrightarrow> ck_reached c'"

lemma ck_reached_inv: "ck_reached c \<Longrightarrow> ck_inv c"
proof (induction rule: ck_reached.induct)
  case (feed c s c' k d)
  then show ?case using ck_run_inv by (simp add: pp_chunked_feed_def ck_loop_run)
qed (simp add: ck_inv_zero)

lemma feed_run: "ck_reached c \<Longrightarrow> pp_chunked_feed c s = ck_run c s 0"
  by (simp add: pp_chunked_feed_def ck_loop_run ck_reached_inv)

section \<open>The grammar of a chunked body\<close>

definition crlf :: string where "crlf = [CR, LF]"

definition size_value :: "nat \<Rightarrow> string \<Rightarrow> nat" where
  "size_value v d = foldl (\<lambda>v c. v * 16 + the (hexv c)) v d"

definition hex :: "char \<Rightarrow> bool" where "hex c \<longleftrightarrow> hexv c \<noteq> None"

definition size_text :: "string \<Rightarrow> bool" where
  "size_text d \<longleftrightarrow> d \<noteq> [] \<and> length d \<le> 15 \<and> list_all hex d"

definition line_byte :: "char \<Rightarrow> bool" where
  "line_byte c \<longleftrightarrow> c \<noteq> CR \<and> c \<noteq> LF \<and> c \<noteq> NUL"

definition ext_text :: "string \<Rightarrow> bool" where
  "ext_text e \<longleftrightarrow>
     e = [] \<or> (hd e \<in> {CHR '';'', CHR '' '', CHR 0x09} \<and> length (tl e) \<le> 4096 \<and> list_all line_byte (tl e))"

definition trailer_text :: "string \<Rightarrow> bool" where
  "trailer_text t \<longleftrightarrow> t \<noteq> [] \<and> length t \<le> 4096 \<and> list_all line_byte t"

text \<open>A body: chunks with data, then a chunk of size zero, trailer lines and an empty line.\<close>

inductive chunked_body :: "string \<Rightarrow> bool" where
  last_chunk: "size_text d \<Longrightarrow> size_value 0 d = 0 \<Longrightarrow> ext_text e \<Longrightarrow> length ts \<le> 64 \<Longrightarrow> list_all trailer_text ts \<Longrightarrow>
    chunked_body (d @ e @ crlf @ concat (map (\<lambda>t. t @ crlf) ts) @ crlf)"
| data_chunk: "size_text d \<Longrightarrow> size_value 0 d = length x \<Longrightarrow> x \<noteq> [] \<Longrightarrow> ext_text e \<Longrightarrow> chunked_body r \<Longrightarrow>
    chunked_body (d @ e @ crlf @ x @ crlf @ r)"

text \<open>The machine ends with the last byte of a text.\<close>

fun ck_ends :: "pp_chunked \<Rightarrow> string \<Rightarrow> bool" where
  "ck_ends c [] \<longleftrightarrow> False"
| "ck_ends c (b # s) \<longleftrightarrow>
     (case ck_step c b of None \<Rightarrow> False | Some (c', True) \<Rightarrow> s = [] | Some (c', False) \<Rightarrow> ck_ends c' s)"

lemma ck_run_ends: "ck_ends c s \<Longrightarrow> \<exists>c'. ck_run c (s @ t) i = Some (c', i + length s, True)"
proof (induction s arbitrary: c i)
  case (Cons b s)
  then show ?case using Cons.IH [of _ "i + 1"] by (fastforce split: option.splits bool.splits)
qed simp

lemma ck_ends_run: "ck_run c s i = Some (c', i + n, True) \<Longrightarrow> n \<le> length s \<and> ck_ends c (take n s)"
proof (induction s arbitrary: c i n)
  case (Cons b s)
  from Cons.prems consider (last) "ck_step c b = Some (c', True)" "n = 1"
    | (more) c1 where "ck_step c b = Some (c1, False)" "ck_run c1 s (i + 1) = Some (c', i + n, True)"
    by (auto split: option.splits bool.splits)
  then show ?case
  proof cases
    case last
    then show ?thesis by simp
  next
    case more
    obtain m where m: "n = Suc m" using ck_run_length [OF more(2)] by (cases n) auto
    then show ?thesis using Cons.IH [of c1 "i + 1" m] more by simp
  qed
qed simp

section \<open>Each part of a body\<close>

lemma hex_marks [simp]: "\<not> hex CR" "\<not> hex LF" "\<not> hex (CHR '';'')" "\<not> hex (CHR '' '')" "\<not> hex (CHR 0x09)"
  by (simp_all add: hex_def hexv_def CR_def LF_def byte_def)

lemma crlf_distinct [simp]: "CR \<noteq> LF" "LF \<noteq> CR" "CR \<noteq> NUL" "LF \<noteq> NUL"
  by (simp_all add: CR_def LF_def NUL_def)

lemma ends_digits:
  "ck_st c = CK_SIZE \<Longrightarrow> ck_digits c \<le> 15 \<Longrightarrow> list_all hex d \<Longrightarrow>
    ck_ends c (d @ r) \<longleftrightarrow> ck_digits c + length d \<le> 15 \<and>
      ck_ends (c\<lparr>ck_digits := ck_digits c + length d, ck_left := size_value (ck_left c) d\<rparr>) r"
proof (induction d arbitrary: c)
  case Nil
  then show ?case by (simp add: size_value_def)
next
  case (Cons b d)
  obtain v where v: "hexv b = Some v" using Cons.prems(3) by (auto simp: hex_def)
  show ?case
  proof (cases "ck_digits c = 15")
    case True
    then show ?thesis using v Cons.prems(1) by (simp add: ck_step_def)
  next
    case False
    let ?c = "c\<lparr>ck_digits := ck_digits c + 1, ck_left := ck_left c * 16 + v\<rparr>"
    have "ck_step c b = Some (?c, False)" using v False Cons.prems(1,2) by (simp add: ck_step_def)
    then show ?thesis using Cons.IH [of ?c] Cons.prems False v by (simp add: size_value_def)
  qed
qed

lemma ends_ext:
  "ck_st c = CK_EXT \<Longrightarrow> ck_line c \<le> 4096 \<Longrightarrow> list_all line_byte e \<Longrightarrow>
    ck_ends c (e @ r) \<longleftrightarrow> ck_line c + length e \<le> 4096 \<and> ck_ends (c\<lparr>ck_line := ck_line c + length e\<rparr>) r"
proof (induction e arbitrary: c)
  case (Cons b e)
  then show ?case using Cons.IH [of "c\<lparr>ck_line := ck_line c + 1\<rparr>"]
    by (cases "ck_line c = 4096") (simp_all add: ck_step_def line_byte_def)
qed simp

lemma ends_line:
  "ck_st c = CK_TR_LINE \<Longrightarrow> ck_line c \<le> 4096 \<Longrightarrow> list_all line_byte e \<Longrightarrow>
    ck_ends c (e @ r) \<longleftrightarrow> ck_line c + length e \<le> 4096 \<and> ck_ends (c\<lparr>ck_line := ck_line c + length e\<rparr>) r"
proof (induction e arbitrary: c)
  case (Cons b e)
  then show ?case using Cons.IH [of "c\<lparr>ck_line := ck_line c + 1\<rparr>"]
    by (cases "ck_line c = 4096") (simp_all add: ck_step_def line_byte_def)
qed simp

lemma ends_data:
  "ck_st c = CK_DATA \<Longrightarrow> ck_left c = length x \<Longrightarrow> x \<noteq> [] \<Longrightarrow>
    ck_ends c (x @ r) \<longleftrightarrow> ck_ends (c\<lparr>ck_left := 0, ck_st := CK_DATA_CR\<rparr>) r"
proof (induction x arbitrary: c)
  case (Cons b x)
  then show ?case using Cons.IH [of "c\<lparr>ck_left := length x\<rparr>"]
    by (cases "x = []") (simp_all add: ck_step_def)
qed simp

lemma ends_data_length: "ck_ends c s \<Longrightarrow> ck_st c = CK_DATA \<Longrightarrow> ck_left c \<le> length s"
proof (induction s arbitrary: c)
  case (Cons b s)
  show ?case
  proof (cases "ck_left c \<le> 1")
    case False
    then have "ck_ends (c\<lparr>ck_left := ck_left c - 1, ck_st := CK_DATA\<rparr>) s" using Cons.prems by (simp add: ck_step_def)
    from Cons.IH [OF this] show ?thesis by simp
  qed simp
qed simp

lemma ends_crlf:
  "ck_st c = CK_SIZE \<Longrightarrow> ck_digits c \<noteq> 0 \<Longrightarrow> ck_ends c (crlf @ r) \<longleftrightarrow>
    ck_ends (c\<lparr>ck_digits := 0, ck_st := (if ck_left c \<noteq> 0 then CK_DATA else CK_TR_START)\<rparr>) r"
  "ck_st c = CK_EXT \<Longrightarrow> ck_ends c (crlf @ r) \<longleftrightarrow>
    ck_ends (c\<lparr>ck_digits := 0, ck_st := (if ck_left c \<noteq> 0 then CK_DATA else CK_TR_START)\<rparr>) r"
  "ck_st c = CK_DATA_CR \<Longrightarrow> ck_ends c (crlf @ r) \<longleftrightarrow> ck_ends (c\<lparr>ck_st := CK_SIZE, ck_left := 0\<rparr>) r"
  "ck_st c = CK_TR_LINE \<Longrightarrow> ck_ends c (crlf @ r) \<longleftrightarrow> ck_ends (c\<lparr>ck_st := CK_TR_START\<rparr>) r"
  "ck_st c = CK_TR_START \<Longrightarrow> ck_ends c crlf"
  using hex_marks(1) by (simp_all add: crlf_def ck_step_def hex_def)

text \<open>After the digits: an extension or none, then the line's end.\<close>

lemma ends_ext_text:
  assumes "ck_st c = CK_SIZE" "ck_digits c \<noteq> 0" "ext_text e"
  shows "\<exists>l. ck_ends c (e @ crlf @ r) \<longleftrightarrow>
    ck_ends (c\<lparr>ck_line := l, ck_digits := 0, ck_st := (if ck_left c \<noteq> 0 then CK_DATA else CK_TR_START)\<rparr>) r"
proof (cases e)
  case Nil
  then show ?thesis using assms ends_crlf(1) by (intro exI [of _ "ck_line c"]) simp
next
  case (Cons b e')
  let ?c = "c\<lparr>ck_st := CK_EXT, ck_line := 0\<rparr>"
  have b: "b \<in> {CHR '';'', CHR '' '', CHR 0x09}" "length e' \<le> 4096" "list_all line_byte e'"
    using assms(3) by (auto simp: ext_text_def Cons)
  then have "hexv b = None" "b \<noteq> CR" using hex_marks by (auto simp: hex_def CR_def)
  then have "ck_ends c (e @ crlf @ r) \<longleftrightarrow> ck_ends ?c (e' @ crlf @ r)"
    using assms(1,2) b(1) by (simp add: Cons ck_step_def)
  also have "\<dots> \<longleftrightarrow> ck_ends (?c\<lparr>ck_line := length e'\<rparr>) (crlf @ r)" using ends_ext [of ?c e' "crlf @ r"] b by simp
  also have "\<dots> \<longleftrightarrow>
      ck_ends (c\<lparr>ck_line := length e', ck_digits := 0, ck_st := (if ck_left c \<noteq> 0 then CK_DATA else CK_TR_START)\<rparr>) r"
    by (subst ends_crlf(2)) simp_all
  finally show ?thesis by blast
qed

lemma ends_trailer_text:
  assumes "ck_st c = CK_TR_START" "trailer_text t"
  shows "\<exists>l. ck_ends c (t @ crlf @ r) \<longleftrightarrow>
    ck_lines c < 64 \<and> ck_ends (c\<lparr>ck_lines := ck_lines c + 1, ck_line := l, ck_st := CK_TR_START\<rparr>) r"
proof -
  obtain b t' where t: "t = b # t'" "line_byte b" "length t' \<le> 4095" "list_all line_byte t'"
    using assms(2) by (cases t) (auto simp: trailer_text_def)
  let ?c = "c\<lparr>ck_lines := ck_lines c + 1, ck_st := CK_TR_LINE, ck_line := 1\<rparr>"
  have "ck_ends c (t @ crlf @ r) \<longleftrightarrow> ck_lines c < 64 \<and> ck_ends ?c (t' @ crlf @ r)"
    using assms(1) t(2) by (simp add: t(1) ck_step_def line_byte_def)
  also have "ck_ends ?c (t' @ crlf @ r) \<longleftrightarrow> ck_ends (?c\<lparr>ck_line := 1 + length t'\<rparr>) (crlf @ r)"
    using ends_line [of ?c t' "crlf @ r"] t(3,4) by simp
  also have "\<dots> \<longleftrightarrow> ck_ends (c\<lparr>ck_lines := ck_lines c + 1, ck_line := 1 + length t', ck_st := CK_TR_START\<rparr>) r"
    by (subst ends_crlf(4)) simp_all
  finally show ?thesis by blast
qed

section \<open>The bodies of the grammar end the machine\<close>

definition size_start :: "pp_chunked \<Rightarrow> bool" where
  "size_start c \<longleftrightarrow> ck_st c = CK_SIZE \<and> ck_digits c = 0 \<and> ck_left c = 0 \<and> ck_lines c = 0"

lemma size_start_zero [simp]: "size_start ck_zero"
  by (simp add: size_start_def ck_zero_def)

lemma ends_trailers:
  "ck_st c = CK_TR_START \<Longrightarrow> ck_lines c + length ts \<le> 64 \<Longrightarrow> list_all trailer_text ts \<Longrightarrow>
    ck_ends c (concat (map (\<lambda>t. t @ crlf) ts) @ crlf)"
proof (induction ts arbitrary: c)
  case Nil
  then show ?case using ends_crlf(5) by simp
next
  case (Cons t ts)
  let ?r = "concat (map (\<lambda>t. t @ crlf) ts) @ crlf"
  obtain l where "ck_ends c (t @ crlf @ ?r) \<longleftrightarrow>
      ck_lines c < 64 \<and> ck_ends (c\<lparr>ck_lines := ck_lines c + 1, ck_line := l, ck_st := CK_TR_START\<rparr>) ?r"
    using ends_trailer_text [OF Cons.prems(1), of t ?r] Cons.prems(3) by auto
  then show ?case using Cons by simp
qed

text \<open>A chunk's head, from the start of its size.\<close>

lemma ends_head:
  assumes "size_start c" "size_text d" "ext_text e"
  shows "\<exists>l. ck_ends c (d @ e @ crlf @ r) \<longleftrightarrow>
    ck_ends (c\<lparr>ck_left := size_value 0 d, ck_line := l, ck_digits := 0,
      ck_st := (if size_value 0 d \<noteq> 0 then CK_DATA else CK_TR_START)\<rparr>) r"
proof -
  let ?c = "c\<lparr>ck_digits := length d, ck_left := size_value 0 d\<rparr>"
  have d: "d \<noteq> []" "length d \<le> 15" "list_all hex d" using assms(2) by (auto simp: size_text_def)
  have "ck_ends c (d @ e @ crlf @ r) \<longleftrightarrow> ck_ends ?c (e @ crlf @ r)"
    using ends_digits [of c d "e @ crlf @ r"] assms(1) d by (simp add: size_start_def)
  moreover obtain l where "ck_ends ?c (e @ crlf @ r) \<longleftrightarrow>
      ck_ends (?c\<lparr>ck_line := l, ck_digits := 0, ck_st := (if ck_left ?c \<noteq> 0 then CK_DATA else CK_TR_START)\<rparr>) r"
    using ends_ext_text [of ?c e r] assms(1,3) d(1) by (auto simp: size_start_def)
  ultimately show ?thesis by (intro exI [of _ l]) simp
qed

lemma ends_data_chunk:
  assumes "ck_st c = CK_DATA" "ck_left c = length x" "x \<noteq> []"
  shows "ck_ends c (x @ crlf @ r) \<longleftrightarrow> ck_ends (c\<lparr>ck_st := CK_SIZE, ck_left := 0\<rparr>) r"
proof -
  have "ck_ends c (x @ crlf @ r) \<longleftrightarrow> ck_ends (c\<lparr>ck_left := 0, ck_st := CK_DATA_CR\<rparr>) (crlf @ r)"
    using ends_data [OF assms, of "crlf @ r"] .
  also have "\<dots> \<longleftrightarrow> ck_ends (c\<lparr>ck_st := CK_SIZE, ck_left := 0\<rparr>) r" by (subst ends_crlf(3)) simp_all
  finally show ?thesis .
qed

lemma body_ends: "chunked_body s \<Longrightarrow> size_start c \<Longrightarrow> ck_ends c s"
proof (induction arbitrary: c rule: chunked_body.induct)
  case (last_chunk d e ts)
  let ?r = "concat (map (\<lambda>t. t @ crlf) ts) @ crlf"
  obtain l where "ck_ends c (d @ e @ crlf @ ?r) \<longleftrightarrow>
      ck_ends (c\<lparr>ck_left := 0, ck_line := l, ck_digits := 0, ck_st := CK_TR_START\<rparr>) ?r"
    using ends_head [OF last_chunk(6,1,3), of ?r] last_chunk(2) by auto
  then show ?case using ends_trailers last_chunk by (simp add: size_start_def)
next
  case (data_chunk d x e r)
  obtain l where "ck_ends c (d @ e @ crlf @ x @ crlf @ r) \<longleftrightarrow>
      ck_ends (c\<lparr>ck_left := length x, ck_line := l, ck_digits := 0, ck_st := CK_DATA\<rparr>) (x @ crlf @ r)"
    using ends_head [OF data_chunk(7,1,4), of "x @ crlf @ r"] data_chunk(2,3) by auto
  then show ?case using ends_data_chunk data_chunk by (simp add: size_start_def)
qed

section \<open>The machine ends on bodies of the grammar only\<close>

text \<open>Where a run of bytes stops, only the end of the line can follow.\<close>

lemma line_stop:
  assumes "ck_ends c r" "ck_st c \<in> {CK_EXT, CK_TR_LINE}" "r = [] \<or> \<not> line_byte (hd r)"
  shows "\<exists>r'. r = crlf @ r'"
proof -
  obtain b r1 where r: "r = b # r1" using assms(1) by (cases r) auto
  then have b: "b = CR" using assms by (auto simp: ck_step_def line_byte_def)
  then obtain r2 where "r1 = LF # r2" using assms(1,2) r by (cases r1) (auto simp: ck_step_def split: if_splits)
  then show ?thesis using r b by (auto simp: crlf_def)
qed

lemma takeWhile_stop: "\<exists>r. s = takeWhile P s @ r \<and> (r = [] \<or> \<not> P (hd r))"
  by (rule exI [of _ "dropWhile P s"]) (metis takeWhile_dropWhile_id hd_dropWhile)

lemma list_all_takeWhile [simp]: "list_all P (takeWhile P s)"
  by (induction s) auto

lemma ends_trailers_only:
  "ck_ends c s \<Longrightarrow> ck_st c = CK_TR_START \<Longrightarrow> ck_lines c \<le> 64 \<Longrightarrow>
    \<exists>ts. s = concat (map (\<lambda>t. t @ crlf) ts) @ crlf \<and> ck_lines c + length ts \<le> 64 \<and> list_all trailer_text ts"
proof (induction "length s" arbitrary: c s rule: less_induct)
  case less
  obtain b s' where s: "s = b # s'" using less.prems(1) by (cases s) auto
  show ?case
  proof (cases "b = CR")
    case True
    then have "ck_ends (c\<lparr>ck_st := CK_END_LF\<rparr>) s'" using less.prems by (simp add: s ck_step_def)
    then have "s' = [LF]" by (cases s') (auto simp: ck_step_def split: if_splits)
    then show ?thesis using True less.prems(3) by (intro exI [of _ "[]"]) (simp add: s crlf_def)
  next
    case False
    let ?c = "c\<lparr>ck_lines := ck_lines c + 1, ck_st := CK_TR_LINE, ck_line := 1\<rparr>"
    let ?t = "takeWhile line_byte s'"
    from False have b: "line_byte b" "ck_lines c < 64" "ck_ends ?c s'"
      using less.prems by (auto simp: s ck_step_def line_byte_def split: if_splits)
    obtain r where r: "s' = ?t @ r" "r = [] \<or> \<not> line_byte (hd r)" using takeWhile_stop by blast
    then have t: "1 + length ?t \<le> 4096" "ck_ends (?c\<lparr>ck_line := 1 + length ?t\<rparr>) r"
      using ends_line [of ?c ?t r] b(3) by auto
    from line_stop [OF t(2) _ r(2)] obtain r' where r': "r = crlf @ r'" by auto
    have tt: "trailer_text (b # ?t)" using b(1) t(1) by (simp add: trailer_text_def)
    have s_eq: "s = (b # ?t) @ crlf @ r'" using s r(1) r' by simp
    obtain l where "ck_ends (c\<lparr>ck_lines := ck_lines c + 1, ck_line := l, ck_st := CK_TR_START\<rparr>) r'"
      using ends_trailer_text [OF less.prems(2) tt, of r'] less.prems(1) s_eq by auto
    moreover have "length r' < length s" using arg_cong [OF s_eq, of length] by simp
    ultimately obtain ts where "r' = concat (map (\<lambda>t. t @ crlf) ts) @ crlf" "ck_lines c + 1 + length ts \<le> 64"
        "list_all trailer_text ts"
      using less.hyps [of r' "c\<lparr>ck_lines := ck_lines c + 1, ck_line := l, ck_st := CK_TR_START\<rparr>"] b(2) by auto
    then show ?thesis using s_eq tt by (intro exI [of _ "(b # ?t) # ts"]) simp
  qed
qed

text \<open>The head of a chunk.\<close>

lemma ends_head_only:
  assumes c: "size_start c" and e: "ck_ends c s"
  shows "\<exists>d e r. s = d @ e @ crlf @ r \<and> size_text d \<and> ext_text e"
proof -
  let ?d = "takeWhile hex s"
  obtain r where r: "s = ?d @ r" "r = [] \<or> \<not> hex (hd r)" using takeWhile_stop by blast
  let ?c = "c\<lparr>ck_digits := length ?d, ck_left := size_value 0 ?d\<rparr>"
  have d: "length ?d \<le> 15" "ck_ends ?c r" using ends_digits [of c ?d r] c e r(1) by (auto simp: size_start_def)
  obtain b r1 where b: "r = b # r1" using d(2) by (cases r) auto
  have "hexv b = None" using r(2) b by (simp add: hex_def)
  then have "?d \<noteq> []" using d(2) c by (auto simp: b ck_step_def size_start_def)
  then have st: "size_text ?d" using d(1) by (simp add: size_text_def)
  show ?thesis
  proof (cases "b = CR")
    case True
    then have "ck_ends (?c\<lparr>ck_st := CK_SIZE_LF\<rparr>) r1"
      using d(2) \<open>hexv b = None\<close> c by (simp add: b ck_step_def size_start_def split: if_splits)
    then obtain r2 where "r1 = LF # r2" by (cases r1) (auto simp: ck_step_def split: if_splits)
    then have "s = ?d @ [] @ crlf @ r2" using r(1) b True by (simp add: crlf_def)
    moreover have "ext_text []" by (simp add: ext_text_def)
    ultimately show ?thesis using st by blast
  next
    case False
    let ?e = "takeWhile line_byte r1"
    let ?x = "?c\<lparr>ck_st := CK_EXT, ck_line := 0\<rparr>"
    from False have m: "b \<in> {CHR '';'', CHR '' '', CHR 0x09}" "ck_ends ?x r1"
      using d(2) \<open>hexv b = None\<close> c by (auto simp: b ck_step_def size_start_def split: if_splits)
    obtain r2 where r2: "r1 = ?e @ r2" "r2 = [] \<or> \<not> line_byte (hd r2)" using takeWhile_stop by blast
    then have l: "length ?e \<le> 4096" "ck_ends (?x\<lparr>ck_line := length ?e\<rparr>) r2"
      using ends_ext [of ?x ?e r2] m(2) by auto
    from line_stop [OF l(2) _ r2(2)] obtain r3 where "r2 = crlf @ r3" by auto
    then have "s = ?d @ (b # ?e) @ crlf @ r3" using r(1) b r2(1) by simp
    moreover have "ext_text (b # ?e)" using m(1) l(1) by (simp add: ext_text_def)
    ultimately show ?thesis using st by blast
  qed
qed

lemma ends_body: "size_start c \<Longrightarrow> ck_ends c s \<Longrightarrow> chunked_body s"
proof (induction "length s" arbitrary: c s rule: less_induct)
  case less
  obtain d e r where s: "s = d @ e @ crlf @ r" and t: "size_text d" "ext_text e"
    using ends_head_only [OF less.prems] by blast
  let ?c = "\<lambda>l. c\<lparr>ck_left := size_value 0 d, ck_line := l, ck_digits := 0,
      ck_st := (if size_value 0 d \<noteq> 0 then CK_DATA else CK_TR_START)\<rparr>"
  obtain l where l: "ck_ends (?c l) r" using ends_head [OF less.prems(1) t, of r] less.prems(2) s by auto
  show ?case
  proof (cases "size_value 0 d = 0")
    case True
    then obtain ts where "r = concat (map (\<lambda>t. t @ crlf) ts) @ crlf" "length ts \<le> 64" "list_all trailer_text ts"
      using ends_trailers_only [OF l] less.prems(1) by (auto simp: size_start_def)
    then show ?thesis using chunked_body.last_chunk [OF t(1) True t(2)] s by simp
  next
    case False
    let ?n = "size_value 0 d"
    have n: "?n \<le> length r" using ends_data_length [OF l] False by simp
    define x where "x = take ?n r"
    have x: "length x = ?n" "x \<noteq> []" "r = x @ drop ?n r" using n False by (auto simp: x_def)
    have dcr: "ck_ends (?c l\<lparr>ck_left := 0, ck_st := CK_DATA_CR\<rparr>) (drop ?n r)"
      using ends_data [of "?c l" x "drop ?n r"] l x False by simp
    then obtain r' where r': "drop ?n r = crlf @ r'"
      by (cases "drop ?n r"; cases "tl (drop ?n r)") (auto simp: ck_step_def crlf_def split: if_splits)
    then have "r = x @ crlf @ r'" using x(3) by simp
    then have s_eq: "s = d @ e @ crlf @ x @ crlf @ r'" using s by simp
    have "ck_ends (?c l\<lparr>ck_st := CK_SIZE, ck_left := 0\<rparr>) r'"
      using ends_data_chunk [of "?c l" x r'] l x False \<open>r = x @ crlf @ r'\<close> by simp
    moreover have "size_start (?c l\<lparr>ck_st := CK_SIZE, ck_left := 0\<rparr>)" using less.prems(1) by (simp add: size_start_def)
    moreover have "length r' < length s" using arg_cong [OF s_eq, of length] by (simp add: crlf_def)
    ultimately have "chunked_body r'" using less.hyps by blast
    then show ?thesis using chunked_body.data_chunk [OF t(1) _ x(2) t(2), of r'] x(1) s_eq by simp
  qed
qed

section \<open>A body read as it arrives\<close>

text \<open>The proxy's use: each read is fed to the machine until the body ends. The bytes of the body read, and
  whether it ended.\<close>

fun feed_reads :: "pp_chunked \<Rightarrow> string list \<Rightarrow> nat \<Rightarrow> (nat \<times> bool) option" where
  "feed_reads c [] n = Some (n, False)"
| "feed_reads c (s # ss) n =
     (case pp_chunked_feed c s of
        None \<Rightarrow> None
      | Some (c', k, True) \<Rightarrow> Some (n + k, True)
      | Some (c', k, False) \<Rightarrow> feed_reads c' ss (n + k))"

lemma feed_reads_run: "ck_inv c \<Longrightarrow> feed_reads c ss n = map_option (\<lambda>(c', k, d). (k, d)) (ck_run c (concat ss) n)"
proof (induction ss arbitrary: c n)
  case (Cons s ss)
  have f: "pp_chunked_feed c s = ck_run c s 0" using Cons.prems by (simp add: pp_chunked_feed_def ck_loop_run)
  have r: "ck_run c s n = map_option (\<lambda>(c', k, d). (c', k + n, d)) (ck_run c s 0)" using ck_run_shift [of c s 0 n] by simp
  show ?case
  proof (cases "ck_run c s 0")
    case None
    then show ?thesis using f r by (simp add: ck_run_append)
  next
    case (Some x)
    obtain c' k d where x: "x = (c', k, d)" by (cases x)
    then have "ck_inv c'" using ck_run_inv Cons.prems Some by blast
    then show ?thesis using f r Some x Cons.IH [of c' "k + n"] by (cases d) (simp_all add: ck_run_append add.commute)
  qed
qed simp

lemma chunked_end_exact: "(\<exists>c. ck_run ck_zero s 0 = Some (c, n, True)) \<longleftrightarrow> n \<le> length s \<and> chunked_body (take n s)"
proof
  assume "\<exists>c. ck_run ck_zero s 0 = Some (c, n, True)"
  then show "n \<le> length s \<and> chunked_body (take n s)"
    using ck_ends_run [of ck_zero s 0 _ n] ends_body [OF size_start_zero] by auto
next
  assume a: "n \<le> length s \<and> chunked_body (take n s)"
  then show "\<exists>c. ck_run ck_zero s 0 = Some (c, n, True)"
    using ck_run_ends [OF body_ends [OF _ size_start_zero], of "take n s" "drop n s" 0] by simp
qed

text \<open>However the bytes of a connection are cut into reads, the chunked machine reports the end of the body
  after \<open>n\<close> bytes exactly when the first \<open>n\<close> bytes are a chunked body of RFC 9112: sizes of one to
  fifteen hexadecimal digits, extensions and trailer lines within 4 KB, 64 trailer lines at most.\<close>

theorem chunked_reads_exact:
  "feed_reads ck_zero reads 0 = Some (n, True) \<longleftrightarrow>
     n \<le> length (concat reads) \<and> chunked_body (take n (concat reads))"
  unfolding chunked_end_exact [symmetric] feed_reads_run [OF ck_inv_zero] by (auto simp: image_iff)

text \<open>Whatever was fed so far, the counters of the machine never wrap: at most 15 digits, 64 trailer lines and
  4,096 bytes in a line, and the size of a chunk stays below \<open>2 ^ 60\<close>; and a read that neither ends
  nor breaks the body is taken whole.\<close>

theorem chunked_counters_bounded:
  assumes "ck_reached c" and "pp_chunked_feed c s = Some (c', n, d)"
  shows "ck_digits c' \<le> 15 \<and> ck_line c' \<le> 4096 \<and> ck_lines c' \<le> 64 \<and> ck_left c' < 2 ^ 60 \<and>
    n \<le> length s \<and> (\<not> d \<longrightarrow> n = length s)"
proof -
  have "ck_inv c'" using ck_reached.feed [OF assms] ck_reached_inv by blast
  moreover have "n \<le> length s \<and> (\<not> d \<longrightarrow> n = length s)"
    using ck_run_length assms(2) unfolding feed_run [OF assms(1)] by fastforce
  ultimately show ?thesis by (simp add: ck_inv_def)
qed

lemma sample_feed:
  "pp_chunked_feed ck_zero (''a;x'' @ crlf @ ''0123'') =
    Some (\<lparr>ck_st = CK_DATA, ck_left = 6, ck_digits = 0, ck_line = 1, ck_lines = 0\<rparr>, 9, False)"
  by (simp add: pp_chunked_feed_def ck_zero_def ck_loop.simps(2) crlf_def CR_def LF_def NUL_def hexv_def byte_def
      inc32_def)

theorem chunked_counters_bounded_witness: "ck_reached ck_zero \<and> (6::nat) < 2 ^ 60"
  using chunked_counters_bounded [OF ck_reached.zero sample_feed] ck_reached.zero by simp

end
