(* ===== verification/Proxy_Head.thy ===== *)
theory Proxy_Head
  imports Proxy_Chunked Vdp_Names "HOL-Library.Monad_Syntax"
begin

text \<open>
  The parts of an HTTP head the egress proxy reads, from \<^verbatim>\<open>src/varek/v1_4/proxy_parse.c\<close>: host names
  (\<open>name_ok\<close>), authorities, the end of the head, the request line, the Host header and the framing of the
  body. A pointer into the input and a length are a list of bytes; a scan the code leaves unbounded (\<open>while
  (in[i] != '\r') i++\<close>) returns \<^const>\<open>None\<close> when it would leave the input, so that a theorem that the
  parser returns \<^term>\<open>Some x\<close> includes that it touches only the bytes given.
\<close>

definition PP_TLS_MAX :: nat where "PP_TLS_MAX = 16384"
definition PP_TLS_RECORDS :: nat where "PP_TLS_RECORDS = 64"
definition PP_HTTP_MAX :: nat where "PP_HTTP_MAX = 8192"
definition PP_IN_MAX :: nat where "PP_IN_MAX = PP_HTTP_MAX + PP_TLS_MAX + 5 * PP_TLS_RECORDS"
definition PP_NAME_MAX :: nat where "PP_NAME_MAX = 253"
definition PP_METHOD_MAX :: nat where "PP_METHOD_MAX = 20"
definition PP_OBJ_MAX :: nat where "PP_OBJ_MAX = 4095"

lemmas pp_limits = PP_TLS_MAX_def PP_TLS_RECORDS_def PP_HTTP_MAX_def PP_IN_MAX_def PP_NAME_MAX_def
  PP_METHOD_MAX_def PP_OBJ_MAX_def

datatype pp_status = PP_MORE | PP_OK | PP_ACK | PP_REFUSE

datatype pp_kind = PP_KIND_NONE | PP_KIND_TLS | PP_KIND_HTTP | PP_KIND_CONNECT

datatype pp_body = PP_BODY_NONE | PP_BODY_LENGTH | PP_BODY_CHUNKED

text \<open>A refused name leaves in the result what was written of it.\<close>

record pp_result =
  pp_kind :: pp_kind
  pp_name :: string
  pp_port :: nat
  pp_connect_len :: nat
  pp_why :: "string option"
  pp_head_len :: nat
  pp_body :: pp_body
  pp_body_len :: nat

definition pp_zero :: pp_result where
  "pp_zero = \<lparr>pp_kind = PP_KIND_NONE, pp_name = [], pp_port = 0, pp_connect_len = 0, pp_why = None, pp_head_len = 0,
     pp_body = PP_BODY_NONE, pp_body_len = 0\<rparr>"

text \<open>An answer of a parser, \<^const>\<open>None\<close> where it would read outside its input.\<close>

type_synonym pp_answer = "(pp_status \<times> pp_result) option"

definition refuse :: "pp_result \<Rightarrow> string \<Rightarrow> pp_answer" where
  "refuse r why = Some (PP_REFUSE, r\<lparr>pp_why := Some why\<rparr>)"

definition pp_kind_name :: "pp_kind \<Rightarrow> string" where
  "pp_kind_name k =
     (case k of PP_KIND_TLS \<Rightarrow> ''tls'' | PP_KIND_HTTP \<Rightarrow> ''http'' | PP_KIND_CONNECT \<Rightarrow> ''connect'' | PP_KIND_NONE \<Rightarrow> ''none'')"

section \<open>Host names\<close>

text \<open>The labels of a name, from the byte before, the length of the label so far and whether it is all digits:
  whether the name is valid, and what is written to the output.\<close>

fun name_labels :: "char \<Rightarrow> nat \<Rightarrow> bool \<Rightarrow> string \<Rightarrow> bool \<times> string" where
  "name_labels prev lab digits [] = (\<not> (lab = 0 \<or> prev = CHR ''-'' \<or> digits), [])"
| "name_labels prev lab digits (c # s) =
     (if c = CHR ''.'' then
        (if lab = 0 \<or> prev = CHR ''-'' then (False, [])
         else let (ok, out) = name_labels c 0 True s in (ok, CHR ''.'' # out))
      else
        let b = (if isupper c then char_of (byte c + 32) else c); d = isdigit b in
        if \<not> (d \<or> islower b \<or> b = CHR ''-'') then (False, [])
        else if b = CHR ''-'' \<and> lab = 0 then (False, [])
        else if lab + 1 > 63 then (False, [])
        else let (ok, out) = name_labels c (lab + 1) (digits \<and> d) s in (ok, b # out))"

definition name_ok :: "string \<Rightarrow> bool \<Rightarrow> bool \<times> string" where
  "name_ok s dot_ok =
     (let s = (if s \<noteq> [] \<and> last s = CHR ''.'' \<and> dot_ok then butlast s else s) in
      if s = [] \<or> length s > PP_NAME_MAX then (False, []) else name_labels NUL 0 True s)"

section \<open>Authorities\<close>

text \<open>\<open>host[:port]\<close>: whether it is valid, the name written and the port, 0 for none.\<close>

definition authority :: "string \<Rightarrow> bool \<times> string \<times> nat" where
  "authority s =
     (let p = rev (takeWhile (\<lambda>c. c \<noteq> CHR '':'') (rev s)) in
      if length p = length s then (let (ok, nm) = name_ok s True in (ok, nm, 0))
      else
        let h = take (length s - length p - 1) s in
        if p = [] \<or> length p > 5 \<or> hd p = CHR ''0'' then (False, [], 0)
        else if \<not> list_all isdigit p then (False, [], 0)
        else if digits_value p = 0 \<or> digits_value p > 65535 then (False, [], 0)
        else (let (ok, nm) = name_ok h True in (ok, nm, digits_value p)))"

section \<open>The end of the head\<close>

text \<open>The index after the empty line, 0 if it is not there yet, -1 if the head is malformed.\<close>

fun head_scan :: "string \<Rightarrow> nat \<Rightarrow> int" where
  "head_scan [] i = 0"
| "head_scan (c # s) i =
     (if c = NUL then -1
      else if c = LF then -1
      else if c \<noteq> CR then head_scan s (i + 1)
      else case s of
        [] \<Rightarrow> 0
      | d # s' \<Rightarrow>
          if d \<noteq> LF then -1
          else case s' of
            [] \<Rightarrow> 0
          | e # s'' \<Rightarrow>
              (case s'' of
                 [] \<Rightarrow> if e = CR then 0 else head_scan s' (i + 2)
               | f # s''' \<Rightarrow> if e = CR \<and> f = LF then int (i + 4) else head_scan s' (i + 2)))"

definition head_end :: "string \<Rightarrow> int" where
  "head_end s = head_scan (take (if length s < PP_HTTP_MAX then length s else PP_HTTP_MAX) s) 0"

section \<open>The request line\<close>

record req_line =
  rl_method :: string
  rl_target :: string
  rl_version :: string
  rl_hdr :: nat

definition request_line :: "string \<Rightarrow> nat \<Rightarrow> req_line option" where
  "request_line s he =
     (let s = take he s;
          m = takeWhile isupper s; s1 = drop (length m) s in
      if m = [] \<or> length m > PP_METHOD_MAX \<or> s1 = [] \<or> hd s1 \<noteq> CHR '' '' then None
      else
        let t = takeWhile (\<lambda>c. byte c > 32 \<and> byte c < 0x7f) (tl s1); s2 = drop (length t) (tl s1) in
        if t = [] \<or> s2 = [] \<or> hd s2 \<noteq> CHR '' '' then None
        else
          let v = takeWhile (\<lambda>c. c \<noteq> CR) (tl s2) in
          if \<not> (v = ''HTTP/1.1'' \<or> v = ''HTTP/1.0'') then None
          else Some \<lparr>rl_method = m, rl_target = t, rl_version = v,
                     rl_hdr = length m + 1 + length t + 1 + length v + 2\<rparr>)"

section \<open>Header lines\<close>

definition pp_tchar :: "char \<Rightarrow> bool" where
  "pp_tchar c \<longleftrightarrow> isdigit c \<or> islower c \<or> isupper c \<or> (c \<noteq> NUL \<and> c \<in> set (''!#$%&'' @ [CHR 0x27] @ ''*+-.^_`|~''))"

text \<open>The index of the next CR from \<open>i\<close> on; none is a read outside the input.\<close>

definition next_cr :: "string \<Rightarrow> nat \<Rightarrow> nat option" where
  "next_cr s i =
     (let k = length (takeWhile (\<lambda>c. c \<noteq> CR) (drop i s)) in if i + k < length s then Some (i + k) else None)"

lemma next_cr_le: "next_cr s i = Some k \<Longrightarrow> i \<le> k"
  by (auto simp: next_cr_def Let_def split: if_splits)

definition blank :: "char \<Rightarrow> bool" where
  "blank c \<longleftrightarrow> c = CHR '' '' \<or> c = CHR 0x09"

definition trim_blanks :: "string \<Rightarrow> string" where
  "trim_blanks s = rev (dropWhile blank (rev (dropWhile blank s)))"

definition is_host :: "string \<Rightarrow> bool" where
  "is_host n \<longleftrightarrow> length n = 4 \<and> or (byte (n ! 0)) 32 = 104 \<and> or (byte (n ! 1)) 32 = 111 \<and> or (byte (n ! 2)) 32 = 115 \<and>
     or (byte (n ! 3)) 32 = 116"

text \<open>The Host header's value: \<^term>\<open>Inr v\<close> with at most one, \<^term>\<open>Inl ()\<close> for the code's -1.\<close>

function host_header :: "string \<Rightarrow> nat \<Rightarrow> nat \<Rightarrow> string option \<Rightarrow> (unit + string option) option" where
  "host_header s i he found =
     (if i + 2 \<le> he - 2 then
        (case next_cr s i of
           None \<Rightarrow> None
         | Some le \<Rightarrow>
             if le = i then Some (Inr found)
             else
               let line = take (le - i) (drop i s); n = takeWhile pp_tchar line; rest = drop (length n) line;
                   v = trim_blanks (tl rest) in
               if hd line = CHR '' '' \<or> hd line = CHR 0x09 then Some (Inl ())
               else if n = [] \<or> rest = [] \<or> hd rest \<noteq> CHR '':'' then Some (Inl ())
               else if \<not> list_all (\<lambda>c. \<not> (byte c < 32 \<and> c \<noteq> CHR 0x09)) v then Some (Inl ())
               else if is_host n then
                 (if found \<noteq> None then Some (Inl ()) else host_header s (le + 2) he (Some v))
               else host_header s (le + 2) he found)
      else Some (Inr found))"
  by pat_completeness auto
termination
  by (relation "measure (\<lambda>(s, i, h, f). h - i)") (auto dest: next_cr_le)

declare host_header.simps [simp del]

text \<open>The framing of the body, from the header lines: the counts of the two headers so far, and the length
  given. The value of a line without a colon has no length the code could accept.\<close>

function framing_lines :: "string \<Rightarrow> nat \<Rightarrow> nat \<Rightarrow> bool \<Rightarrow> bool \<Rightarrow> nat \<Rightarrow> (string + pp_body \<times> nat) option" where
  "framing_lines s i he cl te len =
     (let finish =
        (if cl \<and> te then Some (Inl ''both Content-Length and Transfer-Encoding'')
         else if te then Some (Inr (PP_BODY_CHUNKED, 0))
         else if cl then Some (Inr (PP_BODY_LENGTH, len))
         else Some (Inr (PP_BODY_NONE, 0)))
      in if i + 2 \<le> he - 2 then
        (case next_cr s i of
           None \<Rightarrow> None
         | Some le \<Rightarrow>
             if le = i then finish
             else
               let line = take (le - i) (drop i s); n = takeWhile (\<lambda>c. c \<noteq> CHR '':'') line;
                   rest = drop (length n) line; v = trim_blanks (tl rest); name = map tolower n in
               if name = ''content-length'' then
                 (if cl \<or> rest = [] \<or> v = [] \<or> length v > 18 then Some (Inl ''a Content-Length twice, or too long'')
                  else if \<not> list_all isdigit v then Some (Inl ''a Content-Length that is not a number'')
                  else framing_lines s (le + 2) he True te (digits_value v))
               else if name = ''transfer-encoding'' then
                 (if te \<or> rest = [] \<or> map tolower v \<noteq> ''chunked'' then Some (Inl ''a transfer coding other than chunked'')
                  else framing_lines s (le + 2) he cl True len)
               else if name = ''upgrade'' then
                 Some (Inl ''a protocol upgrade (its bytes are not read as requests)'')
               else framing_lines s (le + 2) he cl te len)
      else finish)"
  by pat_completeness auto
termination
  by (relation "measure (\<lambda>(s, i, h, c, t, l). h - i)") (auto dest: next_cr_le)

declare framing_lines.simps [simp del]

definition framing :: "string \<Rightarrow> nat \<Rightarrow> nat \<Rightarrow> (string + pp_body \<times> nat) option" where
  "framing s hdr he = framing_lines s hdr he False False 0"

end
