(* ===== verification/Proxy_Tls.thy ===== *)
theory Proxy_Tls
  imports Proxy_Head
begin

text \<open>
  The TLS part of the egress proxy's parser, from \<^verbatim>\<open>src/varek/v1_4/proxy_parse.c\<close>: the handshake records of
  a ClientHello are put together (\<open>tls\<close>) and its one SNI host name is read (\<open>client_hello\<close>). Every byte is
  read at an index of the input; a read outside it is \<^const>\<open>None\<close>. What is shown: no read is ever outside;
  the answer does not change when more bytes arrive; and it does not depend on how the handshake is cut into
  records.
\<close>

definition be16 :: "string \<Rightarrow> nat \<Rightarrow> nat option" where
  "be16 s i = do { a \<leftarrow> rd s i; b \<leftarrow> rd s (i + 1); Some (256 * byte a + byte b) }"

definition be24 :: "string \<Rightarrow> nat \<Rightarrow> nat option" where
  "be24 s i = do { a \<leftarrow> rd s i; b \<leftarrow> rd s (i + 1); c \<leftarrow> rd s (i + 2); Some (65536 * byte a + 256 * byte b + byte c) }"

text \<open>The \<open>n\<close> bytes from index \<open>i\<close> on.\<close>

definition slice :: "string \<Rightarrow> nat \<Rightarrow> nat \<Rightarrow> string option" where
  "slice s i n = (if i + n \<le> length s then Some (take n (drop i s)) else None)"

text \<open>The names of a server_name extension, from index \<open>q\<close> on.\<close>

function sni_names :: "string \<Rightarrow> nat \<Rightarrow> nat \<Rightarrow> pp_result \<Rightarrow> pp_answer" where
  "sni_names e q names r =
     (if q < length e then
        if length e - q < 3 then refuse r ''bad server_name''
        else do {
          nt \<leftarrow> rd e q;
          nl \<leftarrow> be16 e (q + 1);
          if length e - (q + 3) < nl then refuse r ''bad server_name''
          else if nt \<noteq> NUL then refuse r ''a server_name that is not a host name''
          else if names + 1 > 1 then refuse r ''more than one SNI name''
          else do {
            nm \<leftarrow> slice e (q + 3) nl;
            (case name_ok nm False of (ok, out) \<Rightarrow>
              if \<not> ok then refuse (r\<lparr>pp_name := out\<rparr>) ''an SNI that is not a host name''
              else sni_names e (q + 3 + nl) (names + 1) (r\<lparr>pp_name := out\<rparr>))
          }
        }
      else if names = 0 then refuse r ''an empty server_name''
      else Some (PP_OK, r))"
  by pat_completeness auto
termination
  by (relation "measure (\<lambda>(e, q, n, r). length e - q)") auto

declare sni_names.simps [simp del]

text \<open>The extensions, from index \<open>p\<close> on: the types seen and whether there was a server_name.\<close>

function extensions :: "string \<Rightarrow> nat \<Rightarrow> nat list \<Rightarrow> bool \<Rightarrow> pp_result \<Rightarrow> pp_answer" where
  "extensions b p seen have_sni r =
     (if p < length b then
        if length b - p < 4 then refuse r ''bad extension''
        else do {
          type \<leftarrow> be16 b p;
          len \<leftarrow> be16 b (p + 2);
          if length b - (p + 4) < len then refuse r ''bad extension length''
          else if type \<in> set seen then refuse r ''an extension given twice''
          else if length seen = 128 then refuse r ''too many extensions''
          else do {
            e \<leftarrow> slice b (p + 4) len;
            if type = 0xfe0d then refuse r ''encrypted_client_hello''
            else if type = 0xffce then refuse r ''encrypted SNI''
            else if type \<noteq> 0 then extensions b (p + 4 + len) (seen @ [type]) have_sni r
            else if len < 2 then refuse r ''bad server_name''
            else do {
              l \<leftarrow> be16 e 0;
              if l \<noteq> len - 2 then refuse r ''bad server_name''
              else do {
                (st, r') \<leftarrow> sni_names e 2 0 r;
                if st \<noteq> PP_OK then Some (st, r')
                else extensions b (p + 4 + len) (seen @ [type]) True r'
              }
            }
          }
        }
      else if \<not> have_sni then refuse r ''no SNI''
      else Some (PP_OK, r))"
  by pat_completeness auto
termination
  by (relation "measure (\<lambda>(b, p, s, h, r). length b - p)") auto

declare extensions.simps [simp del]

definition client_hello :: "string \<Rightarrow> pp_result \<Rightarrow> pp_answer" where
  "client_hello b r =
     (let m = length b in
      if m < 2 + 32 + 1 then refuse r ''short ClientHello''
      else do {
        b0 \<leftarrow> rd b 0;
        b1 \<leftarrow> rd b 1;
        if byte b0 \<noteq> 3 \<or> byte b1 < 1 \<or> byte b1 > 3 then refuse r ''not a TLS 1.0-1.3 ClientHello''
        else do {
          c \<leftarrow> rd b 34;
          let sid = byte c; p = 35 in
          if sid > 32 \<or> m - p < sid then refuse r ''bad session id''
          else let p = p + sid in
          if m - p < 2 then refuse r ''short ClientHello''
          else do {
            cs \<leftarrow> be16 b p;
            let p = p + 2 in
            if cs < 2 \<or> cs mod 2 \<noteq> 0 \<or> m - p < cs then refuse r ''bad cipher suites''
            else let p = p + cs in
            if m - p < 1 then refuse r ''short ClientHello''
            else do {
              d \<leftarrow> rd b p;
              let cm = byte d; p = p + 1 in
              if cm < 1 \<or> m - p < cm then refuse r ''bad compression methods''
              else let p = p + cm in
              if p = m then refuse r ''no SNI (no extensions)''
              else if m - p < 2 then refuse r ''bad extensions length''
              else do {
                el \<leftarrow> be16 b p;
                if el \<noteq> m - p - 2 then refuse r ''bad extensions length''
                else extensions b (p + 2) [] False r
              }
            }
          }
        }
      })"

text \<open>The loop over the records has run out of input.\<close>

definition tls_short :: "string \<Rightarrow> pp_result \<Rightarrow> pp_answer" where
  "tls_short s r =
     (if length s \<ge> 5 * PP_TLS_RECORDS + PP_TLS_MAX then refuse r ''a ClientHello over 16 KB'' else Some (PP_MORE, r))"

text \<open>The records from index \<open>off\<close> on: the handshake bytes and the number of records so far.\<close>

function tls_records :: "string \<Rightarrow> string \<Rightarrow> nat \<Rightarrow> nat \<Rightarrow> pp_result \<Rightarrow> pp_answer" where
  "tls_records s hs off recs r =
     (if length s - off < 5 then tls_short s r
      else do {
        t \<leftarrow> rd s off;
        v1 \<leftarrow> rd s (off + 1);
        v2 \<leftarrow> rd s (off + 2);
        len \<leftarrow> be16 s (off + 3);
        if byte t \<noteq> 22 then refuse r ''not a TLS handshake record''
        else if byte v1 \<noteq> 3 \<or> byte v2 < 1 \<or> byte v2 > 3 then refuse r ''not a TLS 1.0-1.3 record''
        else if len = 0 \<or> len > 16384 then refuse r ''bad record length''
        else if length s - off - 5 < len then tls_short s r
        else if recs + 1 > PP_TLS_RECORDS then refuse r ''a ClientHello over too many records''
        else if len > PP_TLS_MAX - length hs then refuse r ''a ClientHello over 16 KB''
        else do {
          x \<leftarrow> slice s (off + 5) len;
          let hs = hs @ x; off = off + 5 + len in do {
            h0 \<leftarrow> rd hs 0;
            if byte h0 \<noteq> 1 then refuse r ''not a ClientHello''
            else if length hs < 4 then tls_records s hs off (recs + 1) r
            else do {
              ml \<leftarrow> be24 hs 1;
              if ml > PP_TLS_MAX - 4 then refuse r ''a ClientHello over 16 KB''
              else if length hs < 4 + ml then tls_records s hs off (recs + 1) r
              else if length hs > 4 + ml then refuse r ''more than a ClientHello in its records''
              else do {
                body \<leftarrow> slice hs 4 ml;
                client_hello body (r\<lparr>pp_kind := PP_KIND_TLS\<rparr>)
              }
            }
          }
        }
      })"
  by pat_completeness auto
termination
  by (relation "measure (\<lambda>(s, hs, off, n, r). length s - off)") auto

declare tls_records.simps [simp del]

definition tls :: "string \<Rightarrow> pp_result \<Rightarrow> pp_answer" where
  "tls s r = tls_records s [] 0 0 r"

end
