(* ===== verification/Proxy_Parse.thy ===== *)
theory Proxy_Parse
  imports Proxy_Tls
begin

text \<open>
  The entry points of the egress proxy's parsers, from \<^verbatim>\<open>src/varek/v1_4/proxy_parse.c\<close>: the first bytes of
  a connection (\<open>pp_parse\<close>: TLS, plain HTTP or CONNECT), a request inside terminated TLS
  (\<open>pp_request\<close>, with the object the Warden decides) and the upstream proxy's reply
  (\<open>pp_upstream_reply\<close>). A refused framing leaves the body's fields as they were; no caller reads them
  then.
\<close>

section \<open>A plain HTTP request\<close>

definition authority_part :: "string \<Rightarrow> string" where
  "authority_part s = takeWhile (\<lambda>c. c \<noteq> slash \<and> c \<noteq> CHR ''?'' \<and> c \<noteq> CHR ''#'') s"

definition http_framed :: "string \<Rightarrow> nat \<Rightarrow> req_line \<Rightarrow> nat \<Rightarrow> pp_result \<Rightarrow> pp_answer" where
  "http_framed s he q dport r =
     do {
       f \<leftarrow> framing s (rl_hdr q) he;
       (case f of
          Inl why \<Rightarrow> refuse r why
        | Inr (b, n) \<Rightarrow> Some (PP_OK, r\<lparr>pp_body := b, pp_body_len := n, pp_head_len := he, pp_port := dport\<rparr>))
     }"

definition http :: "string \<Rightarrow> nat \<Rightarrow> pp_result \<Rightarrow> pp_answer" where
  "http s dport r =
     (let e = head_end s; he = nat e in
      if e < 0 then refuse r ''a malformed HTTP request (CR, LF or NUL)''
      else if e = 0 then (if length s \<ge> PP_HTTP_MAX then refuse r ''HTTP headers over 8 KB'' else Some (PP_MORE, r))
      else case request_line s he of
        None \<Rightarrow> refuse r ''a malformed HTTP request line''
      | Some q \<Rightarrow>
          let r = r\<lparr>pp_kind := PP_KIND_HTTP\<rparr> in
          if rl_method q = ''CONNECT'' then refuse r ''a CONNECT out of place''
          else do {
            h \<leftarrow> host_header s (rl_hdr q) he None;
            (case h of
               Inl _ \<Rightarrow> refuse r ''malformed headers, or more than one Host''
             | Inr None \<Rightarrow> refuse r ''no Host header''
             | Inr (Some v) \<Rightarrow>
                 (case authority v of (ok, nm, hp) \<Rightarrow>
                    let r = r\<lparr>pp_name := nm\<rparr> in
                    if \<not> ok then refuse r ''a Host that is not a host name''
                    else if hp \<noteq> 0 \<and> hp \<noteq> dport then refuse r ''a Host port that is not the one connected to''
                    else if starts ''http://'' (rl_target q) then
                      (case authority (authority_part (drop 7 (rl_target q))) of (ok, an, ap) \<Rightarrow>
                         if \<not> ok \<or> an \<noteq> nm \<or> (if ap \<noteq> 0 then ap else 80) \<noteq> (if hp \<noteq> 0 then hp else dport) then
                           refuse r ''a target that is not the Host''
                         else http_framed s he q dport r)
                    else if \<not> (hd (rl_target q) = slash \<or> (rl_target q = ''*'' \<and> rl_method q = ''OPTIONS'')) then
                      refuse r ''a request target the proxy does not take''
                    else http_framed s he q dport r))
          })"

section \<open>A CONNECT\<close>

definition connect_req :: "string \<Rightarrow> bool \<Rightarrow> pp_result \<Rightarrow> pp_answer" where
  "connect_req s acked r =
     (let e = head_end s; he = nat e in
      if e < 0 then refuse r ''a malformed CONNECT (CR, LF or NUL)''
      else if e = 0 then (if length s \<ge> PP_HTTP_MAX then refuse r ''CONNECT headers over 8 KB'' else Some (PP_MORE, r))
      else
        let r = r\<lparr>pp_kind := PP_KIND_CONNECT\<rparr> in
        case request_line s he of
          None \<Rightarrow> refuse r ''a malformed CONNECT line''
        | Some q \<Rightarrow>
            if rl_method q \<noteq> ''CONNECT'' then refuse r ''a malformed CONNECT line''
            else
              (case authority (rl_target q) of (ok, nm, port) \<Rightarrow>
                 if \<not> ok \<or> port = 0 then refuse r ''a CONNECT target that is not host:port''
                 else do {
                   h \<leftarrow> host_header s (rl_hdr q) he None;
                   let named_ok =
                     (case h of
                        Inr (Some v) \<Rightarrow> (case authority v of (ok, hn, hp) \<Rightarrow> ok \<and> hn = nm \<and> (hp = 0 \<or> hp = port))
                      | _ \<Rightarrow> True) in
                   if h = Inl () then refuse r ''malformed headers, or more than one Host''
                   else if \<not> named_ok then refuse r ''a Host that is not the CONNECT target''
                   else
                     let r = r\<lparr>pp_connect_len := he, pp_port := port\<rparr> in
                     if \<not> acked then
                       (if he < length s then refuse r ''data before the CONNECT was answered''
                        else Some (PP_ACK, r\<lparr>pp_name := nm\<rparr>))
                     else do {
                       (st, r) \<leftarrow> tls (drop he s) r;
                       let r = r\<lparr>pp_kind := PP_KIND_CONNECT, pp_port := port\<rparr> in
                       if st \<noteq> PP_OK then Some (st, r)
                       else if pp_name r \<noteq> nm then refuse r ''an SNI that is not the CONNECT target''
                       else Some (PP_OK, r)
                     }
                 }))"

section \<open>The first bytes of a connection\<close>

definition kc :: string where "kc = ''CONNECT ''"

definition kc_match :: "string \<Rightarrow> nat" where
  "kc_match s = length (takeWhile (\<lambda>(a, b). a = b) (zip s kc))"

definition pp_parse :: "string \<Rightarrow> nat \<Rightarrow> bool \<Rightarrow> pp_answer" where
  "pp_parse s dport acked =
     (let r = pp_zero; k = kc_match s in
      if s = [] then Some (PP_MORE, r)
      else if length s > PP_IN_MAX then refuse r ''too much before a decision''
      else if byte (hd s) = 22 then
        (if acked then refuse r ''a ClientHello where a CONNECT was answered''
         else do { (st, r) \<leftarrow> tls s r; Some (st, r\<lparr>pp_port := dport\<rparr>) })
      else if k = 8 then connect_req s acked r
      else if acked then refuse r ''an answered CONNECT that is not one''
      else if k = length s then Some (PP_MORE, r)
      else if isupper (hd s) then http s dport r
      else refuse r ''neither TLS nor HTTP'')"

section \<open>A request inside terminated TLS\<close>

definition unreserved :: "nat \<Rightarrow> bool" where
  "unreserved v \<longleftrightarrow>
     (65 \<le> v \<and> v \<le> 90) \<or> (97 \<le> v \<and> v \<le> 122) \<or> (48 \<le> v \<and> v \<le> 57) \<or> v = 45 \<or> v = 46 \<or> v = 95 \<or> v = 126"

definition pp_hexd :: "char \<Rightarrow> nat option" where
  "pp_hexd c =
     (if 48 \<le> byte c \<and> byte c \<le> 57 then Some (byte c - 48)
      else if 97 \<le> byte c \<and> byte c \<le> 102 then Some (byte c - 97 + 10)
      else if 65 \<le> byte c \<and> byte c \<le> 70 then Some (byte c - 65 + 10)
      else None)"

text \<open>The two digits of an escape, from the bytes after the percent sign.\<close>

definition escape_digits :: "string \<Rightarrow> (nat \<times> nat) option" where
  "escape_digits s =
     (case s of
        a # b # _ \<Rightarrow> (case (pp_hexd a, pp_hexd b) of (Some h1, Some h2) \<Rightarrow> Some (h1, h2) | _ \<Rightarrow> None)
      | _ \<Rightarrow> None)"

text \<open>The target after its first slash: why it is refused, if it is. \<open>query\<close> is set in the query, and
  \<open>seg\<close> is the segment so far.\<close>

fun target_scan :: "bool \<Rightarrow> string \<Rightarrow> string \<Rightarrow> string option" where
  "target_scan query seg [] =
     (if \<not> query \<and> (seg = ''.'' \<or> seg = ''..'') then Some ''a '.' or '..' path segment'' else None)"
| "target_scan query seg (c # s) =
     (if \<not> query \<and> (c = slash \<or> c = CHR ''?'') then
        (if seg = [] \<and> c = slash then Some ''an empty path segment ('//')''
         else if seg = ''.'' \<or> seg = ''..'' then Some ''a '.' or '..' path segment''
         else target_scan (c = CHR ''?'') [] s)
      else if byte c < 0x21 \<or> byte c > 0x7e then Some ''a byte outside 0x21-0x7e in the target''
      else if c = backslash \<or> c = CHR '';'' \<or> c = CHR ''#'' then Some (''a '' @ [CHR 0x27, backslash, CHR 0x27] @ '', ';' or '#' in the target'')
      else if c = CHR ''?'' then Some ''more than one '?' in the target''
      else if c = CHR ''%'' then
        (case escape_digits s of
           None \<Rightarrow> Some ''a bad percent escape in the target''
         | Some (h1, h2) \<Rightarrow>
             if h1 * 16 + h2 = 47 \<or> h1 * 16 + h2 = 92 \<or> unreserved (h1 * 16 + h2) then
               Some (''a percent escape of '/', '' @ [CHR 0x27, backslash, CHR 0x27] @ '' or an unreserved byte'')
             else target_scan query (seg @ [c]) s)
      else target_scan query (seg @ [c]) s)"

definition target_ok :: "string \<Rightarrow> string option" where
  "target_ok t = (if t = [] \<or> hd t \<noteq> slash then Some ''a target that is not a path'' else target_scan False [] (tl t))"

record pp_req =
  pq_method :: string
  pq_object :: string
  pq_object_len :: nat
  pq_head_len :: nat
  pq_body :: pp_body
  pq_body_len :: nat
  pq_why :: "string option"

definition pq_zero :: pp_req where
  "pq_zero = \<lparr>pq_method = [], pq_object = [], pq_object_len = 0, pq_head_len = 0, pq_body = PP_BODY_NONE,
     pq_body_len = 0, pq_why = None\<rparr>"

definition pq_refuse :: "string \<Rightarrow> (pp_status \<times> pp_req) option" where
  "pq_refuse why = Some (PP_REFUSE, pq_zero\<lparr>pq_why := Some why\<rparr>)"

text \<open>The target's path, for a target that may name the connection's own scheme and authority.\<close>

definition request_path :: "string \<Rightarrow> string \<Rightarrow> string \<Rightarrow> nat \<Rightarrow> string + string" where
  "request_path t scheme name port =
     (if length t > length scheme + 3 \<and> starts (scheme @ ''://'') t then
        let a = drop (length scheme + 3) t; au = authority_part a; s2 = drop (length au) a;
            def = (if scheme = ''https'' then 443 else 80) in
        (case authority au of (ok, an, ap) \<Rightarrow>
           if \<not> ok \<or> an \<noteq> name \<or> (if ap \<noteq> 0 then ap else def) \<noteq> port then
             Inl ''an absolute target for another authority''
           else if s2 = [] \<or> hd s2 \<noteq> slash then Inl ''an absolute target without a path''
           else Inr s2)
      else Inr t)"

definition pp_request :: "string \<Rightarrow> string \<Rightarrow> string \<Rightarrow> nat \<Rightarrow> (pp_status \<times> pp_req) option" where
  "pp_request s scheme name port =
     (let e = head_end s; he = nat e in
      if e < 0 then pq_refuse ''a malformed HTTP request (CR, LF or NUL)''
      else if e = 0 then (if length s \<ge> PP_HTTP_MAX then pq_refuse ''HTTP headers over 8 KB'' else Some (PP_MORE, pq_zero))
      else case request_line s he of
        None \<Rightarrow> pq_refuse ''a malformed HTTP request line''
      | Some rl \<Rightarrow>
          if rl_method rl = ''CONNECT'' then pq_refuse ''a CONNECT inside TLS''
          else do {
            h \<leftarrow> host_header s (rl_hdr rl) he None;
            (case h of
               Inl _ \<Rightarrow> pq_refuse ''malformed headers, or more than one Host''
             | Inr None \<Rightarrow> pq_refuse ''no Host header''
             | Inr (Some v) \<Rightarrow>
                 (case authority v of (ok, hn, hp) \<Rightarrow>
                    if \<not> ok then pq_refuse ''a Host that is not a host name''
                    else if hn \<noteq> name \<or> (hp \<noteq> 0 \<and> hp \<noteq> port) then
                      pq_refuse ''a Host other than the name and port the connection is for''
                    else case request_path (rl_target rl) scheme name port of
                      Inl why \<Rightarrow> pq_refuse why
                    | Inr t \<Rightarrow>
                        (case target_ok t of
                           Some why \<Rightarrow> pq_refuse why
                         | None \<Rightarrow> do {
                             f \<leftarrow> framing s (rl_hdr rl) he;
                             (case f of
                                Inl why \<Rightarrow> pq_refuse why
                              | Inr (b, n) \<Rightarrow>
                                  let o1 = rl_method rl @ '' '' @ scheme @ ''://'' @ name @ '':'' @ decimal port in
                                  if length o1 + length t > PP_OBJ_MAX then
                                    Some (PP_REFUSE, pq_zero\<lparr>pq_method := rl_method rl,
                                      pq_why := Some ''a request object over 4,095 bytes''\<rparr>)
                                  else Some (PP_OK, \<lparr>pq_method = rl_method rl, pq_object = o1 @ t,
                                    pq_object_len = length o1 + length t, pq_head_len = he, pq_body = b,
                                    pq_body_len = n, pq_why = None\<rparr>))
                           })))
          })"

section \<open>The upstream proxy's reply\<close>

record upstream_reply =
  ur_status :: nat
  ur_len :: nat
  ur_why :: "string option"

definition pp_upstream_reply :: "string \<Rightarrow> (pp_status \<times> upstream_reply) option" where
  "pp_upstream_reply s =
     (let e = head_end s; he = nat e; malformed = ''a malformed reply from the upstream'';
          no = (\<lambda>why. Some (PP_REFUSE, \<lparr>ur_status = 0, ur_len = 0, ur_why = Some why\<rparr>)) in
      if e < 0 then no malformed
      else if e = 0 then
        (if length s \<ge> PP_HTTP_MAX then no ''a reply from the upstream over 8 KB''
         else Some (PP_MORE, \<lparr>ur_status = 0, ur_len = 0, ur_why = None\<rparr>))
      else if he < 14 then no malformed
      else do {
        c7 \<leftarrow> rd s 7; c8 \<leftarrow> rd s 8; c9 \<leftarrow> rd s 9; c10 \<leftarrow> rd s 10; c11 \<leftarrow> rd s 11; c12 \<leftarrow> rd s 12;
        if take 7 s \<noteq> ''HTTP/1.'' \<or> (c7 \<noteq> CHR ''0'' \<and> c7 \<noteq> CHR ''1'') \<or> c8 \<noteq> CHR '' '' \<or>
           byte c9 < 49 \<or> byte c9 > 53 \<or> \<not> isdigit c10 \<or> \<not> isdigit c11 \<or> (c12 \<noteq> CHR '' '' \<and> c12 \<noteq> CR) then no malformed
        else
          let status = (byte c9 - 48) * 100 + (byte c10 - 48) * 10 + (byte c11 - 48) in
          if status < 200 \<or> status > 299 then
            Some (PP_REFUSE, \<lparr>ur_status = status, ur_len = he, ur_why = Some ''the upstream refused''\<rparr>)
          else Some (PP_OK, \<lparr>ur_status = status, ur_len = he, ur_why = None\<rparr>)
      })"

end
