(* ===== verification/Proxy_Head_Spec.thy ===== *)
theory Proxy_Head_Spec
  imports Proxy_Head
begin

text \<open>
  What the parts of an HTTP head mean: the names \<open>name_ok\<close> accepts are the host names of the policy language,
  a complete head is a list of lines, and the two passes over the header lines are the reading of that list.
  Every result is kept when more bytes arrive.
\<close>

section \<open>Host names\<close>

definition host_label :: "string \<Rightarrow> bool" where
  "host_label l \<longleftrightarrow> 1 \<le> length l \<and> length l \<le> 63 \<and> list_all (\<lambda>c. islower c \<or> isdigit c \<or> c = CHR ''-'') l \<and>
     hd l \<noteq> CHR ''-'' \<and> last l \<noteq> CHR ''-''"

definition host_name :: "string \<Rightarrow> bool" where
  "host_name n \<longleftrightarrow> length n \<le> PP_NAME_MAX \<and> list_all host_label (split_on (CHR ''.'') n) \<and>
     \<not> list_all isdigit (last (split_on (CHR ''.'') n))"

lemma tolower_upper: "isupper c \<Longrightarrow> islower (tolower c)"
  by (simp add: tolower_def isupper_def islower_def)

lemma tolower_same: "\<not> isupper c \<Longrightarrow> tolower c = c"
  by (simp add: tolower_def)

lemma lower_marks [simp]: "\<not> islower (CHR ''.'')" "\<not> islower (CHR ''-'')" "\<not> islower (CHR '':'')"
    "\<not> isupper (CHR ''.'')" "\<not> isupper (CHR ''-'')" "\<not> isupper (CHR '':'')" "\<not> isdigit (CHR ''.'')"
    "\<not> isdigit (CHR ''-'')" "\<not> isdigit (CHR '':'')"
  by (simp_all add: islower_def isupper_def isdigit_def byte_def)

lemma tolower_marks [simp]:
  "tolower c = CHR ''.'' \<longleftrightarrow> c = CHR ''.''" "tolower c = CHR ''-'' \<longleftrightarrow> c = CHR ''-''"
  using tolower_upper tolower_same lower_marks by (metis (full_types))+

lemma tolower_dot [simp]: "tolower (CHR ''.'') = CHR ''.''" "tolower (CHR ''-'') = CHR ''-''"
  by simp_all

text \<open>The rest of the name after a prefix of its current label: the label's bytes so far are \<open>p\<close>.\<close>

definition label_part :: "string \<Rightarrow> bool" where
  "label_part l \<longleftrightarrow> length l \<le> 63 \<and> list_all (\<lambda>c. islower c \<or> isdigit c \<or> c = CHR ''-'') l \<and>
     (l \<noteq> [] \<longrightarrow> hd l \<noteq> CHR ''-'')"

definition labels_from :: "string \<Rightarrow> string \<Rightarrow> bool" where
  "labels_from p s \<longleftrightarrow>
     (let ls = split_on (CHR ''.'') s; ls = (p @ hd ls) # tl ls
      in list_all host_label ls \<and> \<not> list_all isdigit (last ls))"

lemma split_on_Nil [simp]: "split_on x s \<noteq> []"
  by (induction s) (auto split: list.split)

lemma labels_from_Nil: "labels_from p [] \<longleftrightarrow> host_label p \<and> \<not> list_all isdigit p"
  by (simp add: labels_from_def)

lemma labels_from_dot: "labels_from p (CHR ''.'' # s) \<longleftrightarrow> host_label p \<and> labels_from [] s"
  by (cases "split_on (CHR ''.'') s") (simp_all add: labels_from_def)

lemma labels_from_Cons: "c \<noteq> CHR ''.'' \<Longrightarrow> labels_from p (c # s) \<longleftrightarrow> labels_from (p @ [c]) s"
  by (cases "split_on (CHR ''.'') s") (auto simp: labels_from_def)

lemma labels_from_part: "labels_from p s \<Longrightarrow> label_part p"
  by (auto simp: labels_from_def label_part_def host_label_def Let_def)

lemma name_labels_dot:
  assumes "label_part p" "p \<noteq> [] \<longrightarrow> (prev = CHR ''-'') = (last p = CHR ''-'')"
  shows "name_labels prev (length p) dg (CHR ''.'' # s) =
    (if host_label p then let (ok, out) = name_labels (CHR ''.'') 0 True s in (ok, CHR ''.'' # out) else (False, []))"
  using assms by (cases "p = []") (auto simp: host_label_def label_part_def Suc_le_eq)

lemma name_labels_byte:
  assumes "label_part p" "c \<noteq> CHR ''.''"
  shows "name_labels prev (length p) (list_all isdigit p) (c # s) =
    (if label_part (p @ [tolower c]) then
       let (ok, out) = name_labels c (length (p @ [tolower c])) (list_all isdigit (p @ [tolower c])) s
       in (ok, tolower c # out)
     else (False, []))"
proof -
  have "label_part (p @ [tolower c]) \<longleftrightarrow>
      (isdigit (tolower c) \<or> islower (tolower c) \<or> tolower c = CHR ''-'') \<and> \<not> (tolower c = CHR ''-'' \<and> p = []) \<and>
      length p + 1 \<le> 63"
    using assms(1) by (cases p) (auto simp: label_part_def)
  then show ?thesis using assms(2) by (simp add: tolower_def [symmetric] Let_def)
qed

lemma name_labels_spec:
  assumes "label_part p" "p \<noteq> [] \<longrightarrow> (prev = CHR ''-'') = (last p = CHR ''-'')"
    and "name_labels prev (length p) (list_all isdigit p) s = (ok, out)"
  shows "(ok \<longleftrightarrow> labels_from p (map tolower s)) \<and> (ok \<longrightarrow> out = map tolower s)"
  using assms
proof (induction s arbitrary: p prev ok out)
  case Nil
  then show ?case by (auto simp: labels_from_Nil host_label_def label_part_def Suc_le_eq)
next
  case (Cons c s)
  show ?case
  proof (cases "c = CHR ''.''")
    case True
    obtain ok1 out1 where r: "name_labels (CHR ''.'') 0 True s = (ok1, out1)" by fastforce
    have "(ok1 \<longleftrightarrow> labels_from [] (map tolower s)) \<and> (ok1 \<longrightarrow> out1 = map tolower s)"
      using Cons.IH [of "[]" "CHR ''.''" ok1 out1] r by (simp add: label_part_def)
    then show ?thesis
      using Cons.prems(3) name_labels_dot [OF Cons.prems(1,2)] labels_from_dot [of p "map tolower s"]
      by (auto simp: True r split: if_splits)
  next
    case False
    let ?q = "p @ [tolower c]"
    obtain ok1 out1 where r: "name_labels c (length ?q) (list_all isdigit ?q) s = (ok1, out1)" by fastforce
    have q: "labels_from p (map tolower (c # s)) \<longleftrightarrow> labels_from ?q (map tolower s)"
      using labels_from_Cons [of "tolower c" p "map tolower s"] False by simp
    show ?thesis
    proof (cases "label_part ?q")
      case True
      have "(ok1 \<longleftrightarrow> labels_from ?q (map tolower s)) \<and> (ok1 \<longrightarrow> out1 = map tolower s)"
        using Cons.IH [OF True _ r] by simp
      moreover have "ok = ok1 \<and> out = tolower c # out1"
        using Cons.prems(3) unfolding name_labels_byte [OF Cons.prems(1) False] r by (simp add: True)
      ultimately show ?thesis using q by simp
    next
      case no: False
      then have "\<not> labels_from ?q (map tolower s)" using labels_from_part by blast
      moreover have "\<not> ok" using Cons.prems(3) no unfolding name_labels_byte [OF Cons.prems(1) False] by simp
      ultimately show ?thesis using q by simp
    qed
  qed
qed

lemma labels_from_name: "labels_from [] n \<and> length n \<le> PP_NAME_MAX \<longleftrightarrow> host_name n"
  by (cases "split_on (CHR ''.'') n") (auto simp: labels_from_def host_name_def)

text \<open>A name is accepted exactly when it is a host name, and written in lower case without the dot.\<close>

definition undotted :: "string \<Rightarrow> bool \<Rightarrow> string" where
  "undotted s dot_ok = (if s \<noteq> [] \<and> last s = CHR ''.'' \<and> dot_ok then butlast s else s)"

lemma host_name_Nil [simp]: "\<not> host_name []"
  by (simp add: host_name_def host_label_def)

lemma name_ok_spec:
  assumes "name_ok s dot_ok = (ok, nm)"
  shows "(ok \<longleftrightarrow> host_name (map tolower (undotted s dot_ok))) \<and> (ok \<longrightarrow> nm = map tolower (undotted s dot_ok))"
proof -
  let ?s = "undotted s dot_ok"
  have eq: "name_ok s dot_ok = (if ?s = [] \<or> length ?s > PP_NAME_MAX then (False, []) else name_labels NUL 0 True ?s)"
    by (simp add: name_ok_def undotted_def Let_def)
  show ?thesis
  proof (cases "?s = [] \<or> length ?s > PP_NAME_MAX")
    case True
    then have "\<not> host_name (map tolower ?s)" by (auto simp: host_name_def host_label_def)
    then show ?thesis using eq assms True by simp
  next
    case False
    then have "name_labels NUL 0 True ?s = (ok, nm)" using eq assms by simp
    then have "(ok \<longleftrightarrow> labels_from [] (map tolower ?s)) \<and> (ok \<longrightarrow> nm = map tolower ?s)"
      using name_labels_spec [of "[]" NUL ?s ok nm] by (simp add: label_part_def)
    then show ?thesis using labels_from_name [of "map tolower ?s"] False by simp
  qed
qed

text \<open>A host name is a name of the policy language, one name excepted that the language reserves.\<close>

lemma host_labels_spec:
  "label_part p \<Longrightarrow> p \<noteq> [] \<longrightarrow> (prev = CHR ''-'') = (last p = CHR ''-'') \<Longrightarrow> labels_from p s \<Longrightarrow>
    \<exists>lab. host_labels prev (length p) (list_all isdigit p) s = Inr (lab, False) \<and> lab \<noteq> 0 \<and>
      (s \<noteq> [] \<longrightarrow> last s \<noteq> CHR ''-'')"
proof (induction s arbitrary: p prev)
  case Nil
  then show ?case by (auto simp: labels_from_Nil host_label_def)
next
  case (Cons c s)
  show ?case
  proof (cases "c = CHR ''.''")
    case True
    then have "host_label p" "labels_from [] s" using Cons.prems(3) labels_from_dot by auto
    moreover obtain lab where "host_labels (CHR ''.'') 0 True s = Inr (lab, False) \<and> lab \<noteq> 0 \<and>
        (s \<noteq> [] \<longrightarrow> last s \<noteq> CHR ''-'')"
      using Cons.IH [of "[]" "CHR ''.''"] calculation(2) by (auto simp: label_part_def)
    ultimately show ?thesis using Cons.prems(2) True by (auto simp: host_label_def)
  next
    case False
    have f: "labels_from (p @ [c]) s" using Cons.prems(3) labels_from_Cons [OF False] by simp
    have part: "label_part (p @ [c])" using labels_from_part [OF f] .
    obtain lab where l: "host_labels c (length (p @ [c])) (list_all isdigit (p @ [c])) s = Inr (lab, False)" "lab \<noteq> 0"
        "s \<noteq> [] \<longrightarrow> last s \<noteq> CHR ''-''"
      using Cons.IH [OF part _ f, of c] by auto
    have "s = [] \<Longrightarrow> c \<noteq> CHR ''-''" using f by (auto simp: labels_from_Nil host_label_def)
    moreover have "host_labels prev (length p) (list_all isdigit p) (c # s) =
        host_labels c (length (p @ [c])) (list_all isdigit (p @ [c])) s"
      using part False by (cases p) (auto simp: label_part_def)
    ultimately show ?thesis using l by auto
  qed
qed

lemma split_on_set: "c \<in> set s \<Longrightarrow> c = x \<or> (\<exists>l \<in> set (split_on x s). c \<in> set l)"
proof (induction s)
  case (Cons a s)
  show ?case
  proof (cases "c = a")
    case True
    then show ?thesis by (cases "split_on x s") auto
  next
    case False
    then have "c = x \<or> (\<exists>l \<in> set (split_on x s). c \<in> set l)" using Cons by simp
    then show ?thesis by (cases "split_on x s") auto
  qed
qed simp

lemma split_on_part: "l \<in> set (split_on x s) \<Longrightarrow> c \<in> set l \<Longrightarrow> c \<in> set s"
proof (induction s arbitrary: l)
  case (Cons a s)
  show ?case
  proof (cases "c = a")
    case False
    obtain f fs where f: "split_on x s = f # fs" by (cases "split_on x s") auto
    then have "\<exists>l' \<in> set (f # fs). c \<in> set l'" using Cons.prems False by (auto split: if_splits)
    then show ?thesis using Cons.IH f by auto
  qed simp
qed simp

definition name_char :: "char \<Rightarrow> bool" where
  "name_char c \<longleftrightarrow> islower c \<or> isdigit c \<or> c = CHR ''-'' \<or> c = CHR ''.''"

lemma host_name_bytes: "host_name n \<Longrightarrow> c \<in> set n \<Longrightarrow> name_char c"
  using split_on_set [of c n "CHR ''.''"] by (auto simp: host_name_def host_label_def name_char_def list_all_iff)

lemma name_char_lower: "name_char c \<Longrightarrow> tolower c = c"
  by (auto simp: name_char_def tolower_def islower_def isupper_def isdigit_def)

lemma host_name_lower: "host_name n \<Longrightarrow> map tolower n = n"
  using host_name_bytes name_char_lower by (metis map_idI)

lemma host_name_length: "host_name n \<Longrightarrow> 1 \<le> length n \<and> length n \<le> 253"
  using host_name_Nil by (cases n) (auto simp: host_name_def PP_NAME_MAX_def)

lemma host_name_colon: "host_name n \<Longrightarrow> CHR '':'' \<notin> set n"
  using host_name_bytes [of n "CHR '':''"] by (auto simp: name_char_def islower_def isdigit_def byte_def)

lemma host_name_policy:
  assumes n: "host_name n" and u: "n \<noteq> ''unix''"
  shows "host_name_form n = Inr True"
proof -
  let ?l = "last (split_on (CHR ''.'') n)"
  have colon: "CHR '':'' \<notin> set n" using host_name_colon [OF n] .
  then have h: "takeWhile (\<lambda>b. b \<noteq> CHR '':'') n = n" unfolding takeWhile_eq_all_conv by auto
  have ne: "n \<noteq> []" using n host_name_Nil by auto
  have br: "hd n \<noteq> CHR ''[''"
    using host_name_bytes [OF n, of "hd n"] ne by (auto simp: name_char_def islower_def isdigit_def byte_def)
  have st: "\<not> starts ''unix:'' n" using colon by (auto simp: starts_iff)
  have star: "CHR ''*'' \<notin> set n"
    using host_name_bytes [OF n, of "CHR ''*''"] by (auto simp: name_char_def islower_def isdigit_def byte_def)
  obtain c where c: "c \<in> set ?l" "\<not> isdigit c" using n by (auto simp: host_name_def list_all_iff)
  have l: "?l \<in> set (split_on (CHR ''.'') n)" by simp
  then have "host_label ?l" using n by (auto simp: host_name_def list_all_iff)
  then have "c \<noteq> CHR ''.''" using c by (auto simp: host_label_def list_all_iff)
  moreover have "c \<in> set n" using split_on_part [OF l c(1)] .
  ultimately have dig: "\<not> list_all (\<lambda>b. b = CHR ''.'' \<or> isdigit b) n" using c(2) by (auto simp: list_all_iff)
  have "labels_from [] n" using n labels_from_name by blast
  then obtain lab where "host_labels (CHR 0x00) 0 True n = Inr (lab, False)" "lab \<noteq> 0" "last n \<noteq> CHR ''-''"
    using host_labels_spec [of "[]" "CHR 0x00" n] ne by (auto simp: label_part_def)
  moreover have "\<not> 253 < length n" using host_name_length [OF n] by simp
  ultimately show ?thesis
    unfolding host_name_form_def Let_def h if_not_P [OF dig] if_not_P [OF star] if_not_P [OF st]
    using ne br u by simp
qed

section \<open>The end of the head\<close>

lemma head_scan_cases:
  "c \<noteq> CR \<Longrightarrow> head_scan (c # s) i = (if c = NUL \<or> c = LF then -1 else head_scan s (i + 1))"
  "head_scan [CR] i = 0"
  "d \<noteq> LF \<Longrightarrow> head_scan (CR # d # s) i = -1"
  "head_scan [CR, LF] i = 0"
  "head_scan [CR, LF, CR] i = 0"
  "e \<noteq> CR \<Longrightarrow> head_scan (CR # LF # e # s) i = head_scan (e # s) (i + 2)"
  "f \<noteq> LF \<Longrightarrow> head_scan (CR # LF # CR # f # s) i = -1"
  "head_scan (CR # LF # CR # LF # s) i = int (i + 4)"
  by (simp_all split: list.split)

declare head_scan.simps(2) [simp del]

lemma head_cases:
  obtains (nil) "s = []" | (byte) c s' where "s = c # s'" "c \<noteq> CR"
    | (cr) "s = [CR]" | (bare) d s' where "s = CR # d # s'" "d \<noteq> LF"
    | (crlf) "s = [CR, LF]" | (crlfcr) "s = [CR, LF, CR]"
    | (line) e s' where "s = CR # LF # e # s'" "e \<noteq> CR"
    | (bare2) f s' where "s = CR # LF # CR # f # s'" "f \<noteq> LF"
    | (empty) s' where "s = CR # LF # CR # LF # s'"
  by (metis neq_Nil_conv)

text \<open>What is read of a head is kept when more bytes arrive.\<close>

lemma head_scan_append: "head_scan s i \<noteq> 0 \<Longrightarrow> head_scan (s @ t) i = head_scan s i"
proof (induction "length s" arbitrary: s i rule: less_induct)
  case less
  show ?case
  proof (cases s rule: head_cases)
    case (byte c s')
    then show ?thesis using less.hyps [of s' "i + 1"] less.prems head_scan_cases(1) by (auto split: if_splits)
  next
    case (line e s')
    then show ?thesis using less.hyps [of "e # s'" "i + 2"] less.prems head_scan_cases(6) by simp
  qed (use less.prems in \<open>simp_all add: head_scan_cases\<close>)
qed

text \<open>A complete head: its lines, none but the first empty, and an empty line.\<close>

definition head_text :: "string list \<Rightarrow> string" where
  "head_text ls = concat (map (\<lambda>l. l @ crlf) ls) @ crlf"

definition head_lines :: "string list \<Rightarrow> bool" where
  "head_lines ls \<longleftrightarrow> ls \<noteq> [] \<and> list_all (list_all line_byte) ls \<and> list_all (\<lambda>l. l \<noteq> []) (tl ls)"

lemma head_scan_lines:
  "head_scan s i > 0 \<Longrightarrow>
    \<exists>ls. head_lines ls \<and> head_scan s i = int (i + length (head_text ls)) \<and> take (length (head_text ls)) s = head_text ls"
proof (induction "length s" arbitrary: s i rule: less_induct)
  case less
  show ?case
  proof (cases s rule: head_cases)
    case (byte c s')
    then have c: "line_byte c" "head_scan s i = head_scan s' (i + 1)"
      using less.prems head_scan_cases(1) by (auto simp: line_byte_def split: if_splits)
    then obtain l ls where ls: "head_lines (l # ls)" "head_scan s i = int (i + 1 + length (head_text (l # ls)))"
        "take (length (head_text (l # ls))) s' = head_text (l # ls)"
      using less.hyps [of s' "i + 1"] less.prems byte by (metis head_lines_def neq_Nil_conv length_Cons lessI)
    have "head_text ((c # l) # ls) = c # head_text (l # ls)" by (simp add: head_text_def)
    then show ?thesis using ls c byte by (intro exI [of _ "(c # l) # ls"]) (simp add: head_lines_def)
  next
    case (line e s')
    then have c: "head_scan s i = head_scan (e # s') (i + 2)" using head_scan_cases(6) by simp
    then obtain l ls where ls: "head_lines (l # ls)" "head_scan s i = int (i + 2 + length (head_text (l # ls)))"
        "take (length (head_text (l # ls))) (e # s') = head_text (l # ls)"
      using less.hyps [of "e # s'" "i + 2"] less.prems line
      by (metis head_lines_def neq_Nil_conv length_Cons lessI less_Suc_eq)
    then have "l \<noteq> []" using line(2) by (cases l) (auto simp: head_text_def crlf_def)
    moreover have "head_text ([] # l # ls) = CR # LF # head_text (l # ls)" by (simp add: head_text_def crlf_def)
    ultimately show ?thesis using ls line by (intro exI [of _ "[] # l # ls"]) (simp add: head_lines_def)
  next
    case (empty s')
    then show ?thesis by (intro exI [of _ "[[]]"]) (simp add: head_scan_cases head_lines_def head_text_def crlf_def)
  qed (use less.prems in \<open>simp_all add: head_scan_cases\<close>)
qed

lemma head_end_alt: "head_end s = head_scan (take PP_HTTP_MAX s) 0"
  by (simp add: head_end_def)

lemma head_end_append: "head_end s \<noteq> 0 \<or> PP_HTTP_MAX \<le> length s \<Longrightarrow> head_end (s @ t) = head_end s"
  using head_scan_append [of "take PP_HTTP_MAX s" 0 "take (PP_HTTP_MAX - length s) t"] by (auto simp: head_end_alt)

lemma head_end_lines:
  assumes "head_end s > 0"
  obtains ls where "head_lines ls" "head_end s = int (length (head_text ls))"
    "take (length (head_text ls)) s = head_text ls" "length (head_text ls) \<le> length s"
    "length (head_text ls) \<le> PP_HTTP_MAX"
proof -
  obtain ls where ls: "head_lines ls" "head_end s = int (length (head_text ls))"
      "take (length (head_text ls)) (take PP_HTTP_MAX s) = head_text ls"
    using head_scan_lines assms by (metis head_end_alt add_0)
  have "length (head_text ls) \<le> length s" "length (head_text ls) \<le> PP_HTTP_MAX"
    using arg_cong [OF ls(3), of length] by simp_all
  then show ?thesis using ls that by (simp add: min_def)
qed

section \<open>The request line\<close>

lemma crlf_not_ctype [simp]: "\<not> isupper CR" "\<not> isdigit CR" "byte CR = 13"
  by (simp_all add: isupper_def isdigit_def CR_def byte_def)

lemma guard_Some: "(if a then None else x) = Some q \<longleftrightarrow> \<not> a \<and> x = Some q"
  by simp

lemma takeWhile_cut: "\<forall>c \<in> set a. P c \<Longrightarrow> \<not> P x \<Longrightarrow> takeWhile P (a @ x # r) = a"
  by (induction a) auto

lemma request_line_parts:
  assumes q: "request_line s he = Some q" and l: "take he s = l @ CR # r" "CR \<notin> set l"
  shows "l = rl_method q @ CHR '' '' # rl_target q @ CHR '' '' # rl_version q \<and> rl_hdr q = length l + 2"
proof -
  define h where "h = take he s"
  define m where "m = takeWhile isupper h"
  define s1 where "s1 = drop (length m) h"
  define t where "t = takeWhile (\<lambda>c. byte c > 32 \<and> byte c < 0x7f) (tl s1)"
  define s2 where "s2 = drop (length t) (tl s1)"
  define v where "v = takeWhile (\<lambda>c. c \<noteq> CR) (tl s2)"
  note defs = h_def m_def s1_def t_def s2_def v_def
  have parts: "s1 \<noteq> []" "hd s1 = CHR '' ''" "s2 \<noteq> []" "hd s2 = CHR '' ''"
    "q = \<lparr>rl_method = m, rl_target = t, rl_version = v, rl_hdr = length m + 1 + length t + 1 + length v + 2\<rparr>"
  proof -
    have "\<not> (m = [] \<or> length m > PP_METHOD_MAX \<or> s1 = [] \<or> hd s1 \<noteq> CHR '' '') \<and>
        \<not> (t = [] \<or> s2 = [] \<or> hd s2 \<noteq> CHR '' '') \<and> \<not> \<not> (v = ''HTTP/1.1'' \<or> v = ''HTTP/1.0'') \<and>
        Some \<lparr>rl_method = m, rl_target = t, rl_version = v, rl_hdr = length m + 1 + length t + 1 + length v + 2\<rparr> = Some q"
      using q unfolding request_line_def Let_def defs [symmetric] guard_Some .
    then show "s1 \<noteq> []" "hd s1 = CHR '' ''" "s2 \<noteq> []" "hd s2 = CHR '' ''"
      "q = \<lparr>rl_method = m, rl_target = t, rl_version = v, rl_hdr = length m + 1 + length t + 1 + length v + 2\<rparr>"
      by blast+
  qed
  have split: "x = takeWhile P x @ drop (length (takeWhile P x)) x" for P and x :: string
    by (metis append_eq_conv_conj takeWhile_dropWhile_id)
  have "h = m @ s1" unfolding m_def s1_def by (rule split)
  moreover have "s1 = CHR '' '' # t @ s2"
    using parts(1,2) split [of "tl s1" "\<lambda>c. byte c > 32 \<and> byte c < 0x7f"] unfolding t_def s2_def by (metis list.collapse)
  moreover obtain w where w: "s2 = CHR '' '' # v @ w" "w = [] \<or> hd w = CR"
    using parts(3,4) takeWhile_stop [of "tl s2" "\<lambda>c. c \<noteq> CR"] by (cases s2) (auto simp: v_def)
  ultimately have h: "h = (m @ CHR '' '' # t @ CHR '' '' # v) @ w" by simp
  let ?l = "m @ CHR '' '' # t @ CHR '' '' # v"
  have "CR \<notin> set m" using set_takeWhileD [of CR isupper h] unfolding m_def by (auto simp del: set_takeWhileD)
  moreover have "CR \<notin> set t"
    using set_takeWhileD [of CR "\<lambda>c. byte c > 32 \<and> byte c < 0x7f" "tl s1"] unfolding t_def by auto
  moreover have "CR \<notin> set v" using set_takeWhileD [of CR "\<lambda>c. c \<noteq> CR" "tl s2"] unfolding v_def by auto
  ultimately have no: "CR \<notin> set ?l" by (simp add: CR_def)
  have "CR \<in> set h" using l(1) by (simp add: h_def)
  then have "w \<noteq> []" using h no by auto
  then obtain w' where "w = CR # w'" using w(2) by (cases w) auto
  then have "l @ CR # r = ?l @ CR # w'" using h l(1) by (simp add: h_def)
  moreover have "takeWhile (\<lambda>c. c \<noteq> CR) (l @ CR # r) = l" using l(2) by (intro takeWhile_cut) auto
  moreover have "takeWhile (\<lambda>c. c \<noteq> CR) (?l @ CR # w') = ?l" using no by (intro takeWhile_cut) auto
  ultimately have "l = ?l" by metis
  then show ?thesis using parts(5) by simp
qed

lemma request_line_ok:
  assumes "request_line s he = Some q"
  shows "1 \<le> length (rl_method q) \<and> length (rl_method q) \<le> 20 \<and> list_all isupper (rl_method q) \<and> rl_target q \<noteq> [] \<and>
    list_all (\<lambda>c. 32 < byte c \<and> byte c < 127) (rl_target q) \<and> rl_version q \<in> {''HTTP/1.1'', ''HTTP/1.0''}"
proof -
  have "takeWhile isupper (take he s) \<noteq> [] \<and> length (takeWhile isupper (take he s)) \<le> 20 \<and>
      rl_method q = takeWhile isupper (take he s) \<and> rl_target q \<noteq> [] \<and> rl_version q \<in> {''HTTP/1.1'', ''HTTP/1.0''} \<and>
      (\<exists>x. rl_target q = takeWhile (\<lambda>c. byte c > 32 \<and> byte c < 0x7f) x)"
    using assms unfolding request_line_def Let_def PP_METHOD_MAX_def guard_Some by auto
  then show ?thesis by (auto simp: Suc_le_eq)
qed

section \<open>The header lines\<close>

text \<open>The two passes, on the list of the lines.\<close>

definition header_value :: "string \<Rightarrow> string" where
  "header_value line = trim_blanks (tl (drop (length (takeWhile pp_tchar line)) line))"

definition line_wf :: "string \<Rightarrow> bool" where
  "line_wf line \<longleftrightarrow> \<not> blank (hd line) \<and> takeWhile pp_tchar line \<noteq> [] \<and>
     drop (length (takeWhile pp_tchar line)) line \<noteq> [] \<and> hd (drop (length (takeWhile pp_tchar line)) line) = CHR '':'' \<and>
     list_all (\<lambda>c. \<not> (byte c < 32 \<and> c \<noteq> CHR 0x09)) (header_value line)"

definition host_line :: "string \<Rightarrow> bool" where
  "host_line line \<longleftrightarrow> is_host (takeWhile pp_tchar line)"

fun host_lines :: "string list \<Rightarrow> string option \<Rightarrow> unit + string option" where
  "host_lines [] found = Inr found"
| "host_lines (line # ls) found =
     (if \<not> line_wf line then Inl ()
      else if host_line line then (if found \<noteq> None then Inl () else host_lines ls (Some (header_value line)))
      else host_lines ls found)"

lemma next_cr_line: "drop i s = l @ CR # r \<Longrightarrow> CR \<notin> set l \<Longrightarrow> next_cr s i = Some (i + length l)"
proof -
  assume a: "drop i s = l @ CR # r" "CR \<notin> set l"
  have "i + length l < length s" using arg_cong [OF a(1), of length] by simp
  moreover have "takeWhile (\<lambda>c. c \<noteq> CR) (l @ CR # r) = l" using a(2) by (intro takeWhile_cut) auto
  ultimately show ?thesis using a(1) by (simp add: next_cr_def Let_def)
qed

text \<open>At the start of a line: the line, the index of its end and what follows.\<close>

lemma at_line:
  assumes "drop i (take he s) = head_text (l # ls)" "he \<le> length s" "list_all line_byte l" "l \<noteq> []"
  shows "i + 2 \<le> he - 2" "next_cr s i = Some (i + length l)" "take (i + length l - i) (drop i s) = l"
    "drop (i + length l + 2) (take he s) = head_text ls" "i + length l \<noteq> i"
proof -
  have len: "he - i = length (head_text (l # ls))" using arg_cong [OF assms(1), of length] assms(2) by simp
  then show "i + 2 \<le> he - 2" using assms(4) by (cases l) (simp_all add: head_text_def crlf_def)
  have cr: "CR \<notin> set l" using assms(3) by (auto simp: list_all_iff line_byte_def)
  have hi: "i < he" using len by (simp add: head_text_def crlf_def)
  have "drop i s = drop i (take he s) @ drop he s"
    using hi assms(2) by (metis append_take_drop_id drop_append diff_is_0_eq drop0 length_take less_imp_le min.absorb2)
  then have d: "drop i s = l @ CR # LF # head_text ls @ drop he s"
    using assms(1) by (simp add: head_text_def crlf_def)
  from next_cr_line [OF this cr] show "next_cr s i = Some (i + length l)" .
  show "take (i + length l - i) (drop i s) = l" using d by simp
  have "drop (i + length l + 2) (take he s) = drop (length l + 2) (drop i (take he s))" by (simp add: add.commute add.left_commute)
  then show "drop (i + length l + 2) (take he s) = head_text ls" unfolding assms(1) by (simp add: head_text_def crlf_def)
qed (use assms(4) in simp)

lemma at_end: "drop i (take he s) = head_text [] \<Longrightarrow> he \<le> length s \<Longrightarrow> \<not> i + 2 \<le> he - 2"
  by (drule arg_cong [of _ _ length]) (simp add: head_text_def crlf_def)

lemma host_header_lines:
  "drop i (take he s) = head_text ls \<Longrightarrow> he \<le> length s \<Longrightarrow> list_all (\<lambda>l. list_all line_byte l \<and> l \<noteq> []) ls \<Longrightarrow>
    host_header s i he found = Some (host_lines ls found)"
proof (induction ls arbitrary: i found)
  case Nil
  then show ?case using at_end by (simp add: host_header.simps [of s i he found])
next
  case (Cons l ls)
  have l: "list_all line_byte l" "l \<noteq> []" using Cons.prems(3) by auto
  note at = at_line [OF Cons.prems(1,2) l]
  have ih: "host_header s (i + length l + 2) he f = Some (host_lines ls f)" for f
    using Cons.IH [OF at(4) Cons.prems(2)] Cons.prems(3) by simp
  have "host_header s i he found =
      (if \<not> line_wf l then Some (Inl ())
       else if host_line l then
         (if found \<noteq> None then Some (Inl ()) else host_header s (i + length l + 2) he (Some (header_value l)))
       else host_header s (i + length l + 2) he found)"
    using at l(2) unfolding host_header.simps [of s i he found] line_wf_def host_line_def header_value_def blank_def
    by (simp add: Let_def)
  then show ?case using ih by simp
qed

text \<open>The field's name, and the names the two passes look for.\<close>

definition field_name :: "string \<Rightarrow> string" where
  "field_name line = takeWhile (\<lambda>c. c \<noteq> CHR '':'') line"

definition named :: "string \<Rightarrow> string \<Rightarrow> bool" where
  "named n line \<longleftrightarrow> map tolower (field_name line) = n"

lemma or_32: "or n 32 = k \<Longrightarrow> n = k \<or> n + 32 = (k::nat)"
proof -
  have "or n 32 = set_bit 5 n" by (simp add: set_bit_eq_or push_bit_eq_mult)
  also have "\<dots> = n + of_bool (\<not> bit n 5) * 2 ^ 5" by (rule set_bit_eq)
  finally have "or n 32 = n + of_bool (\<not> bit n 5) * 2 ^ 5" .
  moreover assume "or n 32 = k"
  ultimately show ?thesis by (cases "bit n 5") simp_all
qed

lemma host_letters:
  "byte c = 72 \<longleftrightarrow> c = CHR ''H''" "byte c = 104 \<longleftrightarrow> c = CHR ''h''" "byte c = 79 \<longleftrightarrow> c = CHR ''O''"
  "byte c = 111 \<longleftrightarrow> c = CHR ''o''" "byte c = 83 \<longleftrightarrow> c = CHR ''S''" "byte c = 115 \<longleftrightarrow> c = CHR ''s''"
  "byte c = 84 \<longleftrightarrow> c = CHR ''T''" "byte c = 116 \<longleftrightarrow> c = CHR ''t''"
proof -
  have b: "byte c = byte d \<longleftrightarrow> c = d" for d by (rule byte_inject)
  have n: "byte (CHR ''H'') = 72" "byte (CHR ''h'') = 104" "byte (CHR ''O'') = 79" "byte (CHR ''o'') = 111"
      "byte (CHR ''S'') = 83" "byte (CHR ''s'') = 115" "byte (CHR ''T'') = 84" "byte (CHR ''t'') = 116"
    by (simp_all add: byte_def)
  show "byte c = 72 \<longleftrightarrow> c = CHR ''H''" "byte c = 104 \<longleftrightarrow> c = CHR ''h''" "byte c = 79 \<longleftrightarrow> c = CHR ''O''"
    "byte c = 111 \<longleftrightarrow> c = CHR ''o''" "byte c = 83 \<longleftrightarrow> c = CHR ''S''" "byte c = 115 \<longleftrightarrow> c = CHR ''s''"
    "byte c = 84 \<longleftrightarrow> c = CHR ''T''" "byte c = 116 \<longleftrightarrow> c = CHR ''t''"
    using b [of "CHR ''H''"] b [of "CHR ''h''"] b [of "CHR ''O''"] b [of "CHR ''o''"] b [of "CHR ''S''"]
      b [of "CHR ''s''"] b [of "CHR ''T''"] b [of "CHR ''t''"] by (simp_all only: n)
qed

lemma or_32_cases:
  "or (byte c) 32 = 104 \<Longrightarrow> c = CHR ''H'' \<or> c = CHR ''h''" "or (byte c) 32 = 111 \<Longrightarrow> c = CHR ''O'' \<or> c = CHR ''o''"
  "or (byte c) 32 = 115 \<Longrightarrow> c = CHR ''S'' \<or> c = CHR ''s''" "or (byte c) 32 = 116 \<Longrightarrow> c = CHR ''T'' \<or> c = CHR ''t''"
  unfolding host_letters [symmetric] by (drule or_32, linarith)+

lemma list4: "length n = 4 \<Longrightarrow> n = [n ! 0, n ! 1, n ! 2, n ! 3]"
  by (auto simp: numeral_eq_Suc length_Suc_conv)

lemma tolower_host [simp]:
  "tolower (CHR ''H'') = CHR ''h''" "tolower (CHR ''O'') = CHR ''o''" "tolower (CHR ''S'') = CHR ''s''"
  "tolower (CHR ''T'') = CHR ''t''" "tolower (CHR ''h'') = CHR ''h''" "tolower (CHR ''o'') = CHR ''o''"
  "tolower (CHR ''s'') = CHR ''s''" "tolower (CHR ''t'') = CHR ''t''"
  by (simp_all add: tolower_def isupper_def byte_def char_of_def bit_Suc_0_iff)

lemma is_host_lower: "is_host n \<longleftrightarrow> map tolower n = ''host''"
proof
  assume "is_host n"
  then have n: "n = [n ! 0, n ! 1, n ! 2, n ! 3]" and c: "or (byte (n ! 0)) 32 = 104" "or (byte (n ! 1)) 32 = 111"
      "or (byte (n ! 2)) 32 = 115" "or (byte (n ! 3)) 32 = 116"
    using list4 by (auto simp: is_host_def)
  have "map tolower [n ! 0, n ! 1, n ! 2, n ! 3] = ''host''" using or_32_cases c by fastforce
  then show "map tolower n = ''host''" using n by metis
next
  assume a: "map tolower n = ''host''"
  have t: "tolower c = d \<Longrightarrow> islower d \<Longrightarrow> byte c = byte d \<or> byte c + 32 = byte d" for c d
    by (auto simp: tolower_def isupper_def)
  have or_of: "or 72 32 = (104::nat)" "or 104 32 = (104::nat)" "or 79 32 = (111::nat)" "or 111 32 = (111::nat)"
      "or 83 32 = (115::nat)" "or 115 32 = (115::nat)" "or 84 32 = (116::nat)" "or 116 32 = (116::nat)"
    by simp_all
  from a obtain c1 c2 c3 c4 where n: "n = [c1, c2, c3, c4]" "tolower c1 = CHR ''h''" "tolower c2 = CHR ''o''"
      "tolower c3 = CHR ''s''" "tolower c4 = CHR ''t''" by auto
  have "byte c1 = 104 \<or> byte c1 = 72" "byte c2 = 111 \<or> byte c2 = 79" "byte c3 = 115 \<or> byte c3 = 83"
      "byte c4 = 116 \<or> byte c4 = 84"
    using t [OF n(2)] t [OF n(3)] t [OF n(4)] t [OF n(5)] by (auto simp: islower_def byte_def)
  then show "is_host n" using or_of by (auto simp: is_host_def n(1))
qed

lemma colon_not_tchar: "\<not> pp_tchar (CHR '':'')"
  by (simp add: pp_tchar_def)

lemma line_wf_name: "line_wf line \<Longrightarrow> takeWhile pp_tchar line = field_name line"
proof -
  assume w: "line_wf line"
  let ?n = "takeWhile pp_tchar line"
  have "drop (length ?n) line \<noteq> []" "hd (drop (length ?n) line) = CHR '':''" using w by (simp_all add: line_wf_def)
  then obtain r where "line = ?n @ CHR '':'' # r" by (metis append_eq_conv_conj list.collapse takeWhile_dropWhile_id)
  moreover have "takeWhile (\<lambda>c. c \<noteq> CHR '':'') (?n @ CHR '':'' # r) = ?n"
    using set_takeWhileD [of _ pp_tchar line] colon_not_tchar by (intro takeWhile_cut) auto
  ultimately show ?thesis by (metis field_name_def)
qed

lemma host_line_named: "line_wf line \<Longrightarrow> host_line line \<longleftrightarrow> named ''host'' line"
  by (simp add: host_line_def is_host_lower line_wf_name named_def)

text \<open>Exactly one Host line: every line is well formed, and one is named Host or the value was found
  before.\<close>

lemma host_lines_spec:
  "host_lines ls found = Inr r \<Longrightarrow>
    list_all line_wf ls \<and>
    (case found of
       Some v \<Rightarrow> r = found \<and> filter (named ''host'') ls = []
     | None \<Rightarrow> (case r of None \<Rightarrow> filter (named ''host'') ls = []
                | Some v \<Rightarrow> \<exists>l. filter (named ''host'') ls = [l] \<and> v = header_value l))"
proof (induction ls arbitrary: found)
  case Nil
  then show ?case by (auto split: option.split)
next
  case (Cons l ls)
  have w: "line_wf l" using Cons.prems by (auto split: if_splits)
  show ?case
  proof (cases "named ''host'' l")
    case True
    then have "found = None" "host_lines ls (Some (header_value l)) = Inr r"
      using Cons.prems w host_line_named by (auto split: if_splits)
    from this(1) Cons.IH [OF this(2)] show ?thesis using w True by simp
  next
    case False
    then have "host_lines ls found = Inr r" using Cons.prems w host_line_named by simp
    from Cons.IH [OF this] show ?thesis using w False by (auto split: option.splits)
  qed
qed

section \<open>The framing of the body\<close>

definition line_value :: "string \<Rightarrow> string" where
  "line_value line = trim_blanks (tl (drop (length (field_name line)) line))"

definition no_colon :: "string \<Rightarrow> bool" where
  "no_colon line \<longleftrightarrow> drop (length (field_name line)) line = []"

definition frame_end :: "bool \<Rightarrow> bool \<Rightarrow> nat \<Rightarrow> string + pp_body \<times> nat" where
  "frame_end cl te len =
     (if cl \<and> te then Inl ''both Content-Length and Transfer-Encoding''
      else if te then Inr (PP_BODY_CHUNKED, 0)
      else if cl then Inr (PP_BODY_LENGTH, len)
      else Inr (PP_BODY_NONE, 0))"

fun frame_lines :: "string list \<Rightarrow> bool \<Rightarrow> bool \<Rightarrow> nat \<Rightarrow> string + pp_body \<times> nat" where
  "frame_lines [] cl te len = frame_end cl te len"
| "frame_lines (l # ls) cl te len =
     (if named ''content-length'' l then
        (if cl \<or> no_colon l \<or> line_value l = [] \<or> length (line_value l) > 18 then
           Inl ''a Content-Length twice, or too long''
         else if \<not> list_all isdigit (line_value l) then Inl ''a Content-Length that is not a number''
         else frame_lines ls True te (digits_value (line_value l)))
      else if named ''transfer-encoding'' l then
        (if te \<or> no_colon l \<or> map tolower (line_value l) \<noteq> ''chunked'' then
           Inl ''a transfer coding other than chunked''
         else frame_lines ls cl True len)
      else if named ''upgrade'' l then Inl ''a protocol upgrade (its bytes are not read as requests)''
      else frame_lines ls cl te len)"

lemma framing_lines_frame:
  "drop i (take he s) = head_text ls \<Longrightarrow> he \<le> length s \<Longrightarrow> list_all (\<lambda>l. list_all line_byte l \<and> l \<noteq> []) ls \<Longrightarrow>
    framing_lines s i he cl te len = Some (frame_lines ls cl te len)"
proof (induction ls arbitrary: i cl te len)
  case Nil
  from at_end [OF Nil(1,2)] show ?case
    unfolding framing_lines.simps [of s i he cl te len] Let_def frame_lines.simps frame_end_def by simp
next
  case (Cons l ls)
  have l: "list_all line_byte l" "l \<noteq> []" using Cons.prems(3) by auto
  note at = at_line [OF Cons.prems(1,2) l]
  have ih: "framing_lines s (Suc (Suc (i + length l))) he c t n = Some (frame_lines ls c t n)" for c t n
    using Cons.IH [OF at(4) Cons.prems(2)] Cons.prems(3) by simp
  show ?case
    using at(1,2,3,5) unfolding framing_lines.simps [of s i he cl te len] frame_lines.simps named_def line_value_def
      no_colon_def field_name_def
    by (simp add: Let_def ih del: map_eq_Cons_conv)
qed

text \<open>A framing is read in one way only: no header of the two twice, never both, no upgrade.\<close>

definition framed :: "string list \<Rightarrow> pp_body \<Rightarrow> nat \<Rightarrow> bool" where
  "framed ls b n \<longleftrightarrow>
     filter (named ''upgrade'') ls = [] \<and>
     (case b of
        PP_BODY_NONE \<Rightarrow> filter (named ''content-length'') ls = [] \<and> filter (named ''transfer-encoding'') ls = [] \<and> n = 0
      | PP_BODY_LENGTH \<Rightarrow> filter (named ''transfer-encoding'') ls = [] \<and>
          (\<exists>l. filter (named ''content-length'') ls = [l] \<and> line_value l \<noteq> [] \<and> length (line_value l) \<le> 18 \<and>
            list_all isdigit (line_value l) \<and> n = digits_value (line_value l))
      | PP_BODY_CHUNKED \<Rightarrow> filter (named ''content-length'') ls = [] \<and> n = 0 \<and>
          (\<exists>l. filter (named ''transfer-encoding'') ls = [l] \<and> map tolower (line_value l) = ''chunked''))"

lemma named_unique: "named n l \<Longrightarrow> named m l \<longleftrightarrow> m = n"
  by (auto simp: named_def)

lemma framed_other:
  "\<not> named ''content-length'' l \<Longrightarrow> \<not> named ''transfer-encoding'' l \<Longrightarrow> \<not> named ''upgrade'' l \<Longrightarrow>
    framed (l # ls) b n = framed ls b n"
  by (cases b) (simp_all add: framed_def)

lemma frame_lines_keep:
  "frame_lines ls cl te len = Inr (b, n) \<Longrightarrow>
    filter (named ''upgrade'') ls = [] \<and> (cl \<longrightarrow> filter (named ''content-length'') ls = [] \<and> b = PP_BODY_LENGTH \<and> n = len) \<and>
    (te \<longrightarrow> filter (named ''transfer-encoding'') ls = [] \<and> b = PP_BODY_CHUNKED \<and> n = 0) \<and>
    (\<not> cl \<and> \<not> te \<longrightarrow> framed ls b n) \<and> \<not> (cl \<and> te) \<and>
    (cl \<longrightarrow> filter (named ''transfer-encoding'') ls = []) \<and> (te \<longrightarrow> filter (named ''content-length'') ls = [])"
proof (induction ls arbitrary: cl te len)
  case Nil
  then show ?case by (auto simp: frame_end_def framed_def split: if_splits)
next
  case (Cons l ls)
  consider (cl) "named ''content-length'' l" | (te) "named ''transfer-encoding'' l" | (up) "named ''upgrade'' l"
    | (other) "\<not> named ''content-length'' l" "\<not> named ''transfer-encoding'' l" "\<not> named ''upgrade'' l" by blast
  then show ?case
  proof cases
    case cl
    then have no: "\<not> named ''transfer-encoding'' l" "\<not> named ''upgrade'' l" using named_unique [OF cl] by simp_all
    have v: "\<not> cl" "line_value l \<noteq> []" "length (line_value l) \<le> 18" "list_all isdigit (line_value l)"
        "frame_lines ls True te (digits_value (line_value l)) = Inr (b, n)"
      using Cons.prems cl by (auto split: if_splits)
    have "\<not> te" "filter (named ''upgrade'') ls = []" "filter (named ''content-length'') ls = []"
      "filter (named ''transfer-encoding'') ls = []" "b = PP_BODY_LENGTH" "n = digits_value (line_value l)"
      using Cons.IH [OF v(5)] by auto
    then show ?thesis using v(1-4) cl no by (simp add: framed_def)
  next
    case te
    then have no: "\<not> named ''content-length'' l" "\<not> named ''upgrade'' l" using named_unique [OF te] by simp_all
    have v: "\<not> te" "map tolower (line_value l) = ''chunked''" "frame_lines ls cl True len = Inr (b, n)"
      using Cons.prems te no by (auto split: if_splits)
    have "\<not> cl" "filter (named ''upgrade'') ls = []" "filter (named ''content-length'') ls = []"
      "filter (named ''transfer-encoding'') ls = []" "b = PP_BODY_CHUNKED" "n = 0"
      using Cons.IH [OF v(3)] by auto
    then show ?thesis using v(1,2) te no by (simp add: framed_def)
  next
    case up
    then have "\<not> named ''content-length'' l" "\<not> named ''transfer-encoding'' l" using named_unique [OF up] by simp_all
    then show ?thesis using Cons.prems up by simp
  next
    case other
    then have "frame_lines ls cl te len = Inr (b, n)" using Cons.prems by simp
    from Cons.IH [OF this] show ?thesis using other by (simp add: framed_other)
  qed
qed

lemma frame_lines_framed: "frame_lines ls False False 0 = Inr (b, n) \<Longrightarrow> framed ls b n"
  using frame_lines_keep by blast

section \<open>More bytes\<close>

text \<open>What was read of the lines is kept when more bytes arrive.\<close>

lemma request_line_append: "he \<le> length s \<Longrightarrow> request_line (s @ t) he = request_line s he"
  by (simp add: request_line_def)

text \<open>The lines of a complete head, from the request line on.\<close>

lemma head_parts:
  assumes "head_end s > 0"
  obtains l0 ls where "head_end s = int (length (head_text (l0 # ls)))" "length (head_text (l0 # ls)) \<le> length s"
    "length (head_text (l0 # ls)) \<le> PP_HTTP_MAX" "take (length (head_text (l0 # ls))) s = head_text (l0 # ls)"
    "list_all line_byte l0" "list_all (\<lambda>l. list_all line_byte l \<and> l \<noteq> []) ls"
    "\<And>q. request_line s (length (head_text (l0 # ls))) = Some q \<Longrightarrow>
       l0 = rl_method q @ CHR '' '' # rl_target q @ CHR '' '' # rl_version q \<and>
       drop (rl_hdr q) (take (length (head_text (l0 # ls))) s) = head_text ls"
proof -
  obtain lines where lines: "head_lines lines" "head_end s = int (length (head_text lines))"
      "take (length (head_text lines)) s = head_text lines" "length (head_text lines) \<le> length s"
      "length (head_text lines) \<le> PP_HTTP_MAX"
    using head_end_lines [OF assms] by metis
  obtain l0 ls where l: "lines = l0 # ls" using lines(1) by (cases lines) (auto simp: head_lines_def)
  have wf: "list_all line_byte l0" "list_all (\<lambda>l. list_all line_byte l \<and> l \<noteq> []) ls"
    using lines(1) by (auto simp: l head_lines_def list_all_iff)
  have "l0 = rl_method q @ CHR '' '' # rl_target q @ CHR '' '' # rl_version q \<and>
      drop (rl_hdr q) (take (length (head_text (l0 # ls))) s) = head_text ls"
    if q: "request_line s (length (head_text (l0 # ls))) = Some q" for q
  proof -
    have t: "take (length (head_text (l0 # ls))) s = l0 @ CR # LF # head_text ls"
      using lines(3) by (simp add: l head_text_def crlf_def)
    have "CR \<notin> set l0" using wf(1) by (auto simp: list_all_iff line_byte_def)
    from request_line_parts [OF q t this]
    have l0: "l0 = rl_method q @ CHR '' '' # rl_target q @ CHR '' '' # rl_version q" and h: "rl_hdr q = length l0 + 2" by auto
    have "drop (rl_hdr q) (take (length (head_text (l0 # ls))) s) = head_text ls" unfolding t h by simp
    with l0 show ?thesis by blast
  qed
  then show ?thesis using that lines wf by (simp add: l)
qed

end
