(* ===== verification/Proxy_Tls_Spec.thy ===== *)
theory Proxy_Tls_Spec
  imports Proxy_Tls Proxy_Head_Spec
begin

text \<open>
  What the TLS part answers: never a read outside its input, a name only if it is a host name, the same answer
  when more bytes arrive, and the same answer however the handshake is cut into records.
\<close>

section \<open>Reads\<close>

lemma be16_in [simp]: "i + 1 < length s \<Longrightarrow> be16 s i = Some (256 * byte (s ! i) + byte (s ! (i + 1)))"
  by (simp add: be16_def)

lemma be24_in [simp]:
  "i + 2 < length s \<Longrightarrow> be24 s i = Some (65536 * byte (s ! i) + 256 * byte (s ! (i + 1)) + byte (s ! (i + 2)))"
  by (simp add: be24_def)

lemma slice_in [simp]: "i + n \<le> length s \<Longrightarrow> slice s i n = Some (take n (drop i s))"
  by (simp add: slice_def)

section \<open>The answer of a ClientHello\<close>

text \<open>An answer is given; it changes only the name and the reason; an accepted name is a host name.\<close>

definition answered :: "pp_result \<Rightarrow> pp_answer \<Rightarrow> bool" where
  "answered r x \<longleftrightarrow> (\<exists>st nm w. x = Some (st, r\<lparr>pp_name := nm, pp_why := w\<rparr>) \<and> (st = PP_REFUSE \<or> (st = PP_OK \<and> host_name nm)))"

lemma answered_refuse [simp]: "answered r (refuse r w)" "answered r (refuse (r\<lparr>pp_name := nm\<rparr>) w)"
proof -
  have "r\<lparr>pp_why := w'\<rparr> = r\<lparr>pp_name := pp_name r, pp_why := w'\<rparr>" for w' by simp
  then show "answered r (refuse r w)" unfolding answered_def refuse_def by blast
  show "answered r (refuse (r\<lparr>pp_name := nm\<rparr>) w)" unfolding answered_def refuse_def by blast
qed

lemma answered_ok: "host_name (pp_name r) \<Longrightarrow> answered r (Some (PP_OK, r))"
proof -
  assume "host_name (pp_name r)"
  moreover have "r = r\<lparr>pp_name := pp_name r, pp_why := pp_why r\<rparr>" by simp
  ultimately show ?thesis unfolding answered_def by metis
qed

lemma answered_name: "answered (r\<lparr>pp_name := nm\<rparr>) x \<Longrightarrow> answered r x"
  by (auto simp: answered_def)

lemma answered_if: "(c \<Longrightarrow> answered r x) \<Longrightarrow> (\<not> c \<Longrightarrow> answered r y) \<Longrightarrow> answered r (if c then x else y)"
  by simp

lemma answered_reads:
  "i < length s \<Longrightarrow> answered r (f (s ! i)) \<Longrightarrow> answered r (rd s i \<bind> f)"
  "i + 1 < length s \<Longrightarrow> answered r (g (256 * byte (s ! i) + byte (s ! (i + 1)))) \<Longrightarrow> answered r (be16 s i \<bind> g)"
  "i + n \<le> length s \<Longrightarrow> answered r (h (take n (drop i s))) \<Longrightarrow> answered r (slice s i n \<bind> h)"
  by simp_all

lemma name_ok_host: "name_ok s d = (True, nm) \<Longrightarrow> host_name nm"
  using name_ok_spec [of s d True nm] by simp

lemma sni_names_answered:
  "names = 0 \<or> host_name (pp_name r) \<Longrightarrow> answered r (sni_names e q names r)"
proof (induction "length e - q" arbitrary: q names r rule: less_induct)
  case less
  show ?case
  proof (cases "q < length e \<and> 3 \<le> length e - q")
    case False
    then have "sni_names e q names r =
        (if q < length e then refuse r ''bad server_name''
         else if names = 0 then refuse r ''an empty server_name'' else Some (PP_OK, r))"
      using sni_names.simps [of e q names r] by (cases "q < length e") simp_all
    then show ?thesis using less.prems answered_ok by (auto intro!: answered_if)
  next
    case True
    then have q: "q < length e" "q + 2 < length e" by auto
    let ?nl = "256 * byte (e ! (q + 1)) + byte (e ! (q + 2))"
    let ?nm = "take ?nl (drop (q + 3) e)"
    obtain ok out where nm: "name_ok ?nm False = (ok, out)" by fastforce
    have "answered r (sni_names e (q + 3 + ?nl) 1 (r\<lparr>pp_name := out\<rparr>))" if "ok"
      using less.hyps [of "q + 3 + ?nl" 1 "r\<lparr>pp_name := out\<rparr>"] q nm name_ok_host that answered_name by fastforce
    moreover have "sni_names e q names r =
        (if length e - (q + 3) < ?nl then refuse r ''bad server_name''
         else if e ! q \<noteq> NUL then refuse r ''a server_name that is not a host name''
         else if names + 1 > 1 then refuse r ''more than one SNI name''
         else if \<not> ok then refuse (r\<lparr>pp_name := out\<rparr>) ''an SNI that is not a host name''
         else sni_names e (q + 3 + ?nl) (names + 1) (r\<lparr>pp_name := out\<rparr>))"
      using q True nm by (simp add: sni_names.simps [of e q names r])
    ultimately show ?thesis by (cases "names = 0") auto
  qed
qed

lemma extensions_answered:
  "have_sni \<longrightarrow> host_name (pp_name r) \<Longrightarrow> answered r (extensions b p seen have_sni r)"
proof (induction "length b - p" arbitrary: p seen have_sni r rule: less_induct)
  case less
  show ?case
  proof (cases "p < length b \<and> 4 \<le> length b - p")
    case False
    then have "extensions b p seen have_sni r =
        (if p < length b then refuse r ''bad extension''
         else if \<not> have_sni then refuse r ''no SNI'' else Some (PP_OK, r))"
      using extensions.simps [of b p seen have_sni r] by (cases "p < length b") simp_all
    then show ?thesis using less.prems answered_ok by (auto intro!: answered_if)
  next
    case True
    then have p: "p < length b" "p + 3 < length b" by auto
    have more: "answered r' (extensions b (p + 4 + n) (seen @ [t]) h r')" if "h \<longrightarrow> host_name (pp_name r')" for h r' n t
      using less.hyps [of "p + 4 + n" h r'] p that by simp
    have tail: "answered r (do {
        (st, r') \<leftarrow> sni_names e 2 0 r;
        if st \<noteq> PP_OK then Some (st, r') else extensions b (p + 4 + n) (seen @ [t]) True r' })" for e n t
    proof -
      from sni_names_answered [of 0 r e 2]
      obtain st nm w where sn: "sni_names e 2 0 r = Some (st, r\<lparr>pp_name := nm, pp_why := w\<rparr>)"
          "st = PP_REFUSE \<or> (st = PP_OK \<and> host_name nm)" by (auto simp: answered_def)
      show ?thesis using sn more [of True "r\<lparr>pp_name := nm, pp_why := w\<rparr>" n t] by (auto simp: answered_def)
    qed
    show ?thesis unfolding extensions.simps [of b p seen have_sni r]
      by (intro answered_if answered_refuse answered_reads more less.prems tail) (use p in auto)
  qed
qed

lemma client_hello_answered: "answered r (client_hello b r)"
  unfolding client_hello_def Let_def
  by (intro answered_if answered_refuse answered_reads extensions_answered) auto

section \<open>The records\<close>

lemma refuse_status [simp]: "refuse r w = Some (st, r') \<longleftrightarrow> st = PP_REFUSE \<and> r' = r\<lparr>pp_why := Some w\<rparr>"
  by (auto simp: refuse_def)

text \<open>A pass over the records ends: short of input, refused, or with the answer of a ClientHello.\<close>

definition tls_answer :: "string \<Rightarrow> pp_result \<Rightarrow> pp_answer \<Rightarrow> bool" where
  "tls_answer s r x \<longleftrightarrow>
     (\<exists>st k nm w. x = Some (st, r\<lparr>pp_kind := k, pp_name := nm, pp_why := w\<rparr>) \<and>
       (st = PP_REFUSE \<or> (st = PP_MORE \<and> length s < 16704 \<and> x = Some (PP_MORE, r)) \<or>
        (st = PP_OK \<and> k = PP_KIND_TLS \<and> host_name nm)))"

lemma tls_answer_intros:
  "tls_answer s r (refuse r w)" "tls_answer s r (tls_short s r)"
  "tls_answer s r (client_hello b (r\<lparr>pp_kind := PP_KIND_TLS\<rparr>))"
  "(c \<Longrightarrow> tls_answer s r x) \<Longrightarrow> (\<not> c \<Longrightarrow> tls_answer s r y) \<Longrightarrow> tls_answer s r (if c then x else y)"
  "i < length t \<Longrightarrow> tls_answer s r (f (t ! i)) \<Longrightarrow> tls_answer s r (rd t i \<bind> f)"
  "i + 1 < length t \<Longrightarrow> tls_answer s r (g (256 * byte (t ! i) + byte (t ! (i + 1)))) \<Longrightarrow> tls_answer s r (be16 t i \<bind> g)"
  "i + 2 < length t \<Longrightarrow>
    tls_answer s r (k (65536 * byte (t ! i) + 256 * byte (t ! (i + 1)) + byte (t ! (i + 2)))) \<Longrightarrow>
    tls_answer s r (be24 t i \<bind> k)"
  "i + n \<le> length t \<Longrightarrow> tls_answer s r (h (take n (drop i t))) \<Longrightarrow> tls_answer s r (slice t i n \<bind> h)"
proof -
  have r: "r\<lparr>pp_why := w'\<rparr> = r\<lparr>pp_kind := pp_kind r, pp_name := pp_name r, pp_why := w'\<rparr>" for w' by simp
  show refuse: "tls_answer s r (refuse r w)" for w unfolding tls_answer_def refuse_def using r by blast
  have "r = r\<lparr>pp_kind := pp_kind r, pp_name := pp_name r, pp_why := pp_why r\<rparr>" by simp
  then have "length s < 16704 \<Longrightarrow> tls_answer s r (Some (PP_MORE, r))" unfolding tls_answer_def by metis
  then show "tls_answer s r (tls_short s r)" using refuse by (simp add: tls_short_def pp_limits)
  show "tls_answer s r (client_hello b (r\<lparr>pp_kind := PP_KIND_TLS\<rparr>))"
    using client_hello_answered [of "r\<lparr>pp_kind := PP_KIND_TLS\<rparr>" b] unfolding answered_def tls_answer_def by auto
qed simp_all

lemma tls_records_answer: "tls_answer s r (tls_records s hs off recs r)"
proof (induction "length s - off" arbitrary: hs off recs rule: less_induct)
  case less
  show ?case
  proof (cases "length s - off < 5")
    case True
    then show ?thesis using tls_answer_intros(2) by (simp add: tls_records.simps [of s hs off recs r])
  next
    case False
    then have off: "off < length s" "off + 4 < length s" by auto
    have more: "tls_answer s r (tls_records s hs' (off + 5 + n) recs' r)" for hs' n recs'
      using less.hyps [of "off + 5 + n"] off by simp
    show ?thesis unfolding tls_records.simps [of s hs off recs r] if_not_P [OF False] Let_def
      by (intro tls_answer_intros more) (use off in auto)
  qed
qed

lemma tls_answers: "tls_answer s r (tls s r)"
  by (simp add: tls_def tls_records_answer)

section \<open>More bytes\<close>

text \<open>An answer that is not to read more is kept; a refusal may be for another reason.\<close>

definition settled :: "pp_answer \<Rightarrow> pp_answer \<Rightarrow> bool" where
  "settled x y \<longleftrightarrow>
     (\<exists>st r w. x = Some (st, r) \<and> (st = PP_MORE \<or> (y = Some (st, r\<lparr>pp_why := w\<rparr>) \<and> (st = PP_OK \<longrightarrow> y = x))))"

lemma settled_same: "x \<noteq> None \<Longrightarrow> settled x x"
proof -
  assume "x \<noteq> None"
  then obtain st r where "x = Some (st, r)" by auto
  moreover have "r = r\<lparr>pp_why := pp_why r\<rparr>" by simp
  ultimately show ?thesis unfolding settled_def by metis
qed

lemma settled_refuse [simp]: "settled (refuse r w) (refuse r w')"
  by (auto simp: settled_def refuse_def)

lemma settled_more [simp]: "settled (Some (PP_MORE, r)) y"
  by (auto simp: settled_def)

lemma settled_intros:
  "settled (refuse r w) (refuse r w)"
  "settled (client_hello b r) (client_hello b r)"
  "(c \<Longrightarrow> settled x y) \<Longrightarrow> (\<not> c \<Longrightarrow> settled x' y') \<Longrightarrow> settled (if c then x else x') (if c then y else y')"
  "i < length t \<Longrightarrow> settled (f1 (t ! i)) (g1 (t ! i)) \<Longrightarrow> settled (rd t i \<bind> f1) (rd t i \<bind> g1)"
  "i + 2 < length t \<Longrightarrow>
    settled (f2 (65536 * byte (t ! i) + 256 * byte (t ! (i + 1)) + byte (t ! (i + 2))))
      (g2 (65536 * byte (t ! i) + 256 * byte (t ! (i + 1)) + byte (t ! (i + 2)))) \<Longrightarrow>
    settled (be24 t i \<bind> f2) (be24 t i \<bind> g2)"
  "i + n \<le> length t \<Longrightarrow> settled (f3 (take n (drop i t))) (g3 (take n (drop i t))) \<Longrightarrow>
    settled (slice t i n \<bind> f3) (slice t i n \<bind> g3)"
  "i + n \<le> length s \<Longrightarrow> settled (f3 (take n (drop i s))) (g3 (take n (drop i s))) \<Longrightarrow>
    settled (slice s i n \<bind> f3) (slice (s @ t) i n \<bind> g3)"
  using client_hello_answered [of r b] by (auto simp: answered_def intro: settled_same)

text \<open>The loop's accounting: the input read is the handshake bytes and five bytes for each record.\<close>

definition records_inv :: "string \<Rightarrow> string \<Rightarrow> nat \<Rightarrow> nat \<Rightarrow> bool" where
  "records_inv s hs off recs \<longleftrightarrow> off = length hs + 5 * recs \<and> recs \<le> 64 \<and> length hs \<le> 16384 \<and> off \<le> length s"

definition rec_len :: "string \<Rightarrow> nat \<Rightarrow> nat" where
  "rec_len s off = 256 * byte (s ! (off + 3)) + byte (s ! (off + 4))"

definition rec_bad :: "string \<Rightarrow> nat \<Rightarrow> pp_result \<Rightarrow> pp_answer option" where
  "rec_bad s off r =
     (if byte (s ! off) \<noteq> 22 then Some (refuse r ''not a TLS handshake record'')
      else if byte (s ! (off + 1)) \<noteq> 3 \<or> byte (s ! (off + 2)) < 1 \<or> byte (s ! (off + 2)) > 3 then
        Some (refuse r ''not a TLS 1.0-1.3 record'')
      else if rec_len s off = 0 \<or> rec_len s off > 16384 then Some (refuse r ''bad record length'')
      else None)"

text \<open>What is done with a whole handshake so far.\<close>

definition after_record :: "string \<Rightarrow> string \<Rightarrow> nat \<Rightarrow> nat \<Rightarrow> pp_result \<Rightarrow> pp_answer" where
  "after_record s hs off recs r =
     do {
       h0 \<leftarrow> rd hs 0;
       if byte h0 \<noteq> 1 then refuse r ''not a ClientHello''
       else if length hs < 4 then tls_records s hs off recs r
       else do {
         ml \<leftarrow> be24 hs 1;
         if ml > PP_TLS_MAX - 4 then refuse r ''a ClientHello over 16 KB''
         else if length hs < 4 + ml then tls_records s hs off recs r
         else if length hs > 4 + ml then refuse r ''more than a ClientHello in its records''
         else do {
           body \<leftarrow> slice hs 4 ml;
           client_hello body (r\<lparr>pp_kind := PP_KIND_TLS\<rparr>)
         }
       }
     }"

lemma tls_records_short: "length s - off < 5 \<Longrightarrow> tls_records s hs off recs r = tls_short s r"
  by (simp add: tls_records.simps [of s hs off recs r])

lemma tls_records_step:
  assumes "off + 4 < length s"
  shows "tls_records s hs off recs r =
    (case rec_bad s off r of
       Some x \<Rightarrow> x
     | None \<Rightarrow>
         if length s - off - 5 < rec_len s off then tls_short s r
         else if recs + 1 > PP_TLS_RECORDS then refuse r ''a ClientHello over too many records''
         else if rec_len s off > PP_TLS_MAX - length hs then refuse r ''a ClientHello over 16 KB''
         else after_record s (hs @ take (rec_len s off) (drop (off + 5) s)) (off + 5 + rec_len s off) (recs + 1) r)"
proof -
  have n: "\<not> length s - off < 5" using assms by simp
  have h: "rd s off = Some (s ! off)" "rd s (off + 1) = Some (s ! (off + 1))" "rd s (off + 2) = Some (s ! (off + 2))"
      "be16 s (off + 3) = Some (rec_len s off)"
    using assms be16_in [of "off + 3" s] by (simp_all add: rec_len_def add.commute)
  have sl: "\<not> length s - off - 5 < rec_len s off \<Longrightarrow>
      slice s (off + 5) (rec_len s off) = Some (take (rec_len s off) (drop (off + 5) s))"
    using assms by (intro slice_in) linarith
  show ?thesis
    unfolding tls_records.simps [of s hs off recs r] if_not_P [OF n] h Option.bind_lunit rec_bad_def after_record_def Let_def
    using sl by (simp del: be24_in slice_in)
qed

text \<open>With 16,704 bytes of records that the limits leave no room for, the answer is a refusal.\<close>

lemma over_refused:
  assumes "records_inv s hs off recs" "length s \<ge> 16704"
    and "off > 16699 \<or> (off + 4 < length s \<and> off + 5 + rec_len s off > 16704)"
  shows "\<exists>w. tls_records s hs off recs r = refuse r w"
proof (cases "length s - off < 5")
  case True
  then show ?thesis using tls_records_short assms(2) by (auto simp: tls_short_def pp_limits)
next
  case False
  then have off: "off + 4 < length s" by simp
  have "rec_bad s off r = None \<Longrightarrow> recs + 1 > PP_TLS_RECORDS \<or> rec_len s off > PP_TLS_MAX - length hs"
    using assms(1,3) by (auto simp: records_inv_def pp_limits)
  then show ?thesis using tls_records_step [OF off, of hs recs r] assms(2)
    by (auto simp: rec_bad_def tls_short_def pp_limits split: if_splits)
qed

lemma tls_short_settled: "(length s \<ge> 16704 \<Longrightarrow> \<exists>w. y = refuse r w) \<Longrightarrow> settled (tls_short s r) y"
  by (auto simp: tls_short_def pp_limits)

lemma tls_records_settled:
  "records_inv s hs off recs \<Longrightarrow> settled (tls_records s hs off recs r) (tls_records (s @ t) hs off recs r)"
proof (induction "length s - off" arbitrary: hs off recs rule: less_induct)
  case less
  have inv: "records_inv (s @ t) hs off recs" using less.prems by (simp add: records_inv_def)
  show ?case
  proof (cases "length s - off < 5")
    case True
    have "length s \<ge> 16704 \<Longrightarrow> off > 16699" using True by linarith
    then have "length s \<ge> 16704 \<Longrightarrow> \<exists>w. tls_records (s @ t) hs off recs r = refuse r w"
      using over_refused [OF inv] by simp
    then show ?thesis using tls_short_settled by (simp add: tls_records_short [OF True])
  next
    case False
    then have off: "off + 4 < length s" "off + 4 < length (s @ t)" by auto
    have same: "rec_len (s @ t) off = rec_len s off" "rec_bad (s @ t) off r = rec_bad s off r"
      using off by (simp_all add: rec_len_def rec_bad_def nth_append)
    let ?n = "rec_len s off"
    let ?hs = "hs @ take ?n (drop (off + 5) s)"
    show ?thesis
    proof (cases "rec_bad s off r")
      case (Some x)
      then have "tls_records s hs off recs r = x" "tls_records (s @ t) hs off recs r = x"
        using tls_records_step [OF off(1)] tls_records_step [OF off(2)] same(2) by simp_all
      moreover have "\<exists>w. x = refuse r w" using Some by (auto simp: rec_bad_def split: if_splits)
      ultimately show ?thesis by auto
    next
      case None
      show ?thesis
      proof (cases "length s - off - 5 < ?n")
        case True
        then have "tls_records s hs off recs r = tls_short s r" using tls_records_step [OF off(1)] None by simp
        moreover have "length s \<ge> 16704 \<Longrightarrow> off + 5 + rec_len (s @ t) off > 16704" using True off(1) same(1) by linarith
        then have "length s \<ge> 16704 \<Longrightarrow> \<exists>w. tls_records (s @ t) hs off recs r = refuse r w"
          using over_refused [OF inv] off by simp
        ultimately show ?thesis using tls_short_settled by simp
      next
        case room: False
        show ?thesis
        proof (cases "recs + 1 > PP_TLS_RECORDS \<or> ?n > PP_TLS_MAX - length hs")
          case True
          then show ?thesis
            using tls_records_step [OF off(1)] tls_records_step [OF off(2)] same None room by auto
        next
          case ok: False
          have x: "take ?n (drop (off + 5) (s @ t)) = take ?n (drop (off + 5) s)" using room off by simp
          have n: "0 < ?n" using None by (auto simp: rec_bad_def split: if_splits)
          have hs: "length ?hs = length hs + ?n" using room off by simp
          have "records_inv s ?hs (off + 5 + ?n) (recs + 1)"
            using less.prems ok room off hs by (auto simp: records_inv_def pp_limits)
          then have ih: "settled (tls_records s ?hs (off + 5 + ?n) (recs + 1) r)
              (tls_records (s @ t) ?hs (off + 5 + ?n) (recs + 1) r)"
            using less.hyps off(1) by simp
          have "settled (after_record s ?hs (off + 5 + ?n) (recs + 1) r) (after_record (s @ t) ?hs (off + 5 + ?n) (recs + 1) r)"
            unfolding after_record_def by (intro settled_intros ih) (use n hs in auto)
          then show ?thesis
            using tls_records_step [OF off(1), of hs recs r] tls_records_step [OF off(2), of hs recs r] same None room ok x
            by auto
        qed
      qed
    qed
  qed
qed

lemma tls_settled: "settled (tls s r) (tls (s @ t) r)"
  unfolding tls_def by (rule tls_records_settled) (simp add: records_inv_def)

section \<open>However the handshake is cut into records\<close>

text \<open>A handshake record, and the handshake message of a ClientHello.\<close>

definition tls_record :: "nat \<Rightarrow> string \<Rightarrow> string" where
  "tls_record v x = [char_of (22::nat), char_of (3::nat), char_of v, char_of (length x div 256), char_of (length x mod 256)] @ x"

definition hello_message :: "string \<Rightarrow> string" where
  "hello_message b =
     [char_of (1::nat), char_of (length b div 65536), char_of (length b div 256 mod 256), char_of (length b mod 256)] @ b"

lemma length_tls_record [simp]: "length (tls_record v x) = 5 + length x"
  by (simp add: tls_record_def)

lemma byte_char_of_mod [simp]: "byte (char_of n) = n mod 256"
  by (simp add: byte_def)

lemma at_record:
  assumes "s = pre @ tls_record v x @ rest" "1 \<le> v" "v \<le> 3" "x \<noteq> []" "length x \<le> 16384"
  shows "rec_bad s (length pre) r = None" "rec_len s (length pre) = length x" "length pre + 4 < length s"
    "take (length x) (drop (length pre + 5) s) = x"
proof -
  have at: "s ! (length pre + i) = tls_record v x ! i" if "i < 5" for i
    using that by (simp add: assms(1) nth_append)
  have l: "length x div 256 < 256" using assms(5) by (simp add: div_less_iff_less_mult)
  have b: "byte (s ! (length pre)) = 22" "byte (s ! (length pre + 1)) = 3" "byte (s ! (length pre + 2)) = v"
      "byte (s ! (length pre + 3)) = length x div 256" "byte (s ! (length pre + 4)) = length x mod 256"
    using at [of 0] at [of 1] at [of 2] at [of 3] at [of 4] assms(2,3) l by (simp_all add: tls_record_def)
  show len: "rec_len s (length pre) = length x" by (simp add: rec_len_def b)
  then show "rec_bad s (length pre) r = None" using assms(2-5) unfolding rec_bad_def b by simp
  show "length pre + 4 < length s" by (simp add: assms(1))
  have "drop (length pre + 5) s = x @ rest" by (simp add: assms(1) tls_record_def)
  then show "take (length x) (drop (length pre + 5) s) = x" by simp
qed

text \<open>A handshake message read in part: its first byte, and its length once four bytes are there.\<close>

lemma hello_part:
  assumes "h @ u = hello_message b" "length b \<le> 16380"
  shows "h \<noteq> [] \<Longrightarrow> byte (h ! 0) = 1" "4 \<le> length h \<Longrightarrow> be24 h 1 = Some (length b)" "length h + length u = 4 + length b"
proof -
  have at: "i < length h \<Longrightarrow> h ! i = hello_message b ! i" for i using assms(1) by (metis nth_append)
  show "h \<noteq> [] \<Longrightarrow> byte (h ! 0) = 1" using at [of 0] by (simp add: hello_message_def)
  show "length h + length u = 4 + length b" using arg_cong [OF assms(1), of length] by (simp add: hello_message_def)
  assume h: "4 \<le> length h"
  have b: "byte (h ! 1) = 0" "byte (h ! 2) = length b div 256" "byte (h ! 3) = length b mod 256"
    using h at [of 1] at [of 2] at [of 3] assms(2) by (simp_all add: hello_message_def div_less_iff_less_mult)
  have "rd h 1 = Some (h ! 1)" "rd h (1 + 1) = Some (h ! 2)" "rd h (1 + 2) = Some (h ! 3)"
    using h by (simp_all add: rd_def numeral_2_eq_2 numeral_3_eq_3)
  then have "be24 h 1 = Some (65536 * byte (h ! 1) + 256 * byte (h ! 2) + byte (h ! 3))"
    unfolding be24_def by simp
  then show "be24 h 1 = Some (length b)" unfolding b by simp
qed

lemma records_read:
  assumes "length b \<le> 16380" "xs \<noteq> []" "\<forall>x \<in> set xs. x \<noteq> [] \<and> length x \<le> 16384" "1 \<le> v" "v \<le> 3"
    "s = pre @ concat (map (tls_record v) xs) @ rest" "hs @ concat xs = hello_message b"
    "recs + length xs \<le> 64"
  shows "tls_records s hs (length pre) recs r = client_hello b (r\<lparr>pp_kind := PP_KIND_TLS\<rparr>)"
  using assms(2,3,6-)
proof (induction xs arbitrary: pre hs recs)
  case Nil
  then show ?case by simp
next
  case (Cons x xs)
  have x: "x \<noteq> []" "length x \<le> 16384" using Cons.prems(2) by auto
  have s: "s = pre @ tls_record v x @ concat (map (tls_record v) xs) @ rest" using Cons.prems(3) by simp
  note rec = at_record [OF s assms(4,5) x]
  let ?h = "hs @ x"
  have h: "?h @ concat xs = hello_message b" using Cons.prems(4) by simp
  note part = hello_part [OF h assms(1)]
  have room: "\<not> length s - length pre - 5 < length x" by (simp add: s)
  have lim: "\<not> recs + 1 > PP_TLS_RECORDS" "\<not> length x > PP_TLS_MAX - length hs"
    using Cons.prems(5) part(3) assms(1) by (simp_all add: pp_limits)
  have step: "tls_records s hs (length pre) recs r = after_record s ?h (length pre + 5 + length x) (recs + 1) r"
    using tls_records_step [OF rec(3), of hs recs r] rec room lim by simp
  have h0: "rd ?h 0 = Some (?h ! 0)" "byte (?h ! 0) = 1" using part(1) x(1) by simp_all
  show ?case
  proof (cases "xs = []")
    case True
    then have eq: "?h = hello_message b" using h by simp
    have l: "length ?h = 4 + length b" using part(3) True by simp
    have "4 \<le> length ?h" using l by simp
    then have "be24 ?h 1 = Some (length b)" by (rule part(2))
    moreover have "slice ?h 4 (length b) = Some b" unfolding eq by (simp add: hello_message_def slice_def)
    ultimately show ?thesis unfolding step after_record_def h0 Option.bind_lunit using h0(2) l assms(1)
      by (simp add: pp_limits del: be24_in)
  next
    case False
    then obtain y ys where "xs = y # ys" "y \<noteq> []" using Cons.prems(2) by (cases xs) auto
    then have l: "length ?h < 4 + length b" using part(3) by (cases y) auto
    have next_rec: "tls_records s ?h (length (pre @ tls_record v x)) (recs + 1) r =
        client_hello b (r\<lparr>pp_kind := PP_KIND_TLS\<rparr>)"
      using Cons.IH [OF False _ _ h, of "pre @ tls_record v x" "recs + 1"] Cons.prems by simp
    then have rest: "tls_records s ?h (length pre + 5 + length x) (recs + 1) r = client_hello b (r\<lparr>pp_kind := PP_KIND_TLS\<rparr>)"
      by (simp add: add.assoc)
    show ?thesis
    proof (cases "length ?h < 4")
      case True
      then show ?thesis unfolding step after_record_def h0 Option.bind_lunit using h0(2) rest by simp
    next
      case four: False
      then have "be24 ?h 1 = Some (length b)" using part(2) by simp
      then show ?thesis unfolding step after_record_def h0 Option.bind_lunit using h0(2) rest four l assms(1)
        by (simp add: pp_limits del: be24_in)
    qed
  qed
qed

text \<open>However a ClientHello of at most 16,380 bytes is cut into records - up to 64 of them, none empty -
  \<open>tls\<close> gives the answer of \<open>client_hello\<close> on the message, whatever bytes follow the records.\<close>

theorem tls_cut_independent:
  assumes "concat xs = hello_message b" "length b \<le> 16380" "length xs \<le> 64"
    "\<forall>x \<in> set xs. x \<noteq> [] \<and> length x \<le> 16384" "1 \<le> v" "v \<le> 3"
  shows "tls (concat (map (tls_record v) xs) @ rest) r = client_hello b (r\<lparr>pp_kind := PP_KIND_TLS\<rparr>)"
proof -
  have "xs \<noteq> []" using assms(1) by (auto simp: hello_message_def)
  from records_read [OF assms(2) this assms(4-6), of _ "[]" rest "[]" 0 r] show ?thesis using assms(1,3) by (simp add: tls_def)
qed

end
