(* ===== verification/Proxy_Parse_Spec.thy ===== *)
theory Proxy_Parse_Spec
  imports Proxy_Parse Proxy_Tls_Spec
begin

text \<open>
  What the parsers' entry points answer. Every call is answered without a read outside its input; a request is
  for one host name and port, with one framing; and a parser that is asked again with more bytes keeps its
  answer, which the locale \<open>stream_parser\<close> turns into the independence of the answer from how the bytes
  were cut into reads.
\<close>

section \<open>Complete heads\<close>

definition head_is :: "string \<Rightarrow> nat \<Rightarrow> string \<Rightarrow> string list \<Rightarrow> bool" where
  "head_is s he l0 ls \<longleftrightarrow> head_end s = int he \<and> 0 < he \<and> he \<le> length s \<and> he \<le> PP_HTTP_MAX \<and>
     take he s = head_text (l0 # ls) \<and> list_all line_byte l0 \<and> list_all (\<lambda>l. list_all line_byte l \<and> l \<noteq> []) ls"

lemma head_isI:
  assumes "head_end s > 0"
  obtains he l0 ls where "head_is s he l0 ls"
proof (rule head_parts [OF assms])
  fix l0 ls
  assume a: "head_end s = int (length (head_text (l0 # ls)))" "length (head_text (l0 # ls)) \<le> length s"
    "length (head_text (l0 # ls)) \<le> PP_HTTP_MAX" "take (length (head_text (l0 # ls))) s = head_text (l0 # ls)"
    "list_all line_byte l0" "list_all (\<lambda>l. list_all line_byte l \<and> l \<noteq> []) ls"
  have "0 < length (head_text (l0 # ls))" using assms a(1) by linarith
  with a have "head_is s (length (head_text (l0 # ls))) l0 ls" unfolding head_is_def by blast
  then show thesis by (rule that)
qed

lemma head_is_append: "head_is s he l0 ls \<Longrightarrow> head_is (s @ t) he l0 ls"
  using head_end_append [of s t] by (simp add: head_is_def)

lemma head_is_len: "head_is s he l0 ls \<Longrightarrow> he = length (head_text (l0 # ls))"
  unfolding head_is_def by (metis length_take min.absorb2)

lemma head_is_line:
  assumes h: "head_is s he l0 ls" and q: "request_line s he = Some q"
  shows "l0 = rl_method q @ CHR '' '' # rl_target q @ CHR '' '' # rl_version q"
    "host_header s (rl_hdr q) he None = Some (host_lines ls None)"
    "framing s (rl_hdr q) he = Some (frame_lines ls False False 0)"
proof -
  have t: "take he s = l0 @ CR # LF # head_text ls" using h by (simp add: head_is_def head_text_def crlf_def)
  have "CR \<notin> set l0" using h by (auto simp: head_is_def list_all_iff line_byte_def)
  from request_line_parts [OF q t this]
  have l0: "l0 = rl_method q @ CHR '' '' # rl_target q @ CHR '' '' # rl_version q" and hdr: "rl_hdr q = length l0 + 2" by auto
  show "l0 = rl_method q @ CHR '' '' # rl_target q @ CHR '' '' # rl_version q" by (rule l0)
  have d: "drop (rl_hdr q) (take he s) = head_text ls" unfolding t hdr by simp
  have wf: "he \<le> length s" "list_all (\<lambda>l. list_all line_byte l \<and> l \<noteq> []) ls" using h by (simp_all add: head_is_def)
  show "host_header s (rl_hdr q) he None = Some (host_lines ls None)" by (rule host_header_lines [OF d wf])
  show "framing s (rl_hdr q) he = Some (frame_lines ls False False 0)"
    unfolding framing_def by (rule framing_lines_frame [OF d wf])
qed

lemma head_is_request_line: "head_is s he l0 ls \<Longrightarrow> request_line (s @ t) he = request_line s he"
  using request_line_append by (simp add: head_is_def)

lemma head_is_end: "head_is s he l0 ls \<Longrightarrow> head_end s = int he" "head_is s he l0 ls \<Longrightarrow> 0 < he"
  "head_is s he l0 ls \<Longrightarrow> he \<le> length s" "head_is s he l0 ls \<Longrightarrow> he \<le> PP_HTTP_MAX"
  by (simp_all add: head_is_def)

section \<open>A plain HTTP request\<close>

lemma authority_ok:
  assumes "authority s = (True, nm, p)"
  shows "host_name nm \<and> p \<le> 65535"
  using assms name_ok_host by (auto simp: authority_def Let_def split: if_splits prod.splits)

lemma http_framed_lines:
  assumes "head_is s he l0 ls" "request_line s he = Some q"
  shows "http_framed s he q dport r =
    (case frame_lines ls False False 0 of
       Inl why \<Rightarrow> refuse r why
     | Inr (b, n) \<Rightarrow> Some (PP_OK, r\<lparr>pp_body := b, pp_body_len := n, pp_head_len := he, pp_port := dport\<rparr>))"
  unfolding http_framed_def head_is_line(3) [OF assms] by simp

text \<open>The answer once the head is complete, from its lines.\<close>

lemma http_cases:
  obtains (malformed) "head_end s < 0" | (more) "head_end s = 0" "length s < PP_HTTP_MAX"
    | (long) "head_end s = 0" "PP_HTTP_MAX \<le> length s" | (complete) he l0 ls where "head_is s he l0 ls"
proof (cases "head_end s > 0")
  case True
  then show ?thesis using head_isI that(4) by metis
next
  case False
  then show ?thesis using that(1-3) by linarith
qed

lemma http_append:
  assumes "head_end s \<noteq> 0 \<or> PP_HTTP_MAX \<le> length s"
  shows "http (s @ t) dport r = http s dport r"
proof (cases s rule: http_cases)
  case malformed
  then show ?thesis using head_end_append [OF assms] by (simp add: http_def)
next
  case more
  then show ?thesis using assms by simp
next
  case long
  then show ?thesis using head_end_append [OF assms] by (simp add: http_def)
next
  case (complete he l0 ls)
  note h2 = head_is_append [OF complete, of t]
  show ?thesis
  proof (cases "request_line s he")
    case None
    then show ?thesis using head_is_end [OF complete] head_is_end [OF h2] head_is_request_line [OF complete, of t]
      by (simp add: http_def)
  next
    case (Some q)
    then have q2: "request_line (s @ t) he = Some q" using head_is_request_line [OF complete] by simp
    have fr: "http_framed (s @ t) he q dport r' = http_framed s he q dport r'" for r'
      unfolding http_framed_lines [OF complete Some] http_framed_lines [OF h2 q2] ..
    then show ?thesis
      unfolding http_def Let_def head_is_end(1) [OF complete] head_is_end(1) [OF h2] nat_int Some q2 option.case
        head_is_line(2) [OF complete Some] head_is_line(2) [OF h2 q2] fr
      using head_is_end(2) [OF complete] by simp
  qed
qed

text \<open>What an accepted plain request says of its head.\<close>

definition http_request :: "string \<Rightarrow> nat \<Rightarrow> pp_result \<Rightarrow> bool" where
  "http_request s dport r \<longleftrightarrow>
     pp_kind r = PP_KIND_HTTP \<and> pp_port r = dport \<and> host_name (pp_name r) \<and> 0 < pp_head_len r \<and> pp_head_len r \<le> length s \<and>
     (\<exists>l0 ls l hp. take (pp_head_len r) s = head_text (l0 # ls) \<and> list_all line_wf ls \<and>
        filter (named ''host'') ls = [l] \<and> authority (header_value l) = (True, pp_name r, hp) \<and> (hp = 0 \<or> hp = dport) \<and>
        framed ls (pp_body r) (pp_body_len r))"

text \<open>An answer to a request: no byte outside the input was read, more bytes are asked for only of an incomplete
  head, and an accepted request is what its head says.\<close>

definition http_ans :: "string \<Rightarrow> nat \<Rightarrow> pp_answer \<Rightarrow> bool" where
  "http_ans s dport x \<longleftrightarrow>
     (\<exists>st r. x = Some (st, r) \<and>
        (st = PP_REFUSE \<or> (st = PP_MORE \<and> length s < PP_HTTP_MAX \<and> head_end s = 0) \<or> (st = PP_OK \<and> http_request s dport r)))"

lemma http_ans_intros:
  "http_ans s dport (refuse r w)"
  "(c \<Longrightarrow> http_ans s dport x) \<Longrightarrow> (\<not> c \<Longrightarrow> http_ans s dport y) \<Longrightarrow> http_ans s dport (if c then x else y)"
  by (simp_all add: http_ans_def refuse_def)

lemma http_framed_ans:
  assumes h: "head_is s he l0 ls" and q: "request_line s he = Some q" and v: "host_lines ls None = Inr (Some v)"
    and a: "authority v = (True, nm, hp)" "hp = 0 \<or> hp = dport"
  shows "http_ans s dport (http_framed s he q dport (r\<lparr>pp_kind := PP_KIND_HTTP, pp_name := nm\<rparr>))"
proof (cases "frame_lines ls False False 0")
  case (Inl why)
  then show ?thesis using http_framed_lines [OF h q] http_ans_intros(1) by simp
next
  case (Inr x)
  obtain b n where x: "x = (b, n)" by (cases x)
  have fr: "framed ls b n" using frame_lines_framed Inr x by blast
  obtain l where l: "list_all line_wf ls" "filter (named ''host'') ls = [l]" "v = header_value l"
    using host_lines_spec [OF v] by auto
  let ?r = "r\<lparr>pp_kind := PP_KIND_HTTP, pp_name := nm, pp_body := b, pp_body_len := n, pp_head_len := he, pp_port := dport\<rparr>"
  have "take he s = head_text (l0 # ls)" using h by (simp add: head_is_def)
  then have "\<exists>l0 ls l hp. take he s = head_text (l0 # ls) \<and> list_all line_wf ls \<and> filter (named ''host'') ls = [l] \<and>
      authority (header_value l) = (True, nm, hp) \<and> (hp = 0 \<or> hp = dport) \<and> framed ls b n"
    using l a fr by blast
  then have "http_request s dport ?r"
    unfolding http_request_def using authority_ok [OF a(1)] head_is_end(2,3) [OF h] by simp
  then show ?thesis unfolding http_framed_lines [OF h q] Inr x by (simp add: http_ans_def)
qed

lemma http_answer: "http_ans s dport (http s dport r)"
proof (cases s rule: http_cases)
  case (complete he l0 ls)
  note he = head_is_end(1) [OF complete]
  have pos: "\<not> int he < 0" "int he \<noteq> 0" using head_is_end(2) [OF complete] by simp_all
  show ?thesis
  proof (cases "request_line s he")
    case None
    show ?thesis unfolding http_def Let_def he nat_int if_not_P [OF pos(1)] if_not_P [OF pos(2)] None option.case
      by (rule http_ans_intros)
  next
    case (Some q)
    note unf = http_def Let_def he nat_int if_not_P [OF pos(1)] if_not_P [OF pos(2)] Some option.case
      head_is_line(2) [OF complete Some] Option.bind_lunit
    show ?thesis
    proof (cases "host_lines ls None")
      case (Inl u)
      show ?thesis unfolding unf Inl sum.case by (intro http_ans_intros)
    next
      case (Inr found)
      show ?thesis
      proof (cases found)
        case None
        show ?thesis unfolding unf Inr None sum.case option.case by (intro http_ans_intros)
      next
        case v: (Some v)
        obtain okv nm hp where a: "authority v = (okv, nm, hp)" by (cases "authority v")
        obtain okt an ap where b: "authority (authority_part (drop 7 (rl_target q))) = (okt, an, ap)"
          by (cases "authority (authority_part (drop 7 (rl_target q)))")
        have fr: "okv \<Longrightarrow> hp = 0 \<or> hp = dport \<Longrightarrow>
            http_ans s dport (http_framed s he q dport (r\<lparr>pp_kind := PP_KIND_HTTP, pp_name := nm\<rparr>))"
          using http_framed_ans [OF complete Some, of v nm hp dport r] Inr v a by simp
        show ?thesis unfolding unf Inr v sum.case option.case a b prod.case by (intro http_ans_intros fr) auto
      qed
    qed
  qed
qed (simp_all add: http_def http_ans_intros, simp_all add: http_ans_def)

section \<open>A CONNECT\<close>

text \<open>The steps of a CONNECT after its head is complete, with what the lines of the head say.\<close>

definition connect_named :: "string \<Rightarrow> nat \<Rightarrow> unit + string option \<Rightarrow> bool" where
  "connect_named nm port h =
     (case h of
        Inr (Some v) \<Rightarrow> (case authority v of (ok, hn, hp) \<Rightarrow> ok \<and> hn = nm \<and> (hp = 0 \<or> hp = port))
      | _ \<Rightarrow> True)"

definition connect_done :: "string \<Rightarrow> nat \<Rightarrow> pp_answer \<Rightarrow> pp_answer" where
  "connect_done nm port x =
     do {
       (st, r) \<leftarrow> x;
       let r = r\<lparr>pp_kind := PP_KIND_CONNECT, pp_port := port\<rparr> in
       if st \<noteq> PP_OK then Some (st, r)
       else if pp_name r \<noteq> nm then refuse r ''an SNI that is not the CONNECT target''
       else Some (PP_OK, r)
     }"

definition connect_steps ::
  "string \<Rightarrow> nat \<Rightarrow> req_line option \<Rightarrow> string list \<Rightarrow> bool \<Rightarrow> pp_result \<Rightarrow> pp_answer" where
  "connect_steps s he rl ls acked r =
     (let r = r\<lparr>pp_kind := PP_KIND_CONNECT\<rparr> in
      case rl of
        None \<Rightarrow> refuse r ''a malformed CONNECT line''
      | Some q \<Rightarrow>
          if rl_method q \<noteq> ''CONNECT'' then refuse r ''a malformed CONNECT line''
          else
            (case authority (rl_target q) of (ok, nm, port) \<Rightarrow>
               if \<not> ok \<or> port = 0 then refuse r ''a CONNECT target that is not host:port''
               else if host_lines ls None = Inl () then refuse r ''malformed headers, or more than one Host''
               else if \<not> connect_named nm port (host_lines ls None) then refuse r ''a Host that is not the CONNECT target''
               else
                 let r = r\<lparr>pp_connect_len := he, pp_port := port\<rparr> in
                 if \<not> acked then
                   (if he < length s then refuse r ''data before the CONNECT was answered''
                    else Some (PP_ACK, r\<lparr>pp_name := nm\<rparr>))
                 else connect_done nm port (tls (drop he s) r)))"

lemma connect_req_steps:
  assumes "head_is s he l0 ls"
  shows "connect_req s acked r = connect_steps s he (request_line s he) ls acked r"
proof -
  note he = head_is_end(1) [OF assms]
  have pos: "\<not> int he < 0" "int he \<noteq> 0" using head_is_end(2) [OF assms] by simp_all
  show ?thesis
  proof (cases "request_line s he")
    case None
    show ?thesis
      unfolding connect_req_def connect_steps_def Let_def he nat_int if_not_P [OF pos(1)] if_not_P [OF pos(2)] None option.case ..
  next
    case (Some q)
    show ?thesis
      unfolding connect_req_def connect_steps_def Let_def he nat_int if_not_P [OF pos(1)] if_not_P [OF pos(2)] Some option.case
        head_is_line(2) [OF assms Some] Option.bind_lunit connect_named_def connect_done_def ..
  qed
qed

text \<open>A CONNECT's answer: asked for more, acknowledged, refused, or accepted with a port and a host name of its
  own line.\<close>

definition connect_request :: "string \<Rightarrow> pp_result \<Rightarrow> bool" where
  "connect_request s r \<longleftrightarrow>
     pp_kind r = PP_KIND_CONNECT \<and> host_name (pp_name r) \<and> 1 \<le> pp_port r \<and> pp_port r \<le> 65535 \<and>
     (\<exists>q. request_line s (pp_connect_len r) = Some q \<and> rl_method q = ''CONNECT'' \<and>
        authority (rl_target q) = (True, pp_name r, pp_port r)) \<and>
     0 < pp_connect_len r \<and> pp_connect_len r \<le> length s"

definition connect_ans :: "string \<Rightarrow> bool \<Rightarrow> pp_answer \<Rightarrow> bool" where
  "connect_ans s acked x \<longleftrightarrow>
     (\<exists>st r. x = Some (st, r) \<and>
        (st = PP_REFUSE \<or> (st = PP_MORE \<and> length s < PP_IN_MAX) \<or>
         (st = PP_ACK \<and> \<not> acked \<and> length s \<le> PP_HTTP_MAX \<and> connect_request s r \<and> pp_connect_len r = length s) \<or>
         (st = PP_OK \<and> acked \<and> connect_request s r)))"

lemma connect_ans_intros:
  "connect_ans s a (refuse r w)"
  "(c \<Longrightarrow> connect_ans s a x) \<Longrightarrow> (\<not> c \<Longrightarrow> connect_ans s a y) \<Longrightarrow> connect_ans s a (if c then x else y)"
  by (simp_all add: connect_ans_def refuse_def)

lemma connect_done_ans:
  assumes h: "head_is s he l0 ls" and q: "request_line s he = Some q" "rl_method q = ''CONNECT''"
    "authority (rl_target q) = (True, nm, port)" "port \<noteq> 0"
  shows "connect_ans s True (connect_done nm port (tls (drop he s) (r\<lparr>pp_connect_len := he, pp_port := port\<rparr>)))"
proof -
  let ?r = "r\<lparr>pp_connect_len := he, pp_port := port\<rparr>"
  obtain st k n w where x: "tls (drop he s) ?r = Some (st, ?r\<lparr>pp_kind := k, pp_name := n, pp_why := w\<rparr>)"
    and st: "st = PP_REFUSE \<or> (st = PP_MORE \<and> length (drop he s) < 16704) \<or> (st = PP_OK \<and> host_name n)"
    using tls_answers [of "drop he s" ?r] by (auto simp: tls_answer_def)
  have len: "st = PP_MORE \<Longrightarrow> length s < PP_IN_MAX" using st head_is_end(4) [OF h] by (auto simp: pp_limits)
  have ok: "st = PP_OK \<Longrightarrow> n = nm \<Longrightarrow>
      connect_request s (r\<lparr>pp_connect_len := he, pp_name := n, pp_why := w, pp_kind := PP_KIND_CONNECT, pp_port := port\<rparr>)"
    using q authority_ok [OF q(3)] head_is_end(2,3) [OF h] by (simp add: connect_request_def)
  show ?thesis unfolding connect_done_def x Option.bind_lunit prod.case Let_def
    using st len ok by (auto simp: connect_ans_def refuse_def)
qed

lemma connect_steps_ans:
  assumes h: "head_is s he l0 ls"
  shows "connect_ans s acked (connect_steps s he (request_line s he) ls acked r)"
proof (cases "request_line s he")
  case None
  then show ?thesis using connect_ans_intros(1) by (simp add: connect_steps_def Let_def)
next
  case (Some q)
  obtain ok nm port where a: "authority (rl_target q) = (ok, nm, port)" by (cases "authority (rl_target q)")
  let ?r = "r\<lparr>pp_kind := PP_KIND_CONNECT, pp_connect_len := he, pp_port := port\<rparr>"
  have fin: "acked \<Longrightarrow> \<not> \<not> rl_method q \<noteq> ''CONNECT'' \<or> \<not> (\<not> ok \<or> port = 0) \<Longrightarrow> rl_method q = ''CONNECT'' \<Longrightarrow>
      connect_ans s acked (connect_done nm port (tls (drop he s) ?r))"
    using connect_done_ans [OF h Some _ _ , of nm port "r\<lparr>pp_kind := PP_KIND_CONNECT\<rparr>"] a by simp
  have ack: "connect_ans s acked (Some (PP_ACK, ?r\<lparr>pp_name := nm\<rparr>))"
    if "\<not> acked" "\<not> he < length s" "\<not> (\<not> ok \<or> port = 0)" "\<not> rl_method q \<noteq> ''CONNECT''"
    using that Some a authority_ok [of "rl_target q" nm port] head_is_end(2,3,4) [OF h]
    by (simp add: connect_ans_def connect_request_def)
  show ?thesis unfolding connect_steps_def Let_def Some option.case a prod.case
    by (intro connect_ans_intros fin ack) simp_all
qed

lemma connect_answer: "connect_ans s acked (connect_req s acked r)"
proof (cases s rule: http_cases)
  case (complete he l0 ls)
  then show ?thesis using connect_req_steps connect_steps_ans by metis
qed (simp_all add: connect_req_def connect_ans_intros, simp_all add: connect_ans_def pp_limits)

section \<open>The first bytes of a connection\<close>

text \<open>An accepted first flight: for TLS and plain HTTP the port is the one connected to; for a CONNECT the port and
  the name are those of its line. The name is a host name.\<close>

definition first_flight :: "string \<Rightarrow> nat \<Rightarrow> bool \<Rightarrow> pp_result \<Rightarrow> bool" where
  "first_flight s dport acked r \<longleftrightarrow>
     host_name (pp_name r) \<and>
     (case pp_kind r of
        PP_KIND_TLS \<Rightarrow> \<not> acked \<and> pp_port r = dport
      | PP_KIND_HTTP \<Rightarrow> \<not> acked \<and> http_request s dport r
      | PP_KIND_CONNECT \<Rightarrow> acked \<and> connect_request s r
      | PP_KIND_NONE \<Rightarrow> False)"

definition parse_ans :: "string \<Rightarrow> nat \<Rightarrow> bool \<Rightarrow> pp_answer \<Rightarrow> bool" where
  "parse_ans s dport acked x \<longleftrightarrow>
     (\<exists>st r. x = Some (st, r) \<and>
        (st = PP_REFUSE \<or> (st = PP_MORE \<and> length s < PP_IN_MAX) \<or>
         (st = PP_ACK \<and> \<not> acked \<and> length s \<le> PP_HTTP_MAX \<and> connect_request s r \<and> pp_connect_len r = length s) \<or>
         (st = PP_OK \<and> first_flight s dport acked r)))"

lemma connect_request_flight: "connect_request s r \<Longrightarrow> acked \<Longrightarrow> first_flight s dport acked r"
proof -
  assume c: "connect_request s r" and a: "acked"
  then have "pp_kind r = PP_KIND_CONNECT" "host_name (pp_name r)" by (simp_all add: connect_request_def)
  then show ?thesis using c a by (simp add: first_flight_def)
qed

lemma parse_ans_connect: "connect_ans s acked x \<Longrightarrow> parse_ans s dport acked x"
  by (auto simp: connect_ans_def parse_ans_def intro: connect_request_flight)

lemma http_request_flight: "http_request s dport r \<Longrightarrow> first_flight s dport False r"
proof -
  assume h: "http_request s dport r"
  then have "pp_kind r = PP_KIND_HTTP" "host_name (pp_name r)" by (simp_all add: http_request_def)
  then show ?thesis using h by (simp add: first_flight_def)
qed

lemma parse_ans_http: "http_ans s dport x \<Longrightarrow> parse_ans s dport False x"
  by (auto simp: http_ans_def parse_ans_def pp_limits intro: http_request_flight)

lemma parse_ans_tls: "parse_ans s dport False (do { (st, r) \<leftarrow> tls s r0; Some (st, r\<lparr>pp_port := dport\<rparr>) })"
proof -
  obtain st k n w where x: "tls s r0 = Some (st, r0\<lparr>pp_kind := k, pp_name := n, pp_why := w\<rparr>)"
    and st: "st = PP_REFUSE \<or> (st = PP_MORE \<and> length s < 16704) \<or> (st = PP_OK \<and> k = PP_KIND_TLS \<and> host_name n)"
    using tls_answers [of s r0] by (auto simp: tls_answer_def)
  show ?thesis unfolding x Option.bind_lunit prod.case using st
    by (auto simp: parse_ans_def first_flight_def pp_limits)
qed

lemma kc_match_le: "kc_match s \<le> 8" "kc_match s \<le> length s"
proof -
  have "kc_match s \<le> length (zip s kc)" unfolding kc_match_def by (rule length_takeWhile_le)
  then show "kc_match s \<le> 8" "kc_match s \<le> length s" by (simp_all add: kc_def)
qed

lemma parse_answers: "parse_ans s dport acked (pp_parse s dport acked)"
proof -
  have r: "parse_ans s dport acked (refuse pp_zero w)" for w by (simp add: parse_ans_def refuse_def)
  have m: "length s < PP_IN_MAX \<Longrightarrow> parse_ans s dport acked (Some (PP_MORE, pp_zero))" by (simp add: parse_ans_def)
  have i: "(c \<Longrightarrow> parse_ans s dport acked x) \<Longrightarrow> (\<not> c \<Longrightarrow> parse_ans s dport acked y) \<Longrightarrow>
      parse_ans s dport acked (if c then x else y)" for c x y by simp
  have c: "parse_ans s dport acked (connect_req s acked pp_zero)" using parse_ans_connect connect_answer by blast
  have t: "\<not> acked \<Longrightarrow> parse_ans s dport acked (do { (st, r) \<leftarrow> tls s pp_zero; Some (st, r\<lparr>pp_port := dport\<rparr>) })"
    using parse_ans_tls by simp
  have h: "\<not> acked \<Longrightarrow> parse_ans s dport acked (http s dport pp_zero)" using parse_ans_http http_answer by simp
  show ?thesis unfolding pp_parse_def Let_def
    by (intro i r m c t h) (use kc_match_le(1) [of s] in \<open>simp_all add: pp_limits\<close>)
qed

section \<open>More bytes\<close>

lemma connect_done_settled: "settled x y \<Longrightarrow> settled (connect_done nm port x) (connect_done nm port y)"
proof -
  assume "settled x y"
  then obtain st r w where x: "x = Some (st, r)" and y: "st = PP_MORE \<or> (y = Some (st, r\<lparr>pp_why := w\<rparr>) \<and> (st = PP_OK \<longrightarrow> y = x))"
    by (auto simp: settled_def)
  show ?thesis
  proof (cases "st = PP_MORE")
    case True
    then show ?thesis by (simp add: x connect_done_def Let_def)
  next
    case False
    then have y: "y = Some (st, r\<lparr>pp_why := w\<rparr>)" "st = PP_OK \<Longrightarrow> y = x" using y by auto
    show ?thesis
    proof (cases "st = PP_OK")
      case True
      then have "connect_done nm port x \<noteq> None" "y = x" using y(2) by (simp_all add: x connect_done_def Let_def refuse_def)
      then show ?thesis using settled_same by metis
    next
      case no: False
      show ?thesis unfolding settled_def
        by (intro exI [of _ st] exI [of _ "r\<lparr>pp_kind := PP_KIND_CONNECT, pp_port := port\<rparr>"] exI [of _ w])
          (simp add: x y(1) connect_done_def Let_def no)
    qed
  qed
qed

text \<open>A decision: neither more bytes nor the CONNECT's answer is waited for.\<close>

definition undecided :: "pp_answer \<Rightarrow> bool" where
  "undecided x \<longleftrightarrow> (\<exists>r. x = Some (PP_MORE, r) \<or> x = Some (PP_ACK, r))"

definition kept :: "pp_answer \<Rightarrow> pp_answer \<Rightarrow> bool" where
  "kept x y \<longleftrightarrow> (\<exists>st r w. x = Some (st, r) \<and> y = Some (st, r\<lparr>pp_why := w\<rparr>) \<and> (st = PP_OK \<longrightarrow> y = x))"

lemma kept_refl [simp]: "x \<noteq> None \<Longrightarrow> kept x x"
proof -
  assume "x \<noteq> None"
  then obtain st r where "x = Some (st, r)" by auto
  moreover have "r = r\<lparr>pp_why := pp_why r\<rparr>" by simp
  ultimately show ?thesis unfolding kept_def by metis
qed

lemma kept_refuse [simp]: "kept (refuse r w) (refuse r w')"
  by (auto simp: kept_def refuse_def)

lemma settled_kept: "settled x y \<Longrightarrow> \<not> undecided x \<Longrightarrow> kept x y"
  unfolding settled_def undecided_def kept_def by blast

text \<open>A connection's first flight.\<close>

lemma connect_steps_kept:
  assumes h: "head_is s he l0 ls" and u: "\<not> undecided (connect_steps s he rl ls acked r)"
  shows "kept (connect_steps s he rl ls acked r) (connect_steps (s @ t) he rl ls acked r)"
proof (cases rl)
  case None
  then show ?thesis by (simp add: connect_steps_def Let_def)
next
  case (Some q)
  obtain ok nm port where a: "authority (rl_target q) = (ok, nm, port)" by (cases "authority (rl_target q)")
  have d: "drop he (s @ t) = drop he s @ t" using head_is_end(3) [OF h] by simp
  let ?r = "r\<lparr>pp_kind := PP_KIND_CONNECT, pp_connect_len := he, pp_port := port\<rparr>"
  have k: "kept (connect_done nm port (tls (drop he s) ?r)) (connect_done nm port (tls (drop he s @ t) ?r))"
    if "\<not> undecided (connect_done nm port (tls (drop he s) ?r))"
    using settled_kept [OF connect_done_settled [OF tls_settled] that] .
  have len: "he < length s \<Longrightarrow> he < length (s @ t)" by simp
  show ?thesis using u unfolding connect_steps_def Let_def Some option.case a prod.case d
    using k len by (auto simp: undecided_def)
qed

lemma connect_req_kept:
  assumes "\<not> undecided (connect_req s acked r)"
  shows "kept (connect_req s acked r) (connect_req (s @ t) acked r)"
proof (cases s rule: http_cases)
  case (complete he l0 ls)
  note h2 = head_is_append [OF complete, of t]
  have "request_line (s @ t) he = request_line s he" using head_is_request_line [OF complete] .
  then show ?thesis
    using assms connect_steps_kept [OF complete] unfolding connect_req_steps [OF complete] connect_req_steps [OF h2] by simp
next
  case malformed
  then show ?thesis using head_end_append [of s t] by (simp add: connect_req_def)
next
  case more
  then show ?thesis using assms by (simp add: connect_req_def undecided_def)
next
  case long
  then show ?thesis using head_end_append [of s t] by (simp add: connect_req_def)
qed

lemma prefix_match_append:
  "length (takeWhile (\<lambda>(a, b). a = b) (zip s k)) = length k \<or> length (takeWhile (\<lambda>(a, b). a = b) (zip s k)) < length s \<Longrightarrow>
    takeWhile (\<lambda>(a, b). a = b) (zip (s @ t) k) = takeWhile (\<lambda>(a, b). a = b) (zip s k)"
proof (induction s arbitrary: k)
  case (Cons a s)
  then show ?case by (cases k) auto
qed simp

lemma kc_match_append: "kc_match s = 8 \<or> kc_match s < length s \<Longrightarrow> kc_match (s @ t) = kc_match s"
proof -
  assume a: "kc_match s = 8 \<or> kc_match s < length s"
  have "length kc = 8" by (simp add: kc_def)
  then show ?thesis using prefix_match_append [of s kc t] a unfolding kc_match_def by presburger
qed

lemma tls_port_kept:
  assumes "\<not> undecided (do { (st, r) \<leftarrow> tls s r0; Some (st, r\<lparr>pp_port := p\<rparr>) })"
  shows "kept (do { (st, r) \<leftarrow> tls s r0; Some (st, r\<lparr>pp_port := p\<rparr>) }) (do { (st, r) \<leftarrow> tls (s @ t) r0; Some (st, r\<lparr>pp_port := p\<rparr>) })"
proof -
  obtain st r w where x: "tls s r0 = Some (st, r)" and
    y: "st = PP_MORE \<or> (tls (s @ t) r0 = Some (st, r\<lparr>pp_why := w\<rparr>) \<and> (st = PP_OK \<longrightarrow> tls (s @ t) r0 = tls s r0))"
    using tls_settled [of s r0 t] unfolding settled_def by blast
  have "st \<noteq> PP_MORE" using assms by (auto simp: x undecided_def)
  then have y: "tls (s @ t) r0 = Some (st, r\<lparr>pp_why := w\<rparr>)" "st = PP_OK \<Longrightarrow> r\<lparr>pp_why := w\<rparr> = r" using y x by auto
  show ?thesis unfolding kept_def
    by (intro exI [of _ st] exI [of _ "r\<lparr>pp_port := p\<rparr>"] exI [of _ w]) (auto simp: x y(1) dest: y(2))
qed

lemma pp_parse_kept:
  assumes u: "\<not> undecided (pp_parse s dport acked)" and l: "length (s @ t) \<le> PP_IN_MAX"
    and a: "acked \<longrightarrow> kc_match s = 8"
  shows "kept (pp_parse s dport acked) (pp_parse (s @ t) dport acked)"
proof (cases "s = []")
  case True
  then show ?thesis using u by (simp add: pp_parse_def undecided_def)
next
  case False
  then have n: "s @ t \<noteq> []" "\<not> length (s @ t) > PP_IN_MAX" "\<not> length s > PP_IN_MAX" "hd (s @ t) = hd s" using l by auto
  have k: "\<not> (kc_match s \<noteq> 8 \<and> kc_match s = length s)" if "byte (hd s) \<noteq> 22"
    using u a that False n by (auto simp: pp_parse_def undecided_def Let_def)
  show ?thesis
  proof (cases "byte (hd s) = 22")
    case True
    then show ?thesis using u False n tls_port_kept [of s pp_zero dport t]
      by (cases acked) (simp_all add: pp_parse_def)
  next
    case h: False
    then have m: "kc_match (s @ t) = kc_match s" using kc_match_append [of s t] k kc_match_le [of s] by fastforce
    show ?thesis
    proof (cases "kc_match s = 8")
      case True
      then show ?thesis using u False n h m connect_req_kept [of s acked pp_zero t] by (simp add: pp_parse_def)
    next
      case no: False
      then have ks: "kc_match s < length s" "\<not> acked" using k h a kc_match_le(2) [of s] by auto
      show ?thesis
      proof (cases "isupper (hd s)")
        case True
        have "head_end s \<noteq> 0 \<or> PP_HTTP_MAX \<le> length s"
        proof (rule ccontr)
          assume "\<not> ?thesis"
          then have "http s dport pp_zero = Some (PP_MORE, pp_zero)" by (simp add: http_def)
          then show False using u False n(3) h no ks True by (simp add: pp_parse_def undecided_def)
        qed
        then have "http (s @ t) dport pp_zero = http s dport pp_zero" by (rule http_append)
        moreover have "http s dport pp_zero \<noteq> None" using http_answer [of s dport pp_zero] by (auto simp: http_ans_def)
        ultimately show ?thesis using False n h no ks True m by (simp add: pp_parse_def)
      next
        case low: False
        then show ?thesis using False n h no ks m by (simp add: pp_parse_def)
      qed
    qed
  qed
qed

section \<open>Answers that do not depend on the reads\<close>

text \<open>A parser that is asked again, with every byte so far, after each read, until it answers.\<close>

fun read_until :: "(string \<Rightarrow> 'r) \<Rightarrow> ('r \<Rightarrow> bool) \<Rightarrow> string \<Rightarrow> string list \<Rightarrow> 'r" where
  "read_until parse waits buf [] = parse buf"
| "read_until parse waits buf (s # ss) =
     (if waits (parse (buf @ s)) then read_until parse waits (buf @ s) ss else parse (buf @ s))"

text \<open>What the callers rely on: an answer is kept when more bytes arrive, as long as there is room for them, and
  one is given before the room is used up.\<close>

locale stream_parser =
  fixes parse :: "string \<Rightarrow> 'r" and waits :: "'r \<Rightarrow> bool" and same :: "'r \<Rightarrow> 'r \<Rightarrow> bool" and room :: nat
  assumes kept_more: "\<not> waits (parse s) \<Longrightarrow> length (s @ t) \<le> room \<Longrightarrow> same (parse s) (parse (s @ t))"
    and waits_room: "waits (parse s) \<Longrightarrow> length s < room"
begin

lemma reads_same:
  "\<not> waits (read_until parse waits buf ss) \<Longrightarrow> length (buf @ concat ss) \<le> room \<Longrightarrow>
    same (read_until parse waits buf ss) (parse (buf @ concat ss))"
proof (induction ss arbitrary: buf)
  case Nil
  then show ?case using kept_more [of buf "[]"] by simp
next
  case (Cons s ss)
  show ?case
  proof (cases "waits (parse (buf @ s))")
    case True
    then show ?thesis using Cons.IH [of "buf @ s"] Cons.prems by simp
  next
    case False
    then show ?thesis using kept_more [of "buf @ s" "concat ss"] Cons.prems by simp
  qed
qed

lemma reads_decide:
  assumes "ss \<noteq> []" and "waits (read_until parse waits buf ss)"
  shows "length (buf @ concat ss) < room"
  using assms
proof (induction ss arbitrary: buf)
  case Nil
  then show ?case by simp
next
  case (Cons s ss)
  then have w: "waits (parse (buf @ s))" by (auto split: if_splits)
  show ?case
  proof (cases "ss = []")
    case True
    then show ?thesis using waits_room [OF w] by simp
  next
    case False
    then show ?thesis using Cons.IH [of "buf @ s"] Cons.prems w by simp
  qed
qed

end

lemma undecided_room: "undecided (pp_parse s dport acked) \<Longrightarrow> length s < PP_IN_MAX"
  using parse_answers [of s dport acked] by (auto simp: parse_ans_def undecided_def pp_limits)

interpretation first: stream_parser "\<lambda>s. pp_parse s dport False" undecided kept PP_IN_MAX for dport
  by unfold_locales (use pp_parse_kept undecided_room in auto)

end
