(* ===== verification/Proxy_Request.thy ===== *)
theory Proxy_Request
  imports Proxy_Parse_Spec
begin

text \<open>
  What a request inside terminated TLS is decided on (\<open>pp_request\<close> in
  \<^verbatim>\<open>src/varek/v1_4/proxy_parse.c\<close>): the object of an accepted request has the form the policy's request
  rules are written for, its path is one the policy language accepts, and its head names the connection's host
  only. The upstream's reply and this parser are further instances of \<open>stream_parser\<close>.
\<close>

section \<open>The target\<close>

text \<open>The scan of the target refuses exactly what the policy language refuses in a request URL's path.\<close>

lemma pp_hexd_hexd: "pp_hexd c = hexd c"
  by (simp add: pp_hexd_def hexd_def isdigit_def)

lemma escape_digits_value:
  "escape_value s = map_option (\<lambda>(h1, h2). h1 * 16 + h2) (escape_digits s)"
  by (auto simp: escape_value_def escape_digits_def pp_hexd_hexd split: list.split option.split)

lemma unreserved_escape: "v = 47 \<or> v = 92 \<or> unreserved v \<longleftrightarrow> forbidden_escape v"
  by (auto simp: unreserved_def forbidden_escape_def)

lemma slash_bytes [simp]: "byte slash = 47" "byte backslash = 92"
  by (simp_all add: byte_def)

lemma target_scan_path: "target_scan query seg s = None \<longleftrightarrow> req_path query seg s = None"
proof (induction s arbitrary: query seg)
  case Nil
  then show ?case by (simp add: dot_segment_def)
next
  case (Cons c s)
  have r: "byte c < 33 \<or> 126 < byte c \<longleftrightarrow> byte c \<le> 32 \<or> 127 \<le> byte c" by auto
  show ?case
  proof (cases "c = CHR ''%''")
    case True
    then show ?thesis using Cons unreserved_escape escape_digits_value [of s]
      by (cases "escape_digits s") auto
  next
    case False
    then show ?thesis using Cons r by (auto simp: dot_segment_def)
  qed
qed

lemma target_ok_path: "target_ok t = None \<longleftrightarrow> t \<noteq> [] \<and> hd t = slash \<and> req_path False [] (tl t) = None"
  by (simp add: target_ok_def target_scan_path)

section \<open>The answer\<close>

text \<open>An accepted request: its object, with a path of the policy language, and its head, with one Host line for the
  connection's name and one framing.\<close>

definition decided_request :: "string \<Rightarrow> string \<Rightarrow> string \<Rightarrow> nat \<Rightarrow> pp_req \<Rightarrow> bool" where
  "decided_request s scheme name port q \<longleftrightarrow>
     (\<exists>path. pq_object q = pq_method q @ '' '' @ scheme @ ''://'' @ name @ '':'' @ decimal port @ path \<and>
        path \<noteq> [] \<and> hd path = slash \<and> req_path False [] (tl path) = None) \<and>
     pq_object_len q = length (pq_object q) \<and> length (pq_object q) \<le> PP_OBJ_MAX \<and>
     1 \<le> length (pq_method q) \<and> length (pq_method q) \<le> PP_METHOD_MAX \<and> list_all isupper (pq_method q) \<and>
     pq_method q \<noteq> ''CONNECT'' \<and> host_name name \<and> 0 < pq_head_len q \<and> pq_head_len q \<le> length s \<and>
     (\<exists>l0 ls l hp. take (pq_head_len q) s = head_text (l0 # ls) \<and> list_all line_wf ls \<and>
        filter (named ''host'') ls = [l] \<and> authority (header_value l) = (True, name, hp) \<and> (hp = 0 \<or> hp = port) \<and>
        framed ls (pq_body q) (pq_body_len q))"

definition req_ans :: "string \<Rightarrow> string \<Rightarrow> string \<Rightarrow> nat \<Rightarrow> (pp_status \<times> pp_req) option \<Rightarrow> bool" where
  "req_ans s scheme name port x \<longleftrightarrow>
     (\<exists>st q. x = Some (st, q) \<and>
        (st = PP_REFUSE \<or> (st = PP_MORE \<and> length s < PP_HTTP_MAX) \<or> (st = PP_OK \<and> decided_request s scheme name port q)))"

lemma req_ans_intros:
  "req_ans s sc nm p (pq_refuse w)" "req_ans s sc nm p (Some (PP_REFUSE, q))"
  "(c \<Longrightarrow> req_ans s sc nm p x) \<Longrightarrow> (\<not> c \<Longrightarrow> req_ans s sc nm p y) \<Longrightarrow> req_ans s sc nm p (if c then x else y)"
  by (simp_all add: req_ans_def pq_refuse_def)

text \<open>What is done with a request whose lines have been read.\<close>

definition request_end ::
  "nat \<Rightarrow> req_line \<Rightarrow> string list \<Rightarrow> string \<Rightarrow> string \<Rightarrow> nat \<Rightarrow> string \<Rightarrow> (pp_status \<times> pp_req) option" where
  "request_end he rl ls scheme name port t =
     (case frame_lines ls False False 0 of
        Inl why \<Rightarrow> pq_refuse why
      | Inr (b, n) \<Rightarrow>
          let o1 = rl_method rl @ '' '' @ scheme @ ''://'' @ name @ '':'' @ decimal port in
          if length o1 + length t > PP_OBJ_MAX then
            Some (PP_REFUSE, pq_zero\<lparr>pq_method := rl_method rl, pq_why := Some ''a request object over 4,095 bytes''\<rparr>)
          else Some (PP_OK, \<lparr>pq_method = rl_method rl, pq_object = o1 @ t, pq_object_len = length o1 + length t,
            pq_head_len = he, pq_body = b, pq_body_len = n, pq_why = None\<rparr>))"

definition request_steps ::
  "nat \<Rightarrow> req_line option \<Rightarrow> string list \<Rightarrow> string \<Rightarrow> string \<Rightarrow> nat \<Rightarrow> (pp_status \<times> pp_req) option" where
  "request_steps he rlo ls scheme name port =
     (case rlo of
        None \<Rightarrow> pq_refuse ''a malformed HTTP request line''
      | Some rl \<Rightarrow>
          if rl_method rl = ''CONNECT'' then pq_refuse ''a CONNECT inside TLS''
          else
            (case host_lines ls None of
               Inl _ \<Rightarrow> pq_refuse ''malformed headers, or more than one Host''
             | Inr None \<Rightarrow> pq_refuse ''no Host header''
             | Inr (Some v) \<Rightarrow>
                 (case authority v of (ok, hn, hp) \<Rightarrow>
                    if \<not> ok then pq_refuse ''a Host that is not a host name''
                    else if hn \<noteq> name \<or> (hp \<noteq> 0 \<and> hp \<noteq> port) then
                      pq_refuse ''a Host other than the name and port the connection is for''
                    else case request_path (rl_target rl) scheme name port of
                      Inl why \<Rightarrow> pq_refuse why
                    | Inr t \<Rightarrow>
                        (case target_ok t of
                           Some why \<Rightarrow> pq_refuse why
                         | None \<Rightarrow> request_end he rl ls scheme name port t))))"

lemma pp_request_steps:
  assumes "head_is s he l0 ls"
  shows "pp_request s scheme name port = request_steps he (request_line s he) ls scheme name port"
proof -
  note he = head_is_end(1) [OF assms]
  have pos: "\<not> int he < 0" "int he \<noteq> 0" using head_is_end(2) [OF assms] by simp_all
  show ?thesis
  proof (cases "request_line s he")
    case None
    show ?thesis
      unfolding pp_request_def request_steps_def Let_def he nat_int if_not_P [OF pos(1)] if_not_P [OF pos(2)] None option.case ..
  next
    case (Some q)
    show ?thesis
      unfolding pp_request_def request_steps_def request_end_def Let_def he nat_int if_not_P [OF pos(1)]
        if_not_P [OF pos(2)] Some option.case head_is_line(2,3) [OF assms Some] Option.bind_lunit ..
  qed
qed

lemma request_end_ans:
  assumes h: "head_is s he l0 ls" and q: "request_line s he = Some rl" "rl_method rl \<noteq> ''CONNECT''"
    and v: "host_lines ls None = Inr (Some v)" "authority v = (True, name, hp)" "hp = 0 \<or> hp = port"
    and t: "target_ok t = None"
  shows "req_ans s scheme name port (request_end he rl ls scheme name port t)"
proof (cases "frame_lines ls False False 0")
  case (Inl why)
  then show ?thesis using req_ans_intros(1) by (simp add: request_end_def)
next
  case (Inr x)
  obtain b n where x: "x = (b, n)" by (cases x)
  have fr: "framed ls b n" using frame_lines_framed Inr x by blast
  obtain l where l: "list_all line_wf ls" "filter (named ''host'') ls = [l]" "v = header_value l"
    using host_lines_spec [OF v(1)] by auto
  have "take he s = head_text (l0 # ls)" using h by (simp add: head_is_def)
  then have hd: "\<exists>l0 ls l hp. take he s = head_text (l0 # ls) \<and> list_all line_wf ls \<and> filter (named ''host'') ls = [l] \<and>
      authority (header_value l) = (True, name, hp) \<and> (hp = 0 \<or> hp = port) \<and> framed ls b n"
    using l v(2,3) fr by blast
  have t: "t \<noteq> []" "hd t = slash" "req_path False [] (tl t) = None" using t target_ok_path by auto
  let ?o = "rl_method rl @ '' '' @ scheme @ ''://'' @ name @ '':'' @ decimal port"
  let ?q = "\<lparr>pq_method = rl_method rl, pq_object = ?o @ t, pq_object_len = length ?o + length t,
      pq_head_len = he, pq_body = b, pq_body_len = n, pq_why = None\<rparr>"
  have "decided_request s scheme name port ?q" if "\<not> length ?o + length t > PP_OBJ_MAX"
    unfolding decided_request_def
  proof (intro conjI)
    show "\<exists>path. pq_object ?q = pq_method ?q @ '' '' @ scheme @ ''://'' @ name @ '':'' @ decimal port @ path \<and>
        path \<noteq> [] \<and> hd path = slash \<and> req_path False [] (tl path) = None"
      using t by (intro exI [of _ t]) simp
    show "pq_object_len ?q = length (pq_object ?q)" "length (pq_object ?q) \<le> PP_OBJ_MAX" using that by simp_all
  qed (use q request_line_ok [OF q(1)] authority_ok [OF v(2)] head_is_end(2,3) [OF h] hd in \<open>simp_all add: PP_METHOD_MAX_def\<close>)
  then show ?thesis unfolding request_end_def Inr x sum.case prod.case Let_def
    by (intro req_ans_intros) (simp add: req_ans_def)
qed

lemma request_answer: "req_ans s scheme name port (pp_request s scheme name port)"
proof (cases s rule: http_cases)
  case (complete he l0 ls)
  show ?thesis
  proof (cases "request_line s he")
    case None
    then show ?thesis unfolding pp_request_steps [OF complete] request_steps_def by (simp add: req_ans_intros)
  next
    case (Some rl)
    have e: "req_ans s scheme name port (request_end he rl ls scheme name port t)"
      if "host_lines ls None = Inr (Some v)" "authority v = (ok, hn, hp)" "rl_method rl \<noteq> ''CONNECT''" "\<not> \<not> ok"
        "\<not> (hn \<noteq> name \<or> (hp \<noteq> 0 \<and> hp \<noteq> port))" "target_ok t = None" for v ok hn hp t
      using request_end_ans [OF complete Some, of v name hp port t scheme] that by auto
    show ?thesis unfolding pp_request_steps [OF complete] request_steps_def Some option.case
      by (auto intro!: req_ans_intros e split: sum.split option.split prod.split)
  qed
qed (simp_all add: pp_request_def req_ans_intros, simp_all add: req_ans_def pq_zero_def)

section \<open>More bytes\<close>

definition req_waits :: "(pp_status \<times> pp_req) option \<Rightarrow> bool" where
  "req_waits x \<longleftrightarrow> (\<exists>q. x = Some (PP_MORE, q))"

lemma pp_request_more: "head_end s = 0 \<Longrightarrow> length s < PP_HTTP_MAX \<Longrightarrow> req_waits (pp_request s scheme name port)"
  by (simp add: pp_request_def req_waits_def)

lemma pp_request_append:
  assumes "\<not> req_waits (pp_request s scheme name port)"
  shows "pp_request (s @ t) scheme name port = pp_request s scheme name port"
proof (cases s rule: http_cases)
  case (complete he l0 ls)
  have "request_line (s @ t) he = request_line s he" using head_is_request_line [OF complete] .
  then show ?thesis unfolding pp_request_steps [OF complete] pp_request_steps [OF head_is_append [OF complete]] by simp
next
  case malformed
  then show ?thesis using head_end_append [of s t] by (simp add: pp_request_def)
next
  case more
  then show ?thesis using assms pp_request_more by blast
next
  case long
  then show ?thesis using head_end_append [of s t] by (simp add: pp_request_def)
qed

interpretation inner: stream_parser "\<lambda>s. pp_request s scheme name port" req_waits "\<lambda>x y. x = y" PP_IN_MAX
  for scheme name port
proof
  show "\<not> req_waits (pp_request s scheme name port) \<Longrightarrow> length (s @ t) \<le> PP_IN_MAX \<Longrightarrow>
      pp_request s scheme name port = pp_request (s @ t) scheme name port" for s t
    using pp_request_append by metis
  show "req_waits (pp_request s scheme name port) \<Longrightarrow> length s < PP_IN_MAX" for s
    using request_answer [of s scheme name port] by (auto simp: req_ans_def req_waits_def pp_limits)
qed

section \<open>The upstream's reply\<close>

definition reply_waits :: "(pp_status \<times> upstream_reply) option \<Rightarrow> bool" where
  "reply_waits x \<longleftrightarrow> (\<exists>q. x = Some (PP_MORE, q))"

lemma pp_upstream_reply_append:
  assumes "\<not> reply_waits (pp_upstream_reply s)"
  shows "pp_upstream_reply (s @ t) = pp_upstream_reply s"
proof (cases s rule: http_cases)
  case (complete he l0 ls)
  note h2 = head_is_append [OF complete, of t]
  show ?thesis
  proof (cases "he < 14")
    case True
    then show ?thesis using head_is_end(1,2) [OF complete] head_is_end(1) [OF h2] by (simp add: pp_upstream_reply_def Let_def)
  next
    case False
    then have l: "14 \<le> length s" using head_is_end(3) [OF complete] by simp
    then have r: "rd (s @ t) i = rd s i" if "i < 14" for i using that by (simp add: rd_def nth_append)
    have t7: "take 7 (s @ t) = take 7 s" using l by simp
    show ?thesis unfolding pp_upstream_reply_def Let_def head_is_end(1) [OF complete] head_is_end(1) [OF h2] t7
      using r head_is_end(2) [OF complete] by simp
  qed
next
  case malformed
  then show ?thesis using head_end_append [of s t] by (simp add: pp_upstream_reply_def Let_def)
next
  case more
  then show ?thesis using assms by (simp add: pp_upstream_reply_def reply_waits_def Let_def)
next
  case long
  then show ?thesis using head_end_append [of s t] by (simp add: pp_upstream_reply_def Let_def)
qed

text \<open>The reply's bytes are read inside the input, and it is accepted with a status of 200 to 299 only.\<close>

lemma upstream_answer:
  "\<exists>st u. pp_upstream_reply s = Some (st, u) \<and> (st = PP_MORE \<longrightarrow> length s < PP_HTTP_MAX) \<and>
    (st = PP_OK \<longrightarrow> 200 \<le> ur_status u \<and> ur_status u \<le> 299 \<and> ur_len u \<le> length s \<and> 0 < ur_len u)"
proof (cases s rule: http_cases)
  case (complete he l0 ls)
  have rd_s: "rd s i = Some (s ! i)" if "\<not> he < 14" "i < 14" for i using that head_is_end(3) [OF complete] by simp
  show ?thesis using head_is_end(1,2,3) [OF complete] rd_s
    by (cases "he < 14") (simp_all add: pp_upstream_reply_def Let_def)
qed (simp_all add: pp_upstream_reply_def Let_def)

interpretation upstream: stream_parser pp_upstream_reply reply_waits "\<lambda>x y. x = y" PP_IN_MAX
proof
  show "\<not> reply_waits (pp_upstream_reply s) \<Longrightarrow> length (s @ t) \<le> PP_IN_MAX \<Longrightarrow>
      pp_upstream_reply s = pp_upstream_reply (s @ t)" for s t
    using pp_upstream_reply_append by metis
  show "reply_waits (pp_upstream_reply s) \<Longrightarrow> length s < PP_IN_MAX" for s
    using upstream_answer [of s] by (auto simp: reply_waits_def pp_limits)
qed

end
