(* ===== verification/Proxy_Gate.thy ===== *)
theory Proxy_Gate
  imports Proxy_Request
begin

text \<open>
  A held connection of the egress proxy, from \<^verbatim>\<open>src/varek/v1_4/warden_proxy_helper.c\<close>: what it does with the
  bytes a client sends. Until the connection is decided they are read and parsed (\<open>held_read\<close>); a relayed
  plain HTTP connection is then checked request by request, and bytes go on to the server only up to \<open>fwd\<close>
  (\<open>held_gate\<close>, and the client's half of \<open>held_pump\<close>). The results of \<open>recv\<close>, \<open>send\<close> and
  \<open>malloc\<close> are arguments. What is shown: whatever the sockets do, everything sent to the server is a
  sequence of whole requests for the decided name and port, the last one perhaps in part.
\<close>

section \<open>The connection\<close>

datatype held_state = WH_READING | WH_WAITING | WH_RELAY | WH_DROPPED

datatype held_gates = WG_OPEN | WG_HEAD | WG_LENGTH | WG_CHUNKED

text \<open>The bytes of \<open>buf\<close> up to \<open>len\<close> are a list.\<close>

record held =
  h_dport :: nat
  h_state :: held_state
  h_acked :: bool
  h_kind :: pp_kind
  h_buf :: string
  h_off :: nat
  h_skip :: nat
  h_eof_c :: bool
  h_shut_s :: bool
  h_name :: string
  h_gate :: held_gates
  h_fwd :: nat
  h_body_left :: nat
  h_ck :: pp_chunked
  h_refused :: bool
  h_rport :: nat

text \<open>What \<open>recv\<close> gives: nothing yet, the end of the stream or an error, or bytes.\<close>

datatype received = RECV_AGAIN | RECV_EOF | RECV_FAIL | RECV string

datatype sent = SEND_AGAIN | SEND_FAIL | SENT nat

text \<open>What is reported to the Warden.\<close>

datatype report = WP_MSG_REQUEST pp_kind string nat | WP_MSG_UNREADABLE string

section \<open>Reading the first flight\<close>

text \<open>\<open>recv\<close> gives at most the bytes there is room for. \<open>acked_sent\<close>: the CONNECT's answer was sent whole.\<close>

definition held_read :: "held \<Rightarrow> bool \<Rightarrow> received \<Rightarrow> bool \<Rightarrow> (held \<times> report list) option" where
  "held_read h alloc rv acked_sent =
     (let dropped = h\<lparr>h_state := WH_DROPPED\<rparr>;
          closed = Some (dropped,
            [WP_MSG_UNREADABLE (if h_buf h \<noteq> [] then ''closed before a whole request'' else ''closed before sending'')]) in
      if h_buf h = [] \<and> \<not> alloc then Some (dropped, [])
      else case rv of
        RECV_AGAIN \<Rightarrow> Some (h, [])
      | RECV_EOF \<Rightarrow> closed
      | RECV_FAIL \<Rightarrow> closed
      | RECV s \<Rightarrow>
          let s = take (PP_IN_MAX - length (h_buf h)) s in
          if s = [] then closed
          else do {
            (st, r) \<leftarrow> pp_parse (h_buf h @ s) (h_dport h) (h_acked h);
            let h = h\<lparr>h_buf := h_buf h @ s, h_kind := (if pp_kind r \<noteq> PP_KIND_NONE then pp_kind r else h_kind h)\<rparr>;
                over = (st = PP_MORE \<and> length (h_buf h) = PP_IN_MAX);
                st = (if over then PP_REFUSE else st);
                why = (if over then Some ''too much before a decision'' else pp_why r) in
            (case st of
               PP_MORE \<Rightarrow> Some (h, [])
             | PP_ACK \<Rightarrow>
                 if \<not> acked_sent then
                   Some (h\<lparr>h_state := WH_DROPPED\<rparr>, [WP_MSG_UNREADABLE ''could not answer the CONNECT''])
                 else Some (h\<lparr>h_acked := True\<rparr>, [])
             | PP_REFUSE \<Rightarrow>
                 Some (h\<lparr>h_state := WH_DROPPED\<rparr>, [WP_MSG_UNREADABLE (case why of Some w \<Rightarrow> w | None \<Rightarrow> [])])
             | PP_OK \<Rightarrow>
                 Some (h\<lparr>h_name := pp_name r, h_rport := pp_port r,
                         h_skip := (if pp_kind r = PP_KIND_CONNECT then pp_connect_len r else h_skip h),
                         h_state := WH_WAITING\<rparr>,
                       [WP_MSG_REQUEST (pp_kind r) (pp_name r) (pp_port r)]))
          })"

section \<open>The gate of a plain HTTP connection\<close>

definition gate_refuse :: "held \<Rightarrow> held" where
  "gate_refuse h = h\<lparr>h_refused := True, h_buf := take (h_fwd h) (h_buf h), h_eof_c := True\<rparr>"

definition held_relay :: "held \<Rightarrow> held" where
  "held_relay h =
     h\<lparr>h_off := h_skip h,
       h_fwd := (if h_kind h = PP_KIND_HTTP then h_skip h else length (h_buf h)),
       h_gate := (if h_kind h = PP_KIND_HTTP then WG_HEAD else WG_OPEN),
       h_state := WH_RELAY\<rparr>"

text \<open>One head, at \<open>fwd\<close>: the connection after it and whether the loop goes on.\<close>

definition gate_head :: "held \<Rightarrow> (held \<times> bool) option" where
  "gate_head h =
     do {
       (st, r) \<leftarrow> pp_parse (drop (h_fwd h) (h_buf h)) (h_dport h) False;
       if st = PP_MORE then
         Some ((if length (h_buf h) - h_fwd h \<ge> PP_HTTP_MAX then gate_refuse h else h), False)
       else if st \<noteq> PP_OK \<or> pp_kind r \<noteq> PP_KIND_HTTP \<or> pp_name r \<noteq> h_name h \<or> pp_port r \<noteq> h_dport h then
         Some (gate_refuse h, False)
       else
         Some (h\<lparr>h_fwd := h_fwd h + pp_head_len r,
                 h_gate := (if pp_body r = PP_BODY_LENGTH \<and> pp_body_len r \<noteq> 0 then WG_LENGTH
                            else if pp_body r = PP_BODY_CHUNKED then WG_CHUNKED else WG_HEAD),
                 h_body_left := pp_body_len r,
                 h_ck := ck_zero\<rparr>, True)
     }"

definition gate_length :: "held \<Rightarrow> held" where
  "gate_length h =
     (let tk = min (length (h_buf h) - h_fwd h) (h_body_left h); left = h_body_left h - tk in
      h\<lparr>h_fwd := h_fwd h + tk, h_body_left := left, h_gate := (if left = 0 then WG_HEAD else h_gate h)\<rparr>)"

definition gate_chunked :: "held \<Rightarrow> held \<times> bool" where
  "gate_chunked h =
     (case pp_chunked_feed (h_ck h) (drop (h_fwd h) (h_buf h)) of
        None \<Rightarrow> (gate_refuse h, False)
      | Some (c, n, d) \<Rightarrow>
          (h\<lparr>h_ck := c, h_fwd := h_fwd h + n, h_gate := (if d then WG_HEAD else h_gate h)\<rparr>, True))"

text \<open>An accepted head, a step of a body: the input goes on.\<close>

lemma gate_head_on:
  assumes "gate_head h = Some (h', True)"
  obtains r where "pp_parse (drop (h_fwd h) (h_buf h)) (h_dport h) False = Some (PP_OK, r)"
    "http_request (drop (h_fwd h) (h_buf h)) (h_dport h) r" "pp_name r = h_name h"
    "h' = h\<lparr>h_fwd := h_fwd h + pp_head_len r,
      h_gate := (if pp_body r = PP_BODY_LENGTH \<and> pp_body_len r \<noteq> 0 then WG_LENGTH
                 else if pp_body r = PP_BODY_CHUNKED then WG_CHUNKED else WG_HEAD),
      h_body_left := pp_body_len r, h_ck := ck_zero\<rparr>"
proof -
  let ?s = "drop (h_fwd h) (h_buf h)"
  obtain st r where p: "pp_parse ?s (h_dport h) False = Some (st, r)"
    using parse_answers [of ?s "h_dport h" False] by (auto simp: parse_ans_def)
  have c: "st = PP_OK" "pp_kind r = PP_KIND_HTTP" "pp_name r = h_name h"
    using assms unfolding gate_head_def p by (auto split: if_splits)
  then have "first_flight ?s (h_dport h) False r"
    using parse_answers [of ?s "h_dport h" False] p by (auto simp: parse_ans_def)
  then have "http_request ?s (h_dport h) r" using c(2) by (simp add: first_flight_def)
  moreover have "h' = h\<lparr>h_fwd := h_fwd h + pp_head_len r,
      h_gate := (if pp_body r = PP_BODY_LENGTH \<and> pp_body_len r \<noteq> 0 then WG_LENGTH
                 else if pp_body r = PP_BODY_CHUNKED then WG_CHUNKED else WG_HEAD),
      h_body_left := pp_body_len r, h_ck := ck_zero\<rparr>"
    using assms unfolding gate_head_def p by (auto split: if_splits)
  ultimately show ?thesis using that p c by blast
qed

text \<open>The chunked machine takes everything, or ends after at least one byte.\<close>

definition progress :: "nat \<Rightarrow> nat \<Rightarrow> (pp_chunked \<times> nat \<times> bool) option \<Rightarrow> bool" where
  "progress i n x \<longleftrightarrow> (\<forall>c k d. x = Some (c, k, d) \<longrightarrow> i \<le> k \<and> k \<le> i + n \<and> (d \<longrightarrow> i < k) \<and> (\<not> d \<longrightarrow> k = i + n))"

lemma progress_intros:
  "progress i n None" "progress i (Suc n) (Some (c, Suc i, True))" "progress i 0 (Some (c, i, False))"
  "(b \<Longrightarrow> progress i n x) \<Longrightarrow> (\<not> b \<Longrightarrow> progress i n y) \<Longrightarrow> progress i n (if b then x else y)"
  by (simp_all add: progress_def)

lemma progress_more: "progress (i + k) m x \<Longrightarrow> n = k + m \<Longrightarrow> progress i n x"
  unfolding progress_def by fastforce

lemma ck_loop_progress: "progress i (length s) (ck_loop c s i)"
proof (induction "2 * length s + (if ck_st c \<in> {CK_DATA, CK_TR_START} then 1 else 0)" arbitrary: c s i rule: less_induct)
  case less
  show ?case
  proof (cases s)
    case Nil
    then show ?thesis by (simp add: progress_intros)
  next
    case (Cons b s')
    have one: "progress i (Suc (length s')) (ck_loop c' s' (i + 1))" for c'
      using less.hyps [of s' c' "i + 1"] progress_more [of i 1 "length s'"] by (simp add: Cons)
    note unf = ck_loop.simps(2) [of c b s' i]
    show ?thesis
    proof (cases "ck_st c")
      case CK_SIZE
      then show ?thesis unfolding Cons unf by (cases "hexv b") (simp_all add: one [simplified] progress_intros)
    next
      case CK_DATA
      let ?k = "if length (b # s') < ck_left c then length (b # s') else ck_left c"
      let ?c = "c\<lparr>ck_left := ck_left c - ?k, ck_st := (if ck_left c - ?k = 0 then CK_DATA_CR else CK_DATA)\<rparr>"
      have "2 * length (drop ?k (b # s')) + (if ck_st ?c \<in> {CK_DATA, CK_TR_START} then 1 else 0) <
          2 * length s + (if ck_st c \<in> {CK_DATA, CK_TR_START} then 1 else 0)"
        using CK_DATA by (simp add: Cons, arith)
      then have "progress (i + ?k) (length (drop ?k (b # s'))) (ck_loop ?c (drop ?k (b # s')) (i + ?k))"
        by (rule less.hyps)
      then have "progress i (length (b # s')) (ck_loop ?c (drop ?k (b # s')) (i + ?k))"
        by (rule progress_more) simp
      moreover have "ck_loop c (b # s') i = ck_loop ?c (drop ?k (b # s')) (i + ?k)"
        unfolding unf CK_DATA ck.case Let_def ..
      ultimately show ?thesis by (simp add: Cons)
    next
      case CK_TR_START
      then have "progress i (length (b # s')) (ck_loop (c\<lparr>ck_lines := l, ck_st := CK_TR_LINE, ck_line := 0\<rparr>) (b # s') i)" for l
        using less.hyps [of "b # s'" "c\<lparr>ck_lines := l, ck_st := CK_TR_LINE, ck_line := 0\<rparr>" i] by (simp add: Cons)
      then show ?thesis using CK_TR_START unfolding Cons unf by (simp add: one [simplified] progress_intros)
    qed (simp_all add: Cons unf one [simplified] progress_intros)
  qed
qed

lemma feed_progress:
  "pp_chunked_feed c s = Some (c', n, d) \<Longrightarrow> n \<le> length s \<and> (d \<longrightarrow> 0 < n) \<and> (\<not> d \<longrightarrow> n = length s)"
  using ck_loop_progress [of 0 s c] by (auto simp: pp_chunked_feed_def progress_def)

function held_gate :: "held \<Rightarrow> held option" where
  "held_gate h =
     (if h_fwd h < length (h_buf h) then
        (case h_gate h of
           WG_OPEN \<Rightarrow> Some (h\<lparr>h_fwd := length (h_buf h)\<rparr>)
         | WG_HEAD \<Rightarrow>
             (case gate_head h of
                None \<Rightarrow> None
              | Some (h', go) \<Rightarrow> if go then held_gate h' else Some h')
         | WG_LENGTH \<Rightarrow> held_gate (gate_length h)
         | WG_CHUNKED \<Rightarrow> (case gate_chunked h of (h', go) \<Rightarrow> if go then held_gate h' else Some h'))
      else Some h)"
  by pat_completeness auto
termination
proof (relation "measures [\<lambda>h. length (h_buf h) - h_fwd h, \<lambda>h. if h_gate h = WG_LENGTH then 1 else 0]", goal_cases)
  case 1
  show ?case by simp
next
  case (2 h x h' go)
  then have g: "gate_head h = Some (h', True)" by simp
  obtain r where "http_request (drop (h_fwd h) (h_buf h)) (h_dport h) r" "h_buf h' = h_buf h"
      "h_fwd h' = h_fwd h + pp_head_len r"
    by (rule gate_head_on [OF g]) auto
  then show ?case using 2(1) by (auto simp: http_request_def)
next
  case (3 h)
  then show ?case by (auto simp: gate_length_def Let_def min_def)
next
  case (4 h h' go)
  then obtain c n d where f: "pp_chunked_feed (h_ck h) (drop (h_fwd h) (h_buf h)) = Some (c, n, d)"
      "h' = h\<lparr>h_ck := c, h_fwd := h_fwd h + n, h_gate := (if d then WG_HEAD else h_gate h)\<rparr>"
    by (auto simp: gate_chunked_def split: option.splits)
  have "0 < n" using feed_progress [OF f(1)] 4(1) by (cases d) auto
  then show ?case using f(2) 4(1) by auto
qed

declare held_gate.simps [simp del]

section \<open>Streams of requests\<close>

text \<open>A head for the name and port, with the framing it gives; a body that is whole.\<close>

definition request_head :: "string \<Rightarrow> nat \<Rightarrow> string \<Rightarrow> pp_body \<Rightarrow> nat \<Rightarrow> bool" where
  "request_head nm dport hh b n \<longleftrightarrow>
     (\<exists>r. http_request hh dport r \<and> pp_head_len r = length hh \<and> pp_name r = nm \<and> pp_body r = b \<and> pp_body_len r = n)"

definition body_text :: "pp_body \<Rightarrow> nat \<Rightarrow> string \<Rightarrow> bool" where
  "body_text b n x \<longleftrightarrow>
     (case b of PP_BODY_NONE \<Rightarrow> x = [] | PP_BODY_LENGTH \<Rightarrow> length x = n | PP_BODY_CHUNKED \<Rightarrow> chunked_body x)"

definition body_begun :: "pp_body \<Rightarrow> nat \<Rightarrow> string \<Rightarrow> bool" where
  "body_begun b n x \<longleftrightarrow>
     (case b of PP_BODY_NONE \<Rightarrow> False | PP_BODY_LENGTH \<Rightarrow> length x < n
      | PP_BODY_CHUNKED \<Rightarrow> \<exists>c. pp_chunked_feed ck_zero x = Some (c, length x, False))"

inductive requests :: "string \<Rightarrow> nat \<Rightarrow> string \<Rightarrow> bool" for nm dport where
  none: "requests nm dport []"
| more: "requests nm dport t \<Longrightarrow> request_head nm dport hh b n \<Longrightarrow> body_text b n x \<Longrightarrow> requests nm dport (t @ hh @ x)"

text \<open>Whole requests, and perhaps a head and a part of its body.\<close>

definition request_stream :: "string \<Rightarrow> nat \<Rightarrow> string \<Rightarrow> bool" where
  "request_stream nm dport t \<longleftrightarrow>
     requests nm dport t \<or>
     (\<exists>t0 hh b n x. t = t0 @ hh @ x \<and> requests nm dport t0 \<and> request_head nm dport hh b n \<and> body_begun b n x)"

text \<open>The state of the gate after the bytes \<open>t\<close> were let through.\<close>

definition gate_ok :: "held \<Rightarrow> string \<Rightarrow> bool" where
  "gate_ok h t \<longleftrightarrow>
     (case h_gate h of
        WG_OPEN \<Rightarrow> False
      | WG_HEAD \<Rightarrow> requests (h_name h) (h_dport h) t
      | WG_LENGTH \<Rightarrow> \<exists>t0 hh n x. t = t0 @ hh @ x \<and> requests (h_name h) (h_dport h) t0 \<and>
          request_head (h_name h) (h_dport h) hh PP_BODY_LENGTH n \<and> length x + h_body_left h = n \<and> 0 < h_body_left h
      | WG_CHUNKED \<Rightarrow> \<exists>t0 hh n x. t = t0 @ hh @ x \<and> requests (h_name h) (h_dport h) t0 \<and>
          request_head (h_name h) (h_dport h) hh PP_BODY_CHUNKED n \<and> ck_run ck_zero x 0 = Some (h_ck h, length x, False))"

lemma zero_feed: "pp_chunked_feed ck_zero x = ck_run ck_zero x 0"
  by (simp add: pp_chunked_feed_def ck_loop_run ck_inv_zero)

lemma gate_ok_stream: "gate_ok h t \<Longrightarrow> request_stream (h_name h) (h_dport h) t"
proof (cases "h_gate h")
  case WG_LENGTH
  assume "gate_ok h t"
  then obtain t0 hh n x where "t = t0 @ hh @ x" "requests (h_name h) (h_dport h) t0"
      "request_head (h_name h) (h_dport h) hh PP_BODY_LENGTH n" "body_begun PP_BODY_LENGTH n x"
    using WG_LENGTH by (auto simp: gate_ok_def body_begun_def)
  then show ?thesis unfolding request_stream_def by blast
next
  case WG_CHUNKED
  assume "gate_ok h t"
  then obtain t0 hh n x where "t = t0 @ hh @ x" "requests (h_name h) (h_dport h) t0"
      "request_head (h_name h) (h_dport h) hh PP_BODY_CHUNKED n" "body_begun PP_BODY_CHUNKED n x"
    using WG_CHUNKED by (auto simp: gate_ok_def body_begun_def zero_feed)
  then show ?thesis unfolding request_stream_def by blast
qed (simp_all add: gate_ok_def request_stream_def)

lemma http_request_head:
  assumes "http_request s dport r"
  shows "request_head (pp_name r) dport (take (pp_head_len r) s) (pp_body r) (pp_body_len r)"
    and "0 < pp_head_len r" "pp_head_len r \<le> length s"
proof -
  show l: "0 < pp_head_len r" "pp_head_len r \<le> length s" using assms by (simp_all add: http_request_def)
  have "http_request (take (pp_head_len r) s) dport r" using assms l unfolding http_request_def by simp
  then show "request_head (pp_name r) dport (take (pp_head_len r) s) (pp_body r) (pp_body_len r)"
    unfolding request_head_def using l by (intro exI [of _ r]) simp
qed

text \<open>What a pass of the gate does: \<open>u\<close> are the bytes let through.\<close>

definition gate_pass :: "held \<Rightarrow> string \<Rightarrow> held \<Rightarrow> bool" where
  "gate_pass h t h' \<longleftrightarrow>
     h_fwd h \<le> h_fwd h' \<and> h_fwd h' \<le> length (h_buf h') \<and> take (h_fwd h') (h_buf h') = take (h_fwd h') (h_buf h) \<and>
     length (h_buf h') \<le> length (h_buf h) \<and>
     h_name h' = h_name h \<and> h_dport h' = h_dport h \<and> h_off h' = h_off h \<and>
     gate_ok h' (t @ take (h_fwd h' - h_fwd h) (drop (h_fwd h) (h_buf h)))"

lemma gate_pass_refl: "gate_ok h t \<Longrightarrow> h_fwd h \<le> length (h_buf h) \<Longrightarrow> gate_pass h t h"
  by (simp add: gate_pass_def)

lemma gate_pass_refuse: "gate_ok h t \<Longrightarrow> h_fwd h \<le> length (h_buf h) \<Longrightarrow> gate_pass h t (gate_refuse h)"
proof -
  have "gate_ok (gate_refuse h) t = gate_ok h t" unfolding gate_ok_def gate_refuse_def by (cases "h_gate h") simp_all
  moreover assume "gate_ok h t" "h_fwd h \<le> length (h_buf h)"
  ultimately show ?thesis unfolding gate_pass_def by (simp add: gate_refuse_def)
qed

lemma gate_pass_trans:
  assumes p: "gate_pass h t h1" and b: "h_buf h1 = h_buf h"
    and q: "gate_pass h1 (t @ take (h_fwd h1 - h_fwd h) (drop (h_fwd h) (h_buf h))) h2"
  shows "gate_pass h t h2"
proof -
  let ?a = "h_fwd h1 - h_fwd h" let ?b = "h_fwd h2 - h_fwd h1"
  have le: "h_fwd h \<le> h_fwd h1" "h_fwd h1 \<le> h_fwd h2" using p q by (simp_all add: gate_pass_def)
  have "take ?a (drop (h_fwd h) (h_buf h)) @ take ?b (drop (h_fwd h1) (h_buf h)) =
      take (?a + ?b) (drop (h_fwd h) (h_buf h))"
    using le take_add [of ?a ?b "drop (h_fwd h) (h_buf h)"] by simp
  moreover have "?a + ?b = h_fwd h2 - h_fwd h" using le by simp
  ultimately have "take (h_fwd h2 - h_fwd h) (drop (h_fwd h) (h_buf h)) =
      take ?a (drop (h_fwd h) (h_buf h)) @ take ?b (drop (h_fwd h1) (h_buf h1))" using b by simp
  then show ?thesis using p q le b unfolding gate_pass_def by simp
qed

text \<open>Each step of the loop.\<close>

lemma gate_head_pass:
  assumes g: "gate_ok h t" "h_gate h = WG_HEAD" and s: "gate_head h = Some (h', True)" and l: "h_fwd h \<le> length (h_buf h)"
  shows "gate_pass h t h' \<and> h_buf h' = h_buf h \<and> h_fwd h < h_fwd h'"
proof -
  let ?s = "drop (h_fwd h) (h_buf h)"
  obtain r where r: "http_request ?s (h_dport h) r" "pp_name r = h_name h"
    and h': "h' = h\<lparr>h_fwd := h_fwd h + pp_head_len r,
      h_gate := (if pp_body r = PP_BODY_LENGTH \<and> pp_body_len r \<noteq> 0 then WG_LENGTH
                 else if pp_body r = PP_BODY_CHUNKED then WG_CHUNKED else WG_HEAD),
      h_body_left := pp_body_len r, h_ck := ck_zero\<rparr>"
    by (rule gate_head_on [OF s])
  note hd = http_request_head [OF r(1), unfolded r(2)]
  let ?hd = "take (pp_head_len r) ?s"
  have t: "requests (h_name h) (h_dport h) t" using g by (simp add: gate_ok_def)
  have whole: "body_text (pp_body r) (pp_body_len r) [] \<Longrightarrow> requests (h_name h) (h_dport h) (t @ ?hd)"
    using requests.more [OF t hd(1), of "[]"] by simp
  have "gate_ok h' (t @ ?hd)"
  proof (cases "pp_body r")
    case PP_BODY_NONE
    then show ?thesis using whole by (simp add: h' gate_ok_def body_text_def)
  next
    case PP_BODY_LENGTH
    show ?thesis
    proof (cases "pp_body_len r = 0")
      case True
      then show ?thesis using whole PP_BODY_LENGTH by (simp add: h' gate_ok_def body_text_def)
    next
      case False
      then show ?thesis using t hd(1) PP_BODY_LENGTH
        by (simp add: h' gate_ok_def) (intro exI [of _ t] exI [of _ ?hd] exI [of _ "[]"], simp)
    qed
  next
    case PP_BODY_CHUNKED
    then show ?thesis using t hd(1)
      by (simp add: h' gate_ok_def) (intro exI [of _ t] exI [of _ ?hd] exI [of _ "[]"], auto)
  qed
  then show ?thesis using hd(2,3) l by (simp add: gate_pass_def h')
qed

lemma gate_length_pass:
  assumes g: "gate_ok h t" "h_gate h = WG_LENGTH" and l: "h_fwd h \<le> length (h_buf h)"
  shows "gate_pass h t (gate_length h) \<and> h_buf (gate_length h) = h_buf h"
proof -
  obtain t0 hh n x where t: "t = t0 @ hh @ x" "requests (h_name h) (h_dport h) t0"
      "request_head (h_name h) (h_dport h) hh PP_BODY_LENGTH n" "length x + h_body_left h = n" "0 < h_body_left h"
    using g by (auto simp: gate_ok_def)
  define k where "k = min (length (h_buf h) - h_fwd h) (h_body_left h)"
  define y where "y = take k (drop (h_fwd h) (h_buf h))"
  have h': "gate_length h = h\<lparr>h_fwd := h_fwd h + k, h_body_left := h_body_left h - k,
      h_gate := (if h_body_left h - k = 0 then WG_HEAD else WG_LENGTH)\<rparr>"
    using g(2) by (simp add: gate_length_def Let_def k_def)
  have k: "h_fwd h + k \<le> length (h_buf h)" "length y = k" "k \<le> h_body_left h" using l by (auto simp: k_def y_def)
  have "gate_ok (gate_length h) (t @ y)"
  proof (cases "h_body_left h - k = 0")
    case True
    then have "body_text PP_BODY_LENGTH n (x @ y)" using t(4) k by (simp add: body_text_def)
    from requests.more [OF t(2,3) this] show ?thesis using True t(1) by (simp add: h' gate_ok_def)
  next
    case False
    have "length (x @ y) + (h_body_left h - k) = n" using t(4) k by simp
    then show ?thesis using False t(1-3)
      by (simp add: h' gate_ok_def) (intro exI [of _ t0] exI [of _ hh] exI [of _ "x @ y"], simp)
  qed
  then show ?thesis using k by (simp add: gate_pass_def h' y_def)
qed

lemma gate_chunked_pass:
  assumes g: "gate_ok h t" "h_gate h = WG_CHUNKED" and l: "h_fwd h \<le> length (h_buf h)" and s: "gate_chunked h = (h', True)"
  shows "gate_pass h t h' \<and> h_buf h' = h_buf h"
proof -
  let ?s = "drop (h_fwd h) (h_buf h)"
  obtain t0 hh m x where t: "t = t0 @ hh @ x" "requests (h_name h) (h_dport h) t0"
      "request_head (h_name h) (h_dport h) hh PP_BODY_CHUNKED m" "ck_run ck_zero x 0 = Some (h_ck h, length x, False)"
    using g by (auto simp: gate_ok_def)
  have inv: "ck_inv (h_ck h)" using ck_run_inv [OF ck_inv_zero t(4)] .
  obtain c n d where f: "pp_chunked_feed (h_ck h) ?s = Some (c, n, d)"
    and h': "h' = h\<lparr>h_ck := c, h_fwd := h_fwd h + n, h_gate := (if d then WG_HEAD else WG_CHUNKED)\<rparr>"
    using s g(2) by (auto simp: gate_chunked_def split: option.splits)
  have run: "ck_run (h_ck h) ?s 0 = Some (c, n, d)" using f inv by (simp add: pp_chunked_feed_def ck_loop_run)
  have n: "n \<le> length ?s" "\<not> d \<longrightarrow> n = length ?s" using feed_progress [OF f] by auto
  have "ck_run (h_ck h) ?s (length x) = Some (c, n + length x, d)"
    using ck_run_shift [of "h_ck h" ?s 0 "length x"] run by simp
  moreover have "ck_run ck_zero (x @ ?s) 0 = ck_run (h_ck h) ?s (length x)" unfolding ck_run_append t(4) by simp
  ultimately have all: "ck_run ck_zero (x @ ?s) 0 = Some (c, length x + n, d)" by (metis add.commute)
  let ?y = "take n ?s"
  have "gate_ok h' (t @ ?y)"
  proof (cases d)
    case True
    then have "\<exists>c. ck_run ck_zero (x @ ?s) 0 = Some (c, length x + n, True)" using all by simp
    then have "chunked_body (take (length x + n) (x @ ?s))" unfolding chunked_end_exact by (rule conjunct2)
    moreover have "take (length x + n) (x @ ?s) = x @ ?y" by simp
    ultimately have "body_text PP_BODY_CHUNKED m (x @ ?y)" unfolding body_text_def pp_body.case by metis
    from requests.more [OF t(2,3) this] show ?thesis using True t(1) by (simp add: h' gate_ok_def)
  next
    case False
    then have "ck_run ck_zero (x @ ?y) 0 = Some (c, length (x @ ?y), False)" using all n by simp
    then show ?thesis using False t(1-3)
      by (simp add: h' gate_ok_def) (intro exI [of _ t0] exI [of _ hh] exI [of _ "x @ ?y"], auto)
  qed
  then show ?thesis using n(1) l by (simp add: gate_pass_def h')
qed

lemma gate_if:
  "x = (if m then Some (if c then g else h, False) else if b then Some (g, False) else Some (y, True)) \<Longrightarrow>
    \<exists>h' go. x = Some (h', go) \<and> (\<not> go \<longrightarrow> h' = h \<or> h' = g)"
  by auto

lemma gate_head_some: "\<exists>h' go. gate_head h = Some (h', go) \<and> (\<not> go \<longrightarrow> h' = h \<or> h' = gate_refuse h)"
proof -
  obtain st r where p: "pp_parse (drop (h_fwd h) (h_buf h)) (h_dport h) False = Some (st, r)"
    using parse_answers [of "drop (h_fwd h) (h_buf h)" "h_dport h" False] by (auto simp: parse_ans_def)
  show ?thesis by (rule gate_if) (unfold gate_head_def p Option.bind_lunit prod.case, rule refl)
qed

lemma gate_chunked_stop: "gate_chunked h = (h', False) \<Longrightarrow> h' = gate_refuse h"
  by (auto simp: gate_chunked_def split: option.splits)

lemma held_gate_pass:
  "gate_ok h t \<Longrightarrow> h_fwd h \<le> length (h_buf h) \<Longrightarrow> \<exists>h'. held_gate h = Some h' \<and> gate_pass h t h'"
proof (induction h arbitrary: t rule: held_gate.induct)
  case (1 h)
  note unf = held_gate.simps [of h]
  have go: "\<exists>h'. held_gate h = Some h' \<and> gate_pass h t h'"
    if p: "gate_pass h t h1" "h_buf h1 = h_buf h" and e: "held_gate h = held_gate h1"
      and ih: "\<And>t. gate_ok h1 t \<Longrightarrow> h_fwd h1 \<le> length (h_buf h1) \<Longrightarrow> \<exists>h'. held_gate h1 = Some h' \<and> gate_pass h1 t h'" for h1
    using ih gate_pass_trans [OF p] p(1) e unfolding gate_pass_def by metis
  show ?case
  proof (cases "h_fwd h < length (h_buf h)")
    case False
    then show ?thesis using gate_pass_refl [OF 1(4,5)] by (simp add: unf)
  next
    case True
    show ?thesis
    proof (cases "h_gate h")
      case WG_OPEN
      then show ?thesis using 1(4) by (simp add: gate_ok_def)
    next
      case WG_HEAD
      obtain h1 g where h1: "gate_head h = Some (h1, g)" "\<not> g \<longrightarrow> h1 = h \<or> h1 = gate_refuse h"
        using gate_head_some by blast
      show ?thesis
      proof (cases g)
        case g: True
        then have s: "gate_head h = Some (h1, True)" using h1(1) by simp
        have "held_gate h = held_gate h1" using True WG_HEAD s by (simp add: unf)
        then show ?thesis
          using go [of h1] gate_head_pass [OF 1(4) WG_HEAD s 1(5)] 1(1) [OF True WG_HEAD h1(1) refl g] by blast
      next
        case False
        then show ?thesis using True WG_HEAD h1 gate_pass_refl [OF 1(4,5)] gate_pass_refuse [OF 1(4,5)]
          by (auto simp: unf)
      qed
    next
      case WG_LENGTH
      have "held_gate h = held_gate (gate_length h)" using True WG_LENGTH by (simp add: unf)
      then show ?thesis using go [of "gate_length h"] gate_length_pass [OF 1(4) WG_LENGTH 1(5)] 1(2) [OF True WG_LENGTH] by blast
    next
      case WG_CHUNKED
      obtain h1 g where h1: "gate_chunked h = (h1, g)" by fastforce
      show ?thesis
      proof (cases g)
        case g: True
        then have s: "gate_chunked h = (h1, True)" using h1 by simp
        have "held_gate h = held_gate h1" using True WG_CHUNKED s by (simp add: unf)
        then show ?thesis
          using go [of h1] gate_chunked_pass [OF 1(4) WG_CHUNKED 1(5) s] 1(3) [OF True WG_CHUNKED h1 [symmetric] g] by blast
      next
        case False
        then have "h1 = gate_refuse h" using gate_chunked_stop h1 by simp
        then show ?thesis using True WG_CHUNKED h1 False gate_pass_refuse [OF 1(4,5)] by (simp add: unf)
      qed
    qed
  qed
qed

section \<open>The relay's client side\<close>

text \<open>A round of \<open>held_pump\<close>, the client's half: the gate, the bytes let through to the server, the buffer moved
  up, what the client sent, and its close. The bytes sent, and whether the relay goes on.\<close>

definition pump_send :: "held \<Rightarrow> sent \<Rightarrow> held \<times> string \<times> bool" where
  "pump_send h sd =
     (if h_off h < h_fwd h then
        (case sd of
           SEND_FAIL \<Rightarrow> (h, [], False)
         | SEND_AGAIN \<Rightarrow> (h, [], True)
         | SENT n \<Rightarrow>
             let n = min n (h_fwd h - h_off h) in
             (h\<lparr>h_off := h_off h + n\<rparr>, take n (drop (h_off h) (h_buf h)), True))
      else (h, [], True))"

definition pump_compact :: "held \<Rightarrow> held" where
  "pump_compact h =
     (if h_off h > 0 \<and> h_off h = h_fwd h then
        h\<lparr>h_buf := drop (h_off h) (h_buf h), h_fwd := h_fwd h - h_off h, h_off := 0\<rparr>
      else h)"

definition pump_recv :: "held \<Rightarrow> bool \<Rightarrow> received \<Rightarrow> held option" where
  "pump_recv h readable rv =
     (if \<not> h_eof_c h \<and> length (h_buf h) < PP_IN_MAX \<and> readable then
        (case rv of
           RECV_AGAIN \<Rightarrow> Some h
         | RECV_EOF \<Rightarrow> Some (h\<lparr>h_eof_c := True\<rparr>)
         | RECV_FAIL \<Rightarrow> Some (h\<lparr>h_eof_c := True\<rparr>)
         | RECV s \<Rightarrow>
             let s = take (PP_IN_MAX - length (h_buf h)) s in
             if s = [] then Some (h\<lparr>h_eof_c := True\<rparr>) else held_gate (h\<lparr>h_buf := h_buf h @ s\<rparr>))
      else Some h)"

definition pump_close :: "held \<Rightarrow> held" where
  "pump_close h =
     (let h = (if h_eof_c h \<and> h_off h = length (h_buf h) then h\<lparr>h_shut_s := True\<rparr> else h) in
      if h_eof_c h \<and> length (h_buf h) > h_fwd h \<and> h_off h = h_fwd h then (gate_refuse h)\<lparr>h_shut_s := True\<rparr> else h)"

definition held_pump_up :: "held \<Rightarrow> sent \<Rightarrow> bool \<Rightarrow> received \<Rightarrow> (held \<times> string \<times> bool) option" where
  "held_pump_up h sd readable rv =
     do {
       h \<leftarrow> held_gate h;
       (case pump_send h sd of (h, out, alive) \<Rightarrow>
          if \<not> alive then Some (h, out, False)
          else do {
            h \<leftarrow> pump_recv (pump_compact h) readable rv;
            Some (pump_close h, out, True)
          })
     }"

text \<open>Round after round: everything sent to the server.\<close>

fun pump_rounds :: "held \<Rightarrow> (sent \<times> bool \<times> received) list \<Rightarrow> string option" where
  "pump_rounds h [] = Some []"
| "pump_rounds h ((sd, readable, rv) # rs) =
     do {
       (h', out, alive) \<leftarrow> held_pump_up h sd readable rv;
       if alive then map_option ((@) out) (pump_rounds h' rs) else Some out
     }"

section \<open>Everything sent is requests for the decided name\<close>

text \<open>The bytes let through are those sent and those of the buffer between \<open>off\<close> and \<open>fwd\<close>.\<close>

definition pump_inv :: "string \<Rightarrow> nat \<Rightarrow> held \<Rightarrow> string \<Rightarrow> bool" where
  "pump_inv nm dport h out \<longleftrightarrow>
     h_name h = nm \<and> h_dport h = dport \<and> h_off h \<le> h_fwd h \<and> h_fwd h \<le> length (h_buf h) \<and>
     gate_ok h (out @ drop (h_off h) (take (h_fwd h) (h_buf h)))"

lemma gate_ok_cong:
  "h_gate h' = h_gate h \<Longrightarrow> h_name h' = h_name h \<Longrightarrow> h_dport h' = h_dport h \<Longrightarrow> h_body_left h' = h_body_left h \<Longrightarrow>
    h_ck h' = h_ck h \<Longrightarrow> gate_ok h' t = gate_ok h t"
  by (cases "h_gate h") (simp_all add: gate_ok_def)

lemma pump_inv_gate:
  assumes i: "pump_inv nm dport h out"
  shows "\<exists>h'. held_gate h = Some h' \<and> pump_inv nm dport h' out"
proof -
  let ?t = "out @ drop (h_off h) (take (h_fwd h) (h_buf h))"
  obtain h' where h': "held_gate h = Some h'" "gate_pass h ?t h'"
    using held_gate_pass [of h ?t] i by (auto simp: pump_inv_def)
  let ?u = "take (h_fwd h' - h_fwd h) (drop (h_fwd h) (h_buf h))"
  have le: "h_fwd h \<le> h_fwd h'" using h'(2) by (simp add: gate_pass_def)
  have "drop (h_off h) (take (h_fwd h) (h_buf h)) @ ?u = drop (h_off h) (take (h_fwd h) (h_buf h) @ ?u)"
    using i by (simp add: pump_inv_def)
  also have "take (h_fwd h) (h_buf h) @ ?u = take (h_fwd h') (h_buf h)"
    using take_add [of "h_fwd h" "h_fwd h' - h_fwd h" "h_buf h"] le by simp
  finally have "drop (h_off h) (take (h_fwd h) (h_buf h)) @ ?u = drop (h_off h') (take (h_fwd h') (h_buf h'))"
    using h'(2) by (simp add: gate_pass_def)
  moreover have "gate_ok h' (?t @ ?u)" using h'(2) by (simp add: gate_pass_def)
  ultimately have "gate_ok h' (out @ drop (h_off h') (take (h_fwd h') (h_buf h')))" by simp
  moreover have "h_name h' = nm" "h_dport h' = dport" "h_off h' \<le> h_fwd h'" "h_fwd h' \<le> length (h_buf h')"
    using i h'(2) by (auto simp: pump_inv_def gate_pass_def)
  ultimately show ?thesis using h'(1) unfolding pump_inv_def by blast
qed

lemma pump_inv_send:
  assumes i: "pump_inv nm dport h out" and s: "pump_send h sd = (h', o1, alive)"
  shows "pump_inv nm dport h' (out @ o1)"
proof (cases "h_off h < h_fwd h \<and> (\<exists>n. sd = SENT n)")
  case False
  then have "h' = h \<and> o1 = []" using s by (auto simp: pump_send_def split: if_splits sent.splits)
  then show ?thesis using i by simp
next
  case True
  then obtain m where m: "sd = SENT m" by auto
  define n where "n = min m (h_fwd h - h_off h)"
  have h': "h' = h\<lparr>h_off := h_off h + n\<rparr>" "o1 = take n (drop (h_off h) (h_buf h))"
    using s m True by (auto simp: pump_send_def n_def Let_def)
  let ?w = "drop (h_off h) (take (h_fwd h) (h_buf h))"
  have le: "h_off h + n \<le> h_fwd h" using True unfolding n_def by linarith
  have w: "?w = take (h_fwd h - h_off h) (drop (h_off h) (h_buf h))" by (rule drop_take)
  have "o1 = take n ?w" unfolding w h'(2) take_take n_def by simp
  moreover have "drop (h_off h + n) (take (h_fwd h) (h_buf h)) = drop n ?w" by (simp add: add.commute)
  ultimately have "o1 @ drop (h_off h + n) (take (h_fwd h) (h_buf h)) = ?w" by (metis append_take_drop_id)
  moreover have "gate_ok h' t = gate_ok h t" for t by (rule gate_ok_cong) (simp_all add: h'(1))
  ultimately show ?thesis using i le by (simp add: pump_inv_def h'(1))
qed

lemma pump_inv_compact: "pump_inv nm dport h out \<Longrightarrow> pump_inv nm dport (pump_compact h) out"
  using gate_ok_cong [of "h\<lparr>h_buf := drop (h_off h) (h_buf h), h_fwd := 0, h_off := 0\<rparr>" h]
  by (auto simp: pump_compact_def pump_inv_def)

lemma pump_inv_buffer: "pump_inv nm dport h out \<Longrightarrow> pump_inv nm dport (h\<lparr>h_buf := h_buf h @ s\<rparr>) out"
  using gate_ok_cong [of "h\<lparr>h_buf := h_buf h @ s\<rparr>" h] by (auto simp: pump_inv_def)

lemma pump_inv_flags:
  "pump_inv nm dport h out \<Longrightarrow> pump_inv nm dport (h\<lparr>h_eof_c := True\<rparr>) out"
  "pump_inv nm dport h out \<Longrightarrow> pump_inv nm dport (h\<lparr>h_shut_s := True\<rparr>) out"
  using gate_ok_cong [of "h\<lparr>h_eof_c := True\<rparr>" h] gate_ok_cong [of "h\<lparr>h_shut_s := True\<rparr>" h] by (auto simp: pump_inv_def)

lemma pump_inv_recv: "pump_inv nm dport h out \<Longrightarrow> \<exists>h'. pump_recv h readable rv = Some h' \<and> pump_inv nm dport h' out"
  using pump_inv_flags(1) pump_inv_gate [OF pump_inv_buffer] by (auto simp: pump_recv_def Let_def split: received.split)

lemma pump_inv_refuse: "pump_inv nm dport h out \<Longrightarrow> pump_inv nm dport (gate_refuse h) out"
  using gate_ok_cong [of "gate_refuse h" h] by (auto simp: pump_inv_def gate_refuse_def)

lemma pump_inv_close: "pump_inv nm dport h out \<Longrightarrow> pump_inv nm dport (pump_close h) out"
  using pump_inv_flags(2) pump_inv_refuse by (simp add: pump_close_def Let_def)

lemma pump_inv_up:
  assumes i: "pump_inv nm dport h out"
  shows "\<exists>h' o1 alive. held_pump_up h sd readable rv = Some (h', o1, alive) \<and> pump_inv nm dport h' (out @ o1)"
proof -
  obtain h1 where h1: "held_gate h = Some h1" "pump_inv nm dport h1 out" using pump_inv_gate [OF i] by blast
  obtain h2 o1 alive where h2: "pump_send h1 sd = (h2, o1, alive)" by (cases "pump_send h1 sd")
  note i2 = pump_inv_send [OF h1(2) h2]
  obtain h3 where h3: "pump_recv (pump_compact h2) readable rv = Some h3" "pump_inv nm dport h3 (out @ o1)"
    using pump_inv_recv [OF pump_inv_compact [OF i2]] by blast
  have "held_pump_up h sd readable rv = Some (if alive then pump_close h3 else h2, o1, alive)"
    by (cases alive) (simp_all add: held_pump_up_def h1 h2 h3(1))
  then show ?thesis using i2 pump_inv_close [OF h3(2)] by (cases alive) auto
qed

lemma pump_inv_stream: "pump_inv nm dport h out \<Longrightarrow> \<exists>t u. request_stream nm dport t \<and> t = out @ u"
  using gate_ok_stream by (auto simp: pump_inv_def)

lemma pump_rounds_stream:
  "pump_inv nm dport h out \<Longrightarrow>
    \<exists>o1 t u. pump_rounds h rounds = Some o1 \<and> request_stream nm dport t \<and> t = (out @ o1) @ u"
proof (induction rounds arbitrary: h out)
  case Nil
  then show ?case using pump_inv_stream by simp
next
  case (Cons x rs)
  obtain sd readable rv where x: "x = (sd, readable, rv)" by (cases x)
  obtain h' o1 alive where h': "held_pump_up h sd readable rv = Some (h', o1, alive)" "pump_inv nm dport h' (out @ o1)"
    using pump_inv_up [OF Cons.prems] by blast
  show ?case
  proof (cases alive)
    case True
    obtain o2 t u where "pump_rounds h' rs = Some o2" "request_stream nm dport t" "t = ((out @ o1) @ o2) @ u"
      using Cons.IH [OF h'(2)] by blast
    then show ?thesis using True h'(1) by (simp add: x) blast
  next
    case False
    then show ?thesis using pump_inv_stream [OF h'(2)] h'(1) by (simp add: x)
  qed
qed

text \<open>A connection starts to be relayed with nothing let through.\<close>

lemma relay_inv: "h_kind h = PP_KIND_HTTP \<Longrightarrow> h_skip h = 0 \<Longrightarrow> pump_inv (h_name h) (h_dport h) (held_relay h) []"
  by (simp add: pump_inv_def held_relay_def gate_ok_def requests.none)

text \<open>C0. A plain HTTP connection that is relayed: whatever the client sends, in whatever pieces, and whatever the
  sockets do, every byte the proxy sends to the server belongs to a sequence of whole requests for the name and
  port the Warden decided - each with one Host line, one framing, and the body that framing gives - of which
  the last may be sent in part.\<close>

theorem relayed_requests_only:
  assumes "h_kind h = PP_KIND_HTTP" and "h_skip h = 0"
  shows "\<exists>out t u. pump_rounds (held_relay h) rounds = Some out \<and> request_stream (h_name h) (h_dport h) t \<and> t = out @ u"
  using pump_rounds_stream [OF relay_inv [OF assms], of rounds] by simp

section \<open>The first flight, read by read\<close>

text \<open>C0. While a connection is being read there is always room for more bytes, so that no \<open>recv\<close> of no bytes is
  taken for the client's close; and the connection is reported to the Warden only with the kind, the host name and
  the port of an accepted first flight.\<close>

theorem held_read_room:
  assumes "length (h_buf h) < PP_IN_MAX" and "h_state h = WH_READING"
  shows "\<exists>h' reps. held_read h alloc rv acked_sent = Some (h', reps) \<and>
    (h_state h' = WH_READING \<longrightarrow> length (h_buf h') < PP_IN_MAX \<and> reps = []) \<and>
    (\<forall>k nm p. WP_MSG_REQUEST k nm p \<in> set reps \<longrightarrow>
       h_state h' = WH_WAITING \<and> h_name h' = nm \<and> h_rport h' = p \<and>
       (\<exists>r. first_flight (h_buf h') (h_dport h) (h_acked h) r \<and> pp_kind r = k \<and> pp_name r = nm \<and> pp_port r = p))"
proof (cases rv)
  case (RECV s)
  define z where "z = take (PP_IN_MAX - length (h_buf h)) s"
  obtain st r where p: "pp_parse (h_buf h @ z) (h_dport h) (h_acked h) = Some (st, r)"
    and st: "st = PP_REFUSE \<or> (st = PP_MORE \<and> length (h_buf h @ z) < PP_IN_MAX) \<or>
      (st = PP_ACK \<and> length (h_buf h @ z) \<le> PP_HTTP_MAX) \<or> (st = PP_OK \<and> first_flight (h_buf h @ z) (h_dport h) (h_acked h) r)"
    using parse_answers [of "h_buf h @ z" "h_dport h" "h_acked h"] unfolding parse_ans_def by blast
  show ?thesis
  proof (cases "(h_buf h = [] \<and> \<not> alloc) \<or> z = []")
    case True
    then show ?thesis using RECV by (auto simp: held_read_def Let_def z_def)
  next
    case False
    then show ?thesis using st assms(2)
      unfolding held_read_def RECV Let_def received.case z_def [symmetric] p Option.bind_lunit prod.case
      by (cases st) (auto simp: pp_limits)
  qed
qed (use assms in \<open>auto simp: held_read_def Let_def\<close>)

end
