(* ===== verification/Proxy_Rules.thy ===== *)
theory Proxy_Rules
  imports Proxy_Gate Vdp_Certified
begin

text \<open>
  The proxy's parser and the policy's request rules together. The object \<open>pp_request\<close> gives for a request is
  matched by the patterns the policy parser wrote: a rule that holds on it is a rule for the connection's own
  scheme, host and port.
\<close>

section \<open>A host, a port and a path in an object\<close>

lemma decimal_no_mark: "CHR '':'' \<notin> set (decimal n)" "slash \<notin> set (decimal n)"
  using decimal_digits [of n] by (auto simp: list_all_iff isdigit_def byte_def)

lemma decimal_inject: "decimal m = decimal n \<Longrightarrow> m = n"
  using decval_decimal by metis

text \<open>The part before the first occurrence of a byte.\<close>

lemma split_first:
  assumes "a @ x # r = a' @ x # r'" and "x \<notin> set a" and "x \<notin> set a'"
  shows "a = a'" and "r = r'"
proof -
  have "takeWhile (\<lambda>y. y \<noteq> x) (a @ x # r) = a" "takeWhile (\<lambda>y. y \<noteq> x) (a' @ x # r') = a'"
    using assms(2,3) by (auto simp: takeWhile_append)
  then show "a = a'" using assms(1) by simp
  then show "r = r'" using assms(1) by simp
qed

lemma host_port_unique:
  assumes "h @ '':'' @ decimal p = h' @ '':'' @ decimal p'"
  shows "h = h' \<and> p = p'"
proof -
  have e: "rev (decimal p) @ CHR '':'' # rev h = rev (decimal p') @ CHR '':'' # rev h'"
    using arg_cong [OF assms, of rev] by simp
  have "rev (decimal p) = rev (decimal p')" "rev h = rev h'"
    using split_first [OF e] decimal_no_mark(1) by simp_all
  then show ?thesis using decimal_inject by simp
qed

lemma host_name_slash: "host_name n \<Longrightarrow> slash \<notin> set n"
  using host_name_bytes [of n slash] by (auto simp: name_char_def islower_def isdigit_def byte_def)

lemma web_object_unique:
  assumes s: "s = m @ '' '' @ scheme @ ''://'' @ name @ '':'' @ decimal port @ path"
    and p: "path \<noteq> []" "hd path = slash" and m: "slash \<notin> set m" and n: "host_name name"
    and sc: "scheme = ''https'' \<or> scheme = ''http''" and w: "web_object r https h s"
  shows "h = name \<and> r_rport r = port \<and> (https \<longleftrightarrow> scheme = ''https'')"
proof -
  let ?sc = "if https then ''https'' else ''http''"
  obtain v t where s': "s = v @ ?sc @ ''://'' @ h @ '':'' @ decimal (r_rport r) @ ''/'' @ t" "slash \<notin> set v" "slash \<notin> set h"
    using w unfolding web_object_def by blast
  obtain path' where path: "path = slash # path'" using p by (cases path) auto
  have sl: "slash \<notin> set scheme" "slash \<notin> set ?sc" using sc by auto
  have e: "(m @ '' '' @ scheme @ '':'') @ slash # slash # (name @ '':'' @ decimal port) @ slash # path' =
      (v @ ?sc @ '':'') @ slash # slash # (h @ '':'' @ decimal (r_rport r)) @ slash # t"
    using s s'(1) path by simp
  have "slash \<notin> set (m @ '' '' @ scheme @ '':'')" "slash \<notin> set (v @ ?sc @ '':'')" using m s'(2) sl by simp_all
  note split_first [OF e this]
  then have a: "m @ '' '' @ scheme @ '':'' = v @ ?sc @ '':''"
    and b: "(name @ '':'' @ decimal port) @ slash # path' = (h @ '':'' @ decimal (r_rport r)) @ slash # t" by simp_all
  have "slash \<notin> set (name @ '':'' @ decimal port)" "slash \<notin> set (h @ '':'' @ decimal (r_rport r))"
    using host_name_slash [OF n] decimal_no_mark(2) s'(3) by simp_all
  then have "name @ '':'' @ decimal port = h @ '':'' @ decimal (r_rport r)" by (rule split_first(1) [OF b])
  then have "name = h" "port = r_rport r" using host_port_unique by blast+
  moreover have "last (m @ '' '' @ scheme) = last (v @ ?sc)" using a by simp
  then have "https \<longleftrightarrow> scheme = ''https''" using sc by (auto split: if_splits)
  ultimately show ?thesis by simp
qed

section \<open>A rule that holds on a request\<close>

lemma upper_no_slash: "list_all isupper m \<Longrightarrow> slash \<notin> set m"
  by (auto simp: list_all_iff isupper_def byte_def)

text \<open>C0. From the bytes of a request to the rule that decides it: where a request or mcp rule of a loaded policy holds
  on the object of a request the parser accepted, the rule is for the connection's own host and port, the port is
  proxied, the host is none of those passed through uninspected, and a rule that carries a credential allows and
  the connection's scheme is https.\<close>

theorem request_rule_exact:
  assumes "vdpc_load al buf = (Inr p, al')" and "pp_request s scheme name port = Some (PP_OK, q)"
    and "scheme = ''https'' \<or> scheme = ''http''" and "vdpc_holds p i (pq_object q) = 1" and "web_kind (p_rules p ! i)"
  shows "rule_reaches (p_rules p ! i) name \<and> r_rport (p_rules p ! i) = port \<and> port_proxied p port \<and>
    name \<notin> set (p_proxy_pass p) \<and> (r_cred (p_rules p ! i) \<noteq> 0 \<longrightarrow> scheme = ''https'' \<and> r_allow (p_rules p ! i))"
proof -
  have d: "decided_request s scheme name port q"
    using request_answer [of s scheme name port] assms(2) by (simp add: req_ans_def)
  then obtain path where o: "pq_object q = pq_method q @ '' '' @ scheme @ ''://'' @ name @ '':'' @ decimal port @ path"
      "path \<noteq> []" "hd path = slash" and m: "slash \<notin> set (pq_method q)" and n: "host_name name"
    using upper_no_slash by (auto simp: decided_request_def)
  obtain https h where w: "web_object (p_rules p ! i) https h (pq_object q)" "rule_reaches (p_rules p ! i) h"
      "port_proxied p (r_rport (p_rules p ! i))" "h \<notin> set (p_proxy_pass p)"
      "r_cred (p_rules p ! i) \<noteq> 0 \<longrightarrow> https \<and> r_allow (p_rules p ! i)"
    using web_rule_loaded [OF assms(1,4,5)] by blast
  from web_object_unique [OF o(1-3) m n assms(3) w(1)] w(2-5) show ?thesis by auto
qed

end
