(* ===== verification/Spec2Isabelle.thy ===== *)
theory Spec2Isabelle
  imports Glob Pathology Policy_Config Breaker_Signature Breaker_State Progress Warden_Adapter
    Vdp_Certified Vdp_Bounds Vdp_Canon Vdp_Loops Proxy_Rules
begin

text \<open>
  Verification of the VAREK plan verifier: the C components of \<^verbatim>\<open>src/v1_6\<close> and \<^verbatim>\<open>src/v1_7\<close> that decide, before
  anything runs, whether an agent's plan may run, and what happens to a plan that may not.

  \<^bold>\<open>The program.\<close> An agent declares a plan: a graph of actions. A plan file is read (\<^verbatim>\<open>plan_parser.c\<close>) and handed
  to the adapter (\<^verbatim>\<open>warden_adapter.c\<close>), which asks a decider about each action, stores the decisions in an
  execution plan (\<^verbatim>\<open>execution_plan.c\<close>) and has it evaluated (\<^verbatim>\<open>plan_evaluator.c\<close>): no cycle, and every node
  SATISFIED. Every decision is logged (\<^verbatim>\<open>pathology.c\<close>). The second axis is data flow: a label policy, written in a
  policy file (\<^verbatim>\<open>plan_policy_config.c\<close>), says which actions create, refuse, suspend, permit or clear which
  labels; rules select actions by name and by patterns on arguments and on the parts of a URL
  (\<^verbatim>\<open>plan_dataflow_adapter.c\<close>), and labels are propagated along the edges (\<^verbatim>\<open>plan_dataflow.c\<close>, on the sets of
  \<^verbatim>\<open>plan_label.h\<close>). The Warden asks one function for both axes (\<^verbatim>\<open>plan_warden_binding.c\<close>) and gets a JSON record of a
  refusal (\<^verbatim>\<open>plan_dataflow_pathology.c\<close>). Refused plans are counted per plan and per session by the breaker
  (\<^verbatim>\<open>plan_breaker.c\<close>), which turns a refusal into a terminal outcome when a budget is spent and whose table
  survives a restart in a text file. The progress verifier (\<^verbatim>\<open>plan_progress.c\<close>) certifies a policy before it
  is used: every refusal ends in an automatic outcome.

  \<^bold>\<open>The theories.\<close>
  \<^item> \<open>Prelude\<close>: C strings, bytes and the \<open>ctype\<close> classes, array access that can fail, list lemmas.
  \<^item> \<open>C_Text\<close>: \<open>fgets\<close>, C strings in buffers, \<open>strtol\<close>, an allocator that may fail.
  \<^item> \<open>Exec_Plan\<close>: the plan as two bounded arrays; \<open>exec_plan_add_node\<close>, \<open>exec_plan_add_edge\<close>; the plans a caller can
    build and their invariant.
  \<^item> \<open>Plan_Evaluator\<close>: the CSR adjacency, the iterative depth-first search with its explicit stack, the fold of
    the decisions. The search stays inside its arrays, ends, and finds exactly the cycles; the locale of
    decision joins gives the fold its meaning.
  \<^item> \<open>Label_Set\<close>: the 128-bit sets on two words, as an interpretation of an interface of finite sets.
  \<^item> \<open>Dataflow\<close>: the companion record, Kahn's propagation, the verdict with its cache. The computed labels are
    the least solution of the propagation rules under every sequence of calls; the verdict is monotone.
  \<^item> \<open>Glob\<close>, \<open>Url\<close>: the pattern matcher against a declarative matching relation, and the URL reader against a strict
    grammar.
  \<^item> \<open>Label_Policy\<close>: actions, rules and their lookup, and the population of a companion from a policy.
  \<^item> \<open>Json\<close>, \<open>Flow_Pathology\<close>, \<open>Pathology\<close>: a grammar of JSON texts, the bounded writer and the refusal record,
    and the decision log.
  \<^item> \<open>Warden_Binding\<close>: the gate. A request is authorized exactly when the plan satisfies a specification that does not
    mention how it is checked.
  \<^item> \<open>Policy_Config\<close>: the policy file, every statement with its errors, and every accessor.
  \<^item> \<open>Breaker\<close>, \<open>Breaker_Spec\<close>, \<open>Breaker_Signature\<close>, \<open>Breaker_State\<close>: the tables as interpretations of one interface of
    interned records; the step and a refinement to a step relation on maps; the bounds on
    retries; the signatures; the state file.
  \<^item> \<open>Progress\<close>: the certificate, and what it gives together with the breaker.
  \<^item> \<open>Vdp_Glob\<close>, \<open>Vdp_Rules\<close>, \<open>Vdp_Checker\<close>: the certificate checker of \<^verbatim>\<open>src/varek/v1_4/checker\<close>, which stands behind
    every action the supervisor allows: its globs, the matchers of its rules and the witnesses for them, and the
    ground and symbolic checks, which accept exactly what the first holding rule allows. \<open>Vdp_Loops\<close>: the loop
    over the flags values ends after visiting each subset once.
  \<^item> \<open>Sha256\<close>, \<open>Vdp_Names\<close>, \<open>Vdp_Load\<close>: its policy parser \<open>vdpc_load\<close>, with the digest of the text, the readers of
    hosts, URLs, methods and names, and every statement with its errors. \<open>Vdp_Invariant\<close> states the loader's
    contract as a locale: what every statement keeps holds of every loaded policy. It is interpreted in \<open>Vdp_Loaded\<close>
    on the well-formedness of a policy (from the rules of \<open>Vdp_Parsed_Rule\<close>) and in \<open>Vdp_Bounds\<close> on the sizes
    of the arrays. \<open>Vdp_Dest\<close> follows a request rule's pattern to the objects it matches; \<open>Vdp_Certified\<close> has the
    properties of loaded policies; \<open>Vdp_Canon\<close> the canonical form of MCP URLs.
  \<^item> \<open>Decimal\<close>: decimal numbers as printed and as read, shared by the state file and the URL readers.
  \<^item> \<open>Plan_Parser\<close>, \<open>Warden_Adapter\<close>: the plan file, and the way from a declared plan to a verdict and a log record.

  \<^bold>\<open>Conventions.\<close> A struct is a record with the C field names (prefixed where two structs share one), an enum a
  datatype; a C enum that can hold another value has a constructor for it. An array with a count is the list
  of its used part. A pointer that may be NULL is an option. Functions that change a struct return it. A
  result \<open>None\<close> where C has none stands for an access outside an array, and the theorems show that it does not
  occur. Allocation outcomes, clock readings, file contents and the decider are arguments. Counters
  that saturate or wrap are written out at their width; \<open>unsigned\<close> counts are naturals with the bound
  \<open>UINT_MAX\<close> in the invariant. Sums that C takes in 64 bits over the entries of a table are naturals: they would
  need \<open>2 ^ 32\<close> entries to wrap.

  \<^bold>\<open>Termination.\<close> No definition has fuel. The loops whose end is not structural (the search, Kahn's queue, the glob
  matcher, the field and line readers) are functions with a measure, so each theorem is about a
  result the code does produce.

  \<^bold>\<open>Not modelled.\<close> Freeing memory; writing a record to a \<open>FILE\<close> instead of a buffer; the command line
  tools and demos. Of \<^verbatim>\<open>src/varek/v1_4\<close>: the supervisor and its helper processes, which are system calls
  throughout, the node decision procedure with its SMT solver, and the proxy. The
  decider of the adapter and the plan verdict of the breaker stand where they are called.
\<close>

end
